(* ===== verification/Prelude.thy ===== *)
theory Prelude
  imports Complex_Main "HOL-Library.AList" "HOL-Library.List_Lexorder" "HOL-Library.Char_ord"
    "HOL-Library.Word"
begin

text \<open>
  Shared vocabulary of the development: Python exceptions as values, the insertion-ordered
  Python dictionary, sums over the values of a dictionary, and the generic contracts (a step
  machine with an invariant, a step machine with a monotone observation, a keyed store) that the
  component theories interpret on their own definitions.

  A Python \<open>str\<close> is a \<^typ>\<open>string\<close> that holds its UTF-8 encoding. Equality, concatenation,
  substring tests and the ordering that \<open>sorted\<close> uses (code point order is the order of the
  encodings) are those of Python. Where the source measures or indexes a string the model says so.
  A Python \<open>float\<close> that carries a time or a byte count is a \<^typ>\<open>rat\<close>: arithmetic is exact,
  rounding is not modelled.
\<close>

named_theorems dict_simps \<open>lookup after update and delete\<close>
named_theorems step_defs \<open>definitions of single steps\<close>

section \<open>Exceptions as values\<close>

datatype exn =
    ValueError string
  | TypeError
  | KeyError
  | OverflowError
  | ProtoDecodeError string
  | ConfigurationError
  | StreamError string
  | OSError string
  | ReaderFailure string
  | EOFError
  | Idle

type_synonym 'a res = "exn + 'a"

definition res_bind :: "'a res \<Rightarrow> ('a \<Rightarrow> 'b res) \<Rightarrow> 'b res" where
  "res_bind m f = (case m of Inl e \<Rightarrow> Inl e | Inr x \<Rightarrow> f x)"

lemma res_bind_simps [simp]:
  "res_bind (Inl e) f = Inl e"
  "res_bind (Inr x) f = f x"
  by (simp_all add: res_bind_def)

lemma res_bind_eq_Inr:
  "res_bind m f = Inr y \<longleftrightarrow> (\<exists>x. m = Inr x \<and> f x = Inr y)"
  by (cases m) auto

lemma res_bind_eq_Inl:
  "res_bind m f = Inl e \<longleftrightarrow> m = Inl e \<or> (\<exists>x. m = Inr x \<and> f x = Inl e)"
  by (cases m) auto

text \<open>A loop body that may raise, over a list: the first exception ends the loop.\<close>

fun res_fold :: "('s \<Rightarrow> 'a \<Rightarrow> 's res) \<Rightarrow> 's \<Rightarrow> 'a list \<Rightarrow> 's res" where
  "res_fold f s [] = Inr s"
| "res_fold f s (x # xs) = res_bind (f s x) (\<lambda>s'. res_fold f s' xs)"

fun res_map :: "('a \<Rightarrow> 'b res) \<Rightarrow> 'a list \<Rightarrow> 'b list res" where
  "res_map f [] = Inr []"
| "res_map f (x # xs) = res_bind (f x) (\<lambda>y. res_bind (res_map f xs) (\<lambda>ys. Inr (y # ys)))"

lemma res_map_Inr: "(\<And>x. x \<in> set xs \<Longrightarrow> f x = Inr (g x)) \<Longrightarrow> res_map f xs = Inr (map g xs)"
  by (induction xs) auto

lemma res_map_length: "res_map f xs = Inr ys \<Longrightarrow> length ys = length xs"
  by (induction xs arbitrary: ys) (auto simp: res_bind_eq_Inr)

lemma res_map_image: "res_map f xs = Inr ys \<Longrightarrow> x \<in> set xs \<Longrightarrow> \<exists>y\<in>set ys. f x = Inr y"
  by (induction xs arbitrary: ys) (auto simp: res_bind_eq_Inr)

lemma res_map_source: "res_map f xs = Inr ys \<Longrightarrow> y \<in> set ys \<Longrightarrow> \<exists>x\<in>set xs. f x = Inr y"
  by (induction xs arbitrary: ys) (auto simp: res_bind_eq_Inr)

lemma res_fold_inv:
  assumes "res_fold f s xs = Inr s'" and "P s"
    and "\<And>s x t. P s \<Longrightarrow> x \<in> set xs \<Longrightarrow> f s x = Inr t \<Longrightarrow> P t"
  shows "P s'"
  using assms
proof (induction xs arbitrary: s)
  case Nil
  then show ?case by simp
next
  case (Cons x xs)
  from Cons.prems(1) obtain t where t: "f s x = Inr t" "res_fold f t xs = Inr s'"
    by (auto simp: res_bind_eq_Inr)
  have "P t" by (rule Cons.prems(3) [OF Cons.prems(2) _ t(1)]) simp
  then show ?case
    by (rule Cons.IH [OF t(2)]) (rule Cons.prems(3), simp_all)
qed

section \<open>The insertion-ordered dictionary\<close>

text \<open>
  A Python dictionary is an association list in insertion order: assigning to a present key
  replaces the value in place, assigning to a new key appends, \<open>next(iter(d))\<close> is the head.
\<close>

type_synonym ('k, 'v) dict = "('k \<times> 'v) list"

abbreviation dict_get :: "('k, 'v) dict \<Rightarrow> 'k \<Rightarrow> 'v option" where
  "dict_get d k \<equiv> map_of d k"

abbreviation dict_set :: "'k \<Rightarrow> 'v \<Rightarrow> ('k, 'v) dict \<Rightarrow> ('k, 'v) dict" where
  "dict_set \<equiv> AList.update"

abbreviation dict_del :: "'k \<Rightarrow> ('k, 'v) dict \<Rightarrow> ('k, 'v) dict" where
  "dict_del \<equiv> AList.delete"

definition wf_dict :: "('k, 'v) dict \<Rightarrow> bool" where
  "wf_dict d \<longleftrightarrow> distinct (map fst d)"

lemma wf_dict_Nil [simp]: "wf_dict []"
  by (simp add: wf_dict_def)

lemma wf_dict_set [simp, intro]: "wf_dict d \<Longrightarrow> wf_dict (dict_set k v d)"
  by (simp add: wf_dict_def AList.distinct_update)

lemma wf_dict_del [simp, intro]: "wf_dict d \<Longrightarrow> wf_dict (dict_del k d)"
  by (simp add: wf_dict_def AList.distinct_delete)

lemma wf_dict_tl [simp, intro]: "wf_dict d \<Longrightarrow> wf_dict (tl d)"
  by (cases d) (auto simp: wf_dict_def)

lemma dict_get_set [simp, dict_simps]: "dict_get (dict_set k v d) = (dict_get d)(k \<mapsto> v)"
  by (rule AList.update_conv')

lemma dict_get_del [simp, dict_simps]: "dict_get (dict_del k d) = (dict_get d)(k := None)"
  by (rule AList.delete_conv')

lemma dict_keys_set [simp]: "fst ` set (dict_set k v d) = insert k (fst ` set d)"
  by (simp add: AList.dom_update)

lemma dict_get_dom: "dom (dict_get d) = fst ` set d"
  by (rule dom_map_of_conv_image_fst)

lemma dict_get_in_set: "wf_dict d \<Longrightarrow> dict_get d k = Some v \<longleftrightarrow> (k, v) \<in> set d"
  by (simp add: wf_dict_def)

lemma dict_del_absent: "dict_get d k = None \<Longrightarrow> dict_del k d = d"
  by (metis AList.delete_id map_of_eq_None_iff)

lemma length_dict_set_le: "length (dict_set k v d) \<le> Suc (length d)"
  by (induction d) auto

lemma length_dict_set_present: "dict_get d k = Some w \<Longrightarrow> length (dict_set k v d) = length d"
  by (induction d) (auto split: if_splits)

section \<open>Sums over the values of a dictionary\<close>

definition dict_sum :: "('v \<Rightarrow> 'a::comm_monoid_add) \<Rightarrow> ('k, 'v) dict \<Rightarrow> 'a" where
  "dict_sum f d = sum_list (map (\<lambda>kv. f (snd kv)) d)"

lemma dict_sum_simps [simp]:
  "dict_sum f [] = 0"
  "dict_sum f ((k, v) # d) = f v + dict_sum f d"
  by (simp_all add: dict_sum_def)

lemma dict_sum_set_new:
  "dict_get d k = None \<Longrightarrow> dict_sum f (dict_set k v d) = dict_sum f d + f v"
  by (induction d) (auto simp: ac_simps split: if_splits)

lemma dict_sum_del:
  fixes f :: "'v \<Rightarrow> 'a::ab_group_add"
  shows "wf_dict d \<Longrightarrow> dict_get d k = Some v \<Longrightarrow> dict_sum f (dict_del k d) = dict_sum f d - f v"
proof (induction d)
  case Nil
  then show ?case by simp
next
  case (Cons p d)
  obtain a b where p: "p = (a, b)" by (cases p)
  show ?case
  proof (cases "a = k")
    case True
    with Cons.prems(1) p have "dict_get d k = None"
      by (auto simp: wf_dict_def map_of_eq_None_iff)
    with Cons.prems True p show ?thesis by (simp add: dict_del_absent)
  next
    case False
    with Cons p show ?thesis by (simp add: wf_dict_def)
  qed
qed

lemma dict_sum_set_present:
  fixes f :: "'v \<Rightarrow> 'a::ab_group_add"
  shows "dict_get d k = Some w \<Longrightarrow> dict_sum f (dict_set k v d) = dict_sum f d - f w + f v"
  by (induction d) (auto simp: algebra_simps split: if_splits)

lemma dict_sum_nonneg:
  fixes f :: "'v \<Rightarrow> 'a::ordered_comm_monoid_add"
  assumes "\<And>k v. (k, v) \<in> set d \<Longrightarrow> 0 \<le> f v"
  shows "0 \<le> dict_sum f d"
  unfolding dict_sum_def using assms by (intro sum_list_nonneg) auto

lemma dict_sum_ge_member:
  fixes f :: "'v \<Rightarrow> 'a::linordered_ab_group_add"
  assumes "wf_dict d" and "dict_get d k = Some v" and "\<And>k v. (k, v) \<in> set d \<Longrightarrow> 0 \<le> f v"
  shows "f v \<le> dict_sum f d"
proof -
  have "0 \<le> dict_sum f (dict_del k d)"
    using assms(3) by (intro dict_sum_nonneg) (auto simp: AList.delete_eq)
  with dict_sum_del [OF assms(1,2), of f] show ?thesis by simp
qed

section \<open>Rounding\<close>

text \<open>Python's \<open>round\<close> to an integer (ties to even) and \<open>int\<close> of a float (towards zero).\<close>

definition round_half_even :: "rat \<Rightarrow> int" where
  "round_half_even x =
     (let f = \<lfloor>x\<rfloor>; r = x - rat_of_int f
      in if r < 1 / 2 then f else if 1 / 2 < r then f + 1 else if even f then f else f + 1)"

definition py_int :: "rat \<Rightarrow> int" where
  "py_int x = (if 0 \<le> x then \<lfloor>x\<rfloor> else \<lceil>x\<rceil>)"

section \<open>Generic contracts\<close>

text \<open>
  A machine whose every step keeps an invariant keeps it along every run. The steps are taken under
  a condition on the state and the input, which \<open>run_ok\<close> demands along the run.
\<close>

fun run_ok :: "('s \<Rightarrow> 'e \<Rightarrow> 's) \<Rightarrow> ('s \<Rightarrow> 'e \<Rightarrow> bool) \<Rightarrow> 's \<Rightarrow> 'e list \<Rightarrow> bool" where
  "run_ok step ok s [] = True"
| "run_ok step ok s (e # es) = (ok s e \<and> run_ok step ok (step s e) es)"

lemma run_ok_all: "(\<And>s e. e \<in> set es \<Longrightarrow> ok s e) \<Longrightarrow> run_ok step ok s es"
  by (induction es arbitrary: s) auto

lemma run_ok_append: "run_ok step ok s (xs @ ys) \<longleftrightarrow> run_ok step ok s xs \<and> run_ok step ok (foldl step s xs) ys"
  by (induction xs arbitrary: s) auto

lemma run_ok_take: "run_ok step ok s xs \<Longrightarrow> run_ok step ok s (take n xs)"
  by (metis append_take_drop_id run_ok_append)

locale machine =
  fixes step :: "'s \<Rightarrow> 'e \<Rightarrow> 's"
    and inv :: "'s \<Rightarrow> bool"
    and ok :: "'s \<Rightarrow> 'e \<Rightarrow> bool"
  assumes step_inv: "inv s \<Longrightarrow> ok s e \<Longrightarrow> inv (step s e)"
begin

lemma run_inv: "inv s \<Longrightarrow> run_ok step ok s es \<Longrightarrow> inv (foldl step s es)"
  by (induction es arbitrary: s) (auto intro: step_inv)

end

text \<open>The same with an observation that no step decreases.\<close>

locale monotone_machine = machine step inv ok
  for step :: "'s \<Rightarrow> 'e \<Rightarrow> 's" and inv :: "'s \<Rightarrow> bool" and ok :: "'s \<Rightarrow> 'e \<Rightarrow> bool" +
  fixes obs :: "'s \<Rightarrow> 'm::preorder"
  assumes step_mono: "inv s \<Longrightarrow> ok s e \<Longrightarrow> obs s \<le> obs (step s e)"
begin

lemma run_mono: "inv s \<Longrightarrow> run_ok step ok s es \<Longrightarrow> obs s \<le> obs (foldl step s es)"
proof (induction es arbitrary: s)
  case Nil
  then show ?case by simp
next
  case (Cons e es)
  then have "obs s \<le> obs (step s e)" by (simp add: step_mono)
  also have "\<dots> \<le> obs (foldl step (step s e) es)"
    using Cons by (simp add: step_inv)
  finally show ?case by simp
qed

end

end
