(* ===== verification/Tracker.thy ===== *)
theory Tracker
  imports Prelude
begin

text \<open>
  The lifecycle accumulator of \<open>monitor-v2/collector.py\<close>: the state and the operations of the class
  \<open>Tracker\<close>. Every method is a function from the tracker record to the new tracker record; a
  connection dictionary is the record \<open>conn\<close>, an event's connection object the record
  \<open>conn_fields\<close>, in which an absent key is \<^const>\<open>None\<close>. The dictionaries \<open>active\<close>, \<open>closed\<close>,
  \<open>finalized\<close> and \<open>_banked_ids\<close> keep their insertion order.
\<close>

section \<open>Data\<close>

type_synonym ident = "string option \<times> string option"

record conn =
  c_id :: string
  c_user :: "string option"
  c_inbound :: "string option"
  c_inbound_type :: string
  c_network :: string
  c_source :: string
  c_destination :: string
  c_created_at :: rat
  c_closed_at :: rat
  c_uplink_rate :: rat
  c_downlink_rate :: rat
  c_uplink_total :: rat
  c_downlink_total :: rat
  c_last_seen :: rat

record conn_fields =
  f_id :: "string option"
  f_user :: "string option"
  f_inbound :: "string option"
  f_inbound_type :: "string option"
  f_ip_version :: "int option"
  f_network :: "string option"
  f_source :: "string option"
  f_destination :: "string option"
  f_created_at :: "int option"
  f_closed_at :: "int option"
  f_uplink_total :: "int option"
  f_downlink_total :: "int option"

definition no_fields :: conn_fields where
  "no_fields = \<lparr>f_id = None, f_user = None, f_inbound = None, f_inbound_type = None,
     f_ip_version = None, f_network = None, f_source = None, f_destination = None,
     f_created_at = None, f_closed_at = None, f_uplink_total = None, f_downlink_total = None\<rparr>"

record event =
  e_type :: string
  e_id :: "string option"
  e_connection :: "conn_fields option"
  e_uplink_delta :: rat
  e_downlink_delta :: rat
  e_closed_at :: "int option"

datatype raw_event = NotADict | Ev event

datatype banked_state = BankedClosed | BankedAbandoned

record banked =
  b_user :: "string option"
  b_inbound :: "string option"
  b_uplink :: rat
  b_downlink :: rat
  b_state :: banked_state

record tracker =
  closed_ttl :: rat
  active :: "(string, conn) dict"
  closed :: "(string, conn) dict"
  finalized :: "(ident, rat \<times> rat) dict"
  banked_id_cap :: nat
  banked_ids :: "(string, banked) dict"
  devices :: "string option set"
  batch_count :: nat
  skipped_events :: nat
  duplicate_events :: nat
  identity_conflicts :: nat
  abandoned_on_reset :: nat

definition init_tracker :: "rat \<Rightarrow> nat \<Rightarrow> tracker" where
  "init_tracker ttl cap =
     \<lparr>closed_ttl = ttl, active = [], closed = [], finalized = [], banked_id_cap = cap,
      banked_ids = [], devices = {}, batch_count = 0, skipped_events = 0, duplicate_events = 0,
      identity_conflicts = 0, abandoned_on_reset = 0\<rparr>"

section \<open>Helpers\<close>

definition truthy :: "string option \<Rightarrow> bool" where
  "truthy s \<longleftrightarrow> (case s of None \<Rightarrow> False | Some x \<Rightarrow> x \<noteq> [])"

definition to_seconds :: "rat option \<Rightarrow> rat" where
  "to_seconds timestamp =
     (case timestamp of None \<Rightarrow> 0
      | Some value \<Rightarrow> if value = 0 then 0 else if 100000000000 < value then value / 1000 else value)"

definition int_seconds :: "int option \<Rightarrow> rat" where
  "int_seconds t = to_seconds (map_option rat_of_int t)"

definition or_else :: "rat \<Rightarrow> rat \<Rightarrow> rat" where
  "or_else a b = (if a \<noteq> 0 then a else b)"

definition str_default :: "string option \<Rightarrow> string" where
  "str_default s = (case s of None \<Rightarrow> [] | Some x \<Rightarrow> x)"

definition total_default :: "int option \<Rightarrow> rat" where
  "total_default t = (case t of None \<Rightarrow> 0 | Some n \<Rightarrow> rat_of_int n)"

definition row_identity :: "conn_fields \<Rightarrow> ident" where
  "row_identity flds = (f_user flds, f_inbound flds)"

definition conn_ident :: "conn \<Rightarrow> ident" where
  "conn_ident conn = (c_user conn, c_inbound conn)"

definition banked_ident :: "banked \<Rightarrow> ident" where
  "banked_ident b = (b_user b, b_inbound b)"

definition new_connection :: "string \<Rightarrow> ident \<Rightarrow> conn_fields \<Rightarrow> rat \<Rightarrow> conn" where
  "new_connection cid ident flds now =
     \<lparr>c_id = cid, c_user = fst ident, c_inbound = snd ident,
      c_inbound_type = str_default (f_inbound_type flds),
      c_network = str_default (f_network flds),
      c_source = str_default (f_source flds),
      c_destination = str_default (f_destination flds),
      c_created_at = or_else (int_seconds (f_created_at flds)) now,
      c_closed_at = 0, c_uplink_rate = 0, c_downlink_rate = 0,
      c_uplink_total = total_default (f_uplink_total flds),
      c_downlink_total = total_default (f_downlink_total flds),
      c_last_seen = now\<rparr>"

section \<open>Banking\<close>

definition slot :: "(ident, rat \<times> rat) dict \<Rightarrow> ident \<Rightarrow> rat \<times> rat" where
  "slot fin key = (case dict_get fin key of None \<Rightarrow> (0, 0) | Some s \<Rightarrow> s)"

definition bank :: "ident \<Rightarrow> rat \<Rightarrow> rat \<Rightarrow> tracker \<Rightarrow> tracker" where
  "bank key up down t =
     t\<lparr>finalized := dict_set key
         (fst (slot (finalized t) key) + up, snd (slot (finalized t) key) + down) (finalized t)\<rparr>"

definition unbank :: "ident \<Rightarrow> rat \<Rightarrow> rat \<Rightarrow> tracker \<Rightarrow> tracker" where
  "unbank key up down t =
     t\<lparr>finalized := dict_set key
         (max 0 (fst (slot (finalized t) key) - up), max 0 (snd (slot (finalized t) key) - down))
         (finalized t)\<rparr>"

function evict :: "nat \<Rightarrow> ('k, 'v) dict \<Rightarrow> ('k, 'v) dict" where
  "evict cap d = (if cap < length d then evict cap (tl d) else d)"
  by pat_completeness auto
termination by (relation "measure (\<lambda>(cap, d). length d)") auto

declare evict.simps [simp del]

definition record_banked :: "string \<Rightarrow> ident \<Rightarrow> rat \<Rightarrow> rat \<Rightarrow> banked_state \<Rightarrow> tracker \<Rightarrow> tracker" where
  "record_banked cid ident up down state t =
     t\<lparr>banked_ids := evict (banked_id_cap t)
         (dict_set cid \<lparr>b_user = fst ident, b_inbound = snd ident, b_uplink = up, b_downlink = down,
                        b_state = state\<rparr>
            (dict_del cid (banked_ids t)))\<rparr>"

definition drop_banked :: "string \<Rightarrow> tracker \<Rightarrow> tracker" where
  "drop_banked cid t = t\<lparr>banked_ids := dict_del cid (banked_ids t)\<rparr>"

definition unbank_record :: "banked \<Rightarrow> tracker \<Rightarrow> tracker" where
  "unbank_record b t = unbank (banked_ident b) (b_uplink b) (b_downlink b) t"

definition may_proceed :: "conn \<Rightarrow> conn_fields \<Rightarrow> bool" where
  "may_proceed conn flds \<longleftrightarrow>
     \<not> truthy (f_user flds) \<or> \<not> truthy (f_inbound flds) \<or> row_identity flds = conn_ident conn"

text \<open>\<open>_identity_conflict\<close> on a conflict: the counter moves and the connection is touched.\<close>

definition note_conflict :: "tracker \<Rightarrow> tracker" where
  "note_conflict t = t\<lparr>identity_conflicts := Suc (identity_conflicts t)\<rparr>"

definition skip :: "tracker \<Rightarrow> tracker" where
  "skip t = t\<lparr>skipped_events := Suc (skipped_events t)\<rparr>"

definition note_duplicate :: "tracker \<Rightarrow> tracker" where
  "note_duplicate t = t\<lparr>duplicate_events := Suc (duplicate_events t)\<rparr>"

definition closing :: "conn \<Rightarrow> rat \<Rightarrow> rat option \<Rightarrow> conn" where
  "closing conn now closed_at =
     conn\<lparr>c_closed_at := or_else (or_else (to_seconds closed_at) (c_closed_at conn)) now,
          c_last_seen := now, c_uplink_rate := 0, c_downlink_rate := 0\<rparr>"

definition finalize :: "conn \<Rightarrow> rat \<Rightarrow> rat option \<Rightarrow> tracker \<Rightarrow> tracker" where
  "finalize conn now closed_at t =
     (let conn' = closing conn now closed_at;
          t1 = bank (conn_ident conn') (c_uplink_total conn') (c_downlink_total conn') t;
          t2 = record_banked (c_id conn') (conn_ident conn') (c_uplink_total conn')
                 (c_downlink_total conn') BankedClosed t1
      in t2\<lparr>closed := dict_set (c_id conn') conn' (closed t2)\<rparr>)"

section \<open>Active rows\<close>

definition raise_totals :: "conn_fields \<Rightarrow> conn \<Rightarrow> conn" where
  "raise_totals flds conn =
     conn\<lparr>c_uplink_total := max (c_uplink_total conn) (total_default (f_uplink_total flds)),
          c_downlink_total := max (c_downlink_total conn) (total_default (f_downlink_total flds))\<rparr>"

text \<open>The guarded form of UPDATE and CLOSED: only the totals the event carries.\<close>

definition raise_present :: "conn_fields \<Rightarrow> conn \<Rightarrow> conn" where
  "raise_present flds conn =
     (let c1 = (if f_uplink_total flds \<noteq> None
                then conn\<lparr>c_uplink_total := max (c_uplink_total conn) (total_default (f_uplink_total flds))\<rparr>
                else conn)
      in if f_downlink_total flds \<noteq> None
         then c1\<lparr>c_downlink_total := max (c_downlink_total c1) (total_default (f_downlink_total flds))\<rparr>
         else c1)"

definition carried_floor :: "banked option \<Rightarrow> conn \<Rightarrow> conn" where
  "carried_floor carried conn =
     (case carried of None \<Rightarrow> conn
      | Some b \<Rightarrow> conn\<lparr>c_uplink_total := max (b_uplink b) (c_uplink_total conn),
                        c_downlink_total := max (b_downlink b) (c_downlink_total conn)\<rparr>)"

definition start_active :: "string \<Rightarrow> conn_fields \<Rightarrow> rat \<Rightarrow> tracker \<Rightarrow> tracker" where
  "start_active cid flds now t =
     (let display = dict_get (closed t) cid;
          carried = dict_get (banked_ids t) cid;
          t1 = drop_banked cid (t\<lparr>closed := dict_del cid (closed t)\<rparr>);
          t2 = (case carried of None \<Rightarrow> t1 | Some b \<Rightarrow> unbank_record b t1);
          conn = carried_floor carried (new_connection cid (row_identity flds) flds now);
          conn' = (case display of None \<Rightarrow> conn
                   | Some d \<Rightarrow> conn\<lparr>c_created_at := or_else (c_created_at d) (c_created_at conn)\<rparr>)
      in t2\<lparr>active := dict_set cid conn' (active t2),
            devices := insert (c_user conn') (devices t2)\<rparr>)"

definition identity_source :: "string \<Rightarrow> tracker \<Rightarrow> ident option" where
  "identity_source cid t =
     (case dict_get (closed t) cid of
        Some d \<Rightarrow> Some (conn_ident d)
      | None \<Rightarrow> map_option banked_ident (dict_get (banked_ids t) cid))"

definition upsert_active :: "string \<Rightarrow> conn_fields \<Rightarrow> rat \<Rightarrow> tracker \<Rightarrow> tracker" where
  "upsert_active cid flds now t =
     (case dict_get (active t) cid of
        Some existing \<Rightarrow>
          if \<not> may_proceed existing flds
          then note_conflict (t\<lparr>active := dict_set cid (existing\<lparr>c_last_seen := now\<rparr>) (active t)\<rparr>)
          else t\<lparr>active := dict_set cid ((raise_totals flds existing)\<lparr>c_last_seen := now\<rparr>) (active t)\<rparr>
      | None \<Rightarrow>
          if identity_source cid t \<noteq> None \<and> identity_source cid t \<noteq> Some (row_identity flds)
          then note_conflict t
          else start_active cid flds now t)"

section \<open>Closed rows\<close>

definition close_fresh :: "string \<Rightarrow> ident \<Rightarrow> conn_fields \<Rightarrow> rat \<Rightarrow> rat \<Rightarrow> tracker \<Rightarrow> tracker" where
  "close_fresh cid ident flds now closed_at t =
     (let conn = (new_connection cid ident flds now)\<lparr>c_closed_at := or_else closed_at now\<rparr>
      in finalize conn now (Some (c_closed_at conn)) t)"

definition record_closed_row :: "string \<Rightarrow> conn_fields \<Rightarrow> rat \<Rightarrow> rat \<Rightarrow> tracker \<Rightarrow> tracker" where
  "record_closed_row cid flds now closed_at t0 =
     (let t = t0\<lparr>devices := insert (f_user flds) (devices t0)\<rparr>
      in case dict_get (banked_ids t) cid of
           Some b \<Rightarrow>
             if banked_ident b \<noteq> row_identity flds then note_conflict t
             else let t1 = note_duplicate t
                  in if b_state b = BankedAbandoned
                     then close_fresh cid (row_identity flds) flds now closed_at
                            (unbank_record b (drop_banked cid t1))
                     else t1
         | None \<Rightarrow>
             if dict_get (closed t) cid \<noteq> None then note_duplicate t
             else case dict_get (active t) cid of
                    Some conn \<Rightarrow>
                      finalize (raise_totals flds conn) now (Some closed_at)
                        (t\<lparr>active := dict_del cid (active t)\<rparr>)
                  | None \<Rightarrow> close_fresh cid (row_identity flds) flds now closed_at t)"

section \<open>Reset\<close>

definition ev_fields :: "event \<Rightarrow> conn_fields" where
  "ev_fields e = (case e_connection e of None \<Rightarrow> no_fields | Some f \<Rightarrow> f)"

definition reset_id :: "event \<Rightarrow> string option" where
  "reset_id e = (if truthy (e_id e) then e_id e else f_id (ev_fields e))"

text \<open>One row of a reset batch: the tracker and the ids seen so far.\<close>

fun reset_row :: "rat \<Rightarrow> tracker \<times> string set \<Rightarrow> raw_event \<Rightarrow> tracker \<times> string set" where
  "reset_row now (t, seen) NotADict = (skip t, seen)"
| "reset_row now (t, seen) (Ev e) =
     (let flds = ev_fields e in
      case reset_id e of
        None \<Rightarrow> (skip t, seen)
      | Some cid \<Rightarrow>
          if cid = [] \<or> \<not> truthy (f_user flds) \<or> \<not> truthy (f_inbound flds) then (skip t, seen)
          else let closed_at = int_seconds (f_closed_at flds)
               in if closed_at \<noteq> 0 then (record_closed_row cid flds now closed_at t, insert cid seen)
                  else (upsert_active cid flds now t, insert cid seen))"

definition abandon :: "tracker \<Rightarrow> string \<Rightarrow> tracker" where
  "abandon t cid =
     (case dict_get (active t) cid of
        None \<Rightarrow> t
      | Some conn \<Rightarrow>
          (let t1 = t\<lparr>active := dict_del cid (active t),
                      abandoned_on_reset := Suc (abandoned_on_reset t)\<rparr>;
               t2 = bank (conn_ident conn) (c_uplink_total conn) (c_downlink_total conn) t1
           in record_banked (c_id conn) (conn_ident conn) (c_uplink_total conn)
                (c_downlink_total conn) BankedAbandoned t2))"

definition apply_reset :: "raw_event list \<Rightarrow> rat \<Rightarrow> tracker \<Rightarrow> tracker" where
  "apply_reset events now t =
     (let (t1, seen) = foldl (reset_row now) (t, {}) events
      in foldl abandon t1 (filter (\<lambda>c. c \<notin> seen) (map fst (active t1))))"

section \<open>Events\<close>

definition apply_new :: "event \<Rightarrow> rat \<Rightarrow> tracker \<Rightarrow> tracker" where
  "apply_new e now t =
     (let flds = ev_fields e; closed_at = int_seconds (f_closed_at flds) in
      if closed_at \<noteq> 0 then record_closed_row (str_default (e_id e)) flds now closed_at t
      else if \<not> truthy (e_id e) then skip t
      else if \<not> truthy (f_user flds) \<or> \<not> truthy (f_inbound flds) then skip t
      else upsert_active (str_default (e_id e)) flds now t)"

definition get_id :: "(string, 'v) dict \<Rightarrow> string option \<Rightarrow> 'v option" where
  "get_id d cid = Option.bind cid (dict_get d)"

definition update_conn :: "event \<Rightarrow> rat \<Rightarrow> conn \<Rightarrow> conn" where
  "update_conn e now conn =
     (let flds = ev_fields e;
          elapsed = max (now - c_last_seen conn) (1 / 1000000);
          c1 = (if f_uplink_total flds \<noteq> None \<or> f_downlink_total flds \<noteq> None
                then raise_present flds conn
                else conn\<lparr>c_uplink_total := c_uplink_total conn + e_uplink_delta e,
                          c_downlink_total := c_downlink_total conn + e_downlink_delta e\<rparr>)
      in c1\<lparr>c_uplink_rate := e_uplink_delta e / elapsed,
            c_downlink_rate := e_downlink_delta e / elapsed, c_last_seen := now\<rparr>)"

definition apply_update :: "event \<Rightarrow> rat \<Rightarrow> tracker \<Rightarrow> tracker" where
  "apply_update e now t =
     (case get_id (active t) (e_id e) of
        None \<Rightarrow> skip t
      | Some conn \<Rightarrow>
          if ev_fields e \<noteq> no_fields \<and> \<not> may_proceed conn (ev_fields e)
          then note_conflict (t\<lparr>active := dict_set (str_default (e_id e)) (conn\<lparr>c_last_seen := now\<rparr>) (active t)\<rparr>)
          else t\<lparr>active := dict_set (str_default (e_id e)) (update_conn e now conn) (active t)\<rparr>)"

definition event_closed_at :: "event \<Rightarrow> int option" where
  "event_closed_at e =
     (case e_closed_at e of Some n \<Rightarrow> if n \<noteq> 0 then Some n else f_closed_at (ev_fields e)
      | None \<Rightarrow> f_closed_at (ev_fields e))"

definition close_active :: "event \<Rightarrow> rat \<Rightarrow> string \<Rightarrow> conn \<Rightarrow> tracker \<Rightarrow> tracker" where
  "close_active e now cid conn t =
     (let flds = ev_fields e;
          t1 = t\<lparr>active := dict_del cid (active t)\<rparr>;
          closed_at = map_option rat_of_int (event_closed_at e)
      in if flds = no_fields then finalize conn now closed_at t1
         else if may_proceed conn flds
              then finalize (raise_present flds conn) now closed_at t1
              else finalize (conn\<lparr>c_last_seen := now\<rparr>) now closed_at (note_conflict t1))"

definition close_abandoned :: "event \<Rightarrow> rat \<Rightarrow> string \<Rightarrow> banked \<Rightarrow> tracker \<Rightarrow> tracker" where
  "close_abandoned e now cid b t =
     (let flds = ev_fields e in
      if flds = no_fields then t
      else if banked_ident b \<noteq> row_identity flds then note_conflict t
      else let final = new_connection cid (banked_ident b) flds now;
               closed_at = or_else (or_else (int_seconds (e_closed_at e)) (int_seconds (f_closed_at flds))) now
           in finalize (final\<lparr>c_closed_at := closed_at\<rparr>) now (Some closed_at)
                (unbank_record b (drop_banked cid t)))"

definition apply_closed :: "event \<Rightarrow> rat \<Rightarrow> tracker \<Rightarrow> tracker" where
  "apply_closed e now t =
     (case e_id e of
        None \<Rightarrow> skip t
      | Some cid \<Rightarrow>
          (case dict_get (active t) cid of
             Some conn \<Rightarrow> close_active e now cid conn t
           | None \<Rightarrow>
               (case dict_get (banked_ids t) cid of
                  Some b \<Rightarrow> if b_state b = BankedClosed then note_duplicate t
                            else close_abandoned e now cid b t
                | None \<Rightarrow> if dict_get (closed t) cid \<noteq> None then note_duplicate t else skip t)))"

fun apply_event :: "rat \<Rightarrow> tracker \<Rightarrow> raw_event \<Rightarrow> tracker" where
  "apply_event now t NotADict = skip t"
| "apply_event now t (Ev e) =
     (if e_type e = ''NEW'' then apply_new e now t
      else if e_type e = ''UPDATE'' then apply_update e now t
      else if e_type e = ''CLOSED'' then apply_closed e now t
      else skip t)"

section \<open>Batches\<close>

datatype batch = NotABatch | Batch (b_events: "raw_event list") (b_reset: bool)

fun apply_batch :: "batch \<Rightarrow> rat \<Rightarrow> tracker \<Rightarrow> tracker" where
  "apply_batch NotABatch now t = skip t"
| "apply_batch (Batch events is_reset) now t =
     (if events = [] \<and> \<not> is_reset then t
      else let t1 = t\<lparr>batch_count := Suc (batch_count t)\<rparr>
           in if is_reset then apply_reset events now t1
              else foldl (apply_event now) t1 events)"

end
