(* ===== verification/Ledger.thy ===== *)
theory Ledger
  imports Tracker
begin

text \<open>
  The accounting of the tracker: the cumulative traffic of a (user, inbound) identity is what the
  ledger \<open>finalized\<close> holds plus the totals of its active connections. The theory states the invariant
  that ties the active table, the display cache, the replay guard and the ledger together, proves
  that every operation keeps it, and derives that cumulative totals never decrease and that a
  lifecycle is booked once.
\<close>


section \<open>Eviction\<close>

lemma evict_eq: "evict cap d = drop (length d - cap) d"
proof (induction cap d rule: evict.induct)
  case (1 cap d)
  show ?case
  proof (cases "cap < length d")
    case True
    with 1 have "evict cap d = drop (length (tl d) - cap) (tl d)"
      by (subst evict.simps) simp
    also have "\<dots> = drop (length d - cap) d"
      using True by (cases d) (simp_all add: Suc_diff_le drop_Cons')
    finally show ?thesis .
  next
    case False
    then show ?thesis by (subst evict.simps) simp
  qed
qed

lemma length_evict [simp]: "length (evict cap d) \<le> cap"
  by (simp add: evict_eq)

lemma wf_evict [simp, intro]: "wf_dict d \<Longrightarrow> wf_dict (evict cap d)"
  by (simp add: evict_eq wf_dict_def drop_map [symmetric])

lemma set_evict: "set (evict cap d) \<subseteq> set d"
  by (simp add: evict_eq set_drop_subset)

lemma get_evict: "wf_dict d \<Longrightarrow> dict_get (evict cap d) k = Some v \<Longrightarrow> dict_get d k = Some v"
  using set_evict [of cap d] by (auto simp: dict_get_in_set)

lemma dict_sum_drop_le:
  fixes f :: "'v \<Rightarrow> 'a::linordered_ab_group_add"
  assumes "\<And>k v. (k, v) \<in> set d \<Longrightarrow> 0 \<le> f v"
  shows "dict_sum f (drop n d) \<le> dict_sum f d"
proof -
  have "dict_sum f d = dict_sum f (take n d) + dict_sum f (drop n d)"
    unfolding dict_sum_def by (metis append_take_drop_id map_append sum_list_append)
  moreover have "0 \<le> dict_sum f (take n d)"
    by (rule dict_sum_nonneg) (use assms in_set_takeD in fast)
  ultimately show ?thesis by simp
qed

section \<open>Totals\<close>

datatype dir = Up | Down

fun conn_total :: "dir \<Rightarrow> conn \<Rightarrow> rat" where
  "conn_total Up c = c_uplink_total c"
| "conn_total Down c = c_downlink_total c"

fun banked_total :: "dir \<Rightarrow> banked \<Rightarrow> rat" where
  "banked_total Up b = b_uplink b"
| "banked_total Down b = b_downlink b"

fun slot_total :: "dir \<Rightarrow> rat \<times> rat \<Rightarrow> rat" where
  "slot_total Up s = fst s"
| "slot_total Down s = snd s"

definition conn_part :: "dir \<Rightarrow> ident \<Rightarrow> conn \<Rightarrow> rat" where
  "conn_part d k c = (if conn_ident c = k then conn_total d c else 0)"

definition banked_part :: "dir \<Rightarrow> ident \<Rightarrow> banked \<Rightarrow> rat" where
  "banked_part d k b = (if banked_ident b = k then banked_total d b else 0)"

definition banked_sum :: "dir \<Rightarrow> ident \<Rightarrow> tracker \<Rightarrow> rat" where
  "banked_sum d k t = dict_sum (banked_part d k) (banked_ids t)"

definition fin_total :: "dir \<Rightarrow> ident \<Rightarrow> tracker \<Rightarrow> rat" where
  "fin_total d k t = slot_total d (slot (finalized t) k)"

definition cumulative :: "dir \<Rightarrow> ident \<Rightarrow> tracker \<Rightarrow> rat" where
  "cumulative d k t = fin_total d k t + dict_sum (conn_part d k) (active t)"

definition conn_ok :: "string \<Rightarrow> conn \<Rightarrow> bool" where
  "conn_ok cid c \<longleftrightarrow> c_id c = cid \<and> 0 \<le> c_uplink_total c \<and> 0 \<le> c_downlink_total c"

definition tracker_inv :: "tracker \<Rightarrow> bool" where
  "tracker_inv t \<longleftrightarrow>
     wf_dict (active t) \<and> wf_dict (closed t) \<and> wf_dict (banked_ids t) \<and>
     (\<forall>cid c. dict_get (active t) cid = Some c \<longrightarrow>
        conn_ok cid c \<and> dict_get (banked_ids t) cid = None \<and> dict_get (closed t) cid = None) \<and>
     (\<forall>cid c b. dict_get (closed t) cid = Some c \<longrightarrow> dict_get (banked_ids t) cid = Some b \<longrightarrow>
        conn_ident c = banked_ident b) \<and>
     (\<forall>cid b. dict_get (banked_ids t) cid = Some b \<longrightarrow> 0 \<le> b_uplink b \<and> 0 \<le> b_downlink b) \<and>
     (\<forall>d k. banked_sum d k t \<le> fin_total d k t) \<and>
     length (banked_ids t) \<le> banked_id_cap t"

lemma inv_wf:
  assumes "tracker_inv t"
  shows "wf_dict (active t)" "wf_dict (closed t)" "wf_dict (banked_ids t)"
  using assms by (simp_all add: tracker_inv_def)

lemma inv_active:
  assumes "tracker_inv t" "dict_get (active t) cid = Some c"
  shows "conn_ok cid c" "dict_get (banked_ids t) cid = None" "dict_get (closed t) cid = None"
  using assms by (simp_all add: tracker_inv_def)

lemma inv_same_ident:
  "tracker_inv t \<Longrightarrow> dict_get (closed t) cid = Some c \<Longrightarrow> dict_get (banked_ids t) cid = Some b \<Longrightarrow>
     conn_ident c = banked_ident b"
  by (simp add: tracker_inv_def)

lemma inv_banked_nonneg:
  assumes "tracker_inv t" "dict_get (banked_ids t) cid = Some b"
  shows "0 \<le> b_uplink b" "0 \<le> b_downlink b"
  using assms by (simp_all add: tracker_inv_def)

lemma inv_ledger: "tracker_inv t \<Longrightarrow> banked_sum d k t \<le> fin_total d k t"
  unfolding tracker_inv_def by blast

lemma inv_cap: "tracker_inv t \<Longrightarrow> length (banked_ids t) \<le> banked_id_cap t"
  by (simp add: tracker_inv_def)

lemma tracker_invI:
  assumes "wf_dict (active t)" "wf_dict (closed t)" "wf_dict (banked_ids t)"
    and "\<And>cid c. dict_get (active t) cid = Some c \<Longrightarrow> conn_ok cid c"
    and "\<And>cid c. dict_get (active t) cid = Some c \<Longrightarrow> dict_get (banked_ids t) cid = None"
    and "\<And>cid c. dict_get (active t) cid = Some c \<Longrightarrow> dict_get (closed t) cid = None"
    and "\<And>cid c b. dict_get (closed t) cid = Some c \<Longrightarrow> dict_get (banked_ids t) cid = Some b \<Longrightarrow>
          conn_ident c = banked_ident b"
    and "\<And>cid b. dict_get (banked_ids t) cid = Some b \<Longrightarrow> 0 \<le> b_uplink b \<and> 0 \<le> b_downlink b"
    and "\<And>d k. banked_sum d k t \<le> fin_total d k t"
    and "length (banked_ids t) \<le> banked_id_cap t"
  shows "tracker_inv t"
  using assms unfolding tracker_inv_def by blast

lemma conn_part_nonneg: "conn_ok cid c \<Longrightarrow> 0 \<le> conn_part d k c"
  by (cases d) (simp_all add: conn_part_def conn_ok_def)

lemma banked_part_nonneg: "0 \<le> b_uplink b \<Longrightarrow> 0 \<le> b_downlink b \<Longrightarrow> 0 \<le> banked_part d k b"
  by (cases d) (simp_all add: banked_part_def)

lemma fin_total_bank:
  "fin_total d k (bank key up down t)
     = fin_total d k t + (if k = key then (case d of Up \<Rightarrow> up | Down \<Rightarrow> down) else 0)"
  by (cases d) (auto simp: fin_total_def bank_def slot_def)

lemma bank_frame [simp]:
  "active (bank key up down t) = active t" "closed (bank key up down t) = closed t"
  "banked_ids (bank key up down t) = banked_ids t" "banked_id_cap (bank key up down t) = banked_id_cap t"
  by (simp_all add: bank_def)

lemma record_banked_frame [simp]:
  "active (record_banked cid i u w s t) = active t" "closed (record_banked cid i u w s t) = closed t"
  "finalized (record_banked cid i u w s t) = finalized t"
  "banked_id_cap (record_banked cid i u w s t) = banked_id_cap t"
  by (simp_all add: record_banked_def)

lemma fin_total_record [simp]: "fin_total d k (record_banked cid i u w s t) = fin_total d k t"
  by (simp add: fin_total_def)

text \<open>Registering a banked lifecycle with its totals keeps the banked sum below the ledger.\<close>

lemma banked_sum_record:
  assumes inv: "tracker_inv t" and new: "dict_get (banked_ids t) cid = None"
    and nn: "0 \<le> u" "0 \<le> w"
  shows "banked_sum d k (record_banked cid i u w s t)
     \<le> banked_sum d k t + (if k = i then (case d of Up \<Rightarrow> u | Down \<Rightarrow> w) else 0)"
proof -
  let ?r = "\<lparr>b_user = fst i, b_inbound = snd i, b_uplink = u, b_downlink = w, b_state = s\<rparr>"
  let ?d = "dict_set cid ?r (banked_ids t)"
  have wf: "wf_dict ?d" by (intro wf_dict_set inv_wf(3) [OF inv])
  have pos: "0 \<le> banked_part d k b" if "(c, b) \<in> set ?d" for c b
  proof (rule banked_part_nonneg)
    from that wf have "dict_get ?d c = Some b" by (simp only: dict_get_in_set)
    then show "0 \<le> b_uplink b" "0 \<le> b_downlink b"
      using inv_banked_nonneg [OF inv, of c b] nn by (auto split: if_splits)
  qed
  have "banked_sum d k (record_banked cid i u w s t) = dict_sum (banked_part d k) (evict (banked_id_cap t) ?d)"
    using new by (simp add: banked_sum_def record_banked_def dict_del_absent)
  also have "\<dots> \<le> dict_sum (banked_part d k) ?d"
    unfolding evict_eq by (rule dict_sum_drop_le) (rule pos)
  also have "\<dots> = banked_sum d k t + banked_part d k ?r"
    using new by (simp add: dict_sum_set_new banked_sum_def)
  finally show ?thesis
    by (cases d) (auto simp: banked_part_def banked_ident_def split: if_splits)
qed

lemma record_banked_get:
  assumes "wf_dict (banked_ids t)" "dict_get (banked_ids (record_banked cid i u w s t)) c = Some b"
  shows "(c = cid \<and> banked_ident b = i \<and> b_uplink b = u \<and> b_downlink b = w \<and> b_state b = s)
     \<or> (c \<noteq> cid \<and> dict_get (banked_ids t) c = Some b)"
proof -
  have "dict_get (dict_set cid \<lparr>b_user = fst i, b_inbound = snd i, b_uplink = u, b_downlink = w,
      b_state = s\<rparr> (dict_del cid (banked_ids t))) c = Some b"
    using assms(2) unfolding record_banked_def
    by (simp del: dict_get_set dict_get_del) (rule get_evict, auto intro: assms(1))
  then show ?thesis by (auto simp: banked_ident_def split: if_splits)
qed

text \<open>
  Booking a lifecycle that is neither active nor booked (the common core of \<open>_finalize\<close> and of the
  abandonment loop).
\<close>

lemma book_inv:
  assumes inv: "tracker_inv t" and na: "dict_get (active t) cid = None"
    and nb: "dict_get (banked_ids t) cid = None" and nn: "0 \<le> u" "0 \<le> w"
    and cl: "\<And>c. dict_get (closed t) cid = Some c \<Longrightarrow> conn_ident c = i"
  shows "tracker_inv (record_banked cid i u w s (bank i u w t))" (is "tracker_inv ?t")
proof -
  define x where "x = (\<lambda>d k. if k = i then (case d of Up \<Rightarrow> u | Down \<Rightarrow> w) else 0)"
  have x: "0 \<le> x d k" for d k using nn by (cases d) (simp_all add: x_def)
  have led: "banked_sum d k t \<le> fin_total d k (bank i u w t)" for d k
    using add_mono [OF inv_ledger [OF inv, of d k] x [of d k]] unfolding fin_total_bank x_def by simp
  have inv': "tracker_inv (bank i u w t)"
  proof (rule tracker_invI)
    show "banked_sum d k (bank i u w t) \<le> fin_total d k (bank i u w t)" for d k
      using led [of d k] by (simp add: banked_sum_def)
  qed (auto dest: inv_active [OF inv] inv_same_ident [OF inv] inv_banked_nonneg [OF inv]
         intro: inv_wf [OF inv] inv_cap [OF inv])
  have led': "banked_sum d k ?t \<le> fin_total d k ?t" for d k
  proof -
    have "banked_sum d k ?t \<le> banked_sum d k t + x d k"
      using banked_sum_record [OF inv' _ nn, of cid d k i s] nb unfolding x_def by (simp add: banked_sum_def)
    also have "\<dots> \<le> fin_total d k t + x d k" using inv_ledger [OF inv] by simp
    also have "\<dots> = fin_total d k ?t" unfolding x_def by (simp add: fin_total_bank)
    finally show ?thesis .
  qed
  have got: "(c = cid \<and> banked_ident b = i \<and> b_uplink b = u \<and> b_downlink b = w) \<or>
      (c \<noteq> cid \<and> dict_get (banked_ids t) c = Some b)"
    if "dict_get (banked_ids ?t) c = Some b" for c b
    using record_banked_get [OF inv_wf(3) [OF inv'] that] by auto
  show ?thesis
  proof (rule tracker_invI)
    show "wf_dict (banked_ids ?t)" using inv_wf(3) [OF inv] by (simp add: record_banked_def)
    show "length (banked_ids ?t) \<le> banked_id_cap ?t" by (simp add: record_banked_def)
    show "banked_sum d k ?t \<le> fin_total d k ?t" for d k by (rule led')
  next
    fix c b y assume "dict_get (closed ?t) c = Some y" "dict_get (banked_ids ?t) c = Some b"
    then show "conn_ident y = banked_ident b"
      using got [of c b] cl [of y] inv_same_ident [OF inv, of c y b] by (metis bank_frame(2) record_banked_frame(2))
  next
    fix c b assume "dict_get (banked_ids ?t) c = Some b"
    then show "0 \<le> b_uplink b \<and> 0 \<le> b_downlink b"
      using got [of c b] nn inv_banked_nonneg [OF inv, of c b] by auto
  next
    fix c y assume "dict_get (active ?t) c = Some y"
    then show "dict_get (banked_ids ?t) c = None"
      using got [of c] inv_active(2) [OF inv, of c y] na
      by (cases "dict_get (banked_ids ?t) c") (auto simp del: not_None_eq)
  qed (auto dest: inv_active [OF inv] intro: inv_wf [OF inv])
qed


lemma book_cumulative:
  "cumulative d k (record_banked cid i u w s (bank i u w t))
     = cumulative d k t + (if k = i then (case d of Up \<Rightarrow> u | Down \<Rightarrow> w) else 0)"
  by (simp add: cumulative_def fin_total_bank)

section \<open>Fields outside the ledger\<close>

lemma tracker_inv_frame:
  assumes "active t' = active t" "closed t' = closed t" "finalized t' = finalized t"
    "banked_ids t' = banked_ids t" "banked_id_cap t' = banked_id_cap t"
  shows "tracker_inv t' = tracker_inv t" "cumulative d k t' = cumulative d k t"
  using assms by (simp_all add: tracker_inv_def banked_sum_def fin_total_def cumulative_def)

lemma ledger_frame [simp]:
  "tracker_inv (skip t) = tracker_inv t" "cumulative d k (skip t) = cumulative d k t"
  "tracker_inv (note_conflict t) = tracker_inv t" "cumulative d k (note_conflict t) = cumulative d k t"
  "tracker_inv (note_duplicate t) = tracker_inv t" "cumulative d k (note_duplicate t) = cumulative d k t"
  "tracker_inv (t\<lparr>devices := ds\<rparr>) = tracker_inv t" "cumulative d k (t\<lparr>devices := ds\<rparr>) = cumulative d k t"
  "tracker_inv (t\<lparr>batch_count := n\<rparr>) = tracker_inv t"
  "cumulative d k (t\<lparr>batch_count := n\<rparr>) = cumulative d k t"
  "tracker_inv (t\<lparr>abandoned_on_reset := n\<rparr>) = tracker_inv t"
  "cumulative d k (t\<lparr>abandoned_on_reset := n\<rparr>) = cumulative d k t"
  by (rule tracker_inv_frame; simp add: skip_def note_conflict_def note_duplicate_def)+

section \<open>The elementary moves\<close>

text \<open>Taking a connection out of the active table.\<close>

lemma remove_active:
  assumes inv: "tracker_inv t" and got: "dict_get (active t) cid = Some c"
  shows "tracker_inv (t\<lparr>active := dict_del cid (active t)\<rparr>)" (is "tracker_inv ?t")
    and "cumulative d k (t\<lparr>active := dict_del cid (active t)\<rparr>) = cumulative d k t - conn_part d k c"
proof -
  show "tracker_inv ?t"
  proof (rule tracker_invI)
    show "banked_sum d k ?t \<le> fin_total d k ?t" for d k
      using inv_ledger [OF inv, of d k] by (simp add: banked_sum_def fin_total_def)
  qed (auto dest: inv_active [OF inv] inv_same_ident [OF inv] inv_banked_nonneg [OF inv]
         intro: inv_wf [OF inv] inv_cap [OF inv] split: if_splits)
  show "cumulative d k ?t = cumulative d k t - conn_part d k c"
    using dict_sum_del [OF inv_wf(1) [OF inv] got, of "conn_part d k"]
    by (simp add: cumulative_def fin_total_def)
qed

text \<open>Replacing an active connection by one of the same identity.\<close>

lemma replace_active:
  assumes inv: "tracker_inv t" and got: "dict_get (active t) cid = Some c"
    and ok: "conn_ok cid c'"
  shows "tracker_inv (t\<lparr>active := dict_set cid c' (active t)\<rparr>)" (is "tracker_inv ?t")
    and "cumulative d k (t\<lparr>active := dict_set cid c' (active t)\<rparr>)
      = cumulative d k t - conn_part d k c + conn_part d k c'"
proof -
  show "tracker_inv ?t"
  proof (rule tracker_invI)
    show "banked_sum d k ?t \<le> fin_total d k ?t" for d k
      using inv_ledger [OF inv, of d k] by (simp add: banked_sum_def fin_total_def)
  qed (auto dest: inv_active [OF inv] inv_same_ident [OF inv] inv_banked_nonneg [OF inv]
         intro: inv_wf [OF inv] inv_cap [OF inv] inv_active [OF inv got] ok split: if_splits)
  show "cumulative d k ?t = cumulative d k t - conn_part d k c + conn_part d k c'"
    using dict_sum_set_present [OF got, of "conn_part d k" c']
    by (simp add: cumulative_def fin_total_def)
qed

text \<open>Adding a connection whose id is neither active, nor displayed, nor booked.\<close>

lemma insert_active:
  assumes inv: "tracker_inv t" and na: "dict_get (active t) cid = None"
    and nc: "dict_get (closed t) cid = None" and nb: "dict_get (banked_ids t) cid = None"
    and ok: "conn_ok cid c"
  shows "tracker_inv (t\<lparr>active := dict_set cid c (active t)\<rparr>)" (is "tracker_inv ?t")
    and "cumulative d k (t\<lparr>active := dict_set cid c (active t)\<rparr>) = cumulative d k t + conn_part d k c"
proof -
  show "tracker_inv ?t"
  proof (rule tracker_invI)
    show "banked_sum d k ?t \<le> fin_total d k ?t" for d k
      using inv_ledger [OF inv, of d k] by (simp add: banked_sum_def fin_total_def)
  qed (auto dest: inv_active [OF inv] inv_same_ident [OF inv] inv_banked_nonneg [OF inv]
         intro: inv_wf [OF inv] inv_cap [OF inv] nc nb ok split: if_splits)
  show "cumulative d k ?t = cumulative d k t + conn_part d k c"
    using dict_sum_set_new [OF na, of "conn_part d k" c]
    by (simp add: cumulative_def fin_total_def)
qed

text \<open>
  Taking a booking back: the ledger holds at least the sum of the booked records, so the clamp at
  zero in \<open>_unbank\<close> never cuts and exactly the recorded totals leave the ledger.
\<close>

lemma slot_ge_record:
  assumes inv: "tracker_inv t" and got: "dict_get (banked_ids t) cid = Some b"
  shows "banked_part d k b \<le> fin_total d k t"
proof -
  have "banked_part d k b \<le> banked_sum d k t"
    unfolding banked_sum_def
  proof (rule dict_sum_ge_member [OF inv_wf(3) [OF inv] got])
    fix c x assume "(c, x) \<in> set (banked_ids t)"
    then have "dict_get (banked_ids t) c = Some x" using inv_wf(3) [OF inv] by (simp add: dict_get_in_set)
    then show "0 \<le> banked_part d k x" by (intro banked_part_nonneg inv_banked_nonneg [OF inv])
  qed
  also have "\<dots> \<le> fin_total d k t" by (rule inv_ledger [OF inv])
  finally show ?thesis .
qed

lemma fin_total_unbank:
  assumes inv: "tracker_inv t" and got: "dict_get (banked_ids t) cid = Some b"
  shows "fin_total d k (unbank_record b (drop_banked cid t)) = fin_total d k t - banked_part d k b"
proof -
  have "banked_total d b \<le> slot_total d (slot (finalized t) (banked_ident b))"
    using slot_ge_record [OF inv got, of d "banked_ident b"] by (simp add: banked_part_def fin_total_def)
  then show ?thesis
    by (cases d) (auto simp: unbank_record_def drop_banked_def unbank_def fin_total_def banked_part_def slot_def)
qed

lemma take_back:
  assumes inv: "tracker_inv t" and got: "dict_get (banked_ids t) cid = Some b"
  shows "tracker_inv (unbank_record b (drop_banked cid t))" (is "tracker_inv ?t")
    and "cumulative d k (unbank_record b (drop_banked cid t)) = cumulative d k t - banked_part d k b"
proof -
  have frame: "active ?t = active t" "closed ?t = closed t" "banked_id_cap ?t = banked_id_cap t"
    "banked_ids ?t = dict_del cid (banked_ids t)"
    by (simp_all add: unbank_record_def drop_banked_def unbank_def)
  show "tracker_inv ?t"
  proof (rule tracker_invI)
    show "banked_sum d k ?t \<le> fin_total d k ?t" for d k
      using inv_ledger [OF inv, of d k] dict_sum_del [OF inv_wf(3) [OF inv] got, of "banked_part d k"]
      by (simp add: fin_total_unbank [OF inv got] banked_sum_def frame)
    show "length (banked_ids ?t) \<le> banked_id_cap ?t"
      using inv_cap [OF inv] length_filter_le [of _ "banked_ids t"]
      by (metis (no_types, lifting) AList.delete_eq frame(3,4) le_trans)
  qed (auto simp: frame dest: inv_active [OF inv] inv_same_ident [OF inv] inv_banked_nonneg [OF inv]
         intro: inv_wf [OF inv] split: if_splits)
  show "cumulative d k ?t = cumulative d k t - banked_part d k b"
    using fin_total_unbank [OF inv got, of d k] by (simp add: cumulative_def frame)
qed

section \<open>Operations on the ledger\<close>

lemma set_closed:
  assumes inv: "tracker_inv t" and na: "dict_get (active t) cid = None"
    and nb: "dict_get (banked_ids t) cid = None"
  shows "tracker_inv (t\<lparr>closed := dict_set cid c (closed t)\<rparr>)" (is "tracker_inv ?t")
    and "cumulative d k (t\<lparr>closed := dict_set cid c (closed t)\<rparr>) = cumulative d k t"
proof -
  show "tracker_inv ?t"
  proof (rule tracker_invI)
    show "banked_sum d k ?t \<le> fin_total d k ?t" for d k
      using inv_ledger [OF inv, of d k] by (simp add: banked_sum_def fin_total_def)
  qed (use na nb in \<open>auto dest: inv_active [OF inv] inv_same_ident [OF inv] inv_banked_nonneg [OF inv]
         intro: inv_wf [OF inv] inv_cap [OF inv] split: if_splits\<close>)
  show "cumulative d k ?t = cumulative d k t" by (simp add: cumulative_def fin_total_def)
qed

lemma closing_frame [simp]:
  "c_id (closing c now ca) = c_id c" "conn_ident (closing c now ca) = conn_ident c"
  "c_uplink_total (closing c now ca) = c_uplink_total c"
  "c_downlink_total (closing c now ca) = c_downlink_total c"
  by (simp_all add: closing_def conn_ident_def)

lemma finalize_eq:
  "finalize c now ca t =
     record_banked (c_id c) (conn_ident c) (c_uplink_total c) (c_downlink_total c) BankedClosed
       (bank (conn_ident c) (c_uplink_total c) (c_downlink_total c)
          (t\<lparr>closed := dict_set (c_id c) (closing c now ca) (closed t)\<rparr>))"
  by (simp add: finalize_def Let_def record_banked_def bank_def)

lemma conn_part_eq:
  "conn_part d k c = (if k = conn_ident c then (case d of Up \<Rightarrow> c_uplink_total c | Down \<Rightarrow> c_downlink_total c) else 0)"
  by (cases d) (auto simp: conn_part_def)

lemma finalize_effect:
  assumes inv: "tracker_inv t" and na: "dict_get (active t) cid = None"
    and nb: "dict_get (banked_ids t) cid = None" and ok: "conn_ok cid c"
  shows "tracker_inv (finalize c now ca t)"
    and "cumulative d k (finalize c now ca t) = cumulative d k t + conn_part d k c"
proof -
  have id: "c_id c = cid" and nn: "0 \<le> c_uplink_total c" "0 \<le> c_downlink_total c"
    using ok by (simp_all add: conn_ok_def)
  let ?t = "t\<lparr>closed := dict_set cid (closing c now ca) (closed t)\<rparr>"
  have inv': "tracker_inv ?t" by (rule set_closed(1) [OF inv na nb])
  show "tracker_inv (finalize c now ca t)"
    unfolding finalize_eq id by (rule book_inv [OF inv' _ _ nn]) (use na nb in auto)
  show "cumulative d k (finalize c now ca t) = cumulative d k t + conn_part d k c"
    unfolding finalize_eq id book_cumulative set_closed(2) [OF inv na nb] conn_part_eq ..
qed

lemma abandon_effect:
  assumes inv: "tracker_inv t"
  shows "tracker_inv (abandon t cid)" and "cumulative d k (abandon t cid) = cumulative d k t"
proof (atomize (full), cases "dict_get (active t) cid")
  case None
  then show "tracker_inv (abandon t cid) \<and> cumulative d k (abandon t cid) = cumulative d k t"
    using inv by (simp add: abandon_def)
next
  case (Some c)
  let ?t = "t\<lparr>active := dict_del cid (active t), abandoned_on_reset := Suc (abandoned_on_reset t)\<rparr>"
  have ok: "conn_ok cid c" by (rule inv_active(1) [OF inv Some])
  then have id: "c_id c = cid" and nn: "0 \<le> c_uplink_total c" "0 \<le> c_downlink_total c"
    by (simp_all add: conn_ok_def)
  have inv': "tracker_inv ?t"
    using remove_active(1) [OF inv Some] by (simp add: tracker_inv_frame(1) [of ?t "t\<lparr>active := dict_del cid (active t)\<rparr>"])
  have cum: "cumulative d k ?t = cumulative d k t - conn_part d k c"
    using remove_active(2) [OF inv Some, of d k]
    by (simp add: tracker_inv_frame(2) [of ?t "t\<lparr>active := dict_del cid (active t)\<rparr>"])
  have eq: "abandon t cid = record_banked cid (conn_ident c) (c_uplink_total c) (c_downlink_total c) BankedAbandoned
      (bank (conn_ident c) (c_uplink_total c) (c_downlink_total c) ?t)"
    using Some by (simp add: abandon_def Let_def id)
  have "tracker_inv (abandon t cid)"
    unfolding eq by (rule book_inv [OF inv' _ _ nn]) (use inv_active [OF inv Some] in auto)
  moreover have "cumulative d k (abandon t cid) = cumulative d k t"
    unfolding eq book_cumulative cum by (simp add: conn_part_eq)
  ultimately show "tracker_inv (abandon t cid) \<and> cumulative d k (abandon t cid) = cumulative d k t" by blast
qed

lemma foldl_abandon_effect:
  assumes "tracker_inv t"
  shows "tracker_inv (foldl abandon t cs) \<and> cumulative d k (foldl abandon t cs) = cumulative d k t"
  using assms by (induction cs arbitrary: t) (auto simp: abandon_effect)

definition fields_ok :: "conn_fields \<Rightarrow> bool" where
  "fields_ok f \<longleftrightarrow> 0 \<le> total_default (f_uplink_total f) \<and> 0 \<le> total_default (f_downlink_total f)"

text \<open>
  The final totals that replace a lower bound are at least that bound: what the stream owes when an
  abandoned lifecycle is closed after all.
\<close>

definition bound_ok :: "tracker \<Rightarrow> string \<Rightarrow> conn_fields \<Rightarrow> bool" where
  "bound_ok t cid f \<longleftrightarrow>
     (case dict_get (banked_ids t) cid of None \<Rightarrow> True
      | Some b \<Rightarrow> b_state b = BankedAbandoned \<and> banked_ident b = row_identity f \<longrightarrow>
          b_uplink b \<le> total_default (f_uplink_total f) \<and> b_downlink b \<le> total_default (f_downlink_total f))"

lemma conn_ok_new: "fields_ok f \<Longrightarrow> conn_ok cid (new_connection cid i f now)"
  by (simp add: conn_ok_def new_connection_def fields_ok_def)

lemma conn_ok_raise: "conn_ok cid c \<Longrightarrow> conn_ok cid (raise_totals f c)"
  by (simp add: conn_ok_def raise_totals_def le_max_iff_disj)

lemma conn_ok_raise_present: "conn_ok cid c \<Longrightarrow> conn_ok cid (raise_present f c)"
  by (simp add: conn_ok_def raise_present_def Let_def le_max_iff_disj)

lemma conn_ok_touch [simp]: "conn_ok cid (c\<lparr>c_last_seen := now\<rparr>) = conn_ok cid c"
  "conn_ok cid (c\<lparr>c_closed_at := x\<rparr>) = conn_ok cid c" "conn_ok cid (c\<lparr>c_created_at := x\<rparr>) = conn_ok cid c"
  by (simp_all add: conn_ok_def)

lemma conn_part_touch [simp]: "conn_part d k (c\<lparr>c_last_seen := now\<rparr>) = conn_part d k c"
  "conn_part d k (c\<lparr>c_closed_at := x\<rparr>) = conn_part d k c"
  "conn_part d k (c\<lparr>c_created_at := x\<rparr>) = conn_part d k c"
  by (cases d; simp add: conn_part_def conn_ident_def)+

lemma conn_part_raise: "conn_part d k c \<le> conn_part d k (raise_totals f c)"
  by (cases d) (simp_all add: conn_part_def conn_ident_def raise_totals_def)

lemma conn_part_raise_present: "conn_part d k c \<le> conn_part d k (raise_present f c)"
  by (cases d) (simp_all add: conn_part_def conn_ident_def raise_present_def Let_def)

lemma del_closed:
  assumes inv: "tracker_inv t"
  shows "tracker_inv (t\<lparr>closed := dict_del cid (closed t)\<rparr>)" (is "tracker_inv ?t")
    and "cumulative d k (t\<lparr>closed := dict_del cid (closed t)\<rparr>) = cumulative d k t"
proof -
  show "tracker_inv ?t"
  proof (rule tracker_invI)
    show "banked_sum d k ?t \<le> fin_total d k ?t" for d k
      using inv_ledger [OF inv, of d k] by (simp add: banked_sum_def fin_total_def)
  qed (auto dest: inv_active [OF inv] inv_same_ident [OF inv] inv_banked_nonneg [OF inv]
         intro: inv_wf [OF inv] inv_cap [OF inv] split: if_splits)
  show "cumulative d k ?t = cumulative d k t" by (simp add: cumulative_def fin_total_def)
qed

text \<open>The lifecycle that starts (or continues a booked one) carries the booked totals as a floor.\<close>

definition started :: "string \<Rightarrow> conn_fields \<Rightarrow> rat \<Rightarrow> tracker \<Rightarrow> conn" where
  "started cid flds now t =
     (let conn = carried_floor (dict_get (banked_ids t) cid) (new_connection cid (row_identity flds) flds now)
      in case dict_get (closed t) cid of None \<Rightarrow> conn
         | Some d \<Rightarrow> conn\<lparr>c_created_at := or_else (c_created_at d) (c_created_at conn)\<rparr>)"

lemma started_ident [simp]: "conn_ident (started cid f now t) = row_identity f"
  by (simp add: started_def Let_def carried_floor_def conn_ident_def new_connection_def row_identity_def
      split: option.split)

lemma started_ok: "fields_ok f \<Longrightarrow> conn_ok cid (started cid f now t)"
  by (simp add: started_def Let_def carried_floor_def conn_ok_def new_connection_def fields_ok_def
      le_max_iff_disj split: option.split)

lemma started_floor:
  "dict_get (banked_ids t) cid = Some b \<Longrightarrow> banked_ident b = row_identity f \<Longrightarrow>
     banked_part d k b \<le> conn_part d k (started cid f now t)"
  by (cases d) (simp_all add: started_def Let_def banked_part_def conn_part_def carried_floor_def
      new_connection_def conn_ident_def row_identity_def split: option.split)

lemma start_active_eq:
  "start_active cid f now t =
     (let t0 = t\<lparr>closed := dict_del cid (closed t)\<rparr>;
          t1 = (case dict_get (banked_ids t0) cid of None \<Rightarrow> t0 | Some b \<Rightarrow> unbank_record b (drop_banked cid t0))
      in (t1\<lparr>active := dict_set cid (started cid f now t) (active t1)\<rparr>)
           \<lparr>devices := insert (f_user f) (devices t)\<rparr>)"
  by (auto simp: start_active_def started_def Let_def drop_banked_def dict_del_absent unbank_record_def
      unbank_def carried_floor_def new_connection_def row_identity_def split: option.split)

lemma start_active_effect:
  assumes inv: "tracker_inv t" and na: "dict_get (active t) cid = None" and f: "fields_ok f"
    and src: "identity_source cid t = None \<or> identity_source cid t = Some (row_identity f)"
  shows "tracker_inv (start_active cid f now t)"
    and "cumulative d k t \<le> cumulative d k (start_active cid f now t)"
proof (atomize (full), goal_cases)
  case 1
  let ?t0 = "t\<lparr>closed := dict_del cid (closed t)\<rparr>"
  let ?c = "started cid f now t"
  note inv0 = del_closed(1) [OF inv, of cid] and cum0 = del_closed(2) [OF inv, of d k cid]
  have ok: "conn_ok cid ?c" by (rule started_ok [OF f])
  show ?case
  proof (cases "dict_get (banked_ids t) cid")
    case None
    then have eq: "start_active cid f now t =
        (?t0\<lparr>active := dict_set cid ?c (active ?t0)\<rparr>)\<lparr>devices := insert (f_user f) (devices t)\<rparr>"
      by (simp add: start_active_eq Let_def)
    show ?thesis
      unfolding eq ledger_frame
      using insert_active(1) [OF inv0 _ _ _ ok] insert_active(2) [OF inv0 _ _ _ ok, of d k] na None cum0 conn_part_nonneg [OF ok, of d k]
      by simp
  next
    case (Some b)
    let ?t1 = "unbank_record b (drop_banked cid ?t0)"
    have eq: "start_active cid f now t =
        (?t1\<lparr>active := dict_set cid ?c (active ?t1)\<rparr>)\<lparr>devices := insert (f_user f) (devices t)\<rparr>"
      using Some by (simp add: start_active_eq Let_def)
    have ident: "banked_ident b = row_identity f"
      using src Some inv_same_ident [OF inv, of cid _ b]
      by (cases "dict_get (closed t) cid") (auto simp: identity_source_def)
    have got: "dict_get (banked_ids ?t0) cid = Some b" using Some by simp
    have "tracker_inv ?t1" by (rule take_back(1) [OF inv0 got])
    moreover have "dict_get (active ?t1) cid = None" "dict_get (closed ?t1) cid = None"
        "dict_get (banked_ids ?t1) cid = None"
      using na by (simp_all add: unbank_record_def drop_banked_def unbank_def)
    moreover have "cumulative d k ?t1 = cumulative d k t - banked_part d k b"
      using take_back(2) [OF inv0 got, of d k] cum0 by simp
    ultimately show ?thesis
      unfolding eq ledger_frame
      using insert_active(1) [of ?t1 cid ?c] insert_active(2) [of ?t1 cid ?c d k] ok started_floor [OF Some ident, of d k now] by simp
  qed
qed

lemma upsert_active_effect:
  assumes inv: "tracker_inv t" and f: "fields_ok f"
  shows "tracker_inv (upsert_active cid f now t)"
    and "cumulative d k t \<le> cumulative d k (upsert_active cid f now t)"
proof (atomize (full), goal_cases)
  case 1
  show ?case
  proof (cases "dict_get (active t) cid")
    case (Some c)
    note ok = inv_active(1) [OF inv Some]
    show ?thesis
      using Some replace_active(1) [OF inv Some] replace_active(2) [OF inv Some, of _ d k]
        ok conn_ok_raise [OF ok, of f] conn_part_raise [of d k c f]
      by (simp add: upsert_active_def)
  next
    case None
    show ?thesis
    proof (cases "identity_source cid t = None \<or> identity_source cid t = Some (row_identity f)")
      case True
      with None have "upsert_active cid f now t = start_active cid f now t"
        by (auto simp: upsert_active_def)
      with start_active_effect [OF inv None f True] show ?thesis by simp
    next
      case False
      with None have "upsert_active cid f now t = note_conflict t" by (simp add: upsert_active_def)
      with inv show ?thesis by simp
    qed
  qed
qed

lemma close_fresh_effect:
  assumes "tracker_inv t" "dict_get (active t) cid = None" "dict_get (banked_ids t) cid = None" "fields_ok f"
  shows "tracker_inv (close_fresh cid i f now ca t)"
    and "cumulative d k (close_fresh cid i f now ca t)
      = cumulative d k t + conn_part d k (new_connection cid i f now)"
  using finalize_effect [OF assms(1-3), of "(new_connection cid i f now)\<lparr>c_closed_at := or_else ca now\<rparr>"]
    conn_ok_new [OF assms(4)]
  by (simp_all add: close_fresh_def Let_def)


text \<open>Closing a lifecycle whose lower bound is booked: the bound is taken back, the final totals go in.\<close>

lemma replace_bound_effect:
  assumes inv: "tracker_inv t" and got: "dict_get (banked_ids t) cid = Some b" and f: "fields_ok f"
    and i: "banked_ident b = row_identity f"
  shows "dict_get (active t) cid = None"
    and "tracker_inv (unbank_record b (drop_banked cid t))"
    and "dict_get (active (unbank_record b (drop_banked cid t))) cid = None"
    and "dict_get (banked_ids (unbank_record b (drop_banked cid t))) cid = None"
    and "bound_ok t cid f \<Longrightarrow> b_state b = BankedAbandoned \<Longrightarrow>
       cumulative d k t \<le> cumulative d k (unbank_record b (drop_banked cid t))
         + conn_part d k (new_connection cid (row_identity f) f now)"
proof -
  show na: "dict_get (active t) cid = None"
    using inv_active(2) [OF inv] got by (cases "dict_get (active t) cid") fastforce+
  show "tracker_inv (unbank_record b (drop_banked cid t))" by (rule take_back(1) [OF inv got])
  show "dict_get (active (unbank_record b (drop_banked cid t))) cid = None"
    "dict_get (banked_ids (unbank_record b (drop_banked cid t))) cid = None"
    using na by (simp_all add: unbank_record_def drop_banked_def unbank_def)
  assume "bound_ok t cid f" "b_state b = BankedAbandoned"
  with got i have "banked_part d k b \<le> conn_part d k (new_connection cid (row_identity f) f now)"
    by (cases d) (simp_all add: bound_ok_def banked_part_def conn_part_def conn_ident_def new_connection_def)
  then show "cumulative d k t \<le> cumulative d k (unbank_record b (drop_banked cid t))
         + conn_part d k (new_connection cid (row_identity f) f now)"
    by (simp add: take_back(2) [OF inv got])
qed

lemma drop_banked_counters:
  "unbank_record b (drop_banked cid (note_duplicate t)) = note_duplicate (unbank_record b (drop_banked cid t))"
  by (simp add: note_duplicate_def unbank_record_def unbank_def drop_banked_def)

lemma bound_ok_frame [simp]:
  "bound_ok (t\<lparr>devices := ds\<rparr>) cid f = bound_ok t cid f"
  by (simp add: bound_ok_def)

lemma record_closed_row_effect:
  assumes inv0: "tracker_inv t0" and f: "fields_ok f"
  shows "tracker_inv (record_closed_row cid f now ca t0)"
    and "bound_ok t0 cid f \<Longrightarrow> cumulative d k t0 \<le> cumulative d k (record_closed_row cid f now ca t0)"
proof (atomize (full), goal_cases)
  case 1
  define t where "t = t0\<lparr>devices := insert (f_user f) (devices t0)\<rparr>"
  have inv: "tracker_inv t" and cum: "cumulative d k t = cumulative d k t0" and bo: "bound_ok t cid f = bound_ok t0 cid f"
    using inv0 by (simp_all add: t_def)
  note def = record_closed_row_def [of cid f now ca t0, folded t_def, unfolded Let_def]
  show ?case
  proof (cases "dict_get (banked_ids t) cid")
    case (Some b)
    show ?thesis
    proof (cases "banked_ident b = row_identity f \<and> b_state b = BankedAbandoned")
      case True
      let ?t1 = "unbank_record b (drop_banked cid t)"
      have eq: "record_closed_row cid f now ca t0 = close_fresh cid (row_identity f) f now ca (note_duplicate ?t1)"
        using Some True by (simp add: def drop_banked_counters)
      note r = replace_bound_effect [OF inv Some f]
      have "tracker_inv (note_duplicate ?t1)" "dict_get (active (note_duplicate ?t1)) cid = None"
        "dict_get (banked_ids (note_duplicate ?t1)) cid = None"
        using r(2-4) True by (simp_all add: note_duplicate_def [of ?t1] tracker_inv_frame(1) [of "_\<lparr>duplicate_events := _\<rparr>" ?t1])
      note cf = close_fresh_effect [OF this f]
      show ?thesis
        unfolding eq using cf(1) cf(2) [of d k] r(5) [of d k now] True cum bo by simp
    next
      case False
      with Some show ?thesis using inv cum by (auto simp: def)
    qed
  next
    case None
    show ?thesis
    proof (cases "dict_get (closed t) cid")
      case (Some c)
      with None show ?thesis using inv cum by (simp add: def)
    next
      case nc: None
      show ?thesis
      proof (cases "dict_get (active t) cid")
        case (Some c)
        let ?t1 = "t\<lparr>active := dict_del cid (active t)\<rparr>"
        have eq: "record_closed_row cid f now ca t0 = finalize (raise_totals f c) now (Some ca) ?t1"
          using None nc Some by (simp add: def)
        note fin = finalize_effect [OF remove_active(1) [OF inv Some] _ _ conn_ok_raise [OF inv_active(1) [OF inv Some]]]
        show ?thesis
          unfolding eq
          using fin(1) fin(2) [of d k] None remove_active(2) [OF inv Some, of d k] conn_part_raise [of d k c f] cum
          by simp
      next
        case na: None
        note cf = close_fresh_effect [OF inv na None f]
        show ?thesis
          using None nc na cf(1) cf(2) [of d k] cum conn_part_nonneg [OF conn_ok_new [OF f], of d k]
          by (simp add: def)
      qed
    qed
  qed
qed

section \<open>Whole events\<close>

definition event_ok :: "event \<Rightarrow> bool" where
  "event_ok e \<longleftrightarrow> fields_ok (ev_fields e) \<and> 0 \<le> e_uplink_delta e \<and> 0 \<le> e_downlink_delta e"

text \<open>Traffic counts are not negative.\<close>

fun counts_ok :: "tracker \<Rightarrow> raw_event \<Rightarrow> bool" where
  "counts_ok t NotADict = True"
| "counts_ok t (Ev e) = event_ok e"

text \<open>Counts are not negative and a booked lower bound is honoured by the final totals.\<close>

fun row_ok :: "tracker \<Rightarrow> raw_event \<Rightarrow> bool" where
  "row_ok t NotADict = True"
| "row_ok t (Ev e) \<longleftrightarrow> event_ok e \<and> bound_ok t (str_default (e_id e)) (ev_fields e)
     \<and> bound_ok t (str_default (reset_id e)) (ev_fields e)"

lemma apply_new_effect:
  assumes inv: "tracker_inv t" and ok: "event_ok e"
  shows "tracker_inv (apply_new e now t)"
    and "bound_ok t (str_default (e_id e)) (ev_fields e) \<Longrightarrow> cumulative d k t \<le> cumulative d k (apply_new e now t)"
proof -
  have f: "fields_ok (ev_fields e)" using ok by (simp add: event_ok_def)
  show "tracker_inv (apply_new e now t)"
    using record_closed_row_effect(1) [OF inv f] upsert_active_effect(1) [OF inv f] inv
    by (simp add: apply_new_def Let_def)
  assume "bound_ok t (str_default (e_id e)) (ev_fields e)"
  then show "cumulative d k t \<le> cumulative d k (apply_new e now t)"
    using record_closed_row_effect(2) [OF inv f] upsert_active_effect(2) [OF inv f] inv
    by (simp add: apply_new_def Let_def)
qed

lemma conn_rate_touch [simp]:
  "conn_ok cid (c\<lparr>c_uplink_rate := x\<rparr>) = conn_ok cid c" "conn_ok cid (c\<lparr>c_downlink_rate := x\<rparr>) = conn_ok cid c"
  "conn_part d k (c\<lparr>c_uplink_rate := x\<rparr>) = conn_part d k c"
  "conn_part d k (c\<lparr>c_downlink_rate := x\<rparr>) = conn_part d k c"
  by (cases d; simp add: conn_ok_def conn_part_eq conn_ident_def)+

lemma update_conn_ok:
  assumes "event_ok e" "conn_ok cid c"
  shows "conn_ok cid (update_conn e now c)" and "conn_part d k c \<le> conn_part d k (update_conn e now c)"
proof -
  let ?plus = "c\<lparr>c_uplink_total := c_uplink_total c + e_uplink_delta e, c_downlink_total := c_downlink_total c + e_downlink_delta e\<rparr>"
  have "conn_ok cid ?plus" "conn_part d k c \<le> conn_part d k ?plus"
    using assms by (cases d; simp add: conn_ok_def event_ok_def conn_part_eq conn_ident_def)+
  then show "conn_ok cid (update_conn e now c)" "conn_part d k c \<le> conn_part d k (update_conn e now c)"
    using conn_ok_raise_present [OF assms(2)] conn_part_raise_present [of d k c]
    by (simp_all add: update_conn_def Let_def)
qed

lemma get_id_Some: "get_id d i = Some c \<Longrightarrow> dict_get d (str_default i) = Some c"
  by (cases i) (simp_all add: get_id_def str_default_def)

lemma apply_update_effect:
  assumes inv: "tracker_inv t" and ok: "event_ok e"
  shows "tracker_inv (apply_update e now t)" and "cumulative d k t \<le> cumulative d k (apply_update e now t)"
proof (atomize (full), goal_cases)
  case 1
  show ?case
  proof (cases "get_id (active t) (e_id e)")
    case None
    then show ?thesis using inv by (simp add: apply_update_def)
  next
    case (Some c)
    note got = get_id_Some [OF Some]
    note cok = inv_active(1) [OF inv got]
    show ?thesis
      using Some replace_active(1) [OF inv got] replace_active(2) [OF inv got, of _ d k] cok
        update_conn_ok(1) [OF ok cok] update_conn_ok(2) [OF ok cok, of d k now]
      by (simp add: apply_update_def)
  qed
qed

lemma close_active_effect:
  assumes inv: "tracker_inv t" and got: "dict_get (active t) cid = Some c"
  shows "tracker_inv (close_active e now cid c t)"
    and "cumulative d k t \<le> cumulative d k (close_active e now cid c t)"
proof (atomize (full), goal_cases)
  case 1
  let ?t1 = "t\<lparr>active := dict_del cid (active t)\<rparr>"
  note ok = inv_active(1) [OF inv got] and rem = remove_active(1) [OF inv got]
  have n: "dict_get (active ?t1) cid = None" "dict_get (banked_ids ?t1) cid = None"
    using inv_active(2) [OF inv got] by simp_all
  have fin: "tracker_inv (finalize c' now ca ?t1) \<and> cumulative d k t \<le> cumulative d k (finalize c' now ca ?t1)"
    if "conn_ok cid c'" "conn_part d k c \<le> conn_part d k c'" for c' ca
    using finalize_effect(1) [OF rem n that(1)] finalize_effect(2) [OF rem n that(1), of d k]
      remove_active(2) [OF inv got, of d k] that(2) by simp
  have conf: "finalize c' now ca (note_conflict ?t1) = note_conflict (finalize c' now ca ?t1)" for c' ca
    by (simp add: finalize_eq note_conflict_def record_banked_def bank_def)
  show ?case
    using fin [of c] fin [of "raise_present (ev_fields e) c"] fin [of "c\<lparr>c_last_seen := now\<rparr>"]
      ok conn_ok_raise_present [OF ok] conn_part_raise_present [of d k c]
    by (simp add: close_active_def Let_def conf)
qed

lemma close_abandoned_effect:
  assumes inv: "tracker_inv t" and got: "dict_get (banked_ids t) cid = Some b" and ok: "event_ok e"
    and ab: "b_state b = BankedAbandoned"
  shows "tracker_inv (close_abandoned e now cid b t)"
    and "bound_ok t cid (ev_fields e) \<Longrightarrow> cumulative d k t \<le> cumulative d k (close_abandoned e now cid b t)"
proof (atomize (full), goal_cases)
  case 1
  have f: "fields_ok (ev_fields e)" using ok by (simp add: event_ok_def)
  show ?case
  proof (cases "ev_fields e = no_fields \<or> banked_ident b \<noteq> row_identity (ev_fields e)")
    case True
    then show ?thesis using inv by (auto simp: close_abandoned_def Let_def)
  next
    case False
    then have i: "banked_ident b = row_identity (ev_fields e)" by simp
    note r = replace_bound_effect [OF inv got f i]
    let ?c = "\<lambda>x. (new_connection cid (row_identity (ev_fields e)) (ev_fields e) now)\<lparr>c_closed_at := x\<rparr>"
    have "conn_ok cid (?c x)" for x using conn_ok_new [OF f] by simp
    note fin = finalize_effect [OF r(2-4) this]
    show ?thesis
      using False i fin(1) fin(2) [of d k] r(5) [of d k now] ab by (simp add: close_abandoned_def Let_def)
  qed
qed

lemma apply_closed_effect:
  assumes inv: "tracker_inv t" and ok: "event_ok e"
  shows "tracker_inv (apply_closed e now t)"
    and "bound_ok t (str_default (e_id e)) (ev_fields e) \<Longrightarrow> cumulative d k t \<le> cumulative d k (apply_closed e now t)"
proof (atomize (full), goal_cases)
  case 1
  show ?case
  proof (cases "e_id e")
    case None
    then show ?thesis using inv by (simp add: apply_closed_def)
  next
    case (Some cid)
    show ?thesis
    proof (cases "dict_get (active t) cid")
      case (Some c)
      then show ?thesis
        using \<open>e_id e = Some cid\<close> close_active_effect [OF inv Some] by (simp add: apply_closed_def)
    next
      case na: None
      show ?thesis
      proof (cases "dict_get (banked_ids t) cid")
        case None
        then show ?thesis using Some na inv by (simp add: apply_closed_def)
      next
        case got: (Some b)
        show ?thesis
        proof (cases "b_state b")
          case BankedClosed
          then show ?thesis using Some na got inv by (simp add: apply_closed_def)
        next
          case BankedAbandoned
          then show ?thesis
            using Some na got close_abandoned_effect [OF inv got ok BankedAbandoned]
            by (simp add: apply_closed_def str_default_def)
        qed
      qed
    qed
  qed
qed

lemma apply_event_effect:
  assumes "tracker_inv t"
  shows "counts_ok t r \<Longrightarrow> tracker_inv (apply_event now t r)"
    and "row_ok t r \<Longrightarrow> tracker_inv (apply_event now t r)"
    and "row_ok t r \<Longrightarrow> cumulative d k t \<le> cumulative d k (apply_event now t r)"
  using assms apply_new_effect apply_update_effect apply_closed_effect
  by (cases r; simp)+

lemma row_ok_counts: "row_ok t r \<Longrightarrow> counts_ok t r"
  by (cases r) simp_all

lemma reset_row_effect:
  assumes inv: "tracker_inv (fst s)" and ok: "counts_ok (fst s) r"
  shows "tracker_inv (fst (reset_row now s r))"
    and "row_ok (fst s) r \<Longrightarrow> cumulative d k (fst s) \<le> cumulative d k (fst (reset_row now s r))"
proof (atomize (full), goal_cases)
  case 1
  obtain t seen where s: "s = (t, seen)" by (cases s)
  show ?case
  proof (cases r)
    case NotADict
    then show ?thesis using inv s by simp
  next
    case (Ev e)
    have inv': "tracker_inv t" and f: "fields_ok (ev_fields e)"
      using inv ok s Ev by (simp_all add: event_ok_def)
    note c = record_closed_row_effect [OF inv' f] and u = upsert_active_effect [OF inv' f]
    show ?thesis
      unfolding s Ev using inv' c(1) c(2) [of _ d k] u(1) u(2) [of d k]
      by (simp add: Let_def str_default_def split: option.split)
  qed
qed

interpretation event_inv: machine "apply_event now" tracker_inv counts_ok for now
  by unfold_locales (rule apply_event_effect(1))

interpretation event_mono: monotone_machine "apply_event now" tracker_inv row_ok "cumulative d k" for now d k
  by unfold_locales (simp_all add: apply_event_effect)

interpretation row_inv: machine "reset_row now" "\<lambda>s. tracker_inv (fst s)" "\<lambda>s. counts_ok (fst s)" for now
  by unfold_locales (rule reset_row_effect(1))

interpretation row_mono: monotone_machine "reset_row now" "\<lambda>s. tracker_inv (fst s)" "\<lambda>s. row_ok (fst s)"
  "\<lambda>s. cumulative d k (fst s)" for now d k
  by unfold_locales 
    (auto intro: reset_row_effect row_ok_counts)


section \<open>Whole batches\<close>

text \<open>The conditions along a batch, at the state in which each row is applied.\<close>

fun batch_counts_ok :: "rat \<Rightarrow> tracker \<Rightarrow> batch \<Rightarrow> bool" where
  "batch_counts_ok now t NotABatch = True"
| "batch_counts_ok now t (Batch events is_reset) = (\<forall>r\<in>set events. counts_ok t r)"

fun batch_ok :: "rat \<Rightarrow> tracker \<Rightarrow> batch \<Rightarrow> bool" where
  "batch_ok now t NotABatch = True"
| "batch_ok now t (Batch events is_reset) =
     (let t1 = t\<lparr>batch_count := Suc (batch_count t)\<rparr>
      in if is_reset then run_ok (reset_row now) (\<lambda>s. row_ok (fst s)) (t1, {}) events
         else run_ok (apply_event now) row_ok t1 events)"

lemma counts_ok_any: "counts_ok t r = counts_ok t' r"
  by (cases r) simp_all

lemma apply_reset_effect:
  assumes inv: "tracker_inv t"
  shows "(\<forall>r\<in>set events. counts_ok t r) \<Longrightarrow> tracker_inv (apply_reset events now t)"
    and "run_ok (reset_row now) (\<lambda>s. row_ok (fst s)) (t, {}) events \<Longrightarrow>
      cumulative d k t \<le> cumulative d k (apply_reset events now t)"
proof -
  obtain t1 seen where fold: "foldl (reset_row now) (t, {}) events = (t1, seen)" by fastforce
  have eq: "apply_reset events now t = foldl abandon t1 (filter (\<lambda>c. c \<notin> seen) (map fst (active t1)))"
    by (simp add: apply_reset_def fold)
  show "tracker_inv (apply_reset events now t)" if "\<forall>r\<in>set events. counts_ok t r"
  proof -
    have "run_ok (reset_row now) (\<lambda>s. counts_ok (fst s)) (t, {}) events"
      by (rule run_ok_all) (use that counts_ok_any in blast)
    then have "tracker_inv t1" using row_inv.run_inv [of "(t, {})"] inv fold by fastforce
    then show ?thesis unfolding eq using foldl_abandon_effect by blast
  qed
  assume "run_ok (reset_row now) (\<lambda>s. row_ok (fst s)) (t, {}) events"
  then have "tracker_inv t1" "cumulative d k t \<le> cumulative d k t1"
    using row_mono.run_inv [of "(t, {})"] row_mono.run_mono [of "(t, {})"] inv fold by fastforce+
  then show "cumulative d k t \<le> cumulative d k (apply_reset events now t)"
    unfolding eq using foldl_abandon_effect [of t1 _ d k] by simp
qed

lemma apply_batch_effect:
  assumes inv: "tracker_inv t"
  shows "batch_counts_ok now t b \<Longrightarrow> tracker_inv (apply_batch b now t)"
    and "batch_ok now t b \<Longrightarrow> cumulative d k t \<le> cumulative d k (apply_batch b now t)"
proof -
  let ?t1 = "t\<lparr>batch_count := Suc (batch_count t)\<rparr>"
  have inv': "tracker_inv ?t1" using inv by simp
  show "tracker_inv (apply_batch b now t)" if ok: "batch_counts_ok now t b"
  proof (cases b)
    case NotABatch
    then show ?thesis using inv by simp
  next
    case (Batch events rst)
    then have all: "\<forall>r\<in>set events. counts_ok ?t1 r" using ok counts_ok_any by auto
    have "run_ok (apply_event now) counts_ok ?t1 events"
      by (rule run_ok_all) (use all counts_ok_any in blast)
    then have "tracker_inv (foldl (apply_event now) ?t1 events)" by (rule event_inv.run_inv [OF inv'])
    with apply_reset_effect(1) [OF inv' all] Batch inv show ?thesis by (simp add: Let_def)
  qed
  assume ok: "batch_ok now t b"
  show "cumulative d k t \<le> cumulative d k (apply_batch b now t)"
  proof (cases b)
    case NotABatch
    then show ?thesis by simp
  next
    case (Batch events rst)
    then show ?thesis
      using ok apply_reset_effect(2) [OF inv', of now events d k] event_mono.run_mono [OF inv', of now events d k]
      by (cases rst) (simp_all add: Let_def)
  qed
qed


section \<open>Runs\<close>

definition tracker_step :: "tracker \<Rightarrow> batch \<times> rat \<Rightarrow> tracker" where
  "tracker_step t bn = apply_batch (fst bn) (snd bn) t"

definition step_counts_ok :: "tracker \<Rightarrow> batch \<times> rat \<Rightarrow> bool" where
  "step_counts_ok t bn = batch_counts_ok (snd bn) t (fst bn)"

definition step_ok :: "tracker \<Rightarrow> batch \<times> rat \<Rightarrow> bool" where
  "step_ok t bn \<longleftrightarrow> batch_counts_ok (snd bn) t (fst bn) \<and> batch_ok (snd bn) t (fst bn)"

lemma tracker_inv_init: "tracker_inv (init_tracker ttl cap)"
  by (rule tracker_invI) (simp_all add: init_tracker_def banked_sum_def fin_total_def slot_def, case_tac d, simp_all)

interpretation tracker_safe: machine tracker_step tracker_inv step_counts_ok
  by unfold_locales (simp add: tracker_step_def step_counts_ok_def apply_batch_effect(1))

interpretation tracker_mono: monotone_machine tracker_step tracker_inv step_ok "cumulative d k" for d k
  by unfold_locales (simp_all add: tracker_step_def step_ok_def apply_batch_effect)

section \<open>Properties\<close>

text \<open>
  C12: along every run of batches from the empty tracker whose traffic counts are not negative and
  whose final totals honour the lower bounds booked at a reset, the cumulative uplink and downlink
  total of every (user, inbound) identity never decreases: not at stream resets, not when lifecycles
  are abandoned, come back, are closed or are replayed.
\<close>

theorem totals_never_decrease:
  assumes "run_ok tracker_step step_ok (init_tracker ttl cap) (xs @ ys)"
  shows "cumulative d k (foldl tracker_step (init_tracker ttl cap) xs)
     \<le> cumulative d k (foldl tracker_step (init_tracker ttl cap) (xs @ ys))"
proof -
  let ?t = "foldl tracker_step (init_tracker ttl cap) xs"
  have "tracker_inv ?t"
    using assms tracker_inv_init by (auto simp: run_ok_append intro: tracker_mono.run_inv)
  then show ?thesis
    using assms tracker_mono.run_mono [of ?t ys] by (simp add: run_ok_append)
qed

definition sample_fields :: "int \<Rightarrow> int \<Rightarrow> conn_fields" where
  "sample_fields up down = no_fields\<lparr>f_user := Some ''vmix-01'', f_inbound := Some ''hy2-in'',
     f_uplink_total := Some up, f_downlink_total := Some down\<rparr>"

definition sample_event :: "string \<Rightarrow> conn_fields option \<Rightarrow> event" where
  "sample_event ty f = \<lparr>e_type = ty, e_id = Some ''c1'', e_connection = f, e_uplink_delta = 0,
     e_downlink_delta = 0, e_closed_at = None\<rparr>"

definition sample_run :: "(batch \<times> rat) list" where
  "sample_run = [(Batch [Ev (sample_event ''NEW'' (Some (sample_fields 100 7)))] True, 1000),
     (Batch [] True, 1010),
     (Batch [Ev (sample_event ''NEW'' (Some (sample_fields 140 9)))] True, 1020)]"

lemmas sample_defs = sample_run_def sample_event_def sample_fields_def no_fields_def tracker_step_def
  step_ok_def event_ok_def fields_ok_def bound_ok_def ev_fields_def reset_id_def str_default_def
  total_default_def init_tracker_def apply_reset_def truthy_def int_seconds_def to_seconds_def
  upsert_active_def identity_source_def start_active_def Let_def drop_banked_def unbank_record_def
  unbank_def slot_def banked_ident_def row_identity_def carried_floor_def new_connection_def or_else_def
  abandon_def bank_def record_banked_def conn_ident_def evict_eq

theorem totals_never_decrease_witness:
  "cumulative Up (Some ''vmix-01'', Some ''hy2-in'')
      (foldl tracker_step (init_tracker 600 4096) (take 2 sample_run))
   \<le> cumulative Up (Some ''vmix-01'', Some ''hy2-in'')
      (foldl tracker_step (init_tracker 600 4096) (take 2 sample_run @ drop 2 sample_run))"
  by (rule totals_never_decrease) (simp add: sample_defs)

text \<open>
  C18: the invariant of the tracker holds in every state reached by batches with non-negative counts:
  no id is both active and booked or displayed as closed, the display cache and the replay guard agree
  on identities, the ledger covers every booked record (so taking a booking back is never clamped),
  and the replay guard stays within its capacity.
\<close>

theorem tracker_invariant:
  assumes "run_ok tracker_step step_counts_ok (init_tracker ttl cap) bs"
  shows "tracker_inv (foldl tracker_step (init_tracker ttl cap) bs)"
  using assms tracker_inv_init by (rule tracker_safe.run_inv [rotated])

theorem tracker_invariant_witness:
  "tracker_inv (foldl tracker_step (init_tracker 600 4096) sample_run)"
  by (rule tracker_invariant)
     (simp add: sample_run_def step_counts_ok_def sample_event_def sample_fields_def event_ok_def fields_ok_def
        ev_fields_def total_default_def)

lemma fin_total_simps [simp]:
  "fin_total d k (t\<lparr>closed := x\<rparr>) = fin_total d k t" "fin_total d k (t\<lparr>active := y\<rparr>) = fin_total d k t"
  "fin_total d k (note_conflict t) = fin_total d k t"
  by (simp_all add: fin_total_def note_conflict_def)

lemma finalize_frame:
  "active (finalize c now ca t) = active t"
  "fin_total d k (finalize c now ca t) = fin_total d k t + conn_part d k c"
  by (simp_all add: finalize_eq fin_total_bank conn_part_eq)

lemma abandon_frame:
  "active (abandon t cid) = dict_del cid (active t)" "closed (abandon t cid) = closed t"
  "dict_get (active t) cid \<noteq> None \<Longrightarrow> abandoned_on_reset (abandon t cid) = Suc (abandoned_on_reset t)"
  by (auto simp: abandon_def Let_def dict_del_absent bank_def record_banked_def split: option.split)

lemma foldl_abandon_frame:
  "active (foldl abandon t cs) = fold dict_del cs (active t)" "closed (foldl abandon t cs) = closed t"
  "distinct cs \<Longrightarrow> set cs \<subseteq> dom (dict_get (active t)) \<Longrightarrow>
     abandoned_on_reset (foldl abandon t cs) = abandoned_on_reset t + length cs"
proof -
  show "active (foldl abandon t cs) = fold dict_del cs (active t)" "closed (foldl abandon t cs) = closed t"
    by (induction cs arbitrary: t) (simp_all add: abandon_frame)
  show "distinct cs \<Longrightarrow> set cs \<subseteq> dom (dict_get (active t)) \<Longrightarrow>
     abandoned_on_reset (foldl abandon t cs) = abandoned_on_reset t + length cs"
  proof (induction cs arbitrary: t)
    case (Cons c cs)
    then have "set cs \<subseteq> dom (dict_get (active (abandon t c)))" by (auto simp: abandon_frame)
    then have "abandoned_on_reset (foldl abandon (abandon t c) cs) = abandoned_on_reset (abandon t c) + length cs"
      using Cons.prems(1) by (intro Cons.IH) simp_all
    moreover have "dict_get (active t) c \<noteq> None" using Cons.prems(2) by auto
    ultimately show ?case by (simp add: abandon_frame)
  qed simp
qed

lemma fold_del_all: "fst ` set d \<subseteq> set cs \<Longrightarrow> fold dict_del cs d = []"
proof (induction cs arbitrary: d)
  case Nil
  then show ?case by simp
next
  case (Cons c cs)
  have "fst ` set (dict_del c d) \<subseteq> set cs" using Cons.prems by (auto simp: AList.delete_eq)
  then show ?case using Cons.IH by simp
qed

text \<open>
  A lifecycle that is booked as closed is never booked again. Whatever the server replays for it,
  a CLOSED event, a NEW row that carries \<open>closedAt\<close>, inside or outside a reset, the active table, the
  display cache, the ledger and the replay guard stay exactly as they are.
\<close>

theorem replay_never_books_twice:
  assumes "tracker_inv t" and "dict_get (banked_ids t) cid = Some b" and "b_state b = BankedClosed"
    and "e_id e = Some cid" and "cid \<noteq> []"
    and "e_type e = ''CLOSED'' \<or> e_type e = ''NEW'' \<and> int_seconds (f_closed_at (ev_fields e)) \<noteq> 0"
  shows "let t' = apply_event now t (Ev e) in
      active t' = active t \<and> closed t' = closed t \<and> finalized t' = finalized t \<and> banked_ids t' = banked_ids t
        \<and> (int_seconds (f_closed_at (ev_fields e)) \<noteq> 0 \<longrightarrow>
             (let r = fst (reset_row now (t, seen) (Ev e)) in
              active r = active t \<and> closed r = closed t \<and> finalized r = finalized t \<and> banked_ids r = banked_ids t))"
proof -
  have na: "dict_get (active t) cid = None"
    using inv_active(2) [OF assms(1), of cid] assms(2) by (cases "dict_get (active t) cid") auto
  have row: "let t' = record_closed_row cid f now ca t in
      active t' = active t \<and> closed t' = closed t \<and> finalized t' = finalized t \<and> banked_ids t' = banked_ids t"
    for f ca
    using assms(2,3) by (simp add: record_closed_row_def Let_def note_conflict_def note_duplicate_def)
  have "let t' = apply_event now t (Ev e) in
      active t' = active t \<and> closed t' = closed t \<and> finalized t' = finalized t \<and> banked_ids t' = banked_ids t"
    using assms(2-6) na row
    by (auto simp: Let_def apply_new_def apply_closed_def str_default_def note_duplicate_def)
  moreover have "let r = fst (reset_row now (t, seen) (Ev e)) in
      active r = active t \<and> closed r = closed t \<and> finalized r = finalized t \<and> banked_ids r = banked_ids t"
    if "int_seconds (f_closed_at (ev_fields e)) \<noteq> 0"
    using that assms(4,5) row by (simp add: Let_def reset_id_def truthy_def skip_def)
  ultimately show ?thesis by (simp add: Let_def)
qed

definition booked_tracker :: tracker where
  "booked_tracker = apply_event 1005
     (apply_event 1000 (init_tracker 600 4096) (Ev (sample_event ''NEW'' (Some (sample_fields 100 7)))))
     (Ev (sample_event ''CLOSED'' None))"

lemmas booked_defs = booked_tracker_def apply_new_def apply_closed_def close_active_def event_closed_at_def
  finalize_eq closing_def note_duplicate_def record_closed_row_def close_abandoned_def

lemma booked_tracker_inv: "tracker_inv booked_tracker"
  unfolding booked_tracker_def
  by (intro apply_event_effect(1) tracker_inv_init)
     (simp_all add: sample_event_def event_ok_def fields_ok_def ev_fields_def sample_fields_def no_fields_def
        total_default_def)

theorem replay_never_books_twice_witness:
  "finalized (apply_event 1200 booked_tracker (Ev (sample_event ''CLOSED'' None))) = finalized booked_tracker"
  using replay_never_books_twice [OF booked_tracker_inv, of "''c1''"
      "\<lparr>b_user = Some ''vmix-01'', b_inbound = Some ''hy2-in'', b_uplink = 100, b_downlink = 7, b_state = BankedClosed\<rparr>"
      "sample_event ''CLOSED'' None" 1200]
  by (simp add: booked_defs sample_defs)

text \<open>
  A CLOSED event for an active lifecycle books exactly its final totals: the connection leaves the
  active table, the ledger of its identity grows by its totals (raised to the event's own final totals
  when the event carries the same identity), every other ledger entry is untouched.
\<close>

theorem close_books_exact_totals:
  assumes inv: "tracker_inv t" and ty: "e_type e = ''CLOSED''" and id: "e_id e = Some cid"
    and got: "dict_get (active t) cid = Some c"
  shows "dict_get (active (apply_event now t (Ev e))) cid = None
    \<and> fin_total d k (apply_event now t (Ev e)) = fin_total d k t
      + conn_part d k (if ev_fields e \<noteq> no_fields \<and> may_proceed c (ev_fields e)
                       then raise_present (ev_fields e) c else c)"
  using ty id got
  by (simp add: apply_closed_def close_active_def Let_def finalize_frame note_conflict_def [of "_\<lparr>active := _\<rparr>"])
     (auto simp: fin_total_def)

definition open_tracker :: tracker where
  "open_tracker = apply_event 1000 (init_tracker 600 4096) (Ev (sample_event ''NEW'' (Some (sample_fields 100 7))))"

lemma open_tracker_inv: "tracker_inv open_tracker"
  unfolding open_tracker_def
  by (intro apply_event_effect(1) tracker_inv_init)
     (simp add: sample_event_def event_ok_def fields_ok_def ev_fields_def sample_fields_def no_fields_def
        total_default_def)

lemma open_tracker_get:
  "dict_get (active open_tracker) ''c1'' = Some (new_connection ''c1'' (Some ''vmix-01'', Some ''hy2-in'') (sample_fields 100 7) 1000)"
  by (simp add: open_tracker_def apply_new_def sample_defs)

theorem close_books_exact_totals_witness:
  "fin_total Up (Some ''vmix-01'', Some ''hy2-in'')
     (apply_event 1005 open_tracker (Ev (sample_event ''CLOSED'' (Some (sample_fields 150 9))))) = 150"
  using close_books_exact_totals [OF open_tracker_inv _ _ open_tracker_get, of "sample_event ''CLOSED'' (Some (sample_fields 150 9))"
      1005 Up "(Some ''vmix-01'', Some ''hy2-in'')"]
  by (simp add: sample_defs may_proceed_def raise_present_def conn_part_def open_tracker_def apply_new_def fin_total_def)

text \<open>
  Identity drift never moves traffic. A NEW or UPDATE event that names another user or inbound than
  the active lifecycle with its id changes no cumulative total of any identity, keeps the identity of
  the lifecycle, and is counted as a conflict.
\<close>

theorem identity_drift_moves_nothing:
  assumes inv: "tracker_inv t" and id: "e_id e = Some cid" "cid \<noteq> []"
    and got: "dict_get (active t) cid = Some c"
    and drift: "truthy (f_user (ev_fields e))" "truthy (f_inbound (ev_fields e))"
      "row_identity (ev_fields e) \<noteq> conn_ident c"
    and ty: "e_type e = ''UPDATE'' \<or> e_type e = ''NEW'' \<and> int_seconds (f_closed_at (ev_fields e)) = 0"
  shows "cumulative d k (apply_event now t (Ev e)) = cumulative d k t
    \<and> identity_conflicts (apply_event now t (Ev e)) = Suc (identity_conflicts t)
    \<and> map_option conn_ident (dict_get (active (apply_event now t (Ev e))) cid) = Some (conn_ident c)"
proof -
  have nf: "ev_fields e \<noteq> no_fields" using drift(1) by (auto simp: no_fields_def truthy_def)
  have mp: "\<not> may_proceed c (ev_fields e)" using drift by (simp add: may_proceed_def)
  have eq: "apply_event now t (Ev e) = note_conflict (t\<lparr>active := dict_set cid (c\<lparr>c_last_seen := now\<rparr>) (active t)\<rparr>)"
    using ty id got drift mp nf
    by (auto simp: apply_new_def apply_update_def Let_def truthy_def str_default_def get_id_def upsert_active_def
        split: option.splits)
  have "cumulative d k (apply_event now t (Ev e)) = cumulative d k t"
    unfolding eq ledger_frame
    using replace_active(2) [OF inv got, of "c\<lparr>c_last_seen := now\<rparr>" d k] inv_active(1) [OF inv got] by simp
  then show ?thesis
    unfolding eq by (simp add: note_conflict_def conn_ident_def)
qed

theorem identity_drift_moves_nothing_witness:
  "identity_conflicts (apply_event 1005 open_tracker
     (Ev (sample_event ''UPDATE'' (Some ((sample_fields 5 5)\<lparr>f_user := Some ''vmix-02''\<rparr>))))) = 1"
  using identity_drift_moves_nothing [OF open_tracker_inv _ _ open_tracker_get,
      of "sample_event ''UPDATE'' (Some ((sample_fields 5 5)\<lparr>f_user := Some ''vmix-02''\<rparr>))" Up "(None, None)" 1005]
  by (simp add: sample_defs open_tracker_def apply_new_def)

text \<open>
  An empty reset abandons every active lifecycle without loss: nothing is active any more, no
  cumulative total changes, nothing is shown as recently closed, and each one is counted.
\<close>

theorem empty_reset_loses_nothing:
  assumes inv: "tracker_inv t"
  shows "active (apply_batch (Batch [] True) now t) = []
    \<and> closed (apply_batch (Batch [] True) now t) = closed t
    \<and> cumulative d k (apply_batch (Batch [] True) now t) = cumulative d k t
    \<and> abandoned_on_reset (apply_batch (Batch [] True) now t) = abandoned_on_reset t + length (active t)"
proof -
  let ?t = "t\<lparr>batch_count := Suc (batch_count t)\<rparr>"
  have eq: "apply_batch (Batch [] True) now t = foldl abandon ?t (map fst (active t))"
    by (simp add: apply_reset_def Let_def)
  have "distinct (map fst (active t))" using inv_wf(1) [OF inv] by (simp add: wf_dict_def)
  moreover have "set (map fst (active t)) \<subseteq> dom (dict_get (active ?t))" by (simp add: dom_map_of_conv_image_fst)
  moreover have "cumulative d k (foldl abandon ?t (map fst (active t))) = cumulative d k t"
    using foldl_abandon_effect [of ?t "map fst (active t)" d k] inv by simp
  ultimately show ?thesis
    unfolding eq using foldl_abandon_frame(1,2) [of ?t "map fst (active t)"] foldl_abandon_frame(3) [of "map fst (active t)" ?t]
      fold_del_all [of "active t" "map fst (active t)"]
    by simp
qed

theorem empty_reset_loses_nothing_witness:
  "abandoned_on_reset (apply_batch (Batch [] True) 1010 open_tracker) = 1"
  using empty_reset_loses_nothing [OF open_tracker_inv, of 1010]
  by (simp add: open_tracker_def apply_new_def sample_defs)

text \<open>
  Without the lower-bound condition the totals can go backwards. A CLOSED event for an abandoned
  lifecycle whose connection object carries no totals replaces the booked 100 bytes by 0.
\<close>

theorem lower_bound_may_shrink:
  "cumulative Up (Some ''vmix-01'', Some ''hy2-in'')
     (foldl tracker_step (init_tracker 600 4096)
        (take 2 sample_run @ [(Batch [Ev (sample_event ''CLOSED''
            (Some (no_fields\<lparr>f_user := Some ''vmix-01'', f_inbound := Some ''hy2-in''\<rparr>)))] False, 1020)]))
   < cumulative Up (Some ''vmix-01'', Some ''hy2-in'')
     (foldl tracker_step (init_tracker 600 4096) (take 2 sample_run))"
  by (simp add: sample_defs cumulative_def fin_total_def apply_closed_def close_abandoned_def finalize_eq closing_def
     conn_part_def)

end
