(* ===== verification/Snapshot.thy ===== *)
theory Snapshot
  imports Ledger
begin

text \<open>
  \<open>Tracker.snapshot\<close> of \<open>monitor-v2/collector.py\<close>: pruning of the display cache, the per-device and
  per-protocol aggregates and the flat connection rows. Formatting a timestamp and sorting a set of
  names can raise, so the snapshot is an error value or the tracker with its pruned cache and the
  projection.
\<close>

section \<open>Rounding and timestamps\<close>

definition round3 :: "rat \<Rightarrow> rat" where
  "round3 x = rat_of_int (round_half_even (x * 1000)) / 1000"

fun dec_digits :: "nat \<Rightarrow> nat \<Rightarrow> string" where
  "dec_digits 0 n = []"
| "dec_digits (Suc w) n = dec_digits w (n div 10) @ [char_of (48 + n mod 10)]"

text \<open>The proleptic Gregorian date of a day number (0 is 1970-01-01).\<close>

definition civil :: "int \<Rightarrow> int \<times> int \<times> int" where
  "civil z =
     (let z' = z + 719468; era = z' div 146097; doe = z' mod 146097;
          yoe = (doe - doe div 1460 + doe div 36524 - doe div 146096) div 365;
          doy = doe - (365 * yoe + yoe div 4 - yoe div 100);
          mp = (5 * doy + 2) div 153;
          d = doy - (153 * mp + 2) div 5 + 1;
          m = (if mp < 10 then mp + 3 else mp - 9);
          y = yoe + era * 400 + (if m \<le> 2 then 1 else 0)
      in (y, m, d))"

definition iso :: "rat \<Rightarrow> string res" where
  "iso timestamp =
     (let us = round_half_even (timestamp * 1000000);
          (y, m, d) = civil (us div 86400000000);
          sod = us mod 86400000000 div 1000000;
          micro = us mod 1000000
      in if y < 1 \<or> 9999 < y then Inl (ValueError ''year is out of range'')
         else Inr (dec_digits 4 (nat y) @ ''-'' @ dec_digits 2 (nat m) @ ''-'' @ dec_digits 2 (nat d) @ ''T''
           @ dec_digits 2 (nat (sod div 3600)) @ '':'' @ dec_digits 2 (nat (sod mod 3600 div 60)) @ '':''
           @ dec_digits 2 (nat (sod mod 60))
           @ (if micro \<noteq> 0 then ''.'' @ dec_digits 6 (nat micro) else []) @ ''+00:00''))"

definition iso_or_none :: "rat \<Rightarrow> string option res" where
  "iso_or_none timestamp =
     (let value = to_seconds (Some timestamp)
      in if value \<noteq> 0 then res_bind (iso value) (\<lambda>s. Inr (Some s)) else Inr None)"

section \<open>Rows\<close>

definition RECENT_SOURCES_MAX :: nat where "RECENT_SOURCES_MAX = 10"
definition RECENT_CONNECTIONS_MAX :: nat where "RECENT_CONNECTIONS_MAX = 20"
definition CLOSED_IDS_EVIDENCE_MAX :: nat where "CLOSED_IDS_EVIDENCE_MAX = 512"
definition CONNECTIONS_RECENT_MAX :: nat where "CONNECTIONS_RECENT_MAX = 200"

definition STATUS_ACTIVE :: string where "STATUS_ACTIVE = ''ACTIVE''"
definition STATUS_RECENT :: string where "STATUS_RECENT = ''RECENT ACTIVITY''"
definition STATUS_IDLE :: string where "STATUS_IDLE = ''IDLE''"

record conn_row =
  r_conn :: conn
  r_created_at :: "string option"
  r_closed_at :: "string option"
  r_uplink_rate :: rat
  r_downlink_rate :: rat
  r_uplink_total :: rat
  r_downlink_total :: rat
  r_state :: string

record proto_row =
  p_active_connections :: nat
  p_uplink_rate :: rat
  p_downlink_rate :: rat
  p_uplink_total :: rat
  p_downlink_total :: rat

record recent_row =
  q_id :: string
  q_inbound :: "string option"
  q_source :: string
  q_destination :: string
  q_uplink_total :: rat
  q_downlink_total :: rat
  q_closed_at :: string

record device_row =
  d_status :: string
  d_protocols :: "(string option, proto_row) dict"
  d_active_connections :: nat
  d_uplink_rate :: rat
  d_downlink_rate :: rat
  d_uplink_total :: rat
  d_downlink_total :: rat
  d_recent_sources :: "string list"
  d_last_activity :: "string option"
  d_recent_connections :: "recent_row list"
  d_closed_ids :: "(string \<times> string option \<times> string) list"

record snapshot =
  s_batch_count :: nat
  s_skipped_events :: nat
  s_duplicate_events :: nat
  s_identity_conflicts :: nat
  s_abandoned_on_reset :: nat
  s_active_connections :: nat
  s_recently_closed :: nat
  s_connections :: "conn_row list"
  s_devices :: "(string option, device_row) dict"

text \<open>
  One flat row. The identifying fields are copied unchanged from the lifecycle, which the row keeps
  as \<open>r_conn\<close>; the other fields are the projected ones.
\<close>

definition connection_row :: "string \<Rightarrow> conn \<Rightarrow> conn_row res" where
  "connection_row state conn =
     res_bind (iso_or_none (c_created_at conn)) (\<lambda>created.
     res_bind (iso_or_none (c_closed_at conn)) (\<lambda>cl.
       Inr \<lparr>r_conn = conn, r_created_at = created, r_closed_at = cl,
            r_uplink_rate = round3 (c_uplink_rate conn), r_downlink_rate = round3 (c_downlink_rate conn),
            r_uplink_total = round3 (c_uplink_total conn), r_downlink_total = round3 (c_downlink_total conn),
            r_state = state\<rparr>))"

section \<open>Aggregates\<close>

text \<open>\<open>sorted\<close> over a set of names: comparing \<open>None\<close> with a string raises.\<close>

definition sorted_names :: "string option set \<Rightarrow> string option list res" where
  "sorted_names S =
     (if None \<in> S \<and> S \<noteq> {None} then Inl TypeError
      else if None \<in> S then Inr [None] else Inr (map Some (sorted_list_of_set (Option.these S))))"

definition conns_of :: "string option \<Rightarrow> (string, conn) dict \<Rightarrow> conn list" where
  "conns_of name d = filter (\<lambda>c. c_user c = name) (map snd d)"

definition newest_first :: "conn list \<Rightarrow> conn list" where
  "newest_first cs = sort_key (\<lambda>c. - c_closed_at c) cs"

definition prune_closed :: "rat \<Rightarrow> tracker \<Rightarrow> tracker" where
  "prune_closed now t =
     t\<lparr>closed := filter (\<lambda>(cid, c). \<not> closed_ttl t < now - to_seconds (Some (c_closed_at c))) (closed t)\<rparr>"

definition proto_names :: "tracker \<Rightarrow> string option \<Rightarrow> string option set" where
  "proto_names t name =
     c_inbound ` set (conns_of name (active t)) \<union> c_inbound ` set (conns_of name (closed t))
       \<union> snd ` {k \<in> fst ` set (finalized t). fst k = name}"

definition proto_total :: "dir \<Rightarrow> tracker \<Rightarrow> string option \<Rightarrow> string option \<Rightarrow> rat" where
  "proto_total d t name inbound =
     sum_list (map (conn_total d) (filter (\<lambda>c. c_inbound c = inbound) (conns_of name (active t))))
       + slot_total d (slot (finalized t) (name, inbound))"

definition protocol_row :: "tracker \<Rightarrow> string option \<Rightarrow> string option \<Rightarrow> proto_row" where
  "protocol_row t name inbound =
     (let proto_active = filter (\<lambda>c. c_inbound c = inbound) (conns_of name (active t)) in
      \<lparr>p_active_connections = length proto_active,
       p_uplink_rate = round3 (sum_list (map c_uplink_rate proto_active)),
       p_downlink_rate = round3 (sum_list (map c_downlink_rate proto_active)),
       p_uplink_total = round3 (proto_total Up t name inbound),
       p_downlink_total = round3 (proto_total Down t name inbound)\<rparr>)"

definition device_total :: "dir \<Rightarrow> tracker \<Rightarrow> string option \<Rightarrow> string option list \<Rightarrow> rat" where
  "device_total d t name protos =
     sum_list (map (conn_total d) (conns_of name (active t)))
       + sum_list (map (\<lambda>inbound. slot_total d (slot (finalized t) (name, inbound))) protos)"

definition recent_conn :: "conn \<Rightarrow> recent_row res" where
  "recent_conn c = res_bind (iso (c_closed_at c)) (\<lambda>cl.
     Inr \<lparr>q_id = c_id c, q_inbound = c_inbound c, q_source = c_source c, q_destination = c_destination c,
          q_uplink_total = round3 (c_uplink_total c), q_downlink_total = round3 (c_downlink_total c),
          q_closed_at = cl\<rparr>)"

definition closed_id :: "conn \<Rightarrow> (string \<times> string option \<times> string) res" where
  "closed_id c = res_bind (iso (c_closed_at c)) (\<lambda>cl. Inr (c_id c, c_inbound c, cl))"

definition last_activity :: "conn list \<Rightarrow> string option res" where
  "last_activity cs =
     (if cs = [] then Inr None
      else res_bind (iso (Max (c_last_seen ` set cs))) (\<lambda>s. Inr (Some s)))"

definition device_snapshot :: "tracker \<Rightarrow> string option \<Rightarrow> device_row res" where
  "device_snapshot t name =
     (let act = conns_of name (active t); cl = conns_of name (closed t) in
      res_bind (sorted_names (proto_names t name)) (\<lambda>protos.
      res_bind (last_activity (act @ cl)) (\<lambda>last.
      res_bind (res_map recent_conn (take RECENT_CONNECTIONS_MAX (newest_first cl))) (\<lambda>recent.
      res_bind (res_map closed_id (take CLOSED_IDS_EVIDENCE_MAX (newest_first cl))) (\<lambda>ids.
        Inr \<lparr>d_status = (if act \<noteq> [] then STATUS_ACTIVE else if cl \<noteq> [] then STATUS_RECENT else STATUS_IDLE),
             d_protocols = map (\<lambda>i. (i, protocol_row t name i)) protos,
             d_active_connections = length act,
             d_uplink_rate = round3 (sum_list (map c_uplink_rate act)),
             d_downlink_rate = round3 (sum_list (map c_downlink_rate act)),
             d_uplink_total = round3 (device_total Up t name protos),
             d_downlink_total = round3 (device_total Down t name protos),
             d_recent_sources = take RECENT_SOURCES_MAX
               (sorted_list_of_set {s \<in> c_source ` set (act @ cl). s \<noteq> []}),
             d_last_activity = last, d_recent_connections = recent, d_closed_ids = ids\<rparr>)))))"

definition row_key :: "conn_row \<Rightarrow> string" where
  "row_key r = (case r_created_at r of None \<Rightarrow> [] | Some s \<Rightarrow> s)"

text \<open>A stable descending sort is the stable ascending sort of the reversed list, reversed.\<close>

definition rows_newest_first :: "conn_row list \<Rightarrow> conn_row list" where
  "rows_newest_first rows = rev (sort_key row_key (rev rows))"

definition connection_rows :: "tracker \<Rightarrow> conn_row list res" where
  "connection_rows t =
     res_bind (res_map (connection_row STATUS_ACTIVE) (map snd (active t))) (\<lambda>act.
     res_bind (res_map (connection_row STATUS_RECENT)
                 (take CONNECTIONS_RECENT_MAX (newest_first (map snd (closed t))))) (\<lambda>rec.
       Inr (rows_newest_first (act @ rec))))"

definition device_names :: "tracker \<Rightarrow> string option set" where
  "device_names t =
     devices t \<union> c_user ` (snd ` set (active t)) \<union> c_user ` (snd ` set (closed t))"

definition take_snapshot :: "rat \<Rightarrow> tracker \<Rightarrow> (tracker \<times> snapshot) res" where
  "take_snapshot now t0 =
     (let t = prune_closed now t0 in
      res_bind (sorted_names (device_names t)) (\<lambda>names.
      res_bind (res_map (\<lambda>name. res_bind (device_snapshot t name) (\<lambda>row. Inr (name, row))) names) (\<lambda>devs.
      res_bind (connection_rows t) (\<lambda>rows.
        Inr (t, \<lparr>s_batch_count = batch_count t, s_skipped_events = skipped_events t,
                 s_duplicate_events = duplicate_events t, s_identity_conflicts = identity_conflicts t,
                 s_abandoned_on_reset = abandoned_on_reset t, s_active_connections = length (active t),
                 s_recently_closed = length (closed t), s_connections = rows, s_devices = devs\<rparr>)))))"

section \<open>Totals shown are the cumulative totals\<close>

lemma sum_conns:
  "dict_sum (conn_part d (name, i)) dd
     = sum_list (map (conn_total d) (filter (\<lambda>c. c_inbound c = i) (conns_of name dd)))"
  by (induction dd) (auto simp: conns_of_def conn_part_def conn_ident_def)

lemma proto_total_cumulative: "proto_total d t name i = cumulative d (name, i) t"
  by (simp add: proto_total_def cumulative_def fin_total_def sum_conns)

lemma sum_by_inbound:
  fixes f :: "conn \<Rightarrow> rat"
  assumes "distinct ps" and "c_inbound ` set cs \<subseteq> set ps"
  shows "sum_list (map f cs) = (\<Sum>i\<leftarrow>ps. sum_list (map f (filter (\<lambda>c. c_inbound c = i) cs)))"
  using assms(2)
proof (induction cs)
  case Nil
  then show ?case by simp
next
  case (Cons c cs)
  have "(\<Sum>i\<leftarrow>ps. if c_inbound c = i then f c else 0) = f c"
    using assms(1) Cons.prems by (simp add: sum_list_distinct_conv_sum_set)
  moreover have "(\<Sum>i\<leftarrow>ps. sum_list (map f (filter (\<lambda>c. c_inbound c = i) (c # cs))))
      = (\<Sum>i\<leftarrow>ps. (if c_inbound c = i then f c else 0) + sum_list (map f (filter (\<lambda>c. c_inbound c = i) cs)))"
    by (rule arg_cong [of _ _ sum_list]) simp
  ultimately show ?case using Cons by (simp add: sum_list_addf)
qed

lemma sorted_names_set:
  assumes "sorted_names S = Inr ns" and "finite S"
  shows "distinct ns \<and> set ns = S"
proof (cases "None \<in> S")
  case True
  with assms(1) have "S = {None}" "ns = [None]" by (auto simp: sorted_names_def split: if_splits)
  then show ?thesis by simp
next
  case False
  then have "ns = map Some (sorted_list_of_set (Option.these S))"
    using assms(1) by (simp add: sorted_names_def)
  moreover have "Some ` Option.these S = S"
    using False unfolding Some_image_these_eq by (metis (mono_tags, lifting) Collect_mem_eq Collect_cong)
  ultimately show ?thesis
    using assms(2) by (simp add: distinct_map Option.these_def)
qed

lemma finite_proto_names: "finite (proto_names t name)"
  by (simp add: proto_names_def)

lemma device_total_sum:
  assumes "sorted_names (proto_names t name) = Inr protos"
  shows "device_total d t name protos = (\<Sum>i\<leftarrow>protos. cumulative d (name, i) t)"
proof -
  have ps: "distinct protos" "set protos = proto_names t name"
    using sorted_names_set [OF assms finite_proto_names] by simp_all
  have "c_inbound ` set (conns_of name (active t)) \<subseteq> set protos"
    unfolding ps(2) by (auto simp: proto_names_def)
  then have "device_total d t name protos
      = (\<Sum>i\<leftarrow>protos. sum_list (map (conn_total d) (filter (\<lambda>c. c_inbound c = i) (conns_of name (active t)))))
        + (\<Sum>i\<leftarrow>protos. slot_total d (slot (finalized t) (name, i)))"
    unfolding device_total_def using sum_by_inbound [OF ps(1)] by simp
  also have "\<dots> = (\<Sum>i\<leftarrow>protos. proto_total d t name i)"
    by (simp add: sum_list_addf proto_total_def)
  finally show ?thesis by (simp add: proto_total_cumulative)
qed

section \<open>Devices never disappear\<close>

lemma devices_frame [simp]:
  "devices (skip t) = devices t" "devices (note_conflict t) = devices t" "devices (note_duplicate t) = devices t"
  "devices (bank key u w t) = devices t" "devices (record_banked cid i u w s t) = devices t"
  "devices (unbank_record b t) = devices t" "devices (drop_banked cid t) = devices t"
  "devices (finalize c now ca t) = devices t" "devices (close_fresh cid i f now ca2 t) = devices t"
  "devices (abandon t cid) = devices t"
  by (simp_all add: skip_def note_conflict_def note_duplicate_def bank_def record_banked_def unbank_record_def
      unbank_def drop_banked_def finalize_def close_fresh_def abandon_def Let_def split: option.split)

lemma devices_upsert: "devices t \<subseteq> devices (upsert_active cid f now t)"
  by (auto simp: upsert_active_def start_active_def Let_def split: option.split)

lemma devices_closed_row: "insert (f_user f) (devices t) \<subseteq> devices (record_closed_row cid f now ca t)"
  by (auto simp: record_closed_row_def Let_def split: option.split)

lemma devices_event: "devices t \<subseteq> devices (apply_event now t r)"
  using devices_upsert devices_closed_row
  by (cases r) (auto simp: apply_new_def apply_update_def apply_closed_def close_active_def close_abandoned_def
      Let_def split: option.split)

lemma devices_reset_row: "devices (fst s) \<subseteq> devices (fst (reset_row now s r))"
  using devices_upsert devices_closed_row
  by (cases s; cases r) (auto simp: Let_def split: option.split)

lemma devices_foldl_event: "devices t \<subseteq> devices (foldl (apply_event now) t rs)"
  by (induction rs arbitrary: t) (auto dest: devices_event [THEN subsetD])

lemma devices_foldl_row: "devices (fst s) \<subseteq> devices (fst (foldl (reset_row now) s rs))"
proof (induction rs arbitrary: s)
  case (Cons r rs)
  have "devices (fst s) \<subseteq> devices (fst (reset_row now s r))" by (rule devices_reset_row)
  also have "\<dots> \<subseteq> devices (fst (foldl (reset_row now) (reset_row now s r) rs))" by (rule Cons.IH)
  finally show ?case by simp
qed simp

lemma devices_foldl_abandon: "devices (foldl abandon t cs) = devices t"
  by (induction cs arbitrary: t) simp_all

lemma devices_reset: "devices t \<subseteq> devices (apply_reset rs now t)"
  using devices_foldl_row [of "(t, {})" now rs]
  by (cases "foldl (reset_row now) (t, {}) rs") (simp add: apply_reset_def devices_foldl_abandon)

lemma devices_step: "devices t \<subseteq> devices (tracker_step t bn)"
proof (cases "fst bn")
  case (Batch es rst)
  then show ?thesis
    using devices_reset [of "t\<lparr>batch_count := Suc (batch_count t)\<rparr>" es "snd bn"]
      devices_foldl_event [of "t\<lparr>batch_count := Suc (batch_count t)\<rparr>" "snd bn" es]
    by (auto simp: tracker_step_def Let_def)
qed (simp add: tracker_step_def)

lemma devices_run: "devices t \<subseteq> devices (foldl tracker_step t bs)"
  by (induction bs arbitrary: t) (auto dest: devices_step [THEN subsetD])

lemma snapshot_mixed_names:
  assumes "None \<in> devices t" and "Some u \<in> devices t"
  shows "take_snapshot now t = Inl TypeError"
proof -
  have "None \<in> device_names (prune_closed now t)" "Some u \<in> device_names (prune_closed now t)"
    using assms by (simp_all add: device_names_def prune_closed_def)
  then have "sorted_names (device_names (prune_closed now t)) = Inl TypeError"
    by (auto simp: sorted_names_def)
  then show ?thesis by (simp add: take_snapshot_def Let_def)
qed

section \<open>Properties\<close>

text \<open>
  The totals a snapshot shows are the accumulated ones. For every device, the unrounded uplink and
  downlink total of the device row is the sum over its protocols of the cumulative totals of
  (device, protocol), and each protocol row shows that cumulative total: no byte of an active or booked
  lifecycle is dropped or counted for two protocols.
\<close>

theorem snapshot_totals_are_cumulative:
  assumes "sorted_names (proto_names t name) = Inr protos"
  shows "device_total d t name protos = (\<Sum>i\<leftarrow>protos. cumulative d (name, i) t)
    \<and> (\<forall>i. proto_total d t name i = cumulative d (name, i) t)
    \<and> (\<forall>k. fst k = name \<and> cumulative d k t \<noteq> 0 \<longrightarrow> snd k \<in> set protos)"
proof (intro conjI allI impI)
  show "device_total d t name protos = (\<Sum>i\<leftarrow>protos. cumulative d (name, i) t)"
    by (rule device_total_sum [OF assms])
  show "proto_total d t name i = cumulative d (name, i) t" for i by (rule proto_total_cumulative)
next
  fix k assume k: "fst k = name \<and> cumulative d k t \<noteq> 0"
  then obtain i where ki: "k = (name, i)" by (cases k) auto
  have "i \<in> proto_names t name"
  proof (rule ccontr)
    assume no: "i \<notin> proto_names t name"
    then have "dict_get (finalized t) (name, i) = None"
      by (force simp: proto_names_def map_of_eq_None_iff)
    moreover have "filter (\<lambda>c. c_inbound c = i) (conns_of name (active t)) = []"
      using no by (auto simp: proto_names_def filter_empty_conv)
    ultimately have "proto_total d t name i = 0"
      by (cases d) (simp_all add: proto_total_def slot_def)
    with k ki show False by (simp add: proto_total_cumulative)
  qed
  then show "snd k \<in> set protos"
    using sorted_names_set [OF assms finite_proto_names] ki by simp
qed

lemma res_map_take_length: "res_map f (take n xs) = Inr ys \<Longrightarrow> length ys \<le> n"
  by (drule res_map_length) simp

lemma device_caps:
  "device_snapshot t name = Inr row \<Longrightarrow> length (d_recent_connections row) \<le> RECENT_CONNECTIONS_MAX
     \<and> length (d_closed_ids row) \<le> CLOSED_IDS_EVIDENCE_MAX \<and> length (d_recent_sources row) \<le> RECENT_SOURCES_MAX"
  by (auto simp: device_snapshot_def Let_def res_bind_eq_Inr dest!: res_map_take_length)

text \<open>
  Taking a snapshot reads the ledger, it does not write it. When it succeeds, the active table, the
  ledger and the replay guard are unchanged, the display cache keeps exactly the closed connections
  whose age is within the TTL, and the recent rows stay within their caps.
\<close>

theorem snapshot_is_read_only:
  assumes "take_snapshot now t = Inr (t', s)"
  shows "active t' = active t \<and> finalized t' = finalized t \<and> banked_ids t' = banked_ids t
    \<and> (\<forall>cid c. (cid, c) \<in> set (closed t') \<longleftrightarrow>
          (cid, c) \<in> set (closed t) \<and> now - to_seconds (Some (c_closed_at c)) \<le> closed_ttl t)
    \<and> length (s_connections s) = length (active t) + min CONNECTIONS_RECENT_MAX (length (closed t'))
    \<and> (\<forall>name row. (name, row) \<in> set (s_devices s) \<longrightarrow>
          length (d_recent_connections row) \<le> RECENT_CONNECTIONS_MAX
          \<and> length (d_closed_ids row) \<le> CLOSED_IDS_EVIDENCE_MAX)"
proof -
  let ?p = "prune_closed now t"
  obtain names devs rows where r: "t' = ?p"
      "res_map (\<lambda>name. res_bind (device_snapshot ?p name) (\<lambda>row. Inr (name, row))) names = Inr devs"
      "connection_rows ?p = Inr rows" "s_devices s = devs" "s_connections s = rows"
    using assms by (auto simp: take_snapshot_def Let_def res_bind_eq_Inr)
  have len: "length rows = length (active t) + min CONNECTIONS_RECENT_MAX (length (closed ?p))"
    using r(3) by (auto simp: connection_rows_def res_bind_eq_Inr rows_newest_first_def newest_first_def
        prune_closed_def dest!: res_map_length)
  have caps: "length (d_recent_connections row) \<le> RECENT_CONNECTIONS_MAX
      \<and> length (d_closed_ids row) \<le> CLOSED_IDS_EVIDENCE_MAX" if "(name, row) \<in> set devs" for name row
    using res_map_source [OF r(2) that] device_caps by (auto simp: res_bind_eq_Inr)
  show ?thesis using r len caps by (auto simp: prune_closed_def)
qed

text \<open>
  One row breaks every later snapshot. A NEW event that carries \<open>closedAt\<close> and no user, handled
  outside a reset, registers the device \<open>None\<close>; once a named device is known, every snapshot taken then
  or after any further batches raises \<open>TypeError\<close> while sorting the device names.
\<close>

theorem userless_closed_row_breaks_snapshots:
  assumes "Some u \<in> devices t" and "e_type e = ''NEW''"
    and "int_seconds (f_closed_at (ev_fields e)) \<noteq> 0" and "f_user (ev_fields e) = None"
  shows "take_snapshot now' (foldl tracker_step (apply_event now t (Ev e)) bs) = Inl TypeError"
proof (rule snapshot_mixed_names)
  let ?t = "apply_event now t (Ev e)"
  have "insert None (devices t) \<subseteq> devices ?t"
    using assms(2-4) devices_closed_row [of "ev_fields e" t] by (simp add: apply_new_def Let_def)
  then show "None \<in> devices (foldl tracker_step ?t bs)" "Some u \<in> devices (foldl tracker_step ?t bs)"
    using devices_run [of ?t bs] assms(1) by auto
qed

theorem userless_closed_row_breaks_snapshots_witness:
  "take_snapshot 2000 (foldl tracker_step
     (apply_event 1005 open_tracker (Ev (sample_event ''NEW'' (Some (no_fields\<lparr>f_closed_at := Some 1004\<rparr>)))))
     sample_run) = Inl TypeError"
  by (rule userless_closed_row_breaks_snapshots [of "''vmix-01''"])
     (simp_all add: open_tracker_def apply_new_def sample_defs)

theorem snapshot_totals_are_cumulative_witness:
  "device_total Up open_tracker (Some ''vmix-01'') [Some ''hy2-in''] = 100"
  using snapshot_totals_are_cumulative [of open_tracker "Some ''vmix-01''" "[Some ''hy2-in'']" Up]
  by (simp add: open_tracker_def apply_new_def sample_defs sorted_names_def proto_names_def conns_of_def
      Option.these_def cumulative_def fin_total_def conn_part_def Collect_conv_if)

theorem snapshot_is_read_only_witness:
  "\<exists>t' s. take_snapshot 1001 open_tracker = Inr (t', s) \<and> active t' = active open_tracker"
proof -
  have "\<not> isl (take_snapshot 1001 open_tracker)" by code_simp
  then obtain t' s where "take_snapshot 1001 open_tracker = Inr (t', s)"
    by (cases "take_snapshot 1001 open_tracker") auto
  then show ?thesis using snapshot_is_read_only [of 1001 open_tracker t' s] by auto
qed
end
