(* ===== verification/Collector.thy ===== *)
theory Collector
  imports Snapshot
begin

text \<open>
  The stream consumer of \<open>monitor-v2/collector.py\<close> (class \<open>Collector\<close>, \<open>consume\<close>) and its helpers. The
  environment of one call is a script: the batches the stream yields and the exceptions it ends with,
  each with the clock readings the loop takes there. A script that runs out stands for a loop that is
  still waiting.
\<close>

section \<open>Redaction\<close>

text \<open>\<open>str.replace\<close>: leftmost occurrences first, never overlapping; an empty pattern is excluded by the caller.\<close>

function replace_all :: "string \<Rightarrow> string \<Rightarrow> string \<Rightarrow> string" where
  "replace_all old new s =
     (if old = [] \<or> s = [] then s
      else if take (length old) s = old then new @ replace_all old new (drop (length old) s)
      else hd s # replace_all old new (tl s))"
  by pat_completeness auto
termination
  by (relation "measure (\<lambda>(old, new, s). length s)") auto

declare replace_all.simps [simp del]

definition redact :: "string option \<Rightarrow> string list \<Rightarrow> string option" where
  "redact text secrets =
     (case text of None \<Rightarrow> None
      | Some x \<Rightarrow> if x = [] then Some x
                 else Some (foldl (\<lambda>acc secret. if secret \<noteq> [] then replace_all secret ''[redacted]'' acc else acc)
                              x secrets))"

section \<open>State\<close>

record collector =
  co_tracker :: tracker
  co_stale :: bool
  co_last_error :: "string option"
  co_last_success_at :: "rat option"
  co_consecutive_failures :: nat
  co_secrets :: "string list"

definition init_collector :: "rat \<Rightarrow> string list \<Rightarrow> collector" where
  "init_collector ttl secrets =
     \<lparr>co_tracker = init_tracker ttl 4096, co_stale = False, co_last_error = None,
      co_last_success_at = None, co_consecutive_failures = 0,
      co_secrets = filter (\<lambda>s. s \<noteq> []) secrets\<rparr>"

text \<open>
  One item of a script: a batch (its events and its reset flag) with the clock read before it is applied
  and the clock read at the deadline test, or an exception (its rendered text) with the two clock readings
  of its handler. The end of the stream is an exception (\<open>RuntimeError: event stream ended by the
  server\<close>), and so is a yielded value that is not a dictionary: the tracker ignores it and the loop's own
  \<open>batch.get\<close> raises.
\<close>

datatype item = Got "raw_event list" bool rat rat | Raised string rat rat

datatype budget = Duration rat | MaxBatches nat

definition is_data :: "raw_event list \<Rightarrow> bool \<Rightarrow> bool" where
  "is_data es r \<longleftrightarrow> es \<noteq> [] \<or> r"

definition apply_item :: "raw_event list \<Rightarrow> bool \<Rightarrow> rat \<Rightarrow> collector \<Rightarrow> collector" where
  "apply_item es r now c =
     (let c1 = c\<lparr>co_tracker := apply_batch (Batch es r) now (co_tracker c)\<rparr>
      in if is_data es r
         then c1\<lparr>co_stale := False, co_consecutive_failures := 0, co_last_success_at := Some now,
                 co_last_error := None\<rparr>
         else c1)"

definition fail_item :: "string \<Rightarrow> collector \<Rightarrow> collector" where
  "fail_item msg c =
     c\<lparr>co_stale := True, co_consecutive_failures := Suc (co_consecutive_failures c),
       co_last_error := redact (Some msg) (co_secrets c)\<rparr>"

text \<open>
  The loop: the result is the state, the number of data batches applied and the sleeps taken between
  reconnects; \<^const>\<open>None\<close> when the script ends before the loop returns.
\<close>

fun consume_loop :: "budget \<Rightarrow> rat \<Rightarrow> nat \<Rightarrow> rat \<Rightarrow> rat list \<Rightarrow> collector \<Rightarrow> item list
    \<Rightarrow> (collector \<times> nat \<times> rat list) option" where
  "consume_loop bud deadline applied backoff sleeps c [] = None"
| "consume_loop bud deadline applied backoff sleeps c (Got es r now clk # rest) =
     (let c1 = apply_item es r now c; applied1 = (if is_data es r then Suc applied else applied)
      in case bud of
           MaxBatches n \<Rightarrow>
             if n \<le> applied1 then Some (c1, applied1, sleeps)
             else consume_loop bud deadline applied1 backoff sleeps c1 rest
         | Duration _ \<Rightarrow>
             if deadline \<le> clk then Some (c1, applied1, sleeps)
             else consume_loop bud deadline applied1 backoff sleeps c1 rest)"
| "consume_loop bud deadline applied backoff sleeps c (Raised msg clk clk' # rest) =
     (let c1 = fail_item msg c
      in case bud of
           MaxBatches n \<Rightarrow> Some (c1, applied, sleeps)
         | Duration _ \<Rightarrow>
             if deadline \<le> clk then Some (c1, applied, sleeps)
             else consume_loop bud deadline applied (min (backoff * 2) 2)
                    (sleeps @ [min backoff (max 0 (deadline - clk'))]) c1 rest)"

definition consume :: "rat option \<Rightarrow> nat option \<Rightarrow> rat \<Rightarrow> collector \<Rightarrow> item list
    \<Rightarrow> (collector \<times> nat \<times> rat list) option res" where
  "consume duration max_batches start c script =
     (case (duration, max_batches) of
        (Some d, None) \<Rightarrow> Inr (consume_loop (Duration d) (start + d) 0 (1 / 5) [] c script)
      | (None, Some n) \<Rightarrow> Inr (consume_loop (MaxBatches n) 0 0 (1 / 5) [] c script)
      | _ \<Rightarrow> Inl (ValueError ''consume() needs exactly one of duration/max_batches''))"

section \<open>One run as a fold over a prefix of the script\<close>

fun item_step :: "collector \<Rightarrow> item \<Rightarrow> collector" where
  "item_step c (Got es r now clk) = apply_item es r now c"
| "item_step c (Raised msg clk clk') = fail_item msg c"

fun item_stops :: "budget \<Rightarrow> rat \<Rightarrow> nat \<Rightarrow> item \<Rightarrow> bool" where
  "item_stops (Duration d) deadline applied (Got es r now clk) \<longleftrightarrow> deadline \<le> clk"
| "item_stops (Duration d) deadline applied (Raised msg clk clk') \<longleftrightarrow> deadline \<le> clk"
| "item_stops (MaxBatches n) deadline applied (Got es r now clk) \<longleftrightarrow>
     n \<le> (if is_data es r then Suc applied else applied)"
| "item_stops (MaxBatches n) deadline applied (Raised msg clk clk') \<longleftrightarrow> True"

fun item_data :: "item \<Rightarrow> nat" where
  "item_data (Got es r now clk) = (if is_data es r then 1 else 0)"
| "item_data (Raised msg clk clk') = 0"

text \<open>The loop returns at the first item that stops it, in the state the items up to it lead to.\<close>

lemma consume_loop_fold:
  "consume_loop bud dl ap bo sl c script = Some (c', n, sl') \<Longrightarrow>
     \<exists>k < length script. c' = foldl item_step c (take (Suc k) script)
       \<and> n = ap + sum_list (map item_data (take (Suc k) script))
       \<and> item_stops bud dl (ap + sum_list (map item_data (take k script))) (script ! k)
       \<and> (\<forall>j < k. \<not> item_stops bud dl (ap + sum_list (map item_data (take j script))) (script ! j))"
proof (induction bud dl ap bo sl c script rule: consume_loop.induct)
  case (1 bud dl ap bo sl c)
  then show ?case by simp
next
  case (2 bud dl ap bo sl c es r now clk rest)
  let ?it = "Got es r now clk"
  show ?case
  proof (cases "item_stops bud dl ap ?it")
    case True
    with "2.prems" show ?thesis
      by (intro exI [of _ 0]) (cases bud; auto simp: Let_def split: if_splits)
  next
    case False
    with "2.prems" have "consume_loop bud dl (ap + item_data ?it) bo sl (item_step c ?it) rest = Some (c', n, sl')"
      by (cases bud) (auto simp: Let_def split: if_splits)
    with False "2.IH" [OF refl refl] obtain k where
      k: "k < length rest" "c' = foldl item_step (item_step c ?it) (take (Suc k) rest)"
        "n = ap + item_data ?it + sum_list (map item_data (take (Suc k) rest))"
        "item_stops bud dl (ap + item_data ?it + sum_list (map item_data (take k rest))) (rest ! k)"
        "\<forall>j < k. \<not> item_stops bud dl (ap + item_data ?it + sum_list (map item_data (take j rest))) (rest ! j)"
      by (cases bud) (auto split: if_splits)
    then show ?thesis using False
      by (intro exI [of _ "Suc k"]) (auto simp: less_Suc_eq_0_disj add.assoc)
  qed
next
  case (3 bud dl ap bo sl c msg clk clk' rest)
  let ?it = "Raised msg clk clk'"
  show ?case
  proof (cases "item_stops bud dl ap ?it")
    case True
    with "3.prems" show ?thesis
      by (intro exI [of _ 0]) (cases bud; auto simp: Let_def split: if_splits)
  next
    case False
    then obtain d where bud: "bud = Duration d" by (cases bud) auto
    with False "3.prems" "3.IH" [OF refl bud] obtain k where
      k: "k < length rest" "c' = foldl item_step (item_step c ?it) (take (Suc k) rest)"
        "n = ap + item_data ?it + sum_list (map item_data (take (Suc k) rest))"
        "item_stops bud dl (ap + item_data ?it + sum_list (map item_data (take k rest))) (rest ! k)"
        "\<forall>j < k. \<not> item_stops bud dl (ap + item_data ?it + sum_list (map item_data (take j rest))) (rest ! j)"
      by (auto simp: Let_def)
    then show ?thesis using False
      by (intro exI [of _ "Suc k"]) (auto simp: less_Suc_eq_0_disj add.assoc)
  qed
qed

text \<open>The converse: a script with a stopping item makes the loop return.\<close>

lemma consume_loop_returns:
  "consume_loop bud dl ap bo sl c script = None \<Longrightarrow> k < length script \<Longrightarrow>
     \<not> item_stops bud dl (ap + sum_list (map item_data (take k script))) (script ! k)"
proof (induction bud dl ap bo sl c script arbitrary: k rule: consume_loop.induct)
  case (1 bud dl ap bo sl c)
  then show ?case by simp
next
  case (2 bud dl ap bo sl c es r now clk rest)
  show ?case
  proof (cases k)
    case 0
    with "2.prems"(1) show ?thesis by (cases bud) (auto simp: Let_def split: if_splits)
  next
    case (Suc j)
    with 2 show ?thesis by (cases bud) (auto simp: Let_def split: if_splits)
  qed
next
  case (3 bud dl ap bo sl c msg clk clk' rest)
  show ?case
  proof (cases k)
    case 0
    with "3.prems"(1) show ?thesis by (cases bud) (auto simp: Let_def split: if_splits)
  next
    case (Suc j)
    with 3 show ?thesis by (cases bud) (auto simp: Let_def split: if_splits)
  qed
qed

lemma consume_loop_sleeps:
  "consume_loop bud dl ap bo sl c script = Some (c', n, sl') \<Longrightarrow> 0 \<le> bo \<Longrightarrow> bo \<le> 2 \<Longrightarrow>
     \<exists>more. sl' = sl @ more \<and> (\<forall>s \<in> set more. 0 \<le> s \<and> s \<le> 2)"
proof (induction bud dl ap bo sl c script rule: consume_loop.induct)
  case (1 bud dl ap bo sl c)
  then show ?case by simp
next
  case (2 bud dl ap bo sl c es r now clk rest)
  then show ?case by (auto simp: Let_def split: budget.splits if_splits)
next
  case (3 bud dl ap bo sl c msg clk clk' rest)
  show ?case
  proof (cases "item_stops bud dl ap (Raised msg clk clk')")
    case True
    with "3.prems"(1) show ?thesis by (cases bud) (auto simp: Let_def)
  next
    case False
    then obtain d where bud: "bud = Duration d" by (cases bud) auto
    with False "3.prems"(1) have
      "consume_loop (Duration d) dl ap (min (bo * 2) 2) (sl @ [min bo (max 0 (dl - clk'))]) (fail_item msg c) rest
         = Some (c', n, sl')"
      by (simp add: Let_def)
    with "3.IH" [OF refl bud] False bud "3.prems"(2,3) obtain more where
      "sl' = (sl @ [min bo (max 0 (dl - clk'))]) @ more" "\<forall>s \<in> set more. 0 \<le> s \<and> s \<le> 2"
      by auto
    with "3.prems"(2,3) show ?thesis
      by (intro exI [of _ "min bo (max 0 (dl - clk')) # more"]) auto
  qed
qed

section \<open>Health reporting\<close>

definition health_ok :: "collector \<Rightarrow> bool" where
  "health_ok c \<longleftrightarrow> (co_stale c \<longleftrightarrow> 0 < co_consecutive_failures c) \<and> (co_stale c \<longleftrightarrow> co_last_error c \<noteq> None)"

lemma redact_Some [simp]: "redact (Some x) ss \<noteq> None"
  by (simp add: redact_def)

lemma item_step_health: "health_ok c \<Longrightarrow> health_ok (item_step c i)"
  by (cases i) (auto simp: health_ok_def apply_item_def fail_item_def Let_def)

interpretation health: machine item_step health_ok "\<lambda>_ _. True"
  by unfold_locales (rule item_step_health)

fun is_failure :: "item \<Rightarrow> bool" where
  "is_failure (Got es r now clk) = False"
| "is_failure (Raised msg clk clk') = True"

text \<open>What the counter is meant to be: the failures since the last batch that carried data.\<close>

definition recent_failures :: "item list \<Rightarrow> nat" where
  "recent_failures is = length (filter is_failure (takeWhile (\<lambda>i. item_data i = 0) (rev is)))"

lemma failures_fold:
  "co_consecutive_failures c = 0 \<Longrightarrow> co_consecutive_failures (foldl item_step c is) = recent_failures is"
proof (induction "is" rule: rev_induct)
  case Nil
  then show ?case by (simp add: recent_failures_def)
next
  case (snoc i "is")
  then show ?case
    by (cases i) (auto simp: recent_failures_def apply_item_def fail_item_def Let_def)
qed

section \<open>Traffic\<close>

fun item_batch :: "item \<Rightarrow> (batch \<times> rat) list" where
  "item_batch (Got es r now clk) = [(Batch es r, now)]"
| "item_batch (Raised msg clk clk') = []"

lemma item_step_tracker:
  "co_tracker (foldl item_step c is) = foldl tracker_step (co_tracker c) (concat (map item_batch is))"
proof (induction "is" arbitrary: c)
  case (Cons i "is")
  then show ?case
    by (cases i) (simp_all add: apply_item_def fail_item_def tracker_step_def Let_def)
qed simp

lemma run_ok_prefix: "run_ok step ok s (xs @ ys) \<Longrightarrow> run_ok step ok s xs"
  by (simp add: run_ok_append)

section \<open>Properties\<close>

text \<open>
  Whatever a stream yields and however often it fails, a consume that returns leaves the tracker's
  invariant intact and no cumulative total below its value at the start, as long as the batches carry
  what the tracker's own accounting asks of them: failures, reconnects and idle batches move nothing.
\<close>

theorem consume_keeps_totals:
  assumes "consume duration max_batches start c script = Inr (Some (c', n, sleeps))"
    and "tracker_inv (co_tracker c)"
    and "run_ok tracker_step step_ok (co_tracker c) (concat (map item_batch script))"
  shows "tracker_inv (co_tracker c') \<and> cumulative d k (co_tracker c) \<le> cumulative d k (co_tracker c')"
proof -
  obtain bud dl where "consume_loop bud dl 0 (1 / 5) [] c script = Some (c', n, sleeps)"
    using assms(1) by (auto simp: consume_def split: option.splits)
  then obtain m where "c' = foldl item_step c (take (Suc m) script)"
    using consume_loop_fold by blast
  then have c': "co_tracker c' = foldl tracker_step (co_tracker c) (concat (map item_batch (take (Suc m) script)))"
    by (simp add: item_step_tracker)
  have "concat (map item_batch script)
      = concat (map item_batch (take (Suc m) script)) @ concat (map item_batch (drop (Suc m) script))"
    by (metis append_take_drop_id concat_append map_append)
  with assms(3) have "run_ok tracker_step step_ok (co_tracker c) (concat (map item_batch (take (Suc m) script)))"
    using run_ok_prefix by metis
  with assms(2) c' show ?thesis
    using tracker_mono.run_inv tracker_mono.run_mono by metis
qed

definition sample_script :: "item list" where
  "sample_script = [Raised ''ConnectionError: refused'' 1 1, Got [] False 2 2,
     Got [Ev (sample_event ''NEW'' (Some (sample_fields 100 7)))] True 1000 1000]"

theorem consume_keeps_totals_witness:
  "\<exists>c' n sl. consume (Some 500) None 0 (init_collector 600 []) sample_script = Inr (Some (c', n, sl)) \<and>
     0 \<le> cumulative Up (Some ''vmix-01'', Some ''hy2-in'') (co_tracker c')"
proof -
  obtain c' n sl where run: "consume (Some 500) None 0 (init_collector 600 []) sample_script = Inr (Some (c', n, sl))"
    by (auto simp: consume_def sample_script_def Let_def)
  have "tracker_inv (co_tracker c') \<and>
      cumulative Up (Some ''vmix-01'', Some ''hy2-in'') (co_tracker (init_collector 600 []))
        \<le> cumulative Up (Some ''vmix-01'', Some ''hy2-in'') (co_tracker c')"
  proof (rule consume_keeps_totals [OF run])
    show "tracker_inv (co_tracker (init_collector 600 []))"
      by (simp add: init_collector_def tracker_inv_init)
    show "run_ok tracker_step step_ok (co_tracker (init_collector 600 [])) (concat (map item_batch sample_script))"
      by (simp add: init_collector_def sample_script_def sample_defs)
  qed
  moreover have "cumulative Up (Some ''vmix-01'', Some ''hy2-in'') (co_tracker (init_collector 600 [])) = 0"
    by (simp add: init_collector_def cumulative_def fin_total_def sample_defs)
  ultimately show ?thesis using run by auto
qed

text \<open>
  After a consume that started from a fresh collector, the failure counter is the number of
  failures since the last batch that carried data, the collector is stale exactly when that number is
  positive, and an error text is shown exactly when it is stale. Idle batches change none of it.
\<close>

theorem consume_reports_health:
  assumes "consume duration max_batches start (init_collector ttl secrets) script = Inr (Some (c', n, sleeps))"
  shows "\<exists>m < length script. co_consecutive_failures c' = recent_failures (take (Suc m) script)
     \<and> n = sum_list (map item_data (take (Suc m) script))
     \<and> (co_stale c' \<longleftrightarrow> 0 < recent_failures (take (Suc m) script))
     \<and> (co_stale c' \<longleftrightarrow> co_last_error c' \<noteq> None)"
proof -
  let ?c = "init_collector ttl secrets"
  obtain bud dl where "consume_loop bud dl 0 (1 / 5) [] ?c script = Some (c', n, sleeps)"
    using assms by (auto simp: consume_def split: option.splits)
  then obtain m where m: "m < length script" "c' = foldl item_step ?c (take (Suc m) script)"
      "n = sum_list (map item_data (take (Suc m) script))"
    using consume_loop_fold by force
  have "health_ok c'"
    unfolding m(2) by (rule health.run_inv [OF _ run_ok_all]) (simp_all add: health_ok_def init_collector_def)
  moreover have "co_consecutive_failures c' = recent_failures (take (Suc m) script)"
    unfolding m(2) by (rule failures_fold) (simp add: init_collector_def)
  ultimately show ?thesis using m(1,3) by (auto simp: health_ok_def)
qed

theorem consume_reports_health_witness:
  "\<exists>c' n sl. consume (Some 2) None 0 (init_collector 600 []) sample_script = Inr (Some (c', n, sl)) \<and> co_stale c'"
proof -
  obtain c' n sl where run: "consume (Some 2) None 0 (init_collector 600 []) sample_script = Inr (Some (c', n, sl))"
    by (simp add: consume_def sample_script_def Let_def)
  have n: "n = 0"
    using run by (simp add: consume_def sample_script_def Let_def is_data_def)
  have len: "length sample_script = 3" by (simp add: sample_script_def)
  from consume_reports_health [OF run, unfolded len] obtain m where
    m: "m < 3" "n = sum_list (map item_data (take (Suc m) sample_script))"
      "co_stale c' \<longleftrightarrow> 0 < recent_failures (take (Suc m) sample_script)"
    by (elim exE conjE) (rule that)
  have "m = 0 \<or> m = 1 \<or> m = 2" using m(1) by arith
  with m(2,3) n have "co_stale c'"
    by (auto simp: sample_script_def is_data_def recent_failures_def)
  with run show ?thesis by blast
qed

text \<open>
  C39: the loop cannot hang on a live stream. With a batch budget it returns at the first failure or as
  soon as enough data batches came, with a duration at the first item at which the clock has reached the
  deadline; every pause between reconnects is between zero and two seconds; and a call with both limits
  or with none is refused.
\<close>

theorem consume_terminates:
  "(consume (Some d) None start c script = Inr None \<longleftrightarrow>
      (\<forall>i < length script. \<not> item_stops (Duration d) (start + d) 0 (script ! i))) \<and>
   (consume None (Some b) start c script = Inr None \<longleftrightarrow>
      (\<forall>i < length script. \<not> item_stops (MaxBatches b) 0 (sum_list (map item_data (take i script))) (script ! i))) \<and>
   (\<forall>x y c' n sl. consume x y start c script = Inr (Some (c', n, sl)) \<longrightarrow> (\<forall>s \<in> set sl. 0 \<le> s \<and> s \<le> 2)) \<and>
   (consume x y start c script = Inl e \<longleftrightarrow>
      (x = None \<longleftrightarrow> y = None) \<and> e = ValueError ''consume() needs exactly one of duration/max_batches'')"
proof (intro conjI)
  have dur: "item_stops (Duration d) dl (sum_list (map item_data is)) i \<longleftrightarrow> item_stops (Duration d) dl 0 i" for dl i "is"
    by (cases i) auto
  have iff: "consume_loop bud dl 0 (1 / 5) [] c script = None \<longleftrightarrow>
      (\<forall>i < length script. \<not> item_stops bud dl (sum_list (map item_data (take i script))) (script ! i))" for bud dl
  proof (cases "consume_loop bud dl 0 (1 / 5) [] c script")
    case None
    then show ?thesis using consume_loop_returns [OF None] by simp
  next
    case (Some r)
    obtain c' n sl where r: "r = (c', n, sl)" by (cases r)
    from consume_loop_fold [OF Some [unfolded r]] obtain k where
      "k < length script" "item_stops bud dl (sum_list (map item_data (take k script))) (script ! k)"
      by (elim exE conjE) simp
    with Some show ?thesis by auto
  qed
  show "consume (Some d) None start c script = Inr None \<longleftrightarrow>
      (\<forall>i < length script. \<not> item_stops (Duration d) (start + d) 0 (script ! i))"
    by (simp add: consume_def iff dur)
  show "consume None (Some b) start c script = Inr None \<longleftrightarrow>
      (\<forall>i < length script. \<not> item_stops (MaxBatches b) 0 (sum_list (map item_data (take i script))) (script ! i))"
    by (simp add: consume_def iff)
  show "\<forall>x y c' n sl. consume x y start c script = Inr (Some (c', n, sl)) \<longrightarrow> (\<forall>s \<in> set sl. 0 \<le> s \<and> s \<le> 2)"
  proof (intro allI impI)
    fix x y c' n sl
    assume "consume x y start c script = Inr (Some (c', n, sl))"
    then obtain bud dl where "consume_loop bud dl 0 (1 / 5) [] c script = Some (c', n, sl)"
      by (auto simp: consume_def split: option.splits)
    from consume_loop_sleeps [OF this] show "\<forall>s \<in> set sl. 0 \<le> s \<and> s \<le> 2" by simp
  qed
  show "consume x y start c script = Inl e \<longleftrightarrow>
      (x = None \<longleftrightarrow> y = None) \<and> e = ValueError ''consume() needs exactly one of duration/max_batches''"
    by (auto simp: consume_def split: option.splits)
qed

theorem consume_terminates_witness:
  "consume (Some 500) None 0 (init_collector 600 []) sample_script \<noteq> Inr None"
  using consume_terminates [of 500 0 "init_collector 600 []" sample_script 1 None None "KeyError"]
  by (auto simp: sample_script_def)

end
