(* ===== verification/PyVal.thy ===== *)
theory PyVal
  imports Prelude
begin

text \<open>
  The dynamic values that the policy, controller and incident code receive: what \<open>json.loads\<close> or an
  embedding caller can hand in. Equality against strings, booleans and lists of strings is structural.
  A finite \<open>float\<close> is its exact rational value. \<open>POther\<close> stands for any object of another type: it is not
  equal to any other value here and no key lookup succeeds on it.
\<close>

datatype pyfloat = Fin rat | Infinite bool | NaN

datatype pyval =
    PNone
  | PBool bool
  | PInt int
  | PFloat pyfloat
  | PStr string
  | PList "pyval list"
  | PDict "(pyval \<times> pyval) list"
  | POther

definition utf8 :: "nat list \<Rightarrow> string" where
  "utf8 bs = map char_of bs"

text \<open>\<open>len\<close> of a \<open>str\<close>: its code points, that is, the bytes of its encoding that are not continuation bytes.\<close>

definition py_len :: "string \<Rightarrow> nat" where
  "py_len s = length (filter (\<lambda>c. \<not> (128 \<le> (of_char c :: nat) \<and> (of_char c :: nat) < 192)) s)"

text \<open>\<open>d.get(key)\<close> with a string key on a dictionary; a dictionary has each string key at most once.\<close>

fun pget :: "(pyval \<times> pyval) list \<Rightarrow> string \<Rightarrow> pyval option" where
  "pget [] k = None"
| "pget ((a, v) # d) k = (if a = PStr k then Some v else pget d k)"

definition pget_or :: "(pyval \<times> pyval) list \<Rightarrow> string \<Rightarrow> pyval \<Rightarrow> pyval" where
  "pget_or d k v = (case pget d k of None \<Rightarrow> v | Some w \<Rightarrow> w)"

abbreviation pgetN :: "(pyval \<times> pyval) list \<Rightarrow> string \<Rightarrow> pyval" where
  "pgetN d k \<equiv> pget_or d k PNone"

fun is_dict :: "pyval \<Rightarrow> bool" where
  "is_dict (PDict _) = True"
| "is_dict _ = False"

fun dict_items :: "pyval \<Rightarrow> (pyval \<times> pyval) list" where
  "dict_items (PDict d) = d"
| "dict_items _ = []"

text \<open>
  Conversion of an \<open>int\<close> to a \<open>float\<close> raises \<open>OverflowError\<close> from the midpoint between the largest
  finite double and its would-be successor on; below it the rounding is not modelled.
\<close>

definition float_limit :: int where
  "float_limit = 2 ^ 1024 - 2 ^ 970"

definition int_to_float :: "int \<Rightarrow> rat res" where
  "int_to_float i = (if float_limit \<le> \<bar>i\<bar> then Inl OverflowError else Inr (of_int i))"

lemma int_to_float_Inr: "int_to_float i = Inr q \<Longrightarrow> q = of_int i"
  by (simp add: int_to_float_def split: if_splits)

lemma int_to_float_small: "\<bar>i\<bar> \<le> 10 ^ 300 \<Longrightarrow> int_to_float i = Inr (of_int i)"
proof -
  assume i: "\<bar>i\<bar> \<le> 10 ^ 300"
  have "(10::int) ^ 300 < float_limit" by (simp add: float_limit_def)
  with i show ?thesis by (simp add: int_to_float_def)
qed

text \<open>The numeric value of an \<open>int\<close> or a finite \<open>float\<close>.\<close>

fun num_value :: "pyval \<Rightarrow> rat" where
  "num_value (PInt i) = of_int i"
| "num_value (PFloat (Fin q)) = q"
| "num_value _ = 0"

text \<open>
  Dictionary keys: a list or an object cannot be hashed, and numbers that are equal are one key
  (\<open>True\<close>, \<open>1\<close> and \<open>1.0\<close>).
\<close>

fun hashable :: "pyval \<Rightarrow> bool" where
  "hashable (PList _) = False"
| "hashable (PDict _) = False"
| "hashable _ = True"

fun hash_key :: "pyval \<Rightarrow> pyval" where
  "hash_key (PBool b) = PFloat (Fin (if b then 1 else 0))"
| "hash_key (PInt i) = PFloat (Fin (of_int i))"
| "hash_key v = v"

end
