(* ===== verification/Policy.thy ===== *)
theory Policy
  imports PyVal
begin

text \<open>
  The protocol failover state machine of \<open>tools/quality_failover/policy.py\<close>: validated policies,
  throughput confirmations, the per-path hysteresis \<open>Path.observe\<close>, the engine over the ordered paths
  and the ownership guard of the dedicated proxy group.
\<close>

section \<open>Constants\<close>

definition NODES :: "string list" where
  "NODES = [''Reality'', ''Hysteria2'', ''Backup-Reality'', ''Backup-Hysteria2'']"

definition AUTO :: string where
  "AUTO = utf8 [232, 135, 170, 229, 138, 168, 233, 128, 137, 230, 139, 169]"

definition GROUP :: string where
  "GROUP = utf8 [232, 180, 168, 233, 135, 143, 232, 135, 170, 229, 138, 168, 233, 128, 137, 230, 139, 169]"

definition OUTER :: string where
  "OUTER = utf8 [232, 138, 130, 231, 130, 185, 233, 128, 137, 230, 139, 169]"

text \<open>\<open>number\<close>: \<open>math.isfinite\<close> converts an \<open>int\<close> to a \<open>float\<close> and raises when it does not fit.\<close>

fun number :: "pyval \<Rightarrow> rat \<Rightarrow> rat \<Rightarrow> bool res" where
  "number (PInt i) low high = res_bind (int_to_float i) (\<lambda>_. Inr (low \<le> of_int i \<and> of_int i \<le> high))"
| "number (PFloat (Fin q)) low high = Inr (low \<le> q \<and> q \<le> high)"
| "number _ low high = Inr False"

section \<open>Policy\<close>

record policy =
  fail_mbps :: rat
  recover_mbps :: rat
  fail_samples :: nat
  recover_samples :: nat
  hold_seconds :: rat
  freshness_seconds :: rat

fun small_count :: "pyval \<Rightarrow> bool" where
  "small_count (PInt i) \<longleftrightarrow> 2 \<le> i \<and> i \<le> 10"
| "small_count _ \<longleftrightarrow> False"

text \<open>\<open>Policy.__post_init__\<close>: the conjuncts in order, so that a conversion error of a later field is not reached
  once an earlier conjunct has failed.\<close>

definition res_and :: "bool res \<Rightarrow> bool res \<Rightarrow> bool res" where
  "res_and a b = res_bind a (\<lambda>x. if x then b else Inr False)"

definition make_policy :: "pyval \<Rightarrow> pyval \<Rightarrow> pyval \<Rightarrow> pyval \<Rightarrow> pyval \<Rightarrow> pyval \<Rightarrow> policy res" where
  "make_policy fm rm fs rs hs fr =
     res_bind
       (res_and (number fm (1 / 100) 1000)
       (res_and (number rm (1 / 100) 1000)
       (res_and (Inr (num_value fm < num_value rm))
       (res_and (Inr (small_count fs))
       (res_and (Inr (small_count rs))
       (res_and (number hs 30 3600) (number fr 15 300)))))))
       (\<lambda>ok. if ok then Inr \<lparr>fail_mbps = num_value fm, recover_mbps = num_value rm,
                             fail_samples = nat \<lfloor>num_value fs\<rfloor>, recover_samples = nat \<lfloor>num_value rs\<rfloor>,
                             hold_seconds = num_value hs, freshness_seconds = num_value fr\<rparr>
             else Inl (ValueError ''policy''))"

definition policy_ok :: "policy \<Rightarrow> bool" where
  "policy_ok p \<longleftrightarrow> 0 < fail_mbps p \<and> fail_mbps p < recover_mbps p \<and> 2 \<le> fail_samples p \<and> fail_samples p \<le> 10
     \<and> 2 \<le> recover_samples p \<and> recover_samples p \<le> 10 \<and> 30 \<le> hold_seconds p \<and> 15 \<le> freshness_seconds p"

section \<open>Confirmation\<close>

record confirmation =
  mbps :: pyval
  timed_out :: pyval
  endpoint_ready :: pyval

fun is_bool :: "pyval \<Rightarrow> bool" where
  "is_bool (PBool _) = True"
| "is_bool _ = False"

fun truthy_bool :: "pyval \<Rightarrow> bool" where
  "truthy_bool (PBool b) = b"
| "truthy_bool _ = False"

definition conf_valid :: "confirmation \<Rightarrow> bool res" where
  "conf_valid c =
     res_and (Inr (is_bool (timed_out c) \<and> is_bool (endpoint_ready c)))
    (res_and (if mbps c = PNone then Inr True else number (mbps c) 0 10000)
             (Inr (\<not> (truthy_bool (timed_out c) \<and> mbps c \<noteq> PNone))))"

datatype verdict = Unknown | Bad | Middle | Good

definition conf_verdict :: "policy \<Rightarrow> confirmation \<Rightarrow> verdict res" where
  "conf_verdict p c = res_bind (conf_valid c) (\<lambda>ok.
     if \<not> ok \<or> \<not> truthy_bool (endpoint_ready c) then Inr Unknown
     else if truthy_bool (timed_out c) then Inr Bad
     else if mbps c = PNone then Inr Unknown
     else if num_value (mbps c) < fail_mbps p then Inr Bad
     else if recover_mbps p \<le> num_value (mbps c) then Inr Good
     else Inr Middle)"

section \<open>Path\<close>

datatype pstate = UNKNOWN | UP | DEGRADED | DOWN

record path =
  st :: pstate
  reason :: string
  bad :: nat
  good :: nat
  hold_until :: rat
  quality_verified_at :: "rat option"
  observed_at :: "rat option"
  needs_recovery :: bool

definition init_path :: path where
  "init_path = \<lparr>st = UNKNOWN, reason = ''no_evidence'', bad = 0, good = 0, hold_until = 0,
     quality_verified_at = None, observed_at = None, needs_recovery = False\<rparr>"

definition observe_down :: "rat \<Rightarrow> policy \<Rightarrow> path \<Rightarrow> path" where
  "observe_down now p x =
     x\<lparr>needs_recovery := True, st := DOWN, reason := ''hard_probe_failed'', bad := 0, good := 0,
       quality_verified_at := None, hold_until := max (hold_until x) (now + hold_seconds p)\<rparr>"

definition observe_missing :: "path \<Rightarrow> path" where
  "observe_missing x =
     x\<lparr>st := UNKNOWN, reason := ''missing_reachability'', bad := 0, good := 0, quality_verified_at := None\<rparr>"

definition leave_unknown :: "path \<Rightarrow> path" where
  "leave_unknown x =
     (if st x = UNKNOWN
      then (if needs_recovery x then x\<lparr>st := DEGRADED, reason := ''recovery_pending''\<rparr>
            else x\<lparr>st := UP, reason := ''reachable_only''\<rparr>)
      else x)"

definition quality_expired :: "rat \<Rightarrow> policy \<Rightarrow> path \<Rightarrow> bool" where
  "quality_expired now p x =
     (case quality_verified_at x of None \<Rightarrow> False | Some t \<Rightarrow> freshness_seconds p < now - t)"

definition observe_tick :: "rat \<Rightarrow> policy \<Rightarrow> path \<Rightarrow> path" where
  "observe_tick now p x =
     (if quality_expired now p x
      then (let x1 = x\<lparr>quality_verified_at := None\<rparr>
            in if st x1 = UP then x1\<lparr>reason := ''reachable_only''\<rparr> else x1)
      else x)"

definition observe_bad :: "rat \<Rightarrow> policy \<Rightarrow> path \<Rightarrow> path" where
  "observe_bad now p x =
     (let x1 = x\<lparr>good := 0, bad := min (fail_samples p) (bad x + 1), quality_verified_at := None\<rparr>;
          x2 = (if st x1 = UP then x1\<lparr>reason := ''upload_slow_pending''\<rparr> else x1)
      in if fail_samples p \<le> bad x2
         then x2\<lparr>needs_recovery := True, st := DEGRADED, reason := ''upload_confirmed_bad'',
                 hold_until := max (hold_until x2) (now + hold_seconds p)\<rparr>
         else x2)"

definition observe_good :: "rat \<Rightarrow> policy \<Rightarrow> path \<Rightarrow> path" where
  "observe_good now p x =
     (let x1 = x\<lparr>bad := 0, good := min (recover_samples p) (good x + 1)\<rparr>
      in if needs_recovery x1
         then (if hold_until x1 \<le> now \<and> recover_samples p \<le> good x1
               then x1\<lparr>needs_recovery := False, st := UP, reason := ''quality_recovered'',
                       quality_verified_at := Some now\<rparr>
               else x1)
         else x1\<lparr>st := UP, reason := ''upload_confirmed_good'', quality_verified_at := Some now\<rparr>)"

definition observe_inconclusive :: "rat \<Rightarrow> policy \<Rightarrow> verdict \<Rightarrow> path \<Rightarrow> path" where
  "observe_inconclusive now p v x =
     (let x1 = x\<lparr>bad := 0, good := 0\<rparr>;
          x2 = (if st x1 = UP \<and> (quality_verified_at x1 = None \<or> quality_expired now p x1)
                then x1\<lparr>quality_verified_at := None, reason := ''reachable_only''\<rparr> else x1)
      in if st x2 = UP \<and> v = Unknown then x2\<lparr>reason := ''upload_unconfirmed''\<rparr>
         else if st x2 = UP \<and> v = Middle then x2\<lparr>reason := ''upload_middle''\<rparr>
         else x2)"

definition observe_verdict :: "rat \<Rightarrow> policy \<Rightarrow> verdict \<Rightarrow> path \<Rightarrow> path" where
  "observe_verdict now p v x =
     (case v of Bad \<Rightarrow> observe_bad now p x | Good \<Rightarrow> observe_good now p x
      | _ \<Rightarrow> observe_inconclusive now p v x)"

text \<open>
  \<open>Path.observe\<close>: the updated path and the exception it ends with, if any (the verdict of a
  confirmation can raise after the path has already been touched).
\<close>

definition observe :: "rat \<Rightarrow> bool option \<Rightarrow> confirmation option \<Rightarrow> policy \<Rightarrow> path \<Rightarrow> path \<times> exn option" where
  "observe now reachable conf p x =
     (let x0 = x\<lparr>observed_at := Some now\<rparr>
      in case reachable of
           Some False \<Rightarrow> (observe_down now p x0, None)
         | None \<Rightarrow> (observe_missing x0, None)
         | Some True \<Rightarrow>
             (let x1 = leave_unknown x0
              in case conf of
                   None \<Rightarrow> (observe_tick now p x1, None)
                 | Some c \<Rightarrow>
                     (case conf_verdict p c of
                        Inl e \<Rightarrow> (x1, Some e)
                      | Inr v \<Rightarrow> (observe_verdict now p v x1, None))))"

definition usable :: "rat \<Rightarrow> policy \<Rightarrow> path \<Rightarrow> bool" where
  "usable now p x \<longleftrightarrow> st x = UP \<and> \<not> needs_recovery x
     \<and> (case quality_verified_at x of None \<Rightarrow> False
        | Some t \<Rightarrow> 0 \<le> now - t \<and> now - t \<le> freshness_seconds p)"

section \<open>Engine\<close>

record engine =
  policies :: "(string \<times> policy) list"
  paths :: "(string, path) dict"
  last_time :: "rat option"

definition make_engine :: "(string \<times> policy) list \<Rightarrow> engine res" where
  "make_engine ps =
     (if map fst ps = take 2 NODES \<or> map fst ps = NODES
      then Inr \<lparr>policies = ps, paths = map (\<lambda>(n, _). (n, init_path)) ps, last_time = None\<rparr>
      else Inl (ValueError ''nodes''))"

datatype conf_arg = NotConfirmation | Conf confirmation

definition norm_alive :: "pyval \<Rightarrow> bool option" where
  "norm_alive v = (case v of PBool b \<Rightarrow> Some b | _ \<Rightarrow> None)"

fun norm_conf :: "conf_arg \<Rightarrow> confirmation option" where
  "norm_conf NotConfirmation = None"
| "norm_conf (Conf c) = Some c"

type_synonym observations = "string \<Rightarrow> (pyval \<times> conf_arg) option"

definition default_observation :: "pyval \<times> conf_arg" where
  "default_observation = (PNone, NotConfirmation)"

definition policy_of :: "engine \<Rightarrow> string \<Rightarrow> policy" where
  "policy_of e n = the (map_of (policies e) n)"

definition observation :: "observations \<Rightarrow> string \<Rightarrow> pyval \<times> conf_arg" where
  "observation obs n = (case obs n of None \<Rightarrow> default_observation | Some x \<Rightarrow> x)"

text \<open>The loop of \<open>Engine.update\<close> over the paths in order; an exception leaves the later paths as they were.\<close>

fun update_paths :: "(string \<Rightarrow> policy) \<Rightarrow> rat \<Rightarrow> observations \<Rightarrow> (string \<times> path) list
    \<Rightarrow> (string \<times> path) list \<times> exn option" where
  "update_paths pol now obs [] = ([], None)"
| "update_paths pol now obs ((n, x) # rest) =
     (let (a, c) = observation obs n
      in case observe now (norm_alive a) (norm_conf c) (pol n) x of
           (x', Some e) \<Rightarrow> ((n, x') # rest, Some e)
         | (x', None) \<Rightarrow> (let (rest', r) = update_paths pol now obs rest in ((n, x') # rest', r)))"

definition summary :: "engine \<Rightarrow> (string \<times> pstate \<times> string) list" where
  "summary e = map (\<lambda>(n, x). (n, st x, reason x)) (paths e)"

definition clock_ok :: "pyval \<Rightarrow> engine \<Rightarrow> bool res" where
  "clock_ok now e = res_bind (number now 0 (10 ^ 15)) (\<lambda>ok.
     Inr (ok \<and> (case last_time e of None \<Rightarrow> True | Some t \<Rightarrow> t \<le> num_value now)))"

definition update :: "pyval \<Rightarrow> observations \<Rightarrow> engine \<Rightarrow> engine \<times> (string \<times> pstate \<times> string) list res" where
  "update now obs e =
     (case clock_ok now e of
        Inl x \<Rightarrow> (e, Inl x)
      | Inr False \<Rightarrow> (e, Inl (ValueError ''clock''))
      | Inr True \<Rightarrow>
          (let t = num_value now;
               (ps, r) = update_paths (policy_of e) t obs (paths e);
               e' = e\<lparr>last_time := Some t, paths := ps\<rparr>
           in (e', case r of None \<Rightarrow> Inr (summary e') | Some x \<Rightarrow> Inl x)))"

definition candidates :: "rat \<Rightarrow> engine \<Rightarrow> string list" where
  "candidates now e = map fst (filter (\<lambda>(n, x). usable now (policy_of e n) x) (paths e))"

text \<open>\<open>current\<close> comes from the controller's JSON: testing a list or an object for membership in a dictionary raises.\<close>

definition target :: "rat \<Rightarrow> pyval \<Rightarrow> engine \<Rightarrow> string option res" where
  "target now current e =
     (case current of
        PStr cur \<Rightarrow>
          (case dict_get (paths e) cur of
             None \<Rightarrow> Inr None
           | Some x \<Rightarrow>
               if st x \<notin> {DEGRADED, DOWN} then Inr None
               else (case candidates now e of
                       [] \<Rightarrow> Inr None
                     | best # _ \<Rightarrow> if best = cur then Inr None else Inr (Some best)))
      | PList _ \<Rightarrow> Inl TypeError
      | PDict _ \<Rightarrow> Inl TypeError
      | _ \<Rightarrow> Inr None)"

section \<open>Ownership\<close>

record ownership =
  members :: "string list"
  expected :: string
  suspended :: bool

definition make_ownership :: "string list \<Rightarrow> ownership" where
  "make_ownership nodes = \<lparr>members = AUTO # nodes, expected = AUTO, suspended = False\<rparr>"

text \<open>
  The controller's \<open>proxies\<close> object. The shape test of the two groups is separated from the test on the
  fixed member, and the released pin is handled first, as in the code.
\<close>

type_synonym proxies = "(pyval \<times> pyval) list"

definition release_pin :: "proxies \<Rightarrow> ownership \<Rightarrow> ownership" where
  "release_pin px o1 =
     (let group = dict_items (pget_or px GROUP (PDict []))
      in if expected o1 \<noteq> AUTO \<and> pgetN group ''fixed'' = PStr []
            \<and> is_dict (pgetN px (expected o1))
            \<and> pgetN (dict_items (pgetN px (expected o1))) ''alive'' = PBool False
         then o1\<lparr>expected := AUTO\<rparr> else o1)"

definition expected_fixed :: "ownership \<Rightarrow> string" where
  "expected_fixed o1 = (if expected o1 = AUTO then [] else expected o1)"

fun is_str :: "pyval \<Rightarrow> bool" where
  "is_str (PStr _) = True"
| "is_str _ = False"

definition shape_broken :: "proxies \<Rightarrow> ownership \<Rightarrow> bool" where
  "shape_broken px o1 =
     (let group = dict_items (pget_or px GROUP (PDict [])); fallback = dict_items (pget_or px AUTO (PDict []));
          nodes = PList (map PStr (tl (members o1)))
      in pgetN group ''type'' \<noteq> PStr ''Fallback'' \<or> pgetN group ''all'' \<noteq> nodes
         \<or> pgetN group ''hidden'' \<noteq> PBool True \<or> pgetN group ''fixed'' \<noteq> PStr (expected_fixed o1)
         \<or> pgetN fallback ''type'' \<noteq> PStr ''Fallback'' \<or> pgetN fallback ''all'' \<noteq> nodes
         \<or> \<not> is_str (pgetN fallback ''fixed''))"

definition outer_selected :: "proxies \<Rightarrow> bool" where
  "outer_selected px =
     (let outer = dict_items (pget_or px OUTER (PDict [])); fallback = dict_items (pget_or px AUTO (PDict []))
      in pgetN outer ''type'' = PStr ''Selector'' \<and> pgetN outer ''now'' = PStr GROUP
         \<and> pgetN fallback ''fixed'' = PStr [])"

definition permitted :: "proxies \<Rightarrow> bool \<Rightarrow> ownership \<Rightarrow> ownership \<times> bool" where
  "permitted px require_outer o1 =
     (if \<not> is_dict (pget_or px OUTER (PDict [])) \<or> \<not> is_dict (pget_or px GROUP (PDict []))
         \<or> \<not> is_dict (pget_or px AUTO (PDict []))
      then (o1\<lparr>suspended := True\<rparr>, False)
      else (let o2 = release_pin px o1;
                o3 = (if shape_broken px o2 then o2\<lparr>suspended := True\<rparr> else o2)
            in (o3, \<not> suspended o3 \<and> (\<not> require_outer \<or> outer_selected px))))"

definition effective :: "proxies \<Rightarrow> ownership \<Rightarrow> pyval" where
  "effective px o1 =
     (if expected o1 = AUTO
      then (case pgetN px GROUP of PDict g \<Rightarrow> pgetN g ''now'' | _ \<Rightarrow> PNone)
      else PStr (expected o1))"

definition committed :: "string \<Rightarrow> ownership \<Rightarrow> ownership res" where
  "committed sel o1 =
     (if sel \<in> set (members o1) then Inr (o1\<lparr>expected := sel\<rparr>) else Inl (ValueError ''selection''))"

section \<open>Evidence histories\<close>

text \<open>
  What one call of \<open>observe\<close> says, independently of the path's state. An idle tick and a raised verdict
  carry no evidence.
\<close>

type_synonym observed = "rat \<times> bool option \<times> confirmation option"

datatype evidence = EvDown | EvMissing | EvNone | EvVerdict verdict

fun evidence_of :: "policy \<Rightarrow> observed \<Rightarrow> evidence" where
  "evidence_of p (now, Some False, c) = EvDown"
| "evidence_of p (now, None, c) = EvMissing"
| "evidence_of p (now, Some True, None) = EvNone"
| "evidence_of p (now, Some True, Some c) =
     (case conf_verdict p c of Inl e \<Rightarrow> EvNone | Inr v \<Rightarrow> EvVerdict v)"

definition path_step :: "policy \<Rightarrow> path \<Rightarrow> observed \<Rightarrow> path" where
  "path_step p x o1 = fst (observe (fst o1) (fst (snd o1)) (snd (snd o1)) p x)"

abbreviation path_run :: "policy \<Rightarrow> observed list \<Rightarrow> path" where
  "path_run p os \<equiv> foldl (path_step p) init_path os"

text \<open>The length of the current unbroken series of one kind of evidence, idle ticks left out.\<close>

definition streak :: "policy \<Rightarrow> verdict \<Rightarrow> observed list \<Rightarrow> nat" where
  "streak p v os = length (takeWhile (\<lambda>e. e = EvVerdict v) (rev (filter (\<lambda>e. e \<noteq> EvNone) (map (evidence_of p) os))))"

lemma streak_Nil [simp]: "streak p v [] = 0"
  by (simp add: streak_def)

lemma streak_snoc [simp]:
  "streak p v (os @ [o1]) =
     (if evidence_of p o1 = EvNone then streak p v os
      else if evidence_of p o1 = EvVerdict v then Suc (streak p v os) else 0)"
  by (simp add: streak_def)

lemma path_step_cases:
  obtains
    (down) "evidence_of p o1 = EvDown" "path_step p x o1 = observe_down (fst o1) p (x\<lparr>observed_at := Some (fst o1)\<rparr>)"
  | (missing) "evidence_of p o1 = EvMissing" "path_step p x o1 = observe_missing (x\<lparr>observed_at := Some (fst o1)\<rparr>)"
  | (tick) "evidence_of p o1 = EvNone"
      "path_step p x o1 = observe_tick (fst o1) p (leave_unknown (x\<lparr>observed_at := Some (fst o1)\<rparr>))"
  | (err) "evidence_of p o1 = EvNone"
      "path_step p x o1 = leave_unknown (x\<lparr>observed_at := Some (fst o1)\<rparr>)"
  | (bad) "evidence_of p o1 = EvVerdict Bad"
      "path_step p x o1 = observe_bad (fst o1) p (leave_unknown (x\<lparr>observed_at := Some (fst o1)\<rparr>))"
  | (good) "evidence_of p o1 = EvVerdict Good"
      "path_step p x o1 = observe_good (fst o1) p (leave_unknown (x\<lparr>observed_at := Some (fst o1)\<rparr>))"
  | (inconclusive) v where "evidence_of p o1 = EvVerdict v" "v \<noteq> Bad" "v \<noteq> Good"
      "path_step p x o1 = observe_inconclusive (fst o1) p v (leave_unknown (x\<lparr>observed_at := Some (fst o1)\<rparr>))"
proof -
  obtain now r c where o1: "o1 = (now, r, c)" by (cases o1)
  show thesis
  proof (cases r)
    case None
    with o1 show thesis by (intro missing) (simp_all add: path_step_def observe_def)
  next
    case (Some b)
    show thesis
    proof (cases b)
      case False
      with o1 Some show thesis by (intro down) (simp_all add: path_step_def observe_def)
    next
      case True
      show thesis
      proof (cases c)
        case None
        with o1 Some True show thesis by (intro tick) (simp_all add: path_step_def observe_def)
      next
        case (Some d)
        show thesis
        proof (cases "conf_verdict p d")
          case (Inl e)
          with o1 \<open>r = Some b\<close> True Some show thesis
            by (intro err) (simp_all add: path_step_def observe_def)
        next
          case (Inr v)
          with o1 \<open>r = Some b\<close> True Some have
            ev: "evidence_of p o1 = EvVerdict v"
              "path_step p x o1 = observe_verdict (fst o1) p v (leave_unknown (x\<lparr>observed_at := Some (fst o1)\<rparr>))"
            by (simp_all add: path_step_def observe_def)
          then show thesis
            by (cases v) (simp_all add: observe_verdict_def bad good inconclusive)
        qed
      qed
    qed
  qed
qed

text \<open>What each branch of \<open>observe\<close> does to the fields that decide.\<close>

named_theorems observe_fields

lemma leave_unknown_fields [observe_fields]:
  "st (leave_unknown x) = (if st x = UNKNOWN then (if needs_recovery x then DEGRADED else UP) else st x)"
  "bad (leave_unknown x) = bad x" "good (leave_unknown x) = good x"
  "needs_recovery (leave_unknown x) = needs_recovery x"
  "hold_until (leave_unknown x) = hold_until x"
  "quality_verified_at (leave_unknown x) = quality_verified_at x"
  by (simp_all add: leave_unknown_def)

lemma observe_down_fields [observe_fields]:
  "st (observe_down now p x) = DOWN" "bad (observe_down now p x) = 0" "good (observe_down now p x) = 0"
  "needs_recovery (observe_down now p x)"
  "hold_until (observe_down now p x) = max (hold_until x) (now + hold_seconds p)"
  "quality_verified_at (observe_down now p x) = None"
  by (simp_all add: observe_down_def)

lemma observe_missing_fields [observe_fields]:
  "st (observe_missing x) = UNKNOWN" "bad (observe_missing x) = 0" "good (observe_missing x) = 0"
  "needs_recovery (observe_missing x) = needs_recovery x"
  "hold_until (observe_missing x) = hold_until x"
  "quality_verified_at (observe_missing x) = None"
  by (simp_all add: observe_missing_def)

lemma observe_tick_fields [observe_fields]:
  "st (observe_tick now p x) = st x" "bad (observe_tick now p x) = bad x" "good (observe_tick now p x) = good x"
  "needs_recovery (observe_tick now p x) = needs_recovery x"
  "hold_until (observe_tick now p x) = hold_until x"
  "quality_verified_at (observe_tick now p x) = (if quality_expired now p x then None else quality_verified_at x)"
  by (simp_all add: observe_tick_def Let_def)

lemma observe_bad_fields [observe_fields]:
  "st (observe_bad now p x) = (if fail_samples p \<le> Suc (bad x) then DEGRADED else st x)"
  "bad (observe_bad now p x) = min (fail_samples p) (Suc (bad x))" "good (observe_bad now p x) = 0"
  "needs_recovery (observe_bad now p x) \<longleftrightarrow> needs_recovery x \<or> fail_samples p \<le> Suc (bad x)"
  "hold_until (observe_bad now p x) =
     (if fail_samples p \<le> Suc (bad x) then max (hold_until x) (now + hold_seconds p) else hold_until x)"
  "quality_verified_at (observe_bad now p x) = None"
  by (simp_all add: observe_bad_def Let_def)

lemma observe_good_fields [observe_fields]:
  "st (observe_good now p x) =
     (if needs_recovery x \<and> \<not> (hold_until x \<le> now \<and> recover_samples p \<le> Suc (good x)) then st x else UP)"
  "bad (observe_good now p x) = 0" "good (observe_good now p x) = min (recover_samples p) (Suc (good x))"
  "needs_recovery (observe_good now p x) \<longleftrightarrow>
     needs_recovery x \<and> \<not> (hold_until x \<le> now \<and> recover_samples p \<le> Suc (good x))"
  "hold_until (observe_good now p x) = hold_until x"
  "quality_verified_at (observe_good now p x) =
     (if needs_recovery x \<and> \<not> (hold_until x \<le> now \<and> recover_samples p \<le> Suc (good x))
      then quality_verified_at x else Some now)"
  by (simp_all add: observe_good_def Let_def)

lemma observe_inconclusive_fields [observe_fields]:
  "st (observe_inconclusive now p v x) = st x"
  "bad (observe_inconclusive now p v x) = 0" "good (observe_inconclusive now p v x) = 0"
  "needs_recovery (observe_inconclusive now p v x) = needs_recovery x"
  "hold_until (observe_inconclusive now p v x) = hold_until x"
  "quality_verified_at (observe_inconclusive now p v x) =
     (if st x = UP \<and> quality_expired now p x then None else quality_verified_at x)"
  by (auto simp: observe_inconclusive_def quality_expired_def Let_def split: option.splits)

section \<open>The invariant of a path\<close>

definition path_inv :: "policy \<Rightarrow> path \<Rightarrow> bool" where
  "path_inv p x \<longleftrightarrow>
     bad x \<le> fail_samples p \<and> good x \<le> recover_samples p \<and> (bad x = 0 \<or> good x = 0) \<and>
     (st x = UP \<longrightarrow> \<not> needs_recovery x) \<and> (st x \<in> {DEGRADED, DOWN} \<longrightarrow> needs_recovery x) \<and>
     (quality_verified_at x \<noteq> None \<longrightarrow> st x = UP)"

lemma path_step_inv: "path_inv p x \<Longrightarrow> path_inv p (path_step p x o1)"
  by (cases rule: path_step_cases [of p o1 x])
    (auto simp: path_inv_def observe_fields split: if_splits)

interpretation path: machine "path_step p" "path_inv p" "\<lambda>_ _. True" for p
  by unfold_locales (rule path_step_inv)

lemma path_run_inv: "path_inv p (path_run p os)"
  by (rule path.run_inv [OF _ run_ok_all]) (simp_all add: path_inv_def init_path_def)

lemma path_counters:
  "bad (path_run p os) = min (fail_samples p) (streak p Bad os) \<and>
   good (path_run p os) = min (recover_samples p) (streak p Good os)"
proof (induction os rule: rev_induct)
  case Nil
  then show ?case by (simp add: init_path_def)
next
  case (snoc o1 os)
  then show ?case
    by (cases rule: path_step_cases [of p o1 "path_run p os"])
      (auto simp: observe_fields)
qed

text \<open>The confirmed failures of a history and the observation that ends the recovery after one.\<close>

definition confirms_failure :: "policy \<Rightarrow> observed list \<Rightarrow> bool" where
  "confirms_failure p os \<longleftrightarrow> os \<noteq> [] \<and>
     (evidence_of p (last os) = EvDown \<or> evidence_of p (last os) = EvVerdict Bad \<and> fail_samples p \<le> streak p Bad os)"

definition confirms_recovery :: "policy \<Rightarrow> observed list \<Rightarrow> bool" where
  "confirms_recovery p os \<longleftrightarrow> os \<noteq> [] \<and> evidence_of p (last os) = EvVerdict Good \<and> recover_samples p \<le> streak p Good os"

lemma needs_recovery_snoc:
  "needs_recovery (path_run p (os @ [o1])) \<longleftrightarrow>
     confirms_failure p (os @ [o1]) \<or>
     needs_recovery (path_run p os) \<and> \<not> (confirms_recovery p (os @ [o1]) \<and> hold_until (path_run p os) \<le> fst o1)"
  using path_counters [of p os]
  by (cases rule: path_step_cases [of p o1 "path_run p os"])
    (auto simp: observe_fields confirms_failure_def confirms_recovery_def)

lemma hold_until_snoc:
  "hold_until (path_run p (os @ [o1])) =
     (if confirms_failure p (os @ [o1]) then max (hold_until (path_run p os)) (fst o1 + hold_seconds p)
      else hold_until (path_run p os))"
  using path_counters [of p os]
  by (cases rule: path_step_cases [of p o1 "path_run p os"])
    (auto simp: observe_fields confirms_failure_def)


section \<open>Engine runs\<close>

lemma candidates_usable: "n \<in> set (candidates now e) \<longleftrightarrow> (\<exists>x. (n, x) \<in> set (paths e) \<and> usable now (policy_of e n) x)"
  by (force simp: candidates_def)

text \<open>The observations one path receives from a series of updates.\<close>

definition seen_by :: "string \<Rightarrow> rat \<times> observations \<Rightarrow> observed" where
  "seen_by n u = (let (a, c) = observation (snd u) n in (fst u, norm_alive a, norm_conf c))"

lemma update_paths_map:
  "update_paths pol now obs xs = (ys, None) \<Longrightarrow> ys = map (\<lambda>(n, x). (n, path_step (pol n) x (seen_by n (now, obs)))) xs"
proof (induction pol now obs xs arbitrary: ys rule: update_paths.induct)
  case (1 pol now obs)
  then show ?case by simp
next
  case (2 pol now obs n x rest)
  obtain a c where ac: "observation obs n = (a, c)" by (cases "observation obs n")
  obtain x' r where ob: "observe now (norm_alive a) (norm_conf c) (pol n) x = (x', r)"
    by (cases "observe now (norm_alive a) (norm_conf c) (pol n) x")
  with "2.prems" ac have r: "r = None" by (auto simp: Let_def split: option.splits prod.splits)
  obtain ys' r' where rec: "update_paths pol now obs rest = (ys', r')"
    by (cases "update_paths pol now obs rest")
  with "2.prems" ac ob r have "r' = None" "ys = (n, x') # ys'" by (auto simp: Let_def)
  moreover from this rec have "ys' = map (\<lambda>(n, x). (n, path_step (pol n) x (seen_by n (now, obs)))) rest"
    using "2.IH" [OF ac [symmetric] refl, of x' r] ob r by (simp add: ac)
  ultimately show ?case using ob by (simp add: path_step_def seen_by_def ac)
qed

inductive engine_reach :: "(string \<times> policy) list \<Rightarrow> (rat \<times> observations) list \<Rightarrow> engine \<Rightarrow> bool" for ps where
  start: "make_engine ps = Inr e \<Longrightarrow> engine_reach ps [] e"
| tick: "engine_reach ps us e \<Longrightarrow> update now obs e = (e', Inr s) \<Longrightarrow> engine_reach ps (us @ [(num_value now, obs)]) e'"

inductive_cases engine_reach_snoc: "engine_reach ps (us @ [u]) e"

lemma make_engine_Inr:
  "make_engine ps = Inr e \<Longrightarrow> policies e = ps \<and> paths e = map (\<lambda>(n, _). (n, init_path)) ps \<and> last_time e = None"
  by (auto simp: make_engine_def split: if_splits)

lemma update_Inr:
  assumes "update now obs e = (e', Inr s)"
  shows "policies e' = policies e" "last_time e' = Some (num_value now)"
    "paths e' = map (\<lambda>(n, x). (n, path_step (policy_of e n) x (seen_by n (num_value now, obs)))) (paths e)"
    "\<forall>t. last_time e = Some t \<longrightarrow> t \<le> num_value now"
proof -
  obtain ok where ok: "clock_ok now e = Inr ok" "ok"
    using assms by (auto simp: update_def split: sum.splits bool.splits)
  obtain ys r where u: "update_paths (policy_of e) (num_value now) obs (paths e) = (ys, r)" by fastforce
  with assms ok have r: "r = None" and e': "e' = e\<lparr>last_time := Some (num_value now), paths := ys\<rparr>"
    by (auto simp: update_def Let_def split: option.splits)
  from update_paths_map [OF u [unfolded r]] e'
  show "policies e' = policies e" "last_time e' = Some (num_value now)"
    "paths e' = map (\<lambda>(n, x). (n, path_step (policy_of e n) x (seen_by n (num_value now, obs)))) (paths e)"
    by simp_all
  show "\<forall>t. last_time e = Some t \<longrightarrow> t \<le> num_value now"
    using ok by (auto simp: clock_ok_def res_bind_eq_Inr)
qed

lemma engine_reach_paths:
  "engine_reach ps us e \<Longrightarrow>
     policies e = ps \<and> paths e = map (\<lambda>(n, p). (n, path_run (policy_of e n) (map (seen_by n) us))) ps"
proof (induction rule: engine_reach.induct)
  case (start e)
  then show ?case by (auto dest!: make_engine_Inr)
next
  case (tick us e now obs e' s)
  note u = update_Inr [OF tick.hyps(2)]
  have "policy_of e' = policy_of e" by (rule ext) (simp add: policy_of_def u(1))
  with tick.IH u(1,3) show ?case by (simp add: case_prod_unfold)
qed

section \<open>Properties of the engine\<close>

lemma number_True: "number v low high = Inr True \<Longrightarrow> low \<le> num_value v \<and> num_value v \<le> high"
  by (induction v low high rule: number.induct) (auto simp: res_bind_eq_Inr)

lemma small_count_True: "small_count v \<Longrightarrow> 2 \<le> nat \<lfloor>num_value v\<rfloor> \<and> nat \<lfloor>num_value v\<rfloor> \<le> 10"
  by (induction v rule: small_count.induct) auto

lemma res_and_True: "res_and a b = Inr True \<longleftrightarrow> a = Inr True \<and> b = Inr True"
  by (cases a) (auto simp: res_and_def)

lemma policy_ok_make: "make_policy fm rm fs rs hs fr = Inr p \<Longrightarrow> policy_ok p"
  unfolding make_policy_def res_bind_eq_Inr
  by (elim exE conjE)
    (auto simp: res_and_True policy_ok_def split: if_splits dest!: number_True small_count_True)

lemma hold_covers_failures:
  "i < length os \<Longrightarrow> confirms_failure p (take (Suc i) os) \<Longrightarrow>
     fst (os ! i) + hold_seconds p \<le> hold_until (path_run p os)"
proof (induction os rule: rev_induct)
  case Nil
  then show ?case by simp
next
  case (snoc o1 os)
  show ?case
  proof (cases "i < length os")
    case True
    with snoc have "fst (os ! i) + hold_seconds p \<le> hold_until (path_run p os)" by simp
    also have "\<dots> \<le> hold_until (path_run p (os @ [o1]))" by (simp only: hold_until_snoc) simp
    finally show ?thesis using True by (simp add: nth_append)
  next
    case False
    with snoc.prems have "i = length os" by simp
    with snoc.prems(2) show ?thesis by (simp only: hold_until_snoc) simp
  qed
qed

lemma recovery_after_failure:
  "i < length os \<Longrightarrow> confirms_failure p (take (Suc i) os) \<Longrightarrow> \<not> needs_recovery (path_run p os) \<Longrightarrow>
     \<exists>j. i < j \<and> j < length os \<and> fst (os ! i) + hold_seconds p \<le> fst (os ! j) \<and> confirms_recovery p (take (Suc j) os)"
proof (induction os rule: rev_induct)
  case Nil
  then show ?case by simp
next
  case (snoc o1 os)
  from snoc.prems(3) have ok: "\<not> confirms_failure p (os @ [o1])"
    "needs_recovery (path_run p os) \<Longrightarrow> confirms_recovery p (os @ [o1]) \<and> hold_until (path_run p os) \<le> fst o1"
    by (simp_all only: needs_recovery_snoc) auto
  have i: "i < length os"
  proof (rule ccontr)
    assume "\<not> i < length os"
    with snoc.prems(1) have "i = length os" by simp
    with snoc.prems(2) ok(1) show False by simp
  qed
  show ?case
  proof (cases "needs_recovery (path_run p os)")
    case True
    with ok(2) hold_covers_failures [OF i, of p] snoc.prems(2) i show ?thesis
      by (intro exI [of _ "length os"]) (auto simp: nth_append)
  next
    case False
    with snoc i obtain j where "i < j" "j < length os" "fst (os ! i) + hold_seconds p \<le> fst (os ! j)"
      "confirms_recovery p (take (Suc j) os)" by auto
    with i show ?thesis by (intro exI [of _ j]) (simp add: nth_append)
  qed
qed

lemma needs_recovery_cause:
  "needs_recovery (path_run p os) \<Longrightarrow>
     \<exists>i < length os. confirms_failure p (take (Suc i) os) \<and>
       (\<forall>j < length os. i < j \<longrightarrow> confirms_recovery p (take (Suc j) os) \<longrightarrow>
          fst (os ! j) < hold_until (path_run p (take j os)))"
proof (induction os rule: rev_induct)
  case Nil
  then show ?case by (simp add: init_path_def)
next
  case (snoc o1 os)
  from snoc.prems consider "confirms_failure p (os @ [o1])"
    | "\<not> confirms_failure p (os @ [o1])" "needs_recovery (path_run p os)"
        "confirms_recovery p (os @ [o1]) \<Longrightarrow> fst o1 < hold_until (path_run p os)"
    by (simp only: needs_recovery_snoc) fastforce
  then show ?case
  proof cases
    case 1
    then show ?thesis by (intro exI [of _ "length os"]) simp
  next
    case 2
    with snoc.IH obtain i where "i < length os" "confirms_failure p (take (Suc i) os)"
      "\<forall>j < length os. i < j \<longrightarrow> confirms_recovery p (take (Suc j) os) \<longrightarrow>
          fst (os ! j) < hold_until (path_run p (take j os))" by blast
    with 2(3) show ?thesis by (intro exI [of _ i]) (auto simp: less_Suc_eq nth_append)
  qed
qed

lemma verified_snoc:
  "quality_verified_at (path_run p (os @ [o1])) = Some t \<Longrightarrow>
     evidence_of p o1 = EvVerdict Good \<and> t = fst o1 \<or>
     quality_verified_at (path_run p os) = Some t \<and> evidence_of p o1 \<notin> {EvDown, EvMissing, EvVerdict Bad}"
  by (cases rule: path_step_cases [of p o1 "path_run p os"])
    (auto simp: observe_fields split: if_splits)

lemma verified_source:
  "quality_verified_at (path_run p os) = Some t \<Longrightarrow>
     \<exists>j < length os. evidence_of p (os ! j) = EvVerdict Good \<and> fst (os ! j) = t \<and>
       (\<forall>k < length os. j < k \<longrightarrow> evidence_of p (os ! k) \<notin> {EvDown, EvMissing, EvVerdict Bad})"
proof (induction os rule: rev_induct)
  case Nil
  then show ?case by (simp add: init_path_def)
next
  case (snoc o1 os)
  from verified_snoc [OF snoc.prems] show ?case
  proof
    assume "evidence_of p o1 = EvVerdict Good \<and> t = fst o1"
    then show ?thesis by (intro exI [of _ "length os"]) simp
  next
    assume *: "quality_verified_at (path_run p os) = Some t \<and> evidence_of p o1 \<notin> {EvDown, EvMissing, EvVerdict Bad}"
    with snoc.IH obtain j where "j < length os" "evidence_of p (os ! j) = EvVerdict Good" "fst (os ! j) = t"
      "\<forall>k < length os. j < k \<longrightarrow> evidence_of p (os ! k) \<notin> {EvDown, EvMissing, EvVerdict Bad}" by blast
    with * show ?thesis by (intro exI [of _ j]) (auto simp: less_Suc_eq nth_append)
  qed
qed

lemma fst_seen_by: "fst (seen_by n u) = fst u"
  by (simp add: seen_by_def case_prod_unfold Let_def)

lemma engine_reach_names: "engine_reach ps us e \<Longrightarrow> distinct (map fst ps)"
  by (induction rule: engine_reach.induct) (auto simp: make_engine_def NODES_def split: if_splits)

lemma engine_path:
  "engine_reach ps us e \<Longrightarrow> (n, x) \<in> set (paths e) \<Longrightarrow> x = path_run (policy_of e n) (map (seen_by n) us)"
  using engine_reach_paths [of ps us e] by auto

text \<open>An update whose clock is accepted and whose confirmations can be judged steps every path and returns.\<close>

definition update_all :: "rat \<Rightarrow> observations \<Rightarrow> engine \<Rightarrow> engine" where
  "update_all t obs e = e\<lparr>last_time := Some t,
     paths := map (\<lambda>(n, x). (n, path_step (policy_of e n) x (seen_by n (t, obs)))) (paths e)\<rparr>"

lemma observe_total:
  "(\<And>c. conf = Some c \<Longrightarrow> \<exists>v. conf_verdict p c = Inr v) \<Longrightarrow>
     observe now r conf p x = (path_step p x (now, r, conf), None)"
  by (cases conf) (auto simp: observe_def path_step_def Let_def split: option.splits bool.splits)

lemma update_paths_total:
  "(\<And>n x c. (n, x) \<in> set xs \<Longrightarrow> norm_conf (snd (observation obs n)) = Some c \<Longrightarrow> \<exists>v. conf_verdict (pol n) c = Inr v) \<Longrightarrow>
     update_paths pol now obs xs = (map (\<lambda>(n, x). (n, path_step (pol n) x (seen_by n (now, obs)))) xs, None)"
proof (induction pol now obs xs rule: update_paths.induct)
  case (1 pol now obs)
  then show ?case by simp
next
  case (2 pol now obs n x rest)
  obtain a c where ac: "observation obs n = (a, c)" by (cases "observation obs n")
  have ob: "observe now (norm_alive a) (norm_conf c) (pol n) x = (path_step (pol n) x (now, norm_alive a, norm_conf c), None)"
    by (rule observe_total) (use "2.prems" [of n x] ac in simp)
  have "update_paths pol now obs rest
      = (map (\<lambda>(n, x). (n, path_step (pol n) x (seen_by n (now, obs)))) rest, None)"
    by (rule "2.IH" [OF ac [symmetric] refl ob [symmetric] refl]) (use "2.prems" in auto)
  then show ?case using ob by (simp add: ac seen_by_def)
qed

lemma update_ok:
  assumes "clock_ok now e = Inr True"
    and "\<And>n x c. (n, x) \<in> set (paths e) \<Longrightarrow> norm_conf (snd (observation obs n)) = Some c \<Longrightarrow>
       \<exists>v. conf_verdict (policy_of e n) c = Inr v"
  shows "update now obs e = (update_all (num_value now) obs e, Inr (summary (update_all (num_value now) obs e)))"
  using assms(1) update_paths_total [of "paths e" obs "policy_of e" "num_value now"] assms(2)
  by (simp add: update_def update_all_def Let_def)

lemma target_Some:
  assumes "target now (PStr cur) e = Inr (Some n)"
  shows "\<exists>x y. dict_get (paths e) cur = Some x \<and> st x \<in> {DEGRADED, DOWN} \<and>
     (n, y) \<in> set (paths e) \<and> usable now (policy_of e n) y \<and> n \<noteq> cur \<and> hd (candidates now e) = n"
proof -
  from assms obtain x rest where x: "dict_get (paths e) cur = Some x" "st x \<in> {DEGRADED, DOWN}"
    "candidates now e = n # rest" "n \<noteq> cur"
    by (auto simp: target_def split: option.splits if_splits list.splits)
  then have "n \<in> set (candidates now e)" by simp
  with candidates_usable obtain y where "(n, y) \<in> set (paths e)" "usable now (policy_of e n) y" by blast
  with x show ?thesis by auto
qed

text \<open>
  C28: The engine proposes a path only after the hold time of every failure it has ever confirmed on
  that path: after a hard probe failure, or after \<open>fail_samples\<close> consecutive slow uploads, there is a
  later observation, at least \<open>hold_seconds\<close> after the failure, that completed \<open>recover_samples\<close>
  consecutive good uploads.
\<close>

theorem target_respects_hold:
  assumes "engine_reach ps us e" and "target now (PStr cur) e = Inr (Some n)"
    and "i < length us" and "confirms_failure (policy_of e n) (map (seen_by n) (take (Suc i) us))"
  shows "\<exists>j. i < j \<and> j < length us \<and> fst (us ! i) + hold_seconds (policy_of e n) \<le> fst (us ! j)
     \<and> confirms_recovery (policy_of e n) (map (seen_by n) (take (Suc j) us))"
proof -
  from target_Some [OF assms(2)] obtain y where "(n, y) \<in> set (paths e)" "usable now (policy_of e n) y" by blast
  with engine_path [OF assms(1)] have "\<not> needs_recovery (path_run (policy_of e n) (map (seen_by n) us))"
    by (auto simp: usable_def)
  with recovery_after_failure [of i "map (seen_by n) us" "policy_of e n"] assms(3,4) show ?thesis
    by (auto simp: take_map fst_seen_by)
qed

definition sample_policy :: policy where
  "sample_policy = \<lparr>fail_mbps = 1, recover_mbps = 2, fail_samples = 2, recover_samples = 2,
     hold_seconds = 120, freshness_seconds = 90\<rparr>"

definition sample_conf :: confirmation where
  "sample_conf = \<lparr>mbps = PInt 3, timed_out = PBool False, endpoint_ready = PBool True\<rparr>"

definition sample_policies :: "(string \<times> policy) list" where
  "sample_policies = [(''Reality'', sample_policy), (''Hysteria2'', sample_policy)]"

definition sample_obs :: "bool \<Rightarrow> bool \<Rightarrow> observations" where
  "sample_obs r h = [''Reality'' \<mapsto> (PBool r, Conf sample_conf), ''Hysteria2'' \<mapsto> (PBool h, Conf sample_conf)]"

definition sample_updates :: "(rat \<times> observations) list" where
  "sample_updates = [(0, sample_obs True False), (200, sample_obs True True), (210, sample_obs False True)]"

definition sample_engine :: engine where
  "sample_engine = update_all 210 (sample_obs False True) (update_all 200 (sample_obs True True)
     (update_all 0 (sample_obs True False)
       \<lparr>policies = sample_policies, paths = map (\<lambda>(n, _). (n, init_path)) sample_policies, last_time = None\<rparr>))"

lemma sample_verdict [simp]: "conf_verdict sample_policy sample_conf = Inr Good"
  by (simp add: conf_verdict_def conf_valid_def sample_conf_def sample_policy_def res_and_def int_to_float_small)

lemma sample_tick:
  assumes "engine_reach sample_policies us e" and "0 \<le> t" "t \<le> 1000"
    and "case last_time e of None \<Rightarrow> True | Some t' \<Rightarrow> t' \<le> of_int t"
  shows "engine_reach sample_policies (us @ [(of_int t, sample_obs a b)]) (update_all (of_int t) (sample_obs a b) e)"
proof -
  have "rat_of_int t \<le> rat_of_int (10 ^ 15)" using assms(3) by (subst of_int_le_iff) simp
  then have clk: "clock_ok (PInt t) e = Inr True"
    using assms(2-4) by (auto simp: clock_ok_def int_to_float_small split: option.splits)
  have names: "(n, x) \<in> set (paths e) \<Longrightarrow> policy_of e n = sample_policy" for n x
    using engine_reach_paths [OF assms(1)] by (auto simp: policy_of_def sample_policies_def)
  have "update (PInt t) (sample_obs a b) e
      = (update_all (num_value (PInt t)) (sample_obs a b) e, Inr (summary (update_all (num_value (PInt t)) (sample_obs a b) e)))"
    by (rule update_ok [OF clk])
      (auto simp: names observation_def sample_obs_def default_observation_def split: if_splits)
  from engine_reach.tick [OF assms(1) this] show ?thesis by simp
qed

lemma sample_engine_reach: "engine_reach sample_policies sample_updates sample_engine"
proof -
  have "engine_reach sample_policies [] \<lparr>policies = sample_policies,
      paths = map (\<lambda>(n, _). (n, init_path)) sample_policies, last_time = None\<rparr>"
    by (rule engine_reach.start) (simp add: make_engine_def sample_policies_def NODES_def)
  from sample_tick [OF sample_tick [OF sample_tick [OF this, of 0 True False], of 200 True True], of 210 False True]
  show ?thesis by (simp add: sample_updates_def sample_engine_def update_all_def)
qed

lemma sample_engine_paths:
  "paths sample_engine = [(''Reality'', path_run sample_policy (map (seen_by ''Reality'') sample_updates)),
     (''Hysteria2'', path_run sample_policy (map (seen_by ''Hysteria2'') sample_updates))]"
  "policies sample_engine = sample_policies"
  using engine_reach_paths [OF sample_engine_reach] by (simp_all add: sample_policies_def policy_of_def)

lemma sample_seen:
  "map (seen_by ''Reality'') sample_updates = [(0, Some True, Some sample_conf), (200, Some True, Some sample_conf), (210, Some False, Some sample_conf)]"
  "map (seen_by ''Hysteria2'') sample_updates = [(0, Some False, Some sample_conf), (200, Some True, Some sample_conf), (210, Some True, Some sample_conf)]"
  by (simp_all add: sample_updates_def seen_by_def observation_def sample_obs_def norm_alive_def)

lemma sample_step:
  "path_step sample_policy x (t, Some False, c) = observe_down t sample_policy (x\<lparr>observed_at := Some t\<rparr>)"
  "path_step sample_policy x (t, Some True, Some sample_conf) = observe_good t sample_policy (leave_unknown (x\<lparr>observed_at := Some t\<rparr>))"
  by (simp_all add: path_step_def observe_def observe_verdict_def)

lemma sample_policy_sel:
  "hold_seconds sample_policy = 120" "recover_samples sample_policy = 2" "freshness_seconds sample_policy = 90"
  by (simp_all add: sample_policy_def)

lemma sample_path_states:
  "st (path_run sample_policy (map (seen_by ''Reality'') sample_updates)) = DOWN"
  "usable 220 sample_policy (path_run sample_policy (map (seen_by ''Hysteria2'') sample_updates))"
  by (simp_all add: sample_seen sample_step usable_def observe_fields init_path_def sample_policy_sel)

lemma sample_engine_target: "target 220 (PStr ''Reality'') sample_engine = Inr (Some ''Hysteria2'')"
proof -
  have pol: "policy_of sample_engine ''Reality'' = sample_policy" "policy_of sample_engine ''Hysteria2'' = sample_policy"
    by (simp_all add: policy_of_def sample_engine_paths sample_policies_def)
  have "\<not> usable 220 sample_policy (path_run sample_policy (map (seen_by ''Reality'') sample_updates))"
    using sample_path_states(1) by (simp add: usable_def)
  with sample_path_states pol have "candidates 220 sample_engine = [''Hysteria2'']"
    by (simp only: candidates_def sample_engine_paths) simp
  with sample_path_states(1) show ?thesis by (simp add: target_def sample_engine_paths)
qed

theorem target_respects_hold_witness:
  "\<exists>j. 0 < j \<and> j < length sample_updates
     \<and> fst (sample_updates ! 0) + hold_seconds (policy_of sample_engine ''Hysteria2'') \<le> fst (sample_updates ! j)
     \<and> confirms_recovery (policy_of sample_engine ''Hysteria2'') (map (seen_by ''Hysteria2'') (take (Suc j) sample_updates))"
  by (rule target_respects_hold [OF sample_engine_reach sample_engine_target])
    (simp_all add: sample_updates_def confirms_failure_def seen_by_def observation_def sample_obs_def norm_alive_def)

text \<open>
  What a proposal means. The current path is a confirmed failure (never merely unknown, never up),
  the proposed one is another path whose last conclusive upload was good, is still fresh, and has had no
  failed, missing or slow observation since; and whenever the current path has failed and some path is
  usable, there is a proposal: the first usable path in priority order.
\<close>

theorem target_correct:
  assumes "engine_reach ps us e" and "dict_get (paths e) cur = Some x"
  shows "(target now (PStr cur) e = Inr (Some n) \<longrightarrow>
      n \<noteq> cur \<and> st x \<in> {DEGRADED, DOWN} \<and>
      (\<exists>i < length us. confirms_failure (policy_of e cur) (map (seen_by cur) (take (Suc i) us))) \<and>
      (\<exists>j < length us. evidence_of (policy_of e n) (seen_by n (us ! j)) = EvVerdict Good
         \<and> fst (us ! j) \<le> now \<and> now \<le> fst (us ! j) + freshness_seconds (policy_of e n)
         \<and> (\<forall>k < length us. j < k \<longrightarrow>
              evidence_of (policy_of e n) (seen_by n (us ! k)) \<notin> {EvDown, EvMissing, EvVerdict Bad}))) \<and>
    (st x \<in> {DEGRADED, DOWN} \<and> candidates now e \<noteq> [] \<longrightarrow> target now (PStr cur) e = Inr (Some (hd (candidates now e))))"
proof (intro conjI impI)
  assume t: "target now (PStr cur) e = Inr (Some n)"
  from target_Some [OF t] assms(2) obtain y where y: "st x \<in> {DEGRADED, DOWN}" "(n, y) \<in> set (paths e)"
    "usable now (policy_of e n) y" "n \<noteq> cur" by auto
  have x: "x = path_run (policy_of e cur) (map (seen_by cur) us)"
    by (rule engine_path [OF assms(1) map_of_SomeD [OF assms(2)]])
  show "n \<noteq> cur" by fact
  show "st x \<in> {DEGRADED, DOWN}" by fact
  have "needs_recovery x"
    using y(1) path_run_inv [of "policy_of e cur" "map (seen_by cur) us"] by (simp add: x path_inv_def)
  from needs_recovery_cause [OF this [unfolded x]]
  show "\<exists>i < length us. confirms_failure (policy_of e cur) (map (seen_by cur) (take (Suc i) us))"
    by (auto simp: take_map)
  obtain t where t: "quality_verified_at y = Some t" "t \<le> now" "now \<le> t + freshness_seconds (policy_of e n)"
    using y(3) by (auto simp: usable_def algebra_simps split: option.splits)
  from verified_source [OF t(1) [unfolded engine_path [OF assms(1) y(2)]]] t(2,3)
  show "\<exists>j < length us. evidence_of (policy_of e n) (seen_by n (us ! j)) = EvVerdict Good
         \<and> fst (us ! j) \<le> now \<and> now \<le> fst (us ! j) + freshness_seconds (policy_of e n)
         \<and> (\<forall>k < length us. j < k \<longrightarrow>
              evidence_of (policy_of e n) (seen_by n (us ! k)) \<notin> {EvDown, EvMissing, EvVerdict Bad})"
    by (auto simp: fst_seen_by)
next
  assume a: "st x \<in> {DEGRADED, DOWN} \<and> candidates now e \<noteq> []"
  then obtain b rest where c: "candidates now e = b # rest" by (cases "candidates now e") auto
  have "b \<noteq> cur"
  proof
    assume "b = cur"
    with c obtain y where "(cur, y) \<in> set (paths e)" "usable now (policy_of e cur) y"
      using candidates_usable [of b now e] by auto
    moreover from this(1) have "y = x"
      using engine_path [OF assms(1)] map_of_SomeD [OF assms(2)] by metis
    ultimately show False using a by (auto simp: usable_def)
  qed
  with a c assms(2) show "target now (PStr cur) e = Inr (Some (hd (candidates now e)))"
    by (simp add: target_def)
qed

theorem target_correct_witness:
  "\<exists>i < length sample_updates. confirms_failure (policy_of sample_engine ''Reality'')
     (map (seen_by ''Reality'') (take (Suc i) sample_updates))"
proof -
  obtain x where "dict_get (paths sample_engine) ''Reality'' = Some x"
    by (auto simp: sample_engine_def sample_policies_def update_all_def)
  from target_correct [OF sample_engine_reach this, of 220 "''Hysteria2''"] sample_engine_target
  show ?thesis by blast
qed

text \<open>
  The hysteresis is exact. In every history of a path the two counters are the lengths of the
  current unbroken series of slow and good uploads, capped at the policy's sample counts; the path is
  marked for recovery by exactly a hard failure or a complete series of slow uploads, and the mark goes
  away by exactly a complete series of good uploads after the hold time.
\<close>

theorem path_hysteresis:
  "bad (path_run p os) = min (fail_samples p) (streak p Bad os) \<and>
   good (path_run p os) = min (recover_samples p) (streak p Good os) \<and>
   (needs_recovery (path_run p (os @ [o1])) \<longleftrightarrow>
     confirms_failure p (os @ [o1]) \<or>
     needs_recovery (path_run p os) \<and> \<not> (confirms_recovery p (os @ [o1]) \<and> hold_until (path_run p os) \<le> fst o1))"
  using path_counters [of p os] needs_recovery_snoc [of p os o1] by blast

text \<open>
  Missing evidence is never a failure. Every reachable path satisfies the state invariant, a path
  that is down or degraded has a confirmed failure in its history, and an observation without
  reachability always leaves the path unknown, which neither authorizes a switch away nor is usable.
\<close>

theorem missing_evidence_is_unknown:
  "path_inv p (path_run p os) \<and>
   (st (path_run p os) \<in> {DEGRADED, DOWN} \<longrightarrow> (\<exists>i < length os. confirms_failure p (take (Suc i) os))) \<and>
   (let x = path_run p (os @ [(now, None, c)]) in st x = UNKNOWN \<and> \<not> usable t p x)"
proof (intro conjI impI)
  show inv: "path_inv p (path_run p os)" by (rule path_run_inv)
  assume "st (path_run p os) \<in> {DEGRADED, DOWN}"
  with inv have "needs_recovery (path_run p os)" by (auto simp: path_inv_def)
  from needs_recovery_cause [OF this] show "\<exists>i < length os. confirms_failure p (take (Suc i) os)" by blast
next
  show "let x = path_run p (os @ [(now, None, c)]) in st x = UNKNOWN \<and> \<not> usable t p x"
    by (simp add: path_step_def observe_def observe_missing_def usable_def)
qed

theorem missing_evidence_is_unknown_witness:
  "st (path_run sample_policy [(0, Some False, None)]) = DOWN \<and>
   (\<exists>i < length [(0::rat, Some False, None::confirmation option)].
      confirms_failure sample_policy (take (Suc i) [(0, Some False, None)]))"
  using missing_evidence_is_unknown [of sample_policy "[(0, Some False, None)]" 0 None 0]
  by (simp add: path_step_def observe_def observe_down_def)

end
