(* ===== verification/Controller.thy ===== *)
theory Controller
  imports Policy
begin

text \<open>
  The control loop around the failover engine: route confirmation, the guarded selection and restore of
  the dedicated proxy group (\<open>controller.py\<close>), the passive suspicion monitor (\<open>Passive\<close>), the probe
  budget and one control cycle (\<open>runtime.py\<close>), and the classification of a probe's outcome
  (\<open>transport.py\<close>, \<open>Probe.measure\<close>).

  HTTP exchanges are inputs: the decoded replies of the local controller, or the exception a request
  raised. The requests that change the controller are outputs. The clock readings, the results of
  \<open>alive\<close> and the results of the probes are inputs of a cycle as well.
\<close>

section \<open>Requests\<close>

datatype request = Request (req_method: string) (req_path: string) (req_body: "(string \<times> string) list option")

definition hex_digit :: "nat \<Rightarrow> char" where
  "hex_digit n = ''0123456789ABCDEF'' ! n"

definition unreserved :: "char \<Rightarrow> bool" where
  "unreserved c \<longleftrightarrow> c \<in> set ''ABCDEFGHIJKLMNOPQRSTUVWXYZabcdefghijklmnopqrstuvwxyz0123456789_.-~''"

definition quote :: "string \<Rightarrow> string" where
  "quote s = concat (map (\<lambda>c. if unreserved c then [c]
      else let n = of_char c :: nat in [CHR ''%'', hex_digit (n div 16), hex_digit (n mod 16)]) s)"

definition group_path :: string where
  "group_path = ''/proxies/'' @ quote GROUP"

function str_nat :: "nat \<Rightarrow> string" where
  "str_nat n = (if n < 10 then [''0123456789'' ! n] else str_nat (n div 10) @ [''0123456789'' ! (n mod 10)])"
  by pat_completeness auto
termination by (relation "measure id") auto

declare str_nat.simps [simp del]

section \<open>Route confirmation\<close>

definition route_matches :: "string \<Rightarrow> string \<Rightarrow> string \<Rightarrow> nat \<Rightarrow> (pyval \<times> pyval) list \<Rightarrow> (pyval \<times> pyval) list \<Rightarrow> bool" where
  "route_matches name inbound host remote_port metadata row \<longleftrightarrow>
     pgetN metadata ''inboundName'' = PStr inbound \<and> pgetN metadata ''destinationIP'' = PStr host
     \<and> pgetN metadata ''destinationPort'' = PStr (str_nat remote_port)
     \<and> pgetN metadata ''specialProxy'' = PStr name
     \<and> (case pgetN row ''chains'' of
          PList chs \<Rightarrow> PStr name \<in> set chs
             \<and> \<not> list_ex (\<lambda>node. node \<noteq> name \<and> PStr node \<in> set chs) NODES
        | _ \<Rightarrow> False)"

fun route_rows :: "string \<Rightarrow> string \<Rightarrow> nat \<Rightarrow> string \<Rightarrow> nat \<Rightarrow> pyval list \<Rightarrow> bool list option" where
  "route_rows name inbound source_port host remote_port [] = Some []"
| "route_rows name inbound source_port host remote_port (PDict row # rows) =
     (case route_rows name inbound source_port host remote_port rows of
        None \<Rightarrow> None
      | Some ms \<Rightarrow>
          (case pget_or row ''metadata'' (PDict []) of
             PDict metadata \<Rightarrow>
               if pgetN metadata ''sourceIP'' = PStr ''127.0.0.1''
                  \<and> pgetN metadata ''sourcePort'' = PStr (str_nat source_port)
               then Some (route_matches name inbound host remote_port metadata row # ms) else Some ms
           | _ \<Rightarrow> Some ms))"
| "route_rows name inbound source_port host remote_port (_ # rows) = None"

definition confirm_route :: "string \<Rightarrow> string \<Rightarrow> nat \<Rightarrow> string \<Rightarrow> nat \<Rightarrow> pyval \<Rightarrow> bool" where
  "confirm_route name inbound source_port host remote_port payload =
     (case payload of
        PDict d \<Rightarrow>
          (case pgetN d ''connections'' of
             PList rows \<Rightarrow>
               if 4096 < length rows then False
               else route_rows name inbound source_port host remote_port rows = Some [True]
           | _ \<Rightarrow> False)
      | _ \<Rightarrow> False)"

section \<open>Guarded mutation\<close>

text \<open>
  \<open>Controller.select\<close> and \<open>restore\<close>: \<open>fresh\<close> is the re-read \<open>/proxies\<close> object, \<open>ack\<close> the outcome of the
  mutating request. The result is the ownership, the requests sent and the returned value.
\<close>

definition set_request :: "string \<Rightarrow> request" where
  "set_request name =
     (if name = AUTO then Request ''DELETE'' group_path None
      else Request ''PUT'' group_path (Some [(''name'', name)]))"

definition retain_blocked :: "proxies \<Rightarrow> string \<Rightarrow> bool" where
  "retain_blocked px name \<longleftrightarrow> name = AUTO \<or> pgetN (dict_items (pgetN px GROUP)) ''now'' \<noteq> PStr name
     \<or> \<not> is_dict (pgetN px name) \<or> pgetN (dict_items (pgetN px name)) ''alive'' \<noteq> PBool True"

definition select_member :: "string \<Rightarrow> bool \<Rightarrow> proxies res \<Rightarrow> unit res \<Rightarrow> ownership
    \<Rightarrow> ownership \<times> request list \<times> bool res" where
  "select_member name retain_current fresh ack o1 =
     (case fresh of
        Inl e \<Rightarrow> (o1, [], Inl e)
      | Inr px \<Rightarrow>
          if name \<notin> set (members o1) then (o1, [], Inr False)
          else (let (o2, ok) = permitted px True o1
                in if \<not> ok then (o2, [], Inr False)
                   else if retain_current \<and> retain_blocked px name then (o2, [], Inr False)
                   else (case ack of
                           Inl e \<Rightarrow> (o2, [set_request name], Inl e)
                         | Inr _ \<Rightarrow> (case committed name o2 of
                              Inl e \<Rightarrow> (o2, [set_request name], Inl e)
                            | Inr o3 \<Rightarrow> (o3, [set_request name], Inr True)))))"

definition restore :: "proxies res \<Rightarrow> unit res \<Rightarrow> ownership \<Rightarrow> ownership \<times> request list \<times> unit res" where
  "restore fresh ack o1 =
     (case fresh of
        Inl e \<Rightarrow> (o1, [], Inl e)
      | Inr px \<Rightarrow>
          (let (o2, ok) = permitted px False o1
           in if \<not> ok then (o2, [], Inl (ValueError ''restore_ownership''))
              else (case ack of
                      Inl e \<Rightarrow> (o2, [Request ''DELETE'' group_path None], Inl e)
                    | Inr _ \<Rightarrow> (case committed AUTO o2 of
                         Inl e \<Rightarrow> (o2, [Request ''DELETE'' group_path None], Inl e)
                       | Inr o3 \<Rightarrow> (o3, [Request ''DELETE'' group_path None], Inr ())))))"

section \<open>Passive suspicion\<close>

record monitor =
  nodes :: "string list"
  threshold :: nat
  previous :: "(string \<Rightarrow> string set) option"
  rates :: "string \<Rightarrow> rat list"
  drops :: "string \<Rightarrow> nat"
  node_fail_mbps :: "string \<Rightarrow> rat option"
  uploads :: "(string, int) dict"
  previous_at :: "rat option"

definition make_passive :: "string list \<Rightarrow> nat \<Rightarrow> (string \<Rightarrow> rat option) \<Rightarrow> monitor" where
  "make_passive ns churn fails = \<lparr>nodes = ns, threshold = churn, previous = None, rates = (\<lambda>_. []),
     drops = (\<lambda>_. 0), node_fail_mbps = fails, uploads = [], previous_at = None\<rparr>"

definition is_prefix_of :: "string \<Rightarrow> string \<Rightarrow> bool" where
  "is_prefix_of p s \<longleftrightarrow> take (length p) s = p"

text \<open>One connection of the listing: malformed (the whole sample is dropped), a probe of our own (skipped), or
  its id, chains and upload counter.\<close>

datatype conn_item = Malformed | OwnProbe | Conn string "pyval list" "int option"

definition own_probe :: "(pyval \<times> pyval) list \<Rightarrow> bool" where
  "own_probe item =
     (case pget_or item ''metadata'' (PDict []) of
        PDict m \<Rightarrow> (case pgetN m ''inboundName'' of PStr s \<Rightarrow> is_prefix_of ''quality-probe-'' s | _ \<Rightarrow> False)
      | _ \<Rightarrow> False)"

definition upload_count :: "(pyval \<times> pyval) list \<Rightarrow> int option" where
  "upload_count item =
     (case pgetN item ''upload'' of PInt u \<Rightarrow> if 0 \<le> u \<and> u \<le> 2 ^ 63 - 1 then Some u else None | _ \<Rightarrow> None)"

definition read_conn :: "pyval \<Rightarrow> conn_item" where
  "read_conn v =
     (case v of
        PDict item \<Rightarrow>
          (case (pgetN item ''id'', pgetN item ''chains'') of
             (PStr ident, PList chs) \<Rightarrow>
               if 128 < py_len ident then Malformed
               else if own_probe item then OwnProbe
               else Conn ident chs (upload_count item)
           | _ \<Rightarrow> Malformed)
      | _ \<Rightarrow> Malformed)"

fun read_conns :: "pyval list \<Rightarrow> (string \<times> pyval list \<times> int option) list option" where
  "read_conns [] = Some []"
| "read_conns (v # vs) =
     (case read_conn v of
        Malformed \<Rightarrow> None
      | OwnProbe \<Rightarrow> read_conns vs
      | Conn i ch u \<Rightarrow> map_option (Cons (i, ch, u)) (read_conns vs))"

definition current_of :: "(string \<times> pyval list \<times> int option) list \<Rightarrow> string \<Rightarrow> string set" where
  "current_of cs node = {i. \<exists>(j, ch, u) \<in> set cs. j = i \<and> PStr node \<in> set ch}"

definition uploads_of :: "(string \<times> pyval list \<times> int option) list \<Rightarrow> (string, int) dict" where
  "uploads_of cs = foldl (\<lambda>d (i, ch, u). case u of None \<Rightarrow> d | Some n \<Rightarrow> dict_set i n d) [] cs"

definition churned :: "nat \<Rightarrow> string set \<Rightarrow> string set \<Rightarrow> bool" where
  "churned n before after \<longleftrightarrow> n \<le> card (before - after) \<and> n \<le> card (after - before)"

text \<open>The upload deltas of the connections seen in both samples whose counters did not go back.\<close>

definition common_ids :: "string set \<Rightarrow> string set \<Rightarrow> (string, int) dict \<Rightarrow> (string, int) dict \<Rightarrow> string set" where
  "common_ids before after old new =
     {i \<in> after \<inter> before. (case (dict_get new i, dict_get old i) of (Some n, Some m) \<Rightarrow> m \<le> n | _ \<Rightarrow> False)}"

definition rate_of :: "string set \<Rightarrow> (string, int) dict \<Rightarrow> (string, int) dict \<Rightarrow> rat \<Rightarrow> rat" where
  "rate_of ids old new dt =
     of_int (\<Sum>i\<in>ids. the (dict_get new i) - the (dict_get old i)) * 8 / dt / 1000000"

text \<open>A \<open>deque(maxlen=3)\<close>.\<close>

definition push3 :: "rat list \<Rightarrow> rat \<Rightarrow> rat list" where
  "push3 rs r = (let xs = rs @ [r] in drop (length xs - 3) xs)"

definition rate_dropped :: "rat option \<Rightarrow> rat list \<Rightarrow> rat \<Rightarrow> bool" where
  "rate_dropped limit rs rate =
     (case limit of None \<Rightarrow> False | Some l \<Rightarrow> rate < l / 2 \<and> length rs = 3 \<and> l \<le> Max (set rs))"

text \<open>The rate bookkeeping of one node: its new rate window, its new drop count and whether it is suspected.\<close>

definition rate_step :: "monitor \<Rightarrow> (string \<times> pyval list \<times> int option) list \<Rightarrow> rat \<Rightarrow> string \<Rightarrow> rat list \<times> nat \<times> bool" where
  "rate_step s cs dt node =
     (let before = (case previous s of None \<Rightarrow> {} | Some f \<Rightarrow> f node);
          ids = common_ids before (current_of cs node) (uploads s) (uploads_of cs)
      in if ids = {} then ([], 0, False)
         else (let rate = rate_of ids (uploads s) (uploads_of cs) dt;
                   d = (if rate_dropped (node_fail_mbps s node) (rates s node) rate
                        then Suc (drops s node) else 0)
               in (push3 (rates s node) rate, d, 2 \<le> d)))"

definition sample_dt :: "monitor \<Rightarrow> rat option \<Rightarrow> rat option" where
  "sample_dt s now =
     (case (now, previous_at s) of (Some t, Some t0) \<Rightarrow> if t0 < t then Some (t - t0) else None | _ \<Rightarrow> None)"

definition churn_suspects :: "monitor \<Rightarrow> (string \<times> pyval list \<times> int option) list \<Rightarrow> string set" where
  "churn_suspects s cs =
     (case previous s of None \<Rightarrow> {}
      | Some f \<Rightarrow> {node \<in> set (nodes s). churned (threshold s) (f node) (current_of cs node)})"

definition accept_sample :: "(string \<times> pyval list \<times> int option) list \<Rightarrow> rat option \<Rightarrow> monitor \<Rightarrow> monitor \<times> string set" where
  "accept_sample cs now s =
     (let keep = s\<lparr>previous := Some (current_of cs), uploads := uploads_of cs, previous_at := now\<rparr>
      in case sample_dt s now of
           None \<Rightarrow> (keep, churn_suspects s cs)
         | Some dt \<Rightarrow>
             (keep\<lparr>rates := (\<lambda>n. if n \<in> set (nodes s) then fst (rate_step s cs dt n) else rates s n),
                   drops := (\<lambda>n. if n \<in> set (nodes s) then fst (snd (rate_step s cs dt n)) else drops s n)\<rparr>,
              churn_suspects s cs \<union> {n \<in> set (nodes s). snd (snd (rate_step s cs dt n))}))"

definition suspicion :: "pyval \<Rightarrow> rat option \<Rightarrow> monitor \<Rightarrow> monitor \<times> string set" where
  "suspicion payload now s =
     (case payload of
        PDict d \<Rightarrow>
          (case pgetN d ''connections'' of
             PList rows \<Rightarrow>
               if 4096 < length rows then (s\<lparr>previous := None\<rparr>, {})
               else (case read_conns rows of
                       None \<Rightarrow> (s\<lparr>previous := None\<rparr>, {})
                     | Some cs \<Rightarrow> accept_sample cs now s)
           | _ \<Rightarrow> (s\<lparr>previous := None\<rparr>, {}))
      | _ \<Rightarrow> (s\<lparr>previous := None\<rparr>, {}))"

section \<open>Probe budget\<close>

record budget_state =
  byte_limit :: int
  min_interval :: rat
  records :: "(rat \<times> int) list"
  last_probe :: "(string, rat) dict"

definition make_budget :: "int \<Rightarrow> rat \<Rightarrow> budget_state" where
  "make_budget limit interval = \<lparr>byte_limit = limit, min_interval = interval, records = [], last_probe = []\<rparr>"

definition last_of :: "budget_state \<Rightarrow> string \<Rightarrow> rat" where
  "last_of b node = (case dict_get (last_probe b) node of None \<Rightarrow> - (10 ^ 15) | Some t \<Rightarrow> t)"

definition expire :: "rat \<Rightarrow> (rat \<times> int) list \<Rightarrow> (rat \<times> int) list" where
  "expire now rs = dropWhile (\<lambda>(t, _). 60 \<le> now - t) rs"

definition reserve :: "string \<Rightarrow> int \<Rightarrow> rat \<Rightarrow> budget_state \<Rightarrow> budget_state \<times> bool" where
  "reserve node amount now b =
     (let b1 = b\<lparr>records := expire now (records b)\<rparr>
      in if now - last_of b1 node < min_interval b1 \<or> byte_limit b1 < sum_list (map snd (records b1)) + amount
         then (b1, False)
         else (b1\<lparr>records := records b1 @ [(now, amount)], last_probe := dict_set node now (last_probe b1)\<rparr>, True))"

section \<open>The outcome of a probe\<close>

text \<open>
  \<open>Probe.measure\<close>: the two requests end with a rate, an upload timeout or another failure; only the
  second request can time out as an upload.
\<close>

datatype probe_result = Rate rat | UploadTimedOut | ProbeFailed

definition no_confirmation :: confirmation where
  "no_confirmation = \<lparr>mbps = PNone, timed_out = PBool False, endpoint_ready = PBool False\<rparr>"

definition measure_probe :: "probe_result \<Rightarrow> probe_result \<Rightarrow> confirmation" where
  "measure_probe ready upload =
     (case ready of
        Rate _ \<Rightarrow>
          (case upload of
             Rate r \<Rightarrow> if r \<le> 0 then no_confirmation
                      else \<lparr>mbps = PFloat (Fin r), timed_out = PBool False, endpoint_ready = PBool True\<rparr>
           | UploadTimedOut \<Rightarrow> \<lparr>mbps = PNone, timed_out = PBool True, endpoint_ready = PBool True\<rparr>
           | ProbeFailed \<Rightarrow> no_confirmation)
      | _ \<Rightarrow> no_confirmation)"

section \<open>One control cycle\<close>

record runner =
  r_engine :: engine
  r_owner :: ownership
  r_monitor :: monitor
  r_budget :: budget_state
  r_offset :: nat
  r_control :: bool
  r_sizes :: "string \<Rightarrow> int"

record cycle_env =
  x_proxies :: "proxies res"
  x_connections :: "pyval res"
  x_sample_at :: rat
  x_reach :: "string \<Rightarrow> bool option"
  x_reserve_at :: "string \<Rightarrow> rat"
  x_ready :: "string \<Rightarrow> probe_result"
  x_upload :: "string \<Rightarrow> probe_result"
  x_reach_end :: "string \<Rightarrow> bool option"
  x_update_at :: rat
  x_target_at :: rat
  x_fresh :: "proxies res"
  x_ack :: "unit res"

definition reach_val :: "bool option \<Rightarrow> pyval" where
  "reach_val r = (case r of None \<Rightarrow> PNone | Some b \<Rightarrow> PBool b)"

definition testing :: "bool \<Rightarrow> string set \<Rightarrow> bool \<Rightarrow> string \<Rightarrow> path \<Rightarrow> bool" where
  "testing confirm suspect current_bad name x \<longleftrightarrow>
     confirm \<or> name \<in> suspect \<or> 0 < bad x \<or> needs_recovery x \<or> current_bad"

text \<open>The probing pass over the rotated names: the budget and the observations.\<close>

fun probe_pass :: "cycle_env \<Rightarrow> (string \<Rightarrow> bool) \<Rightarrow> (string \<Rightarrow> int) \<Rightarrow> string list \<Rightarrow> budget_state
    \<Rightarrow> budget_state \<times> (string \<times> (pyval \<times> conf_arg)) list" where
  "probe_pass env tested sizes [] b = (b, [])"
| "probe_pass env tested sizes (n # ns) b =
     (let (b1, conf) = (if x_reach env n = Some True \<and> tested n
                        then (case reserve n (sizes n) (x_reserve_at env n) b of
                                (b', True) \<Rightarrow> (b', Conf (measure_probe (x_ready env n) (x_upload env n)))
                              | (b', False) \<Rightarrow> (b', NotConfirmation))
                        else (b, NotConfirmation));
          (b2, rest) = probe_pass env tested sizes ns b1
      in (b2, (n, (reach_val (x_reach env n), conf)) # rest))"

definition recheck :: "cycle_env \<Rightarrow> (string \<times> (pyval \<times> conf_arg)) list \<Rightarrow> (string \<times> (pyval \<times> conf_arg)) list" where
  "recheck env observed =
     map (\<lambda>(n, oc). if x_reach_end env n = None then (n, (PNone, NotConfirmation)) else (n, oc)) observed"

text \<open>Membership of the effective selection among the paths: raises for a list or an object.\<close>

definition path_at :: "pyval \<Rightarrow> engine \<Rightarrow> path option res" where
  "path_at v e =
     (case v of PStr n \<Rightarrow> Inr (dict_get (paths e) n) | PList _ \<Rightarrow> Inl TypeError | PDict _ \<Rightarrow> Inl TypeError
      | _ \<Rightarrow> Inr None)"

datatype action = Observe | ControlSuspended | ManualOverride | Selected | RetainedCurrent

definition select_action :: "string \<Rightarrow> bool \<Rightarrow> action \<Rightarrow> cycle_env \<Rightarrow> runner \<Rightarrow> runner \<times> request list \<times> action res" where
  "select_action name retain outcome env r =
     (let (o2, reqs, res) = select_member name retain (x_fresh env) (x_ack env) (r_owner r)
      in (r\<lparr>r_owner := o2\<rparr>, reqs, res_bind res (\<lambda>ok. Inr (if ok then outcome else ControlSuspended))))"

definition control_step :: "proxies \<Rightarrow> cycle_env \<Rightarrow> pyval \<Rightarrow> string option \<Rightarrow> runner \<Rightarrow> runner \<times> request list \<times> action res" where
  "control_step px env current desired r =
     (if \<not> r_control r then (r, [], Inr Observe)
      else (let (o1, ok) = permitted px True (r_owner r); r1 = r\<lparr>r_owner := o1\<rparr>
            in if \<not> ok then (r1, [], Inr (if suspended o1 then ControlSuspended else ManualOverride))
               else (case desired of
                       Some d \<Rightarrow> select_action d False Selected env r1
                     | None \<Rightarrow>
                         (case current of
                            PStr cur \<Rightarrow>
                              (case dict_get (paths (r_engine r1)) cur of
                                 Some x \<Rightarrow> if st x = UP \<and> expected o1 = AUTO
                                           then select_action cur True RetainedCurrent env r1
                                           else (r1, [], Inr Observe)
                               | None \<Rightarrow> (r1, [], Inr Observe))
                          | _ \<Rightarrow> (r1, [], Inr Observe)))))"

definition finish_cycle :: "proxies \<Rightarrow> cycle_env \<Rightarrow> (string \<times> (pyval \<times> conf_arg)) list \<Rightarrow> runner
    \<Rightarrow> runner \<times> request list \<times> action res" where
  "finish_cycle px env observed r =
     (let (e', res) = update (PFloat (Fin (x_update_at env))) (map_of observed) (r_engine r);
          r1 = r\<lparr>r_engine := e'\<rparr>
      in case res of
           Inl x \<Rightarrow> (r1, [], Inl x)
         | Inr _ \<Rightarrow>
             (let current = effective px (r_owner r1)
              in case target (x_target_at env) current e' of
                   Inl x \<Rightarrow> (r1, [], Inl x)
                 | Inr desired \<Rightarrow> control_step px env current desired r1))"

definition cycle :: "bool \<Rightarrow> cycle_env \<Rightarrow> runner \<Rightarrow> runner \<times> request list \<times> action res" where
  "cycle confirm env r =
     (case x_proxies env of
        Inl x \<Rightarrow> (r, [], Inl x)
      | Inr px \<Rightarrow>
          (let r0 = (if r_control r then r\<lparr>r_owner := fst (permitted px True (r_owner r))\<rparr> else r)
           in case x_connections env of
                Inl x \<Rightarrow> (r0, [], Inl x)
              | Inr payload \<Rightarrow>
                  (let (s1, suspect) = suspicion payload (Some (x_sample_at env)) (r_monitor r0);
                       r1 = r0\<lparr>r_monitor := s1\<rparr>;
                       e = r_engine r1
                   in case path_at (effective px (r_owner r1)) e of
                        Inl x \<Rightarrow> (r1, [], Inl x)
                      | Inr cur \<Rightarrow>
                          (let current_bad = (case cur of None \<Rightarrow> False | Some x \<Rightarrow> st x \<in> {DEGRADED, DOWN});
                               names = map fst (paths e);
                               ordered = drop (r_offset r1) names @ take (r_offset r1) names;
                               tested = (\<lambda>n. testing confirm suspect current_bad n (the (dict_get (paths e) n)));
                               (b1, observed) = probe_pass env tested (r_sizes r1) ordered (r_budget r1);
                               r2 = r1\<lparr>r_offset := (r_offset r1 + 1) mod length names, r_budget := b1\<rparr>
                           in finish_cycle px env (recheck env observed) r2))))"

definition close_runner :: "proxies res \<Rightarrow> unit res \<Rightarrow> runner \<Rightarrow> runner \<times> request list \<times> unit res" where
  "close_runner fresh ack r =
     (if r_control r \<and> expected (r_owner r) \<noteq> AUTO \<and> \<not> suspended (r_owner r)
      then (let (o2, reqs, res) = restore fresh ack (r_owner r) in (r\<lparr>r_owner := o2\<rparr>, reqs, res))
      else (r, [], Inr ()))"

section \<open>Ownership is latched\<close>

lemma release_pin_simps [simp]:
  "suspended (release_pin px o1) = suspended o1" "members (release_pin px o1) = members o1"
  by (simp_all add: release_pin_def Let_def)

lemma permitted_latch:
  assumes "permitted px ro o1 = (o2, ok)"
  shows "members o2 = members o1" "suspended o1 \<Longrightarrow> suspended o2" "ok \<Longrightarrow> \<not> suspended o2"
    "ok \<Longrightarrow> ro \<Longrightarrow> outer_selected px"
    "ok \<Longrightarrow> \<not> shape_broken px o2"
  using assms by (auto simp: permitted_def Let_def split: if_splits)

lemma committed_latch:
  "committed sel o1 = Inr o2 \<Longrightarrow> members o2 = members o1 \<and> suspended o2 = suspended o1 \<and> expected o2 = sel"
  by (auto simp: committed_def split: if_splits)

text \<open>What a guarded selection may do to the controller.\<close>

definition guarded_request :: "cycle_env \<Rightarrow> ownership \<Rightarrow> string \<Rightarrow> bool" where
  "guarded_request env o1 name \<longleftrightarrow> name \<in> set (members o1) \<and> \<not> suspended o1 \<and>
     (\<exists>px. x_fresh env = Inr px \<and> outer_selected px \<and> (\<exists>o2. members o2 = members o1 \<and> \<not> shape_broken px o2))"

lemma select_member_effect:
  assumes "select_member name retain (x_fresh env) (x_ack env) o1 = (o2, reqs, res)"
  shows "members o2 = members o1" "suspended o1 \<Longrightarrow> suspended o2"
    "reqs \<noteq> [] \<Longrightarrow> reqs = [set_request name] \<and> guarded_request env o1 name"
    "res = Inr True \<longleftrightarrow> reqs \<noteq> [] \<and> x_ack env = Inr ()"
    "res = Inr True \<Longrightarrow> expected o2 = name"
proof -
  consider (err) e where "x_fresh env = Inl e" | (ok) px where "x_fresh env = Inr px"
    by (cases "x_fresh env") auto
  then have "members o2 = members o1 \<and> (suspended o1 \<longrightarrow> suspended o2) \<and>
    (reqs \<noteq> [] \<longrightarrow> reqs = [set_request name] \<and> guarded_request env o1 name) \<and>
    (res = Inr True \<longleftrightarrow> reqs \<noteq> [] \<and> x_ack env = Inr ()) \<and> (res = Inr True \<longrightarrow> expected o2 = name)"
  proof cases
    case err
    with assms show ?thesis by (auto simp: select_member_def)
  next
    case ok
    obtain o3 b where p: "permitted px True o1 = (o3, b)" by fastforce
    note l = permitted_latch [OF p]
    show ?thesis
    proof (cases "name \<in> set (members o1) \<and> b \<and> \<not> (retain \<and> retain_blocked px name)")
      case False
      with assms ok p l show ?thesis by (auto simp: select_member_def split: if_splits)
    next
      case True
      with l have g: "guarded_request env o1 name" "\<not> suspended o1"
        using ok by (auto simp: guarded_request_def)
      from True l(1) have "committed name o3 = Inr (o3\<lparr>expected := name\<rparr>)" by (simp add: committed_def)
      with assms ok p l True g show ?thesis
        by (auto simp: select_member_def split: sum.splits)
    qed
  qed
  then show "members o2 = members o1" "suspended o1 \<Longrightarrow> suspended o2"
    "reqs \<noteq> [] \<Longrightarrow> reqs = [set_request name] \<and> guarded_request env o1 name"
    "res = Inr True \<longleftrightarrow> reqs \<noteq> [] \<and> x_ack env = Inr ()"
    "res = Inr True \<Longrightarrow> expected o2 = name" by blast+
qed

text \<open>The contract of every stage of a cycle, as a relation between runners.\<close>

definition stage_ok :: "cycle_env \<Rightarrow> runner \<Rightarrow> runner \<times> request list \<times> action res \<Rightarrow> bool" where
  "stage_ok env r out \<longleftrightarrow> (case out of (r', reqs, res) \<Rightarrow>
     r_control r' = r_control r \<and> members (r_owner r') = members (r_owner r) \<and>
     (suspended (r_owner r) \<longrightarrow> suspended (r_owner r')) \<and>
     (reqs \<noteq> [] \<longrightarrow> r_control r \<and> (\<exists>name. reqs = [set_request name] \<and> guarded_request env (r_owner r) name)) \<and>
     (res \<in> {Inr Selected, Inr RetainedCurrent} \<longrightarrow> reqs = [set_request (expected (r_owner r'))]))"

lemma stage_ok_quiet:
  "r_control r' = r_control r \<Longrightarrow> members (r_owner r') = members (r_owner r) \<Longrightarrow>
   (suspended (r_owner r) \<Longrightarrow> suspended (r_owner r')) \<Longrightarrow> res \<notin> {Inr Selected, Inr RetainedCurrent} \<Longrightarrow>
   stage_ok env r (r', [], res)"
  by (simp add: stage_ok_def)

lemma guarded_request_trans:
  "guarded_request env o2 n \<Longrightarrow> members o2 = members o1 \<Longrightarrow> (suspended o1 \<Longrightarrow> suspended o2) \<Longrightarrow> guarded_request env o1 n"
  by (auto simp: guarded_request_def)

lemma stage_ok_trans:
  assumes "stage_ok env r1 out" and "r_control r1 = r_control r" and "members (r_owner r1) = members (r_owner r)"
    and "suspended (r_owner r) \<Longrightarrow> suspended (r_owner r1)"
  shows "stage_ok env r out"
  using assms guarded_request_trans [OF _ assms(3) assms(4)]
  by (auto simp: stage_ok_def split: prod.splits)

lemma select_action_ok:
  assumes "outcome \<in> {Selected, RetainedCurrent}" "r_control r"
  shows "stage_ok env r (select_action name retain outcome env r)"
proof -
  obtain o2 reqs res where s: "select_member name retain (x_fresh env) (x_ack env) (r_owner r) = (o2, reqs, res)"
    by (cases "select_member name retain (x_fresh env) (x_ack env) (r_owner r)")
  note e = select_member_effect [OF s]
  show ?thesis
  proof (cases res)
    case (Inl x)
    with s e assms show ?thesis by (auto simp: select_action_def stage_ok_def)
  next
    case (Inr b)
    with s e assms show ?thesis by (cases b) (auto simp: select_action_def stage_ok_def)
  qed
qed

lemma control_step_ok: "stage_ok env r (control_step px env current desired r)"
proof (cases "r_control r")
  case False
  then show ?thesis by (simp add: control_step_def stage_ok_def)
next
  case True
  obtain o1 ok where p: "permitted px True (r_owner r) = (o1, ok)" by fastforce
  let ?r1 = "r\<lparr>r_owner := o1\<rparr>"
  have trans: "stage_ok env ?r1 out \<Longrightarrow> stage_ok env r out" for out
    by (erule stage_ok_trans) (simp_all add: permitted_latch [OF p])
  have quiet: "stage_ok env r (?r1, [], Inr a)" if "a \<notin> {Selected, RetainedCurrent}" for a
    by (rule stage_ok_quiet) (use that permitted_latch [OF p] in auto)
  have sel: "stage_ok env r (select_action n ret oc env ?r1)" if "oc \<in> {Selected, RetainedCurrent}" for n ret oc
    by (rule trans, rule select_action_ok) (use that True in auto)
  show ?thesis
    using True p by (auto simp: control_step_def Let_def intro!: quiet sel split: option.splits pyval.splits)
qed

lemma finish_cycle_ok: "stage_ok env r (finish_cycle px env observed r)"
proof -
  obtain e' res where u: "update (PFloat (Fin (x_update_at env))) (map_of observed) (r_engine r) = (e', res)"
    by fastforce
  have trans: "stage_ok env (r\<lparr>r_engine := e'\<rparr>) out \<Longrightarrow> stage_ok env r out" for out
    by (erule stage_ok_trans) simp_all
  show ?thesis
    using u by (auto simp: finish_cycle_def Let_def intro!: trans control_step_ok stage_ok_quiet split: sum.splits)
qed

lemma cycle_ok: "stage_ok env r (cycle confirm env r)"
proof (cases "x_proxies env")
  case (Inl x)
  then show ?thesis by (auto simp: cycle_def intro!: stage_ok_quiet)
next
  case px: (Inr px)
  let ?r0 = "if r_control r then r\<lparr>r_owner := fst (permitted px True (r_owner r))\<rparr> else r"
  have l: "members (fst (permitted px True (r_owner r))) = members (r_owner r)"
    "suspended (r_owner r) \<Longrightarrow> suspended (fst (permitted px True (r_owner r)))"
    using permitted_latch(1,2) by (metis fst_conv surj_pair)+
  have quiet: "stage_ok env r (r', [], Inl x)" if "r_owner r' = r_owner ?r0" "r_control r' = r_control r" for r' x
    by (rule stage_ok_quiet) (use that l in auto)
  have trans: "stage_ok env r (finish_cycle px env observed r')"
    if "r_owner r' = r_owner ?r0" "r_control r' = r_control r" for r' observed
    by (rule stage_ok_trans [OF finish_cycle_ok]) (use that l in auto)
  show ?thesis
  proof (cases "x_connections env")
    case (Inl x)
    with px show ?thesis by (simp add: cycle_def Let_def quiet)
  next
    case (Inr payload)
    obtain s1 suspect where s: "suspicion payload (Some (x_sample_at env)) (r_monitor ?r0) = (s1, suspect)" by fastforce
    show ?thesis
    proof (cases "path_at (effective px (r_owner ?r0)) (r_engine ?r0)")
      case (Inl x)
      with px Inr s show ?thesis by (auto simp: cycle_def Let_def intro!: quiet)
    next
      case (Inr cur)
      with px \<open>x_connections env = Inr payload\<close> s show ?thesis
        by (auto simp: cycle_def Let_def intro!: trans split: prod.splits)
    qed
  qed
qed


lemma group_names_distinct [simp]:
  "AUTO \<noteq> GROUP" "GROUP \<noteq> AUTO" "OUTER \<noteq> GROUP" "GROUP \<noteq> OUTER" "OUTER \<noteq> AUTO" "AUTO \<noteq> OUTER"
  "AUTO \<noteq> ''Reality''" "GROUP \<noteq> ''Reality''" "OUTER \<noteq> ''Reality''" "''Reality'' \<noteq> AUTO"
  by (simp_all add: AUTO_def GROUP_def OUTER_def utf8_def)

definition sample_px :: proxies where
  "sample_px =
     (let ns = PList [PStr ''Reality'', PStr ''Hysteria2'']
      in [(PStr OUTER, PDict [(PStr ''type'', PStr ''Selector''), (PStr ''now'', PStr GROUP)]),
          (PStr GROUP, PDict [(PStr ''type'', PStr ''Fallback''), (PStr ''all'', ns), (PStr ''hidden'', PBool True),
             (PStr ''fixed'', PStr []), (PStr ''now'', PStr ''Reality'')]),
          (PStr AUTO, PDict [(PStr ''type'', PStr ''Fallback''), (PStr ''all'', ns), (PStr ''fixed'', PStr [])]),
          (PStr ''Reality'', PDict [(PStr ''alive'', PBool True)])])"

definition sample_env :: cycle_env where
  "sample_env = \<lparr>x_proxies = Inr sample_px, x_connections = Inr PNone, x_sample_at = 215,
     x_reach = (\<lambda>n. Some (n = ''Reality'')), x_reserve_at = (\<lambda>_. 216), x_ready = (\<lambda>_. ProbeFailed),
     x_upload = (\<lambda>_. ProbeFailed), x_reach_end = (\<lambda>n. Some True), x_update_at = 218, x_target_at = 220,
     x_fresh = Inr sample_px, x_ack = Inr ()\<rparr>"

definition sample_runner :: runner where
  "sample_runner = \<lparr>r_engine = \<lparr>policies = sample_policies,
       paths = [(''Reality'', init_path), (''Hysteria2'', init_path)], last_time = None\<rparr>, r_owner = make_ownership [''Reality'', ''Hysteria2''],
     r_monitor = make_passive [''Reality'', ''Hysteria2''] 5 (\<lambda>_. None), r_budget = make_budget 0 30, r_offset = 0,
     r_control = True, r_sizes = (\<lambda>_. 32768)\<rparr>"

lemma sample_permitted: "permitted sample_px True (make_ownership [''Reality'', ''Hysteria2'']) = (make_ownership [''Reality'', ''Hysteria2''], True)"
  by (simp add: permitted_def sample_px_def make_ownership_def release_pin_def shape_broken_def outer_selected_def
     expected_fixed_def pget_or_def Let_def)

lemma sample_members: "members (make_ownership ns) = AUTO # ns" "expected (make_ownership ns) = AUTO"
  by (simp_all add: make_ownership_def)

lemma sample_alive:
  "pgetN (dict_items (pgetN sample_px GROUP)) ''now'' = PStr ''Reality''"
  "pgetN sample_px ''Reality'' = PDict [(PStr ''alive'', PBool True)]"
  "pgetN [(PStr ''alive'', PBool True)] ''alive'' = PBool True"
  by (simp_all add: sample_px_def pget_or_def Let_def)

lemma sample_effective: "effective sample_px (make_ownership [''Reality'', ''Hysteria2'']) = PStr ''Reality''"
  by (simp add: effective_def sample_px_def make_ownership_def pget_or_def Let_def)

lemma sample_retained:
  "cycle False sample_env sample_runner = (r', reqs, res) \<Longrightarrow> res = Inr RetainedCurrent"
  by (simp add: cycle_def sample_env_def sample_runner_def sample_permitted suspicion_def sample_effective path_at_def Let_def
    testing_def recheck_def reach_val_def finish_cycle_def update_def clock_ok_def init_path_def
    sample_policies_def observation_def norm_alive_def observe_def observe_tick_def leave_unknown_def
    quality_expired_def target_def control_step_def select_action_def select_member_def retain_blocked_def
    committed_def sample_members sample_alive)


section \<open>The probe budget over time\<close>

text \<open>A series of requests \<open>(node, size, now)\<close> and the grants among them.\<close>

fun budget_run :: "budget_state \<Rightarrow> (string \<times> int \<times> rat) list \<Rightarrow> budget_state \<times> (string \<times> int \<times> rat) list" where
  "budget_run b [] = (b, [])"
| "budget_run b ((n, a, t) # qs) =
     (let (b1, ok) = reserve n a t b; (b2, gs) = budget_run b1 qs
      in (b2, if ok then (n, a, t) # gs else gs))"

abbreviation granted_at :: "string \<times> int \<times> rat \<Rightarrow> rat" where
  "granted_at g \<equiv> snd (snd g)"

definition window_bytes :: "rat \<Rightarrow> (string \<times> int \<times> rat) list \<Rightarrow> int" where
  "window_bytes w gs = sum_list (map (\<lambda>(n, a, t). if w \<le> t \<and> t < w + 60 then a else 0) gs)"

definition records_window :: "rat \<Rightarrow> (rat \<times> int) list \<Rightarrow> int" where
  "records_window w rs = sum_list (map (\<lambda>(t, a). if w \<le> t \<and> t < w + 60 then a else 0) rs)"

definition budget_ok :: "rat \<Rightarrow> budget_state \<Rightarrow> bool" where
  "budget_ok now b \<longleftrightarrow> sorted (map fst (records b)) \<and> (\<forall>(t, a) \<in> set (records b). 0 \<le> a \<and> t \<le> now)"

lemma records_window_expire:
  assumes "sorted (map fst rs)" "w \<le> now" "now < w + 60"
  shows "records_window w (expire now rs) = records_window w rs"
  using assms
  by (induction rs) (auto simp: expire_def records_window_def)

lemma records_window_le:
  "(\<And>t a. (t, a) \<in> set rs \<Longrightarrow> 0 \<le> a) \<Longrightarrow> records_window w rs \<le> sum_list (map snd rs)"
  unfolding records_window_def by (rule sum_list_mono) auto

lemma expire_subset: "set (expire now rs) \<subseteq> set rs"
  by (auto simp: expire_def dest: set_dropWhileD)

lemma sorted_expire: "sorted (map fst rs) \<Longrightarrow> sorted (map fst (expire now rs))"
  by (simp add: expire_def dropWhile_eq_drop drop_map [symmetric] sorted_wrt_drop)

lemma budget_run_subset: "budget_run b qs = (b', gs) \<Longrightarrow> set gs \<subseteq> set qs"
proof (induction qs arbitrary: b gs)
  case Nil
  then show ?case by simp
next
  case (Cons q qs)
  obtain n a t where q: "q = (n, a, t)" by (cases q)
  obtain b1 ok where r: "reserve n a t b = (b1, ok)" by fastforce
  obtain b2 gs' where g: "budget_run b1 qs = (b2, gs')" by fastforce
  with Cons.prems q r have "b2 = b'" "gs = (if ok then q # gs' else gs')" by auto
  with Cons.IH g show ?case by (metis insert_mono list.simps(15) subset_insertI2)
qed

lemma sum_list_0_all: "(\<And>x. x \<in> set xs \<Longrightarrow> f x = (0::int)) \<Longrightarrow> sum_list (map f xs) = 0"
  by (induction xs) auto

lemma reserve_cases:
  assumes "reserve n a t b = (b1, ok)"
  shows "byte_limit b1 = byte_limit b" "min_interval b1 = min_interval b"
    "records b1 = expire t (records b) @ (if ok then [(t, a)] else [])"
    "ok \<Longrightarrow> sum_list (map snd (records b1)) \<le> byte_limit b"
    "ok \<Longrightarrow> min_interval b \<le> t - last_of b n"
    "last_probe b1 = (if ok then dict_set n t (last_probe b) else last_probe b)"
  using assms by (auto simp: reserve_def last_of_def Let_def split: if_splits)

lemma reserve_ok:
  assumes "reserve n a t b = (b1, ok)" "budget_ok now b" "now \<le> t" "0 \<le> a"
  shows "budget_ok t b1"
  using assms(2-4) sorted_expire [of "records b" t] expire_subset [of t "records b"]
  unfolding budget_ok_def reserve_cases(3) [OF assms(1)]
  by (fastforce simp: sorted_append)

text \<open>Bytes granted in a window, counted with what the records already hold of it.\<close>

lemma budget_window:
  assumes "budget_ok now b" "records_window w (records b) \<le> byte_limit b" "sorted (now # map granted_at qs)"
    "\<And>q. q \<in> set qs \<Longrightarrow> 0 \<le> fst (snd q)" "budget_run b qs = (b', gs)"
  shows "records_window w (records b) + window_bytes w gs \<le> byte_limit b"
  using assms
proof (induction qs arbitrary: b now gs b')
  case Nil
  then show ?case by (simp add: window_bytes_def)
next
  case (Cons q qs)
  obtain n a t where q: "q = (n, a, t)" by (cases q)
  obtain b1 ok where r: "reserve n a t b = (b1, ok)" by fastforce
  obtain b2 gs' where g: "budget_run b1 qs = (b2, gs')" by fastforce
  note rc = reserve_cases [OF r]
  have gs: "gs = (if ok then (n, a, t) # gs' else gs')" using Cons.prems(5) q r g by auto
  have t: "now \<le> t" "0 \<le> a" using Cons.prems(3) Cons.prems(4) [of q] q by auto
  have ok1: "budget_ok t b1" by (rule reserve_ok [OF r Cons.prems(1) t])
  have lim: "byte_limit b1 = byte_limit b" by (rule rc(1))
  have IH: "records_window w (records b1) + window_bytes w gs' \<le> byte_limit b"
    if "records_window w (records b1) \<le> byte_limit b"
    using Cons.IH [OF ok1 _ _ _ g] that Cons.prems(3,4) q by (simp add: lim)
  have nonneg: "(s, x) \<in> set (records b1) \<Longrightarrow> 0 \<le> x" for s x using ok1 by (auto simp: budget_ok_def)
  consider (late) "w + 60 \<le> t" | (inside) "w \<le> t" "t < w + 60" | (early) "t < w" by linarith
  then show ?case
  proof cases
    case late
    have "g \<in> set gs \<Longrightarrow> w + 60 \<le> granted_at g" for g
      using budget_run_subset [OF Cons.prems(5)] Cons.prems(3) q late by fastforce
    then have "window_bytes w gs = 0"
      unfolding window_bytes_def by (intro sum_list_0_all) fastforce
    with Cons.prems(2) show ?thesis by simp
  next
    case inside
    have "records_window w (expire t (records b)) = records_window w (records b)"
      by (rule records_window_expire) (use Cons.prems(1) inside in \<open>auto simp: budget_ok_def\<close>)
    then have rw: "records_window w (records b1) = records_window w (records b) + (if ok then a else 0)"
      using inside by (simp add: rc(3) records_window_def)
    have "records_window w (records b1) \<le> byte_limit b"
    proof (cases ok)
      case True
      have "records_window w (records b1) \<le> sum_list (map snd (records b1))"
        by (rule records_window_le) (rule nonneg)
      with rc(4) [OF True] show ?thesis by simp
    next
      case False
      with rw Cons.prems(2) show ?thesis by simp
    qed
    from IH [OF this] rw gs inside show ?thesis
      by (auto simp: window_bytes_def split: if_splits)
  next
    case early
    have zero: "records_window w (records b) = 0" "records_window w (records b1) = 0"
      using Cons.prems(1) ok1 t early
      by (auto simp: records_window_def budget_ok_def intro!: sum_list_0_all)
    with Cons.prems(2) IH gs early show ?thesis
      by (auto simp: window_bytes_def split: if_splits)
  qed
qed

lemma budget_spacing:
  assumes "budget_run b qs = (b', gs)" "0 \<le> min_interval b"
  shows "(\<forall>g \<in> set gs. min_interval b \<le> granted_at g - last_of b (fst g)) \<and>
    sorted_wrt (\<lambda>g h. fst g = fst h \<longrightarrow> min_interval b \<le> granted_at h - granted_at g) gs"
  using assms
proof (induction qs arbitrary: b gs b')
  case Nil
  then show ?case by simp
next
  case (Cons q qs)
  obtain n a t where q: "q = (n, a, t)" by (cases q)
  obtain b1 ok where r: "reserve n a t b = (b1, ok)" by fastforce
  obtain b2 gs' where g: "budget_run b1 qs = (b2, gs')" by fastforce
  note rc = reserve_cases [OF r]
  have gs: "gs = (if ok then (n, a, t) # gs' else gs')" using Cons.prems(1) q r g by auto
  have IH: "(\<forall>g \<in> set gs'. min_interval b \<le> granted_at g - last_of b1 (fst g)) \<and>
    sorted_wrt (\<lambda>g h. fst g = fst h \<longrightarrow> min_interval b \<le> granted_at h - granted_at g) gs'"
    using Cons.IH [OF g] Cons.prems(2) rc(2) by simp
  show ?case
  proof (cases ok)
    case False
    with IH gs rc(6) show ?thesis by (simp add: last_of_def)
  next
    case True
    have l: "last_of b1 m = (if m = n then t else last_of b m)" for m
      using True rc(6) by (simp add: last_of_def)
    have "last_of b n \<le> t" using rc(5) [OF True] Cons.prems(2) by linarith
    then have "\<forall>g \<in> set gs'. min_interval b \<le> granted_at g - last_of b (fst g)"
      using IH l by (fastforce split: if_splits)
    with IH True gs rc(5) l show ?thesis by (auto split: if_splits)
  qed
qed

text \<open>
  The probes of all paths together never exceed the configured bytes per minute. For every series
  of reservations at non-decreasing times, the bytes granted in any window of sixty seconds stay within
  the limit, and two grants for the same path are at least the configured interval apart.
\<close>

theorem probe_budget_respected:
  assumes "budget_run (make_budget limit interval) qs = (b', gs)" and "sorted (map granted_at qs)"
    and "\<forall>q \<in> set qs. 0 \<le> fst (snd q)" and "0 \<le> limit" and "0 \<le> interval"
  shows "window_bytes w gs \<le> limit \<and>
     sorted_wrt (\<lambda>g h. fst g = fst h \<longrightarrow> interval \<le> granted_at h - granted_at g) gs"
proof
  let ?b = "make_budget limit interval"
  have sel: "records ?b = []" "byte_limit ?b = limit" "min_interval ?b = interval" by (simp_all add: make_budget_def)
  show "window_bytes w gs \<le> limit"
  proof (cases qs)
    case Nil
    with assms(1,4) show ?thesis by (simp add: window_bytes_def)
  next
    case (Cons q qs')
    have "records_window w (records ?b) + window_bytes w gs \<le> byte_limit ?b"
      by (rule budget_window [where now = "granted_at q", OF _ _ _ _ assms(1)])
        (use assms(2-4) Cons sel in \<open>auto simp: budget_ok_def records_window_def\<close>)
    with sel show ?thesis by (simp add: records_window_def)
  qed
  show "sorted_wrt (\<lambda>g h. fst g = fst h \<longrightarrow> interval \<le> granted_at h - granted_at g) gs"
    using budget_spacing [OF assms(1)] assms(5) sel(3) by simp
qed

theorem probe_budget_respected_witness:
  "window_bytes 0 (snd (budget_run (make_budget 70000 30) [(''Reality'', 40000, 1), (''Hysteria2'', 40000, 2)])) \<le> 70000"
proof -
  obtain b gs where r: "budget_run (make_budget 70000 30) [(''Reality'', 40000, 1), (''Hysteria2'', 40000, 2)] = (b, gs)"
    by fastforce
  with probe_budget_respected [OF r] show ?thesis by simp
qed

section \<open>Probe outcomes and suspicion\<close>

text \<open>
  Only an authenticated upload that completed or timed out is a verdict. The outcome of a probe is
  always judged without an error, and it counts as bad exactly when the endpoint was ready and the upload
  timed out or ran below the failure rate; every failure of the endpoint itself is unknown.
\<close>

theorem probe_verdict_exact:
  "conf_verdict p (measure_probe ready upload) =
     Inr (case (ready, upload) of
            (Rate _, UploadTimedOut) \<Rightarrow> Bad
          | (Rate _, Rate r) \<Rightarrow> if r \<le> 0 \<or> 10000 < r then Unknown
                             else if r < fail_mbps p then Bad
                             else if recover_mbps p \<le> r then Good else Middle
          | _ \<Rightarrow> Unknown)"
  by (auto simp: conf_verdict_def conf_valid_def measure_probe_def no_confirmation_def res_and_def
     split: probe_result.splits)

text \<open>
  Suspicion needs evidence. A node is suspected only when it is configured and either at least the
  threshold of its connections vanished and as many new ones appeared in one sample, or its upload rate
  fell below half of its failure rate in this sample after having already dropped in the previous one, with a full
  window of three earlier samples one of which was at or above it. A malformed listing suspects nobody.
\<close>

theorem suspicion_needs_evidence:
  assumes "suspicion payload now s = (s', sus)" and "node \<in> sus"
  shows "node \<in> set (nodes s) \<and> (\<exists>cs. current_of cs = the (previous s') \<and> uploads_of cs = uploads s' \<and>
     ((\<exists>f. previous s = Some f \<and> churned (threshold s) (f node) (current_of cs node)) \<or>
      (\<exists>dt limit rate. sample_dt s now = Some dt \<and> node_fail_mbps s node = Some limit \<and> rate < limit / 2 \<and>
         1 \<le> drops s node \<and> length (rates s node) = 3 \<and> limit \<le> Max (set (rates s node)) \<and>
         rates s' node = push3 (rates s node) rate)))"
proof -
  from assms obtain cs where acc: "accept_sample cs now s = (s', sus)"
    by (auto simp: suspicion_def split: pyval.splits if_splits option.splits)
  have n: "node \<in> set (nodes s)"
    using acc assms(2) by (auto simp: accept_sample_def churn_suspects_def Let_def split: option.splits)
  have cs: "current_of cs = the (previous s')" "uploads_of cs = uploads s'"
    using acc by (auto simp: accept_sample_def Let_def split: option.splits)
  consider (churn) "node \<in> churn_suspects s cs"
    | (slow) dt where "sample_dt s now = Some dt" "snd (snd (rate_step s cs dt node))" "rates s' node = fst (rate_step s cs dt node)"
    using acc assms(2) by (auto simp: accept_sample_def Let_def split: option.splits)
  then show ?thesis
  proof cases
    case churn
    with n cs show ?thesis by (auto simp: churn_suspects_def split: option.splits)
  next
    case slow
    then obtain rate where "2 \<le> (if rate_dropped (node_fail_mbps s node) (rates s node) rate then Suc (drops s node) else 0)"
      "rates s' node = push3 (rates s node) rate"
      by (auto simp: rate_step_def Let_def split: if_splits)
    with slow(1) n cs show ?thesis
      by (auto simp: rate_dropped_def split: if_splits option.splits)
  qed
qed

definition sample_listing :: "string \<Rightarrow> string \<Rightarrow> pyval" where
  "sample_listing a b = PDict [(PStr ''connections'', PList (map (\<lambda>i. PDict [(PStr ''id'', PStr i), (PStr ''chains'', PList [PStr ''Reality''])]) [a, b]))]"

definition sample_monitor :: monitor where
  "sample_monitor = (make_passive [''Reality''] 2 (\<lambda>_. None))\<lparr>previous := Some (\<lambda>_. {''a'', ''b''})\<rparr>"

lemma sample_listing_suspicion:
  "''Reality'' \<in> snd (suspicion (sample_listing ''c'' ''d'') None sample_monitor)"
proof -
  have "{''c'', ''d''} - {''a'', ''b''} = {''c'', ''d''}" "{''a'', ''b''} - {''c'', ''d''} = {''a'', ''b''}" by auto
  moreover have "current_of [(''c'', [PStr ''Reality''], None), (''d'', [PStr ''Reality''], None)] ''Reality'' = {''c'', ''d''}"
    by (auto simp: current_of_def)
  ultimately show ?thesis
    by (simp add: suspicion_def sample_listing_def sample_monitor_def make_passive_def pget_or_def read_conn_def
       own_probe_def upload_count_def py_len_def accept_sample_def sample_dt_def churn_suspects_def churned_def)
qed

theorem suspicion_needs_evidence_witness:
  "\<exists>cs. churned 2 {''a'', ''b''} (current_of cs ''Reality'')"
proof -
  obtain s' sus where s: "suspicion (sample_listing ''c'' ''d'') None sample_monitor = (s', sus)" by fastforce
  with sample_listing_suspicion have "''Reality'' \<in> sus" by simp
  from suspicion_needs_evidence [OF s this] show ?thesis
    by (auto simp: sample_monitor_def make_passive_def)
qed

end
