(* ===== verification/Auth.thy ===== *)
theory Auth
  imports PyVal "HOL-Library.Sublist"
begin

text \<open>
  Admin authentication of the web dashboard (\<open>monitor-v2/web/auth.py\<close>) and the recovery guards
  (\<open>monitor-v2/web/recovery.py\<close>): the failed-login limiter, the in-memory session store with its step-up
  windows, the credential store with its storage-first writes, and the process-wide recovery guard.

  Every operation takes the clock reading it makes as an argument. The mutexes make each operation
  atomic, so a concurrent history is a sequence of operations. Random tokens are arguments. The
  cryptographic primitives (\<open>hashlib.scrypt\<close>, \<open>hashlib.sha256\<close>, \<open>repr\<close> of a float) are parameters of
  the definitions that call them; base64 armour is transparent: a stored salt or hash is its bytes.
\<close>

section \<open>Secrets\<close>

definition MIN_PASSWORD_LENGTH :: nat where "MIN_PASSWORD_LENGTH = 8"
definition SCRYPT_N :: nat where "SCRYPT_N = 16384"
definition SCRYPT_R :: nat where "SCRYPT_R = 8"
definition SCRYPT_P :: nat where "SCRYPT_P = 1"
definition SCRYPT_DKLEN :: nat where "SCRYPT_DKLEN = 32"

type_synonym kdf = "string \<Rightarrow> string \<Rightarrow> nat \<Rightarrow> nat \<Rightarrow> nat \<Rightarrow> nat \<Rightarrow> string"

record secret_record =
  algorithm :: string
  cost_n :: nat
  cost_r :: nat
  cost_p :: nat
  salt :: string
  digest :: string

definition hash_secret :: "kdf \<Rightarrow> string \<Rightarrow> string \<Rightarrow> secret_record" where
  "hash_secret scrypt salt_bytes secret =
     \<lparr>algorithm = ''scrypt'', cost_n = SCRYPT_N, cost_r = SCRYPT_R, cost_p = SCRYPT_P, salt = salt_bytes,
      digest = scrypt secret salt_bytes SCRYPT_N SCRYPT_R SCRYPT_P SCRYPT_DKLEN\<rparr>"

text \<open>\<open>None\<close> stands for a secret or a record of the wrong type, or a record whose fields do not decode.\<close>

definition verify_secret :: "kdf \<Rightarrow> string option \<Rightarrow> secret_record option \<Rightarrow> bool" where
  "verify_secret scrypt secret stored =
     (case (secret, stored) of
        (Some s, Some r) \<Rightarrow>
          if algorithm r \<noteq> ''scrypt'' then False
          else scrypt s (salt r) (cost_n r) (cost_r r) (cost_p r) (length (digest r)) = digest r
      | _ \<Rightarrow> False)"

definition validate_password :: "string option \<Rightarrow> string res" where
  "validate_password password =
     (case password of
        Some s \<Rightarrow> if py_len s < MIN_PASSWORD_LENGTH
                  then Inl (ValueError ''password must be a string of at least 8 characters'') else Inr s
      | None \<Rightarrow> Inl (ValueError ''password must be a string of at least 8 characters''))"

definition stepup_fingerprint :: "(string \<Rightarrow> string) \<Rightarrow> (rat \<Rightarrow> string) \<Rightarrow> string \<Rightarrow> rat \<Rightarrow> string" where
  "stepup_fingerprint sha256_hex repr token granted_at = take 16 (sha256_hex (token @ '':'' @ repr granted_at))"

section \<open>The failed-login limiter\<close>

definition LOGIN_MAX_FAILURES :: nat where "LOGIN_MAX_FAILURES = 5"
definition LOGIN_WINDOW_SECONDS :: rat where "LOGIN_WINDOW_SECONDS = 900"
definition LOGIN_LOCKOUT_SECONDS :: rat where "LOGIN_LOCKOUT_SECONDS = 900"
definition RECOVERY_MAX_FAILURES :: nat where "RECOVERY_MAX_FAILURES = 3"
definition RECOVERY_WINDOW_SECONDS :: rat where "RECOVERY_WINDOW_SECONDS = 900"
definition RECOVERY_LOCKOUT_SECONDS :: rat where "RECOVERY_LOCKOUT_SECONDS = 1800"

record limiter =
  max_failures :: nat
  window_seconds :: rat
  lockout_seconds :: rat
  failures :: "(string, rat list) dict"
  locked_until :: "(string, rat) dict"

definition make_limiter :: "nat \<Rightarrow> rat \<Rightarrow> rat \<Rightarrow> limiter" where
  "make_limiter m w l = \<lparr>max_failures = m, window_seconds = w, lockout_seconds = l, failures = [], locked_until = []\<rparr>"

definition login_limiter :: limiter where
  "login_limiter = make_limiter LOGIN_MAX_FAILURES LOGIN_WINDOW_SECONDS LOGIN_LOCKOUT_SECONDS"

definition recovery_limiter :: limiter where
  "recovery_limiter = make_limiter RECOVERY_MAX_FAILURES RECOVERY_WINDOW_SECONDS RECOVERY_LOCKOUT_SECONDS"

definition check :: "string \<Rightarrow> rat \<Rightarrow> limiter \<Rightarrow> limiter \<times> bool \<times> int" where
  "check ip now s =
     (case dict_get (locked_until s) ip of
        Some until \<Rightarrow>
          if now < until then (s, False, round_half_even (until - now))
          else (s\<lparr>locked_until := dict_del ip (locked_until s), failures := dict_del ip (failures s)\<rparr>, True, 0)
      | None \<Rightarrow> (s, True, 0))"

definition failures_of :: "limiter \<Rightarrow> string \<Rightarrow> rat list" where
  "failures_of s ip = (case dict_get (failures s) ip of None \<Rightarrow> [] | Some ts \<Rightarrow> ts)"

definition record_failure :: "string \<Rightarrow> rat \<Rightarrow> limiter \<Rightarrow> limiter" where
  "record_failure ip now s =
     (let recent = filter (\<lambda>t. now - window_seconds s < t) (failures_of s ip) @ [now];
          s1 = s\<lparr>failures := dict_set ip recent (failures s)\<rparr>
      in if max_failures s \<le> length recent
         then s1\<lparr>locked_until := dict_set ip (now + lockout_seconds s) (locked_until s1)\<rparr> else s1)"

definition record_success :: "string \<Rightarrow> limiter \<Rightarrow> limiter" where
  "record_success ip s =
     s\<lparr>failures := dict_del ip (failures s), locked_until := dict_del ip (locked_until s)\<rparr>"

section \<open>Sessions\<close>

definition DEFAULT_SESSION_TTL :: rat where "DEFAULT_SESSION_TTL = 8 * 3600"
definition DEFAULT_IDLE_TTL :: rat where "DEFAULT_IDLE_TTL = 15 * 60"
definition DEFAULT_STEP_UP_TTL :: rat where "DEFAULT_STEP_UP_TTL = 300"

record session =
  created :: rat
  expires :: rat
  idle_expires :: rat
  csrf_token :: string
  step_up_expires :: "rat option"
  step_up_granted_at :: "rat option"
  stepup_fp :: "string option"

record session_store =
  ttl :: rat
  idle_ttl :: rat
  step_up_ttl :: rat
  sessions :: "(string, session) dict"

definition make_store :: session_store where
  "make_store = \<lparr>ttl = DEFAULT_SESSION_TTL, idle_ttl = DEFAULT_IDLE_TTL, step_up_ttl = DEFAULT_STEP_UP_TTL, sessions = []\<rparr>"

definition expired :: "session \<Rightarrow> rat \<Rightarrow> bool" where
  "expired r now \<longleftrightarrow> min (expires r) (idle_expires r) \<le> now"

definition create :: "(string \<Rightarrow> rat \<Rightarrow> string) \<Rightarrow> bool \<Rightarrow> string \<Rightarrow> string \<Rightarrow> rat \<Rightarrow> session_store \<Rightarrow> session_store" where
  "create fp password_verified token csrf now s =
     (let r = \<lparr>created = now, expires = now + ttl s, idle_expires = min (now + idle_ttl s) (now + ttl s),
               csrf_token = csrf,
               step_up_expires = (if password_verified then Some (now + ttl s) else None),
               step_up_granted_at = (if password_verified then Some now else None),
               stepup_fp = (if password_verified then Some (fp token now) else None)\<rparr>
      in s\<lparr>sessions := dict_set token r (sessions s)\<rparr>)"

definition resolve :: "string \<Rightarrow> rat \<Rightarrow> session_store \<Rightarrow> session_store \<times> session option" where
  "resolve token now s =
     (case dict_get (sessions s) token of
        None \<Rightarrow> (s, None)
      | Some r \<Rightarrow> if expired r now then (s\<lparr>sessions := dict_del token (sessions s)\<rparr>, None) else (s, Some r))"

definition activity :: "string \<Rightarrow> rat \<Rightarrow> session_store \<Rightarrow> session_store \<times> rat option" where
  "activity token now s =
     (case dict_get (sessions s) token of
        None \<Rightarrow> (s, None)
      | Some r \<Rightarrow>
          if expired r now then (s\<lparr>sessions := dict_del token (sessions s)\<rparr>, None)
          else (let idle = min (now + idle_ttl s) (expires r)
                in (s\<lparr>sessions := dict_set token (r\<lparr>idle_expires := idle\<rparr>) (sessions s)\<rparr>, Some (max 0 (idle - now)))))"

definition remaining :: "string \<Rightarrow> rat \<Rightarrow> session_store \<Rightarrow> rat" where
  "remaining token now s =
     (case dict_get (sessions s) token of
        None \<Rightarrow> 0
      | Some r \<Rightarrow> if expired r now then 0 else min (expires r) (idle_expires r) - now)"

definition drop_session :: "string \<Rightarrow> session_store \<Rightarrow> session_store" where
  "drop_session token s = s\<lparr>sessions := dict_del token (sessions s)\<rparr>"

definition drop_all :: "string option \<Rightarrow> session_store \<Rightarrow> session_store" where
  "drop_all except_token s = s\<lparr>sessions := filter (\<lambda>(t, _). Some t = except_token) (sessions s)\<rparr>"

definition grant_step_up :: "(string \<Rightarrow> rat \<Rightarrow> string) \<Rightarrow> string \<Rightarrow> rat option \<Rightarrow> rat \<Rightarrow> session_store
    \<Rightarrow> session_store \<times> rat option" where
  "grant_step_up fp token window now s =
     (let w = (case window of None \<Rightarrow> step_up_ttl s | Some x \<Rightarrow> x)
      in case dict_get (sessions s) token of
           None \<Rightarrow> (s, None)
         | Some r \<Rightarrow>
             if expired r now then (s, None)
             else (let e = min (now + w) (expires r)
                   in (s\<lparr>sessions := dict_set token
                          (r\<lparr>step_up_expires := Some e, step_up_granted_at := Some now, stepup_fp := Some (fp token now)\<rparr>)
                          (sessions s)\<rparr>, Some e)))"

definition step_up_active :: "string \<Rightarrow> rat \<Rightarrow> session_store \<Rightarrow> bool" where
  "step_up_active token now s =
     (case dict_get (sessions s) token of
        None \<Rightarrow> False
      | Some r \<Rightarrow> \<not> expired r now \<and> (case step_up_expires r of None \<Rightarrow> False | Some e \<Rightarrow> now < e))"

definition step_up_credentials :: "string \<Rightarrow> rat \<Rightarrow> session_store \<Rightarrow> bool \<times> string option" where
  "step_up_credentials token now s =
     (case dict_get (sessions s) token of
        None \<Rightarrow> (False, None)
      | Some r \<Rightarrow>
          if expired r now then (False, None)
          else (case step_up_expires r of
                  None \<Rightarrow> (False, None)
                | Some e \<Rightarrow> if e \<le> now then (False, None) else (True, stepup_fp r)))"

definition revoke_all_step_ups :: "session_store \<Rightarrow> session_store" where
  "revoke_all_step_ups s =
     s\<lparr>sessions := map (\<lambda>(t, r). (t, r\<lparr>step_up_expires := None, step_up_granted_at := None, stepup_fp := None\<rparr>)) (sessions s)\<rparr>"

section \<open>The credential store\<close>

text \<open>
  \<open>auth.json\<close> as the two records it holds (\<open>None\<close>: absent or without a hash). A write either happens
  completely or raises and leaves the file as it was (\<open>atomic_write_json\<close>).
\<close>

record payload =
  pl_password :: "secret_record option"
  pl_recovery :: "secret_record option"

record auth_store =
  auth_sessions :: session_store
  auth_limiter :: limiter
  auth_password :: "secret_record option"
  auth_recovery :: "secret_record option"
  disk :: "payload option"

definition usable_record :: "secret_record option \<Rightarrow> secret_record option" where
  "usable_record r = (case r of None \<Rightarrow> None | Some x \<Rightarrow> if digest x = [] then None else Some x)"

definition load :: "auth_store \<Rightarrow> auth_store" where
  "load a =
     (case disk a of
        None \<Rightarrow> a
      | Some d \<Rightarrow>
          (let a1 = (case usable_record (pl_password d) of None \<Rightarrow> a | Some p \<Rightarrow> a\<lparr>auth_password := Some p\<rparr>)
           in case usable_record (pl_recovery d) of None \<Rightarrow> a1 | Some r \<Rightarrow> a1\<lparr>auth_recovery := Some r\<rparr>))"

definition start_auth :: "payload option \<Rightarrow> auth_store" where
  "start_auth d = load \<lparr>auth_sessions = make_store, auth_limiter = login_limiter, auth_password = None,
     auth_recovery = None, disk = d\<rparr>"

definition make_payload :: "secret_record option \<Rightarrow> secret_record option \<Rightarrow> auth_store \<Rightarrow> payload" where
  "make_payload password recovery a =
     \<lparr>pl_password = (case password of None \<Rightarrow> auth_password a | Some p \<Rightarrow> Some p),
      pl_recovery = (case recovery of None \<Rightarrow> auth_recovery a | Some r \<Rightarrow> Some r)\<rparr>"

definition verify_password :: "kdf \<Rightarrow> string option \<Rightarrow> auth_store \<Rightarrow> bool" where
  "verify_password scrypt password a = verify_secret scrypt password (auth_password a)"

definition login :: "kdf \<Rightarrow> (string \<Rightarrow> rat \<Rightarrow> string) \<Rightarrow> string option \<Rightarrow> string \<Rightarrow> string \<Rightarrow> rat \<Rightarrow> auth_store
    \<Rightarrow> auth_store \<times> string option" where
  "login scrypt fp password token csrf now a =
     (if auth_password a = None \<or> \<not> verify_secret scrypt password (auth_password a) then (a, None)
      else (a\<lparr>auth_sessions := create fp True token csrf now (auth_sessions a)\<rparr>, Some token))"

definition set_password :: "kdf \<Rightarrow> string \<Rightarrow> unit res \<Rightarrow> string option \<Rightarrow> auth_store \<Rightarrow> auth_store \<times> unit res" where
  "set_password scrypt salt_bytes write password a =
     (case validate_password password of
        Inl e \<Rightarrow> (a, Inl e)
      | Inr s \<Rightarrow>
          (let r = hash_secret scrypt salt_bytes s
           in case write of
                Inl e \<Rightarrow> (a, Inl e)
              | Inr _ \<Rightarrow> (a\<lparr>disk := Some (make_payload (Some r) None a), auth_password := Some r,
                          auth_sessions := drop_all None (auth_sessions a)\<rparr>, Inr ())))"

definition set_recovery_key :: "kdf \<Rightarrow> string \<Rightarrow> unit res \<Rightarrow> string \<Rightarrow> auth_store \<Rightarrow> auth_store \<times> unit res" where
  "set_recovery_key scrypt salt_bytes write key a =
     (let r = hash_secret scrypt salt_bytes key
      in case write of
           Inl e \<Rightarrow> (a, Inl e)
         | Inr _ \<Rightarrow> (a\<lparr>disk := Some (make_payload None (Some r) a), auth_recovery := Some r,
                     auth_sessions := drop_all None (auth_sessions a)\<rparr>, Inr ()))"

definition verify_recovery_key :: "kdf \<Rightarrow> string option \<Rightarrow> auth_store \<Rightarrow> bool" where
  "verify_recovery_key scrypt key a = verify_secret scrypt key (auth_recovery a)"

section \<open>The recovery guard\<close>

definition RECOVERY_GLOBAL_CONCURRENCY :: nat where "RECOVERY_GLOBAL_CONCURRENCY = 2"
definition RECOVERY_GLOBAL_WINDOW_SECONDS :: rat where "RECOVERY_GLOBAL_WINDOW_SECONDS = 60"
definition RECOVERY_GLOBAL_MAX_ATTEMPTS :: nat where "RECOVERY_GLOBAL_MAX_ATTEMPTS = 20"

record guard =
  max_concurrent :: nat
  guard_window :: rat
  max_attempts :: nat
  held :: nat
  attempts :: "rat list"

definition make_guard :: guard where
  "make_guard = \<lparr>max_concurrent = RECOVERY_GLOBAL_CONCURRENCY, guard_window = RECOVERY_GLOBAL_WINDOW_SECONDS,
     max_attempts = RECOVERY_GLOBAL_MAX_ATTEMPTS, held = 0, attempts = []\<rparr>"

definition try_acquire :: "rat \<Rightarrow> guard \<Rightarrow> guard \<times> bool \<times> int" where
  "try_acquire now g =
     (let g1 = g\<lparr>attempts := filter (\<lambda>t. now - guard_window g < t) (attempts g)\<rparr>
      in if max_attempts g1 \<le> length (attempts g1)
         then (g1, False, max (py_int (hd (attempts g1) + guard_window g1 - now) + 1) 1)
         else (let g2 = g1\<lparr>attempts := attempts g1 @ [now]\<rparr>
               in if held g2 < max_concurrent g2 then (g2\<lparr>held := Suc (held g2)\<rparr>, True, 0)
                  else (g2, False, 2)))"

text \<open>A \<open>BoundedSemaphore\<close> released more often than acquired raises.\<close>

definition release :: "guard \<Rightarrow> guard res" where
  "release g = (if held g = 0 then Inl (ValueError ''Semaphore released too many times'')
                else Inr (g\<lparr>held := held g - 1\<rparr>))"

section \<open>The limiter bounds guessing\<close>

text \<open>
  One failed attempt as the login and recovery handlers make it: the check, then, when it is allowed, the
  recorded failure, at two clock readings. The log keeps the failures that got through.
\<close>

definition failed_attempt :: "limiter \<times> (string \<times> rat) list \<Rightarrow> string \<times> rat \<times> rat \<Rightarrow> limiter \<times> (string \<times> rat) list" where
  "failed_attempt sl a =
     (case (sl, a) of ((s, lg), (ip, tc, tr)) \<Rightarrow>
        (case check ip tc s of
           (s1, True, _) \<Rightarrow> (record_failure ip tr s1, lg @ [(ip, tr)])
         | (s1, False, _) \<Rightarrow> (s1, lg)))"

definition times_of :: "string \<Rightarrow> (string \<times> rat) list \<Rightarrow> rat list" where
  "times_of ip lg = map snd (filter (\<lambda>x. fst x = ip) lg)"

definition spaced :: "nat \<Rightarrow> rat \<Rightarrow> rat list \<Rightarrow> bool" where
  "spaced m d ts \<longleftrightarrow> (\<forall>i. i + m < length ts \<longrightarrow> ts ! i + d \<le> ts ! (i + m))"

lemma spaced_snoc:
  assumes "spaced m d ts" and "m \<le> length ts \<Longrightarrow> ts ! (length ts - m) + d \<le> t" and "0 < m"
  shows "spaced m d (ts @ [t])"
  unfolding spaced_def
proof (intro allI impI)
  fix i
  assume i: "i + m < length (ts @ [t])"
  show "(ts @ [t]) ! i + d \<le> (ts @ [t]) ! (i + m)"
  proof (cases "i + m < length ts")
    case True
    with assms(1) show ?thesis by (simp add: spaced_def nth_append)
  next
    case False
    with i have "i + m = length ts" by simp
    moreover from this assms(3) have "i < length ts" "i = length ts - m" by auto
    ultimately show ?thesis using assms(2) by (simp add: nth_append)
  qed
qed

lemma filter_sorted_suffix:
  "sorted ts \<Longrightarrow> \<exists>P. ts = P @ filter (\<lambda>t. b < t) ts \<and> (\<forall>p \<in> set P. p \<le> (b::rat))"
proof (induction ts)
  case Nil
  then show ?case by simp
next
  case (Cons t ts)
  then obtain P where P: "ts = P @ filter (\<lambda>t. b < t) ts" "\<forall>p \<in> set P. p \<le> b" by auto
  show ?case
  proof (cases "b < t")
    case True
    with Cons.prems have "filter (\<lambda>t. b < t) ts = ts" by (force simp: filter_id_conv)
    with True show ?thesis by (intro exI [of _ "[]"]) simp
  next
    case False
    with P show ?thesis by (intro exI [of _ "t # P"]) auto
  qed
qed

locale sliding_lockout =
  fixes m :: nat and w l :: rat
  assumes m_pos: "0 < m"
begin

definition lim_inv :: "string \<Rightarrow> rat \<Rightarrow> limiter \<times> (string \<times> rat) list \<Rightarrow> bool" where
  "lim_inv ip now sl \<longleftrightarrow> (case sl of (s, lg) \<Rightarrow>
     max_failures s = m \<and> window_seconds s = w \<and> lockout_seconds s = l \<and>
     sorted (times_of ip lg) \<and> (\<forall>t \<in> set (times_of ip lg). t \<le> now) \<and>
     (\<exists>P. times_of ip lg = P @ failures_of s ip \<and> (\<forall>p \<in> set P. p + min w l \<le> now)) \<and>
     (case dict_get (locked_until s) ip of None \<Rightarrow> length (failures_of s ip) < m
      | Some u \<Rightarrow> \<forall>t \<in> set (failures_of s ip). t + l \<le> u) \<and>
     spaced m (min w l) (times_of ip lg))"

lemma lim_inv_record:
  assumes "lim_inv ip now (s, lg)" "dict_get (locked_until s) ip = None" "now \<le> t"
  shows "lim_inv ip t (record_failure ip t s, lg @ [(ip, t)])"
proof -
  let ?F = "failures_of s ip" and ?T = "times_of ip lg"
  from assms(1,2) obtain P where inv: "max_failures s = m" "window_seconds s = w" "lockout_seconds s = l"
    "sorted ?T" "\<forall>t \<in> set ?T. t \<le> now" "?T = P @ ?F" "\<forall>p \<in> set P. p + min w l \<le> now"
    "length ?F < m" "spaced m (min w l) ?T"
    by (auto simp: lim_inv_def)
  from inv(4,6) have "sorted ?F" by (simp add: sorted_append)
  from filter_sorted_suffix [OF this, of "t - w"] obtain Q where
    Q: "?F = Q @ filter (\<lambda>x. t - w < x) ?F" "\<forall>p \<in> set Q. p \<le> t - w" by auto
  let ?R = "filter (\<lambda>x. t - w < x) ?F @ [t]"
  have F: "failures_of (record_failure ip t s) ip = ?R"
    by (simp add: record_failure_def failures_of_def Let_def inv)
  have T: "times_of ip (lg @ [(ip, t)]) = ?T @ [t]" by (simp add: times_of_def)
  have old: "?T ! (length ?T - m) + min w l \<le> t" if "m \<le> length ?T"
  proof -
    have "length ?T - m < length P" using inv(8) that arg_cong [OF inv(6), of length] by simp
    then have "?T ! (length ?T - m) \<in> set P" by (metis inv(6) nth_append nth_mem)
    with inv(7) assms(3) show ?thesis by fastforce
  qed
  have "\<exists>P'. ?T @ [t] = P' @ ?R \<and> (\<forall>p \<in> set P'. p + min w l \<le> t)"
    using Q inv(6,7) assms(3) by (intro exI [of _ "P @ Q"]) fastforce
  moreover have "spaced m (min w l) (?T @ [t])" by (rule spaced_snoc [OF inv(9) old m_pos])
  moreover have "sorted (?T @ [t])" "\<forall>x \<in> set (?T @ [t]). x \<le> t"
    using inv(4,5) assms(3) by (auto simp: sorted_append)
  moreover have "\<forall>x \<in> set ?R. x \<le> t"
  proof
    fix x
    assume "x \<in> set ?R"
    then have "x = t \<or> x \<in> set ?T" using inv(6) by auto
    with inv(5) assms(3) show "x \<le> t" by fastforce
  qed
  ultimately show ?thesis
    unfolding lim_inv_def prod.case F T
    using assms(2) inv(1-3)
    by (auto simp: record_failure_def Let_def)
qed

lemma lim_inv_step:
  assumes "lim_inv ip now sl" "now \<le> tc" "tc \<le> tr"
  shows "lim_inv ip tr (failed_attempt sl (jp, tc, tr))"
proof -
  obtain s lg where sl: "sl = (s, lg)" by (cases sl)
  note inv = assms(1) [unfolded sl]
  have later: "lim_inv ip tr (s, lg)" using inv assms(2,3) by (fastforce simp: lim_inv_def)
  show ?thesis
  proof (cases "jp = ip")
    case False
    have same: "failures_of s' ip = failures_of s ip" "dict_get (locked_until s') ip = dict_get (locked_until s) ip"
      "max_failures s' = max_failures s" "window_seconds s' = window_seconds s" "lockout_seconds s' = lockout_seconds s"
      "times_of ip lg' = times_of ip lg" if "failed_attempt (s, lg) (jp, tc, tr) = (s', lg')" for s' lg'
      using that False
      by (auto simp: failed_attempt_def check_def record_failure_def failures_of_def times_of_def Let_def
          split: option.splits if_splits)
    obtain s' lg' where f: "failed_attempt (s, lg) (jp, tc, tr) = (s', lg')" by fastforce
    show ?thesis using later unfolding sl f lim_inv_def prod.case same [OF f] .
  next
    case True
    show ?thesis
    proof (cases "dict_get (locked_until s) ip")
      case None
      have "lim_inv ip tr (record_failure ip tr s, lg @ [(ip, tr)])"
        by (rule lim_inv_record [OF inv None]) (use assms(2,3) in simp)
      with None True show ?thesis by (simp add: sl failed_attempt_def check_def)
    next
      case (Some u)
      show ?thesis
      proof (cases "tc < u")
        case True
        with later Some \<open>jp = ip\<close> show ?thesis by (simp add: sl failed_attempt_def check_def)
      next
        case False
        let ?s = "s\<lparr>locked_until := dict_del ip (locked_until s), failures := dict_del ip (failures s)\<rparr>"
        have none: "dict_get (locked_until ?s) ip = None" by simp
        have "\<forall>t \<in> set (times_of ip lg). t + min w l \<le> tc"
          using inv Some False assms(2) by (fastforce simp: lim_inv_def)
        then have "lim_inv ip tc (?s, lg)"
          using inv assms(2) m_pos by (fastforce simp: lim_inv_def failures_of_def)
        from lim_inv_record [OF this none assms(3)] Some False \<open>jp = ip\<close> show ?thesis
          by (simp add: sl failed_attempt_def check_def)
      qed
    qed
  qed
qed

lemma lim_inv_run:
  "lim_inv ip now sl \<Longrightarrow> sorted (now # concat (map (\<lambda>(_, tc, tr). [tc, tr]) as)) \<Longrightarrow>
     \<exists>t. lim_inv ip t (foldl failed_attempt sl as)"
proof (induction as arbitrary: now sl)
  case Nil
  then show ?case by auto
next
  case (Cons a as)
  obtain jp tc tr where a: "a = (jp, tc, tr)" by (cases a)
  with Cons.prems have "lim_inv ip tr (failed_attempt sl a)" by (auto intro: lim_inv_step)
  with Cons.IH [of tr "failed_attempt sl a"] Cons.prems a show ?case by auto
qed

lemma guesses_spaced:
  assumes "sorted (concat (map (\<lambda>(_, tc, tr). [tc, tr]) as))"
  shows "spaced m (min w l) (times_of ip (snd (foldl failed_attempt (make_limiter m w l, []) as)))"
proof -
  have "lim_inv ip (hd (concat (map (\<lambda>(_, tc, tr). [tc, tr]) as))) (make_limiter m w l, [])"
    using m_pos by (simp add: lim_inv_def make_limiter_def times_of_def failures_of_def spaced_def)
  moreover have "sorted (hd (concat (map (\<lambda>(_, tc, tr). [tc, tr]) as)) # concat (map (\<lambda>(_, tc, tr). [tc, tr]) as))"
    using assms by (cases as) (auto simp: sorted_append)
  ultimately obtain t where "lim_inv ip t (foldl failed_attempt (make_limiter m w l, []) as)"
    using lim_inv_run by blast
  then show ?thesis by (auto simp: lim_inv_def)
qed

end

interpretation login_lock: sliding_lockout LOGIN_MAX_FAILURES LOGIN_WINDOW_SECONDS LOGIN_LOCKOUT_SECONDS
  by unfold_locales (simp add: LOGIN_MAX_FAILURES_def)

interpretation recovery_lock: sliding_lockout RECOVERY_MAX_FAILURES RECOVERY_WINDOW_SECONDS RECOVERY_LOCKOUT_SECONDS
  by unfold_locales (simp add: RECOVERY_MAX_FAILURES_def)



section \<open>Session histories\<close>

datatype session_op =
    Create bool string string
  | Resolve string
  | Activity string
  | Drop string
  | DropAll "string option"
  | GrantStepUp string "rat option"
  | RevokeAll

fun session_step :: "(string \<Rightarrow> rat \<Rightarrow> string) \<Rightarrow> session_store \<Rightarrow> rat \<times> session_op \<Rightarrow> session_store" where
  "session_step fp s (now, Create v token csrf) = create fp v token csrf now s"
| "session_step fp s (now, Resolve token) = fst (resolve token now s)"
| "session_step fp s (now, Activity token) = fst (activity token now s)"
| "session_step fp s (now, Drop token) = drop_session token s"
| "session_step fp s (now, DropAll keep) = drop_all keep s"
| "session_step fp s (now, GrantStepUp token w) = fst (grant_step_up fp token w now s)"
| "session_step fp s (now, RevokeAll) = revoke_all_step_ups s"

definition step_up_ok :: "(string \<Rightarrow> rat \<Rightarrow> string) \<Rightarrow> string \<Rightarrow> session \<Rightarrow> bool" where
  "step_up_ok fp token r \<longleftrightarrow>
     (case step_up_expires r of
        None \<Rightarrow> step_up_granted_at r = None \<and> stepup_fp r = None
      | Some e \<Rightarrow> e \<le> expires r \<and> (\<exists>g. step_up_granted_at r = Some g \<and> stepup_fp r = Some (fp token g)))"

definition session_ok :: "(string \<Rightarrow> rat \<Rightarrow> string) \<Rightarrow> rat \<Rightarrow> string \<Rightarrow> session \<Rightarrow> bool" where
  "session_ok fp lifetime token r \<longleftrightarrow>
     expires r = created r + lifetime \<and> idle_expires r \<le> expires r \<and> step_up_ok fp token r"

definition store_ok :: "(string \<Rightarrow> rat \<Rightarrow> string) \<Rightarrow> session_store \<Rightarrow> bool" where
  "store_ok fp s \<longleftrightarrow> (\<forall>token r. dict_get (sessions s) token = Some r \<longrightarrow> session_ok fp (ttl s) token r)"

lemma dict_get_filter_key:
  "dict_get (filter (\<lambda>(t, _). P t) d) k = (if P k then dict_get d k else None)"
  by (induction d) auto

lemma dict_get_map_value: "dict_get (map (\<lambda>(t, r). (t, f r)) d) k = map_option f (dict_get d k)"
  by (induction d) auto

lemma session_step_ttl [simp]:
  "ttl (session_step fp s (now, op)) = ttl s" "idle_ttl (session_step fp s (now, op)) = idle_ttl s"
  by (cases op; simp add: create_def resolve_def activity_def drop_session_def drop_all_def grant_step_up_def
      revoke_all_step_ups_def Let_def split: option.splits)+

text \<open>What one operation can leave of the session of a token.\<close>

lemma session_step_get:
  assumes "dict_get (sessions (session_step fp s (now, op))) token = Some r'"
  obtains
    (same) r where "dict_get (sessions s) token = Some r" "r' = r"
  | (created) v csrf where "op = Create v token csrf"
      "r' = \<lparr>created = now, expires = now + ttl s, idle_expires = min (now + idle_ttl s) (now + ttl s), csrf_token = csrf,
             step_up_expires = (if v then Some (now + ttl s) else None),
             step_up_granted_at = (if v then Some now else None), stepup_fp = (if v then Some (fp token now) else None)\<rparr>"
  | (active) r where "op = Activity token" "dict_get (sessions s) token = Some r" "\<not> expired r now"
      "r' = r\<lparr>idle_expires := min (now + idle_ttl s) (expires r)\<rparr>"
  | (granted) r e where "dict_get (sessions s) token = Some r" "\<not> expired r now" "e \<le> expires r"
      "r' = r\<lparr>step_up_expires := Some e, step_up_granted_at := Some now, stepup_fp := Some (fp token now)\<rparr>"
  | (revoked) r where "dict_get (sessions s) token = Some r"
      "r' = r\<lparr>step_up_expires := None, step_up_granted_at := None, stepup_fp := None\<rparr>"
proof (cases op)
  case (Create v t csrf)
  with assms show thesis
    by (cases "t = token") (auto simp: create_def Let_def intro: same created)
next
  case (Resolve t)
  with assms show thesis
    by (auto simp: resolve_def intro: same split: option.splits if_splits)
next
  case (Activity t)
  with assms show thesis
    by (auto simp: activity_def Let_def intro: same active split: option.splits if_splits)
next
  case (Drop t)
  with assms show thesis by (auto simp: drop_session_def intro: same split: if_splits)
next
  case (DropAll k)
  with assms show thesis by (auto simp: drop_all_def dict_get_filter_key intro: same split: if_splits)
next
  case (GrantStepUp t w)
  with assms show thesis
    by (auto simp: grant_step_up_def Let_def intro: same granted [OF _ _ min.cobounded2] split: option.splits if_splits)
next
  case RevokeAll
  with assms show thesis
    by (auto simp: revoke_all_step_ups_def dict_get_map_value intro: revoked)
qed

lemma session_step_ok:
  assumes "store_ok fp s"
  shows "store_ok fp (session_step fp s (now, op))"
  unfolding store_ok_def
proof (intro allI impI)
  fix token r'
  assume r': "dict_get (sessions (session_step fp s (now, op))) token = Some r'"
  have ok: "dict_get (sessions s) token = Some r \<Longrightarrow> session_ok fp (ttl s) token r" for r
    using assms by (simp add: store_ok_def)
  show "session_ok fp (ttl (session_step fp s (now, op))) token r'"
    unfolding session_step_ttl(1) using r'
    by (rule session_step_get) (auto dest!: ok simp: session_ok_def step_up_ok_def split: option.splits)
qed

interpretation sessions_safe: machine "session_step fp" "store_ok fp" "\<lambda>_ _. True" for fp
  by unfold_locales (metis prod.collapse session_step_ok)

lemma session_run_ok: "store_ok fp (foldl (session_step fp) make_store ops)"
  by (rule sessions_safe.run_inv [OF _ run_ok_all]) (simp_all add: store_ok_def make_store_def)

lemma session_run_ttl:
  "ttl (foldl (session_step fp) s ops) = ttl s \<and> idle_ttl (foldl (session_step fp) s ops) = idle_ttl s"
  by (induction ops arbitrary: s) (auto simp: split_paired_all)

section \<open>Deadlines\<close>

definition alive_at :: "session_store \<Rightarrow> string \<Rightarrow> rat \<Rightarrow> bool" where
  "alive_at s token t \<longleftrightarrow> (\<exists>r. dict_get (sessions s) token = Some r \<and> \<not> expired r t)"

lemma alive_at_observed:
  "snd (resolve token t s) \<noteq> None \<longleftrightarrow> alive_at s token t"
  "snd (activity token t s) \<noteq> None \<longleftrightarrow> alive_at s token t"
  "snd (grant_step_up fp token w t s) \<noteq> None \<longleftrightarrow> alive_at s token t"
  "step_up_active token t s \<Longrightarrow> alive_at s token t"
  by (auto simp: alive_at_def resolve_def activity_def grant_step_up_def step_up_active_def Let_def split: option.splits)

definition creates :: "string \<Rightarrow> rat \<times> session_op \<Rightarrow> bool" where
  "creates token o1 \<longleftrightarrow> (\<exists>v csrf. snd o1 = Create v token csrf)"

definition renewed_at :: "string \<Rightarrow> (rat \<times> session_op) list \<Rightarrow> rat set" where
  "renewed_at token ops = {u. (u, Activity token) \<in> set ops}"

lemma session_deadlines:
  assumes "dict_get (sessions (foldl (session_step fp) s ops)) token = Some r'" "\<forall>o1 \<in> set ops. \<not> creates token o1"
  shows "\<exists>r. dict_get (sessions s) token = Some r \<and> created r' = created r \<and> expires r' = expires r \<and>
     (idle_expires r' = idle_expires r \<or> (\<exists>u \<in> renewed_at token ops. idle_expires r' \<le> u + idle_ttl s))"
  using assms
proof (induction ops arbitrary: r' rule: rev_induct)
  case Nil
  then show ?case by auto
next
  case (snoc o1 ops)
  obtain now op where o1: "o1 = (now, op)" by (cases o1)
  let ?s = "foldl (session_step fp) s ops"
  have mono: "renewed_at token ops \<subseteq> renewed_at token (ops @ [o1])" by (auto simp: renewed_at_def)
  have IH: "dict_get (sessions ?s) token = Some r \<Longrightarrow> \<exists>r0. dict_get (sessions s) token = Some r0 \<and> created r = created r0
      \<and> expires r = expires r0 \<and>
      (idle_expires r = idle_expires r0 \<or> (\<exists>u \<in> renewed_at token (ops @ [o1]). idle_expires r \<le> u + idle_ttl s))" for r
    using snoc.IH [of r] snoc.prems(2) mono by fastforce
  have get: "dict_get (sessions (session_step fp ?s (now, op))) token = Some r'"
    using snoc.prems(1) o1 by simp
  show ?case
    using get
  proof (rule session_step_get)
    fix v csrf
    assume "op = Create v token csrf"
    with snoc.prems(2) o1 show ?thesis by (auto simp: creates_def)
  next
    fix r
    assume a: "op = Activity token" "dict_get (sessions ?s) token = Some r"
      "r' = r\<lparr>idle_expires := min (now + idle_ttl ?s) (expires r)\<rparr>"
    have "now \<in> renewed_at token (ops @ [o1])" "idle_expires r' \<le> now + idle_ttl s"
      using a o1 session_run_ttl [of fp s ops] by (auto simp: renewed_at_def)
    with IH [OF a(2)] a(3) show ?thesis by auto
  qed (use IH in auto)
qed


definition sample_store :: session_store where
  "sample_store = create (\<lambda>tok t. tok) True ''tok'' ''csrf'' 0 make_store"


text \<open>
  In every reachable store the ceiling of a session is its login time plus the lifetime, its idle
  deadline and its step-up window never pass that ceiling, and the audit fingerprint is present exactly
  while a step-up is recorded and is the one of its grant. Hence a step-up is reported active, with its
  fingerprint, only on a live session, and after a revocation, or once everything is dropped, on none.
\<close>

theorem step_up_bound_to_session:
  assumes "s = foldl (session_step fp) make_store ops"
  shows "store_ok fp s \<and>
    (step_up_active token t s \<longleftrightarrow> fst (step_up_credentials token t s)) \<and>
    (step_up_active token t s \<longrightarrow> snd (resolve token t s) \<noteq> None \<and> (\<exists>g. snd (step_up_credentials token t s) = Some (fp token g))) \<and>
    (\<not> step_up_active token t s \<longrightarrow> snd (step_up_credentials token t s) = None) \<and>
    \<not> step_up_active token t (revoke_all_step_ups s) \<and> snd (resolve token t (drop_all None s)) = None"
proof (intro conjI)
  show ok: "store_ok fp s" unfolding assms by (rule session_run_ok)
  show "step_up_active token t s \<longleftrightarrow> fst (step_up_credentials token t s)"
    by (auto simp: step_up_active_def step_up_credentials_def split: option.splits)
  have fp: "dict_get (sessions s) token = Some r \<Longrightarrow> step_up_expires r = Some e \<Longrightarrow> \<exists>g. stepup_fp r = Some (fp token g)" for r e
    using ok by (fastforce simp: store_ok_def session_ok_def step_up_ok_def)
  show "step_up_active token t s \<longrightarrow> snd (resolve token t s) \<noteq> None \<and> (\<exists>g. snd (step_up_credentials token t s) = Some (fp token g))"
    by (auto simp: step_up_active_def step_up_credentials_def resolve_def dest: fp split: option.splits)
  show "\<not> step_up_active token t s \<longrightarrow> snd (step_up_credentials token t s) = None"
    by (auto simp: step_up_active_def step_up_credentials_def split: option.splits)
  show "\<not> step_up_active token t (revoke_all_step_ups s)"
    by (auto simp: step_up_active_def revoke_all_step_ups_def dict_get_map_value split: option.splits)
  show "snd (resolve token t (drop_all None s)) = None"
    by (simp add: resolve_def drop_all_def dict_get_filter_key)
qed

theorem step_up_bound_to_session_witness:
  "snd (resolve ''tok'' 10 (foldl (session_step (\<lambda>tok t. tok)) make_store [(0, Create True ''tok'' ''csrf'')])) \<noteq> None"
proof -
  let ?s = "foldl (session_step (\<lambda>tok t. tok)) make_store [(0, Create True ''tok'' ''csrf'')]"
  have "step_up_active ''tok'' 10 ?s"
    by (simp add: step_up_active_def create_def make_store_def expired_def DEFAULT_SESSION_TTL_def DEFAULT_IDLE_TTL_def)
  with step_up_bound_to_session [OF refl, of "\<lambda>tok t. tok" "[(0, Create True ''tok'' ''csrf'')]" "''tok''" 10]
  show ?thesis by blast
qed

section \<open>Credentials\<close>

datatype auth_op =
    Login "string option" string string rat
  | SetPassword string "unit res" "string option"
  | SetRecovery string "unit res" string

fun auth_step :: "kdf \<Rightarrow> (string \<Rightarrow> rat \<Rightarrow> string) \<Rightarrow> auth_store \<Rightarrow> auth_op \<Rightarrow> auth_store" where
  "auth_step scrypt fp a (Login pw token csrf now) = fst (login scrypt fp pw token csrf now a)"
| "auth_step scrypt fp a (SetPassword salt_bytes write pw) = fst (set_password scrypt salt_bytes write pw a)"
| "auth_step scrypt fp a (SetRecovery salt_bytes write key) = fst (set_recovery_key scrypt salt_bytes write key a)"

text \<open>The law of \<open>hashlib.scrypt\<close> the code relies on: the derived key has the length asked for.\<close>

definition kdf_length :: "kdf \<Rightarrow> bool" where
  "kdf_length scrypt \<longleftrightarrow> (\<forall>s sa n r p k. length (scrypt s sa n r p k) = k)"

definition disk_password :: "payload option \<Rightarrow> secret_record option" where
  "disk_password d = (case d of None \<Rightarrow> None | Some x \<Rightarrow> usable_record (pl_password x))"

definition disk_recovery :: "payload option \<Rightarrow> secret_record option" where
  "disk_recovery d = (case d of None \<Rightarrow> None | Some x \<Rightarrow> usable_record (pl_recovery x))"

lemma disk_Some:
  "disk_password (Some x) = usable_record (pl_password x)" "disk_recovery (Some x) = usable_record (pl_recovery x)"
  by (simp_all add: disk_password_def disk_recovery_def)

text \<open>Memory and file agree.\<close>

definition coherent :: "auth_store \<Rightarrow> bool" where
  "coherent a \<longleftrightarrow> auth_password a = disk_password (disk a) \<and> auth_recovery a = disk_recovery (disk a)"

lemma usable_record_idem [simp]: "usable_record (usable_record r) = usable_record r"
  by (auto simp: usable_record_def split: option.splits)

lemma usable_disk [simp]:
  "usable_record (disk_password d) = disk_password d" "usable_record (disk_recovery d) = disk_recovery d"
  by (simp_all add: disk_password_def disk_recovery_def usable_record_def split: option.splits)

lemma start_auth_fields:
  "auth_password (start_auth d) = disk_password d" "auth_recovery (start_auth d) = disk_recovery d"
  "sessions (auth_sessions (start_auth d)) = []" "disk (start_auth d) = d"
  by (auto simp: start_auth_def load_def disk_password_def disk_recovery_def make_store_def Let_def split: option.splits)

lemma hash_secret_usable: "kdf_length scrypt \<Longrightarrow> usable_record (Some (hash_secret scrypt sa s)) = Some (hash_secret scrypt sa s)"
proof -
  assume "kdf_length scrypt"
  then have "length (scrypt s sa SCRYPT_N SCRYPT_R SCRYPT_P SCRYPT_DKLEN) = 32"
    by (simp add: kdf_length_def SCRYPT_DKLEN_def)
  then have "digest (hash_secret scrypt sa s) \<noteq> []"
    by (cases "scrypt s sa SCRYPT_N SCRYPT_R SCRYPT_P SCRYPT_DKLEN") (auto simp: hash_secret_def)
  then show ?thesis by (simp add: usable_record_def)
qed

lemma verify_hash_secret:
  assumes "kdf_length scrypt"
  shows "verify_secret scrypt (Some q) (Some (hash_secret scrypt sa s)) \<longleftrightarrow>
     scrypt q sa SCRYPT_N SCRYPT_R SCRYPT_P SCRYPT_DKLEN = scrypt s sa SCRYPT_N SCRYPT_R SCRYPT_P SCRYPT_DKLEN"
  using assms by (simp add: verify_secret_def hash_secret_def kdf_length_def)

lemma auth_step_coherent:
  assumes "coherent a" "kdf_length scrypt"
  shows "coherent (auth_step scrypt fp a op)"
proof (cases op)
  case (Login pw token csrf now)
  with assms show ?thesis by (simp add: login_def coherent_def)
next
  case (SetPassword sa wr pw)
  with assms hash_secret_usable [OF assms(2)] show ?thesis
    by (auto simp: set_password_def coherent_def make_payload_def disk_Some Let_def split: sum.splits)
next
  case (SetRecovery sa wr key)
  with assms hash_secret_usable [OF assms(2)] show ?thesis
    by (auto simp: set_recovery_key_def coherent_def make_payload_def disk_Some Let_def split: sum.splits)
qed

interpretation auth_coherent: machine "auth_step scrypt fp" coherent "\<lambda>_ _. kdf_length scrypt" for scrypt fp
  by unfold_locales (rule auth_step_coherent)

text \<open>
  Memory and disk never disagree about who may log in. After any series of logins, password changes
  and recovery key changes, some of whose writes failed, a restart of the process loads exactly the two
  records the running process uses, and no session.
\<close>

theorem restart_keeps_credentials:
  assumes "kdf_length scrypt" and "a = foldl (auth_step scrypt fp) (start_auth d) ops"
  shows "auth_password (start_auth (disk a)) = auth_password a \<and> auth_recovery (start_auth (disk a)) = auth_recovery a \<and>
     snd (resolve token t (auth_sessions (start_auth (disk a)))) = None"
proof -
  have "coherent a"
    unfolding assms(2)
    by (rule auth_coherent.run_inv [OF _ run_ok_all]) (simp_all add: assms(1) coherent_def start_auth_fields)
  then show ?thesis by (simp add: coherent_def start_auth_fields resolve_def)
qed

definition sample_kdf :: kdf where
  "sample_kdf s sa n r p k = take k (s @ replicate k CHR ''x'')"

lemma sample_kdf_length: "kdf_length sample_kdf"
  by (auto simp: kdf_length_def sample_kdf_def)

theorem restart_keeps_credentials_witness:
  "auth_password (start_auth (disk (foldl (auth_step sample_kdf (\<lambda>tok t. tok)) (start_auth None)
       [SetPassword ''salt'' (Inr ()) (Some ''correct horse''), SetPassword ''salt'' (Inl EOFError) (Some ''battery staple'')])))
     = Some (hash_secret sample_kdf ''salt'' ''correct horse'')"
proof -
  let ?a = "foldl (auth_step sample_kdf (\<lambda>tok t. tok)) (start_auth None)
       [SetPassword ''salt'' (Inr ()) (Some ''correct horse''), SetPassword ''salt'' (Inl EOFError) (Some ''battery staple'')]"
  have "auth_password ?a = Some (hash_secret sample_kdf ''salt'' ''correct horse'')"
    by (simp add: set_password_def validate_password_def py_len_def MIN_PASSWORD_LENGTH_def Let_def)
  with restart_keeps_credentials [OF sample_kdf_length refl, of "\<lambda>tok t. tok" None] show ?thesis by metis
qed

text \<open>
  C35: a password change is all or nothing. When it fails, by the length rule or because the file could
  not be written, nothing has changed, in memory or on disk. When it succeeds, exactly the passwords with
  the new password's derived key log in, before and after a restart, every session that existed is gone,
  and the recovery record is the old one.
\<close>

theorem set_password_atomic:
  assumes "kdf_length scrypt" and "set_password scrypt sa write pw a = (a', res)"
  shows "(\<forall>e. res = Inl e \<longrightarrow> a' = a) \<and>
    (res = Inr () \<longrightarrow> (\<exists>new. pw = Some new \<and> MIN_PASSWORD_LENGTH \<le> py_len new \<and>
       (\<forall>q. verify_password scrypt (Some q) a' \<longleftrightarrow>
          scrypt q sa SCRYPT_N SCRYPT_R SCRYPT_P SCRYPT_DKLEN = scrypt new sa SCRYPT_N SCRYPT_R SCRYPT_P SCRYPT_DKLEN) \<and>
       (\<forall>q. verify_password scrypt q (start_auth (disk a')) \<longleftrightarrow> verify_password scrypt q a')) \<and>
       auth_recovery a' = auth_recovery a \<and> snd (resolve token t (auth_sessions a')) = None)"
proof (cases res)
  case (Inl e)
  with assms(2) show ?thesis
    by (auto simp: set_password_def Let_def split: sum.splits)
next
  case (Inr u)
  then obtain new where new: "pw = Some new" "validate_password pw = Inr new" "write = Inr ()"
    using assms(2) by (cases pw) (auto simp: set_password_def validate_password_def Let_def split: sum.splits if_splits)
  let ?r = "hash_secret scrypt sa new"
  have a': "a' = a\<lparr>disk := Some (make_payload (Some ?r) None a), auth_password := Some ?r,
      auth_sessions := drop_all None (auth_sessions a)\<rparr>"
    using assms(2) new Inr by (simp add: set_password_def Let_def)
  have "auth_password (start_auth (disk a')) = auth_password a'"
    using hash_secret_usable [OF assms(1)]
    by (simp add: a' start_auth_fields disk_password_def make_payload_def)
  moreover have "MIN_PASSWORD_LENGTH \<le> py_len new"
    using new by (simp add: validate_password_def split: if_splits)
  moreover have "snd (resolve token t (auth_sessions a')) = None"
    by (simp add: a' resolve_def drop_all_def)
  moreover have "auth_password a' = Some ?r" "auth_recovery a' = auth_recovery a" by (simp_all add: a')
  ultimately show ?thesis
    using new(1) verify_hash_secret [OF assms(1)] Inr by (auto simp: verify_password_def)
qed

theorem set_password_atomic_witness:
  "\<exists>a'. set_password sample_kdf ''salt'' (Inr ()) (Some ''correct horse'') (start_auth None) = (a', Inr ()) \<and>
     verify_password sample_kdf (Some ''correct horse'') a'"
proof -
  obtain a' res where s: "set_password sample_kdf ''salt'' (Inr ()) (Some ''correct horse'') (start_auth None) = (a', res)"
    by fastforce
  then have "res = Inr ()"
    by (auto simp: set_password_def validate_password_def py_len_def MIN_PASSWORD_LENGTH_def Let_def)
  with set_password_atomic [OF sample_kdf_length s] s show ?thesis by auto
qed

section \<open>The recovery guard\<close>

datatype guard_op = Acquire rat | Release

text \<open>A history of the guard: the guard and the times at which a verification was let through.\<close>

fun guard_step :: "guard \<times> rat list \<Rightarrow> guard_op \<Rightarrow> guard \<times> rat list" where
  "guard_step (g, lg) (Acquire now) = (case try_acquire now g of (g', ok, _) \<Rightarrow> (g', if ok then lg @ [now] else lg))"
| "guard_step (g, lg) Release = (case release g of Inl _ \<Rightarrow> (g, lg) | Inr g' \<Rightarrow> (g', lg))"

lemma subseq_nth_ge: "subseq B A \<Longrightarrow> sorted (A :: rat list) \<Longrightarrow> i < length B \<Longrightarrow> A ! i \<le> B ! i"
proof (induction arbitrary: i rule: list_emb.induct)
  case (list_emb_Nil ys)
  then show ?case by simp
next
  case (list_emb_Cons xs ys y)
  then have "i < length ys" using list_emb_length [of "(=)" xs ys] by fastforce
  have "(y # ys) ! i \<le> ys ! i"
    using list_emb_Cons.prems(1) \<open>i < length ys\<close> sorted_nth_mono [of "y # ys" i "Suc i"] by simp
  with list_emb_Cons show ?case by fastforce
next
  case (list_emb_Cons2 x y xs ys)
  then show ?case by (cases i) auto
qed

lemma spaced_subseq: "subseq B A \<Longrightarrow> sorted A \<Longrightarrow> spaced m d A \<Longrightarrow> 0 < m \<Longrightarrow> spaced m d B"
proof (induction rule: list_emb.induct)
  case (list_emb_Nil ys)
  then show ?case by (simp add: spaced_def)
next
  case (list_emb_Cons xs ys y)
  have "spaced m d ys"
    unfolding spaced_def
  proof (intro allI impI)
    fix i
    assume "i + m < length ys"
    with list_emb_Cons.prems(2) show "ys ! i + d \<le> ys ! (i + m)"
      by (auto simp: spaced_def dest: spec [of _ "Suc i"])
  qed
  with list_emb_Cons show ?case by simp
next
  case (list_emb_Cons2 x y xs ys)
  have tail: "spaced m d ys"
    unfolding spaced_def
  proof (intro allI impI)
    fix i
    assume "i + m < length ys"
    with list_emb_Cons2.prems(2) show "ys ! i + d \<le> ys ! (i + m)"
      by (auto simp: spaced_def dest: spec [of _ "Suc i"])
  qed
  show ?case
    unfolding spaced_def
  proof (intro allI impI)
    fix i
    assume i: "i + m < length (x # xs)"
    show "(x # xs) ! i + d \<le> (x # xs) ! (i + m)"
    proof (cases i)
      case 0
      obtain k where k: "m = Suc k" using list_emb_Cons2.prems(3) by (cases m) auto
      have "k < length xs" using i 0 k by simp
      moreover have "length xs \<le> length ys" by (rule list_emb_length [OF list_emb_Cons2.hyps(2)])
      ultimately have "y + d \<le> ys ! k"
        using list_emb_Cons2.prems(2) k by (auto simp: spaced_def dest: spec [of _ 0])
      moreover have "ys ! k \<le> xs ! k"
        by (rule subseq_nth_ge [OF list_emb_Cons2.hyps(2)]) (use list_emb_Cons2.prems(1) \<open>k < length xs\<close> in auto)
      ultimately show ?thesis using 0 k list_emb_Cons2.hyps(1) by simp
    next
      case (Suc j)
      have "spaced m d xs"
        using list_emb_Cons2.IH tail list_emb_Cons2.prems by simp
      with i Suc show ?thesis by (simp add: spaced_def)
    qed
  qed
qed

definition guard_inv :: "rat \<Rightarrow> guard \<times> rat list \<Rightarrow> bool" where
  "guard_inv now gl \<longleftrightarrow> (case gl of (g, lg) \<Rightarrow>
     max_concurrent g = 2 \<and> guard_window g = 60 \<and> max_attempts g = 20 \<and> held g \<le> 2 \<and>
     (\<exists>P. sorted (P @ attempts g) \<and> (\<forall>t \<in> set (P @ attempts g). t \<le> now) \<and> (\<forall>p \<in> set P. p + 60 \<le> now) \<and>
        spaced 20 60 (P @ attempts g) \<and> subseq lg (P @ attempts g)))"

lemma guard_step_inv:
  assumes "guard_inv now gl" and "\<And>t. op = Acquire t \<Longrightarrow> now \<le> t"
  shows "guard_inv (case op of Acquire t \<Rightarrow> t | Release \<Rightarrow> now) (guard_step gl op)"
proof -
  obtain g lg where gl: "gl = (g, lg)" by (cases gl)
  from assms(1) gl obtain P where g: "max_concurrent g = 2" "guard_window g = 60" "max_attempts g = 20" "held g \<le> 2"
    "sorted (P @ attempts g)" "\<forall>t \<in> set (P @ attempts g). t \<le> now" "\<forall>p \<in> set P. p + 60 \<le> now"
    "spaced 20 60 (P @ attempts g)" "subseq lg (P @ attempts g)"
    by (auto simp: guard_inv_def)
  show ?thesis
  proof (cases op)
    case Release
    with assms(1) gl g show ?thesis
      by (auto simp: release_def guard_inv_def split: if_splits)
  next
    case (Acquire t)
    with assms(2) have t: "now \<le> t" by simp
    let ?F = "filter (\<lambda>x. t - 60 < x) (attempts g)"
    from g(5) have "sorted (attempts g)" by (simp add: sorted_append)
    from filter_sorted_suffix [OF this, of "t - 60"] obtain Q where
      Q: "attempts g = Q @ ?F" "\<forall>p \<in> set Q. p \<le> t - 60" by auto
    have all: "P @ attempts g = (P @ Q) @ ?F" using Q(1) by simp
    have old: "\<forall>p \<in> set (P @ Q). p + 60 \<le> t" using Q(2) g(7) t by fastforce
    have le: "\<forall>x \<in> set ((P @ Q) @ ?F). x \<le> t" using g(6) t unfolding all by fastforce
    show ?thesis
    proof (cases "20 \<le> length ?F")
      case True
      then have "guard_step gl op = (g\<lparr>attempts := ?F\<rparr>, lg)"
        by (simp add: gl Acquire try_acquire_def g Let_def)
      moreover have "guard_inv t (g\<lparr>attempts := ?F\<rparr>, lg)"
        unfolding guard_inv_def prod.case
        using g(1-5,8,9) le old unfolding all by (intro conjI exI [of _ "P @ Q"]) auto
      ultimately show ?thesis by (simp add: Acquire)
    next
      case False
      let ?A = "(P @ Q) @ ?F @ [t]"
      have "spaced 20 60 (((P @ Q) @ ?F) @ [t])"
      proof (rule spaced_snoc)
        show "spaced 20 60 ((P @ Q) @ ?F)" using g(8) unfolding all .
        assume "20 \<le> length ((P @ Q) @ ?F)"
        with False have "length ((P @ Q) @ ?F) - 20 < length (P @ Q)" by simp
        then have "((P @ Q) @ ?F) ! (length ((P @ Q) @ ?F) - 20) \<in> set (P @ Q)"
          by (metis nth_append nth_mem)
        with old show "((P @ Q) @ ?F) ! (length ((P @ Q) @ ?F) - 20) + 60 \<le> t" by blast
      qed simp
      then have sp: "spaced 20 60 ?A" by simp
      have so: "sorted ?A" using g(5) le unfolding all by (auto simp: sorted_append)
      have "subseq lg ((P @ Q) @ ?F)" using g(9) unfolding all .
      then have sub: "subseq lg ?A" "subseq (lg @ [t]) ?A"
        using list_emb_append_mono [of "(=)" lg "(P @ Q) @ ?F" "[]" "[t]"]
          list_emb_append_mono [of "(=)" lg "(P @ Q) @ ?F" "[t]" "[t]"] by simp_all
      have inv: "guard_inv t (g\<lparr>attempts := ?F @ [t], held := h\<rparr>, l)" if "h \<le> 2" "subseq l ?A" for h l
        unfolding guard_inv_def prod.case
        using g(1-3) le old so sp that by (intro conjI exI [of _ "P @ Q"]) auto
      show ?thesis
        using False g(1-4) inv [of "Suc (held g)" "lg @ [t]"] inv [of "held g" lg] sub
        by (auto simp: gl Acquire try_acquire_def g Let_def)
    qed
  qed
qed

fun op_times :: "guard_op list \<Rightarrow> rat list" where
  "op_times [] = []"
| "op_times (Acquire t # ops) = t # op_times ops"
| "op_times (Release # ops) = op_times ops"

lemma guard_run_inv:
  "guard_inv now gl \<Longrightarrow> sorted (now # op_times ops) \<Longrightarrow> \<exists>t. guard_inv t (foldl guard_step gl ops)"
proof (induction ops arbitrary: now gl)
  case Nil
  then show ?case by auto
next
  case (Cons op ops)
  have "guard_inv (case op of Acquire t \<Rightarrow> t | Release \<Rightarrow> now) (guard_step gl op)"
    by (rule guard_step_inv [OF Cons.prems(1)]) (use Cons.prems(2) in auto)
  with Cons show ?case by (cases op) auto
qed

text \<open>
  Recovery verification is bounded for the whole process. Whatever the order of attempts and
  releases, at most two verifications run at a time, and the twenty-first one let through after any other
  comes at least sixty seconds later.
\<close>

theorem recovery_work_bounded:
  assumes "sorted (op_times ops)" and "foldl guard_step (make_guard, []) ops = (g, lg)"
  shows "held g \<le> RECOVERY_GLOBAL_CONCURRENCY \<and> spaced RECOVERY_GLOBAL_MAX_ATTEMPTS RECOVERY_GLOBAL_WINDOW_SECONDS lg"
proof -
  have "guard_inv (hd (op_times ops)) (make_guard, [])"
    by (auto simp: guard_inv_def make_guard_def spaced_def RECOVERY_GLOBAL_CONCURRENCY_def
       RECOVERY_GLOBAL_WINDOW_SECONDS_def RECOVERY_GLOBAL_MAX_ATTEMPTS_def intro!: exI [of _ "[]"])
  moreover have "sorted (hd (op_times ops) # op_times ops)" using assms(1) by (cases "op_times ops") auto
  ultimately obtain t where "guard_inv t (g, lg)" using guard_run_inv assms(2) by metis
  then show ?thesis
    by (auto simp: guard_inv_def RECOVERY_GLOBAL_CONCURRENCY_def RECOVERY_GLOBAL_WINDOW_SECONDS_def
       RECOVERY_GLOBAL_MAX_ATTEMPTS_def intro: spaced_subseq)
qed

theorem recovery_work_bounded_witness:
  "held (fst (foldl guard_step (make_guard, []) [Acquire 1, Acquire 2, Acquire 3, Release])) \<le> RECOVERY_GLOBAL_CONCURRENCY"
proof -
  obtain g lg where r: "foldl guard_step (make_guard, []) [Acquire 1, Acquire 2, Acquire 3, Release] = (g, lg)" by fastforce
  with recovery_work_bounded [OF _ r] show ?thesis by simp
qed

end
