(* ===== verification/Vocab.thy ===== *)
theory Vocab
  imports PyVal
begin

text \<open>
  The closed vocabularies, thresholds and persisted bitsets of the incident classifier
  (\<open>monitor-v2/web/incident_classifier.py\<close>). A frozen set is the list of its elements; the bit order is
  the sorted vocabulary.
\<close>

section \<open>Bounds and thresholds\<close>

definition CLASSIFIER_VERSION :: int where "CLASSIFIER_VERSION = 1"
definition BUCKET_SECONDS :: rat where "BUCKET_SECONDS = 60"
definition MAX_BUCKETS :: nat where "MAX_BUCKETS = 60"
definition MAX_RECORDS_PER_SECTION :: nat where "MAX_RECORDS_PER_SECTION = 2000"
definition MIN_BASELINE_BUCKETS :: nat where "MIN_BASELINE_BUCKETS = 3"
definition MIN_SAMPLES_PER_BUCKET :: nat where "MIN_SAMPLES_PER_BUCKET = 6"
definition COUNT_DROP_RATIO :: rat where "COUNT_DROP_RATIO = 1 / 2"
definition COUNT_DROP_MIN_BASELINE :: rat where "COUNT_DROP_MIN_BASELINE = 5"
definition COUNT_DROP_MIN_ABSOLUTE :: rat where "COUNT_DROP_MIN_ABSOLUTE = 3"
definition API_STALE_BUCKET_FRACTION :: rat where "API_STALE_BUCKET_FRACTION = 1 / 2"
definition ALL_DEVICES_QUIET_MIN :: nat where "ALL_DEVICES_QUIET_MIN = 2"
definition JOURNAL_BURST_MIN_COUNT :: int where "JOURNAL_BURST_MIN_COUNT = 5"
definition JOURNAL_BURST_MULTIPLIER :: rat where "JOURNAL_BURST_MULTIPLIER = 3"
definition PROBE_FAIL_MIN_BUCKETS :: nat where "PROBE_FAIL_MIN_BUCKETS = 2"
definition PROBE_HEALTH_MIN_BUCKETS :: nat where "PROBE_HEALTH_MIN_BUCKETS = 2"
definition CLUSTER_ADJACENCY_BUCKETS :: nat where "CLUSTER_ADJACENCY_BUCKETS = 1"

section \<open>Categories and statuses\<close>

definition CATEGORY_VPS_PROCESS :: string where "CATEGORY_VPS_PROCESS = ''vps_process_or_api''"
definition CATEGORY_VPS_OUTBOUND :: string where "CATEGORY_VPS_OUTBOUND = ''vps_outbound''"
definition CATEGORY_REALITY_TCP :: string where "CATEGORY_REALITY_TCP = ''reality_tcp_path''"
definition CATEGORY_HY2_UDP :: string where "CATEGORY_HY2_UDP = ''hysteria2_udp_path''"
definition CATEGORY_COMMON_INBOUND :: string where "CATEGORY_COMMON_INBOUND = ''common_inbound_client_office''"
definition CATEGORY_DESTINATION :: string where "CATEGORY_DESTINATION = ''destination_specific''"
definition CATEGORY_INSUFFICIENT :: string where "CATEGORY_INSUFFICIENT = ''insufficient_evidence''"

definition CATEGORIES :: "string list" where
  "CATEGORIES = [CATEGORY_VPS_PROCESS, CATEGORY_VPS_OUTBOUND, CATEGORY_REALITY_TCP, CATEGORY_HY2_UDP,
     CATEGORY_COMMON_INBOUND, CATEGORY_DESTINATION, CATEGORY_INSUFFICIENT]"

definition EMITTABLE_CATEGORIES :: "string list" where
  "EMITTABLE_CATEGORIES = filter (\<lambda>name. name \<noteq> CATEGORY_DESTINATION) CATEGORIES"

definition CATEGORY_NONE :: string where "CATEGORY_NONE = ''NONE''"

definition STATUS_INCIDENT :: string where "STATUS_INCIDENT = ''incident''"
definition STATUS_NO_INCIDENT :: string where "STATUS_NO_INCIDENT = ''no_incident''"
definition STATUS_INDETERMINATE :: string where "STATUS_INDETERMINATE = ''indeterminate''"

definition STATUSES :: "string list" where
  "STATUSES = [STATUS_INCIDENT, STATUS_NO_INCIDENT, STATUS_INDETERMINATE]"

lemmas category_defs = CATEGORY_VPS_PROCESS_def CATEGORY_VPS_OUTBOUND_def CATEGORY_REALITY_TCP_def CATEGORY_HY2_UDP_def
  CATEGORY_COMMON_INBOUND_def CATEGORY_DESTINATION_def CATEGORY_INSUFFICIENT_def CATEGORY_NONE_def

lemmas status_defs = STATUS_INCIDENT_def STATUS_NO_INCIDENT_def STATUS_INDETERMINATE_def

section \<open>Mirrored store vocabularies\<close>

definition JOURNAL_CLASSES :: "string list" where
  "JOURNAL_CLASSES = [''dns'', ''dial_timeout'', ''reset'', ''net_unreachable'', ''tls_handshake'', ''quic_error'',
     ''eof_cancel'', ''other'']"

definition JOURNAL_PROTOS :: "string list" where
  "JOURNAL_PROTOS = [''Reality'', ''Hysteria2'', ''OTHER'']"

definition JOURNAL_DCLS :: "string list" where
  "JOURNAL_DCLS = [''NONE'', ''https443'', ''http80'', ''quic'', ''dns53'', ''dot853'', ''smtpish'', ''other'']"

definition JOURNAL_AUDIT_KINDS :: "string list" where
  "JOURNAL_AUDIT_KINDS = [''gap'', ''rejected'']"

definition JOURNAL_AUDIT_CODES :: "string list" where
  "JOURNAL_AUDIT_CODES = [''sequence_gap'', ''exchange_bad_json'', ''exchange_bad_name'', ''exchange_bad_shape'',
     ''exchange_empty'', ''exchange_event_invalid'', ''exchange_header_invalid'', ''exchange_header_position'',
     ''exchange_no_header'', ''exchange_not_regular'', ''exchange_seq_mismatch'', ''exchange_too_large'',
     ''exchange_unreadable'']"

definition PROBE_STATUSES :: "string list" where
  "PROBE_STATUSES = [''ok'', ''failed'']"

definition PROBE_ERROR_CODES :: "string list" where
  "PROBE_ERROR_CODES = [''NONE'', ''timeout'', ''dns_failed'', ''connect_failed'', ''tls_failed'', ''bad_response'',
     ''protocol_failed'', ''parse_failed'', ''unavailable'']"

definition PROBE_NETWORK_CODES :: "string list" where
  "PROBE_NETWORK_CODES = [''timeout'', ''dns_failed'', ''connect_failed'']"

definition PROBE_CHANGE_VALUES :: "string list" where
  "PROBE_CHANGE_VALUES = [''unchanged'', ''changed'', ''unknown'']"

definition PROBE_SLOTS :: "string list" where
  "PROBE_SLOTS = [''dns'', ''https'', ''udp'', ''egress'']"

definition GENERIC_PROBE_SLOTS :: "string list" where
  "GENERIC_PROBE_SLOTS = [''dns'', ''https'', ''egress'']"

definition HISTORY_ERROR_CODES :: "string list" where
  "HISTORY_ERROR_CODES = [''history_dir_unsafe'', ''history_db_unsafe'', ''history_open_failed'',
     ''history_schema_unsupported'', ''history_write_failed'', ''history_retention_failed'', ''history_read_failed'',
     ''history_ingest_apply_failed'', ''history_probe_persist_failed'', ''history_probe_result_rejected'',
     ''history_journal_exchange_unreadable'', ''history_incident_persist_failed'']"

definition READER_STATUSES :: "string list" where
  "READER_STATUSES = [''disabled'', ''absent'', ''unreadable'', ''invalid'', ''stale'', ''fresh'']"

definition API_STATUSES :: "string list" where "API_STATUSES = [''CONNECTED'', ''STALE'']"
definition DEVICE_REASONS :: "string list" where "DEVICE_REASONS = [''change'', ''heartbeat'']"
definition GENERIC_TCP_DCLS :: "string list" where "GENERIC_TCP_DCLS = [''https443'', ''http80'']"

section \<open>Row shapes\<close>

definition SAMPLE_ROW_COLUMNS :: "string list" where
  "SAMPLE_ROW_COLUMNS = [''epoch'', ''iso_utc'', ''run_id'', ''monitor_uptime_seconds'', ''snapshot_version'',
     ''snapshot_generated_at'', ''last_success_at'', ''collector_stale'', ''api_status'', ''total_active_connections'',
     ''reality_active_connections'', ''hysteria2_active_connections'', ''other_active_connections'', ''uplink_rate'',
     ''downlink_rate'', ''skipped_events'', ''duplicate_events'', ''identity_conflicts'', ''abandoned_on_reset'']"

definition DEVICE_ROW_COLUMNS :: "string list" where
  "DEVICE_ROW_COLUMNS = [''epoch'', ''iso_utc'', ''run_id'', ''device'', ''inbound'', ''active_connections'',
     ''device_status'', ''uplink_rate'', ''downlink_rate'', ''uplink_total'', ''downlink_total'', ''reason'']"

definition PROBE_ROW_COLUMNS :: "string list" where
  "PROBE_ROW_COLUMNS = [''epoch'', ''iso_utc'', ''run_id'', ''cycle_id'', ''result_version'', ''dns_status'',
     ''dns_latency_ms'', ''dns_error_code'', ''https_status'', ''https_latency_ms'', ''https_error_code'',
     ''udp_status'', ''udp_latency_ms'', ''udp_error_code'', ''egress_status'', ''egress_latency_ms'',
     ''egress_error_code'', ''egress_ip'', ''egress_change'']"

definition JOURNAL_EVENT_ROW_COLUMNS :: "string list" where
  "JOURNAL_EVENT_ROW_COLUMNS = [''seq'', ''ts'', ''cls'', ''proto'', ''port'', ''dcls'', ''fp'', ''n'']"

definition AUDIT_ROW_COLUMNS :: "string list" where
  "AUDIT_ROW_COLUMNS = [''epoch'', ''kind'', ''seq'', ''code'']"

definition SAMPLE_COUNT_FIELDS :: "string list" where
  "SAMPLE_COUNT_FIELDS = [''total_active_connections'', ''reality_active_connections'',
     ''hysteria2_active_connections'', ''other_active_connections'']"

definition SAMPLE_FIELDS :: "string list" where
  "SAMPLE_FIELDS = [''epoch'', ''collector_stale'', ''api_status''] @ SAMPLE_COUNT_FIELDS"

definition DEVICE_FIELDS :: "string list" where
  "DEVICE_FIELDS = [''epoch'', ''device'', ''inbound'', ''active_connections'', ''reason'']"

definition PROBE_FIELDS :: "string list" where
  "PROBE_FIELDS = [''epoch'', ''dns_status'', ''dns_error_code'', ''https_status'', ''https_error_code'', ''udp_status'',
     ''udp_error_code'', ''egress_status'', ''egress_error_code'', ''egress_change'']"

definition JOURNAL_FIELDS :: "string list" where
  "JOURNAL_FIELDS = [''ts'', ''cls'', ''proto'', ''port'', ''dcls'', ''n'']"

definition AUDIT_FIELDS :: "string list" where "AUDIT_FIELDS = [''epoch'', ''kind'', ''code'']"
definition HEALTH_FIELDS :: "string list" where "HEALTH_FIELDS = [''enabled'', ''degraded'', ''last_error_code'']"
definition READER_FIELDS :: "string list" where "READER_FIELDS = [''status'']"
definition WINDOW_FIELDS :: "string list" where "WINDOW_FIELDS = [''start_epoch'', ''end_epoch'']"

definition LIST_SECTIONS :: "string list" where
  "LIST_SECTIONS = [''samples'', ''device_states'', ''probe_rows'', ''journal_events'', ''audit'']"

definition DICT_SECTIONS :: "string list" where
  "DICT_SECTIONS = [''window'', ''health'', ''reader'']"

definition EVIDENCE_SECTIONS :: "string list" where
  "EVIDENCE_SECTIONS = LIST_SECTIONS @ DICT_SECTIONS"

section \<open>Output vocabularies\<close>

definition BASE_EVIDENCE_TOKENS :: "string list" where
  "BASE_EVIDENCE_TOKENS = [''no_anomaly'', ''count_drop_total'', ''count_drop_reality'', ''count_drop_hysteria2'',
     ''count_drop_other'', ''all_devices_quiet'', ''journal_burst_reality'', ''journal_burst_hysteria2'',
     ''journal_burst_other_generic'', ''journal_burst_destination'', ''journal_burst_unattributed'',
     ''probe_failed_dns'', ''probe_failed_https'', ''probe_failed_udp'', ''probe_failed_egress'',
     ''probe_source_unavailable'', ''probe_generic_tcp_healthy'', ''egress_ip_changed'', ''api_stale'',
     ''collector_stale'', ''sample_coverage_gap'', ''history_degraded'', ''journal_continuity_gap'',
     ''journal_rejected_batch'']"

definition BASE_UNKNOWN_TOKENS :: "string list" where
  "BASE_UNKNOWN_TOKENS = [''no_corroboration'', ''count_drop_only'', ''attribution_ambiguous'',
     ''baseline_evidence_absent'', ''transport_negatives_unproven'', ''contemporaneous_negatives_unproven'',
     ''probe_evidence_absent'', ''probe_evidence_unusable'', ''probe_endpoint_confounded'',
     ''multiple_anomaly_clusters'', ''journal_evidence_absent'', ''journal_evidence_incomplete'',
     ''no_target_specific_proof'', ''multiple_destinations'', ''process_and_network_evidence_conflict'',
     ''device_states_are_change_only'', ''unattributed_evidence_present'', ''evidence_shape_rejected'',
     ''evidence_outside_window'', ''root_cause_not_established'']"

definition CLS_EVIDENCE_TOKENS :: "string list" where
  "CLS_EVIDENCE_TOKENS = map (\<lambda>name. ''journal_cls_'' @ name) JOURNAL_CLASSES"

definition AUDIT_EVIDENCE_TOKENS :: "string list" where
  "AUDIT_EVIDENCE_TOKENS = map (\<lambda>code. ''journal_audit_'' @ code) JOURNAL_AUDIT_CODES"

definition SECTION_UNKNOWN_TOKENS :: "string list" where
  "SECTION_UNKNOWN_TOKENS = map (\<lambda>name. ''evidence_rejected_'' @ name) EVIDENCE_SECTIONS"

definition EVIDENCE_TOKENS :: "string list" where
  "EVIDENCE_TOKENS = remdups (BASE_EVIDENCE_TOKENS @ CLS_EVIDENCE_TOKENS @ AUDIT_EVIDENCE_TOKENS)"

definition UNKNOWN_TOKENS :: "string list" where
  "UNKNOWN_TOKENS = remdups (BASE_UNKNOWN_TOKENS @ SECTION_UNKNOWN_TOKENS)"

definition CORROBORATING_FAMILIES :: "string list" where
  "CORROBORATING_FAMILIES = [''journal'', ''probe'', ''process'']"

section \<open>Bitsets\<close>

unbundle bit_operations_syntax

definition EVIDENCE_BIT_ORDER :: "string list" where "EVIDENCE_BIT_ORDER = sort EVIDENCE_TOKENS"
definition UNKNOWN_BIT_ORDER :: "string list" where "UNKNOWN_BIT_ORDER = sort UNKNOWN_TOKENS"

text \<open>The index dictionary of an order: the position of a token.\<close>

fun bit_index :: "string list \<Rightarrow> string \<Rightarrow> nat option" where
  "bit_index [] token = None"
| "bit_index (x # order) token = (if x = token then Some 0 else map_option Suc (bit_index order token))"

fun or_bits :: "string list \<Rightarrow> pyval list \<Rightarrow> int \<Rightarrow> int option" where
  "or_bits order [] bits = Some bits"
| "or_bits order (PStr token # tokens) bits =
     (case bit_index order token of None \<Rightarrow> None | Some p \<Rightarrow> or_bits order tokens (bits OR push_bit p 1))"
| "or_bits order (_ # tokens) bits = None"

definition tokens_to_bits :: "pyval \<Rightarrow> string list \<Rightarrow> int option" where
  "tokens_to_bits tokens order = (case tokens of PList ts \<Rightarrow> or_bits order ts 0 | _ \<Rightarrow> None)"

definition bits_to_tokens :: "pyval \<Rightarrow> string list \<Rightarrow> string list option" where
  "bits_to_tokens value order =
     (case value of
        PInt v \<Rightarrow> if v < 0 \<or> push_bit (length order) 1 \<le> v then None
                  else Some (map snd (filter (\<lambda>(p, token). bit v p) (enumerate 0 order)))
      | _ \<Rightarrow> None)"

definition evidence_to_bits :: "pyval \<Rightarrow> int option" where
  "evidence_to_bits tokens = tokens_to_bits tokens EVIDENCE_BIT_ORDER"

definition bits_to_evidence :: "pyval \<Rightarrow> string list option" where
  "bits_to_evidence v = bits_to_tokens v EVIDENCE_BIT_ORDER"

definition unknown_to_bits :: "pyval \<Rightarrow> int option" where
  "unknown_to_bits tokens = tokens_to_bits tokens UNKNOWN_BIT_ORDER"

definition bits_to_unknown :: "pyval \<Rightarrow> string list option" where
  "bits_to_unknown v = bits_to_tokens v UNKNOWN_BIT_ORDER"

section \<open>Round trips of the bitsets\<close>

lemma bit_index_Some: "bit_index order t = Some p \<Longrightarrow> p < length order \<and> order ! p = t"
  by (induction order arbitrary: p) (auto split: if_splits)

lemma bit_index_nth: "distinct order \<Longrightarrow> p < length order \<Longrightarrow> bit_index order (order ! p) = Some p"
proof (induction order arbitrary: p)
  case Nil
  then show ?case by simp
next
  case (Cons x order)
  then show ?case by (cases p) auto
qed

lemma bit_index_None: "bit_index order t = None \<longleftrightarrow> t \<notin> set order"
  by (induction order) auto

lemma or_bits_spec:
  "set ts \<subseteq> set order \<Longrightarrow>
     \<exists>v. or_bits order (map PStr ts) b = Some v \<and> (\<forall>p. bit v p \<longleftrightarrow> bit b p \<or> (\<exists>t \<in> set ts. bit_index order t = Some p))"
proof (induction ts arbitrary: b)
  case Nil
  then show ?case by simp
next
  case (Cons t ts)
  obtain q where q: "bit_index order t = Some q"
    using Cons.prems bit_index_None [of order t] by fastforce
  from Cons obtain v where v: "or_bits order (map PStr ts) (b OR push_bit q 1) = Some v"
    "\<forall>p. bit v p \<longleftrightarrow> bit (b OR push_bit q 1) p \<or> (\<exists>t \<in> set ts. bit_index order t = Some p)" by fastforce
  have "bit (b OR push_bit q 1) p \<longleftrightarrow> bit b p \<or> p = q" for p
    by (auto simp: bit_or_iff bit_exp_iff)
  with v q show ?case by (intro exI [of _ v]) auto
qed

lemma or_bits_out: "\<not> set ts \<subseteq> set order \<Longrightarrow> or_bits order (map PStr ts) b = None"
proof (induction ts arbitrary: b)
  case Nil
  then show ?case by simp
next
  case (Cons t ts)
  show ?case
  proof (cases "bit_index order t")
    case None
    then show ?thesis by simp
  next
    case (Some q)
    then have "t \<in> set order" using bit_index_None [of order t] by simp
    with Cons Some show ?thesis by simp
  qed
qed

lemma int_small_bits: "(\<And>p. bit v p \<Longrightarrow> p < n) \<Longrightarrow> 0 \<le> (v::int) \<and> v < 2 ^ n"
proof -
  assume b: "\<And>p. bit v p \<Longrightarrow> p < n"
  have "take_bit n v = v" by (rule bit_eqI) (auto simp: bit_take_bit_iff dest: b)
  then show ?thesis by (metis take_bit_nonnegative take_bit_int_less_exp)
qed

locale bit_vocab =
  fixes order :: "string list"
  assumes order_distinct: "distinct order" and order_sorted: "sorted order"
begin

lemma decode_filter:
  assumes "0 \<le> v" "v < 2 ^ length order"
  shows "bits_to_tokens (PInt v) order = Some (filter (\<lambda>t. \<exists>p. bit_index order t = Some p \<and> bit v p) order)"
proof -
  have "map snd (filter (\<lambda>(p, t). bit v p) (enumerate 0 order))
      = map snd (filter (\<lambda>(p, t). \<exists>p. bit_index order t = Some p \<and> bit v p) (enumerate 0 order))"
    by (intro arg_cong [of _ _ "map snd"] filter_cong refl)
      (auto simp: in_set_enumerate_eq bit_index_nth [OF order_distinct])
  also have "\<dots> = filter (\<lambda>t. \<exists>p. bit_index order t = Some p \<and> bit v p) (map snd (enumerate 0 order))"
    by (subst filter_map) (simp add: comp_def case_prod_unfold)
  finally show ?thesis using assms by (simp add: bits_to_tokens_def push_bit_eq_mult)
qed

lemma encode_decode:
  assumes "set ts \<subseteq> set order"
  shows "\<exists>v. tokens_to_bits (PList (map PStr ts)) order = Some v \<and> 0 \<le> v \<and> v < 2 ^ length order \<and>
     bits_to_tokens (PInt v) order = Some (sorted_list_of_set (set ts))"
proof -
  from or_bits_spec [OF assms, of 0] obtain v where v: "or_bits order (map PStr ts) 0 = Some v"
    "\<forall>p. bit v p \<longleftrightarrow> (\<exists>t \<in> set ts. bit_index order t = Some p)" by auto
  have range: "0 \<le> v \<and> v < 2 ^ length order"
    by (rule int_small_bits) (use v(2) bit_index_Some in fast)
  have same: "(\<exists>p. bit_index order t = Some p \<and> bit v p) \<longleftrightarrow> t \<in> set ts" if t: "t \<in> set order" for t
  proof
    assume "\<exists>p. bit_index order t = Some p \<and> bit v p"
    then obtain p u where "bit_index order t = Some p" "u \<in> set ts" "bit_index order u = Some p" using v(2) by auto
    then show "t \<in> set ts" using bit_index_Some by metis
  next
    assume "t \<in> set ts"
    moreover obtain p where "bit_index order t = Some p" using t bit_index_None [of order t] by fastforce
    ultimately show "\<exists>p. bit_index order t = Some p \<and> bit v p" using v(2) by blast
  qed
  have "bits_to_tokens (PInt v) order = Some (filter (\<lambda>t. \<exists>p. bit_index order t = Some p \<and> bit v p) order)"
    by (rule decode_filter) (use range in auto)
  also have "\<dots> = Some (filter (\<lambda>t. t \<in> set ts) order)"
    by (intro arg_cong [of _ _ Some] filter_cong refl) (rule same)
  finally have "bits_to_tokens (PInt v) order = Some (filter (\<lambda>t. t \<in> set ts) order)" .
  moreover have "filter (\<lambda>t. t \<in> set ts) order = sorted_list_of_set (set ts)"
  proof (rule sorted_distinct_set_unique)
    show "sorted (filter (\<lambda>t. t \<in> set ts) order)" using order_sorted by (rule sorted_wrt_filter)
    show "set (filter (\<lambda>t. t \<in> set ts) order) = set (sorted_list_of_set (set ts))" using assms by auto
  qed (use order_distinct in auto)
  ultimately show ?thesis using v(1) range by (simp add: tokens_to_bits_def)
qed

lemma decode_encode:
  assumes "bits_to_tokens (PInt v) order = Some ts"
  shows "tokens_to_bits (PList (map PStr ts)) order = Some v \<and> sorted ts \<and> distinct ts \<and> set ts \<subseteq> set order"
proof -
  have range: "0 \<le> v" "v < 2 ^ length order"
    using assms by (auto simp: bits_to_tokens_def push_bit_eq_mult split: if_splits)
  with assms decode_filter have ts: "ts = filter (\<lambda>t. \<exists>p. bit_index order t = Some p \<and> bit v p) order" by simp
  then have sub: "set ts \<subseteq> set order" by auto
  from or_bits_spec [OF sub, of 0] obtain w where w: "or_bits order (map PStr ts) 0 = Some w"
    "\<forall>p. bit w p \<longleftrightarrow> (\<exists>t \<in> set ts. bit_index order t = Some p)" by auto
  have top: "bit v p \<Longrightarrow> p < length order" for p
  proof (rule ccontr)
    assume "bit v p" "\<not> p < length order"
    moreover have "take_bit (length order) v = v" using range by (rule take_bit_int_eq_self)
    ultimately show False by (metis bit_take_bit_iff)
  qed
  have "w = v"
  proof (rule bit_eqI)
    fix p
    have "bit w p \<longleftrightarrow> (\<exists>t \<in> set order. bit_index order t = Some p \<and> bit v p)"
      using w(2) ts by auto
    also have "\<dots> \<longleftrightarrow> bit v p"
      using top bit_index_nth [OF order_distinct] nth_mem by metis
    finally show "bit w p = bit v p" .
  qed
  with w(1) ts sub order_sorted order_distinct show ?thesis
    by (simp add: tokens_to_bits_def sorted_wrt_filter)
qed

end

interpretation evidence_bits: bit_vocab EVIDENCE_BIT_ORDER
  by unfold_locales (simp_all add: EVIDENCE_BIT_ORDER_def EVIDENCE_TOKENS_def)

interpretation unknown_bits: bit_vocab UNKNOWN_BIT_ORDER
  by unfold_locales (simp_all add: UNKNOWN_BIT_ORDER_def UNKNOWN_TOKENS_def)

lemma vocabulary_widths: "length EVIDENCE_BIT_ORDER = 45" "length UNKNOWN_BIT_ORDER = 28"
  by (simp_all add: EVIDENCE_BIT_ORDER_def UNKNOWN_BIT_ORDER_def) (code_simp, code_simp)


lemma bit_order_sets [simp]: "set EVIDENCE_BIT_ORDER = set EVIDENCE_TOKENS" "set UNKNOWN_BIT_ORDER = set UNKNOWN_TOKENS"
  by (simp_all add: EVIDENCE_BIT_ORDER_def UNKNOWN_BIT_ORDER_def)

text \<open>
  A verdict survives its stored bitsets. Any tuple of evidence (unknown) tokens is encoded below the
  45-bit (28-bit) bound of the table's CHECK and decodes to the same tokens, sorted and without
  duplicates; every stored integer that decodes at all encodes back to itself; and a tuple with a token
  outside the vocabulary is refused.
\<close>

theorem incident_bits_roundtrip:
  "(set ts \<subseteq> set EVIDENCE_TOKENS \<longrightarrow> (\<exists>v. evidence_to_bits (PList (map PStr ts)) = Some v \<and> 0 \<le> v \<and> v < 2 ^ 45 \<and>
      bits_to_evidence (PInt v) = Some (sorted_list_of_set (set ts)))) \<and>
   (set ts \<subseteq> set UNKNOWN_TOKENS \<longrightarrow> (\<exists>v. unknown_to_bits (PList (map PStr ts)) = Some v \<and> 0 \<le> v \<and> v < 2 ^ 28 \<and>
      bits_to_unknown (PInt v) = Some (sorted_list_of_set (set ts)))) \<and>
   (bits_to_evidence (PInt w) = Some us \<longrightarrow> evidence_to_bits (PList (map PStr us)) = Some w) \<and>
   (bits_to_unknown (PInt w) = Some us \<longrightarrow> unknown_to_bits (PList (map PStr us)) = Some w) \<and>
   (\<not> set ts \<subseteq> set EVIDENCE_TOKENS \<longrightarrow> evidence_to_bits (PList (map PStr ts)) = None) \<and>
   (\<not> set ts \<subseteq> set UNKNOWN_TOKENS \<longrightarrow> unknown_to_bits (PList (map PStr ts)) = None)"
proof (intro conjI impI)
  show "\<exists>v. evidence_to_bits (PList (map PStr ts)) = Some v \<and> 0 \<le> v \<and> v < 2 ^ 45 \<and>
      bits_to_evidence (PInt v) = Some (sorted_list_of_set (set ts))" if "set ts \<subseteq> set EVIDENCE_TOKENS"
    using evidence_bits.encode_decode [of ts] that
    unfolding evidence_to_bits_def bits_to_evidence_def vocabulary_widths bit_order_sets by blast
  show "\<exists>v. unknown_to_bits (PList (map PStr ts)) = Some v \<and> 0 \<le> v \<and> v < 2 ^ 28 \<and>
      bits_to_unknown (PInt v) = Some (sorted_list_of_set (set ts))" if "set ts \<subseteq> set UNKNOWN_TOKENS"
    using unknown_bits.encode_decode [of ts] that
    unfolding unknown_to_bits_def bits_to_unknown_def vocabulary_widths bit_order_sets by blast
  show "evidence_to_bits (PList (map PStr us)) = Some w" if "bits_to_evidence (PInt w) = Some us"
    using evidence_bits.decode_encode that unfolding evidence_to_bits_def bits_to_evidence_def by blast
  show "unknown_to_bits (PList (map PStr us)) = Some w" if "bits_to_unknown (PInt w) = Some us"
    using unknown_bits.decode_encode that unfolding unknown_to_bits_def bits_to_unknown_def by blast
  show "evidence_to_bits (PList (map PStr ts)) = None" if "\<not> set ts \<subseteq> set EVIDENCE_TOKENS"
    using or_bits_out [of ts EVIDENCE_BIT_ORDER 0] that
    unfolding evidence_to_bits_def tokens_to_bits_def bit_order_sets by simp
  show "unknown_to_bits (PList (map PStr ts)) = None" if "\<not> set ts \<subseteq> set UNKNOWN_TOKENS"
    using or_bits_out [of ts UNKNOWN_BIT_ORDER 0] that
    unfolding unknown_to_bits_def tokens_to_bits_def bit_order_sets by simp
qed

theorem incident_bits_roundtrip_witness:
  "\<exists>v. evidence_to_bits (PList [PStr ''no_anomaly'', PStr ''api_stale'']) = Some v \<and> 0 \<le> v \<and> v < 2 ^ 45 \<and>
     bits_to_evidence (PInt v) = Some (sorted_list_of_set {''no_anomaly'', ''api_stale''})"
proof -
  have "set [''no_anomaly'', ''api_stale''] \<subseteq> set EVIDENCE_TOKENS"
    unfolding EVIDENCE_TOKENS_def set_remdups set_append by (simp add: BASE_EVIDENCE_TOKENS_def)
  from conjunct1 [OF incident_bits_roundtrip [of "[''no_anomaly'', ''api_stale'']" 0 "[]"], THEN mp, OF this]
  show ?thesis by (simp only: list.map list.set)
qed

end
