(* ===== verification/Refusal.thy ===== *)
theory Refusal
  imports Vocab
begin

text \<open>
  Input validation of the incident classifier: \<open>_refusals\<close>, \<open>_valid_window\<close>, \<open>_row_reason\<close> and their
  helpers. A bundle is any Python value. Converting an \<open>int\<close> that does not fit a \<open>float\<close> raises, so the
  checks that convert are error values.
\<close>

section \<open>Field access\<close>

type_synonym row = "(pyval \<times> pyval) list"

fun is_int :: "pyval \<Rightarrow> bool" where
  "is_int (PInt _) = True"
| "is_int _ = False"

fun is_real :: "pyval \<Rightarrow> bool res" where
  "is_real (PInt i) = res_bind (int_to_float i) (\<lambda>_. Inr True)"
| "is_real (PFloat (Fin q)) = Inr True"
| "is_real _ = Inr False"

definition num_of :: "row \<Rightarrow> string \<Rightarrow> rat" where
  "num_of r key = num_value (pgetN r key)"

definition int_of :: "row \<Rightarrow> string \<Rightarrow> int" where
  "int_of r key = (case pgetN r key of PInt i \<Rightarrow> i | _ \<Rightarrow> 0)"

definition str_of :: "row \<Rightarrow> string \<Rightarrow> string" where
  "str_of r key = (case pgetN r key of PStr s \<Rightarrow> s | _ \<Rightarrow> [])"

definition keys_within :: "row \<Rightarrow> string list \<Rightarrow> bool" where
  "keys_within r names \<longleftrightarrow> list_all (\<lambda>(k, _). k \<in> set (map PStr names)) r"

definition keys_cover :: "row \<Rightarrow> string list \<Rightarrow> bool" where
  "keys_cover r names \<longleftrightarrow> list_all (\<lambda>n. pget r n \<noteq> None) names"

definition str_in :: "pyval \<Rightarrow> string list \<Rightarrow> bool" where
  "str_in v vocabulary = (case v of PStr s \<Rightarrow> s \<in> set vocabulary | _ \<Rightarrow> False)"

section \<open>The window\<close>

definition unaligned :: "pyval \<Rightarrow> bool" where
  "unaligned v \<longleftrightarrow> rat_of_int \<lfloor>num_value v / BUCKET_SECONDS\<rfloor> * BUCKET_SECONDS \<noteq> num_value v"

definition window_bounds_ok :: "pyval \<Rightarrow> pyval \<Rightarrow> bool" where
  "window_bounds_ok start stop \<longleftrightarrow>
     \<not> (num_value start < 0 \<or> num_value stop \<le> num_value start) \<and> \<not> (unaligned start \<or> unaligned stop)
     \<and> BUCKET_SECONDS \<le> num_value stop - num_value start
     \<and> num_value stop - num_value start \<le> of_nat MAX_BUCKETS * BUCKET_SECONDS"

definition valid_window :: "pyval \<Rightarrow> bool res" where
  "valid_window window =
     (case window of
        PDict w \<Rightarrow>
          if \<not> (keys_within w WINDOW_FIELDS \<and> keys_cover w WINDOW_FIELDS) then Inr False
          else res_bind (is_real (pgetN w ''start_epoch'')) (\<lambda>ok1.
                 if \<not> ok1 then Inr False
                 else res_bind (is_real (pgetN w ''end_epoch'')) (\<lambda>ok2.
                   if \<not> ok2 then Inr False
                   else Inr (window_bounds_ok (pgetN w ''start_epoch'') (pgetN w ''end_epoch''))))
      | _ \<Rightarrow> Inr False)"

section \<open>Sections\<close>

definition valid_dict_section :: "string \<Rightarrow> pyval \<Rightarrow> bool" where
  "valid_dict_section sec obj =
     (case obj of
        PDict d \<Rightarrow>
          (let names = (if sec = ''health'' then HEALTH_FIELDS else READER_FIELDS)
           in if \<not> (keys_within d names \<and> keys_cover d names) then False
              else if sec = ''reader'' then str_in (pgetN d ''status'') READER_STATUSES
              else (case (pgetN d ''enabled'', pgetN d ''degraded'') of
                      (PBool _, PBool _) \<Rightarrow>
                        pgetN d ''last_error_code'' = PNone \<or> str_in (pgetN d ''last_error_code'') HISTORY_ERROR_CODES
                    | _ \<Rightarrow> False))
      | _ \<Rightarrow> False)"

datatype reason = Usable | RejectedShape | RejectedOutside

text \<open>\<open>or\<close> of two reasons: the first one that is not empty, the second only evaluated when needed.\<close>

definition reason_or :: "reason res \<Rightarrow> reason res \<Rightarrow> reason res" where
  "reason_or a b = res_bind a (\<lambda>x. if x = Usable then b else Inr x)"

definition shape_unless :: "bool \<Rightarrow> reason res" where
  "shape_unless ok = Inr (if ok then Usable else RejectedShape)"

definition row_keys :: "row \<Rightarrow> string list \<Rightarrow> string list \<Rightarrow> reason res" where
  "row_keys r full_columns needed = shape_unless (keys_within r full_columns \<and> keys_cover r needed)"

definition row_time :: "row \<Rightarrow> string \<Rightarrow> rat \<Rightarrow> rat \<Rightarrow> reason res" where
  "row_time r key start stop = res_bind (is_real (pgetN r key)) (\<lambda>ok.
     if \<not> ok then Inr RejectedShape
     else if num_of r key < start \<or> stop \<le> num_of r key then Inr RejectedOutside else Inr Usable)"

definition row_flags :: "row \<Rightarrow> string list \<Rightarrow> reason res" where
  "row_flags r names = shape_unless (list_all (\<lambda>k. is_int (pgetN r k) \<and> int_of r k \<in> {0, 1}) names)"

definition row_counts :: "row \<Rightarrow> string list \<Rightarrow> reason res" where
  "row_counts r names = shape_unless (list_all (\<lambda>k. is_int (pgetN r k) \<and> 0 \<le> int_of r k) names)"

definition row_one_of :: "row \<Rightarrow> string \<Rightarrow> string list \<Rightarrow> reason res" where
  "row_one_of r key vocabulary = shape_unless (str_in (pgetN r key) vocabulary)"

definition row_api :: "row \<Rightarrow> reason res" where
  "row_api r = shape_unless (pgetN r ''api_status'' = PNone \<or> str_in (pgetN r ''api_status'') API_STATUSES)"

definition slot_status :: "string \<Rightarrow> string" where "slot_status slot = slot @ ''_status''"
definition slot_code :: "string \<Rightarrow> string" where "slot_code slot = slot @ ''_error_code''"

definition row_probes :: "row \<Rightarrow> reason res" where
  "row_probes r = shape_unless
     (list_all (\<lambda>slot. str_in (pgetN r (slot_status slot)) PROBE_STATUSES
                     \<and> str_in (pgetN r (slot_code slot)) PROBE_ERROR_CODES
                     \<and> (pgetN r (slot_status slot) = PStr ''ok'') = (pgetN r (slot_code slot) = PStr ''NONE'')) PROBE_SLOTS
      \<and> str_in (pgetN r ''egress_change'') PROBE_CHANGE_VALUES)"

definition row_journal :: "row \<Rightarrow> reason res" where
  "row_journal r = shape_unless
     (is_int (pgetN r ''port'') \<and> 0 \<le> int_of r ''port'' \<and> int_of r ''port'' \<le> 65535
      \<and> str_in (pgetN r ''cls'') JOURNAL_CLASSES \<and> str_in (pgetN r ''proto'') JOURNAL_PROTOS
      \<and> str_in (pgetN r ''dcls'') JOURNAL_DCLS
      \<and> (if pgetN r ''dcls'' = PStr ''NONE'' then int_of r ''port'' = 0 else 1 \<le> int_of r ''port'')
      \<and> is_int (pgetN r ''n'') \<and> 1 \<le> int_of r ''n'')"

definition row_reason :: "string \<Rightarrow> pyval \<Rightarrow> rat \<Rightarrow> rat \<Rightarrow> reason res" where
  "row_reason sec v start stop =
     (case v of
        PDict r \<Rightarrow>
          if sec = ''samples'' then
            reason_or (row_keys r SAMPLE_ROW_COLUMNS SAMPLE_FIELDS)
           (reason_or (row_time r ''epoch'' start stop)
           (reason_or (row_flags r [''collector_stale''])
           (reason_or (row_counts r SAMPLE_COUNT_FIELDS) (row_api r))))
          else if sec = ''device_states'' then
            reason_or (row_keys r DEVICE_ROW_COLUMNS DEVICE_FIELDS)
           (reason_or (row_time r ''epoch'' start stop)
           (reason_or (row_counts r [''active_connections'']) (row_one_of r ''reason'' DEVICE_REASONS)))
          else if sec = ''probe_rows'' then
            reason_or (row_keys r PROBE_ROW_COLUMNS PROBE_FIELDS)
           (reason_or (row_time r ''epoch'' start stop) (row_probes r))
          else if sec = ''journal_events'' then
            reason_or (row_keys r JOURNAL_EVENT_ROW_COLUMNS JOURNAL_FIELDS)
           (reason_or (row_time r ''ts'' start stop) (row_journal r))
          else if sec = ''audit'' then
            reason_or (row_keys r AUDIT_ROW_COLUMNS AUDIT_FIELDS)
           (reason_or (row_time r ''epoch'' start stop)
           (reason_or (row_one_of r ''kind'' JOURNAL_AUDIT_KINDS) (row_one_of r ''code'' JOURNAL_AUDIT_CODES)))
          else Inr RejectedShape
      | _ \<Rightarrow> Inr RejectedShape)"

text \<open>The first row of a section that is not usable decides for the section.\<close>

fun first_reason :: "string \<Rightarrow> rat \<Rightarrow> rat \<Rightarrow> pyval list \<Rightarrow> reason res" where
  "first_reason sec start stop [] = Inr Usable"
| "first_reason sec start stop (v # vs) =
     res_bind (row_reason sec v start stop) (\<lambda>x. if x = Usable then first_reason sec start stop vs else Inr x)"

definition rejected :: "string \<Rightarrow> string" where
  "rejected sec = ''evidence_rejected_'' @ sec"

definition list_refusals :: "string \<Rightarrow> pyval \<Rightarrow> rat \<Rightarrow> rat \<Rightarrow> string list res" where
  "list_refusals sec rows start stop =
     (case rows of
        PList vs \<Rightarrow>
          if MAX_RECORDS_PER_SECTION < length vs then Inr [rejected sec]
          else res_bind (first_reason sec start stop vs) (\<lambda>x.
                 Inr (case x of Usable \<Rightarrow> []
                      | RejectedShape \<Rightarrow> [rejected sec]
                      | RejectedOutside \<Rightarrow> [''evidence_outside_window'', rejected sec]))
      | _ \<Rightarrow> Inr [rejected sec])"

definition dict_refusals :: "row \<Rightarrow> string list" where
  "dict_refusals ev = map rejected (filter (\<lambda>sec. \<not> valid_dict_section sec (pgetN ev sec)) (tl DICT_SECTIONS))"

definition refusals :: "pyval \<Rightarrow> string list res" where
  "refusals evidence =
     (case evidence of
        PDict ev \<Rightarrow>
          if \<not> keys_within ev EVIDENCE_SECTIONS then Inr [''evidence_shape_rejected'']
          else res_bind (valid_window (pgetN ev ''window'')) (\<lambda>ok.
            if \<not> ok then Inr [''evidence_rejected_window'']
            else (let w = dict_items (pgetN ev ''window''); start = num_of w ''start_epoch''; stop = num_of w ''end_epoch''
                  in res_bind (res_map (\<lambda>sec. list_refusals sec (pgetN ev sec) start stop) LIST_SECTIONS) (\<lambda>found.
                       Inr (sort (remdups (dict_refusals ev @ concat found))))))
      | _ \<Rightarrow> Inr [''evidence_shape_rejected''])"

definition window_buckets :: "rat \<Rightarrow> rat \<Rightarrow> nat" where
  "window_buckets start stop = nat (round_half_even ((stop - start) / BUCKET_SECONDS))"

definition echo_window :: "pyval \<Rightarrow> (rat \<times> rat \<times> nat) res" where
  "echo_window evidence =
     (case evidence of
        PDict ev \<Rightarrow>
          res_bind (valid_window (pgetN ev ''window'')) (\<lambda>ok.
            if ok then (let w = dict_items (pgetN ev ''window''); start = num_of w ''start_epoch'';
                            stop = num_of w ''end_epoch''
                        in Inr (start, stop, window_buckets start stop))
            else Inr (0, 0, 0))
      | _ \<Rightarrow> Inr (0, 0, 0))"

end
