(* ===== verification/Classifier.thy ===== *)
theory Classifier
  imports Refusal
begin

text \<open>
  The analysis and the verdict of the incident classifier: bucketed aggregation, baseline, candidate
  buckets, clusters, attribution and the sealing wall (\<open>_analyse_with_meta\<close>, \<open>_attribute\<close>, \<open>_seal\<close>,
  \<open>detect\<close> and \<open>classify\<close>). A set of tokens is the list of its elements in the order they are added; only
  the wall sorts it.
\<close>

section \<open>Results\<close>

record classification =
  cl_version :: int
  cl_status :: string
  cl_category :: string
  cl_window_start :: rat
  cl_window_end :: rat
  cl_buckets :: nat
  cl_evidence :: "string list"
  cl_unknowns :: "string list"

record detection =
  de_classification :: classification
  de_indices :: "nat list"
  de_first :: "rat option"
  de_last :: "rat option"

definition pairing_valid :: "string \<Rightarrow> string \<Rightarrow> bool" where
  "pairing_valid status category \<longleftrightarrow>
     status = STATUS_NO_INCIDENT \<and> category = CATEGORY_NONE
     \<or> status \<in> {STATUS_INCIDENT, STATUS_INDETERMINATE} \<and> category \<in> set EMITTABLE_CATEGORIES"

definition degraded_result :: "rat \<Rightarrow> rat \<Rightarrow> nat \<Rightarrow> classification" where
  "degraded_result start stop buckets =
     \<lparr>cl_version = CLASSIFIER_VERSION, cl_status = STATUS_INDETERMINATE, cl_category = CATEGORY_INSUFFICIENT,
      cl_window_start = start, cl_window_end = stop, cl_buckets = buckets, cl_evidence = [],
      cl_unknowns = [''attribution_ambiguous'']\<rparr>"

definition seal :: "string \<Rightarrow> string \<Rightarrow> rat \<Rightarrow> rat \<Rightarrow> nat \<Rightarrow> string list \<Rightarrow> string list \<Rightarrow> classification" where
  "seal status category start stop buckets evidence unknowns =
     (if status \<notin> set STATUSES \<or> \<not> pairing_valid status category then degraded_result start stop buckets
      else if \<not> (set evidence \<subseteq> set EVIDENCE_TOKENS) \<or> \<not> (set unknowns \<subseteq> set UNKNOWN_TOKENS)
      then degraded_result start stop buckets
      else (let blanks = (if status = STATUS_INCIDENT then ''root_cause_not_established'' # unknowns else unknowns)
            in \<lparr>cl_version = CLASSIFIER_VERSION, cl_status = status, cl_category = category,
                cl_window_start = start, cl_window_end = stop, cl_buckets = buckets,
                cl_evidence = sort (remdups evidence), cl_unknowns = sort (remdups blanks)\<rparr>))"

section \<open>Aggregation\<close>

definition bucketed :: "row list \<Rightarrow> string \<Rightarrow> rat \<Rightarrow> nat \<Rightarrow> row list list" where
  "bucketed rows key start buckets =
     map (\<lambda>i. filter (\<lambda>r. \<lfloor>(num_of r key - start) / BUCKET_SECONDS\<rfloor> = int i) rows) [0..<buckets]"

text \<open>\<open>_mean\<close> of connection counts: the sum is converted to a \<open>float\<close>, which may raise.\<close>

definition mean_counts :: "int list \<Rightarrow> rat res" where
  "mean_counts xs =
     (if xs = [] then Inr 0 else res_bind (int_to_float (sum_list xs)) (\<lambda>s. Inr (s / of_nat (length xs))))"

definition mean_of :: "rat list \<Rightarrow> rat" where
  "mean_of xs = (if xs = [] then 0 else sum_list xs / of_nat (length xs))"

definition median_of :: "int list \<Rightarrow> rat res" where
  "median_of xs =
     (if xs = [] then Inr 0
      else (let ordered = sort xs; mid = length ordered div 2
            in if odd (length ordered) then int_to_float (ordered ! mid)
               else res_bind (int_to_float (ordered ! (mid - 1))) (\<lambda>a.
                      res_bind (int_to_float (ordered ! mid)) (\<lambda>b. Inr ((a + b) / 2)))))"

record sample_stat =
  ss_rows :: nat
  ss_means :: "(string \<times> rat) list"
  ss_stale :: nat
  ss_collector_stale :: nat

definition sample_stats :: "row list \<Rightarrow> sample_stat res" where
  "sample_stats rows =
     res_bind (res_map (\<lambda>name. res_bind (mean_counts (map (\<lambda>r. int_of r name) rows)) (\<lambda>m. Inr (name, m))) SAMPLE_COUNT_FIELDS)
       (\<lambda>means. Inr \<lparr>ss_rows = length rows, ss_means = means,
          ss_stale = length (filter (\<lambda>r. pgetN r ''api_status'' = PStr ''STALE'') rows),
          ss_collector_stale = length (filter (\<lambda>r. int_of r ''collector_stale'' \<noteq> 0) rows)\<rparr>)"

definition mean_field :: "sample_stat \<Rightarrow> string \<Rightarrow> rat" where
  "mean_field s name = (case map_of (ss_means s) name of None \<Rightarrow> 0 | Some m \<Rightarrow> m)"

definition pair_of :: "row \<Rightarrow> pyval \<times> pyval" where
  "pair_of r = (hash_key (pgetN r ''device''), hash_key (pgetN r ''inbound''))"

definition row_hashable :: "row \<Rightarrow> bool" where
  "row_hashable r \<longleftrightarrow> hashable (pgetN r ''device'') \<and> hashable (pgetN r ''inbound'')"

definition newer :: "row \<Rightarrow> row \<Rightarrow> bool" where
  "newer r cur \<longleftrightarrow> num_of cur ''epoch'' < num_of r ''epoch''
     \<or> num_of cur ''epoch'' = num_of r ''epoch'' \<and> int_of cur ''active_connections'' < int_of r ''active_connections''"

definition latest_rows :: "row list \<Rightarrow> (pyval \<times> pyval, row) dict" where
  "latest_rows rows = foldl (\<lambda>d r. case dict_get d (pair_of r) of
       None \<Rightarrow> dict_set (pair_of r) r d
     | Some cur \<Rightarrow> if newer r cur then dict_set (pair_of r) r d else d) [] rows"

text \<open>\<open>all_quiet\<close> of \<open>_device_stats\<close>.\<close>

definition all_quiet :: "row list \<Rightarrow> (pyval \<times> pyval) list \<Rightarrow> bool" where
  "all_quiet rows pairs_known \<longleftrightarrow>
     (let latest = latest_rows rows; seen = map fst latest;
          quiet = map fst (filter (\<lambda>(p, r). int_of r ''active_connections'' = 0) latest)
      in ALL_DEVICES_QUIET_MIN \<le> length seen \<and> set seen = set pairs_known \<and> set quiet = set seen)"

record slot_stat =
  sl_ok :: nat
  sl_network :: nat
  sl_unusable :: nat

record probe_stat =
  ps_rows :: nat
  ps_slots :: "(string \<times> slot_stat) list"
  ps_changed :: nat

definition slot_ok :: "string \<Rightarrow> row \<Rightarrow> bool" where
  "slot_ok slot r \<longleftrightarrow> pgetN r (slot_status slot) = PStr ''ok''"

definition slot_network :: "string \<Rightarrow> row \<Rightarrow> bool" where
  "slot_network slot r \<longleftrightarrow> \<not> slot_ok slot r \<and> str_in (pgetN r (slot_code slot)) PROBE_NETWORK_CODES"

definition probe_stats :: "row list \<Rightarrow> probe_stat" where
  "probe_stats rows =
     \<lparr>ps_rows = length rows,
      ps_slots = map (\<lambda>slot. (slot, \<lparr>sl_ok = length (filter (slot_ok slot) rows),
                                     sl_network = length (filter (slot_network slot) rows),
                                     sl_unusable = length (filter (\<lambda>r. \<not> slot_ok slot r \<and> \<not> slot_network slot r) rows)\<rparr>))
                    PROBE_SLOTS,
      ps_changed = length (filter (\<lambda>r. pgetN r ''egress_change'' = PStr ''changed'') rows)\<rparr>"

definition slot_of :: "probe_stat \<Rightarrow> string \<Rightarrow> slot_stat" where
  "slot_of s slot = (case map_of (ps_slots s) slot of None \<Rightarrow> \<lparr>sl_ok = 0, sl_network = 0, sl_unusable = 0\<rparr> | Some x \<Rightarrow> x)"

type_synonym jkey = "string \<times> string \<times> string \<times> int"

definition journal_key :: "row \<Rightarrow> jkey" where
  "journal_key r = (str_of r ''cls'', str_of r ''proto'', str_of r ''dcls'', int_of r ''port'')"

definition bump :: "'k \<Rightarrow> int \<Rightarrow> ('k, int) dict \<Rightarrow> ('k, int) dict" where
  "bump k n d = dict_set k ((case dict_get d k of None \<Rightarrow> 0 | Some c \<Rightarrow> c) + n) d"

record journal_stat =
  js_keys :: "(jkey, int) dict"
  js_classes :: "(string, int) dict"

definition journal_stats :: "row list \<Rightarrow> journal_stat" where
  "journal_stats rows =
     \<lparr>js_keys = foldl (\<lambda>d r. bump (journal_key r) (int_of r ''n'') d) [] rows,
      js_classes = foldl (\<lambda>d r. bump (str_of r ''cls'') (int_of r ''n'') d) [] rows\<rparr>"

record audit_state =
  au_gap :: bool
  au_rejected :: bool
  au_codes :: "string list"

definition audit_view :: "row list list \<Rightarrow> audit_state" where
  "audit_view bucket_rows =
     (let rows = concat bucket_rows
      in \<lparr>au_gap = list_ex (\<lambda>r. pgetN r ''kind'' = PStr ''gap'') rows,
          au_rejected = list_ex (\<lambda>r. pgetN r ''kind'' \<noteq> PStr ''gap'') rows,
          au_codes = map (\<lambda>r. str_of r ''code'') rows\<rparr>)"

section \<open>Baseline and marks\<close>

record reference =
  rf_means :: "(string \<times> rat option) list"
  rf_usable :: bool
  rf_thresholds :: "(jkey, rat) dict"

definition key_threshold :: "journal_stat list \<Rightarrow> jkey \<Rightarrow> rat res" where
  "key_threshold journal k =
     res_bind (median_of (map (\<lambda>j. case dict_get (js_keys j) k of None \<Rightarrow> 0 | Some c \<Rightarrow> c) (take MIN_BASELINE_BUCKETS journal)))
       (\<lambda>m. Inr (max (of_int JOURNAL_BURST_MIN_COUNT) (JOURNAL_BURST_MULTIPLIER * m)))"

definition baseline :: "sample_stat list \<Rightarrow> journal_stat list \<Rightarrow> reference res" where
  "baseline samples journal =
     (let base = filter (\<lambda>s. MIN_SAMPLES_PER_BUCKET \<le> ss_rows s) (take MIN_BASELINE_BUCKETS samples);
          means = map (\<lambda>name. (name, if base = [] then None else Some (mean_of (map (\<lambda>s. mean_field s name) base)))) SAMPLE_COUNT_FIELDS;
          ks = remdups (concat (map (\<lambda>j. map fst (js_keys j)) journal))
      in res_bind (res_map (\<lambda>k. res_bind (key_threshold journal k) (\<lambda>t. Inr (k, t))) ks)
           (\<lambda>thresholds. Inr \<lparr>rf_means = means, rf_usable = (MIN_BASELINE_BUCKETS \<le> length base), rf_thresholds = thresholds\<rparr>))"

text \<open>The anti-flap loop of \<open>_probe_failures\<close> for one slot: the marked indices.\<close>

fun run_marks :: "nat \<Rightarrow> bool list \<Rightarrow> nat list \<Rightarrow> nat list \<Rightarrow> nat list" where
  "run_marks i [] run marks = (if PROBE_FAIL_MIN_BUCKETS \<le> length run then marks @ run else marks)"
| "run_marks i (f # fs) run marks =
     (if f then run_marks (Suc i) fs (run @ [i]) marks
      else run_marks (Suc i) fs [] (if PROBE_FAIL_MIN_BUCKETS \<le> length run then marks @ run else marks))"

definition slot_fails :: "string \<Rightarrow> probe_stat \<Rightarrow> bool" where
  "slot_fails slot s \<longleftrightarrow> 0 < sl_network (slot_of s slot) \<and> sl_ok (slot_of s slot) = 0"

definition probe_failures :: "probe_stat list \<Rightarrow> (string \<times> nat list) list" where
  "probe_failures probes = map (\<lambda>slot. (slot, run_marks 0 (map (slot_fails slot) probes) [] [])) PROBE_SLOTS"

definition slot_healthy :: "probe_stat \<Rightarrow> string \<Rightarrow> bool" where
  "slot_healthy s slot \<longleftrightarrow> 0 < sl_ok (slot_of s slot) \<and> sl_network (slot_of s slot) = 0 \<and> sl_unusable (slot_of s slot) = 0"

definition generic_tcp_healthy :: "probe_stat list \<Rightarrow> nat list \<Rightarrow> bool" where
  "generic_tcp_healthy probes indices \<longleftrightarrow>
     PROBE_HEALTH_MIN_BUCKETS \<le> length (filter (\<lambda>i. list_all (slot_healthy (probes ! i)) GENERIC_PROBE_SLOTS) indices)"

datatype journal_state = Complete | Incomplete | Absent

definition journal_view_state :: "string \<Rightarrow> audit_state \<Rightarrow> journal_state" where
  "journal_view_state reader_status audit =
     (if au_gap audit \<or> au_rejected audit then Incomplete
      else if reader_status = ''fresh'' then Complete
      else if reader_status \<in> {''stale'', ''invalid'', ''unreadable''} then Incomplete
      else Absent)"

section \<open>Candidate buckets\<close>

record anomaly =
  an_index :: nat
  an_connections :: "string list"
  an_device :: bool
  an_journal :: "jkey list"
  an_probe :: "string list"
  an_process :: "string list"

definition process_marks :: "bool \<Rightarrow> sample_stat \<Rightarrow> string list" where
  "process_marks window_has_samples s =
     (let low = max 1 (nat (py_int (of_nat (ss_rows s) * API_STALE_BUCKET_FRACTION)))
      in (if window_has_samples \<and> ss_rows s < MIN_SAMPLES_PER_BUCKET then [''sample_coverage_gap''] else [])
       @ (if 0 < ss_rows s \<and> low \<le> ss_stale s then [''api_stale''] else [])
       @ (if 0 < ss_rows s \<and> low \<le> ss_collector_stale s then [''collector_stale''] else []))"

definition dropped :: "rat option \<Rightarrow> rat \<Rightarrow> bool" where
  "dropped base value =
     (case base of None \<Rightarrow> False
      | Some b \<Rightarrow> COUNT_DROP_MIN_BASELINE \<le> b \<and> COUNT_DROP_MIN_ABSOLUTE \<le> b - value \<and> value \<le> b * (1 - COUNT_DROP_RATIO))"

definition connection_marks :: "reference \<Rightarrow> sample_stat \<Rightarrow> string list" where
  "connection_marks rf s =
     (if rf_usable rf \<and> MIN_SAMPLES_PER_BUCKET \<le> ss_rows s
      then filter (\<lambda>name. dropped (case map_of (rf_means rf) name of None \<Rightarrow> None | Some b \<Rightarrow> b) (mean_field s name)) SAMPLE_COUNT_FIELDS
      else [])"

definition journal_marks :: "reference \<Rightarrow> journal_stat \<Rightarrow> jkey list" where
  "journal_marks rf j =
     map fst (filter (\<lambda>(k, c). case dict_get (rf_thresholds rf) k of None \<Rightarrow> False | Some t \<Rightarrow> t \<le> of_int c) (js_keys j))"

definition probe_marks_at :: "(string \<times> nat list) list \<Rightarrow> nat \<Rightarrow> string list" where
  "probe_marks_at marks i = filter (\<lambda>slot. case map_of marks slot of None \<Rightarrow> False | Some is \<Rightarrow> i \<in> set is) PROBE_SLOTS"

definition families :: "anomaly \<Rightarrow> string list" where
  "families a =
     (if an_process a \<noteq> [] then [''process''] else [])
   @ (if an_connections a \<noteq> [] \<or> an_device a then [''connections''] else [])
   @ (if an_journal a \<noteq> [] then [''journal''] else [])
   @ (if an_probe a \<noteq> [] then [''probe''] else [])"

definition bucket_anomaly :: "nat \<Rightarrow> sample_stat list \<Rightarrow> bool list \<Rightarrow> journal_stat list \<Rightarrow> reference
    \<Rightarrow> (string \<times> nat list) list \<Rightarrow> bool \<Rightarrow> anomaly option" where
  "bucket_anomaly i samples quiet journal rf marks window_has_samples =
     (let a = \<lparr>an_index = i, an_connections = connection_marks rf (samples ! i), an_device = quiet ! i,
               an_journal = journal_marks rf (journal ! i), an_probe = probe_marks_at marks i,
               an_process = process_marks window_has_samples (samples ! i)\<rparr>
      in if families a = [] then None else Some a)"

section \<open>Observations and facts\<close>

definition observations_seen :: "sample_stat list \<Rightarrow> probe_stat list \<Rightarrow> journal_stat list \<Rightarrow> audit_state \<Rightarrow> bool \<Rightarrow> string list" where
  "observations_seen samples probes journal audit degraded =
     map (\<lambda>name. ''journal_cls_'' @ name) (concat (map (\<lambda>j. map fst (js_classes j)) journal))
   @ map (\<lambda>code. ''journal_audit_'' @ code) (au_codes audit)
   @ (if au_gap audit then [''journal_continuity_gap''] else [])
   @ (if au_rejected audit then [''journal_rejected_batch''] else [])
   @ (if list_ex (\<lambda>s. 0 < ss_rows s \<and> 0 < ss_stale s) samples then [''api_stale''] else [])
   @ (if list_ex (\<lambda>p. 0 < ps_changed p) probes then [''egress_ip_changed''] else [])
   @ (if degraded then [''history_degraded''] else [])
   @ (if list_ex (\<lambda>p. list_ex (\<lambda>slot. 0 < sl_unusable (slot_of p slot)) PROBE_SLOTS) probes
      then [''probe_source_unavailable''] else [])"

definition observations_unknown :: "sample_stat list \<Rightarrow> probe_stat list \<Rightarrow> string list" where
  "observations_unknown samples probes =
     (if list_ex (\<lambda>p. list_ex (\<lambda>slot. 0 < sl_unusable (slot_of p slot)) PROBE_SLOTS) probes
      then [''probe_evidence_unusable''] else [])
   @ (if \<not> list_ex (\<lambda>s. 0 < ss_rows s) samples then [''baseline_evidence_absent''] else [])
   @ (if \<not> list_ex (\<lambda>p. 0 < ps_rows p) probes then [''probe_evidence_absent''] else [])"

definition drop_token :: "string \<Rightarrow> string" where
  "drop_token name =
     (if name = ''total_active_connections'' then ''count_drop_total''
      else if name = ''reality_active_connections'' then ''count_drop_reality''
      else if name = ''hysteria2_active_connections'' then ''count_drop_hysteria2''
      else ''count_drop_other'')"

datatype burst = Reality | Hy2 | GenericTcp | Destination | Unattributed

fun burst_of :: "jkey \<Rightarrow> burst" where
  "burst_of (cls, proto, dcls, port) =
     (if proto = ''Reality'' then Reality
      else if proto = ''Hysteria2'' then Hy2
      else if proto = ''OTHER'' \<and> dcls \<in> set GENERIC_TCP_DCLS then GenericTcp
      else if proto = ''OTHER'' \<and> dcls \<noteq> ''NONE'' then Destination
      else Unattributed)"

fun burst_token :: "burst \<Rightarrow> string" where
  "burst_token Reality = ''journal_burst_reality''"
| "burst_token Hy2 = ''journal_burst_hysteria2''"
| "burst_token GenericTcp = ''journal_burst_other_generic''"
| "burst_token Destination = ''journal_burst_destination''"
| "burst_token Unattributed = ''journal_burst_unattributed''"

definition collected_seen :: "anomaly list \<Rightarrow> string list" where
  "collected_seen cs = concat (map (\<lambda>a.
       map drop_token (an_connections a)
     @ (if an_device a then [''all_devices_quiet''] else [])
     @ an_process a
     @ map (\<lambda>slot. ''probe_failed_'' @ slot) (an_probe a)
     @ map (\<lambda>k. burst_token (burst_of k)) (an_journal a)) cs)"

definition collected_unknown :: "anomaly list \<Rightarrow> string list" where
  "collected_unknown cs = concat (map (\<lambda>a. if an_device a then [''device_states_are_change_only''] else []) cs)"

record flags =
  fl_reality :: bool
  fl_hy2 :: bool
  fl_generic_journal :: bool
  fl_generic_probe :: bool
  fl_process :: bool
  fl_unattributed :: bool
  fl_reality_impact :: bool
  fl_hy2_impact :: bool
  fl_destination :: "(string \<times> int) list"

definition has_burst :: "burst \<Rightarrow> anomaly list \<Rightarrow> bool" where
  "has_burst b cs = list_ex (\<lambda>a. list_ex (\<lambda>k. burst_of k = b) (an_journal a)) cs"

definition collect :: "anomaly list \<Rightarrow> flags" where
  "collect cs =
     \<lparr>fl_reality = has_burst Reality cs, fl_hy2 = has_burst Hy2 cs, fl_generic_journal = has_burst GenericTcp cs,
      fl_generic_probe = list_ex (\<lambda>a. list_ex (\<lambda>slot. slot \<in> set GENERIC_PROBE_SLOTS) (an_probe a)) cs,
      fl_process = list_ex (\<lambda>a. an_process a \<noteq> []) cs, fl_unattributed = has_burst Unattributed cs,
      fl_reality_impact = list_ex (\<lambda>a. ''reality_active_connections'' \<in> set (an_connections a)) cs,
      fl_hy2_impact = list_ex (\<lambda>a. ''hysteria2_active_connections'' \<in> set (an_connections a)) cs,
      fl_destination = remdups (concat (map (\<lambda>a.
         map (\<lambda>(cls, proto, dcls, port). (dcls, port)) (filter (\<lambda>k. burst_of k = Destination) (an_journal a))) cs))\<rparr>"

fun add_to_runs :: "nat list list \<Rightarrow> nat \<Rightarrow> nat list list" where
  "add_to_runs [] i = [[i]]"
| "add_to_runs [r] i = (if r \<noteq> [] \<and> i = last r + CLUSTER_ADJACENCY_BUCKETS then [r @ [i]] else [r, [i]])"
| "add_to_runs (r # rs) i = r # add_to_runs rs i"

definition clusters :: "nat list \<Rightarrow> nat list list" where
  "clusters indices = foldl add_to_runs [] (sort indices)"

definition api_healthy :: "sample_stat list \<Rightarrow> nat list \<Rightarrow> bool" where
  "api_healthy samples indices \<longleftrightarrow> indices \<noteq> [] \<and>
     list_all (\<lambda>i. 0 < ss_rows (samples ! i) \<and> ss_stale (samples ! i) = 0 \<and> ss_collector_stale (samples ! i) = 0) indices"

section \<open>Attribution\<close>

text \<open>A verdict before sealing: its category and the unknowns added on the way (the status is \<open>incident\<close>).\<close>

definition guarded :: "string \<Rightarrow> bool \<Rightarrow> bool \<Rightarrow> bool \<Rightarrow> string \<times> string list" where
  "guarded category unattributed negatives_provable probe_seen =
     (let u = (if unattributed then [''unattributed_evidence_present''] else [])
      in if \<not> negatives_provable then (CATEGORY_INSUFFICIENT, u @ [''transport_negatives_unproven''])
         else (category, u @ (if \<not> probe_seen then [''probe_evidence_absent''] else [])))"

definition attribute_network :: "flags \<Rightarrow> bool \<Rightarrow> bool \<Rightarrow> bool \<Rightarrow> bool \<Rightarrow> string \<times> string list" where
  "attribute_network f probe_seen negatives_provable generic_healthy api_ok =
     (let reality = fl_reality f; hy2 = fl_hy2 f; shared = fl_reality_impact f \<and> fl_hy2_impact f
      in if fl_generic_journal f \<or> fl_generic_probe f
         then (if fl_generic_probe f \<and> \<not> fl_generic_journal f
                  \<and> \<not> (reality \<or> hy2 \<or> fl_reality_impact f \<or> fl_hy2_impact f)
               then (CATEGORY_INSUFFICIENT, [''probe_endpoint_confounded''])
               else (CATEGORY_VPS_OUTBOUND, []))
         else if shared \<or> reality \<and> hy2
         then (if \<not> shared then (CATEGORY_INSUFFICIENT, [''attribution_ambiguous''])
               else if \<not> (generic_healthy \<and> api_ok) then (CATEGORY_INSUFFICIENT, [''contemporaneous_negatives_unproven''])
               else guarded CATEGORY_COMMON_INBOUND (fl_unattributed f) negatives_provable probe_seen)
         else if reality \<and> \<not> hy2 then guarded CATEGORY_REALITY_TCP (fl_unattributed f) negatives_provable probe_seen
         else if hy2 \<and> \<not> reality then guarded CATEGORY_HY2_UDP (fl_unattributed f) negatives_provable probe_seen
         else (CATEGORY_INSUFFICIENT, [''attribution_ambiguous'']))"

definition attribute_window :: "flags \<Rightarrow> bool \<Rightarrow> bool \<Rightarrow> bool \<Rightarrow> bool \<Rightarrow> string \<times> string list" where
  "attribute_window f probe_seen negatives_provable generic_healthy api_ok =
     (let shared = fl_reality_impact f \<and> fl_hy2_impact f;
          network = fl_reality f \<or> fl_hy2 f \<or> fl_generic_journal f \<or> fl_generic_probe f \<or> fl_destination f \<noteq> [] \<or> shared;
          u = (if fl_destination f \<noteq> [] then [''no_target_specific_proof''] else [])
            @ (if 1 < length (fl_destination f) then [''multiple_destinations''] else [])
      in if fl_process f \<and> network then (CATEGORY_INSUFFICIENT, [''process_and_network_evidence_conflict''])
         else if fl_process f then (CATEGORY_VPS_PROCESS, [])
         else if fl_destination f \<noteq> [] \<and> \<not> (fl_reality f \<or> fl_hy2 f \<or> fl_generic_journal f \<or> fl_generic_probe f \<or> shared)
         then (CATEGORY_INSUFFICIENT, u)
         else (let (category, v) = attribute_network f probe_seen negatives_provable generic_healthy api_ok
               in (category, u @ v)))"

section \<open>The analysis\<close>

record evidence_bundle =
  b_samples :: "row list"
  b_devices :: "row list"
  b_probes :: "row list"
  b_journal :: "row list"
  b_audit :: "row list"
  b_degraded :: bool
  b_reader :: string

definition section_rows :: "row \<Rightarrow> string \<Rightarrow> row list" where
  "section_rows ev sec = (case pgetN ev sec of PList vs \<Rightarrow> map dict_items vs | _ \<Rightarrow> [])"

definition read_bundle :: "row \<Rightarrow> evidence_bundle" where
  "read_bundle ev =
     \<lparr>b_samples = section_rows ev ''samples'', b_devices = section_rows ev ''device_states'',
      b_probes = section_rows ev ''probe_rows'', b_journal = section_rows ev ''journal_events'',
      b_audit = section_rows ev ''audit'',
      b_degraded = (pgetN (dict_items (pgetN ev ''health'')) ''degraded'' = PBool True),
      b_reader = str_of (dict_items (pgetN ev ''reader'')) ''status''\<rparr>"

text \<open>The planes of a window: what \<open>_analyse_with_meta\<close> computes before it looks for candidates.\<close>

record planes =
  pl_samples :: "sample_stat list"
  pl_quiet :: "bool list"
  pl_probes :: "probe_stat list"
  pl_journal :: "journal_stat list"
  pl_audit :: audit_state

definition read_planes :: "evidence_bundle \<Rightarrow> rat \<Rightarrow> nat \<Rightarrow> planes res" where
  "read_planes b start buckets =
     res_bind (res_map sample_stats (bucketed (b_samples b) ''epoch'' start buckets)) (\<lambda>samples.
       let device_rows = bucketed (b_devices b) ''epoch'' start buckets;
           pairs_known = map pair_of (concat device_rows)
       in if \<not> list_all row_hashable (concat device_rows) then Inl TypeError
          else Inr \<lparr>pl_samples = samples, pl_quiet = map (\<lambda>rows. all_quiet rows pairs_known) device_rows,
                    pl_probes = map probe_stats (bucketed (b_probes b) ''epoch'' start buckets),
                    pl_journal = map journal_stats (bucketed (b_journal b) ''ts'' start buckets),
                    pl_audit = audit_view (bucketed (b_audit b) ''epoch'' start buckets)\<rparr>)"

definition health_note :: "planes \<Rightarrow> nat list \<Rightarrow> string list" where
  "health_note p indices = (if generic_tcp_healthy (pl_probes p) indices then [''probe_generic_tcp_healthy''] else [])"

definition corroborated :: "anomaly list \<Rightarrow> bool" where
  "corroborated cs \<longleftrightarrow> list_ex (\<lambda>a. list_ex (\<lambda>f. f \<in> set CORROBORATING_FAMILIES) (families a)) cs"

definition candidates_of :: "planes \<Rightarrow> reference \<Rightarrow> nat \<Rightarrow> anomaly list" where
  "candidates_of p rf buckets =
     (let window_has_samples = list_ex (\<lambda>s. 0 < ss_rows s) (pl_samples p); marks = probe_failures (pl_probes p)
      in List.map_filter (\<lambda>i. bucket_anomaly i (pl_samples p) (pl_quiet p) (pl_journal p) rf marks window_has_samples)
           [MIN_BASELINE_BUCKETS..<buckets])"

text \<open>The verdict once the candidates are known: status, category, evidence, unknowns and indices.\<close>

type_synonym verdict = "string \<times> string \<times> string list \<times> string list \<times> nat list"

definition quiet_verdict :: "planes \<Rightarrow> reference \<Rightarrow> evidence_bundle \<Rightarrow> nat \<Rightarrow> string list \<Rightarrow> string list \<Rightarrow> verdict" where
  "quiet_verdict p rf b buckets seen unknown =
     (let seen1 = seen @ health_note p [0..<buckets]
      in if rf_usable rf \<and> (b_probes b \<noteq> [] \<or> b_journal b \<noteq> [])
         then (STATUS_NO_INCIDENT, CATEGORY_NONE, seen1 @ [''no_anomaly''], unknown, [])
         else (STATUS_INDETERMINATE, CATEGORY_INSUFFICIENT, seen1, unknown, []))"

definition anomaly_verdict :: "planes \<Rightarrow> evidence_bundle \<Rightarrow> nat \<Rightarrow> journal_state \<Rightarrow> anomaly list \<Rightarrow> string list \<Rightarrow> string list \<Rightarrow> verdict" where
  "anomaly_verdict p b buckets js cs seen unknown =
     (let runs = clusters (map an_index cs);
          seen1 = seen @ collected_seen cs; unknown1 = unknown @ collected_unknown cs;
          everywhere = [0..<buckets]
      in if \<not> corroborated cs
         then (STATUS_NO_INCIDENT, CATEGORY_NONE, seen1 @ health_note p everywhere,
               unknown1 @ [''count_drop_only'', ''no_corroboration''], [])
         else if 1 < length runs
         then (STATUS_INCIDENT, CATEGORY_INSUFFICIENT, seen1 @ health_note p everywhere,
               unknown1 @ [''multiple_anomaly_clusters''], sort (map an_index cs))
         else (let indices = remdups (concat (take 1 runs));
                   healthy = generic_tcp_healthy (pl_probes p) indices;
                   (category, added) = attribute_window (collect cs) (b_probes b \<noteq> [])
                      (js = Complete \<or> healthy) healthy (api_healthy (pl_samples p) indices)
               in (STATUS_INCIDENT, category, seen1 @ health_note p indices, unknown1 @ added, sort indices)))"

definition journal_unknown :: "journal_state \<Rightarrow> string list" where
  "journal_unknown js = (case js of Complete \<Rightarrow> [] | Incomplete \<Rightarrow> [''journal_evidence_incomplete'']
     | Absent \<Rightarrow> [''journal_evidence_absent''])"

definition window_verdict :: "planes \<Rightarrow> evidence_bundle \<Rightarrow> nat \<Rightarrow> verdict res" where
  "window_verdict p b buckets =
     (let seen = observations_seen (pl_samples p) (pl_probes p) (pl_journal p) (pl_audit p) (b_degraded b);
          unknown = observations_unknown (pl_samples p) (pl_probes p)
      in if buckets \<le> MIN_BASELINE_BUCKETS
         then Inr (STATUS_INDETERMINATE, CATEGORY_INSUFFICIENT, seen, unknown @ [''baseline_evidence_absent''], [])
         else res_bind (baseline (pl_samples p) (pl_journal p)) (\<lambda>rf.
           let js = journal_view_state (b_reader b) (pl_audit p);
               unknown1 = unknown @ (if rf_usable rf then [] else [''baseline_evidence_absent'']) @ journal_unknown js;
               cs = candidates_of p rf buckets
           in Inr (if cs = [] then quiet_verdict p rf b buckets seen unknown1
                   else anomaly_verdict p b buckets js cs seen unknown1)))"

definition analyse_with_meta :: "evidence_bundle \<Rightarrow> rat \<Rightarrow> nat \<Rightarrow> (classification \<times> nat list) res" where
  "analyse_with_meta b start buckets =
     res_bind (read_planes b start buckets) (\<lambda>p.
     res_bind (window_verdict p b buckets) (\<lambda>(status, category, seen, unknown, indices).
       Inr (seal status category start (start + of_nat buckets * BUCKET_SECONDS) buckets seen unknown, indices)))"

definition refused :: "pyval \<Rightarrow> string list \<Rightarrow> detection res" where
  "refused evidence reasons =
     res_bind (echo_window evidence) (\<lambda>(start, stop, count).
       Inr \<lparr>de_classification = seal STATUS_INDETERMINATE CATEGORY_INSUFFICIENT start stop count [] reasons,
            de_indices = [], de_first = None, de_last = None\<rparr>)"

definition detect :: "pyval \<Rightarrow> detection res" where
  "detect evidence =
     res_bind (refusals evidence) (\<lambda>reasons.
       if reasons \<noteq> [] then refused evidence reasons
       else (let ev = dict_items evidence; w = dict_items (pgetN ev ''window'');
                 start = num_of w ''start_epoch''; stop = num_of w ''end_epoch'';
                 count = window_buckets start stop
             in res_bind (analyse_with_meta (read_bundle ev) start count) (\<lambda>(c, indices).
                  Inr (if indices = []
                       then \<lparr>de_classification = c, de_indices = [], de_first = None, de_last = None\<rparr>
                       else \<lparr>de_classification = c, de_indices = indices,
                             de_first = Some (start + of_nat (hd indices) * BUCKET_SECONDS),
                             de_last = Some (start + of_nat (last indices + 1) * BUCKET_SECONDS)\<rparr>))))"

definition classify :: "pyval \<Rightarrow> classification res" where
  "classify evidence = res_bind (detect evidence) (\<lambda>d. Inr (de_classification d))"

section \<open>The wall\<close>

definition closed_result :: "classification \<Rightarrow> bool" where
  "closed_result c \<longleftrightarrow> pairing_valid (cl_status c) (cl_category c) \<and>
     set (cl_evidence c) \<subseteq> set EVIDENCE_TOKENS \<and> set (cl_unknowns c) \<subseteq> set UNKNOWN_TOKENS \<and>
     sorted (cl_evidence c) \<and> distinct (cl_evidence c) \<and> sorted (cl_unknowns c) \<and> distinct (cl_unknowns c) \<and>
     (cl_status c = STATUS_INCIDENT \<longrightarrow> ''root_cause_not_established'' \<in> set (cl_unknowns c))"

lemma unknown_tokens_in:
  "''root_cause_not_established'' \<in> set UNKNOWN_TOKENS" "''attribution_ambiguous'' \<in> set UNKNOWN_TOKENS"
  unfolding UNKNOWN_TOKENS_def set_remdups set_append by (simp_all add: BASE_UNKNOWN_TOKENS_def)

lemma emittable: "CATEGORY_INSUFFICIENT \<in> set EMITTABLE_CATEGORIES" "CATEGORY_DESTINATION \<notin> set EMITTABLE_CATEGORIES"
  by (simp_all add: EMITTABLE_CATEGORIES_def CATEGORIES_def category_defs)

lemma degraded_closed: "closed_result (degraded_result start stop buckets)"
  using unknown_tokens_in emittable
  by (simp add: closed_result_def degraded_result_def pairing_valid_def status_defs)

lemma seal_closed: "closed_result (seal status category start stop buckets evidence unknowns)"
proof (cases "(status \<notin> set STATUSES \<or> \<not> pairing_valid status category) \<or>
    (\<not> set evidence \<subseteq> set EVIDENCE_TOKENS \<or> \<not> set unknowns \<subseteq> set UNKNOWN_TOKENS)")
  case True
  then have "seal status category start stop buckets evidence unknowns = degraded_result start stop buckets"
    unfolding seal_def by (metis (full_types))
  then show ?thesis by (simp add: degraded_closed)
next
  case False
  then show ?thesis
    using unknown_tokens_in by (simp add: seal_def closed_result_def Let_def)
qed

lemma seal_fields [simp]:
  "cl_window_start (seal st ca start stop b e u) = start" "cl_window_end (seal st ca start stop b e u) = stop"
  "cl_buckets (seal st ca start stop b e u) = b"
  by (simp_all add: seal_def degraded_result_def Let_def)

text \<open>A sealed incident is what was handed to the wall.\<close>

lemma seal_incident:
  assumes "cl_status (seal status category start stop buckets evidence unknowns) = STATUS_INCIDENT"
  shows "status = STATUS_INCIDENT" "cl_category (seal status category start stop buckets evidence unknowns) = category"
    "set (cl_evidence (seal status category start stop buckets evidence unknowns)) = set evidence"
    "set (cl_unknowns (seal status category start stop buckets evidence unknowns)) = insert ''root_cause_not_established'' (set unknowns)"
  using assms by (auto simp: seal_def degraded_result_def status_defs Let_def split: if_splits)

section \<open>Windows\<close>

lemma window_count_le:
  assumes "valid_window w = Inr True"
  shows "window_buckets (num_of (dict_items w) ''start_epoch'') (num_of (dict_items w) ''end_epoch'') \<le> MAX_BUCKETS"
proof -
  let ?s = "num_of (dict_items w) ''start_epoch''" and ?e = "num_of (dict_items w) ''end_epoch''"
  from assms have "?e - ?s \<le> of_nat MAX_BUCKETS * BUCKET_SECONDS"
    by (auto simp: valid_window_def window_bounds_ok_def num_of_def res_bind_eq_Inr split: pyval.splits if_splits)
  then have q: "(?e - ?s) / BUCKET_SECONDS \<le> 60"
    by (simp add: MAX_BUCKETS_def BUCKET_SECONDS_def)
  have "round_half_even ((?e - ?s) / BUCKET_SECONDS) \<le> 60"
  proof (cases "(?e - ?s) / BUCKET_SECONDS = 60")
    case True
    then show ?thesis by (simp add: round_half_even_def)
  next
    case False
    with q have "\<lfloor>(?e - ?s) / BUCKET_SECONDS\<rfloor> < 60" by linarith
    then show ?thesis by (auto simp: round_half_even_def Let_def)
  qed
  then show ?thesis by (simp add: window_buckets_def MAX_BUCKETS_def)
qed

lemma echo_window_le: "echo_window e = Inr (start, stop, n) \<Longrightarrow> n \<le> MAX_BUCKETS"
  using window_count_le by (auto simp: echo_window_def res_bind_eq_Inr Let_def split: pyval.splits if_splits)

lemma refusals_none:
  assumes "refusals e = Inr []"
  shows "\<exists>ev. e = PDict ev \<and> valid_window (pgetN ev ''window'') = Inr True"
  using assms
  by (auto simp: refusals_def res_bind_eq_Inr split: pyval.splits if_splits)

text \<open>The two ways \<open>detect\<close> returns.\<close>

lemma detect_cases:
  assumes "detect e = Inr d"
  obtains
    (refused) reasons start stop n where "refusals e = Inr reasons" "reasons \<noteq> []" "n \<le> MAX_BUCKETS"
      "d = \<lparr>de_classification = seal STATUS_INDETERMINATE CATEGORY_INSUFFICIENT start stop n [] reasons,
            de_indices = [], de_first = None, de_last = None\<rparr>"
  | (analysed) start n b p st ca seen unknown idx where "n \<le> MAX_BUCKETS"
      "window_verdict p b n = Inr (st, ca, seen, unknown, idx)"
      "de_classification d = seal st ca start (start + of_nat n * BUCKET_SECONDS) n seen unknown"
      "de_indices d = idx"
      "de_first d = (if idx = [] then None else Some (start + of_nat (hd idx) * BUCKET_SECONDS))"
      "de_last d = (if idx = [] then None else Some (start + of_nat (last idx + 1) * BUCKET_SECONDS))"
proof -
  from assms obtain reasons where r: "refusals e = Inr reasons" by (auto simp: detect_def res_bind_eq_Inr)
  show thesis
  proof (cases "reasons = []")
    case False
    with assms r obtain start stop n where "echo_window e = Inr (start, stop, n)"
      "d = \<lparr>de_classification = seal STATUS_INDETERMINATE CATEGORY_INSUFFICIENT start stop n [] reasons,
            de_indices = [], de_first = None, de_last = None\<rparr>"
      by (auto simp: detect_def refused_def res_bind_eq_Inr)
    with r False echo_window_le show thesis by (intro refused)
  next
    case True
    with r refusals_none obtain ev where ev: "e = PDict ev" "valid_window (pgetN ev ''window'') = Inr True" by blast
    let ?w = "dict_items (pgetN ev ''window'')"
    let ?n = "window_buckets (num_of ?w ''start_epoch'') (num_of ?w ''end_epoch'')"
    from assms r True ev obtain c idx where
      an: "analyse_with_meta (read_bundle ev) (num_of ?w ''start_epoch'') ?n = Inr (c, idx)" and
      d: "d = (if idx = [] then \<lparr>de_classification = c, de_indices = [], de_first = None, de_last = None\<rparr>
               else \<lparr>de_classification = c, de_indices = idx,
                     de_first = Some (num_of ?w ''start_epoch'' + of_nat (hd idx) * BUCKET_SECONDS),
                     de_last = Some (num_of ?w ''start_epoch'' + of_nat (last idx + 1) * BUCKET_SECONDS)\<rparr>)"
      by (auto simp: detect_def res_bind_eq_Inr Let_def)
    from an obtain p st ca seen unknown where
      "window_verdict p (read_bundle ev) ?n = Inr (st, ca, seen, unknown, idx)"
      "c = seal st ca (num_of ?w ''start_epoch'') (num_of ?w ''start_epoch'' + of_nat ?n * BUCKET_SECONDS) ?n seen unknown"
      by (auto simp: analyse_with_meta_def res_bind_eq_Inr)
    with d window_count_le [OF ev(2)] show thesis by (intro analysed) auto
  qed
qed

lemma detect_closed: "detect e = Inr d \<Longrightarrow> closed_result (de_classification d) \<and> cl_buckets (de_classification d) \<le> MAX_BUCKETS"
  by (cases rule: detect_cases) (auto simp: seal_closed)

lemma closed_bits:
  assumes "closed_result c"
  shows "\<exists>v. evidence_to_bits (PList (map PStr (cl_evidence c))) = Some v \<and> 0 \<le> v \<and> v < 2 ^ 45"
    and "\<exists>w. unknown_to_bits (PList (map PStr (cl_unknowns c))) = Some w \<and> 0 \<le> w \<and> w < 2 ^ 28"
  using assms evidence_bits.encode_decode [of "cl_evidence c"] unknown_bits.encode_decode [of "cl_unknowns c"]
  unfolding evidence_to_bits_def unknown_to_bits_def vocabulary_widths bit_order_sets closed_result_def by blast+

text \<open>
  C34: Every verdict is closed and storable. Whatever bundle is given, a returned classification has a
  known status with a category that may go with it, is never \<open>destination_specific\<close>, covers at most sixty
  buckets, carries only vocabulary tokens, each once and in order, so that both tuples fit their stored
  bitsets, names the root cause as unknown whenever it reports an incident, and is the one \<open>classify\<close>
  returns.
\<close>

theorem verdict_is_closed:
  assumes "detect e = Inr d" and "c = de_classification d"
  shows "classify e = Inr c \<and> pairing_valid (cl_status c) (cl_category c) \<and> cl_category c \<noteq> CATEGORY_DESTINATION \<and>
     cl_buckets c \<le> MAX_BUCKETS \<and> sorted (cl_evidence c) \<and> distinct (cl_evidence c) \<and>
     sorted (cl_unknowns c) \<and> distinct (cl_unknowns c) \<and>
     (\<exists>v w. evidence_to_bits (PList (map PStr (cl_evidence c))) = Some v \<and>
            unknown_to_bits (PList (map PStr (cl_unknowns c))) = Some w \<and> 0 \<le> v \<and> v < 2 ^ 45 \<and> 0 \<le> w \<and> w < 2 ^ 28) \<and>
     (cl_status c = STATUS_INCIDENT \<longrightarrow> ''root_cause_not_established'' \<in> set (cl_unknowns c))"
proof -
  have closed: "closed_result c" and n: "cl_buckets c \<le> MAX_BUCKETS" using detect_closed [OF assms(1)] by (simp_all add: assms(2))
  note ev = closed_bits(1) [OF closed] and un = closed_bits(2) [OF closed]
  have "cl_category c \<noteq> CATEGORY_DESTINATION"
    using closed emittable by (auto simp: closed_result_def pairing_valid_def category_defs)
  moreover have "classify e = Inr c" using assms by (simp add: classify_def)
  ultimately show ?thesis using closed n ev un unfolding closed_result_def by blast
qed

text \<open>A concrete bundle: four buckets, the last one with a single sample.\<close>

definition sample_row :: "pyval" where
  "sample_row = PDict [(PStr ''epoch'', PInt 6180), (PStr ''collector_stale'', PInt 0),
     (PStr ''api_status'', PStr ''CONNECTED''), (PStr ''total_active_connections'', PInt 4),
     (PStr ''reality_active_connections'', PInt 4), (PStr ''hysteria2_active_connections'', PInt 0),
     (PStr ''other_active_connections'', PInt 0)]"

definition sample_bundle :: "pyval list \<Rightarrow> pyval list \<Rightarrow> pyval list \<Rightarrow> pyval" where
  "sample_bundle samples devices journal = PDict [
     (PStr ''window'', PDict [(PStr ''start_epoch'', PInt 6000), (PStr ''end_epoch'', PInt 6240)]),
     (PStr ''health'', PDict [(PStr ''enabled'', PBool True), (PStr ''degraded'', PBool False),
                            (PStr ''last_error_code'', PNone)]),
     (PStr ''reader'', PDict [(PStr ''status'', PStr ''fresh'')]),
     (PStr ''samples'', PList samples), (PStr ''device_states'', PList devices), (PStr ''probe_rows'', PList []),
     (PStr ''journal_events'', PList journal), (PStr ''audit'', PList [])]"

definition sample_detection :: detection where
  "sample_detection =
     \<lparr>de_classification = \<lparr>cl_version = 1, cl_status = ''incident'', cl_category = ''vps_process_or_api'',
        cl_window_start = 6000, cl_window_end = 6240, cl_buckets = 4, cl_evidence = [''sample_coverage_gap''],
        cl_unknowns = [''baseline_evidence_absent'', ''probe_evidence_absent'', ''root_cause_not_established'']\<rparr>,
      de_indices = [3], de_first = Some 6180, de_last = Some 6240\<rparr>"

lemma sample_bundle_verdict: "detect (sample_bundle [sample_row] [] []) = Inr sample_detection"
  by code_simp

theorem verdict_is_closed_witness:
  "classify (sample_bundle [sample_row] [] []) = Inr (de_classification sample_detection) \<and>
     cl_status (de_classification sample_detection) = STATUS_INCIDENT \<and>
     ''root_cause_not_established'' \<in> set (cl_unknowns (de_classification sample_detection))"
  using verdict_is_closed [OF sample_bundle_verdict refl] by (simp add: sample_detection_def STATUS_INCIDENT_def)

end
