(* ===== verification/Attribution.thy ===== *)
theory Attribution
  imports Classifier
begin

text \<open>
  What the verdicts of the incident classifier rest on: the abstract specification of attribution and its
  refinement by the code, the positions of the anomalous buckets, and the vocabulary of accepted bundles.
\<close>

section \<open>What an incident rests on\<close>

text \<open>
  The abstract specification of attribution: which tokens an evidence tuple must hold, and which planes
  must be silent in it, before a category may be named.
\<close>

definition process_faults :: "string set" where
  "process_faults = {''sample_coverage_gap'', ''api_stale'', ''collector_stale''}"

definition probe_faults :: "string set" where
  "probe_faults = {''probe_failed_dns'', ''probe_failed_https'', ''probe_failed_udp'', ''probe_failed_egress''}"

definition generic_faults :: "string set" where
  "generic_faults = {''probe_failed_dns'', ''probe_failed_https'', ''probe_failed_egress'', ''journal_burst_other_generic''}"

definition burst_tokens :: "string set" where
  "burst_tokens = {''journal_burst_reality'', ''journal_burst_hysteria2'', ''journal_burst_other_generic'',
     ''journal_burst_destination'', ''journal_burst_unattributed''}"

definition both_transports_lost :: "string set \<Rightarrow> bool" where
  "both_transports_lost ev \<longleftrightarrow> ''count_drop_reality'' \<in> ev \<and> ''count_drop_hysteria2'' \<in> ev"

definition no_process_fault :: "string set \<Rightarrow> bool" where
  "no_process_fault ev \<longleftrightarrow> ''sample_coverage_gap'' \<notin> ev \<and> ''collector_stale'' \<notin> ev"

definition supported :: "string \<Rightarrow> string set \<Rightarrow> bool" where
  "supported category ev \<longleftrightarrow>
     (if category = CATEGORY_VPS_PROCESS then
        ev \<inter> process_faults \<noteq> {} \<and> ev \<inter> (generic_faults \<union> (burst_tokens - {''journal_burst_unattributed''})) = {}
        \<and> \<not> both_transports_lost ev
      else if category = CATEGORY_VPS_OUTBOUND then
        no_process_fault ev \<and> ev \<inter> generic_faults \<noteq> {}
        \<and> (''journal_burst_other_generic'' \<in> ev
            \<or> ev \<inter> {''journal_burst_reality'', ''journal_burst_hysteria2'', ''count_drop_reality'', ''count_drop_hysteria2''} \<noteq> {})
      else if category = CATEGORY_COMMON_INBOUND then
        no_process_fault ev \<and> ev \<inter> generic_faults = {} \<and> both_transports_lost ev \<and> ''probe_generic_tcp_healthy'' \<in> ev
      else if category = CATEGORY_REALITY_TCP then
        no_process_fault ev \<and> ev \<inter> generic_faults = {} \<and> \<not> both_transports_lost ev
        \<and> ''journal_burst_reality'' \<in> ev \<and> ''journal_burst_hysteria2'' \<notin> ev
      else if category = CATEGORY_HY2_UDP then
        no_process_fault ev \<and> ev \<inter> generic_faults = {} \<and> \<not> both_transports_lost ev
        \<and> ''journal_burst_hysteria2'' \<in> ev \<and> ''journal_burst_reality'' \<notin> ev
      else category = CATEGORY_INSUFFICIENT)"

lemma category_neq:
  "CATEGORY_VPS_PROCESS \<noteq> CATEGORY_VPS_OUTBOUND" "CATEGORY_VPS_PROCESS \<noteq> CATEGORY_COMMON_INBOUND" "CATEGORY_VPS_PROCESS \<noteq> CATEGORY_REALITY_TCP"
  "CATEGORY_VPS_PROCESS \<noteq> CATEGORY_HY2_UDP" "CATEGORY_VPS_PROCESS \<noteq> CATEGORY_INSUFFICIENT" "CATEGORY_VPS_OUTBOUND \<noteq> CATEGORY_VPS_PROCESS"
  "CATEGORY_VPS_OUTBOUND \<noteq> CATEGORY_COMMON_INBOUND" "CATEGORY_VPS_OUTBOUND \<noteq> CATEGORY_REALITY_TCP" "CATEGORY_VPS_OUTBOUND \<noteq> CATEGORY_HY2_UDP"
  "CATEGORY_VPS_OUTBOUND \<noteq> CATEGORY_INSUFFICIENT" "CATEGORY_COMMON_INBOUND \<noteq> CATEGORY_VPS_PROCESS" "CATEGORY_COMMON_INBOUND \<noteq> CATEGORY_VPS_OUTBOUND"
  "CATEGORY_COMMON_INBOUND \<noteq> CATEGORY_REALITY_TCP" "CATEGORY_COMMON_INBOUND \<noteq> CATEGORY_HY2_UDP" "CATEGORY_COMMON_INBOUND \<noteq> CATEGORY_INSUFFICIENT"
  "CATEGORY_REALITY_TCP \<noteq> CATEGORY_VPS_PROCESS" "CATEGORY_REALITY_TCP \<noteq> CATEGORY_VPS_OUTBOUND" "CATEGORY_REALITY_TCP \<noteq> CATEGORY_COMMON_INBOUND"
  "CATEGORY_REALITY_TCP \<noteq> CATEGORY_HY2_UDP" "CATEGORY_REALITY_TCP \<noteq> CATEGORY_INSUFFICIENT" "CATEGORY_HY2_UDP \<noteq> CATEGORY_VPS_PROCESS"
  "CATEGORY_HY2_UDP \<noteq> CATEGORY_VPS_OUTBOUND" "CATEGORY_HY2_UDP \<noteq> CATEGORY_COMMON_INBOUND" "CATEGORY_HY2_UDP \<noteq> CATEGORY_REALITY_TCP"
  "CATEGORY_HY2_UDP \<noteq> CATEGORY_INSUFFICIENT" "CATEGORY_INSUFFICIENT \<noteq> CATEGORY_VPS_PROCESS" "CATEGORY_INSUFFICIENT \<noteq> CATEGORY_VPS_OUTBOUND"
  "CATEGORY_INSUFFICIENT \<noteq> CATEGORY_COMMON_INBOUND" "CATEGORY_INSUFFICIENT \<noteq> CATEGORY_REALITY_TCP" "CATEGORY_INSUFFICIENT \<noteq> CATEGORY_HY2_UDP"
  by (simp_all add: category_defs)

text \<open>The tokens a candidate can leave, read back as the flags of the attribution.\<close>

definition anomaly_ok :: "anomaly \<Rightarrow> bool" where
  "anomaly_ok a \<longleftrightarrow> set (an_process a) \<subseteq> process_faults \<and> set (an_probe a) \<subseteq> set PROBE_SLOTS
     \<and> set (an_connections a) \<subseteq> set SAMPLE_COUNT_FIELDS"

lemma process_marks_faults: "set (process_marks has s) \<subseteq> process_faults"
  by (auto simp: process_marks_def Let_def process_faults_def)

lemma bucket_anomaly_Some:
  assumes "bucket_anomaly i samples quiet journal rf marks has = Some a"
  shows "an_index a = i" "families a \<noteq> []" "anomaly_ok a"
proof -
  have a: "a = \<lparr>an_index = i, an_connections = connection_marks rf (samples ! i), an_device = quiet ! i,
               an_journal = journal_marks rf (journal ! i), an_probe = probe_marks_at marks i,
               an_process = process_marks has (samples ! i)\<rparr> \<and> families a \<noteq> []"
    using assms unfolding bucket_anomaly_def Let_def by (metis option.distinct(1) option.inject)
  then show "an_index a = i" by simp
  from a show "families a \<noteq> []" by (rule conjunct2)
  have "set (connection_marks rf (samples ! i)) \<subseteq> set SAMPLE_COUNT_FIELDS" by (auto simp: connection_marks_def)
  moreover have "set (probe_marks_at marks i) \<subseteq> set PROBE_SLOTS" by (auto simp: probe_marks_at_def)
  ultimately show "anomaly_ok a" using a process_marks_faults [of has "samples ! i"] by (simp add: anomaly_ok_def)
qed

lemma candidates_ok: "a \<in> set (candidates_of p rf n) \<Longrightarrow> anomaly_ok a"
  by (auto simp: candidates_of_def Let_def List.map_filter_def dest: bucket_anomaly_Some(3))

lemma count_fields: "set SAMPLE_COUNT_FIELDS = {''total_active_connections'', ''reality_active_connections'',
    ''hysteria2_active_connections'', ''other_active_connections''}"
  by (simp add: SAMPLE_COUNT_FIELDS_def)

lemma probe_slots: "set PROBE_SLOTS = {''dns'', ''https'', ''udp'', ''egress''}"
  "set GENERIC_PROBE_SLOTS = {''dns'', ''https'', ''egress''}"
  by (simp_all add: PROBE_SLOTS_def GENERIC_PROBE_SLOTS_def)

definition probe_token :: "string \<Rightarrow> string" where
  "probe_token slot = ''probe_failed_'' @ slot"

lemma burst_token_cases: "burst_token b \<in> burst_tokens"
  by (cases b) (simp_all add: burst_tokens_def)

lemma token_kinds:
  "take 3 (drop_token n) = ''cou''" "take 3 (probe_token s) = ''pro''" "take 3 (burst_token b) = ''jou''"
  "take 3 ''all_devices_quiet'' = ''all''" "t \<in> process_faults \<Longrightarrow> take 3 t \<in> {''sam'', ''api'', ''col''}"
proof -
  show "take 3 (drop_token n) = ''cou''" by (simp add: drop_token_def)
  show "take 3 (probe_token s) = ''pro''" by (simp add: probe_token_def)
  show "take 3 (burst_token b) = ''jou''" by (cases b) simp_all
  show "take 3 ''all_devices_quiet'' = ''all''" by simp
  show "take 3 t \<in> {''sam'', ''api'', ''col''}" if "t \<in> process_faults" using that by (auto simp: process_faults_def)
qed

lemma tokens_apart:
  "drop_token n \<noteq> probe_token s" "drop_token n \<noteq> burst_token b" "drop_token n \<noteq> ''all_devices_quiet''"
  "drop_token n \<notin> process_faults" "probe_token s \<noteq> burst_token b" "probe_token s \<noteq> ''all_devices_quiet''"
  "probe_token s \<notin> process_faults" "burst_token b \<noteq> ''all_devices_quiet''" "burst_token b \<notin> process_faults"
  "''all_devices_quiet'' \<notin> process_faults"
proof -
  note k = token_kinds(1) [of n] token_kinds(2) [of s] token_kinds(3) [of b] token_kinds(4)
  show "drop_token n \<noteq> probe_token s" by (rule notI, drule arg_cong [of _ _ "take 3"]) (simp only: k, simp)
  show "drop_token n \<noteq> burst_token b" by (rule notI, drule arg_cong [of _ _ "take 3"]) (simp only: k, simp)
  show "drop_token n \<noteq> ''all_devices_quiet''" by (rule notI, drule arg_cong [of _ _ "take 3"]) (simp only: k, simp)
  show "probe_token s \<noteq> burst_token b" by (rule notI, drule arg_cong [of _ _ "take 3"]) (simp only: k, simp)
  show "probe_token s \<noteq> ''all_devices_quiet''" by (rule notI, drule arg_cong [of _ _ "take 3"]) (simp only: k, simp)
  show "burst_token b \<noteq> ''all_devices_quiet''" by (rule notI, drule arg_cong [of _ _ "take 3"]) (simp only: k, simp)
  show "drop_token n \<notin> process_faults" by (rule notI, drule token_kinds(5)) (simp only: k, simp)
  show "probe_token s \<notin> process_faults" by (rule notI, drule token_kinds(5)) (simp only: k, simp)
  show "burst_token b \<notin> process_faults" by (rule notI, drule token_kinds(5)) (simp only: k, simp)
  show "''all_devices_quiet'' \<notin> process_faults" by (rule notI, drule token_kinds(5)) (simp only: k, simp)
qed

definition left_by :: "anomaly \<Rightarrow> string set" where
  "left_by a = drop_token ` set (an_connections a) \<union> (if an_device a then {''all_devices_quiet''} else {})
     \<union> set (an_process a) \<union> probe_token ` set (an_probe a) \<union> (\<lambda>k. burst_token (burst_of k)) ` set (an_journal a)"

lemma set_collected: "set (collected_seen cs) = (\<Union>a\<in>set cs. left_by a)"
  unfolding collected_seen_def left_by_def probe_token_def by (induction cs) auto

lemma burst_token_inj: "burst_token b = burst_token b' \<longleftrightarrow> b = b'"
  by (cases b; cases b') simp_all

lemma probe_token_inj: "probe_token s = probe_token s' \<longleftrightarrow> s = s'"
  by (simp add: probe_token_def)

lemma drop_token_inj:
  "x \<in> set SAMPLE_COUNT_FIELDS \<Longrightarrow> y \<in> set SAMPLE_COUNT_FIELDS \<Longrightarrow> drop_token x = drop_token y \<longleftrightarrow> x = y"
  by (auto simp: count_fields drop_token_def)

lemma left_by_iff:
  assumes "anomaly_ok a"
  shows "burst_token b \<in> left_by a \<longleftrightarrow> (\<exists>k\<in>set (an_journal a). burst_of k = b)"
    and "probe_token s \<in> left_by a \<longleftrightarrow> s \<in> set (an_probe a)"
    and "n \<in> set SAMPLE_COUNT_FIELDS \<Longrightarrow> drop_token n \<in> left_by a \<longleftrightarrow> n \<in> set (an_connections a)"
    and "left_by a \<inter> process_faults = set (an_process a)"
proof -
  have p: "set (an_process a) \<subseteq> process_faults" and c: "set (an_connections a) \<subseteq> set SAMPLE_COUNT_FIELDS"
    using assms by (simp_all add: anomaly_ok_def)
  note apart = tokens_apart tokens_apart(1,2,3,5,6,8) [THEN not_sym]
  show "burst_token b \<in> left_by a \<longleftrightarrow> (\<exists>k\<in>set (an_journal a). burst_of k = b)"
    using subsetD [OF p, of "burst_token b"] by (auto simp: left_by_def burst_token_inj image_iff apart)
  show "probe_token s \<in> left_by a \<longleftrightarrow> s \<in> set (an_probe a)"
    using subsetD [OF p, of "probe_token s"] by (auto simp: left_by_def probe_token_inj image_iff apart)
  show "drop_token n \<in> left_by a \<longleftrightarrow> n \<in> set (an_connections a)" if n: "n \<in> set SAMPLE_COUNT_FIELDS"
    using subsetD [OF p, of "drop_token n"] subsetD [OF c] drop_token_inj [OF n]
    by (auto simp: left_by_def image_iff apart)
  show "left_by a \<inter> process_faults = set (an_process a)"
    using p by (auto simp: left_by_def apart)
qed

lemma collected_flags:
  assumes "\<forall>a\<in>set cs. anomaly_ok a"
  shows "burst_token b \<in> set (collected_seen cs) \<longleftrightarrow> has_burst b cs"
    and "probe_token s \<in> set (collected_seen cs) \<longleftrightarrow> list_ex (\<lambda>a. s \<in> set (an_probe a)) cs"
    and "n \<in> set SAMPLE_COUNT_FIELDS \<Longrightarrow> drop_token n \<in> set (collected_seen cs) \<longleftrightarrow> list_ex (\<lambda>a. n \<in> set (an_connections a)) cs"
    and "set (collected_seen cs) \<inter> process_faults = (\<Union>a\<in>set cs. set (an_process a))"
proof -
  note l = left_by_iff [OF bspec [OF assms]]
  show "burst_token b \<in> set (collected_seen cs) \<longleftrightarrow> has_burst b cs"
    by (simp add: set_collected has_burst_def list_ex_iff l(1) cong: bex_cong)
  show "probe_token s \<in> set (collected_seen cs) \<longleftrightarrow> list_ex (\<lambda>a. s \<in> set (an_probe a)) cs"
    by (simp add: set_collected list_ex_iff l(2) cong: bex_cong)
  show "drop_token n \<in> set (collected_seen cs) \<longleftrightarrow> list_ex (\<lambda>a. n \<in> set (an_connections a)) cs"
    if "n \<in> set SAMPLE_COUNT_FIELDS"
    using that by (simp add: set_collected list_ex_iff l(3) cong: bex_cong)
  have "left_by a \<inter> process_faults = set (an_process a)" if "a \<in> set cs" for a using l(4) that .
  then have "(\<Union>a\<in>set cs. left_by a \<inter> process_faults) = (\<Union>a\<in>set cs. set (an_process a))" by (intro SUP_cong) simp_all
  then show "set (collected_seen cs) \<inter> process_faults = (\<Union>a\<in>set cs. set (an_process a))"
    unfolding set_collected by blast
qed

text \<open>The observations of a window carry no fault token, except \<open>api_stale\<close>.\<close>

definition fault_tokens :: "string set" where
  "fault_tokens = burst_tokens \<union> probe_faults \<union> {''sample_coverage_gap'', ''collector_stale'', ''count_drop_reality'',
     ''count_drop_hysteria2'', ''probe_generic_tcp_healthy''}"

lemma observations_no_fault: "set (observations_seen samples probes journal audit degraded) \<inter> fault_tokens = {}"
  by (auto simp: observations_seen_def fault_tokens_def burst_tokens_def probe_faults_def)

lemma health_note_cases: "set (health_note p indices) = (if generic_tcp_healthy (pl_probes p) indices then {''probe_generic_tcp_healthy''} else {})"
  by (simp add: health_note_def)

definition episode :: "anomaly list \<Rightarrow> nat list" where
  "episode cs = remdups (concat (take 1 (clusters (map an_index cs))))"

lemma incident_verdict:
  assumes "window_verdict p b n = Inr (STATUS_INCIDENT, ca, seen, unknown, idx)"
  obtains rf js where "corroborated (candidates_of p rf n)"
      "set seen - {''probe_generic_tcp_healthy''} = (set (observations_seen (pl_samples p) (pl_probes p) (pl_journal p) (pl_audit p) (b_degraded b))
         \<union> set (collected_seen (candidates_of p rf n))) - {''probe_generic_tcp_healthy''}"
      "ca = CATEGORY_INSUFFICIENT \<and> idx = sort (map an_index (candidates_of p rf n))
       \<or> idx = sort (episode (candidates_of p rf n)) \<and> length (clusters (map an_index (candidates_of p rf n))) \<le> 1 \<and>
         ca = fst (attribute_window (collect (candidates_of p rf n)) (b_probes b \<noteq> [])
            (js = Complete \<or> generic_tcp_healthy (pl_probes p) (episode (candidates_of p rf n)))
            (generic_tcp_healthy (pl_probes p) (episode (candidates_of p rf n))) (api_healthy (pl_samples p) (episode (candidates_of p rf n)))) \<and>
         (generic_tcp_healthy (pl_probes p) (episode (candidates_of p rf n)) \<longrightarrow> ''probe_generic_tcp_healthy'' \<in> set seen)"
proof -
  let ?obs = "observations_seen (pl_samples p) (pl_probes p) (pl_journal p) (pl_audit p) (b_degraded b)"
  let ?js = "journal_view_state (b_reader b) (pl_audit p)"
  from assms have "\<not> n \<le> MIN_BASELINE_BUCKETS" by (auto simp: window_verdict_def Let_def status_defs split: if_splits)
  with assms have "\<exists>rf u. (if candidates_of p rf n = [] then quiet_verdict p rf b n ?obs u
      else anomaly_verdict p b n ?js (candidates_of p rf n) ?obs u) = (STATUS_INCIDENT, ca, seen, unknown, idx)"
    by (simp only: window_verdict_def Let_def if_False res_bind_eq_Inr sum.inject) blast
  then obtain rf u where "(if candidates_of p rf n = [] then quiet_verdict p rf b n ?obs u
      else anomaly_verdict p b n ?js (candidates_of p rf n) ?obs u) = (STATUS_INCIDENT, ca, seen, unknown, idx)" by blast
  moreover have "quiet_verdict p rf b n ?obs u \<noteq> (STATUS_INCIDENT, ca, seen, unknown, idx)"
    by (auto simp: quiet_verdict_def Let_def status_defs)
  ultimately have v: "anomaly_verdict p b n ?js (candidates_of p rf n) ?obs u = (STATUS_INCIDENT, ca, seen, unknown, idx)"
    by (simp split: if_splits)
  have c: "corroborated (candidates_of p rf n)"
    using v by (auto simp: anomaly_verdict_def Let_def status_defs split: if_splits)
  show thesis
  proof (cases "1 < length (clusters (map an_index (candidates_of p rf n)))")
    case True
    with v c show thesis
      by (intro that [of rf]) (auto simp: anomaly_verdict_def Let_def health_note_cases split: if_splits)
  next
    case False
    with v c show thesis
      by (intro that [of rf ?js])
        (auto simp: anomaly_verdict_def Let_def health_note_cases episode_def split: if_splits prod.splits)
  qed
qed

lemma destination_flag: "fl_destination (collect cs) \<noteq> [] \<longleftrightarrow> has_burst Destination cs"
  by (auto simp: collect_def has_burst_def list_ex_iff filter_empty_conv)

lemma guarded_cases: "fst (guarded ca un neg ps) \<in> {ca, CATEGORY_INSUFFICIENT}"
  by (simp add: guarded_def)

text \<open>The decision of \<open>_attribute\<close>, category by category.\<close>

lemma attribute_network_cases:
  assumes "fst (attribute_network f ps neg healthy api) = ca"
  shows "ca = CATEGORY_INSUFFICIENT
    \<or> ca = CATEGORY_VPS_OUTBOUND \<and> (fl_generic_journal f
        \<or> fl_generic_probe f \<and> (fl_reality f \<or> fl_hy2 f \<or> fl_reality_impact f \<or> fl_hy2_impact f))
    \<or> \<not> fl_generic_journal f \<and> \<not> fl_generic_probe f \<and>
        (ca = CATEGORY_COMMON_INBOUND \<and> fl_reality_impact f \<and> fl_hy2_impact f \<and> healthy
         \<or> \<not> (fl_reality_impact f \<and> fl_hy2_impact f) \<and>
           (ca = CATEGORY_REALITY_TCP \<and> fl_reality f \<and> \<not> fl_hy2 f \<or> ca = CATEGORY_HY2_UDP \<and> fl_hy2 f \<and> \<not> fl_reality f))"
  using assms guarded_cases [of CATEGORY_COMMON_INBOUND "fl_unattributed f" neg ps]
    guarded_cases [of CATEGORY_REALITY_TCP "fl_unattributed f" neg ps] guarded_cases [of CATEGORY_HY2_UDP "fl_unattributed f" neg ps]
  unfolding attribute_network_def Let_def by (auto split: if_split_asm)

lemma attribute_window_cases:
  assumes "fst (attribute_window f ps neg healthy api) = ca"
  shows "ca = CATEGORY_INSUFFICIENT
    \<or> ca = CATEGORY_VPS_PROCESS \<and> fl_process f \<and> \<not> (fl_reality f \<or> fl_hy2 f \<or> fl_generic_journal f \<or> fl_generic_probe f
        \<or> fl_destination f \<noteq> [] \<or> fl_reality_impact f \<and> fl_hy2_impact f)
    \<or> \<not> fl_process f \<and> fst (attribute_network f ps neg healthy api) = ca"
  using assms unfolding attribute_window_def Let_def by (auto split: if_split_asm prod.splits)

lemma attribute_supported:
  assumes ok: "\<forall>a\<in>set cs. anomaly_ok a" and no_fault: "obs \<inter> fault_tokens = {}"
    and S: "S - {''probe_generic_tcp_healthy''} = (obs \<union> set (collected_seen cs)) - {''probe_generic_tcp_healthy''}"
    and h: "healthy \<longrightarrow> ''probe_generic_tcp_healthy'' \<in> S"
  shows "supported (fst (attribute_window (collect cs) ps neg healthy api)) S"
proof -
  have mem: "t \<in> S \<longleftrightarrow> t \<in> set (collected_seen cs)" if "t \<in> fault_tokens" "t \<noteq> ''probe_generic_tcp_healthy''" for t
    using that S no_fault by blast
  have inS: "t \<in> S" if "t \<in> set (collected_seen cs)" "t \<noteq> ''probe_generic_tcp_healthy''" for t
    using that S by blast
  note flags = collected_flags [OF ok]
  have b: "burst_token x \<in> S \<longleftrightarrow> has_burst x cs" for x
    using mem [of "burst_token x"] flags(1) [of x] burst_token_cases [of x]
    by (cases x) (simp_all add: fault_tokens_def burst_tokens_def)
  have pr: "probe_token s \<in> S \<longleftrightarrow> list_ex (\<lambda>a. s \<in> set (an_probe a)) cs" if "s \<in> set GENERIC_PROBE_SLOTS" for s
    using that mem [of "probe_token s"] flags(2) [of s]
    by (auto simp: fault_tokens_def probe_faults_def probe_token_def probe_slots)
  have im1: "''count_drop_reality'' \<in> S \<longleftrightarrow> fl_reality_impact (collect cs)"
    using mem [of "''count_drop_reality''"] flags(3) [of "''reality_active_connections''"]
    by (simp add: fault_tokens_def count_fields drop_token_def collect_def)
  have im2: "''count_drop_hysteria2'' \<in> S \<longleftrightarrow> fl_hy2_impact (collect cs)"
    using mem [of "''count_drop_hysteria2''"] flags(3) [of "''hysteria2_active_connections''"]
    by (simp add: fault_tokens_def count_fields drop_token_def collect_def)
  have proc: "fl_process (collect cs) \<longleftrightarrow> set (collected_seen cs) \<inter> process_faults \<noteq> {}"
    unfolding flags(4) by (auto simp: collect_def list_ex_iff)
  have quiet: "\<not> fl_process (collect cs) \<Longrightarrow> no_process_fault S"
    using proc mem [of "''sample_coverage_gap''"] mem [of "''collector_stale''"]
    by (auto simp: no_process_fault_def fault_tokens_def process_faults_def)
  have faulty: "fl_process (collect cs) \<Longrightarrow> S \<inter> process_faults \<noteq> {}"
    using proc inS by (auto simp: process_faults_def)
  have gp: "fl_generic_probe (collect cs) \<longleftrightarrow> (\<exists>s\<in>set GENERIC_PROBE_SLOTS. probe_token s \<in> S)"
    using pr by (auto simp: collect_def list_ex_iff)
  have gen: "S \<inter> generic_faults = {} \<longleftrightarrow> \<not> fl_generic_probe (collect cs) \<and> \<not> fl_generic_journal (collect cs)"
    using b [of GenericTcp] unfolding gp by (auto simp: generic_faults_def probe_slots probe_token_def collect_def)
  have bu: "''journal_burst_reality'' \<in> S \<longleftrightarrow> fl_reality (collect cs)" "''journal_burst_hysteria2'' \<in> S \<longleftrightarrow> fl_hy2 (collect cs)"
    "''journal_burst_other_generic'' \<in> S \<longleftrightarrow> fl_generic_journal (collect cs)"
    "''journal_burst_destination'' \<in> S \<longleftrightarrow> fl_destination (collect cs) \<noteq> []"
    using b [of Reality] b [of Hy2] b [of GenericTcp] b [of Destination] unfolding destination_flag
    by (simp_all add: collect_def)
  define f where "f = collect cs"
  have v: "S \<inter> (generic_faults \<union> (burst_tokens - {''journal_burst_unattributed''})) = {}
      \<longleftrightarrow> S \<inter> generic_faults = {} \<and> \<not> fl_reality f \<and> \<not> fl_hy2 f \<and> fl_destination f = []"
  proof -
    have "burst_tokens - {''journal_burst_unattributed''} = {''journal_burst_reality'', ''journal_burst_hysteria2'',
        ''journal_burst_other_generic'', ''journal_burst_destination''}"
      by (simp add: burst_tokens_def insert_Diff_if)
    then show ?thesis using bu gen by (simp add: Int_Un_distrib Int_insert_right f_def)
  qed
  have w: "S \<inter> {''journal_burst_reality'', ''journal_burst_hysteria2'', ''count_drop_reality'', ''count_drop_hysteria2''} \<noteq> {}
      \<longleftrightarrow> fl_reality f \<or> fl_hy2 f \<or> fl_reality_impact f \<or> fl_hy2_impact f"
    using bu im1 im2 by (simp add: Int_insert_right f_def)
  have both: "both_transports_lost S \<longleftrightarrow> fl_reality_impact f \<and> fl_hy2_impact f"
    by (simp add: both_transports_lost_def im1 im2 f_def)
  define ca where "ca = fst (attribute_window f ps neg healthy api)"
  note spec = supported_def [of ca S] v w both gen [folded f_def] bu [folded f_def]
  consider (insufficient) "ca = CATEGORY_INSUFFICIENT"
    | (process) "ca = CATEGORY_VPS_PROCESS" "fl_process f" "\<not> fl_reality f" "\<not> fl_hy2 f" "\<not> fl_generic_journal f"
        "\<not> fl_generic_probe f" "fl_destination f = []" "\<not> (fl_reality_impact f \<and> fl_hy2_impact f)"
    | (network) "\<not> fl_process f" "fst (attribute_network f ps neg healthy api) = ca"
    using attribute_window_cases [of f ps neg healthy api ca] ca_def by auto
  then have "supported ca S"
  proof cases
    case insufficient
    then show ?thesis by (simp add: supported_def category_neq)
  next
    case process
    then show ?thesis using faulty [folded f_def] unfolding spec by simp
  next
    case network
    then have "no_process_fault S" using quiet [folded f_def] by simp
    with attribute_network_cases [OF network(2)] show ?thesis
      unfolding spec using h by (elim disjE conjE) (simp_all add: category_neq)
  qed
  then show ?thesis by (simp add: ca_def f_def)
qed

section \<open>Positions\<close>

lemma concat_add_to_runs: "concat (add_to_runs rs i) = concat rs @ [i]"
  by (induction rs i rule: add_to_runs.induct) simp_all

lemma concat_clusters: "concat (clusters xs) = sort xs"
proof -
  have "concat (foldl add_to_runs rs ys) = concat rs @ ys" for rs ys
    by (induction ys arbitrary: rs) (simp_all add: concat_add_to_runs)
  then show ?thesis by (simp add: clusters_def)
qed

definition consecutive :: "nat list \<Rightarrow> bool" where
  "consecutive r \<longleftrightarrow> r \<noteq> [] \<and> r = [hd r..<hd r + length r]"

lemma consecutive_snoc: "consecutive r \<Longrightarrow> consecutive (r @ [Suc (last r)])"
proof -
  assume "consecutive r"
  then obtain a n where r: "r = [a..<a + Suc n]"
    unfolding consecutive_def by (metis Suc_pred length_greater_0_conv)
  then have "last r = a + n" by simp
  then have "r @ [Suc (last r)] = [a..<a + Suc (Suc n)]" using r by simp
  then show "consecutive (r @ [Suc (last r)])" unfolding consecutive_def by (simp del: upt_Suc)
qed

lemma add_to_runs_consecutive: "list_all consecutive rs \<Longrightarrow> list_all consecutive (add_to_runs rs i)"
proof (induction rs i rule: add_to_runs.induct)
  case (2 r i)
  then show ?case
    using consecutive_snoc [of r] by (simp add: CLUSTER_ADJACENCY_BUCKETS_def, simp add: consecutive_def)
qed (simp_all, simp add: consecutive_def)

lemma clusters_consecutive: "list_all consecutive (clusters xs)"
proof -
  have "list_all consecutive rs \<Longrightarrow> list_all consecutive (foldl add_to_runs rs ys)" for rs ys
    by (induction ys arbitrary: rs) (simp_all add: add_to_runs_consecutive)
  from this [of "[]"] show ?thesis by (simp add: clusters_def)
qed

lemma candidate_indices: "\<exists>P. map an_index (candidates_of p rf n) = filter P [MIN_BASELINE_BUCKETS..<n]"
proof -
  let ?f = "\<lambda>i. bucket_anomaly i (pl_samples p) (pl_quiet p) (pl_journal p) rf (probe_failures (pl_probes p))
      (list_ex (\<lambda>s. 0 < ss_rows s) (pl_samples p))"
  have "map an_index (List.map_filter f xs) = filter (\<lambda>i. f i \<noteq> None) xs"
    if "\<And>i a. f i = Some a \<Longrightarrow> an_index a = i" for f :: "nat \<Rightarrow> anomaly option" and xs
    using that by (induction xs) (auto simp: List.map_filter_def)
  from this [of ?f] have "map an_index (List.map_filter ?f [MIN_BASELINE_BUCKETS..<n]) = filter (\<lambda>i. ?f i \<noteq> None) [MIN_BASELINE_BUCKETS..<n]"
    using bucket_anomaly_Some(1) by blast
  then show ?thesis unfolding candidates_of_def Let_def by blast
qed

lemma candidate_indices_sorted:
  "sorted_wrt (<) (map an_index (candidates_of p rf n))" "set (map an_index (candidates_of p rf n)) \<subseteq> {MIN_BASELINE_BUCKETS..<n}"
proof -
  obtain P where P: "map an_index (candidates_of p rf n) = filter P [MIN_BASELINE_BUCKETS..<n]"
    using candidate_indices by blast
  show "sorted_wrt (<) (map an_index (candidates_of p rf n))" unfolding P by (simp add: sorted_wrt_filter)
  show "set (map an_index (candidates_of p rf n)) \<subseteq> {MIN_BASELINE_BUCKETS..<n}" unfolding P by auto
qed

lemma episode_indices:
  assumes "length (clusters (map an_index (candidates_of p rf n))) \<le> 1"
  shows "sort (episode (candidates_of p rf n)) = map an_index (candidates_of p rf n)"
    "candidates_of p rf n \<noteq> [] \<Longrightarrow> consecutive (map an_index (candidates_of p rf n))"
proof -
  let ?is = "map an_index (candidates_of p rf n)"
  have sd: "sorted ?is" "distinct ?is"
    using candidate_indices_sorted(1) [of p rf n] by (simp_all add: strict_sorted_iff)
  have c: "concat (take 1 (clusters ?is)) = ?is"
    using assms concat_clusters [of ?is] sd by (simp add: sorted_sort_id)
  with sd show "sort (episode (candidates_of p rf n)) = ?is"
    by (simp add: episode_def sorted_sort_id distinct_remdups_id)
  assume "candidates_of p rf n \<noteq> []"
  with c assms obtain r where "clusters ?is = [r]" "r = ?is"
    by (cases "clusters ?is") auto
  with clusters_consecutive [of ?is] show "consecutive ?is" by simp
qed

section \<open>Accepted bundles speak the vocabulary\<close>

lemma reason_or_Usable [simp]: "reason_or a b = Inr Usable \<longleftrightarrow> a = Inr Usable \<and> b = Inr Usable"
  by (cases a) (auto simp: reason_or_def res_bind_def)

lemma shape_unless_Usable [simp]: "shape_unless ok = Inr Usable \<longleftrightarrow> ok"
  by (simp add: shape_unless_def)

lemma first_reason_Usable: "first_reason sec start stop vs = Inr Usable \<longleftrightarrow> (\<forall>v\<in>set vs. row_reason sec v start stop = Inr Usable)"
  by (induction vs) (auto simp: res_bind_eq_Inr split: if_splits)

lemma sort_Nil: "sort xs = [] \<longleftrightarrow> xs = []"
  by (metis length_0_conv length_sort)

lemma accepted_rows:
  assumes "refusals (PDict ev) = Inr []" and "sec \<in> set LIST_SECTIONS"
  obtains vs start stop where "pgetN ev sec = PList vs" "\<forall>v\<in>set vs. row_reason sec v start stop = Inr Usable"
proof -
  let ?w = "dict_items (pgetN ev ''window'')"
  let ?start = "num_of ?w ''start_epoch''" and ?stop = "num_of ?w ''end_epoch''"
  from assms(1) obtain found where
    f: "res_map (\<lambda>sec. list_refusals sec (pgetN ev sec) ?start ?stop) LIST_SECTIONS = Inr found" and e: "concat found = []"
    by (auto simp: refusals_def res_bind_eq_Inr Let_def sort_Nil split: if_splits)
  from f assms(2) have "\<exists>x\<in>set found. list_refusals sec (pgetN ev sec) ?start ?stop = Inr x"
    by (rule res_map_image)
  with e have "list_refusals sec (pgetN ev sec) ?start ?stop = Inr []" by auto
  then obtain vs x where v: "pgetN ev sec = PList vs" "first_reason sec ?start ?stop vs = Inr x"
    and x: "(case x of Usable \<Rightarrow> [] | RejectedShape \<Rightarrow> [rejected sec]
        | RejectedOutside \<Rightarrow> [''evidence_outside_window'', rejected sec]) = []"
    by (auto simp: list_refusals_def res_bind_eq_Inr split: pyval.splits if_splits)
  from x have "x = Usable" by (cases x) simp_all
  with v show thesis by (intro that) (simp_all add: first_reason_Usable)
qed

lemma row_reason_dict: "row_reason sec v start stop = Inr Usable \<Longrightarrow> v = PDict (dict_items v)"
  by (cases v) (simp_all add: row_reason_def)

lemma str_in_str_of: "str_in (pgetN r key) vocabulary \<Longrightarrow> str_of r key \<in> set vocabulary"
  by (auto simp: str_in_def str_of_def split: pyval.splits)

lemma journal_row_class:
  assumes "row_reason ''journal_events'' v start stop = Inr Usable"
  shows "str_of (dict_items v) ''cls'' \<in> set JOURNAL_CLASSES"
proof -
  have "row_reason ''journal_events'' (PDict (dict_items v)) start stop = Inr Usable"
    using assms row_reason_dict by metis
  then have "row_journal (dict_items v) = Inr Usable" by (simp add: row_reason_def)
  then show ?thesis by (intro str_in_str_of) (simp add: row_journal_def)
qed

lemma audit_row_code:
  assumes "row_reason ''audit'' v start stop = Inr Usable"
  shows "str_of (dict_items v) ''code'' \<in> set JOURNAL_AUDIT_CODES"
proof -
  have "row_reason ''audit'' (PDict (dict_items v)) start stop = Inr Usable"
    using assms row_reason_dict by metis
  then have "row_one_of (dict_items v) ''code'' JOURNAL_AUDIT_CODES = Inr Usable" by (simp add: row_reason_def)
  then show ?thesis by (intro str_in_str_of) (simp add: row_one_of_def)
qed

lemma bucketed_rows: "set (concat (bucketed rows key start n)) \<subseteq> set rows"
  by (auto simp: bucketed_def)

lemma journal_stats_classes: "set (map fst (js_classes (journal_stats rows))) = (\<lambda>r. str_of r ''cls'') ` set rows"
proof -
  have "set (map fst (foldl (\<lambda>d r. bump (str_of r ''cls'') (int_of r ''n'') d) d rows))
      = set (map fst d) \<union> (\<lambda>r. str_of r ''cls'') ` set rows" for d :: "(string, int) dict"
    by (induction rows arbitrary: d) (auto simp: bump_def)
  from this [of "[]"] show ?thesis by (simp add: journal_stats_def)
qed

lemma in_vocabulary:
  "t \<in> set BASE_EVIDENCE_TOKENS \<Longrightarrow> t \<in> set EVIDENCE_TOKENS"
  "name \<in> set JOURNAL_CLASSES \<Longrightarrow> ''journal_cls_'' @ name \<in> set EVIDENCE_TOKENS"
  "code \<in> set JOURNAL_AUDIT_CODES \<Longrightarrow> ''journal_audit_'' @ code \<in> set EVIDENCE_TOKENS"
  "t \<in> set BASE_UNKNOWN_TOKENS \<Longrightarrow> t \<in> set UNKNOWN_TOKENS"
  unfolding EVIDENCE_TOKENS_def UNKNOWN_TOKENS_def CLS_EVIDENCE_TOKENS_def AUDIT_EVIDENCE_TOKENS_def set_remdups set_append set_map
  by blast+

lemma base_evidence:
  "process_faults \<subseteq> set BASE_EVIDENCE_TOKENS" "burst_tokens \<subseteq> set BASE_EVIDENCE_TOKENS" "drop_token n \<in> set BASE_EVIDENCE_TOKENS"
  "s \<in> set PROBE_SLOTS \<Longrightarrow> probe_token s \<in> set BASE_EVIDENCE_TOKENS" "''all_devices_quiet'' \<in> set BASE_EVIDENCE_TOKENS"
  "''journal_continuity_gap'' \<in> set BASE_EVIDENCE_TOKENS" "''journal_rejected_batch'' \<in> set BASE_EVIDENCE_TOKENS"
  "''egress_ip_changed'' \<in> set BASE_EVIDENCE_TOKENS" "''history_degraded'' \<in> set BASE_EVIDENCE_TOKENS"
  "''probe_source_unavailable'' \<in> set BASE_EVIDENCE_TOKENS" "''no_anomaly'' \<in> set BASE_EVIDENCE_TOKENS"
  "''probe_generic_tcp_healthy'' \<in> set BASE_EVIDENCE_TOKENS" "''api_stale'' \<in> set BASE_EVIDENCE_TOKENS"
proof -
  show "probe_token s \<in> set BASE_EVIDENCE_TOKENS" if "s \<in> set PROBE_SLOTS"
    using that by (auto simp: probe_slots probe_token_def BASE_EVIDENCE_TOKENS_def)
qed (simp_all add: BASE_EVIDENCE_TOKENS_def process_faults_def burst_tokens_def drop_token_def)

lemma base_evidence_in: "t \<in> process_faults \<union> burst_tokens \<Longrightarrow> t \<in> set EVIDENCE_TOKENS" 
  using base_evidence(1,2) in_vocabulary(1) by blast

lemma left_by_vocabulary: "anomaly_ok a \<Longrightarrow> left_by a \<subseteq> set EVIDENCE_TOKENS"
  using base_evidence(3,4,5) base_evidence_in burst_token_cases in_vocabulary(1)
  unfolding left_by_def anomaly_ok_def by (auto split: if_splits)

lemma collected_vocabulary: "\<forall>a\<in>set cs. anomaly_ok a \<Longrightarrow> set (collected_seen cs) \<subseteq> set EVIDENCE_TOKENS"
  using left_by_vocabulary unfolding set_collected by blast

lemma observations_vocabulary:
  assumes "\<And>j name. j \<in> set journal \<Longrightarrow> name \<in> set (map fst (js_classes j)) \<Longrightarrow> name \<in> set JOURNAL_CLASSES"
    and "set (au_codes audit) \<subseteq> set JOURNAL_AUDIT_CODES"
  shows "set (observations_seen samples probes journal audit degraded) \<subseteq> set EVIDENCE_TOKENS"
proof -
  have "\<forall>name\<in>set (concat (map (\<lambda>j. map fst (js_classes j)) journal)). ''journal_cls_'' @ name \<in> set EVIDENCE_TOKENS"
    using assms(1) in_vocabulary(2) by auto
  moreover have "\<forall>code\<in>set (au_codes audit). ''journal_audit_'' @ code \<in> set EVIDENCE_TOKENS"
    using assms(2) in_vocabulary(3) by auto
  ultimately show ?thesis
    using base_evidence(6-13) [THEN in_vocabulary(1)] unfolding observations_seen_def
    by (simp only: set_append set_map) (simp split: if_split, blast)
qed

lemma health_vocabulary: "set (health_note p indices) \<subseteq> set EVIDENCE_TOKENS"
  using in_vocabulary(1) [OF base_evidence(12)] by (simp add: health_note_cases)

lemma unknown_vocabulary:
  "set (observations_unknown samples probes) \<subseteq> set UNKNOWN_TOKENS" "set (journal_unknown js) \<subseteq> set UNKNOWN_TOKENS"
  "set (collected_unknown cs) \<subseteq> set UNKNOWN_TOKENS" "set (snd (attribute_window f ps neg healthy api)) \<subseteq> set UNKNOWN_TOKENS"
  "''count_drop_only'' \<in> set UNKNOWN_TOKENS" "''no_corroboration'' \<in> set UNKNOWN_TOKENS"
  "''multiple_anomaly_clusters'' \<in> set UNKNOWN_TOKENS" "''baseline_evidence_absent'' \<in> set UNKNOWN_TOKENS"
proof -
  note u = in_vocabulary(4)
  show "set (observations_unknown samples probes) \<subseteq> set UNKNOWN_TOKENS"
    by (auto simp: observations_unknown_def BASE_UNKNOWN_TOKENS_def intro!: u)
  show "set (journal_unknown js) \<subseteq> set UNKNOWN_TOKENS"
    by (cases js) (auto simp: journal_unknown_def BASE_UNKNOWN_TOKENS_def intro!: u)
  show "set (collected_unknown cs) \<subseteq> set UNKNOWN_TOKENS"
    by (auto simp: collected_unknown_def BASE_UNKNOWN_TOKENS_def intro!: u split: if_splits)
  have guarded: "set (snd (guarded ca un neg ps)) \<subseteq> set UNKNOWN_TOKENS" for ca un neg ps
    by (auto simp: guarded_def Let_def BASE_UNKNOWN_TOKENS_def intro!: u)
  have network: "set (snd (attribute_network f ps neg healthy api)) \<subseteq> set UNKNOWN_TOKENS"
    unfolding attribute_network_def Let_def using guarded
    by (simp add: BASE_UNKNOWN_TOKENS_def u)
  moreover have "''no_target_specific_proof'' \<in> set UNKNOWN_TOKENS" "''multiple_destinations'' \<in> set UNKNOWN_TOKENS"
    "''process_and_network_evidence_conflict'' \<in> set UNKNOWN_TOKENS"
    by (auto simp: BASE_UNKNOWN_TOKENS_def intro!: u)
  ultimately show "set (snd (attribute_window f ps neg healthy api)) \<subseteq> set UNKNOWN_TOKENS"
    unfolding attribute_window_def Let_def case_prod_unfold
    by (cases "fl_destination f = []"; cases "1 < length (fl_destination f)"; simp)
  show "''count_drop_only'' \<in> set UNKNOWN_TOKENS" "''no_corroboration'' \<in> set UNKNOWN_TOKENS"
    "''multiple_anomaly_clusters'' \<in> set UNKNOWN_TOKENS" "''baseline_evidence_absent'' \<in> set UNKNOWN_TOKENS"
    by (auto simp: BASE_UNKNOWN_TOKENS_def intro!: u)
qed

lemma emittable_members:
  "{CATEGORY_VPS_PROCESS, CATEGORY_VPS_OUTBOUND, CATEGORY_COMMON_INBOUND, CATEGORY_REALITY_TCP, CATEGORY_HY2_UDP,
    CATEGORY_INSUFFICIENT} \<subseteq> set EMITTABLE_CATEGORIES"
  by (simp add: EMITTABLE_CATEGORIES_def CATEGORIES_def category_defs)

lemma attribute_category: "fst (attribute_window f ps neg healthy api) \<in> {CATEGORY_VPS_PROCESS, CATEGORY_VPS_OUTBOUND,
    CATEGORY_COMMON_INBOUND, CATEGORY_REALITY_TCP, CATEGORY_HY2_UDP, CATEGORY_INSUFFICIENT}"
proof -
  define ca where "ca = fst (attribute_window f ps neg healthy api)"
  show ?thesis
    using attribute_window_cases [of f ps neg healthy api ca] attribute_network_cases [of f ps neg healthy api ca]
    unfolding ca_def [symmetric] by blast
qed

text \<open>What a verdict is, before it is sealed.\<close>

lemma verdict_shape:
  assumes "window_verdict p b n = Inr (st, ca, seen, unknown, idx)"
    and "set (observations_seen (pl_samples p) (pl_probes p) (pl_journal p) (pl_audit p) (b_degraded b)) \<subseteq> set EVIDENCE_TOKENS"
  shows "set seen \<subseteq> set EVIDENCE_TOKENS \<and> set unknown \<subseteq> set UNKNOWN_TOKENS \<and> st \<in> set STATUSES \<and> pairing_valid st ca"
proof -
  let ?obs = "observations_seen (pl_samples p) (pl_probes p) (pl_journal p) (pl_audit p) (b_degraded b)"
  let ?js = "journal_view_state (b_reader b) (pl_audit p)"
  note voc = assms(2) [THEN subsetD] unknown_vocabulary(1-4) [THEN subsetD] health_vocabulary [THEN subsetD]
  note toks = unknown_vocabulary(5-8)
  have pairs: "pairing_valid STATUS_INCIDENT CATEGORY_INSUFFICIENT" "pairing_valid STATUS_INDETERMINATE CATEGORY_INSUFFICIENT"
    "pairing_valid STATUS_NO_INCIDENT CATEGORY_NONE"
    "set [STATUS_INCIDENT, STATUS_NO_INCIDENT, STATUS_INDETERMINATE] \<subseteq> set STATUSES"
    using emittable by (simp_all add: pairing_valid_def STATUSES_def)
  have quiet: "set seen' \<subseteq> set EVIDENCE_TOKENS \<and> set unknown' \<subseteq> set UNKNOWN_TOKENS \<and> st' \<in> set STATUSES \<and> pairing_valid st' ca'"
    if "quiet_verdict p rf b n ?obs u = (st', ca', seen', unknown', idx')" "set u \<subseteq> set UNKNOWN_TOKENS" for rf u st' ca' seen' unknown' idx'
    using that pairs in_vocabulary(1) [OF base_evidence(11)]
    by (auto simp: quiet_verdict_def Let_def dest: voc split: if_split_asm)
  have category: "pairing_valid STATUS_INCIDENT (fst (attribute_window f ps neg healthy api))" for f ps neg healthy api
    using attribute_category [of f ps neg healthy api] emittable_members by (auto simp: pairing_valid_def)
  have anomalous: "set seen' \<subseteq> set EVIDENCE_TOKENS \<and> set unknown' \<subseteq> set UNKNOWN_TOKENS \<and> st' \<in> set STATUSES \<and> pairing_valid st' ca'"
    if "anomaly_verdict p b n ?js cs ?obs u = (st', ca', seen', unknown', idx')" "set u \<subseteq> set UNKNOWN_TOKENS"
      "\<forall>a\<in>set cs. anomaly_ok a" for cs u st' ca' seen' unknown' idx'
    using that(1,2) pairs category toks
    by (auto simp: anomaly_verdict_def Let_def case_prod_unfold dest: voc collected_vocabulary [OF that(3), THEN subsetD]
        split: if_split_asm)
  show ?thesis
  proof (cases "n \<le> MIN_BASELINE_BUCKETS")
    case True
    with assms(1) pairs toks show ?thesis by (auto simp: window_verdict_def Let_def dest: voc)
  next
    case False
    with assms(1) obtain rf where "(if candidates_of p rf n = []
        then quiet_verdict p rf b n ?obs (observations_unknown (pl_samples p) (pl_probes p)
               @ (if rf_usable rf then [] else [''baseline_evidence_absent'']) @ journal_unknown ?js)
        else anomaly_verdict p b n ?js (candidates_of p rf n) ?obs (observations_unknown (pl_samples p) (pl_probes p)
               @ (if rf_usable rf then [] else [''baseline_evidence_absent'']) @ journal_unknown ?js)) = (st, ca, seen, unknown, idx)"
      by (simp only: window_verdict_def Let_def if_False res_bind_eq_Inr sum.inject) blast
    moreover have "set (observations_unknown (pl_samples p) (pl_probes p)
               @ (if rf_usable rf then [] else [''baseline_evidence_absent'']) @ journal_unknown ?js) \<subseteq> set UNKNOWN_TOKENS"
      using toks by (auto dest: voc)
    ultimately show ?thesis using quiet anomalous candidates_ok by (auto split: if_split_asm)
  qed
qed

section \<open>The wall never fires\<close>

lemma bundle_vocabulary:
  assumes "refusals (PDict ev) = Inr []" and "read_planes (read_bundle ev) start n = Inr p"
  shows "set (observations_seen (pl_samples p) (pl_probes p) (pl_journal p) (pl_audit p) degraded) \<subseteq> set EVIDENCE_TOKENS"
proof (rule observations_vocabulary)
  have sections: "''journal_events'' \<in> set LIST_SECTIONS" "''audit'' \<in> set LIST_SECTIONS"
    by (simp_all add: LIST_SECTIONS_def)
  from accepted_rows [OF assms(1) sections(1)] obtain js s1 e1 where
    js: "pgetN ev ''journal_events'' = PList js" "\<forall>v\<in>set js. row_reason ''journal_events'' v s1 e1 = Inr Usable" .
  from accepted_rows [OF assms(1) sections(2)] obtain au s2 e2 where
    au: "pgetN ev ''audit'' = PList au" "\<forall>v\<in>set au. row_reason ''audit'' v s2 e2 = Inr Usable" .
  have planes: "pl_journal p = map journal_stats (bucketed (map dict_items js) ''ts'' start n)"
    "pl_audit p = audit_view (bucketed (map dict_items au) ''epoch'' start n)"
    using assms(2) js(1) au(1)
    by (auto simp: read_planes_def read_bundle_def section_rows_def res_bind_eq_Inr Let_def split: if_splits)
  show "name \<in> set JOURNAL_CLASSES" if "j \<in> set (pl_journal p)" "name \<in> set (map fst (js_classes j))" for j name
  proof -
    from that planes(1) obtain rows where "rows \<in> set (bucketed (map dict_items js) ''ts'' start n)" "j = journal_stats rows" by auto
    then have "name \<in> (\<lambda>r. str_of r ''cls'') ` set rows" using that(2) by (simp only: journal_stats_classes)
    then obtain r where r: "r \<in> set rows" "name = str_of r ''cls''" by auto
    with \<open>rows \<in> set _\<close> have "r \<in> set (concat (bucketed (map dict_items js) ''ts'' start n))" by auto
    with bucketed_rows have "r \<in> set (map dict_items js)" by (rule subsetD)
    with r(2) obtain v where "v \<in> set js" "name = str_of (dict_items v) ''cls''" by auto
    with js(2) journal_row_class show ?thesis by blast
  qed
  show "set (au_codes (pl_audit p)) \<subseteq> set JOURNAL_AUDIT_CODES"
  proof
    fix code
    assume "code \<in> set (au_codes (pl_audit p))"
    then obtain r where r: "r \<in> set (concat (bucketed (map dict_items au) ''epoch'' start n))" "code = str_of r ''code''"
      unfolding planes(2) audit_view_def Let_def by auto
    from r(1) bucketed_rows have "r \<in> set (map dict_items au)" by (rule subsetD [rotated])
    with r(2) obtain v where "v \<in> set au" "code = str_of (dict_items v) ''code''" by auto
    with au(2) audit_row_code show "code \<in> set JOURNAL_AUDIT_CODES" by blast
  qed
qed

text \<open>An accepted bundle is sealed as it was judged.\<close>

lemma detect_analysed:
  assumes "detect e = Inr d" and "refusals e = Inr []"
  obtains start n p b st ca seen unknown idx where "n \<le> MAX_BUCKETS"
    "window_verdict p b n = Inr (st, ca, seen, unknown, idx)"
    "cl_status (de_classification d) = st" "cl_category (de_classification d) = ca"
    "cl_window_start (de_classification d) = start" "cl_window_end (de_classification d) = start + of_nat n * BUCKET_SECONDS"
    "cl_buckets (de_classification d) = n" "set (cl_evidence (de_classification d)) = set seen" "de_indices d = idx"
    "de_first d = (if idx = [] then None else Some (start + of_nat (hd idx) * BUCKET_SECONDS))"
    "de_last d = (if idx = [] then None else Some (start + of_nat (last idx + 1) * BUCKET_SECONDS))"
proof -
  from refusals_none [OF assms(2)] obtain ev where ev: "e = PDict ev" "valid_window (pgetN ev ''window'') = Inr True" by blast
  let ?w = "dict_items (pgetN ev ''window'')"
  let ?start = "num_of ?w ''start_epoch''"
  let ?n = "window_buckets ?start (num_of ?w ''end_epoch'')"
  from assms ev obtain c idx where
    an: "analyse_with_meta (read_bundle ev) ?start ?n = Inr (c, idx)" and
    d: "d = (if idx = [] then \<lparr>de_classification = c, de_indices = [], de_first = None, de_last = None\<rparr>
             else \<lparr>de_classification = c, de_indices = idx, de_first = Some (?start + of_nat (hd idx) * BUCKET_SECONDS),
                   de_last = Some (?start + of_nat (last idx + 1) * BUCKET_SECONDS)\<rparr>)"
    by (auto simp: detect_def res_bind_eq_Inr Let_def)
  from an obtain p st ca seen unknown where pl: "read_planes (read_bundle ev) ?start ?n = Inr p"
    and v: "window_verdict p (read_bundle ev) ?n = Inr (st, ca, seen, unknown, idx)"
    and c: "c = seal st ca ?start (?start + of_nat ?n * BUCKET_SECONDS) ?n seen unknown"
    by (auto simp: analyse_with_meta_def res_bind_eq_Inr)
  have "set seen \<subseteq> set EVIDENCE_TOKENS \<and> set unknown \<subseteq> set UNKNOWN_TOKENS \<and> st \<in> set STATUSES \<and> pairing_valid st ca"
    using verdict_shape [OF v] bundle_vocabulary [OF assms(2) [unfolded ev(1)] pl] by blast
  then have "cl_status c = st" "cl_category c = ca" "set (cl_evidence c) = set seen"
    by (simp_all add: c seal_def Let_def)
  with v c d window_count_le [OF ev(2)] show thesis by (intro that [of ?n p "read_bundle ev" st ca seen unknown idx ?start]) auto
qed

lemma indeterminate_sealed: "cl_status (seal STATUS_INDETERMINATE ca start stop n ev un) \<noteq> STATUS_INCIDENT"
proof
  assume "cl_status (seal STATUS_INDETERMINATE ca start stop n ev un) = STATUS_INCIDENT"
  then have "STATUS_INDETERMINATE = STATUS_INCIDENT" by (rule seal_incident(1))
  then show False by (simp add: status_defs)
qed

lemma refused_quiet:
  assumes "detect e = Inr d" and "refusals e \<noteq> Inr []"
  shows "cl_status (de_classification d) \<noteq> STATUS_INCIDENT \<and> de_indices d = [] \<and> de_first d = None \<and> de_last d = None"
  using assms by (auto simp: detect_def refused_def res_bind_eq_Inr indeterminate_sealed split: if_splits)

lemma health_no_fault: "''probe_generic_tcp_healthy'' \<notin> process_faults \<union> probe_faults \<union> burst_tokens"
  by (simp add: process_faults_def probe_faults_def burst_tokens_def)

lemma corroborated_tokens:
  assumes "\<forall>a\<in>set cs. anomaly_ok a" and "corroborated cs"
  shows "set (collected_seen cs) \<inter> (process_faults \<union> probe_faults \<union> burst_tokens) \<noteq> {}"
proof -
  have "\<not> list_ex (\<lambda>f. f \<in> set CORROBORATING_FAMILIES) (families a)"
    if "an_process a = []" "an_journal a = []" "an_probe a = []" for a
    using that by (simp add: families_def CORROBORATING_FAMILIES_def)
  then obtain a where a: "a \<in> set cs" "an_process a \<noteq> [] \<or> an_journal a \<noteq> [] \<or> an_probe a \<noteq> []"
    using assms(2) unfolding corroborated_def list_ex_iff [of _ cs] by blast
  then have ok: "anomaly_ok a" using assms(1) by blast
  have "probe_token s \<in> probe_faults" if "s \<in> set PROBE_SLOTS" for s
    using that by (auto simp: probe_slots probe_token_def probe_faults_def)
  with ok have "set (an_process a) \<subseteq> process_faults" "probe_token ` set (an_probe a) \<subseteq> probe_faults"
    unfolding anomaly_ok_def by blast+
  moreover have "(\<lambda>k. burst_token (burst_of k)) ` set (an_journal a) \<subseteq> burst_tokens"
    using burst_token_cases by blast
  ultimately have sub: "set (an_process a) \<union> probe_token ` set (an_probe a) \<union> (\<lambda>k. burst_token (burst_of k)) ` set (an_journal a)
      \<subseteq> process_faults \<union> probe_faults \<union> burst_tokens"
    by (intro Un_mono)
  from a(2) have "set (an_process a) \<union> probe_token ` set (an_probe a) \<union> (\<lambda>k. burst_token (burst_of k)) ` set (an_journal a) \<noteq> {}"
    by auto
  then obtain t where t: "t \<in> set (an_process a) \<union> probe_token ` set (an_probe a)
      \<union> (\<lambda>k. burst_token (burst_of k)) ` set (an_journal a)"
    by (meson ex_in_conv)
  then have "t \<in> left_by a" unfolding left_by_def by (elim UnE) simp_all
  moreover from sub t have "t \<in> process_faults \<union> probe_faults \<union> burst_tokens" by (rule subsetD)
  ultimately have "left_by a \<inter> (process_faults \<union> probe_faults \<union> burst_tokens) \<noteq> {}" by (metis IntI empty_iff)
  with a(1) show ?thesis unfolding set_collected by blast
qed

lemma incident_analysed:
  assumes "detect e = Inr d" and "cl_status (de_classification d) = STATUS_INCIDENT"
  shows "refusals e = Inr []"
  using refused_quiet [OF assms(1)] assms(2) by blast

text \<open>
  C16: every attribution has its evidence, and a contradicted one is never made. An incident always holds a
  token of a plane independent of the API counts (a process fault, a failed probe or a journal burst); a
  category is named only when the evidence tuple supports it: a process fault alone for the VPS process, a
  generic fault seen by two planes for the VPS outbound path, losses on both transports with a healthy
  generic path for the shared inbound path, and errors of one transport, and not of the other, for that
  transport, each without a process fault.
\<close>

theorem attribution_needs_its_evidence:
  assumes "detect e = Inr d" and "c = de_classification d" and "cl_status c = STATUS_INCIDENT"
  shows "supported (cl_category c) (set (cl_evidence c)) \<and>
     set (cl_evidence c) \<inter> (process_faults \<union> probe_faults \<union> burst_tokens) \<noteq> {}"
proof -
  from assms(1) incident_analysed [OF assms(1)] assms(2,3) obtain start n p b ca seen unknown idx where
    v: "window_verdict p b n = Inr (STATUS_INCIDENT, ca, seen, unknown, idx)"
    and c: "cl_category c = ca" "set (cl_evidence c) = set seen"
    by (elim detect_analysed) auto
  from v obtain rf js where co: "corroborated (candidates_of p rf n)" and
    s: "set seen - {''probe_generic_tcp_healthy''} = (set (observations_seen (pl_samples p) (pl_probes p) (pl_journal p) (pl_audit p) (b_degraded b))
         \<union> set (collected_seen (candidates_of p rf n))) - {''probe_generic_tcp_healthy''}" and
    k: "ca = CATEGORY_INSUFFICIENT \<and> idx = sort (map an_index (candidates_of p rf n))
       \<or> idx = sort (episode (candidates_of p rf n)) \<and> length (clusters (map an_index (candidates_of p rf n))) \<le> 1 \<and>
         ca = fst (attribute_window (collect (candidates_of p rf n)) (b_probes b \<noteq> [])
            (js = Complete \<or> generic_tcp_healthy (pl_probes p) (episode (candidates_of p rf n)))
            (generic_tcp_healthy (pl_probes p) (episode (candidates_of p rf n))) (api_healthy (pl_samples p) (episode (candidates_of p rf n)))) \<and>
         (generic_tcp_healthy (pl_probes p) (episode (candidates_of p rf n)) \<longrightarrow> ''probe_generic_tcp_healthy'' \<in> set seen)"
    by (rule incident_verdict)
  have ok: "\<forall>a\<in>set (candidates_of p rf n). anomaly_ok a" using candidates_ok by blast
  from k have "supported ca (set seen)"
  proof
    assume "ca = CATEGORY_INSUFFICIENT \<and> idx = sort (map an_index (candidates_of p rf n))"
    then show ?thesis by (simp add: supported_def category_neq)
  next
    assume "idx = sort (episode (candidates_of p rf n)) \<and> length (clusters (map an_index (candidates_of p rf n))) \<le> 1 \<and>
         ca = fst (attribute_window (collect (candidates_of p rf n)) (b_probes b \<noteq> [])
            (js = Complete \<or> generic_tcp_healthy (pl_probes p) (episode (candidates_of p rf n)))
            (generic_tcp_healthy (pl_probes p) (episode (candidates_of p rf n))) (api_healthy (pl_samples p) (episode (candidates_of p rf n)))) \<and>
         (generic_tcp_healthy (pl_probes p) (episode (candidates_of p rf n)) \<longrightarrow> ''probe_generic_tcp_healthy'' \<in> set seen)"
    with attribute_supported [OF ok observations_no_fault s] show ?thesis by blast
  qed
  moreover have "set (collected_seen (candidates_of p rf n)) \<inter> (process_faults \<union> probe_faults \<union> burst_tokens) \<noteq> {}"
    using corroborated_tokens [OF ok co] .
  then have "set seen \<inter> (process_faults \<union> probe_faults \<union> burst_tokens) \<noteq> {}" using s health_no_fault by blast
  ultimately show ?thesis by (simp add: c)
qed

theorem attribution_needs_its_evidence_witness:
  "detect (sample_bundle [sample_row] [] []) = Inr sample_detection \<and>
     supported (cl_category (de_classification sample_detection)) (set (cl_evidence (de_classification sample_detection)))"
  using attribution_needs_its_evidence [OF sample_bundle_verdict refl] sample_bundle_verdict
  by (simp add: sample_detection_def STATUS_INCIDENT_def)

lemma verdict_indices:
  assumes "window_verdict p b n = Inr (st, ca, seen, unknown, idx)"
  shows "st \<noteq> STATUS_INCIDENT \<longrightarrow> idx = []" "idx \<noteq> [] \<or> st \<noteq> STATUS_INCIDENT" "sorted_wrt (<) idx" "set idx \<subseteq> {MIN_BASELINE_BUCKETS..<n}"
    "st = STATUS_INCIDENT \<and> ca \<noteq> CATEGORY_INSUFFICIENT \<longrightarrow> consecutive idx"
proof -
  have none: "st \<noteq> STATUS_INCIDENT \<Longrightarrow> idx = []"
    using assms
    by (auto simp: window_verdict_def quiet_verdict_def anomaly_verdict_def res_bind_eq_Inr Let_def case_prod_unfold split: if_split_asm)
  have inc: "idx \<noteq> [] \<and> sorted_wrt (<) idx \<and> set idx \<subseteq> {MIN_BASELINE_BUCKETS..<n} \<and> (ca \<noteq> CATEGORY_INSUFFICIENT \<longrightarrow> consecutive idx)"
    if "st = STATUS_INCIDENT"
  proof -
    from assms that have "window_verdict p b n = Inr (STATUS_INCIDENT, ca, seen, unknown, idx)" by simp
    then obtain rf js where co: "corroborated (candidates_of p rf n)" and
      k: "ca = CATEGORY_INSUFFICIENT \<and> idx = sort (map an_index (candidates_of p rf n))
       \<or> idx = sort (episode (candidates_of p rf n)) \<and> length (clusters (map an_index (candidates_of p rf n))) \<le> 1 \<and>
         ca = fst (attribute_window (collect (candidates_of p rf n)) (b_probes b \<noteq> [])
            (js = Complete \<or> generic_tcp_healthy (pl_probes p) (episode (candidates_of p rf n)))
            (generic_tcp_healthy (pl_probes p) (episode (candidates_of p rf n))) (api_healthy (pl_samples p) (episode (candidates_of p rf n)))) \<and>
         (generic_tcp_healthy (pl_probes p) (episode (candidates_of p rf n)) \<longrightarrow> ''probe_generic_tcp_healthy'' \<in> set seen)"
      by (rule incident_verdict)
    let ?is = "map an_index (candidates_of p rf n)"
    have ne: "candidates_of p rf n \<noteq> []" using co by (auto simp: corroborated_def)
    have "sort ?is = ?is" using candidate_indices_sorted(1) [of p rf n] by (simp add: strict_sorted_iff sorted_sort_id)
    with k episode_indices [of p rf n] ne have "idx = ?is \<and> (ca \<noteq> CATEGORY_INSUFFICIENT \<longrightarrow> consecutive ?is)" by auto
    with ne candidate_indices_sorted [of p rf n] show ?thesis by simp
  qed
  from none inc show "st \<noteq> STATUS_INCIDENT \<longrightarrow> idx = []" "idx \<noteq> [] \<or> st \<noteq> STATUS_INCIDENT" "sorted_wrt (<) idx"
    "set idx \<subseteq> {MIN_BASELINE_BUCKETS..<n}" "st = STATUS_INCIDENT \<and> ca \<noteq> CATEGORY_INSUFFICIENT \<longrightarrow> consecutive idx"
    by (cases "st = STATUS_INCIDENT"; simp)+
qed

text \<open>
  A verdict says where it hurts, and only an incident does. The reported bucket indices are strictly
  increasing, after the baseline and inside the window; they are present exactly when the verdict is an
  incident; a verdict with an attribution covers one unbroken run of buckets; and the two epochs are the
  outer boundaries of the first and the last bucket, inside the window.
\<close>

theorem incident_positions:
  assumes "detect e = Inr d" and "c = de_classification d"
  shows "(cl_status c = STATUS_INCIDENT) = (de_indices d \<noteq> []) \<and> sorted_wrt (<) (de_indices d) \<and>
     set (de_indices d) \<subseteq> {MIN_BASELINE_BUCKETS..<cl_buckets c} \<and>
     (cl_status c = STATUS_INCIDENT \<and> cl_category c \<noteq> CATEGORY_INSUFFICIENT \<longrightarrow> consecutive (de_indices d)) \<and>
     (if de_indices d = [] then de_first d = None \<and> de_last d = None
      else \<exists>f l. de_first d = Some f \<and> de_last d = Some l \<and> f = cl_window_start c + of_nat (hd (de_indices d)) * BUCKET_SECONDS \<and>
           l = cl_window_start c + of_nat (last (de_indices d) + 1) * BUCKET_SECONDS \<and>
           cl_window_start c < f \<and> f < l \<and> l \<le> cl_window_end c)"
proof (cases "refusals e = Inr []")
  case False
  then show ?thesis using refused_quiet [OF assms(1) False] by (simp add: assms(2))
next
  case True
  with assms obtain start n p b st ca seen unknown idx where
    v: "window_verdict p b n = Inr (st, ca, seen, unknown, idx)" and
    c: "cl_status c = st" "cl_category c = ca" "cl_window_start c = start" "cl_window_end c = start + of_nat n * BUCKET_SECONDS"
      "cl_buckets c = n" "de_indices d = idx" and
    fl: "de_first d = (if idx = [] then None else Some (start + of_nat (hd idx) * BUCKET_SECONDS))"
      "de_last d = (if idx = [] then None else Some (start + of_nat (last idx + 1) * BUCKET_SECONDS))"
    by (elim detect_analysed) auto
  note i = verdict_indices [OF v]
  have epochs: "0 < hd idx \<and> hd idx < last idx + 1 \<and> last idx + 1 \<le> n" if "idx \<noteq> []"
  proof -
    have m: "hd idx \<in> set idx" "last idx \<in> set idx" using that by simp_all
    with i(4) have "0 < hd idx" "last idx < n" by (auto simp: MIN_BASELINE_BUCKETS_def)
    moreover have "hd idx \<le> last idx"
      using that i(3) m by (metis hd_Cons_tl last_ConsL last_ConsR last_in_set less_imp_le order_refl sorted_wrt.simps(2))
    ultimately show ?thesis by simp
  qed
  show ?thesis
  proof (cases "idx = []")
    case True
    with i c fl show ?thesis by auto
  next
    case False
    with epochs have "(0::rat) < of_nat (hd idx) * BUCKET_SECONDS"
      "(of_nat (hd idx) :: rat) * BUCKET_SECONDS < of_nat (last idx + 1) * BUCKET_SECONDS"
      "(of_nat (last idx + 1) :: rat) * BUCKET_SECONDS \<le> of_nat n * BUCKET_SECONDS"
      unfolding BUCKET_SECONDS_def by (simp_all only: zero_less_mult_iff mult_less_cancel_right mult_le_cancel_right of_nat_less_iff of_nat_le_iff) auto
    with i c fl False show ?thesis by auto
  qed
qed

theorem incident_positions_witness:
  "cl_status (de_classification sample_detection) = STATUS_INCIDENT \<and> consecutive (de_indices sample_detection) \<and>
     set (de_indices sample_detection) \<subseteq> {MIN_BASELINE_BUCKETS..<4}"
  using incident_positions [OF sample_bundle_verdict refl]
  by (simp add: sample_detection_def status_defs category_defs)

section \<open>Where the documentation promises too much\<close>

definition device_row :: "pyval \<Rightarrow> pyval \<Rightarrow> pyval" where
  "device_row epoch device = PDict [(PStr ''epoch'', epoch), (PStr ''device'', device), (PStr ''inbound'', PStr ''hy2-in''),
     (PStr ''active_connections'', PInt 0), (PStr ''reason'', PStr ''change'')]"

definition malformed_row :: pyval where
  "malformed_row = PDict [(PStr ''epoch'', PInt 6000)]"

lemma int_to_float_limit: "int_to_float float_limit = Inl OverflowError"
  by (simp add: int_to_float_def float_limit_def)

text \<open>
  The classifier can raise. A device row that passes validation makes it raise \<open>TypeError\<close> when its
  device is a list, because the pair of device and inbound is put in a set, and a row whose epoch is an
  integer too large for a float makes validation itself raise \<open>OverflowError\<close>.
\<close>

theorem classifier_can_raise:
  "detect (sample_bundle [] [device_row (PInt 6000) (PList [])] []) = Inl TypeError \<and>
     refusals (sample_bundle [] [device_row (PInt 6000) (PList [])] []) = Inr [] \<and>
     detect (sample_bundle [] [device_row (PInt float_limit) (PStr ''vmix'')] []) = Inl OverflowError"
proof (intro conjI)
  show "detect (sample_bundle [] [device_row (PInt 6000) (PList [])] []) = Inl TypeError" by code_simp
  show "refusals (sample_bundle [] [device_row (PInt 6000) (PList [])] []) = Inr []" by code_simp
  show "detect (sample_bundle [] [device_row (PInt float_limit) (PStr ''vmix'')] []) = Inl OverflowError" by code_simp
qed

text \<open>
  The order of rows can change the verdict. A section with a malformed row and a row outside the window
  is refused with different unknowns depending on which of the two comes first.
\<close>

theorem refusal_depends_on_row_order:
  "map_sum id (\<lambda>c. cl_unknowns c) (classify (sample_bundle [] [malformed_row, device_row (PInt 0) (PStr ''vmix'')] []))
     = Inr [''evidence_rejected_device_states''] \<and>
   map_sum id (\<lambda>c. cl_unknowns c) (classify (sample_bundle [] [device_row (PInt 0) (PStr ''vmix''), malformed_row] []))
     = Inr [''evidence_outside_window'', ''evidence_rejected_device_states'']"
  by (rule conjI; code_simp)

end
