(* ===== verification/Wire.thy ===== *)
theory Wire
  imports Prelude
begin

text \<open>
  The protobuf wire codec of \<open>monitor-v2/api_bridge/proto_wire.py\<close>: varints, the field loop of
  \<open>decode_message\<close> and the connection event messages built on it. A \<open>bytes\<close> object is a list of
  8-bit words. Positions are kept as in the source, so an overrun is a value, never an
  out-of-range read.
\<close>

unbundle bit_operations_syntax

type_synonym byte = "8 word"
type_synonym bytes = "byte list"

section \<open>UTF-8 with replacement\<close>

text \<open>
  \<open>bytes.decode("utf-8", errors="replace")\<close>: every maximal invalid prefix of a sequence becomes
  one U+FFFD. A string is represented by its UTF-8 encoding, so valid input is copied.
\<close>

definition byte_char :: "byte \<Rightarrow> char" where
  "byte_char b = char_of (unat b)"

definition is_cont :: "byte \<Rightarrow> bool" where
  "is_cont b \<longleftrightarrow> 0x80 \<le> unat b \<and> unat b \<le> 0xBF"

definition second_ok :: "byte \<Rightarrow> byte \<Rightarrow> bool" where
  "second_ok b c \<longleftrightarrow> is_cont c
     \<and> (unat b = 0xE0 \<longrightarrow> 0xA0 \<le> unat c) \<and> (unat b = 0xED \<longrightarrow> unat c \<le> 0x9F)
     \<and> (unat b = 0xF0 \<longrightarrow> 0x90 \<le> unat c) \<and> (unat b = 0xF4 \<longrightarrow> unat c \<le> 0x8F)"

definition seq_len :: "byte \<Rightarrow> nat" where
  "seq_len b = (let n = unat b in
     if n \<le> 0x7F then 1 else if 0xC2 \<le> n \<and> n \<le> 0xDF then 2
     else if 0xE0 \<le> n \<and> n \<le> 0xEF then 3 else if 0xF0 \<le> n \<and> n \<le> 0xF4 then 4 else 0)"

text \<open>The number of bytes of the first sequence that are consistent with its lead byte.\<close>

definition good_prefix :: "bytes \<Rightarrow> nat" where
  "good_prefix bs = (case bs of
       [] \<Rightarrow> 0
     | b # rest \<Rightarrow>
        (case rest of
           c # rest' \<Rightarrow>
             if seq_len b \<ge> 2 \<and> second_ok b c
             then 2 + length (takeWhile is_cont (take (seq_len b - 2) rest')) else 1
         | [] \<Rightarrow> 1))"

definition replacement :: string where
  "replacement = map byte_char [0xEF, 0xBF, 0xBD]"

function utf8_replace :: "bytes \<Rightarrow> string" where
  "utf8_replace [] = []"
| "utf8_replace (b # rest) =
     (let n = good_prefix (b # rest) in
      if n = seq_len b then map byte_char (take n (b # rest)) @ utf8_replace (drop n (b # rest))
      else replacement @ utf8_replace (drop n (b # rest)))"
  by pat_completeness auto
termination
proof (relation "measure length", goal_cases)
  case 1
  show ?case by simp
next
  case (2 b rest n)
  have "0 < good_prefix (b # rest)" by (auto simp: good_prefix_def split: list.splits)
  with 2 show ?case by simp
next
  case (3 b rest n)
  have "0 < good_prefix (b # rest)" by (auto simp: good_prefix_def split: list.splits)
  with 3 show ?case by simp
qed

section \<open>Varints\<close>

definition WIRE_VARINT :: nat where "WIRE_VARINT = 0"
definition WIRE_FIXED64 :: nat where "WIRE_FIXED64 = 1"
definition WIRE_LEN :: nat where "WIRE_LEN = 2"
definition WIRE_FIXED32 :: nat where "WIRE_FIXED32 = 5"

lemmas wire_types = WIRE_VARINT_def WIRE_FIXED64_def WIRE_LEN_def WIRE_FIXED32_def

lemma drop_bit_7_less: "drop_bit 7 (v::nat) \<noteq> 0 \<Longrightarrow> drop_bit 7 v < v"
  by (simp add: drop_bit_eq_div)

function encode_varint_loop :: "nat \<Rightarrow> bytes" where
  "encode_varint_loop value =
     (let bits = value AND 0x7F; value' = drop_bit 7 value in
      if value' \<noteq> 0 then word_of_nat (bits OR 0x80) # encode_varint_loop value'
      else [word_of_nat bits])"
  by pat_completeness auto
termination
  by (relation "measure id") (auto intro: drop_bit_7_less)

definition encode_varint :: "int \<Rightarrow> bytes res" where
  "encode_varint value =
     (if value < 0 then Inl (ValueError ''encode_varint expects a non-negative integer'')
      else Inr (encode_varint_loop (nat value)))"

function decode_varint_loop :: "bytes \<Rightarrow> nat \<Rightarrow> nat \<Rightarrow> nat \<Rightarrow> (nat \<times> nat) res" where
  "decode_varint_loop buf pos result shift =
     (if length buf \<le> pos then Inl (ProtoDecodeError ''truncated varint'')
      else let byte = buf ! pos; pos' = pos + 1;
               result' = result OR push_bit shift (unat (byte AND 0x7F))
           in if byte AND 0x80 = 0 then Inr (result', pos')
              else let shift' = shift + 7
                   in if 70 < shift' then Inl (ProtoDecodeError ''varint too long'')
                      else decode_varint_loop buf pos' result' shift')"
  by pat_completeness auto
termination
  by (relation "measure (\<lambda>(buf, pos, r, s). length buf - pos)") auto

declare encode_varint_loop.simps [simp del] decode_varint_loop.simps [simp del]

definition decode_varint :: "bytes \<Rightarrow> nat \<Rightarrow> (nat \<times> nat) res" where
  "decode_varint buf pos = decode_varint_loop buf pos 0 0"

definition to_signed64 :: "nat \<Rightarrow> int" where
  "to_signed64 u = (if 2 ^ 63 \<le> u then int u - 2 ^ 64 else int u)"

lemma decode_varint_loop_pos:
  "decode_varint_loop buf pos r s = Inr (v, p) \<Longrightarrow> pos < p \<and> p \<le> length buf"
proof (induction buf pos r s rule: decode_varint_loop.induct)
  case (1 buf pos r s)
  from "1.prems" show ?case
    by (subst (asm) decode_varint_loop.simps)
       (auto simp: Let_def split: if_splits dest!: "1.IH" [OF _ refl refl refl _ refl])
qed

lemma decode_varint_pos: "decode_varint buf pos = Inr (v, p) \<Longrightarrow> pos < p \<and> p \<le> length buf"
  by (simp add: decode_varint_def decode_varint_loop_pos)

section \<open>The field loop\<close>

datatype wire_value = WInt int | WBytes bytes

datatype pbval = PbInt int | PbBool bool | PbStr string | PbBytes bytes | PbList "pbval list"

type_synonym pb_values = "(string, pbval) dict"
type_synonym spec = "(nat, string \<times> string) dict"

fun int_digits :: "nat \<Rightarrow> string" where
  "int_digits n = (if n < 10 then [char_of (48 + n)] else int_digits (n div 10) @ [char_of (48 + n mod 10)])"

declare int_digits.simps [simp del]

definition int_str :: "int \<Rightarrow> string" where
  "int_str i = (if i < 0 then ''-'' @ int_digits (nat (- i)) else int_digits (nat i))"

definition read_fixed :: "bytes \<Rightarrow> nat \<Rightarrow> nat \<Rightarrow> string \<Rightarrow> (wire_value \<times> nat) res" where
  "read_fixed buf pos len msg =
     (if length buf < pos + len then Inl (ProtoDecodeError msg)
      else Inr (WBytes (take len (drop pos buf)), pos + len))"

definition read_value :: "bytes \<Rightarrow> nat \<Rightarrow> nat \<Rightarrow> (wire_value \<times> nat) res" where
  "read_value buf wire_type pos =
     (if wire_type = WIRE_VARINT then
        res_bind (decode_varint buf pos) (\<lambda>(raw, pos). Inr (WInt (to_signed64 raw), pos))
      else if wire_type = WIRE_LEN then
        res_bind (decode_varint buf pos) (\<lambda>(len, pos).
          read_fixed buf pos len ''length-delimited field overruns buffer'')
      else if wire_type = WIRE_FIXED64 then read_fixed buf pos 8 ''truncated fixed64''
      else if wire_type = WIRE_FIXED32 then read_fixed buf pos 4 ''truncated fixed32''
      else Inl (ProtoDecodeError (''unsupported wire type '' @ int_str (int wire_type))))"

definition decode_kind :: "string \<Rightarrow> wire_value \<Rightarrow> pbval option" where
  "decode_kind kind value =
     (if kind = ''varint'' then (case value of WInt n \<Rightarrow> Some (PbInt n) | WBytes _ \<Rightarrow> None)
      else if kind = ''bool'' then
        Some (PbBool (case value of WInt n \<Rightarrow> n \<noteq> 0 | WBytes b \<Rightarrow> b \<noteq> []))
      else if kind = ''string'' then
        (case value of WInt _ \<Rightarrow> None | WBytes b \<Rightarrow> Some (PbStr (utf8_replace b)))
      else if kind = ''message'' then
        (case value of WInt _ \<Rightarrow> None | WBytes b \<Rightarrow> Some (PbBytes b))
      else None)"

definition put_field :: "string \<Rightarrow> pbval \<Rightarrow> pb_values \<Rightarrow> pb_values" where
  "put_field name decoded vals =
     (case dict_get vals name of
        None \<Rightarrow> dict_set name decoded vals
      | Some (PbList xs) \<Rightarrow> dict_set name (PbList (xs @ [decoded])) vals
      | Some x \<Rightarrow> dict_set name (PbList [x, decoded]) vals)"

definition take_field :: "spec \<Rightarrow> nat \<Rightarrow> wire_value \<Rightarrow> pb_values \<Rightarrow> pb_values" where
  "take_field spec field_number value vals =
     (case dict_get spec field_number of
        None \<Rightarrow> vals
      | Some (name, kind) \<Rightarrow>
          (case decode_kind kind value of None \<Rightarrow> vals | Some d \<Rightarrow> put_field name d vals))"

definition read_field :: "bytes \<Rightarrow> nat \<Rightarrow> (nat \<times> wire_value \<times> nat) res" where
  "read_field buf pos =
     res_bind (decode_varint buf pos) (\<lambda>(tag, pos).
       res_bind (read_value buf (tag AND 0x07) pos) (\<lambda>(value, pos).
         Inr (drop_bit 3 tag, value, pos)))"

lemma read_fixed_pos: "read_fixed buf pos n msg = Inr (v, p) \<Longrightarrow> pos \<le> p \<and> p \<le> length buf"
  by (auto simp: read_fixed_def split: if_splits)

lemma read_value_pos:
  "read_value buf w pos = Inr (v, p) \<Longrightarrow> pos \<le> p \<and> p \<le> length buf"
  by (auto simp: read_value_def res_bind_eq_Inr split: if_splits prod.splits
      dest!: decode_varint_pos read_fixed_pos)

lemma read_field_pos: "read_field buf pos = Inr (n, v, p) \<Longrightarrow> pos < p \<and> p \<le> length buf"
  by (auto simp: read_field_def res_bind_eq_Inr split: prod.splits
      dest!: decode_varint_pos read_value_pos)

function decode_loop :: "spec \<Rightarrow> bytes \<Rightarrow> nat \<Rightarrow> pb_values \<Rightarrow> pb_values res" where
  "decode_loop spec buf pos vals =
     (if pos < length buf then
        (case read_field buf pos of
           Inl e \<Rightarrow> Inl e
         | Inr (n, v, pos') \<Rightarrow> decode_loop spec buf pos' (take_field spec n v vals))
      else Inr vals)"
  by pat_completeness auto
termination
proof (relation "measure (\<lambda>(spec, buf, pos, vals). length buf - pos)", goal_cases)
  case 1
  show ?case by simp
next
  case (2 spec buf pos vals x n y v pos')
  then show ?case using read_field_pos [of buf pos n v pos'] by auto
qed

declare decode_loop.simps [simp del]

definition decode_message :: "bytes \<Rightarrow> spec \<Rightarrow> pb_values res" where
  "decode_message buf spec = decode_loop spec buf 0 []"

definition encode_length_delimited :: "int \<Rightarrow> bytes \<Rightarrow> bytes res" where
  "encode_length_delimited field_number payload =
     res_bind (encode_varint (push_bit 3 field_number OR int WIRE_LEN)) (\<lambda>t.
       res_bind (encode_varint (int (length payload))) (\<lambda>n. Inr (t @ n @ payload)))"

definition encode_varint_field :: "int \<Rightarrow> int \<Rightarrow> bytes res" where
  "encode_varint_field field_number value =
     res_bind (encode_varint (push_bit 3 field_number OR int WIRE_VARINT)) (\<lambda>t.
       res_bind (encode_varint value) (\<lambda>v. Inr (t @ v)))"

section \<open>The concrete messages\<close>

definition event_type_names :: "(int, string) dict" where
  "event_type_names = [(0, ''NEW''), (1, ''UPDATE''), (2, ''CLOSED'')]"

definition CONNECTION_SPEC :: spec where
  "CONNECTION_SPEC =
     [(1, (''id'', ''string'')), (2, (''inbound'', ''string'')),
      (3, (''inbound_type'', ''string'')), (4, (''ip_version'', ''varint'')),
      (5, (''network'', ''string'')), (6, (''source'', ''string'')),
      (7, (''destination'', ''string'')), (10, (''user'', ''string'')),
      (12, (''created_at'', ''varint'')), (13, (''closed_at'', ''varint'')),
      (16, (''uplink_total'', ''varint'')), (17, (''downlink_total'', ''varint''))]"

definition CONNECTION_EVENT_SPEC :: spec where
  "CONNECTION_EVENT_SPEC =
     [(1, (''type'', ''varint'')), (2, (''id'', ''string'')),
      (3, (''connection'', ''message'')), (4, (''uplink_delta'', ''varint'')),
      (5, (''downlink_delta'', ''varint'')), (6, (''closed_at'', ''varint''))]"

definition CONNECTION_EVENTS_SPEC :: spec where
  "CONNECTION_EVENTS_SPEC = [(1, (''events'', ''message'')), (2, (''reset'', ''bool''))]"

definition SUBSCRIBE_SPEC :: spec where
  "SUBSCRIBE_SPEC = [(1, (''interval'', ''varint''))]"

record conn_event =
  ev_type :: string
  ev_id :: pbval
  ev_connection :: "pb_values option"
  ev_uplink_delta :: rat
  ev_downlink_delta :: rat
  ev_closed_at :: int

record events_batch =
  eb_reset :: bool
  eb_events :: "conn_event list"

text \<open>
  \<open>float\<close> and \<open>int\<close> of a decoded field: a field that occurred twice is a list, and both
  conversions raise on a list. A string cannot occur at these fields.
\<close>

definition py_number :: "pbval option \<Rightarrow> int res" where
  "py_number x =
     (case x of None \<Rightarrow> Inr 0 | Some (PbInt n) \<Rightarrow> Inr n
      | Some (PbBool b) \<Rightarrow> Inr (if b then 1 else 0) | Some _ \<Rightarrow> Inl TypeError)"

definition type_name :: "int \<Rightarrow> string" where
  "type_name n =
     (case dict_get event_type_names n of Some s \<Rightarrow> s | None \<Rightarrow> ''UNKNOWN_'' @ int_str n)"

definition encode_subscribe_connections_request :: "int \<Rightarrow> bytes res" where
  "encode_subscribe_connections_request interval_ns = encode_varint_field 1 interval_ns"

definition decode_subscribe_connections_request :: "pbval \<Rightarrow> int res" where
  "decode_subscribe_connections_request raw =
     (case raw of
        PbBytes b \<Rightarrow>
          res_bind (decode_message b SUBSCRIBE_SPEC) (\<lambda>fields. py_number (dict_get fields ''interval''))
      | _ \<Rightarrow> Inl (ProtoDecodeError ''request payload must be bytes''))"

definition decode_connection :: "pbval \<Rightarrow> pb_values option res" where
  "decode_connection raw =
     (case raw of
        PbBytes b \<Rightarrow> res_bind (decode_message b CONNECTION_SPEC) (\<lambda>v. Inr (Some v))
      | _ \<Rightarrow> Inr None)"

definition decode_connection_event :: "pbval \<Rightarrow> conn_event option res" where
  "decode_connection_event raw =
     (case raw of
        PbBytes b \<Rightarrow>
          res_bind (decode_message b CONNECTION_EVENT_SPEC) (\<lambda>fields.
          res_bind (py_number (dict_get fields ''type'')) (\<lambda>type_number.
          res_bind (case dict_get fields ''connection'' of
                      Some (PbBytes c) \<Rightarrow> decode_connection (PbBytes c) | _ \<Rightarrow> Inr None) (\<lambda>conn.
          res_bind (py_number (dict_get fields ''uplink_delta'')) (\<lambda>up.
          res_bind (py_number (dict_get fields ''downlink_delta'')) (\<lambda>down.
          res_bind (py_number (dict_get fields ''closed_at'')) (\<lambda>closed.
            Inr (Some \<lparr>ev_type = type_name type_number,
                       ev_id = (case dict_get fields ''id'' of None \<Rightarrow> PbStr [] | Some x \<Rightarrow> x),
                       ev_connection = conn,
                       ev_uplink_delta = rat_of_int up,
                       ev_downlink_delta = rat_of_int down,
                       ev_closed_at = closed\<rparr>)))))))
      | _ \<Rightarrow> Inr None)"

definition event_list :: "pbval option \<Rightarrow> pbval list" where
  "event_list x = (case x of None \<Rightarrow> [] | Some (PbList xs) \<Rightarrow> xs | Some v \<Rightarrow> [v])"

definition py_truth :: "pbval \<Rightarrow> bool" where
  "py_truth x =
     (case x of PbInt n \<Rightarrow> n \<noteq> 0 | PbBool b \<Rightarrow> b | PbStr s \<Rightarrow> s \<noteq> [] | PbBytes b \<Rightarrow> b \<noteq> []
      | PbList xs \<Rightarrow> xs \<noteq> [])"

definition decode_connection_events :: "pbval \<Rightarrow> events_batch res" where
  "decode_connection_events raw =
     (case raw of
        PbBytes b \<Rightarrow>
          res_bind (decode_message b CONNECTION_EVENTS_SPEC) (\<lambda>fields.
          res_bind (res_map decode_connection_event (event_list (dict_get fields ''events''))) (\<lambda>evs.
            Inr \<lparr>eb_reset = (case dict_get fields ''reset'' of None \<Rightarrow> False | Some x \<Rightarrow> py_truth x),
                 eb_events = List.map_filter id evs\<rparr>))
      | _ \<Rightarrow> Inl (ProtoDecodeError ''ConnectionEvents payload must be bytes''))"

section \<open>Bit and byte arithmetic of the varint loops\<close>

lemma or_push_bit: "r < 2 ^ s \<Longrightarrow> r OR push_bit s x = r + x * 2 ^ s" for r s x :: nat
proof -
  assume r: "r < 2 ^ s"
  have "r AND push_bit s x = 0"
  proof (rule bit_eqI)
    fix n
    show "bit (r AND push_bit s x) n \<longleftrightarrow> bit 0 n"
    proof (cases "n < s")
      case True
      then show ?thesis by (simp add: bit_simps)
    next
      case False
      with r have "r < 2 ^ n" by (meson leI le_less_trans less_le_trans one_le_numeral power_increasing)
      then have "\<not> bit r n" by (simp add: bit_iff_odd)
      then show ?thesis by (simp add: bit_simps)
    qed
  qed
  then show ?thesis by (simp add: disjunctive_add_eq_or push_bit_eq_mult)
qed

lemma byte_and_7F: "unat (word_of_nat n AND 0x7F :: 8 word) = n mod 128"
proof -
  have "word_of_nat n AND (0x7F :: 8 word) = take_bit 7 (word_of_nat n)"
    using take_bit_eq_mask [of 7 "word_of_nat n :: 8 word"] by (simp add: mask_eq_exp_minus_1)
  then have "unat (word_of_nat n AND 0x7F :: 8 word) = take_bit 7 (take_bit 8 n)"
    by (simp add: unsigned_take_bit_eq unsigned_of_nat)
  then show ?thesis by (simp add: take_bit_eq_mod mod_mod_cancel)
qed

lemma byte_and_80: "word_of_nat n AND (0x80 :: 8 word) = 0 \<longleftrightarrow> even (n div 128)"
proof -
  have "(0x80 :: 8 word) = 2 ^ 7" by simp
  then have "word_of_nat n AND (0x80 :: 8 word) = 0 \<longleftrightarrow> \<not> bit (word_of_nat n :: 8 word) 7"
    using and_exp_eq_0_iff_not_bit by metis
  also have "bit (word_of_nat n :: 8 word) 7 \<longleftrightarrow> bit n 7"
    by (simp only: bit_of_nat_iff) simp
  finally show ?thesis by (simp add: bit_iff_odd)
qed

lemma and_127: "v AND 0x7F = v mod 128" for v :: nat
  using take_bit_eq_mask [of 7 v] by (simp add: take_bit_eq_mod mask_eq_exp_minus_1)

lemma or_128: "v AND 0x7F OR 0x80 = v mod 128 + 128" for v :: nat
  using or_push_bit [of "v mod 128" 7 1] by (simp add: and_127)

lemma byte_low:
  "unat (word_of_nat (v AND 0x7F OR 0x80) AND 0x7F :: 8 word) = v mod 128"
  "unat (word_of_nat (v AND 0x7F) AND 0x7F :: 8 word) = v mod 128"
  "word_of_nat (v AND 0x7F OR 0x80) AND (0x80::8 word) \<noteq> 0"
  "word_of_nat (v AND 0x7F) AND (0x80::8 word) = 0"
  unfolding byte_and_7F byte_and_80 or_128 by (simp_all add: and_127)

text \<open>
  The contract of a self-delimiting encoding: decoding at the start of an encoded item returns the
  item and the position just behind it, whatever follows. Items of such a codec can be
  concatenated without ambiguity.
\<close>

locale stream_codec =
  fixes enc :: "'a \<Rightarrow> bytes"
    and dec :: "bytes \<Rightarrow> nat \<Rightarrow> ('a \<times> nat) res"
    and valid :: "'a \<Rightarrow> bool"
  assumes dec_enc:
    "valid x \<Longrightarrow> dec (pre @ enc x @ post) (length pre) = Inr (x, length pre + length (enc x))"
begin

lemma enc_cancel:
  assumes "valid x" "valid y" and eq: "enc x @ r = enc y @ s"
  shows "x = y \<and> r = s"
proof -
  have "Inr (x, length (enc x)) = (Inr (y, length (enc y)) :: ('a \<times> nat) res)"
    using dec_enc [OF assms(1), of "[]" r] dec_enc [OF assms(2), of "[]" s] eq by simp
  with eq show ?thesis by simp
qed

lemma concat_inject:
  assumes "\<forall>x\<in>set xs. valid x" "\<forall>y\<in>set ys. valid y" "\<forall>x. enc x \<noteq> []"
    and "concat (map enc xs) = concat (map enc ys)"
  shows "xs = ys"
  using assms
proof (induction xs arbitrary: ys)
  case Nil
  then show ?case by (cases ys) auto
next
  case (Cons x xs)
  from Cons.prems(3,4) obtain y ys' where ys: "ys = y # ys'" by (cases ys) simp_all
  have "enc x @ concat (map enc xs) = enc y @ concat (map enc ys')"
    using Cons.prems(4) ys by simp
  then have "x = y \<and> concat (map enc xs) = concat (map enc ys')"
    by (rule enc_cancel [rotated 2]) (use Cons.prems(1,2) ys in simp_all)
  moreover from this have "xs = ys'"
    by (intro Cons.IH) (use Cons.prems(1,2,3) ys in simp_all)
  ultimately show ?case by (simp add: ys)
qed

end

section \<open>Varints are a self-delimiting encoding\<close>

text \<open>
  The loop reads at most eleven bytes (shifts 0, 7, \<open>\<dots>\<close>, 70), so the encodings it accepts are those of
  the numbers below \<^term>\<open>2 ^ 77 :: nat\<close>.
\<close>

lemma decode_varint_loop_enc:
  assumes "v < 2 ^ (77 - s)" "s \<le> 70" "7 dvd s" "r < 2 ^ s"
  shows "decode_varint_loop (pre @ encode_varint_loop v @ post) (length pre) r s
     = Inr (r + v * 2 ^ s, length pre + length (encode_varint_loop v))"
  using assms
proof (induction v arbitrary: pre r s rule: encode_varint_loop.induct)
  case (1 v)
  have shift: "drop_bit 7 v = v div 128" by (simp add: drop_bit_eq_div)
  show ?case
  proof (cases "v div 128 = 0")
    case True
    then have "encode_varint_loop v = [word_of_nat (v AND 0x7F)]"
      by (subst encode_varint_loop.simps) (simp add: shift Let_def)
    moreover from True have "v mod 128 = v" by simp
    ultimately show ?thesis
      using "1.prems" by (subst decode_varint_loop.simps) (simp add: Let_def nth_append byte_low or_push_bit)
  next
    case False
    let ?b = "word_of_nat (v AND 0x7F OR 0x80) :: byte"
    have enc: "encode_varint_loop v = ?b # encode_varint_loop (v div 128)"
      using False by (subst encode_varint_loop.simps) (simp add: shift Let_def)
    have s: "s + 7 \<le> 70"
    proof (rule ccontr)
      assume "\<not> s + 7 \<le> 70"
      with "1.prems"(2,3) have "s = 70" by presburger
      with "1.prems"(1) False show False by simp
    qed
    have e: "77 - s = 7 + (77 - (s + 7))" using s by simp
    have small: "v div 128 < 2 ^ (77 - (s + 7))"
      using "1.prems"(1) unfolding e power_add by (simp add: less_mult_imp_div_less mult.commute)
    have r': "r + (v mod 128) * 2 ^ s < 2 ^ (s + 7)"
    proof -
      have "v mod 128 \<le> 127" by simp
      then have "(v mod 128) * 2 ^ s \<le> 127 * 2 ^ s" by (rule mult_le_mono1)
      with "1.prems"(4) have "r + (v mod 128) * 2 ^ s < 128 * 2 ^ s" by linarith
      then show ?thesis by (simp add: power_add)
    qed
    have IH: "decode_varint_loop ((pre @ [?b]) @ encode_varint_loop (v div 128) @ post)
        (length (pre @ [?b])) (r + (v mod 128) * 2 ^ s) (s + 7)
      = Inr ((r + (v mod 128) * 2 ^ s) + v div 128 * 2 ^ (s + 7),
             length (pre @ [?b]) + length (encode_varint_loop (v div 128)))"
      by (rule "1.IH" [OF refl refl, unfolded shift, OF False small s _ r'])
         (use "1.prems"(3) in simp)
    have "v mod 128 * 2 ^ s + v div 128 * 2 ^ (s + 7) = v * 2 ^ s"
    proof -
      have "v mod 128 * 2 ^ s + v div 128 * 2 ^ (s + 7) = (v mod 128 + v div 128 * 128) * 2 ^ s"
        by (simp only: power_add distrib_right) simp
      also have "v mod 128 + v div 128 * 128 = v" by (rule mod_div_mult_eq)
      finally show ?thesis .
    qed
    then show ?thesis
      using IH s "1.prems"(4) unfolding enc
      by (subst decode_varint_loop.simps) (simp add: Let_def nth_append byte_low or_push_bit add.assoc)
  qed
qed

lemma encode_varint_loop_nonempty [simp]: "encode_varint_loop v \<noteq> []"
  by (subst encode_varint_loop.simps) (simp add: Let_def)

interpretation varint: stream_codec encode_varint_loop decode_varint "\<lambda>v. v < 2 ^ 77"
  by unfold_locales (simp add: decode_varint_def decode_varint_loop_enc)


section \<open>Fields are a self-delimiting encoding\<close>

fun enc_field :: "nat \<times> wire_value \<Rightarrow> bytes" where
  "enc_field (n, WInt i) =
     encode_varint_loop (push_bit 3 n OR WIRE_VARINT) @ encode_varint_loop (nat (i mod 2 ^ 64))"
| "enc_field (n, WBytes b) =
     encode_varint_loop (push_bit 3 n OR WIRE_LEN) @ encode_varint_loop (length b) @ b"

fun valid_field :: "nat \<times> wire_value \<Rightarrow> bool" where
  "valid_field (n, WInt i) = (n < 2 ^ 74 \<and> - (2 ^ 63) \<le> i \<and> i < 2 ^ 63)"
| "valid_field (n, WBytes b) = (n < 2 ^ 74 \<and> length b < 2 ^ 77)"

definition dec_field :: "bytes \<Rightarrow> nat \<Rightarrow> ((nat \<times> wire_value) \<times> nat) res" where
  "dec_field buf pos = res_bind (read_field buf pos) (\<lambda>(n, v, p). Inr ((n, v), p))"

lemma tag_eq: "w < 8 \<Longrightarrow> push_bit 3 n OR w = w + n * 8" for n w :: nat
  using or_push_bit [of w 3 n] by (simp add: or.commute)

lemma tag_fields:
  fixes n w :: nat
  assumes "w < 8"
  shows "drop_bit 3 (w + n * 8) = n" and "(w + n * 8) AND 0x07 = w"
proof -
  show "drop_bit 3 (w + n * 8) = n" using assms by (simp add: drop_bit_eq_div)
  have "(w + n * 8) AND 0x07 = (w + n * 8) mod 8"
    using take_bit_eq_mask [of 3 "w + n * 8"] by (simp add: take_bit_eq_mod mask_eq_exp_minus_1)
  then show "(w + n * 8) AND 0x07 = w" using assms by simp
qed

lemma to_signed64_mod:
  assumes "- (2 ^ 63) \<le> i" and "i < 2 ^ 63"
  shows "to_signed64 (nat (i mod 2 ^ 64)) = i"
proof (cases "0 \<le> i")
  case True
  with assms have "i mod 2 ^ 64 = i" by (intro mod_pos_pos_trivial) simp_all
  with True assms show ?thesis by (simp add: to_signed64_def)
next
  case False
  with assms have "i mod 2 ^ 64 = i + 2 ^ 64"
    by (intro int_mod_pos_eq [of _ _ "-1"]) simp_all
  with False assms show ?thesis by (simp add: to_signed64_def)
qed

lemma varint_at:
  assumes "v < 2 ^ 77"
  shows "decode_varint (pre @ encode_varint_loop v @ post) (length pre)
     = Inr (v, length pre + length (encode_varint_loop v))"
  using varint.dec_enc [OF assms] .

lemma varint_at2:
  assumes "v < 2 ^ 77"
  shows "decode_varint (pre @ a @ encode_varint_loop v @ post) (length pre + length a)
     = Inr (v, length pre + length a + length (encode_varint_loop v))"
  using varint_at [OF assms, of "pre @ a" post] by simp

lemma read_field_tag:
  assumes "w < 8" and "n < 2 ^ 74"
  shows "read_field (pre @ encode_varint_loop (push_bit 3 n OR w) @ rest) (length pre)
    = res_bind (read_value (pre @ encode_varint_loop (push_bit 3 n OR w) @ rest) w
        (length pre + length (encode_varint_loop (push_bit 3 n OR w))))
        (\<lambda>(v, p). Inr (n, v, p))"
proof -
  have small: "w + n * 8 < 2 ^ 77" using assms by simp
  show ?thesis
    unfolding read_field_def tag_eq [OF assms(1)] varint_at [OF small]
    by (simp add: tag_fields [OF assms(1)])
qed

lemma wire_type_small [simp]: "WIRE_VARINT < 8" "WIRE_LEN < 8" "WIRE_LEN \<noteq> WIRE_VARINT"
  by (simp_all add: wire_types)

interpretation field: stream_codec enc_field dec_field valid_field
proof
  fix x :: "nat \<times> wire_value" and pre post
  assume v: "valid_field x"
  obtain n w where x: "x = (n, w)" by (cases x)
  with v have n: "n < 2 ^ 74" by (cases w) auto
  show "dec_field (pre @ enc_field x @ post) (length pre) = Inr (x, length pre + length (enc_field x))"
  proof (cases w)
    case (WInt i)
    have small: "nat (i mod 2 ^ 64) < 2 ^ 77" by (simp add: nat_less_iff)
    have "to_signed64 (nat (i mod 2 ^ 64)) = i"
      using v x WInt by (intro to_signed64_mod) simp_all
    then show ?thesis
      unfolding x WInt dec_field_def enc_field.simps append.assoc
        read_field_tag [OF wire_type_small(1) n] read_value_def varint_at2 [OF small]
      by simp
  next
    case (WBytes b)
    then have small: "length b < 2 ^ 77" using v x by simp
    show ?thesis
      unfolding x WBytes dec_field_def enc_field.simps append.assoc
        read_field_tag [OF wire_type_small(2) n] read_value_def varint_at2 [OF small]
      by (simp add: read_fixed_def)
  qed
qed

lemma read_field_enc:
  "valid_field (n, w) \<Longrightarrow> read_field (pre @ enc_field (n, w) @ post) (length pre)
     = Inr (n, w, length pre + length (enc_field (n, w)))"
  using field.dec_enc [of "(n, w)" pre post]
  by (auto simp: dec_field_def res_bind_eq_Inr split: prod.splits)

lemma enc_field_nonempty: "enc_field x \<noteq> []"
  by (cases x rule: enc_field.cases) auto

lemma decode_loop_fields:
  "\<forall>f\<in>set fs. valid_field f \<Longrightarrow>
   decode_loop spec (pre @ concat (map enc_field fs)) (length pre) vals
     = Inr (foldl (\<lambda>vals (n, v). take_field spec n v vals) vals fs)"
proof (induction fs arbitrary: pre vals)
  case Nil
  then show ?case by (subst decode_loop.simps) simp
next
  case (Cons f fs)
  obtain n w where f: "f = (n, w)" by (cases f)
  have "read_field (pre @ enc_field f @ concat (map enc_field fs)) (length pre)
     = Inr (n, w, length pre + length (enc_field f))"
    using read_field_enc Cons.prems f by simp
  with Cons.IH [of "pre @ enc_field f"] Cons.prems f enc_field_nonempty [of f] show ?case
    by (subst decode_loop.simps) simp
qed

lemma decode_message_concat:
  "\<forall>f\<in>set fs. valid_field f \<Longrightarrow>
   decode_message (concat (map enc_field fs)) spec
     = Inr (foldl (\<lambda>vals (n, v). take_field spec n v vals) [] fs)"
  using decode_loop_fields [of fs spec "[]" "[]"] by (simp add: decode_message_def)

section \<open>Errors of the decoder\<close>

definition proto_error_only :: "'a res \<Rightarrow> bool" where
  "proto_error_only r \<longleftrightarrow> (case r of Inr _ \<Rightarrow> True | Inl (ProtoDecodeError _) \<Rightarrow> True | Inl _ \<Rightarrow> False)"

lemma proto_error_only_simps [simp]:
  "proto_error_only (Inr x)" "proto_error_only (Inl (ProtoDecodeError m))"
  by (simp_all add: proto_error_only_def)

lemma proto_error_only_bind:
  "proto_error_only m \<Longrightarrow> (\<And>x. m = Inr x \<Longrightarrow> proto_error_only (f x)) \<Longrightarrow> proto_error_only (res_bind m f)"
  by (cases m) (auto simp: proto_error_only_def split: exn.splits)

lemma proto_error_only_varint: "proto_error_only (decode_varint buf pos)"
proof -
  have "proto_error_only (decode_varint_loop buf pos r s)" for r s
    by (induction buf pos r s rule: decode_varint_loop.induct)
       (subst decode_varint_loop.simps, auto simp: Let_def)
  then show ?thesis by (simp add: decode_varint_def)
qed

lemma proto_error_only_read_value: "proto_error_only (read_value buf w pos)"
  by (auto simp: read_value_def read_fixed_def intro!: proto_error_only_bind proto_error_only_varint)

lemma proto_error_only_read_field: "proto_error_only (read_field buf pos)"
  by (auto simp: read_field_def
      intro!: proto_error_only_bind proto_error_only_varint proto_error_only_read_value)

lemma proto_error_only_decode_loop: "proto_error_only (decode_loop spec buf pos vals)"
proof (induction spec buf pos vals rule: decode_loop.induct)
  case (1 spec buf pos vals)
  show ?case
  proof (cases "read_field buf pos")
    case (Inl e)
    with proto_error_only_read_field [of buf pos] show ?thesis
      by (subst decode_loop.simps) (auto simp: proto_error_only_def)
  next
    case (Inr x)
    obtain n v p where x: "x = (n, v, p)" by (cases x)
    show ?thesis
      using "1.IH" [OF _ Inr x [symmetric] refl] Inr x by (subst decode_loop.simps) simp
  qed
qed

section \<open>Properties\<close>



text \<open>
  Every non-negative integer below \<^term>\<open>2 ^ 77 :: int\<close> (which covers every 64-bit value) is encoded by
  \<open>encode_varint\<close> to bytes from which \<open>_decode_varint\<close> reads it back at any position of any buffer,
  leaving the position just behind the encoding; a negative value is refused.
\<close>

theorem varint_roundtrip:
  assumes "0 \<le> v" and "v < 2 ^ 77"
  shows "\<exists>e. encode_varint v = Inr e
      \<and> decode_varint (pre @ e @ post) (length pre) = Inr (nat v, length pre + length e)
      \<and> encode_varint (- 1 - v) = Inl (ValueError ''encode_varint expects a non-negative integer'')"
proof -
  have "nat v < 2 ^ 77" using assms by (simp add: nat_less_iff)
  then show ?thesis using assms varint_at [of "nat v" pre post] by (simp add: encode_varint_def)
qed

theorem varint_roundtrip_witness:
  "\<exists>e. encode_varint 300 = Inr e \<and> decode_varint ([7] @ e @ [9]) 1 = Inr (300, 1 + length e)"
  using varint_roundtrip [of 300 "[7]" "[9]"] by auto

text \<open>
  On any byte string whatsoever the field loop ends, and it ends in a dictionary or in
  \<open>ProtoDecodeError\<close>: truncation, overruns and unsupported wire types never surface as another exception.
\<close>

theorem decode_message_total:
  "(\<exists>vals. decode_message buf spec = Inr vals) \<or> (\<exists>m. decode_message buf spec = Inl (ProtoDecodeError m))"
  using proto_error_only_decode_loop [of spec buf 0 "[]"]
  by (auto simp: decode_message_def proto_error_only_def split: sum.splits exn.splits)

lemma foldl_skip_unknown:
  "foldl (\<lambda>vals (n, v). take_field spec n v vals) acc (filter (\<lambda>(n, v). dict_get spec n \<noteq> None) fs)
     = foldl (\<lambda>vals (n, v). take_field spec n v vals) acc fs"
proof (induction fs arbitrary: acc)
  case Nil
  show ?case by simp
next
  case (Cons f fs)
  obtain n v where f: "f = (n, v)" by (cases f)
  have "dict_get spec n = None \<Longrightarrow> take_field spec n v acc = acc" by (simp add: take_field_def)
  with Cons f show ?case by (cases "dict_get spec n") simp_all
qed

text \<open>
  A field whose number the message specification does not name is skipped: removing all such
  fields from an encoded message does not change what \<open>decode_message\<close> returns.
\<close>

theorem unknown_fields_skipped:
  assumes "\<forall>f\<in>set fs. valid_field f"
  shows "decode_message (concat (map enc_field fs)) spec
     = decode_message (concat (map enc_field (filter (\<lambda>(n, v). dict_get spec n \<noteq> None) fs))) spec"
  using assms by (subst (1 2) decode_message_concat) (simp_all only: foldl_skip_unknown, auto)

theorem unknown_fields_skipped_witness:
  "decode_message (concat (map enc_field [(2, WInt 1), (77, WBytes [1, 2, 3])])) CONNECTION_EVENTS_SPEC
     = decode_message (enc_field (2, WInt 1)) CONNECTION_EVENTS_SPEC"
  using unknown_fields_skipped [of "[(2, WInt 1), (77, WBytes [1, 2, 3])]" CONNECTION_EVENTS_SPEC]
  by (simp add: CONNECTION_EVENTS_SPEC_def)

text \<open>
  An event in which a scalar field occurs twice, which protobuf resolves to the last value, makes
  \<open>decode_connection_event\<close> raise \<open>TypeError\<close>: the field loop has turned the value into a list.
\<close>

theorem repeated_delta_raises:
  assumes "- (2 ^ 63) \<le> i" "i < 2 ^ 63" "- (2 ^ 63) \<le> j" "j < 2 ^ 63"
  shows "decode_connection_event (PbBytes (enc_field (4, WInt i) @ enc_field (4, WInt j))) = Inl TypeError"
proof -
  have "decode_message (concat (map enc_field [(4, WInt i), (4, WInt j)])) CONNECTION_EVENT_SPEC
      = Inr [(''uplink_delta'', PbList [PbInt i, PbInt j])]"
    using assms by (subst decode_message_concat)
      (simp_all add: take_field_def CONNECTION_EVENT_SPEC_def decode_kind_def put_field_def)
  then show ?thesis
    by (simp add: decode_connection_event_def py_number_def)
qed

theorem repeated_delta_raises_witness:
  "decode_connection_event (PbBytes (enc_field (4, WInt 5) @ enc_field (4, WInt 7))) = Inl TypeError"
  by (rule repeated_delta_raises) simp_all

text \<open>
  The subscription request carries its interval: what \<open>encode_subscribe_connections_request\<close> writes,
  \<open>decode_subscribe_connections_request\<close> reads back for every int64 nanosecond count.
\<close>

theorem subscribe_roundtrip:
  assumes "0 \<le> n" and "n < 2 ^ 63"
  shows "res_bind (encode_subscribe_connections_request n)
           (\<lambda>b. decode_subscribe_connections_request (PbBytes b)) = Inr n"
proof -
  have "n mod 2 ^ 64 = n" using assms by (intro mod_pos_pos_trivial) simp_all
  then have enc: "encode_subscribe_connections_request n = Inr (enc_field (1, WInt n))"
    using assms
    by (simp add: encode_subscribe_connections_request_def encode_varint_field_def encode_varint_def
        wire_types)
  have "decode_message (concat (map enc_field [(1, WInt n)])) SUBSCRIBE_SPEC = Inr [(''interval'', PbInt n)]"
    using assms by (subst decode_message_concat)
      (simp_all add: take_field_def SUBSCRIBE_SPEC_def decode_kind_def put_field_def)
  with enc show ?thesis
    by (simp add: decode_subscribe_connections_request_def py_number_def del: enc_field.simps)
qed

theorem subscribe_roundtrip_witness:
  "res_bind (encode_subscribe_connections_request 2000000000)
     (\<lambda>b. decode_subscribe_connections_request (PbBytes b)) = Inr 2000000000"
  by (rule subscribe_roundtrip) simp_all

text \<open>
  The varint loop accepts eleven bytes and the sign conversion subtracts \<^term>\<open>2 ^ 64 :: int\<close> at most
  once, so an overlong varint decodes to a number outside the int64 range the field declares.
\<close>

theorem overlong_varint_leaves_int64:
  "decode_subscribe_connections_request
     (PbBytes ([0x08] @ encode_varint_loop (2 ^ 76))) = Inr (2 ^ 76 - 2 ^ 64)"
proof -
  have tag: "[0x08::byte] = encode_varint_loop (push_bit 3 1 OR WIRE_VARINT)"
    by (subst encode_varint_loop.simps) (simp add: wire_types Let_def)
  have len: "length (encode_varint_loop (8 OR WIRE_VARINT)) = 1"
    using arg_cong [OF tag, of length, symmetric] by (simp add: push_bit_eq_mult)
  have small: "(2::nat) ^ 76 < 2 ^ 77" "(1::nat) < 2 ^ 74" by simp_all
  have "read_field ([] @ [0x08] @ encode_varint_loop (2 ^ 76) @ []) (length ([]::bytes))
      = Inr (1, WInt (to_signed64 (2 ^ 76)), 1 + length (encode_varint_loop (2 ^ 76)))"
    unfolding tag read_field_tag [OF wire_type_small(1) small(2)] read_value_def varint_at2 [OF small(1)]
    by (simp add: len)
  then have rd: "read_field ([0x08] @ encode_varint_loop (2 ^ 76)) 0
      = Inr (1, WInt (2 ^ 76 - 2 ^ 64), length ([0x08] @ encode_varint_loop (2 ^ 76)))"
    by (simp add: to_signed64_def)
  have "decode_message ([0x08] @ encode_varint_loop (2 ^ 76)) SUBSCRIBE_SPEC
      = Inr [(''interval'', PbInt (2 ^ 76 - 2 ^ 64))]"
    unfolding decode_message_def
    by (subst decode_loop.simps, simp add: rd [simplified], subst decode_loop.simps)
       (simp add: take_field_def SUBSCRIBE_SPEC_def decode_kind_def put_field_def)
  then show ?thesis
    by (simp add: decode_subscribe_connections_request_def py_number_def)
qed

end
