(* ===== verification/Frames.thy ===== *)
theory Frames
  imports Wire "HOL-Library.Sublist"
begin

text \<open>
  The gRPC-web client of the sing-box API (\<open>monitor-v2/api_bridge/grpc_web.py\<close>): URL validation, the
  response header, the chunked body, frames and the batches they carry. The socket is a script of what
  its reads give: data, silence longer than the allowance, or an error; empty data is the end of the
  connection. When the script is used up the reader is still waiting.
\<close>

unbundle bit_operations_syntax

section \<open>Bytes\<close>

definition bytes_of :: "string \<Rightarrow> bytes" where
  "bytes_of s = map (\<lambda>c. of_nat (of_char c)) s"

definition CRLF :: bytes where "CRLF = [13, 10]"

text \<open>\<open>partition\<close>: the parts before and after the first occurrence of a separator.\<close>

fun cut :: "'a list \<Rightarrow> 'a list \<Rightarrow> ('a list \<times> 'a list) option" where
  "cut sep [] = (if sep = [] then Some ([], []) else None)"
| "cut sep (x # xs) =
     (if prefix sep (x # xs) then Some ([], drop (length sep) (x # xs))
      else map_option (\<lambda>(a, b). (x # a, b)) (cut sep xs))"

definition before_sep :: "'a list \<Rightarrow> 'a list \<Rightarrow> 'a list" where
  "before_sep sep xs = (case cut sep xs of None \<Rightarrow> xs | Some (a, _) \<Rightarrow> a)"

text \<open>Python slices \<open>xs[:k]\<close> and \<open>xs[k:]\<close>; a negative index counts from the end.\<close>

definition slice_to :: "int \<Rightarrow> 'a list \<Rightarrow> 'a list" where
  "slice_to k xs = (if 0 \<le> k then take (nat k) xs else take (nat (int (length xs) + k)) xs)"

definition slice_from :: "int \<Rightarrow> 'a list \<Rightarrow> 'a list" where
  "slice_from k xs = (if 0 \<le> k then drop (nat k) xs else drop (nat (int (length xs) + k)) xs)"

text \<open>\<open>int\<close> of a bytes literal: white space, a sign, a \<open>0x\<close> prefix in base 16, digits with underscores.\<close>

definition is_space :: "byte \<Rightarrow> bool" where
  "is_space b \<longleftrightarrow> b = 32 \<or> 9 \<le> b \<and> b \<le> 13"

definition strip_bytes :: "bytes \<Rightarrow> bytes" where
  "strip_bytes bs = rev (dropWhile is_space (rev (dropWhile is_space bs)))"

definition digit_of :: "byte \<Rightarrow> nat option" where
  "digit_of b =
     (if 48 \<le> b \<and> b \<le> 57 then Some (unat b - 48)
      else if 97 \<le> b \<and> b \<le> 122 then Some (unat b - 87)
      else if 65 \<le> b \<and> b \<le> 90 then Some (unat b - 55) else None)"

fun digit_run :: "nat \<Rightarrow> bool \<Rightarrow> nat \<Rightarrow> bytes \<Rightarrow> nat option" where
  "digit_run base prev acc [] = (if prev then Some acc else None)"
| "digit_run base prev acc (b # bs) =
     (if b = 95 then if prev then digit_run base False acc bs else None
      else case digit_of b of
             None \<Rightarrow> None
           | Some v \<Rightarrow> if v < base then digit_run base True (acc * base + v) bs else None)"

text \<open>The rest after a leading byte, when that is the first byte.\<close>

definition after_byte :: "byte \<Rightarrow> bytes \<Rightarrow> bytes option" where
  "after_byte b bs = (case bs of [] \<Rightarrow> None | x # rest \<Rightarrow> if x = b then Some rest else None)"

definition unprefixed :: "nat \<Rightarrow> bytes \<Rightarrow> bytes" where
  "unprefixed base bs =
     (if base = 16 \<and> (prefix [48, 120] bs \<or> prefix [48, 88] bs)
      then (case after_byte 95 (drop 2 bs) of Some rest \<Rightarrow> rest | None \<Rightarrow> drop 2 bs) else bs)"

definition MAX_STR_DIGITS :: nat where "MAX_STR_DIGITS = 4300"

definition unsigned_bytes :: "nat \<Rightarrow> bytes \<Rightarrow> nat option" where
  "unsigned_bytes base bs =
     (if base = 10 \<and> MAX_STR_DIGITS < length (filter (\<lambda>b. b \<noteq> 95) bs) then None
      else digit_run base False 0 (unprefixed base bs))"

definition int_bytes :: "nat \<Rightarrow> bytes \<Rightarrow> int option" where
  "int_bytes base text =
     (let bs = strip_bytes text
      in case after_byte 45 bs of
           Some rest \<Rightarrow> map_option (\<lambda>n. - int n) (unsigned_bytes base rest)
         | None \<Rightarrow> map_option int (unsigned_bytes base (case after_byte 43 bs of Some rest \<Rightarrow> rest | None \<Rightarrow> bs)))"

section \<open>The URL\<close>

text \<open>
  \<open>parse_api_url\<close> on what \<open>urlsplit\<close> found: the scheme, the host name and the port, whose reading raises
  when it is not a number from 0 to 65535.
\<close>

definition LOOPBACK_HOSTS :: "string list" where
  "LOOPBACK_HOSTS = [''127.0.0.1'', ''localhost'', ''::1'']"

definition DEFAULT_API_PORT :: int where "DEFAULT_API_PORT = 9091"

definition lower_char :: "char \<Rightarrow> char" where
  "lower_char c = (if CHR ''A'' \<le> c \<and> c \<le> CHR ''Z'' then char_of (of_char c + 32 :: nat) else c)"

definition lower :: "string \<Rightarrow> string" where
  "lower s = map lower_char s"

definition parse_api_url :: "string \<Rightarrow> string option \<Rightarrow> int option res \<Rightarrow> (string \<times> int) res" where
  "parse_api_url scheme hostname port_result =
     (if scheme \<notin> {''http'', ''https''} then Inl ConfigurationError
      else (let host = lower (case hostname of None \<Rightarrow> [] | Some h \<Rightarrow> h)
            in if host \<notin> set LOOPBACK_HOSTS then Inl ConfigurationError
               else res_bind port_result (\<lambda>found.
                 (let port = (case found of None \<Rightarrow> if scheme = ''https'' then 443 else DEFAULT_API_PORT | Some p \<Rightarrow> p)
                  in if \<not> (0 < port \<and> port < 65536) then Inl ConfigurationError else Inr (host, port)))))"

section \<open>The socket\<close>

datatype recv = Data bytes | Silence | SockError string

text \<open>A read that does not return: an exception, or the reader is still waiting.\<close>

datatype halt = Raise exn | Wait

record stream =
  raw :: bytes
  buffer :: bytes
  chunked :: bool
  chunk_left :: "int option"
  chunk_tail :: bool
  eof :: bool

definition new_stream :: stream where
  "new_stream = \<lparr>raw = [], buffer = [], chunked = False, chunk_left = None, chunk_tail = False, eof = False\<rparr>"

type_synonym 'a reading = "(halt + 'a) \<times> recv list \<times> stream"

fun fill_raw :: "recv list \<Rightarrow> stream \<Rightarrow> bool reading" where
  "fill_raw [] s = (Inl Wait, [], s)"
| "fill_raw (Silence # script) s = (Inl (Raise Idle), script, s)"
| "fill_raw (SockError m # script) s = (Inl (Raise (StreamError (''socket error: '' @ m))), script, s)"
| "fill_raw (Data d # script) s =
     (if d = [] then (Inr False, script, s\<lparr>eof := True\<rparr>) else (Inr True, script, s\<lparr>raw := raw s @ d\<rparr>))"

section \<open>Response header\<close>

definition MAX_HEADER_BYTES :: nat where "MAX_HEADER_BYTES = 65536"

definition HEAD_END :: bytes where "HEAD_END = CRLF @ CRLF"

fun read_head :: "recv list \<Rightarrow> bytes \<Rightarrow> (halt + bytes \<times> bytes) \<times> recv list" where
  "read_head script acc =
     (case cut HEAD_END acc of
        Some (head, rest) \<Rightarrow> (Inr (head, rest), script)
      | None \<Rightarrow>
          (case script of
             [] \<Rightarrow> (Inl Wait, [])
           | Silence # later \<Rightarrow> (Inl (Raise (StreamError ''service.api header read timed out'')), later)
           | SockError m # later \<Rightarrow> (Inl (Raise (OSError m)), later)
           | Data d # later \<Rightarrow>
               if d = [] then (Inl (Raise (StreamError ''service.api closed the connection during headers'')), later)
               else if MAX_HEADER_BYTES < length (acc @ d)
               then (Inl (Raise (StreamError ''service.api response header too large'')), later)
               else read_head later (acc @ d)))"

text \<open>\<open>split\<close> at every occurrence of a separator.\<close>

function split_all :: "'a list \<Rightarrow> 'a list \<Rightarrow> 'a list list" where
  "split_all sep xs =
     (case cut sep xs of
        None \<Rightarrow> [xs]
      | Some (a, b) \<Rightarrow> if length b < length xs then a # split_all sep b else [a])"
  by pat_completeness auto
termination by (relation "measure (\<lambda>(sep, xs). length xs)") auto

definition status_of :: "bytes \<Rightarrow> int option" where
  "status_of line =
     (case split_all [32] line of
        _ # code # _ \<Rightarrow> int_bytes 10 code
      | _ \<Rightarrow> None)"

text \<open>\<open>decode("ascii", "replace")\<close>\<close>

definition ascii_text :: "bytes \<Rightarrow> string" where
  "ascii_text bs = concat (map (\<lambda>b. if b < 128 then [byte_char b] else replacement) bs)"

definition header_field :: "(string, string) dict \<Rightarrow> bytes \<Rightarrow> (string, string) dict" where
  "header_field h line =
     (case cut [58] line of
        None \<Rightarrow> h
      | Some (key, value) \<Rightarrow> dict_set (lower (ascii_text (strip_bytes key))) (ascii_text (strip_bytes value)) h)"

definition contains :: "string \<Rightarrow> string \<Rightarrow> bool" where
  "contains needle s \<longleftrightarrow> cut needle s \<noteq> None"

definition parse_head :: "bytes \<Rightarrow> bytes \<Rightarrow> stream res" where
  "parse_head head rest =
     (let lines = split_all CRLF head
      in case status_of (hd lines) of
           None \<Rightarrow> Inl (StreamError ''malformed HTTP status line'')
         | Some status \<Rightarrow>
             (let headers = foldl header_field [] (tl lines)
              in if status \<noteq> 200 then Inl (StreamError ''service.api returned HTTP'')
                 else Inr (new_stream\<lparr>raw := rest,
                        chunked := contains ''chunked''
                          (lower (case dict_get headers ''transfer-encoding'' of None \<Rightarrow> [] | Some v \<Rightarrow> v))\<rparr>)))"

text \<open>
  What \<open>connect\<close> sends: the request head and the framed request message. A path, host or secret outside ASCII
  and a message too long for its four-byte length raise before anything is sent.
\<close>

definition be4 :: "nat \<Rightarrow> bytes" where
  "be4 n = map (\<lambda>k. of_nat (n div 256 ^ k mod 256)) [3, 2, 1, 0]"

definition frame_bytes :: "byte \<times> bytes \<Rightarrow> bytes" where
  "frame_bytes fr = fst fr # be4 (length (snd fr)) @ snd fr"

definition newline :: string where "newline = [char_of (13::nat), char_of (10::nat)]"

definition request_lines :: "string \<Rightarrow> string \<Rightarrow> int \<Rightarrow> nat \<Rightarrow> string option \<Rightarrow> string list" where
  "request_lines path host port len secret =
     [''POST '' @ path @ '' HTTP/1.1'',
      ''Host: '' @ host @ '':'' @ int_str port,
      ''Content-Type: application/grpc-web+proto'',
      ''X-Grpc-Web: 1'',
      ''TE: trailers'',
      ''Connection: keep-alive'',
      ''Content-Length: '' @ int_str (int len)]
     @ (case secret of None \<Rightarrow> [] | Some token \<Rightarrow> if token = [] then [] else [''Authorization: Bearer '' @ token])"

definition request :: "string \<Rightarrow> string \<Rightarrow> int \<Rightarrow> bytes \<Rightarrow> string option \<Rightarrow> bytes res" where
  "request path host port message secret =
     (if 2 ^ 32 \<le> length message then Inl OverflowError
      else (let framed = frame_bytes (0, message);
                start = concat (map (\<lambda>line. line @ newline) (request_lines path host port (length framed) secret)) @ newline
            in if \<exists>c\<in>set start. 128 \<le> (of_char c :: nat) then Inl (ValueError ''ascii'')
               else Inr (bytes_of start @ framed)))"

definition connect :: "recv list \<Rightarrow> stream reading" where
  "connect script =
     (case read_head script [] of
        (Inl h, later) \<Rightarrow> (Inl h, later, new_stream)
      | (Inr (head, rest), later) \<Rightarrow>
          (case parse_head head rest of
             Inl e \<Rightarrow> (Inl (Raise e), later, new_stream)
           | Inr s \<Rightarrow> (Inr s, later, s)))"

section \<open>Body pumping\<close>

text \<open>
  One step of the body (\<open>_pump\<close>): \<open>True\<close> when bytes may have moved to the buffer, \<open>False\<close> at the end. The
  loop inside a chunk header, a chunk or its terminator reads again after every read that brought data.
\<close>

lemma fill_raw_True:
  "fill_raw script s = (Inr True, script', s') \<Longrightarrow>
     \<exists>d. d \<noteq> [] \<and> script = Data d # script' \<and> s' = s\<lparr>raw := raw s @ d\<rparr>"
  by (cases "(script, s)" rule: fill_raw.cases) (auto split: if_splits)

lemma cut_Some: "cut sep xs = Some (a, b) \<Longrightarrow> xs = a @ sep @ b"
  by (induction sep xs arbitrary: a rule: cut.induct) (auto split: if_splits simp: prefix_def)

text \<open>One turn of the loop: the result of \<open>_pump\<close>, or the state for the next turn.\<close>

type_synonym turn = "bool reading + recv list \<times> stream"

definition refill :: "string \<Rightarrow> recv list \<Rightarrow> stream \<Rightarrow> turn" where
  "refill msg script s =
     (case fill_raw script s of
        (Inl h, script1, s1) \<Rightarrow> Inl (Inl h, script1, s1)
      | (Inr True, script1, s1) \<Rightarrow> Inr (script1, s1)
      | (Inr False, script1, s1) \<Rightarrow> Inl (Inl (Raise (StreamError msg)), script1, s1))"

definition plain_turn :: "recv list \<Rightarrow> stream \<Rightarrow> bool reading" where
  "plain_turn script s =
     (if raw s \<noteq> [] then (Inr True, script, s\<lparr>buffer := buffer s @ raw s, raw := []\<rparr>)
      else (case fill_raw script s of
              (Inl h, script1, s1) \<Rightarrow> (Inl h, script1, s1)
            | (Inr False, script1, s1) \<Rightarrow> (Inr False, script1, s1)
            | (Inr True, script1, s1) \<Rightarrow> (Inr True, script1, s1\<lparr>buffer := buffer s1 @ raw s1, raw := []\<rparr>)))"

definition size_turn :: "recv list \<Rightarrow> stream \<Rightarrow> turn" where
  "size_turn script s =
     (case cut CRLF (raw s) of
        None \<Rightarrow> refill ''connection closed inside a chunk header'' script s
      | Some (line, rest) \<Rightarrow>
          (case int_bytes 16 (before_sep [59] line) of
             None \<Rightarrow> Inl (Inl (Raise (StreamError ''bad chunk header'')), script, s\<lparr>raw := rest\<rparr>)
           | Some n \<Rightarrow> Inr (script, s\<lparr>raw := rest, chunk_left := Some n, chunk_tail := False\<rparr>)))"

definition tail_turn :: "recv list \<Rightarrow> stream \<Rightarrow> turn" where
  "tail_turn script s =
     (if length (raw s) < 2 then refill ''connection closed after chunk data'' script s
      else if \<not> prefix CRLF (raw s) then Inl (Inl (Raise (StreamError ''malformed chunk terminator'')), script, s)
      else Inr (script, s\<lparr>raw := drop 2 (raw s), chunk_left := None, chunk_tail := False\<rparr>))"

definition data_turn :: "int \<Rightarrow> recv list \<Rightarrow> stream \<Rightarrow> turn" where
  "data_turn n script s =
     (if raw s = [] then refill ''connection closed mid-chunk'' script s
      else (let k = min (int (length (raw s))) n
            in Inl (Inr True, script, s\<lparr>buffer := buffer s @ slice_to k (raw s), raw := slice_from k (raw s),
                 chunk_left := Some (n - k), chunk_tail := (if n - k = 0 then True else chunk_tail s)\<rparr>)))"

definition pump_turn :: "recv list \<Rightarrow> stream \<Rightarrow> turn" where
  "pump_turn script s =
     (if \<not> chunked s then Inl (plain_turn script s)
      else (case chunk_left s of
              None \<Rightarrow> size_turn script s
            | Some n \<Rightarrow>
                if n = 0 \<and> \<not> chunk_tail s then Inl (Inr False, script, s\<lparr>raw := []\<rparr>)
                else if n = 0 \<and> chunk_tail s then tail_turn script s
                else data_turn n script s))"

text \<open>What a successful step uses up: socket reads, unread bytes, or a negative chunk size.\<close>

definition work :: "recv list \<Rightarrow> stream \<Rightarrow> nat \<times> nat \<times> nat" where
  "work script s = (length script, length (raw s), (case chunk_left s of Some n \<Rightarrow> if n < 0 then 1 else 0 | None \<Rightarrow> 0))"

definition work_less :: "((nat \<times> nat \<times> nat) \<times> (nat \<times> nat \<times> nat)) set" where
  "work_less = less_than <*lex*> less_than <*lex*> less_than"

lemma work_less_simp: "((a, b, c), (a', b', c')) \<in> work_less \<longleftrightarrow> a < a' \<or> a = a' \<and> (b < b' \<or> b = b' \<and> c < c')"
  by (simp add: work_less_def)

lemma wf_work_less: "wf work_less"
  by (simp add: work_less_def wf_lex_prod)

lemma work_less_trans: "(a, b) \<in> work_less \<Longrightarrow> (b, c) \<in> work_less \<Longrightarrow> (a, c) \<in> work_less"
  by (cases a; cases b; cases c) (auto simp: work_less_simp)

lemma fill_work: "fill_raw script s = (Inr True, script', s') \<Longrightarrow> (work script' s', work script s) \<in> work_less"
  by (auto simp: work_def work_less_simp dest!: fill_raw_True)

lemma refill_again: "refill msg script s = Inr (script', s') \<Longrightarrow> fill_raw script s = (Inr True, script', s')"
  by (auto simp: refill_def split: prod.splits sum.splits bool.splits)

lemma refill_done: "refill msg script s = Inl (Inr b, script', s') \<Longrightarrow> False"
  by (auto simp: refill_def split: prod.splits sum.splits bool.splits)

lemma turn_again: "pump_turn script s = Inr (script', s') \<Longrightarrow> (work script' s', work script s) \<in> work_less"
  by (auto simp: pump_turn_def size_turn_def tail_turn_def data_turn_def Let_def CRLF_def
      intro: fill_work split: if_splits option.splits dest!: refill_again)
    (auto simp: work_def work_less_simp dest!: cut_Some)

lemma turn_done: "pump_turn script s = Inl (Inr True, script', s') \<Longrightarrow> (work script' s', work script s) \<in> work_less"
proof -
  assume eq: "pump_turn script s = Inl (Inr True, script', s')"
  show ?thesis
  proof (cases "chunked s")
    case False
    with eq show ?thesis
      by (auto simp: pump_turn_def plain_turn_def work_def work_less_simp dest!: fill_raw_True
          split: if_splits prod.splits sum.splits bool.splits)
  next
    case True
    with eq obtain n where n: "chunk_left s = Some n" "n \<noteq> 0" "data_turn n script s = Inl (Inr True, script', s')"
      by (auto simp: pump_turn_def size_turn_def tail_turn_def dest: refill_done split: option.splits if_splits)
    then show ?thesis
      by (auto simp: data_turn_def Let_def work_def work_less_simp slice_from_def dest: refill_done split: if_splits)
  qed
qed

function pump :: "recv list \<Rightarrow> stream \<Rightarrow> bool reading" where
  "pump script s =
     (case pump_turn script s of Inl result \<Rightarrow> result | Inr (script1, s1) \<Rightarrow> pump script1 s1)"
  by pat_completeness auto
termination
  by (relation "inv_image work_less (\<lambda>(script, s). work script s)")
    (auto simp: wf_work_less dest: turn_again turn_again [OF sym])

declare pump.simps [simp del]

lemma pump_work: "pump script s = (Inr True, script', s') \<Longrightarrow> (work script' s', work script s) \<in> work_less"
proof (induction script s rule: pump.induct)
  case (1 script s)
  show ?case
  proof (cases "pump_turn script s")
    case (Inl r)
    with 1(2) show ?thesis by (simp add: pump.simps [of script s] turn_done)
  next
    case (Inr next_turn)
    obtain script1 s1 where "next_turn = (script1, s1)" by (cases next_turn)
    with Inr have again: "pump_turn script s = Inr (script1, s1)" by simp
    with 1(2) have "pump script1 s1 = (Inr True, script', s')" by (simp add: pump.simps [of script s])
    with 1(1) [OF again refl] have "(work script' s', work script1 s1) \<in> work_less" by simp
    then show ?thesis using turn_again [OF again] by (rule work_less_trans)
  qed
qed

section \<open>Frames\<close>

function read_exact :: "nat \<Rightarrow> recv list \<Rightarrow> stream \<Rightarrow> bytes reading" where
  "read_exact count script s =
     (if length (buffer s) < count then
        (case pump script s of
           (Inl h, script1, s1) \<Rightarrow> (Inl h, script1, s1)
         | (Inr True, script1, s1) \<Rightarrow> read_exact count script1 s1
         | (Inr False, script1, s1) \<Rightarrow>
             (Inl (Raise (if buffer s1 \<noteq> [] then StreamError ''stream ended mid-frame'' else EOFError)), script1, s1))
      else (Inr (take count (buffer s)), script, s\<lparr>buffer := drop count (buffer s)\<rparr>))"
  by pat_completeness auto
termination
  by (relation "inv_image work_less (\<lambda>(count, script, s). work script s)")
    (auto simp: wf_work_less dest: pump_work pump_work [OF sym])

declare read_exact.simps [simp del]

definition big_endian :: "bytes \<Rightarrow> nat" where
  "big_endian bs = foldl (\<lambda>acc b. acc * 256 + unat b) 0 bs"

definition read_frame :: "recv list \<Rightarrow> stream \<Rightarrow> (byte \<times> bytes) reading" where
  "read_frame script s =
     (case read_exact 5 script s of
        (Inl h, script1, s1) \<Rightarrow> (Inl h, script1, s1)
      | (Inr header, script1, s1) \<Rightarrow>
          (let len = big_endian (tl header)
           in if len = 0 then (Inr (hd header, []), script1, s1)
              else (case read_exact len script1 s1 of
                      (Inl h, script2, s2) \<Rightarrow> (Inl h, script2, s2)
                    | (Inr payload, script2, s2) \<Rightarrow> (Inr (hd header, payload), script2, s2))))"

section \<open>Trailers\<close>

text \<open>
  \<open>splitlines\<close> and \<open>strip\<close> of a string (its UTF-8 bytes): the line boundaries and the white space of
  Unicode as byte sequences.
\<close>

definition utf :: "nat list \<Rightarrow> string" where
  "utf ns = map char_of ns"

definition LINE_ENDS :: "string list" where
  "LINE_ENDS = utf [13, 10] # map utf [[10], [13], [11], [12], [28], [29], [30], [0xC2, 0x85], [0xE2, 0x80, 0xA8], [0xE2, 0x80, 0xA9]]"

definition WHITE :: "string list" where
  "WHITE = map utf ([[9], [10], [11], [12], [13], [28], [29], [30], [31], [32], [0xC2, 0x85], [0xC2, 0xA0], [0xE1, 0x9A, 0x80],
     [0xE2, 0x80, 0xA8], [0xE2, 0x80, 0xA9], [0xE2, 0x80, 0xAF], [0xE2, 0x81, 0x9F], [0xE3, 0x80, 0x80]]
     @ map (\<lambda>n. [0xE2, 0x80, n]) [0x80..<0x8B])"

definition leading :: "string list \<Rightarrow> string \<Rightarrow> nat" where
  "leading tokens s = (case find (\<lambda>t. t \<noteq> [] \<and> prefix t s) tokens of None \<Rightarrow> 0 | Some t \<Rightarrow> length t)"

function split_lines :: "string \<Rightarrow> string \<Rightarrow> string list" where
  "split_lines acc s =
     (case s of
        [] \<Rightarrow> if acc = [] then [] else [acc]
      | c # rest \<Rightarrow>
          (let n = leading LINE_ENDS s
           in if n = 0 then split_lines (acc @ [c]) rest else acc # split_lines [] (drop n s)))"
  by pat_completeness auto
termination by (relation "measure (\<lambda>(acc, s). length s)") auto

function strip_left :: "string list \<Rightarrow> string \<Rightarrow> string" where
  "strip_left tokens s = (let n = leading tokens s in if n = 0 \<or> s = [] then s else strip_left tokens (drop n s))"
  by pat_completeness auto
termination by (relation "measure (\<lambda>(tokens, s). length s)") auto

declare strip_left.simps [simp del]

definition py_strip :: "string \<Rightarrow> string" where
  "py_strip s = rev (strip_left (map rev WHITE) (rev (strip_left WHITE s)))"

definition grpc_status :: "string option \<Rightarrow> string \<Rightarrow> string option" where
  "grpc_status status line =
     (let (name, value) = (case cut '':'' line of None \<Rightarrow> (line, []) | Some p \<Rightarrow> p)
      in if lower (py_strip name) = ''grpc-status'' then Some (py_strip value) else status)"

definition read_trailers :: "bytes \<Rightarrow> string option" where
  "read_trailers payload = foldl grpc_status None (split_lines [] (utf8_replace payload))"

section \<open>Batches\<close>

datatype yielded = Heartbeat | Batch events_batch

datatype ending = Finished | Failed exn | Waiting

definition FLAG_TRAILER :: byte where "FLAG_TRAILER = 0x80"
definition FLAG_DATA :: byte where "FLAG_DATA = 0"

text \<open>What a frame means: the end of the stream, or a batch.\<close>

definition frame_effect :: "byte \<times> bytes \<Rightarrow> ending + events_batch" where
  "frame_effect fr =
     (let (flags, payload) = fr
      in if flags AND FLAG_TRAILER \<noteq> 0 then
           Inl (case read_trailers payload of
                  None \<Rightarrow> Finished
                | Some status \<Rightarrow> if status = ''0'' then Finished else Failed (StreamError (''grpc-status='' @ status)))
         else if flags \<noteq> FLAG_DATA then Inl (Failed (StreamError ''unknown gRPC-Web frame flags''))
         else (case decode_connection_events (PbBytes payload) of Inl e \<Rightarrow> Inl (Failed e) | Inr b \<Rightarrow> Inr b))"

lemma read_exact_work:
  "read_exact count script s = (Inr out, script', s') \<Longrightarrow>
     (work script' s', work script s) \<in> work_less \<or> work script' s' = work script s \<and> length (buffer s') + count = length (buffer s)"
proof (induction count script s rule: read_exact.induct)
  case (1 count script s)
  show ?case
  proof (cases "length (buffer s) < count")
    case True
    with 1(2) obtain script1 s1 where p: "pump script s = (Inr True, script1, s1)" "read_exact count script1 s1 = (Inr out, script', s')"
      by (auto simp: read_exact.simps [of count script s] split: prod.splits sum.splits bool.splits)
    have "(work script' s', work script1 s1) \<in> work_less \<or> work script' s' = work script1 s1 \<and> length (buffer s') + count = length (buffer s1)"
      using 1(1) [OF True p(1) [symmetric]] p(2) by blast
    with pump_work [OF p(1)] show ?thesis by (auto intro: work_less_trans)
  next
    case False
    with 1(2) show ?thesis by (auto simp: read_exact.simps [of count script s] work_def)
  qed
qed

lemma fill_script:
  "fill_raw script s = (r, script', s') \<Longrightarrow> length script' \<le> length script \<and> (r = Inl (Raise Idle) \<longrightarrow> length script' < length script)"
  by (cases "(script, s)" rule: fill_raw.cases) (auto split: if_splits)

lemma refill_script:
  "refill msg script s = Inl (r, script', s') \<Longrightarrow> length script' \<le> length script \<and> (r = Inl (Raise Idle) \<longrightarrow> length script' < length script)"
  by (auto simp: refill_def dest!: fill_script split: prod.splits sum.splits bool.splits)

lemma refill_again_script: "refill msg script s = Inr (script', s') \<Longrightarrow> length script' \<le> length script"
  by (auto dest!: refill_again fill_raw_True)

lemma turn_script:
  "pump_turn script s = Inl (r, script', s') \<Longrightarrow> length script' \<le> length script \<and> (r = Inl (Raise Idle) \<longrightarrow> length script' < length script)"
  "pump_turn script s = Inr (script', s') \<Longrightarrow> length script' \<le> length script"
  by (auto simp: pump_turn_def plain_turn_def size_turn_def tail_turn_def data_turn_def Let_def
      dest!: fill_script refill_script refill_again_script split: if_splits option.splits prod.splits sum.splits bool.splits)

lemma pump_script:
  "pump script s = (r, script', s') \<Longrightarrow> length script' \<le> length script \<and> (r = Inl (Raise Idle) \<longrightarrow> length script' < length script)"
proof (induction script s rule: pump.induct)
  case (1 script s)
  show ?case
  proof (cases "pump_turn script s")
    case (Inl x)
    with 1(2) turn_script(1) [of script s] show ?thesis by (cases x) (auto simp: pump.simps [of script s])
  next
    case (Inr x)
    obtain script1 s1 where x: "x = (script1, s1)" by (cases x)
    with Inr have again: "pump_turn script s = Inr (script1, s1)" by simp
    with 1(2) have "pump script1 s1 = (r, script', s')" by (simp add: pump.simps [of script s])
    with 1(1) [OF again refl] turn_script(2) [OF again] show ?thesis by auto
  qed
qed

lemma read_exact_script:
  "read_exact count script s = (r, script', s') \<Longrightarrow>
     length script' \<le> length script \<and> (r = Inl (Raise Idle) \<longrightarrow> length script' < length script)"
proof (induction count script s rule: read_exact.induct)
  case (1 count script s)
  show ?case
  proof (cases "length (buffer s) < count")
    case True
    obtain b script1 s1 where p: "pump script s = (b, script1, s1)" by (cases "pump script s")
    note sc = pump_script [OF p]
    show ?thesis
    proof (cases "b = Inr True")
      case b: True
      with 1(2) True p have "read_exact count script1 s1 = (r, script', s')" by (simp add: read_exact.simps [of count script s])
      then have "length script' \<le> length script1 \<and> (r = Inl (Raise Idle) \<longrightarrow> length script' < length script1)"
        using 1(1) [OF True p [symmetric] b refl refl] by blast
      with sc show ?thesis by auto
    next
      case False
      with 1(2) True p sc show ?thesis
        by (auto simp: read_exact.simps [of count script s] split: sum.splits bool.splits if_splits)
    qed
  next
    case False
    with 1(2) show ?thesis by (auto simp: read_exact.simps [of count script s])
  qed
qed

lemma read_frame_script:
  "read_frame script s = (Inl (Raise Idle), script', s') \<Longrightarrow> length script' < length script"
  by (auto simp: read_frame_def Let_def dest!: read_exact_script split: prod.splits sum.splits if_splits)

lemma read_frame_work:
  assumes "read_frame script s = (Inr fr, script', s')"
  shows "(work script' s', work script s) \<in> work_less \<or> work script' s' = work script s \<and> length (buffer s') < length (buffer s)"
proof -
  obtain header script1 s1 where h: "read_exact 5 script s = (Inr header, script1, s1)"
    and r: "(script', s') = (script1, s1) \<or> (\<exists>n payload. read_exact n script1 s1 = (Inr payload, script', s'))"
    using assms by (auto simp: read_frame_def Let_def split: prod.splits sum.splits if_splits)
  note w = read_exact_work [OF h]
  from r show ?thesis
  proof (elim disjE exE)
    assume "(script', s') = (script1, s1)"
    with w show ?thesis by auto
  next
    fix n payload
    assume "read_exact n script1 s1 = (Inr payload, script', s')"
    from read_exact_work [OF this] w show ?thesis by (auto intro: work_less_trans)
  qed
qed

function batches :: "recv list \<Rightarrow> stream \<Rightarrow> yielded list \<times> ending" where
  "batches script s =
     (case read_frame script s of
        (Inl Wait, script1, s1) \<Rightarrow> ([], Waiting)
      | (Inl (Raise e), script1, s1) \<Rightarrow>
          if e = Idle then (let (ys, en) = batches script1 s1 in (Heartbeat # ys, en))
          else if e = EOFError then ([], Finished) else ([], Failed e)
      | (Inr fr, script1, s1) \<Rightarrow>
          (case frame_effect fr of
             Inl en \<Rightarrow> ([], en)
           | Inr b \<Rightarrow> (let (ys, en) = batches script1 s1 in (Batch b # ys, en))))"
  by pat_completeness auto
termination
proof (relation "inv_image (work_less <*lex*> less_than) (\<lambda>(script, s). (work script s, length (buffer s)))", goal_cases)
  case 1
  then show ?case by (simp add: wf_work_less wf_lex_prod)
next
  case 2
  then show ?case by (auto simp: work_def work_less_simp dest!: read_frame_script [OF sym])
next
  case 3
  then show ?case by (auto dest!: read_frame_work [OF sym])
qed

declare batches.simps [simp del]

section \<open>Transport independence\<close>

text \<open>
  Frames on the wire, and what the stream of frames means: the bursts of frames that arrive between two
  silences give their batches, every silence one heartbeat, and an ending frame ends it.
\<close>


fun deliver :: "(byte \<times> bytes) list \<Rightarrow> yielded list \<times> ending option" where
  "deliver [] = ([], None)"
| "deliver (fr # frs) =
     (case frame_effect fr of
        Inl en \<Rightarrow> ([], Some en)
      | Inr b \<Rightarrow> (let (ys, en) = deliver frs in (Batch b # ys, en)))"

fun expected :: "(byte \<times> bytes) list list \<Rightarrow> yielded list \<times> ending" where
  "expected [] = ([], Waiting)"
| "expected (frs # bursts) =
     (case deliver frs of
        (ys, Some en) \<Rightarrow> (ys, en)
      | (ys, None) \<Rightarrow> (let (zs, en) = expected bursts in (ys @ Heartbeat # zs, en)))"

lemma big_endian_be4: "n < 2 ^ 32 \<Longrightarrow> big_endian (be4 n) = n"
proof -
  assume n: "n < 2 ^ 32"
  have u: "unat (of_nat (k mod 256) :: byte) = k mod 256" for k by (simp add: unat_of_nat)
  have "n = n mod (256 * (256 * (256 * 256)))" using n by simp
  also have "\<dots> = 256 * (256 * (256 * (n div 256 div 256 div 256 mod 256) + n div 256 div 256 mod 256) + n div 256 mod 256) + n mod 256"
    by (simp only: mod_mult2_eq)
  finally have "256 * (256 * (256 * (n div 256 div 256 div 256 mod 256) + n div 256 div 256 mod 256) + n div 256 mod 256) + n mod 256 = n" ..
  moreover have "n div 256 ^ 3 = n div 256 div 256 div 256" "n div 256 ^ 2 = n div 256 div 256"
    by (simp_all add: div_mult2_eq [symmetric])
  ultimately show ?thesis by (simp add: big_endian_def be4_def u algebra_simps)
qed

lemma length_be4 [simp]: "length (be4 n) = 4"
  by (simp add: be4_def)

locale body_source =
  fixes source :: "stream \<Rightarrow> bytes list \<Rightarrow> bytes \<Rightarrow> bool"
    and carries :: "bytes list \<Rightarrow> bytes \<Rightarrow> bool"
  assumes progress: "source s segs rest \<Longrightarrow> rest \<noteq> [] \<Longrightarrow>
        \<exists>got rest' segs' s'. pump (map Data segs @ later) s = (Inr True, map Data segs' @ later, s') \<and> source s' segs' rest' \<and>
          buffer s' = buffer s @ got \<and> rest = got @ rest'"
    and dry: "source s segs [] \<Longrightarrow>
        \<exists>s'. pump (map Data segs @ Silence # later) s = (Inl (Raise Idle), later, s') \<and> source s' [] [] \<and> buffer s' = buffer s"
    and blocked: "source s segs [] \<Longrightarrow> \<exists>s'. pump (map Data segs) s = (Inl Wait, [], s')"
    and feed: "source s [] [] \<Longrightarrow> carries segs body \<Longrightarrow> source s segs body"
    and buffered: "source s segs rest \<Longrightarrow> source (s\<lparr>buffer := b\<rparr>) segs rest"
begin

lemma exact:
  assumes "source s segs rest" and "count \<le> length (buffer s @ rest)"
  shows "\<exists>segs' s' rest'. read_exact count (map Data segs @ later) s = (Inr (take count (buffer s @ rest)), map Data segs' @ later, s') \<and>
     source s' segs' rest' \<and> buffer s' @ rest' = drop count (buffer s @ rest)"
  using assms
proof (induction count "map Data segs @ later" s arbitrary: segs rest rule: read_exact.induct)
  case (1 count s)
  show ?case
  proof (cases "length (buffer s) < count")
    case True
    with 1(3) have "rest \<noteq> []" by auto
    from progress [OF 1(2) this] obtain got rest' segs' s' where
      p: "pump (map Data segs @ later) s = (Inr True, map Data segs' @ later, s')" "source s' segs' rest'"
        "buffer s' = buffer s @ got" "rest = got @ rest'" by blast
    have eq: "read_exact count (map Data segs @ later) s = read_exact count (map Data segs' @ later) s'"
      using True p(1) by (simp add: read_exact.simps [of count "map Data segs @ later" s])
    show ?thesis
      unfolding eq using 1(1) [OF True p(1) [symmetric] refl refl refl p(2)] 1(3) p(3,4) by simp
  next
    case False
    then show ?thesis
      using 1(2,3) buffered [OF 1(2)]
      by (intro exI [of _ segs] exI [of _ "s\<lparr>buffer := drop count (buffer s)\<rparr>"] exI [of _ rest])
        (simp add: read_exact.simps [of count "map Data segs @ later" s])
  qed
qed

lemma exact_dry:
  assumes "source s segs []" and "buffer s = []" and "0 < count"
  shows "\<exists>s'. read_exact count (map Data segs @ Silence # later) s = (Inl (Raise Idle), later, s') \<and> source s' [] [] \<and> buffer s' = []"
  using dry [OF assms(1), of later] assms(2,3)
  by (auto simp: read_exact.simps [of count "map Data segs @ Silence # later" s])

lemma exact_blocked:
  assumes "source s segs []" and "buffer s = []" and "0 < count"
  shows "\<exists>s'. read_exact count (map Data segs) s = (Inl Wait, [], s')"
  using blocked [OF assms(1)] assms(2,3) by (auto simp: read_exact.simps [of count "map Data segs" s])

lemma frame:
  assumes "source s segs rest" and "buffer s @ rest = frame_bytes fr @ others" and "length (snd fr) < 2 ^ 32"
  shows "\<exists>segs' s' rest'. read_frame (map Data segs @ later) s = (Inr fr, map Data segs' @ later, s') \<and>
     source s' segs' rest' \<and> buffer s' @ rest' = others"
proof -
  have five: "take 5 (buffer s @ rest) = fst fr # be4 (length (snd fr))" "drop 5 (buffer s @ rest) = snd fr @ others"
    by (simp_all add: assms(2) frame_bytes_def numeral_eq_Suc)
  have "5 \<le> length (buffer s @ rest)" by (simp add: assms(2) frame_bytes_def)
  from exact [OF assms(1) this, of later] obtain segs1 s1 rest1 where
    h: "read_exact 5 (map Data segs @ later) s = (Inr (fst fr # be4 (length (snd fr))), map Data segs1 @ later, s1)"
      "source s1 segs1 rest1" "buffer s1 @ rest1 = snd fr @ others"
    unfolding five by blast
  show ?thesis
  proof (cases "snd fr = []")
    case True
    then have "fr = (fst fr, [])" by (cases fr) simp
    moreover have "big_endian (be4 (length (snd fr))) = 0" using True by (simp add: big_endian_be4)
    ultimately show ?thesis using h True by (auto simp: read_frame_def)
  next
    case False
    have "length (snd fr) \<le> length (buffer s1 @ rest1)" by (simp add: h(3))
    from exact [OF h(2) this, of later] obtain segs2 s2 rest2 where
      "read_exact (length (snd fr)) (map Data segs1 @ later) s1 = (Inr (snd fr), map Data segs2 @ later, s2)"
      "source s2 segs2 rest2" "buffer s2 @ rest2 = others"
      unfolding h(3) by auto
    with h(1) big_endian_be4 [OF assms(3)] False show ?thesis by (cases fr) (auto simp: read_frame_def Let_def)
  qed
qed

text \<open>What is still to come, as the reader sees it, when only whole frames arrived.\<close>

lemma deliver_batches:
  assumes "source s segs rest" and "buffer s @ rest = concat (map frame_bytes frs)" and "\<forall>fr\<in>set frs. length (snd fr) < 2 ^ 32"
  shows "case deliver frs of
      (ys, Some en) \<Rightarrow> batches (map Data segs @ later) s = (ys, en)
    | (ys, None) \<Rightarrow> \<exists>segs' s'. source s' segs' [] \<and> buffer s' = [] \<and>
        batches (map Data segs @ later) s = (let (zs, en) = batches (map Data segs' @ later) s' in (ys @ zs, en))"
  using assms
proof (induction frs arbitrary: s segs rest)
  case Nil
  then show ?case by (auto intro!: exI [of _ segs] exI [of _ s] simp: case_prod_unfold)
next
  case (Cons fr frs)
  from frame [OF Cons.prems(1), of fr "concat (map frame_bytes frs)" later] Cons.prems(2,3)
  obtain segs' s' rest' where f: "read_frame (map Data segs @ later) s = (Inr fr, map Data segs' @ later, s')"
    and s': "source s' segs' rest'" "buffer s' @ rest' = concat (map frame_bytes frs)" by auto
  from Cons.prems(3) have len: "\<forall>fr\<in>set frs. length (snd fr) < 2 ^ 32" by simp
  have ih: "case deliver frs of
      (ys, Some en) \<Rightarrow> batches (map Data segs' @ later) s' = (ys, en)
    | (ys, None) \<Rightarrow> \<exists>segs'' s''. source s'' segs'' [] \<and> buffer s'' = [] \<and>
        batches (map Data segs' @ later) s' = (let (zs, en) = batches (map Data segs'' @ later) s'' in (ys @ zs, en))"
    by (rule Cons.IH [OF s' len])
  show ?case
  proof (cases "frame_effect fr")
    case (Inl en)
    then show ?thesis by (simp add: batches.simps [of "map Data segs @ later" s] f)
  next
    case (Inr b)
    obtain ys en where d: "deliver frs = (ys, en)" by (cases "deliver frs")
    show ?thesis
    proof (cases en)
      case None
      with ih d obtain segs'' s'' where "source s'' segs'' []" "buffer s'' = []"
        "batches (map Data segs' @ later) s' = (let (zs, en) = batches (map Data segs'' @ later) s'' in (ys @ zs, en))" by auto
      then show ?thesis
        using Inr d None by (auto simp: batches.simps [of "map Data segs @ later" s] f case_prod_unfold Let_def)
    next
      case (Some e)
      with ih d show ?thesis using Inr by (simp add: batches.simps [of "map Data segs @ later" s] f)
    qed
  qed
qed

lemma batches_expected:
  assumes "source s [] []" and "buffer s = []"
    and "list_all2 (\<lambda>segs frs. carries segs (concat (map frame_bytes frs)) \<and> (\<forall>fr\<in>set frs. length (snd fr) < 2 ^ 32)) segss bursts"
  shows "batches (concat (map (\<lambda>segs. map Data segs @ [Silence]) segss)) s = expected bursts"
  using assms
proof (induction bursts arbitrary: segss s)
  case Nil
  then have "segss = []" by simp
  moreover from exact_blocked [OF Nil.prems(1,2), of 5] have "\<exists>s'. read_frame [] s = (Inl Wait, [], s')"
    by (auto simp: read_frame_def)
  ultimately show ?case by (auto simp: batches.simps [of "[]" s])
next
  case (Cons frs bursts)
  then obtain segs segss' where ss: "segss = segs # segss'" and c: "carries segs (concat (map frame_bytes frs))"
    and len: "\<forall>fr\<in>set frs. length (snd fr) < 2 ^ 32"
    and tl: "list_all2 (\<lambda>segs frs. carries segs (concat (map frame_bytes frs)) \<and> (\<forall>fr\<in>set frs. length (snd fr) < 2 ^ 32)) segss' bursts"
    by (auto simp: list_all2_Cons2)
  define later where "later = concat (map (\<lambda>segs. map Data segs @ [Silence]) segss')"
  have sc: "concat (map (\<lambda>segs. map Data segs @ [Silence]) segss) = map Data segs @ Silence # later"
    by (simp add: ss later_def)
  obtain ys en where d: "deliver frs = (ys, en)" by (cases "deliver frs")
  note db = deliver_batches [OF feed [OF Cons.prems(1) c] _ len, of "Silence # later", unfolded d]
  show ?case
  proof (cases en)
    case (Some e)
    with db d Cons.prems(2) show ?thesis by (simp add: sc)
  next
    case None
    with db Cons.prems(2) obtain segs' s' where s': "source s' segs' []" "buffer s' = []"
      "batches (map Data segs @ Silence # later) s = (let (zs, en) = batches (map Data segs' @ Silence # later) s' in (ys @ zs, en))"
      by auto
    from exact_dry [OF s'(1,2), of 5 later] obtain s'' where
      i: "read_exact 5 (map Data segs' @ Silence # later) s' = (Inl (Raise Idle), later, s'')" "source s'' [] []" "buffer s'' = []"
      by auto
    have "batches later s'' = expected bursts"
      using Cons.IH [OF i(2,3) tl] by (simp add: later_def)
    then have "batches (map Data segs' @ Silence # later) s' = (let (zs, en) = expected bursts in (Heartbeat # zs, en))"
      by (simp add: batches.simps [of "map Data segs' @ Silence # later" s'] read_frame_def i(1))
    then show ?thesis by (simp add: sc s'(3) d None case_prod_unfold Let_def)
  qed
qed

end

section \<open>The plain body\<close>

definition solid :: "bytes list \<Rightarrow> bool" where
  "solid segs \<longleftrightarrow> (\<forall>d\<in>set segs. d \<noteq> [])"

definition plain_source :: "stream \<Rightarrow> bytes list \<Rightarrow> bytes \<Rightarrow> bool" where
  "plain_source s segs rest \<longleftrightarrow> \<not> chunked s \<and> solid segs \<and> rest = raw s @ concat segs"

definition plain_carries :: "bytes list \<Rightarrow> bytes \<Rightarrow> bool" where
  "plain_carries segs body \<longleftrightarrow> solid segs \<and> concat segs = body"

lemma solid_concat: "solid segs \<Longrightarrow> concat segs = [] \<longleftrightarrow> segs = []"
  by (cases segs) (auto simp: solid_def)

lemma plain_pump: "\<not> chunked s \<Longrightarrow> pump script s = plain_turn script s"
  by (simp add: pump.simps [of script s] pump_turn_def)

interpretation plain_body: body_source plain_source plain_carries
proof
  fix s segs rest later
  assume a: "plain_source s segs rest" "rest \<noteq> []"
  show "\<exists>got rest' segs' s'. pump (map Data segs @ later) s = (Inr True, map Data segs' @ later, s') \<and> plain_source s' segs' rest' \<and>
          buffer s' = buffer s @ got \<and> rest = got @ rest'"
  proof (cases "raw s = []")
    case False
    let ?s = "s\<lparr>buffer := buffer s @ raw s, raw := []\<rparr>"
    have "pump (map Data segs @ later) s = (Inr True, map Data segs @ later, ?s) \<and> plain_source ?s segs (concat segs) \<and>
        buffer ?s = buffer s @ raw s \<and> rest = raw s @ concat segs"
      using a False by (simp add: plain_source_def plain_pump plain_turn_def)
    then show ?thesis by blast
  next
    case True
    with a obtain d ds where ds: "segs = d # ds" "d \<noteq> []" "solid ds"
      by (cases segs) (auto simp: plain_source_def solid_def)
    let ?s = "s\<lparr>buffer := buffer s @ d, raw := []\<rparr>"
    have "pump (map Data segs @ later) s = (Inr True, map Data ds @ later, ?s) \<and> plain_source ?s ds (concat ds) \<and>
        buffer ?s = buffer s @ d \<and> rest = d @ concat ds"
      using a True ds by (simp add: plain_source_def plain_pump plain_turn_def)
    then show ?thesis by blast
  qed
next
  fix s segs later
  assume a: "plain_source s segs []"
  then have "segs = []" "raw s = []" using solid_concat [of segs] by (auto simp: plain_source_def simp del: concat_eq_Nil_conv)
  with a show "\<exists>s'. pump (map Data segs @ Silence # later) s = (Inl (Raise Idle), later, s') \<and> plain_source s' [] [] \<and> buffer s' = buffer s"
    and "\<exists>s'. pump (map Data segs) s = (Inl Wait, [], s')"
    by (auto simp: plain_source_def plain_pump plain_turn_def)
qed (auto simp: plain_source_def plain_carries_def)

section \<open>The chunked body\<close>

text \<open>
  A chunk on the wire: its size line (hexadecimal, with any extension after a semicolon), the data and
  a line end. No line end occurs in the size line.
\<close>

definition chunk_wire :: "bytes \<times> bytes \<Rightarrow> bytes" where
  "chunk_wire c = fst c @ CRLF @ snd c @ CRLF"

definition chunk_ok :: "bytes \<times> bytes \<Rightarrow> bool" where
  "chunk_ok c \<longleftrightarrow> 13 \<notin> set (fst c) \<and> snd c \<noteq> [] \<and> int_bytes 16 (before_sep [59] (fst c)) = Some (int (length (snd c)))"

definition wires :: "(bytes \<times> bytes) list \<Rightarrow> bytes" where
  "wires cs = concat (map chunk_wire cs)"

definition chunk_data :: "(bytes \<times> bytes) list \<Rightarrow> bytes" where
  "chunk_data cs = concat (map snd cs)"

lemma wires_simps [simp]: "wires [] = []" "wires (c # cs) = fst c @ CRLF @ snd c @ CRLF @ wires cs"
  by (simp_all add: wires_def chunk_wire_def)

lemma chunk_data_simps [simp]: "chunk_data [] = []" "chunk_data (c # cs) = snd c @ chunk_data cs"
  by (simp_all add: chunk_data_def)

definition chunk_phase :: "stream \<Rightarrow> bytes \<Rightarrow> bytes \<Rightarrow> (bytes \<times> bytes) list \<Rightarrow> bool" where
  "chunk_phase s wire rest cs \<longleftrightarrow>
     (case chunk_left s of
        None \<Rightarrow> wire = wires cs \<and> rest = chunk_data cs
      | Some n \<Rightarrow>
          if n = 0 then chunk_tail s \<and> wire = CRLF @ wires cs \<and> rest = chunk_data cs
          else 0 < n \<and> (\<exists>d. int (length d) = n \<and> wire = d @ CRLF @ wires cs \<and> rest = d @ chunk_data cs))"

definition chunked_source :: "stream \<Rightarrow> bytes list \<Rightarrow> bytes \<Rightarrow> bool" where
  "chunked_source s segs rest \<longleftrightarrow> chunked s \<and> solid segs \<and>
     (\<exists>cs. (\<forall>c\<in>set cs. chunk_ok c) \<and> chunk_phase s (raw s @ concat segs) rest cs)"

definition chunked_carries :: "bytes list \<Rightarrow> bytes \<Rightarrow> bool" where
  "chunked_carries segs body \<longleftrightarrow> solid segs \<and> (\<exists>cs. (\<forall>c\<in>set cs. chunk_ok c) \<and> concat segs = wires cs \<and> body = chunk_data cs)"

lemma cut_line: "13 \<notin> set line \<Longrightarrow> cut CRLF (line @ CRLF @ w) = Some (line, w)"
  by (induction line) (auto simp: CRLF_def)

lemma cut_append: "cut sep xs = Some (a, b) \<Longrightarrow> cut sep (xs @ ys) = Some (a, b @ ys)"
proof (induction sep xs arbitrary: a rule: cut.induct)
  case (2 sep x xs)
  show ?case
  proof (cases "prefix sep (x # xs)")
    case True
    then obtain zs where zs: "x # xs = sep @ zs" by (auto simp: prefix_def)
    then have "(x # xs) @ ys = sep @ zs @ ys" by simp
    then have "prefix sep (x # xs @ ys)" by (metis append_Cons prefixI)
    moreover from 2(2) True have "a = []" "b = drop (length sep) (x # xs)" by simp_all
    moreover have "drop (length sep) (x # xs @ ys) = drop (length sep) (x # xs) @ ys"
      using zs by (metis append_Cons append_assoc append_eq_conv_conj)
    ultimately show ?thesis by simp
  next
    case False
    with 2(2) obtain a' where a: "cut sep xs = Some (a', b)" "a = x # a'" by auto
    from cut_Some [OF a(1)] have "length sep \<le> length (x # xs)" by simp
    with False have "\<not> prefix sep (x # xs @ ys)"
      by (metis append_Cons prefix_length_prefix prefixI)
    with 2(1) [OF False a(1)] a show ?thesis by simp
  qed
next
  case (1 sep)
  then show ?case by (cases ys) (auto split: if_splits)
qed

lemma refill_Data: "d \<noteq> [] \<Longrightarrow> refill msg (Data d # script) s = Inr (script, s\<lparr>raw := raw s @ d\<rparr>)"
  by (simp add: refill_def)

lemma refill_Silence: "refill msg (Silence # script) s = Inl (Inl (Raise Idle), script, s)" "refill msg [] s = Inl (Inl Wait, [], s)"
  by (simp_all add: refill_def)

text \<open>One turn on a well-formed chunked body: another turn, data, or nothing left to read.\<close>

lemma chunk_phase_other: "chunk_phase (s\<lparr>raw := x\<rparr>) = chunk_phase s" "chunk_phase (s\<lparr>buffer := x\<rparr>) = chunk_phase s"
  by (auto simp: chunk_phase_def fun_eq_iff split: option.splits)

lemma chunked_refill:
  assumes "chunked_source s (d # ds) rest" and "pump_turn (Data d # script) s = refill msg (Data d # script) s"
  shows "\<exists>s'. pump_turn (Data d # script) s = Inr (script, s') \<and> chunked_source s' ds rest \<and> buffer s' = buffer s"
proof -
  have "d \<noteq> []" using assms(1) by (simp add: chunked_source_def solid_def)
  moreover have "chunked_source (s\<lparr>raw := raw s @ d\<rparr>) ds rest"
    using assms(1) by (simp add: chunked_source_def solid_def chunk_phase_other)
  ultimately show ?thesis by (simp add: assms(2) refill_Data)
qed

lemma chunked_turn:
  assumes "chunked_source s segs rest"
  shows "(\<exists>segs' s'. pump_turn (map Data segs @ later) s = Inr (map Data segs' @ later, s') \<and> chunked_source s' segs' rest \<and> buffer s' = buffer s)
    \<or> rest \<noteq> [] \<and> (\<exists>got rest' segs' s'. pump_turn (map Data segs @ later) s = Inl (Inr True, map Data segs' @ later, s') \<and>
          chunked_source s' segs' rest' \<and> buffer s' = buffer s @ got \<and> rest = got @ rest')
    \<or> rest = [] \<and> segs = [] \<and> (\<exists>msg. pump_turn later s = refill msg later s)"
proof -
  from assms obtain cs where c: "chunked s" "solid segs" and ok: "\<forall>c\<in>set cs. chunk_ok c"
    and ph: "chunk_phase s (raw s @ concat segs) rest cs" by (auto simp: chunked_source_def)
  have fill: ?thesis if "\<And>script. pump_turn script s = refill msg script s" "segs \<noteq> []" for msg
  proof -
    from that(2) obtain d ds where "segs = d # ds" by (cases segs) auto
    with chunked_refill [OF _ that(1)] assms obtain s' where
      "pump_turn (map Data segs @ later) s = Inr (map Data ds @ later, s')" "chunked_source s' ds rest" "buffer s' = buffer s"
      by fastforce
    then show ?thesis by blast
  qed
  show ?thesis
  proof (cases "chunk_left s")
    case None
    with ph have w: "raw s @ concat segs = wires cs" "rest = chunk_data cs" by (simp_all add: chunk_phase_def)
    show ?thesis
    proof (cases "cut CRLF (raw s)")
      case cut: None
      have turn: "pump_turn script s = refill ''connection closed inside a chunk header'' script s" for script
        using c None cut by (simp add: pump_turn_def size_turn_def)
      show ?thesis
      proof (cases "segs = []")
        case True
        with w have "raw s = wires cs" by simp
        with cut ok have "cs = []" by (cases cs) (auto simp: cut_line chunk_ok_def)
        with w True turn show ?thesis by auto
      next
        case False
        then show ?thesis using turn fill by blast
      qed
    next
      case (Some p)
      obtain line r where cut: "cut CRLF (raw s) = Some (line, r)" using Some by (cases p) simp
      from cut_append [OF this, of "concat segs"] have cw: "cut CRLF (wires cs) = Some (line, r @ concat segs)" by (simp add: w)
      then obtain x cs' where cs: "cs = x # cs'" by (cases cs) (auto simp: CRLF_def)
      from ok cs have x: "chunk_ok x" by simp
      then have "cut CRLF (wires cs) = Some (fst x, snd x @ CRLF @ wires cs')" by (simp add: cs chunk_ok_def cut_line)
      with cw have l: "line = fst x" "r @ concat segs = snd x @ CRLF @ wires cs'" by simp_all
      let ?s = "s\<lparr>raw := r, chunk_left := Some (int (length (snd x))), chunk_tail := False\<rparr>"
      have "pump_turn (map Data segs @ later) s = Inr (map Data segs @ later, ?s)"
        using c None cut x l(1) by (simp add: pump_turn_def size_turn_def chunk_ok_def)
      moreover have "chunk_phase ?s (raw ?s @ concat segs) rest cs'"
        using x l w(2) cs by (simp add: chunk_phase_def chunk_ok_def)
      then have "chunked_source ?s segs rest" using c ok cs by (auto simp: chunked_source_def)
      ultimately show ?thesis by auto
    qed
  next
    case (Some n)
    show ?thesis
    proof (cases "n = 0")
      case True
      with ph Some have w: "chunk_tail s" "raw s @ concat segs = CRLF @ wires cs" "rest = chunk_data cs"
        by (simp_all add: chunk_phase_def)
      show ?thesis
      proof (cases "length (raw s) < 2")
        case short: True
        have "segs \<noteq> []" using short w(2) by (auto simp: CRLF_def)
        moreover have "pump_turn script s = refill ''connection closed after chunk data'' script s" for script
          using c Some True w(1) short by (simp add: pump_turn_def tail_turn_def)
        ultimately show ?thesis using fill by blast
      next
        case False
        let ?s = "s\<lparr>raw := drop 2 (raw s), chunk_left := None, chunk_tail := False\<rparr>"
        have "take 2 (raw s) = take 2 (raw s @ concat segs)" using False by simp
        also have "\<dots> = CRLF" unfolding w(2) by (simp add: CRLF_def)
        finally have crlf: "take 2 (raw s) = CRLF" .
        then have "prefix CRLF (raw s)" by (metis append_take_drop_id prefixI)
        moreover have "drop 2 (raw s) @ concat segs = wires cs"
        proof -
          have "drop 2 (raw s) @ concat segs = drop 2 (raw s @ concat segs)" using False by simp
          then show ?thesis unfolding w(2) by (simp add: CRLF_def)
        qed
        ultimately have "pump_turn (map Data segs @ later) s = Inr (map Data segs @ later, ?s)" "chunked_source ?s segs rest"
          using c Some True w(1,3) False ok
          by (auto simp: pump_turn_def tail_turn_def chunked_source_def chunk_phase_def intro!: exI [of _ cs])
        then show ?thesis by auto
      qed
    next
      case n0: False
      with ph Some obtain d where w: "0 < n" "int (length d) = n" "raw s @ concat segs = d @ CRLF @ wires cs" "rest = d @ chunk_data cs"
        by (auto simp: chunk_phase_def)
      show ?thesis
      proof (cases "raw s = []")
        case True
        have "segs \<noteq> []" using True w by (auto simp: CRLF_def)
        moreover have "pump_turn script s = refill ''connection closed mid-chunk'' script s" for script
          using c Some True n0 by (simp add: pump_turn_def data_turn_def)
        ultimately show ?thesis using fill by blast
      next
        case False
        define k where "k = min (length (raw s)) (length d)"
        have k: "min (int (length (raw s))) n = int k" using w(2) by (simp add: k_def)
        let ?s = "s\<lparr>buffer := buffer s @ take k (raw s), raw := drop k (raw s), chunk_left := Some (n - int k),
            chunk_tail := (if n - int k = 0 then True else chunk_tail s)\<rparr>"
        have turn: "pump_turn (map Data segs @ later) s = Inl (Inr True, map Data segs @ later, ?s)"
          using c Some n0 False by (simp add: pump_turn_def data_turn_def k slice_to_def slice_from_def Let_def)
        have tk: "take k (raw s) = take k d"
        proof -
          have "take k (raw s) = take k (raw s @ concat segs)" by (simp add: k_def)
          then show ?thesis unfolding w(3) by (simp add: k_def)
        qed
        have dk: "drop k (raw s) @ concat segs = drop k d @ CRLF @ wires cs"
        proof -
          have "drop k (raw s) @ concat segs = drop k (raw s @ concat segs)" by (simp add: k_def)
          then show ?thesis unfolding w(3) by (simp add: k_def)
        qed
        have "chunk_phase ?s (raw ?s @ concat segs) (drop k d @ chunk_data cs) cs"
        proof (cases "k = length d")
          case True
          with dk w(2) show ?thesis by (simp add: chunk_phase_def)
        next
          case False
          then have "k < length d" by (simp add: k_def)
          with w(2) have "n - int k \<noteq> 0" "0 < n - int k" "int (length (drop k d)) = n - int k" by auto
          with dk show ?thesis unfolding chunk_phase_def by auto
        qed
        then have "chunked_source ?s segs (drop k d @ chunk_data cs)" using c ok by (auto simp: chunked_source_def)
        moreover have "rest = take k (raw s) @ drop k d @ chunk_data cs" by (simp add: tk w(4))
        moreover have "rest \<noteq> []" using w by auto
        ultimately show ?thesis using turn by auto
      qed
    qed
  qed
qed

lemma chunked_progress:
  assumes "chunked_source s segs rest" and "rest \<noteq> []"
  shows "\<exists>got rest' segs' s'. pump (map Data segs @ later) s = (Inr True, map Data segs' @ later, s') \<and> chunked_source s' segs' rest' \<and>
          buffer s' = buffer s @ got \<and> rest = got @ rest'"
  using assms(1)
proof (induction "map Data segs @ later" s arbitrary: segs rule: pump.induct)
  case (1 s)
  from chunked_turn [OF 1(2), of later] assms(2) consider
    (again) segs' s' where "pump_turn (map Data segs @ later) s = Inr (map Data segs' @ later, s')" "chunked_source s' segs' rest" "buffer s' = buffer s"
  | (got) got rest' segs' s' where "pump_turn (map Data segs @ later) s = Inl (Inr True, map Data segs' @ later, s')"
      "chunked_source s' segs' rest'" "buffer s' = buffer s @ got" "rest = got @ rest'"
    by blast
  then show ?case
  proof cases
    case again
    with 1(1) [OF again(1) refl again(2)] show ?thesis by (simp add: pump.simps [of "map Data segs @ later" s])
  next
    case got
    then show ?thesis by (auto simp: pump.simps [of "map Data segs @ later" s])
  qed
qed

lemma chunked_empty:
  assumes "chunked_source s segs []" and "later = [] \<or> (\<exists>script. later = Silence # script)"
  shows "\<exists>s'. pump (map Data segs @ later) s = (Inl (if later = [] then Wait else Raise Idle), tl later, s') \<and>
     chunked_source s' [] [] \<and> buffer s' = buffer s"
  using assms(1)
proof (induction "map Data segs @ later" s arbitrary: segs rule: pump.induct)
  case (1 s)
  from chunked_turn [OF 1(2), of later] consider
    (again) segs' s' where "pump_turn (map Data segs @ later) s = Inr (map Data segs' @ later, s')" "chunked_source s' segs' []" "buffer s' = buffer s"
  | (out) msg where "segs = []" "pump_turn later s = refill msg later s"
    by blast
  then show ?case
  proof cases
    case again
    with 1(1) [OF again(1) refl again(2)] show ?thesis by (simp add: pump.simps [of "map Data segs @ later" s])
  next
    case out
    with assms(2) 1(2) show ?thesis by (auto simp: pump.simps [of later s] refill_Silence)
  qed
qed

interpretation chunked_body: body_source chunked_source chunked_carries
proof
  fix s segs rest later
  assume "chunked_source s segs rest" "rest \<noteq> []"
  then show "\<exists>got rest' segs' s'. pump (map Data segs @ later) s = (Inr True, map Data segs' @ later, s') \<and> chunked_source s' segs' rest' \<and>
          buffer s' = buffer s @ got \<and> rest = got @ rest'" by (rule chunked_progress)
next
  fix s segs later
  assume a: "chunked_source s segs []"
  from chunked_empty [OF a, of "Silence # later"] show
    "\<exists>s'. pump (map Data segs @ Silence # later) s = (Inl (Raise Idle), later, s') \<and> chunked_source s' [] [] \<and> buffer s' = buffer s" by simp
  from chunked_empty [OF a, of "[]"] show "\<exists>s'. pump (map Data segs) s = (Inl Wait, [], s')" by auto
next
  fix s segs body
  assume s: "chunked_source s [] []" and c: "chunked_carries segs body"
  from s obtain cs0 where s0: "chunked s" "chunk_phase s (raw s) [] cs0" "\<forall>c\<in>set cs0. chunk_ok c" by (auto simp: chunked_source_def)
  from c obtain cs where cs: "solid segs" "\<forall>c\<in>set cs. chunk_ok c" "concat segs = wires cs" "body = chunk_data cs"
    by (auto simp: chunked_carries_def)
  have "cs0 = []"
    using s0(2,3) by (cases cs0) (auto simp: chunk_phase_def chunk_ok_def split: option.splits if_splits)
  with s0(2) cs(3,4) have "chunk_phase s (raw s @ concat segs) body cs"
    by (auto simp: chunk_phase_def split: option.splits if_splits)
  with s0(1) cs(1,2) show "chunked_source s segs body" by (auto simp: chunked_source_def)
next
  fix s segs rest b
  assume "chunked_source s segs rest"
  then show "chunked_source (s\<lparr>buffer := b\<rparr>) segs rest" by (auto simp: chunked_source_def chunk_phase_other)
qed

section \<open>Properties\<close>

definition bursts_ok :: "(bytes list \<Rightarrow> bytes \<Rightarrow> bool) \<Rightarrow> bytes list list \<Rightarrow> (byte \<times> bytes) list list \<Rightarrow> bool" where
  "bursts_ok carries segss bursts \<longleftrightarrow>
     list_all2 (\<lambda>segs frs. carries segs (concat (map frame_bytes frs)) \<and> (\<forall>fr\<in>set frs. length (snd fr) < 2 ^ 32)) segss bursts"

definition script_of :: "bytes list list \<Rightarrow> recv list" where
  "script_of segss = concat (map (\<lambda>segs. map Data segs @ [Silence]) segss)"

text \<open>
  C38: batches do not depend on how they travel. However the bytes of a stream are split over socket
  reads, and whether the body is plain or chunked with chunk borders anywhere, the reader yields exactly the
  batches of the frames in order, one heartbeat for every silence between bursts of whole frames, and ends
  where the first trailer, unknown flag or undecodable payload ends it.
\<close>

theorem frames_survive_transport:
  assumes "bursts_ok (if c then chunked_carries else plain_carries) segss bursts"
  shows "batches (script_of segss) (new_stream\<lparr>chunked := c\<rparr>) = expected bursts"
proof (cases c)
  case True
  have "chunked_source (new_stream\<lparr>chunked := c\<rparr>) [] []"
    by (auto simp: chunked_source_def new_stream_def solid_def chunk_phase_def True intro!: exI [of _ "[]"])
  from chunked_body.batches_expected [OF this] assms True show ?thesis
    by (simp add: bursts_ok_def script_of_def new_stream_def)
next
  case False
  have "plain_source (new_stream\<lparr>chunked := c\<rparr>) [] []"
    by (simp add: plain_source_def new_stream_def solid_def False)
  from plain_body.batches_expected [OF this] assms False show ?thesis
    by (simp add: bursts_ok_def script_of_def new_stream_def)
qed

definition reset_frame :: "byte \<times> bytes" where "reset_frame = (0, [16, 1])"
definition reset_batch :: events_batch where "reset_batch = \<lparr>eb_reset = True, eb_events = []\<rparr>"

lemma reset_effect: "frame_effect reset_frame = Inr reset_batch"
proof -
  have "[16::byte] = encode_varint_loop (push_bit 3 2 OR WIRE_VARINT)" "[1::byte] = encode_varint_loop 1"
    by (subst encode_varint_loop.simps, simp add: wire_types push_bit_eq_mult Let_def)+
  then have "[16::byte, 1] = concat (map enc_field [(2, WInt 1)])" by simp
  then have "decode_message [16, 1] CONNECTION_EVENTS_SPEC = Inr [(''reset'', PbBool True)]"
    by (simp only:) (subst decode_message_concat, simp_all add: take_field_def CONNECTION_EVENTS_SPEC_def decode_kind_def put_field_def)
  then show ?thesis
    by (simp add: frame_effect_def reset_frame_def FLAG_TRAILER_def FLAG_DATA_def decode_connection_events_def reset_batch_def
        event_list_def py_truth_def List.map_filter_def)
qed

lemma reset_expected: "expected [[reset_frame], [], [reset_frame]] = ([Batch reset_batch, Heartbeat, Heartbeat, Batch reset_batch, Heartbeat], Waiting)"
  by (simp add: reset_effect)

lemmas size_eval = int_bytes_def strip_bytes_def is_space_def after_byte_def unsigned_bytes_def unprefixed_def digit_of_def before_sep_def

lemma sizes: "int_bytes 16 (before_sep [59] [55, 59, 120]) = Some 7" "int_bytes 16 (before_sep [59] [49]) = Some 1"
  "int_bytes 16 (before_sep [59] [54]) = Some 6"
  by (simp_all add: size_eval)

theorem frames_survive_transport_witness:
  "batches (script_of [[[55, 59], [120, 13], [10, 0, 0, 0, 0, 2, 16, 1, 13, 10]], [], [[49, 13, 10, 0, 13, 10, 54, 13, 10], [0, 0, 0, 2, 16, 1, 13, 10]]])
      (new_stream\<lparr>chunked := True\<rparr>) = ([Batch reset_batch, Heartbeat, Heartbeat, Batch reset_batch, Heartbeat], Waiting)"
proof -
  have wire: "frame_bytes reset_frame = [0, 0, 0, 0, 2, 16, 1]" by (simp add: frame_bytes_def reset_frame_def be4_def)
  have "chunked_carries [[55, 59], [120, 13], [10, 0, 0, 0, 0, 2, 16, 1, 13, 10]] (frame_bytes reset_frame)"
    unfolding chunked_carries_def
    by (rule conjI [OF _ exI [of _ "[([55, 59, 120], [0, 0, 0, 0, 2, 16, 1])]"]]) (simp_all add: solid_def chunk_ok_def sizes CRLF_def wire)
  moreover have "chunked_carries [[49, 13, 10, 0, 13, 10, 54, 13, 10], [0, 0, 0, 2, 16, 1, 13, 10]] (frame_bytes reset_frame)"
    unfolding chunked_carries_def
    by (rule conjI [OF _ exI [of _ "[([49], [0]), ([54], [0, 0, 0, 2, 16, 1])]"]]) (simp_all add: solid_def chunk_ok_def sizes CRLF_def wire)
  moreover have "chunked_carries [] []"
    unfolding chunked_carries_def by (rule conjI [OF _ exI [of _ "[]"]]) (simp_all add: solid_def)
  ultimately have "bursts_ok (if True then chunked_carries else plain_carries)
      [[[55, 59], [120, 13], [10, 0, 0, 0, 0, 2, 16, 1, 13, 10]], [], [[49, 13, 10, 0, 13, 10, 54, 13, 10], [0, 0, 0, 2, 16, 1, 13, 10]]]
      [[reset_frame], [], [reset_frame]]"
    by (simp add: bursts_ok_def) (simp add: reset_frame_def)
  from frames_survive_transport [OF this] have "batches (script_of [[[55, 59], [120, 13], [10, 0, 0, 0, 0, 2, 16, 1, 13, 10]], [], [[49, 13, 10, 0, 13, 10, 54, 13, 10], [0, 0, 0, 2, 16, 1, 13, 10]]])
      (new_stream\<lparr>chunked := True\<rparr>) = expected [[reset_frame], [], [reset_frame]]" .
  then show ?thesis by (simp only: reset_expected)
qed

text \<open>
  A silence inside a frame loses the stream's framing. When the five bytes of a frame's header have
  arrived and its payload follows after the idle allowance, the header is forgotten: the payload is read as
  the start of the next frame's header, so that neither this frame nor the whole frame that follows it is
  delivered, although the same bytes with the silence before the frame give both batches.
\<close>

theorem silence_inside_a_frame_breaks_the_stream:
  "batches [Data [0, 0, 0, 0, 2], Silence, Data [16, 1], Data [0, 0, 0, 0, 2, 16, 1], Silence] new_stream
     = ([Heartbeat, Heartbeat], Waiting) \<and>
   batches [Silence, Data [0, 0, 0, 0, 2], Data [16, 1], Data [0, 0, 0, 0, 2, 16, 1], Silence] new_stream
     = ([Heartbeat, Batch reset_batch, Batch reset_batch, Heartbeat], Waiting)"
proof -
  note run = batches.simps read_frame_def read_exact.simps pump.simps pump_turn_def plain_turn_def new_stream_def big_endian_def
  have r: "frame_effect (0, [16, 1]) = Inr reset_batch" using reset_effect by (simp add: reset_frame_def)
  show ?thesis by (rule conjI; simp add: run r)
qed

text \<open>
  Credentials only go to the loopback interface. A URL is accepted only with the scheme http or https,
  one of the three loopback names and a port from 1 to 65535, and every other URL, whatever its host, is
  refused before a socket is opened.
\<close>

theorem only_loopback_urls:
  "case parse_api_url scheme hostname port of
     Inr (host, p) \<Rightarrow> scheme \<in> {''http'', ''https''} \<and> host \<in> {''127.0.0.1'', ''localhost'', ''::1''} \<and>
       (\<exists>h. hostname = Some h \<and> lower h = host) \<and> 0 < p \<and> p < 65536 \<and>
       (port = Inr (Some p) \<or> port = Inr None \<and> p = (if scheme = ''https'' then 443 else 9091))
   | Inl e \<Rightarrow> e = ConfigurationError \<or> port = Inl e"
proof (cases "scheme \<in> {''http'', ''https''} \<and> lower (case hostname of None \<Rightarrow> [] | Some h \<Rightarrow> h) \<in> set LOOPBACK_HOSTS")
  case False
  then show ?thesis by (auto simp: parse_api_url_def Let_def)
next
  case True
  then have h: "\<exists>h. hostname = Some h" by (cases hostname) (auto simp: LOOPBACK_HOSTS_def lower_def)
  show ?thesis
  proof (cases port)
    case (Inl e)
    with True show ?thesis by (simp add: parse_api_url_def Let_def)
  next
    case (Inr found)
    with True h show ?thesis
      by (cases found) (auto simp: parse_api_url_def Let_def LOOPBACK_HOSTS_def DEFAULT_API_PORT_def)
  qed
qed

end
