(* ===== verification/Journal.thy ===== *)
theory Journal
  imports Frames PyVal
begin

text \<open>
  Text of the journal reader (\<open>monitor-v2/journal_reader\<close>): normalization of a message, failure classes,
  protocol and port, eligibility, the privacy template, the opaque cursor and the exchange schema. Regular
  expressions are written out as matchers. Letters, digits and case outside ASCII are not modelled:
  a character outside ASCII is no digit and no word character, and \<open>lower\<close> leaves it alone.
\<close>

section \<open>Matchers\<close>

text \<open>A matcher gives the rest of the text after what it matches at the front.\<close>

type_synonym matcher = "string \<Rightarrow> string option"

definition is_digit :: "char \<Rightarrow> bool" where
  "is_digit c \<longleftrightarrow> CHR ''0'' \<le> c \<and> c \<le> CHR ''9''"

definition is_alpha :: "char \<Rightarrow> bool" where
  "is_alpha c \<longleftrightarrow> CHR ''a'' \<le> c \<and> c \<le> CHR ''z''"

definition is_word :: "char \<Rightarrow> bool" where
  "is_word c \<longleftrightarrow> is_digit c \<or> is_alpha c \<or> CHR ''A'' \<le> c \<and> c \<le> CHR ''Z'' \<or> c = CHR ''_''"

definition lit :: "string \<Rightarrow> matcher" where
  "lit t s = (if prefix t s then Some (drop (length t) s) else None)"

definition one_of :: "string \<Rightarrow> matcher" where
  "one_of cs s = (case s of [] \<Rightarrow> None | c # rest \<Rightarrow> if c \<in> set cs then Some rest else None)"

text \<open>Between \<open>m\<close> and \<open>n\<close> digits, as many as there are.\<close>

definition digits :: "nat \<Rightarrow> nat \<Rightarrow> matcher" where
  "digits m n s = (let k = length (takeWhile is_digit (take n s)) in if k < m then None else Some (drop k s))"

definition spaces :: matcher where
  "spaces s = (let rest = strip_left WHITE s in if rest = s then None else Some rest)"

definition maybe :: "matcher \<Rightarrow> matcher" where
  "maybe m s = (case m s of None \<Rightarrow> Some s | Some rest \<Rightarrow> Some rest)"

fun in_turn :: "matcher list \<Rightarrow> matcher" where
  "in_turn [] s = Some s"
| "in_turn (m # ms) s = Option.bind (m s) (in_turn ms)"

section \<open>Normalization\<close>

definition MAX_MESSAGE_CHARS :: nat where "MAX_MESSAGE_CHARS = 4096"

definition fraction :: matcher where
  "fraction s = in_turn [lit ''.'', digits 1 (length s)] s"

definition zone :: matcher where
  "zone s = (case lit ''z'' s of Some rest \<Rightarrow> Some rest
     | None \<Rightarrow> in_turn [one_of ''+-'', digits 2 2, maybe (lit '':''), digits 2 2] s)"

definition clock_mark :: matcher where
  "clock_mark s = Some (dropWhile (\<lambda>c. is_digit c \<or> c \<in> set '':+-'') s)"

definition iso_prefix :: matcher where
  "iso_prefix = in_turn [digits 4 4, lit ''-'', digits 2 2, lit ''-'', digits 2 2, one_of '' t'',
     digits 2 2, lit '':'', digits 2 2, lit '':'', digits 2 2, maybe fraction, maybe zone, spaces]"

definition slash_prefix :: matcher where
  "slash_prefix = in_turn [digits 4 4, lit ''/'', digits 2 2, lit ''/'', digits 2 2, lit '' '',
     digits 1 2, lit '':'', digits 2 2, lit '':'', digits 2 2, spaces]"

definition bracket_prefix :: matcher where
  "bracket_prefix = in_turn [lit ''['', maybe spaces, digits 1 7, lit '']'', spaces]"

definition field_prefix :: matcher where
  "field_prefix = in_turn [lit ''t='', digits 4 4, lit ''-'', digits 2 2, lit ''-'', digits 2 2, lit ''t'',
     digits 2 2, lit '':'', digits 2 2, lit '':'', digits 2 2, one_of ''tz'', clock_mark, spaces]"

definition PREFIXES :: "matcher list" where
  "PREFIXES = [iso_prefix, slash_prefix, bracket_prefix, field_prefix]"

definition strip_prefix :: "string \<Rightarrow> matcher \<Rightarrow> string" where
  "strip_prefix s m = (case m s of None \<Rightarrow> s | Some rest \<Rightarrow> rest)"

function strip_prefixes :: "string \<Rightarrow> string" where
  "strip_prefixes s =
     (let rest = foldl strip_prefix s PREFIXES in if length rest < length s then strip_prefixes rest else s)"
  by pat_completeness auto
termination by (relation "measure length") auto

declare strip_prefixes.simps [simp del]

datatype level = Lerror | Lwarn | Linfo | Ldebug

definition LEVELS :: "(string \<times> level) list" where
  "LEVELS = [(''error'', Lerror), (''warning'', Lwarn), (''warn'', Lwarn), (''info'', Linfo), (''debug'', Ldebug)]"

text \<open>The level must be followed by the end of the text, white space or one of four marks.\<close>

definition level_end :: "string \<Rightarrow> bool" where
  "level_end s \<longleftrightarrow> s = [] \<or> 0 < leading WHITE s \<or> hd s \<in> set '':,;[''"

definition level_of :: "string \<Rightarrow> (level \<times> string) option" where
  "level_of s =
     (case find (\<lambda>(token, _). prefix token s \<and> level_end (drop (length token) s)) LEVELS of
        None \<Rightarrow> None
      | Some (token, l) \<Rightarrow> Some (l, drop (length token) s))"

text \<open>The first \<open>n\<close> characters of a text held as UTF-8.\<close>

fun take_chars :: "nat \<Rightarrow> string \<Rightarrow> string" where
  "take_chars n [] = []"
| "take_chars n (c # cs) =
     (if 128 \<le> (of_char c :: nat) \<and> (of_char c :: nat) < 192 then c # take_chars n cs
      else if n = 0 then [] else c # take_chars (n - 1) cs)"

fun int_item :: "pyval \<Rightarrow> int option" where
  "int_item (PInt i) = Some i"
| "int_item (PBool b) = Some (if b then 1 else 0)"
| "int_item v = None"

definition decode_message_text :: "pyval \<Rightarrow> string" where
  "decode_message_text value =
     (case value of
        PStr s \<Rightarrow> s
      | PList items \<Rightarrow>
          if list_all (\<lambda>v. case int_item v of None \<Rightarrow> False | Some i \<Rightarrow> 0 \<le> i \<and> i < 256) items
          then utf8_replace (map (\<lambda>v. case int_item v of Some i \<Rightarrow> of_int i | None \<Rightarrow> 0) items) else []
      | _ \<Rightarrow> [])"

definition LEVEL_TRIM :: string where "LEVEL_TRIM = [CHR '' '', char_of (9::nat), CHR '':'', CHR '';'', CHR '','']"

definition normalize_message :: "pyval \<Rightarrow> string \<times> level option" where
  "normalize_message value =
     (let text = strip_prefixes (lower (decode_message_text value))
      in case level_of text of
           None \<Rightarrow> (take_chars MAX_MESSAGE_CHARS text, None)
         | Some (l, rest) \<Rightarrow> (take_chars MAX_MESSAGE_CHARS (dropWhile (\<lambda>c. c \<in> set LEVEL_TRIM) rest), Some l))"

section \<open>Failure classes\<close>

definition CLASSES :: "string list" where
  "CLASSES = [''dns'', ''dial_timeout'', ''reset'', ''net_unreachable'', ''tls_handshake'', ''quic_error'', ''eof_cancel'', ''other'']"

definition PROTOS :: "string list" where "PROTOS = [''Reality'', ''Hysteria2'', ''OTHER'']"

definition DCLS :: "string list" where
  "DCLS = [''https443'', ''http80'', ''quic'', ''dns53'', ''dot853'', ''smtpish'', ''other'']"

definition CLASS_ROWS :: "(string \<times> string list) list" where
  "CLASS_ROWS =
     [(''dns'', [''no such host'', ''name resolution'', ''temporary failure in name resolution'', ''lookup '', ''dns'']),
      (''dial_timeout'', [''i/o timeout'', ''timeout exceeded'', ''deadline exceeded'', ''timeout waiting for'', ''timed out'']),
      (''reset'', [''connection reset by peer'', ''reset by peer'', ''broken pipe'', ''forcibly closed'']),
      (''net_unreachable'', [''network is unreachable'', ''host is unreachable'', ''no route to host'', ''cannot assign requested address'']),
      (''tls_handshake'', [''tls:'', ''handshake'', ''certificate'', ''x509'', ''bad record mac'', ''alert'', ''processed invalid'']),
      (''quic_error'', [''quic'', ''invalid packet'', ''connection id'', ''version negotiation'']),
      (''eof_cancel'', [''unexpected eof'', ''eof'', ''context canceled'', ''context cancelled'', ''use of closed'', ''connection is closed''])]"

text \<open>A word boundary between the previous character, if any, and the text that follows.\<close>

definition word_at :: "string \<Rightarrow> bool" where
  "word_at s = (case s of [] \<Rightarrow> False | c # _ \<Rightarrow> is_word c)"

definition edge :: "bool \<Rightarrow> string \<Rightarrow> bool" where
  "edge after_word s = (after_word \<noteq> word_at s)"

text \<open>\<open>dial tcp\<close> or \<open>dial udp\<close> at a word boundary: the text after it.\<close>

definition dial_at :: "bool \<Rightarrow> string \<Rightarrow> string option" where
  "dial_at after_word s =
     (if \<not> edge after_word s then None
      else case lit ''dial tcp'' s of Some rest \<Rightarrow> Some rest | None \<Rightarrow> lit ''dial udp'' s)"

text \<open>The word \<open>timeout\<close> after at most \<open>n\<close> characters of the same line.\<close>

fun timeout_within :: "nat \<Rightarrow> bool \<Rightarrow> string \<Rightarrow> bool" where
  "timeout_within n w s =
     ((edge w s \<and> (case lit ''timeout'' s of None \<Rightarrow> False | Some rest \<Rightarrow> edge True rest))
      \<or> (case s of [] \<Rightarrow> False
         | c # rest \<Rightarrow> 0 < n \<and> c \<noteq> char_of (10::nat) \<and> timeout_within (n - 1) (is_word c) rest))"

declare timeout_within.simps [simp del]

fun dial_timeout :: "bool \<Rightarrow> string \<Rightarrow> bool" where
  "dial_timeout w [] = False"
| "dial_timeout w (c # rest) =
     ((case dial_at w (c # rest) of None \<Rightarrow> False | Some after \<Rightarrow> timeout_within 120 True after)
      \<or> dial_timeout (is_word c) rest)"

definition row_matches :: "string \<Rightarrow> string \<times> string list \<Rightarrow> bool" where
  "row_matches text row \<longleftrightarrow>
     fst row = ''dial_timeout'' \<and> dial_timeout False text \<or> list_ex (\<lambda>token. contains token text) (snd row)"

definition classify_failure :: "string \<Rightarrow> string option" where
  "classify_failure text = map_option fst (find (row_matches text) CLASS_ROWS)"

definition PROTO_RULES :: "(string \<times> string) list" where
  "PROTO_RULES = [(''vless-in'', ''Reality''), (''hy2-in'', ''Hysteria2''),
     (''hysteria2'', ''Hysteria2''), (''hy2'', ''Hysteria2''), (''reality'', ''Reality'')]"

definition attribute_protocol :: "string \<Rightarrow> string" where
  "attribute_protocol text =
     (case find (\<lambda>(token, _). contains token text) PROTO_RULES of None \<Rightarrow> ''OTHER'' | Some (_, proto) \<Rightarrow> proto)"

section \<open>Destination port\<close>

text \<open>The first run of characters that are not white space, and what follows it.\<close>

function solid_run :: "string \<Rightarrow> string \<times> string" where
  "solid_run s =
     (if s = [] \<or> 0 < leading WHITE s then ([], s)
      else let (a, b) = solid_run (tl s) in (hd s # a, b))"
  by pat_completeness auto
termination by (relation "measure length") auto

declare solid_run.simps [simp del]

definition decimal :: "string \<Rightarrow> int" where
  "decimal s = foldl (\<lambda>n c. n * 10 + (int (of_char c) - 48)) 0 s"

text \<open>The port after the last colon of an address token.\<close>

definition token_port :: "string \<Rightarrow> int option" where
  "token_port token =
     (let t = rev (dropWhile (\<lambda>c. c \<in> set '':,;'') (rev token));
          tail = rev (takeWhile (\<lambda>c. c \<noteq> CHR '':'') (rev t))
      in if length tail < length t \<and> tail \<noteq> [] \<and> list_all is_digit tail \<and> 1 \<le> decimal tail \<and> decimal tail \<le> 65535
         then Some (decimal tail) else None)"

text \<open>An address token after \<open>dial tcp\<close> or \<open>dial udp\<close> and a blank: the token and the text after it.\<close>

definition address_at :: "bool \<Rightarrow> string \<Rightarrow> (string \<times> string) option" where
  "address_at w s =
     (case dial_at w s of
        None \<Rightarrow> None
      | Some a \<Rightarrow>
          (case lit '' '' a of
             None \<Rightarrow> None
           | Some b \<Rightarrow> if fst (solid_run b) = [] then None else Some (solid_run b)))"

lemma solid_run_length: "length (snd (solid_run s)) \<le> length s"
  by (induction s rule: solid_run.induct) (subst solid_run.simps, fastforce split: prod.splits)

lemma address_at_length: "address_at w s = Some (t, rest) \<Longrightarrow> length rest < length s"
proof -
  assume a: "address_at w s = Some (t, rest)"
  then obtain u v where u: "dial_at w s = Some u" and v: "lit '' '' u = Some v" and run: "solid_run v = (t, rest)"
    by (auto simp: address_at_def split: option.splits if_splits)
  from u have "length u \<le> length s" by (auto simp: dial_at_def lit_def split: if_splits option.splits)
  moreover from v have "length v < length u" by (auto simp: lit_def prefix_def split: if_splits)
  moreover have "length rest \<le> length v" using solid_run_length [of v] run by simp
  ultimately show ?thesis by simp
qed

text \<open>\<open>finditer\<close>: matches do not overlap, the search goes on behind each of them.\<close>

function extract_port :: "bool \<Rightarrow> string \<Rightarrow> int option" where
  "extract_port w s =
     (case address_at w s of
        Some (token, rest) \<Rightarrow> (case token_port token of Some p \<Rightarrow> Some p | None \<Rightarrow> extract_port (word_at (rev token)) rest)
      | None \<Rightarrow> (case s of [] \<Rightarrow> None | c # rest \<Rightarrow> extract_port (is_word c) rest))"
  by pat_completeness auto
termination by (relation "measure (\<lambda>(w, s). length s)") (auto dest: address_at_length)

declare extract_port.simps [simp del]

definition PORT_TABLE :: "(int \<times> string) list" where
  "PORT_TABLE = [(443, ''https443''), (80, ''http80''), (53, ''dns53''), (853, ''dot853''), (25, ''smtpish''), (465, ''smtpish''), (587, ''smtpish'')]"

definition dest_class_for :: "int option \<Rightarrow> string \<Rightarrow> string option" where
  "dest_class_for port text =
     (case port of
        None \<Rightarrow> None
      | Some p \<Rightarrow> if contains ''quic'' text then Some ''quic''
                  else Some (case dict_get PORT_TABLE p of None \<Rightarrow> ''other'' | Some d \<Rightarrow> d))"

record entry_class =
  e_cls :: string
  e_proto :: string
  e_port :: "int option"
  e_dcls :: "string option"

definition classify_entry :: "string \<Rightarrow> entry_class" where
  "classify_entry text =
     (let port = extract_port False text
      in \<lparr>e_cls = (case classify_failure text of None \<Rightarrow> ''other'' | Some c \<Rightarrow> c), e_proto = attribute_protocol text,
          e_port = port, e_dcls = dest_class_for port text\<rparr>)"

section \<open>Eligibility\<close>

definition priority_int :: "pyval \<Rightarrow> int option" where
  "priority_int value =
     (let found = (case value of
                     PInt i \<Rightarrow> Some i
                   | PStr s \<Rightarrow> if length s = 1 \<and> list_all is_digit s then Some (decimal s) else None
                   | _ \<Rightarrow> None)
      in case found of None \<Rightarrow> None | Some v \<Rightarrow> if 0 \<le> v \<and> v \<le> 7 then Some v else None)"

text \<open>\<open>str(value).strip()\<close> is empty only for an empty or blank string.\<close>

definition priority_blank :: "pyval \<Rightarrow> bool" where
  "priority_blank value = (case value of PNone \<Rightarrow> True | PStr s \<Rightarrow> py_strip s = [] | _ \<Rightarrow> False)"

datatype decision =
    Eligible (d_cls: "string option") (d_proto: string) (d_port: "int option") (d_dcls: "string option") (d_text: string)
  | DropInfo
  | DropNomatch (unusable: bool)

definition eligible_as :: "string option \<Rightarrow> entry_class \<Rightarrow> string \<Rightarrow> decision" where
  "eligible_as cls c text = Eligible cls (e_proto c) (e_port c) (e_dcls c) text"

definition own_class :: "entry_class \<Rightarrow> string option" where
  "own_class c = (if e_cls c = ''other'' then None else Some (e_cls c))"

definition assess :: "pyval \<Rightarrow> pyval \<Rightarrow> decision" where
  "assess raw_message raw_priority =
     (let (text, level) = normalize_message raw_message;
          c = classify_entry text
      in if level \<in> {Some Lerror, Some Lwarn} then eligible_as (own_class c) c text
         else if level \<in> {Some Linfo, Some Ldebug} then DropInfo
         else if e_cls c \<noteq> ''other'' then eligible_as (own_class c) c text
         else (case priority_int raw_priority of
                 Some p \<Rightarrow> if p \<le> 4 then eligible_as None c text else DropNomatch False
               | None \<Rightarrow> DropNomatch (\<not> priority_blank raw_priority)))"

section \<open>The privacy template\<close>

definition MAX_TEMPLATE_TOKENS :: nat where "MAX_TEMPLATE_TOKENS = 24"
definition FP_HEX_LEN :: nat where "FP_HEX_LEN = 16"

text \<open>A quoted span, from a quote to the next one, becomes a blank; an unpaired quote stays.\<close>

function blank_quoted :: "char \<Rightarrow> string \<Rightarrow> string" where
  "blank_quoted q s =
     (case s of
        [] \<Rightarrow> []
      | c # rest \<Rightarrow>
          if c = q \<and> q \<in> set rest then CHR '' '' # blank_quoted q (tl (dropWhile (\<lambda>d. d \<noteq> q) rest))
          else c # blank_quoted q rest)"
  by pat_completeness auto
termination
proof (relation "measure (\<lambda>(q, s). length s)", goal_cases)
  case (2 q s c rest)
  have "length (dropWhile (\<lambda>d. d \<noteq> q) rest) \<le> length rest" by (rule length_dropWhile_le)
  with 2 show ?case by simp
qed auto

declare blank_quoted.simps [simp del]

text \<open>\<open>split()\<close> at white space.\<close>

function words :: "string \<Rightarrow> string list" where
  "words s =
     (let rest = strip_left WHITE s; (w, after) = solid_run rest
      in if w = [] \<or> length s \<le> length after then [] else w # words after)"
  by pat_completeness auto
termination by (relation "measure length") auto

declare words.simps [simp del]

definition host_char :: "char \<Rightarrow> bool" where
  "host_char c \<longleftrightarrow> is_alpha c \<or> is_digit c \<or> c \<in> set ''._-''"

definition host_like :: "string \<Rightarrow> bool" where
  "host_like s \<longleftrightarrow>
     list_ex (\<lambda>i. s ! i = CHR ''.'' \<and> 0 < i \<and> list_all host_char (take i s)
       \<and> 2 \<le> length (drop (Suc i) s) \<and> list_all is_alpha (drop (Suc i) s)) [0..<length s]"

definition digit_host_within :: "string \<Rightarrow> bool" where
  "digit_host_within s \<longleftrightarrow>
     list_ex (\<lambda>i. is_digit (s ! i) \<and>
       list_ex (\<lambda>j. list_all host_char (drop (Suc i) (take j s)) \<and> s ! j = CHR ''.''
         \<and> 2 \<le> length (drop (Suc j) s) \<and> list_all is_alpha (take 2 (drop (Suc j) s))) [Suc i..<length s]) [0..<length s]"

definition ipv4_like :: "string \<Rightarrow> bool" where
  "ipv4_like s \<longleftrightarrow>
     length (split_all ''.'' s) = 4 \<and> list_all (\<lambda>p. 1 \<le> length p \<and> length p \<le> 3 \<and> list_all is_digit p) (split_all ''.'' s)"

definition hex_digit :: "char \<Rightarrow> bool" where
  "hex_digit c \<longleftrightarrow> is_digit c \<or> c \<in> set ''abcdef''"

definition ipv6_like :: "string \<Rightarrow> bool" where
  "ipv6_like s \<longleftrightarrow> 2 \<le> length s \<and> list_all (\<lambda>c. hex_digit c \<or> c = CHR '':'') s"

definition high_entropy :: "string \<Rightarrow> bool" where
  "high_entropy s \<longleftrightarrow> 16 \<le> length s \<and> list_all (\<lambda>c. is_alpha c \<or> is_digit c \<or> c \<in> set ''+/=_-'') s"

definition residual_unsafe :: "string \<Rightarrow> bool" where
  "residual_unsafe s \<longleftrightarrow> host_like s \<or> digit_host_within s \<or> ipv4_like s \<or> ipv6_like s
     \<or> CHR ''/'' \<in> set s \<or> CHR ''@'' \<in> set s \<or> high_entropy s"

definition plain_word :: "string \<Rightarrow> bool" where
  "plain_word s \<longleftrightarrow> 1 \<le> length s \<and> length s \<le> 12 \<and> list_all is_alpha s"

definition joined :: "string \<Rightarrow> string list \<Rightarrow> string" where
  "joined sep ws = (case ws of [] \<Rightarrow> [] | w # rest \<Rightarrow> w @ concat (map (\<lambda>v. sep @ v) rest))"

definition kept_words :: "string \<Rightarrow> string list" where
  "kept_words text = take MAX_TEMPLATE_TOKENS
     (filter (\<lambda>t. plain_word t \<and> \<not> residual_unsafe t)
        (words (blank_quoted (char_of (39::nat)) (blank_quoted (char_of (34::nat)) text))))"

definition build_template :: "string \<Rightarrow> string" where
  "build_template text = joined '' '' (kept_words text)"

section \<open>Cursors\<close>

definition CURSOR_MAX_BYTES :: nat where "CURSOR_MAX_BYTES = 4096"

text \<open>No control character: below U+0021, U+007F to U+009F; in UTF-8 the last 32 are the pairs C2 80 to C2 9F.\<close>

fun cursor_chars :: "string \<Rightarrow> bool" where
  "cursor_chars [] = True"
| "cursor_chars (c # cs) =
     ((33 \<le> (of_char c :: nat) \<and> (of_char c :: nat) \<noteq> 127)
      \<and> \<not> ((of_char c :: nat) = 0xC2 \<and> (case cs of [] \<Rightarrow> False | d # _ \<Rightarrow> 0x80 \<le> (of_char d :: nat) \<and> (of_char d :: nat) \<le> 0x9F))
      \<and> cursor_chars cs)"

definition validate_cursor :: "pyval \<Rightarrow> bool" where
  "validate_cursor v =
     (case v of PStr s \<Rightarrow> 1 \<le> length s \<and> length s \<le> CURSOR_MAX_BYTES \<and> cursor_chars s | _ \<Rightarrow> False)"

text \<open>A line that consists of a mark and one run of characters other than white space.\<close>

definition framed_token :: "string \<Rightarrow> string \<Rightarrow> string option" where
  "framed_token mark line =
     (case lit mark line of None \<Rightarrow> None | Some t \<Rightarrow> if t \<noteq> [] \<and> solid_run t = (t, []) then Some t else None)"

definition parse_show_cursor :: "string \<Rightarrow> string option" where
  "parse_show_cursor text =
     (let lines = split_all [char_of (10::nat)] text;
          found = List.map_filter (framed_token ''-- cursor: '') lines @ List.map_filter (framed_token ''cursor: '') lines
      in case found of [] \<Rightarrow> None | t # _ \<Rightarrow> if validate_cursor (PStr t) then Some t else None)"

section \<open>The exchange schema\<close>

type_synonym obj = "(pyval \<times> pyval) list"

definition HEADER_KEYS :: "string list" where
  "HEADER_KEYS = [''t'', ''v'', ''cv'', ''seq'', ''run'', ''epoch'', ''boundary'', ''lines'', ''eligible'',
     ''info_dropped'', ''nomatch_dropped'', ''priority_unusable'', ''pfail'', ''limited'']"

definition EVENT_KEYS :: "string list" where
  "EVENT_KEYS = [''t'', ''ts'', ''cls'', ''proto'', ''port'', ''dcls'', ''fp'', ''n'']"

definition COUNT_FIELDS :: "string list" where
  "COUNT_FIELDS = [''lines'', ''eligible'', ''info_dropped'', ''nomatch_dropped'', ''priority_unusable'', ''pfail'', ''limited'']"

definition BOUNDS :: "string list" where "BOUNDS = [''NONE'', ''COLD_START'', ''SOURCE_GAP'']"

definition exact_keys :: "obj \<Rightarrow> string list \<Rightarrow> bool" where
  "exact_keys d names \<longleftrightarrow> list_all (\<lambda>(k, _). k \<in> set (map PStr names)) d \<and> list_all (\<lambda>n. pget d n \<noteq> None) names"

text \<open>\<open>value == 1\<close>: also true of \<open>True\<close> and \<open>1.0\<close>.\<close>

definition is_one :: "pyval \<Rightarrow> bool" where
  "is_one v \<longleftrightarrow> v = PInt 1 \<or> v = PBool True \<or> v = PFloat (Fin 1)"

definition at_least :: "int \<Rightarrow> pyval \<Rightarrow> bool" where
  "at_least m v = (case v of PInt i \<Rightarrow> m \<le> i | _ \<Rightarrow> False)"

definition one_in :: "string list \<Rightarrow> pyval \<Rightarrow> bool" where
  "one_in names v = (case v of PStr s \<Rightarrow> s \<in> set names | _ \<Rightarrow> False)"

definition hex_of_length :: "nat \<Rightarrow> pyval \<Rightarrow> bool" where
  "hex_of_length n v = (case v of PStr s \<Rightarrow> length s = n \<and> list_all hex_digit s | _ \<Rightarrow> False)"

definition header_ok :: "obj \<Rightarrow> bool" where
  "header_ok d \<longleftrightarrow> exact_keys d HEADER_KEYS
     \<and> pgetN d ''t'' = PStr ''h'' \<and> is_one (pgetN d ''v'') \<and> is_one (pgetN d ''cv'')
     \<and> at_least 1 (pgetN d ''seq'') \<and> hex_of_length 32 (pgetN d ''run'') \<and> at_least 1 (pgetN d ''epoch'')
     \<and> one_in BOUNDS (pgetN d ''boundary'') \<and> list_all (\<lambda>k. at_least 0 (pgetN d k)) COUNT_FIELDS"

definition validate_header :: "pyval \<Rightarrow> bool" where
  "validate_header v = (case v of PDict d \<Rightarrow> header_ok d | _ \<Rightarrow> False)"

text \<open>A time stamp is a number from 0 to \<open>1e11\<close>; infinities and \<open>nan\<close> are out of range.\<close>

definition plausible_ts :: "pyval \<Rightarrow> bool" where
  "plausible_ts v =
     (case v of PInt i \<Rightarrow> 0 \<le> i \<and> i \<le> 10 ^ 11 | PFloat (Fin q) \<Rightarrow> 0 \<le> q \<and> q \<le> 10 ^ 11 | _ \<Rightarrow> False)"

definition port_ok :: "pyval \<Rightarrow> bool" where
  "port_ok v = (case v of PNone \<Rightarrow> True | PInt i \<Rightarrow> 1 \<le> i \<and> i \<le> 65535 | _ \<Rightarrow> False)"

definition event_ok :: "obj \<Rightarrow> bool" where
  "event_ok d \<longleftrightarrow> exact_keys d EVENT_KEYS
     \<and> pgetN d ''t'' = PStr ''e'' \<and> plausible_ts (pgetN d ''ts'')
     \<and> one_in CLASSES (pgetN d ''cls'') \<and> one_in PROTOS (pgetN d ''proto'') \<and> port_ok (pgetN d ''port'')
     \<and> (pgetN d ''dcls'' = PNone \<or> one_in DCLS (pgetN d ''dcls''))
     \<and> (pgetN d ''fp'' = PNone \<or> hex_of_length FP_HEX_LEN (pgetN d ''fp''))
     \<and> at_least 1 (pgetN d ''n'')
     \<and> \<not> (pgetN d ''cls'' \<noteq> PStr ''other'' \<and> pgetN d ''fp'' \<noteq> PNone)
     \<and> \<not> (pgetN d ''dcls'' \<noteq> PNone \<and> pgetN d ''port'' = PNone)"

definition validate_event :: "pyval \<Rightarrow> bool" where
  "validate_event v = (case v of PDict d \<Rightarrow> event_ok d | _ \<Rightarrow> False)"

text \<open>
  A file is the list of its lines, the last one without the newline that ends the file; a line is what
  \<open>json.loads\<close> gives, \<open>None\<close> when it raises \<open>ValueError\<close>. The result is the reason for refusing the file.
\<close>

type_synonym line = "pyval option"

fun parse_lines :: "nat \<Rightarrow> bool \<Rightarrow> int \<Rightarrow> line list \<Rightarrow> string option" where
  "parse_lines index seen seq [] = (if seen then None else Some ''exchange_no_header'')"
| "parse_lines index seen seq (l # ls) =
     (case l of
        None \<Rightarrow> Some ''exchange_bad_json''
      | Some v \<Rightarrow>
          (if \<not> is_dict v then Some ''exchange_bad_shape''
           else if pgetN (dict_items v) ''t'' = PStr ''h''
           then (if index \<noteq> 0 \<or> seen then Some ''exchange_header_position''
                 else if \<not> validate_header v then Some ''exchange_header_invalid''
                 else if pgetN (dict_items v) ''seq'' \<noteq> PInt seq then Some ''exchange_seq_mismatch''
                 else parse_lines (Suc index) True seq ls)
           else if \<not> validate_event v then Some ''exchange_event_invalid''
           else parse_lines (Suc index) seen seq ls))"

definition parse_exchange :: "line list \<Rightarrow> int \<Rightarrow> string option" where
  "parse_exchange ls seq = (if ls = [] then Some ''exchange_empty'' else parse_lines 0 False seq ls)"

end
