(* ===== verification/Reader.thy ===== *)
theory Reader
  imports Journal "HOL-Library.Product_Lexorder"
begin

text \<open>
  One polling window of the journal reader (\<open>journal_reader/reader.py\<close>): the batch that \<open>_consume\<close> and
  \<open>absorb\<close> build from the lines of the journal child, its records and the body of the exchange file.
  The HMAC under the reader's local key is a parameter, \<open>None\<close> when the key cannot be loaded.
\<close>

section \<open>Failure codes\<close>

definition CODE_WRITER_FAILED :: string where "CODE_WRITER_FAILED = ''journal_writer_failed''"
definition CODE_SOURCE_UNAVAILABLE :: string where "CODE_SOURCE_UNAVAILABLE = ''journal_source_unavailable''"
definition CODE_CURSOR_INVALID :: string where "CODE_CURSOR_INVALID = ''journal_cursor_invalid''"
definition CODE_STATE_CORRUPTION :: string where "CODE_STATE_CORRUPTION = ''journal_state_corruption''"
definition CODE_RESET_REFUSED :: string where "CODE_RESET_REFUSED = ''journal_reset_refused''"
definition CODE_UNIT_INVALID :: string where "CODE_UNIT_INVALID = ''journal_unit_config_invalid''"

definition BACKLOG_CAP :: int where "BACKLOG_CAP = 50000"
definition MAX_RECORDS_PER_FILE :: nat where "MAX_RECORDS_PER_FILE = 200"
definition MAX_FP_PER_WINDOW :: nat where "MAX_FP_PER_WINDOW = 16"

definition DEFAULT_UNIT :: string where "DEFAULT_UNIT = ''sing-box.service''"

definition unit_char :: "char \<Rightarrow> bool" where
  "unit_char c \<longleftrightarrow> is_word c \<or> c \<in> set ''.@-''"

definition resolve_unit :: "string option \<Rightarrow> string res" where
  "resolve_unit v =
     (case v of
        None \<Rightarrow> Inr DEFAULT_UNIT
      | Some u \<Rightarrow>
          if u = [] then Inr DEFAULT_UNIT
          else if length u \<le> 64 \<and> list_all unit_char u then Inr u else Inl (ReaderFailure CODE_UNIT_INVALID))"

section \<open>The batch\<close>

text \<open>Class, protocol, port or 0, destination class or empty, fingerprint or empty.\<close>

type_synonym key = "string \<times> string \<times> int \<times> string \<times> string"

record batch =
  b_lines :: nat
  b_processed :: nat
  b_pfail :: nat
  b_eligible :: nat
  b_info :: nat
  b_nomatch :: nat
  b_unusable :: nat
  b_limited :: nat
  b_cursor_invalid :: bool
  b_last :: "string option"
  b_groups :: "(key, rat \<times> rat \<times> nat) dict"
  b_fps :: "string list"

definition new_batch :: batch where
  "new_batch = \<lparr>b_lines = 0, b_processed = 0, b_pfail = 0, b_eligible = 0, b_info = 0, b_nomatch = 0, b_unusable = 0,
     b_limited = 0, b_cursor_invalid = False, b_last = None, b_groups = [], b_fps = []\<rparr>"

definition count_in :: "key \<Rightarrow> rat \<Rightarrow> batch \<Rightarrow> batch" where
  "count_in k ts b =
     b\<lparr>b_groups := dict_set k (case dict_get (b_groups b) k of
          None \<Rightarrow> (ts, ts, 1)
        | Some (lo, hi, n) \<Rightarrow> (if ts < lo then ts else lo, if hi < ts then ts else hi, n + 1)) (b_groups b)\<rparr>"

definition or_zero :: "int option \<Rightarrow> int" where
  "or_zero p = (case p of None \<Rightarrow> 0 | Some i \<Rightarrow> i)"

definition or_empty :: "string option \<Rightarrow> string" where
  "or_empty s = (case s of None \<Rightarrow> [] | Some t \<Rightarrow> t)"

text \<open>An eligible entry without a class of its own: the fingerprint of its template, within the flood bound.\<close>

definition absorb_other :: "(string \<Rightarrow> string) option \<Rightarrow> string \<Rightarrow> int option \<Rightarrow> string option \<Rightarrow> string \<Rightarrow> rat \<Rightarrow> batch \<Rightarrow> batch res" where
  "absorb_other hash proto port dcls text ts b =
     (let template = build_template text
      in if residual_unsafe template
         then Inr (count_in (''other'', proto, or_zero port, or_empty dcls, []) ts (b\<lparr>b_limited := b_limited b + 1\<rparr>))
         else (case hash of
                 None \<Rightarrow> Inl (ReaderFailure CODE_WRITER_FAILED)
               | Some h \<Rightarrow>
                   (let fp = take FP_HEX_LEN (h template)
                    in if fp \<in> set (b_fps b) then Inr (count_in (''other'', proto, or_zero port, or_empty dcls, fp) ts b)
                       else if MAX_FP_PER_WINDOW \<le> length (b_fps b)
                       then Inr (count_in (''other'', ''OTHER'', 0, [], []) ts (b\<lparr>b_limited := b_limited b + 1\<rparr>))
                       else Inr (count_in (''other'', proto, or_zero port, or_empty dcls, fp) ts (b\<lparr>b_fps := b_fps b @ [fp]\<rparr>)))))"

definition absorb :: "(string \<Rightarrow> string) option \<Rightarrow> decision \<Rightarrow> rat \<Rightarrow> batch \<Rightarrow> batch res" where
  "absorb hash d ts b =
     (case d of
        DropInfo \<Rightarrow> Inr (b\<lparr>b_info := b_info b + 1\<rparr>)
      | DropNomatch u \<Rightarrow> Inr (b\<lparr>b_nomatch := b_nomatch b + 1, b_unusable := b_unusable b + (if u then 1 else 0)\<rparr>)
      | Eligible cls proto port dcls text \<Rightarrow>
          (let b1 = b\<lparr>b_eligible := b_eligible b + 1\<rparr>
           in case cls of
                Some c \<Rightarrow> Inr (count_in (c, proto, or_zero port, or_empty dcls, []) ts b1)
              | None \<Rightarrow> absorb_other hash proto port dcls text ts b1))"

section \<open>The lines of the journal child\<close>

text \<open>\<open>int(text) / 1e6\<close> for a string of digits, \<open>i / 1e6\<close> for an integer.\<close>

definition micros :: "int \<Rightarrow> rat res" where
  "micros i = res_bind (int_to_float i) (\<lambda>q. Inr (q / 10 ^ 6))"

definition field_ts :: "pyval \<Rightarrow> rat option res" where
  "field_ts v =
     (case v of
        PStr s \<Rightarrow>
          if s = [] \<or> \<not> list_all is_digit s then Inr None
          else if MAX_STR_DIGITS < length s then Inl (ValueError ''int'')
          else res_bind (micros (decimal s)) (\<lambda>q. Inr (Some q))
      | PInt i \<Rightarrow> if 0 < i then res_bind (micros i) (\<lambda>q. Inr (Some q)) else Inr None
      | _ \<Rightarrow> Inr None)"

definition entry_ts :: "obj \<Rightarrow> rat option res" where
  "entry_ts d =
     res_bind (field_ts (pgetN d ''__REALTIME_TIMESTAMP'')) (\<lambda>t.
       if t \<noteq> None then Inr t else field_ts (pgetN d ''_SOURCE_REALTIME_TIMESTAMP''))"

definition seen_line :: "batch \<Rightarrow> batch" where
  "seen_line b = b\<lparr>b_lines := b_lines b + 1\<rparr>"

definition processed_entry :: "pyval \<Rightarrow> batch \<Rightarrow> batch" where
  "processed_entry cursor b = b\<lparr>b_processed := b_processed b + 1, b_last := (case cursor of PStr s \<Rightarrow> Some s | _ \<Rightarrow> None)\<rparr>"

text \<open>
  The lines that are not blank, in order. The result is the batch and whether the reader stopped the child at
  the cap; a line that is no JSON object or has no usable cursor makes the batch invalid and ends the loop.
\<close>

fun consume_lines :: "(string \<Rightarrow> string) option \<Rightarrow> batch \<Rightarrow> line list \<Rightarrow> (batch \<times> bool) res" where
  "consume_lines hash b [] = Inr (b, False)"
| "consume_lines hash b (l # ls) =
     (let d = (case l of Some (PDict d) \<Rightarrow> d | _ \<Rightarrow> []);
          cursor = pgetN d ''__CURSOR''
      in if (case l of Some v \<Rightarrow> \<not> is_dict v | None \<Rightarrow> True) \<or> \<not> validate_cursor cursor
         then Inr ((seen_line b)\<lparr>b_cursor_invalid := True\<rparr>, False)
         else (let b1 = processed_entry cursor (seen_line b)
               in res_bind (entry_ts d) (\<lambda>ts.
                    case ts of
                      None \<Rightarrow> consume_lines hash (b1\<lparr>b_pfail := b_pfail b1 + 1\<rparr>) ls
                    | Some t \<Rightarrow>
                        if pgetN d ''MESSAGE'' = PNone
                        then consume_lines hash (b1\<lparr>b_pfail := b_pfail b1 + 1\<rparr>) ls
                        else res_bind (absorb hash (assess (pgetN d ''MESSAGE'') (pgetN d ''PRIORITY'')) t b1) (\<lambda>b2.
                               if BACKLOG_CAP \<le> int (b_processed b2) then Inr (b2, True) else consume_lines hash b2 ls))))"

section \<open>Records and body\<close>

text \<open>A record: its key, first time and count.\<close>

type_synonym event_row = "key \<times> rat \<times> nat"

definition rows_of :: "batch \<Rightarrow> event_row list" where
  "rows_of b = map (\<lambda>(k, lo, hi, n). (k, lo, n)) (b_groups b)"

definition row_rank :: "event_row \<Rightarrow> int \<times> key" where
  "row_rank r = (case r of (k, ts, n) \<Rightarrow> (- int n, k))"

definition fold_row :: "(string, rat \<times> nat) dict \<Rightarrow> event_row \<Rightarrow> (string, rat \<times> nat) dict" where
  "fold_row d r =
     (case r of (k, ts, n) \<Rightarrow>
        (let (lo, m) = (case dict_get d (fst k) of None \<Rightarrow> (ts, 0) | Some p \<Rightarrow> p)
         in dict_set (fst k) (if ts < lo then ts else lo, m + n) d))"

definition folded_rows :: "(string, rat \<times> nat) dict \<Rightarrow> event_row list" where
  "folded_rows d =
     map (\<lambda>cls. case dict_get d cls of Some (ts, n) \<Rightarrow> ((cls, ''OTHER'', 0, [], []), ts, n) | None \<Rightarrow> ((cls, ''OTHER'', 0, [], []), 0, 0))
       (sort (map fst d))"

text \<open>The records of a batch and the number of rows folded into class rows.\<close>

definition batch_records :: "batch \<Rightarrow> event_row list \<times> nat" where
  "batch_records b =
     (let rows = rows_of b
      in if length rows \<le> MAX_RECORDS_PER_FILE then (rows, 0)
         else (let ranked = sort_key row_rank rows;
                   rest = drop (MAX_RECORDS_PER_FILE - length CLASSES) ranked
               in (take (MAX_RECORDS_PER_FILE - length CLASSES) ranked @ folded_rows (foldl fold_row [] rest), length rest)))"

definition null_or :: "bool \<Rightarrow> pyval \<Rightarrow> pyval" where
  "null_or absent v = (if absent then PNone else v)"

definition event_obj :: "event_row \<Rightarrow> pyval" where
  "event_obj r =
     (case r of ((cls, proto, port, dcls, fp), ts, n) \<Rightarrow>
        PDict [(PStr ''t'', PStr ''e''), (PStr ''ts'', PFloat (Fin ts)), (PStr ''cls'', PStr cls), (PStr ''proto'', PStr proto),
          (PStr ''port'', null_or (port = 0) (PInt port)), (PStr ''dcls'', null_or (dcls = []) (PStr dcls)),
          (PStr ''fp'', null_or (fp = []) (PStr fp)), (PStr ''n'', PInt (int n))])"

definition header_obj :: "batch \<Rightarrow> nat \<Rightarrow> nat \<Rightarrow> string \<Rightarrow> nat \<Rightarrow> string \<Rightarrow> pyval" where
  "header_obj b folded seq run epoch boundary =
     PDict [(PStr ''t'', PStr ''h''), (PStr ''v'', PInt 1), (PStr ''cv'', PInt 1), (PStr ''seq'', PInt (int seq)),
       (PStr ''run'', PStr run), (PStr ''epoch'', PInt (int epoch)), (PStr ''boundary'', PStr boundary),
       (PStr ''lines'', PInt (int (b_lines b))), (PStr ''eligible'', PInt (int (b_eligible b))),
       (PStr ''info_dropped'', PInt (int (b_info b))), (PStr ''nomatch_dropped'', PInt (int (b_nomatch b))),
       (PStr ''priority_unusable'', PInt (int (b_unusable b))), (PStr ''pfail'', PInt (int (b_pfail b))),
       (PStr ''limited'', PInt (int (b_limited b + folded)))]"

definition exchange_body :: "batch \<Rightarrow> nat \<Rightarrow> string \<Rightarrow> nat \<Rightarrow> string \<Rightarrow> pyval list res" where
  "exchange_body b seq run epoch boundary =
     (let (rows, folded) = batch_records b;
          header = header_obj b folded seq run epoch boundary;
          events = map event_obj rows
      in if validate_header header \<and> list_all validate_event events then Inr (header # events)
         else Inl (ReaderFailure CODE_WRITER_FAILED))"

section \<open>Keys are closed\<close>

definition key_ok :: "key \<Rightarrow> bool" where
  "key_ok k = (case k of (cls, proto, port, dcls, fp) \<Rightarrow>
     cls \<in> set CLASSES \<and> proto \<in> set PROTOS \<and> 0 \<le> port \<and> port \<le> 65535 \<and> (dcls = [] \<or> dcls \<in> set DCLS)
     \<and> (fp = [] \<or> cls = ''other'' \<and> hex_of_length FP_HEX_LEN (PStr fp)) \<and> (dcls \<noteq> [] \<longrightarrow> port \<noteq> 0))"

definition class_ok :: "entry_class \<Rightarrow> bool" where
  "class_ok c \<longleftrightarrow> e_cls c \<in> set CLASSES \<and> e_proto c \<in> set PROTOS \<and> (\<forall>p. e_port c = Some p \<longrightarrow> 1 \<le> p \<and> p \<le> 65535)
     \<and> (\<forall>d. e_dcls c = Some d \<longrightarrow> d \<in> set DCLS \<and> e_port c \<noteq> None)"

lemma find_member: "find P xs = Some x \<Longrightarrow> x \<in> set xs"
  by (auto simp: find_Some_iff)

lemma class_rows_closed: "r \<in> set CLASS_ROWS \<Longrightarrow> fst r \<in> set CLASSES"
proof -
  have "list_all (\<lambda>r. fst r \<in> set CLASSES) CLASS_ROWS" by (simp add: CLASS_ROWS_def CLASSES_def)
  then show "r \<in> set CLASS_ROWS \<Longrightarrow> fst r \<in> set CLASSES" by (simp add: list_all_iff)
qed

lemma other_class: "''other'' \<in> set CLASSES"
  by (simp add: CLASSES_def)

lemma classify_failure_closed: "classify_failure text = Some c \<Longrightarrow> c \<in> set CLASSES"
  unfolding classify_failure_def by (elim map_option_eq_Some [THEN iffD1, elim_format] exE conjE) (metis class_rows_closed find_member)

lemma protocol_closed: "attribute_protocol text \<in> set PROTOS"
proof (cases "find (\<lambda>(token, _). contains token text) PROTO_RULES")
  case None
  then show ?thesis by (simp add: attribute_protocol_def PROTOS_def)
next
  case (Some r)
  have "list_all (\<lambda>r. snd r \<in> set PROTOS) PROTO_RULES" by (simp add: PROTO_RULES_def PROTOS_def)
  with find_member [OF Some] have "snd r \<in> set PROTOS" by (simp add: list_all_iff)
  with Some show ?thesis by (simp add: attribute_protocol_def split_beta)
qed

lemma token_port_range: "token_port t = Some p \<Longrightarrow> 1 \<le> p \<and> p \<le> 65535"
  by (auto simp: token_port_def Let_def split: if_splits)

lemma extract_port_range: "extract_port w s = Some p \<Longrightarrow> 1 \<le> p \<and> p \<le> 65535"
proof (induction w s rule: extract_port.induct)
  case (1 w s)
  show ?case
  proof (cases "address_at w s")
    case None
    show ?thesis
    proof (cases s)
      case Nil
      with 1(3) None show ?thesis by (simp add: extract_port.simps [of w "[]"])
    next
      case (Cons c rest)
      with 1(3) None have "extract_port (is_word c) rest = Some p" by (simp add: extract_port.simps [of w "c # rest"])
      from 1(1) [OF None Cons this] show ?thesis .
    qed
  next
    case (Some found)
    obtain token rest where found: "found = (token, rest)" by (cases found)
    show ?thesis
    proof (cases "token_port token")
      case None
      with 1(3) Some found have "extract_port (word_at (rev token)) rest = Some p" by (simp add: extract_port.simps [of w s])
      from 1(2) [OF Some found [symmetric] None this] show ?thesis .
    next
      case (Some q)
      with 1(3) \<open>address_at w s = Some found\<close> found have "q = p" by (simp add: extract_port.simps [of w s])
      with token_port_range [OF Some] show ?thesis by simp
    qed
  qed
qed

lemma dest_class_closed: "dest_class_for port text = Some d \<Longrightarrow> d \<in> set DCLS \<and> port \<noteq> None"
proof (cases port)
  case (Some p)
  assume d: "dest_class_for port text = Some d"
  have "list_all (\<lambda>r. snd r \<in> set DCLS) PORT_TABLE" by (simp add: PORT_TABLE_def DCLS_def)
  then have all: "\<forall>r\<in>set PORT_TABLE. snd r \<in> set DCLS" by (simp only: list_all_iff)
  have tab: "e \<in> set DCLS" if "dict_get PORT_TABLE p = Some e" for e
    using bspec [OF all map_of_SomeD [OF that]] by simp
  have lits: "''quic'' \<in> set DCLS" "''other'' \<in> set DCLS" by (simp_all add: DCLS_def)
  from d Some have "d = (if contains ''quic'' text then ''quic'' else (case dict_get PORT_TABLE p of None \<Rightarrow> ''other'' | Some d \<Rightarrow> d))"
    by (simp add: dest_class_for_def split: if_splits)
  with lits tab Some show ?thesis by (cases "dict_get PORT_TABLE p") (simp_all split: if_splits)
qed (simp add: dest_class_for_def)

lemma classify_entry_ok: "class_ok (classify_entry text)"
  unfolding class_ok_def classify_entry_def Let_def
  using classify_failure_closed [of "text"] other_class protocol_closed [of "text"] extract_port_range [of False "text"]
    dest_class_closed [of "extract_port False text" "text"]
  by (simp split: option.splits)

definition decision_ok :: "decision \<Rightarrow> bool" where
  "decision_ok d = (case d of
     Eligible cls proto port dcls text \<Rightarrow>
       (\<forall>c. cls = Some c \<longrightarrow> c \<in> set CLASSES) \<and> key_ok (''other'', proto, or_zero port, or_empty dcls, [])
     | _ \<Rightarrow> True)"

lemma class_key_ok:
  assumes "class_ok c"
  shows "key_ok (''other'', e_proto c, or_zero (e_port c), or_empty (e_dcls c), [])"
proof -
  have p: "0 \<le> or_zero (e_port c) \<and> or_zero (e_port c) \<le> 65535 \<and> (e_port c \<noteq> None \<longrightarrow> or_zero (e_port c) \<noteq> 0)"
    using assms by (cases "e_port c") (simp_all add: class_ok_def or_zero_def)
  have d: "(or_empty (e_dcls c) = [] \<or> or_empty (e_dcls c) \<in> set DCLS) \<and> (or_empty (e_dcls c) \<noteq> [] \<longrightarrow> e_port c \<noteq> None)"
    using assms by (cases "e_dcls c") (simp_all add: class_ok_def or_empty_def)
  from assms have "e_proto c \<in> set PROTOS" by (simp add: class_ok_def)
  with p d other_class show ?thesis by (simp add: key_ok_def)
qed

lemma eligible_ok: "class_ok c \<Longrightarrow> cls = None \<or> cls = own_class c \<Longrightarrow> decision_ok (eligible_as cls c text)"
  using class_key_ok [of c] by (elim disjE) (simp_all add: decision_ok_def eligible_as_def own_class_def class_ok_def)

lemma assess_ok: "decision_ok (assess m p)"
proof -
  have t: "decision_ok DropInfo" "decision_ok (DropNomatch u)" for u by (simp_all add: decision_ok_def)
  show ?thesis
    unfolding assess_def Let_def using eligible_ok [OF classify_entry_ok] t
    by (simp split: prod.split option.split)
qed

section \<open>What a window accounts for\<close>

definition hash_ok :: "(string \<Rightarrow> string) option \<Rightarrow> bool" where
  "hash_ok hash \<longleftrightarrow> (\<forall>h t. hash = Some h \<longrightarrow> FP_HEX_LEN \<le> length (h t) \<and> list_all hex_digit (h t))"

definition group_ok :: "key \<times> rat \<times> rat \<times> nat \<Rightarrow> bool" where
  "group_ok g = (case g of (k, lo, hi, n) \<Rightarrow> key_ok k \<and> 0 \<le> lo \<and> lo \<le> 10 ^ 11 \<and> 0 < n)"

definition batch_ok :: "batch \<Rightarrow> bool" where
  "batch_ok b \<longleftrightarrow> wf_dict (b_groups b) \<and> list_all group_ok (b_groups b)"

definition counted :: "batch \<Rightarrow> bool" where
  "counted b \<longleftrightarrow> b_unusable b \<le> b_nomatch b \<and> wf_dict (b_groups b)
     \<and> dict_sum (\<lambda>(lo, hi, n). int n) (b_groups b) = int (b_eligible b) \<and> length (b_fps b) \<le> MAX_FP_PER_WINDOW"

lemma count_in_fields [simp]:
  "b_lines (count_in k ts b) = b_lines b" "b_processed (count_in k ts b) = b_processed b" "b_pfail (count_in k ts b) = b_pfail b"
  "b_eligible (count_in k ts b) = b_eligible b" "b_info (count_in k ts b) = b_info b" "b_nomatch (count_in k ts b) = b_nomatch b"
  "b_unusable (count_in k ts b) = b_unusable b" "b_limited (count_in k ts b) = b_limited b"
  "b_cursor_invalid (count_in k ts b) = b_cursor_invalid b" "b_last (count_in k ts b) = b_last b" "b_fps (count_in k ts b) = b_fps b"
  by (simp_all add: count_in_def)

lemma count_in_wf: "wf_dict (b_groups b) \<Longrightarrow> wf_dict (b_groups (count_in k ts b))"
  by (simp add: count_in_def)

lemma count_in_sum:
  assumes "wf_dict (b_groups b)"
  shows "dict_sum (\<lambda>(lo, hi, n). int n) (b_groups (count_in k ts b)) = dict_sum (\<lambda>(lo, hi, n). int n) (b_groups b) + 1"
proof (cases "dict_get (b_groups b) k")
  case None
  then show ?thesis by (simp add: count_in_def dict_sum_set_new)
next
  case (Some v)
  obtain lo hi n where v: "v = (lo, hi, n)" by (cases v)
  from Some assms show ?thesis by (simp add: count_in_def v dict_sum_set_present [OF Some])
qed

lemma count_in_ok:
  assumes "batch_ok b" "key_ok k" "0 \<le> ts" "ts \<le> 10 ^ 11"
  shows "batch_ok (count_in k ts b)"
proof -
  have old: "dict_get (b_groups b) k = Some v \<Longrightarrow> group_ok (k, v)" for v
    using assms(1) by (auto simp: batch_ok_def list_all_iff dest: map_of_SomeD)
  have new: "group_ok (k, case dict_get (b_groups b) k of
          None \<Rightarrow> (ts, ts, 1)
        | Some (lo, hi, n) \<Rightarrow> (if ts < lo then ts else lo, if hi < ts then ts else hi, n + 1))"
  proof (cases "dict_get (b_groups b) k")
    case None
    with assms show ?thesis by (simp add: group_ok_def)
  next
    case (Some v)
    obtain lo hi n where v: "v = (lo, hi, n)" by (cases v)
    from old [OF Some] Some assms show ?thesis by (simp add: group_ok_def v)
  qed
  have "list_all group_ok (dict_set k v d)" if "group_ok (k, v)" "list_all group_ok d" for v d
    using that by (induction d) auto
  with new assms(1) show ?thesis by (simp add: batch_ok_def count_in_def)
qed

lemma absorb_other_cases:
  assumes "absorb_other hash proto port dcls msg ts b = Inr b'"
  shows "\<exists>k n fps. b' = count_in k ts (b\<lparr>b_limited := n, b_fps := fps\<rparr>) \<and> length fps \<le> max (length (b_fps b)) MAX_FP_PER_WINDOW
     \<and> (key_ok (''other'', proto, or_zero port, or_empty dcls, []) \<longrightarrow> hash_ok hash \<longrightarrow> key_ok k)"
proof (cases "residual_unsafe (build_template msg)")
  case True
  with assms show ?thesis
    by (intro exI [of _ "(''other'', proto, or_zero port, or_empty dcls, [])"] exI [of _ "b_limited b + 1"] exI [of _ "b_fps b"])
      (simp add: absorb_other_def)
next
  case False
  with assms obtain h where h: "hash = Some h" by (cases hash) (simp_all add: absorb_other_def)
  define fp where "fp = take FP_HEX_LEN (h (build_template msg))"
  have good: "key_ok (''other'', proto, or_zero port, or_empty dcls, []) \<longrightarrow> hash_ok hash \<longrightarrow> key_ok (''other'', proto, or_zero port, or_empty dcls, fp)"
  proof (intro impI)
    assume k: "key_ok (''other'', proto, or_zero port, or_empty dcls, [])" and "hash_ok hash"
    then have "hex_of_length FP_HEX_LEN (PStr fp)"
      by (auto simp: hash_ok_def h fp_def hex_of_length_def list_all_iff dest: in_set_takeD)
    with k show "key_ok (''other'', proto, or_zero port, or_empty dcls, fp)" by (simp add: key_ok_def)
  qed
  have flood: "key_ok (''other'', ''OTHER'', 0, [], [])" by (simp add: key_ok_def other_class PROTOS_def)
  show ?thesis
  proof (cases "fp \<in> set (b_fps b)")
    case True
    with assms False h good show ?thesis
      by (intro exI [of _ "(''other'', proto, or_zero port, or_empty dcls, fp)"] exI [of _ "b_limited b"] exI [of _ "b_fps b"])
        (simp add: absorb_other_def fp_def)
  next
    case fresh: False
    show ?thesis
    proof (cases "MAX_FP_PER_WINDOW \<le> length (b_fps b)")
      case True
      with assms False h fresh flood show ?thesis
        by (intro exI [of _ "(''other'', ''OTHER'', 0, [], [])"] exI [of _ "b_limited b + 1"] exI [of _ "b_fps b"])
          (simp add: absorb_other_def fp_def)
    next
      case room: False
      with assms False h fresh good show ?thesis
        by (intro exI [of _ "(''other'', proto, or_zero port, or_empty dcls, fp)"] exI [of _ "b_limited b"] exI [of _ "b_fps b @ [fp]"])
          (simp add: absorb_other_def fp_def Let_def)
    qed
  qed
qed

lemma counted_after:
  assumes "b' = count_in k ts (b\<lparr>b_eligible := b_eligible b + 1, b_limited := n, b_fps := fps\<rparr>)" "counted b"
    "length fps \<le> max (length (b_fps b)) MAX_FP_PER_WINDOW"
  shows "b_processed b' = b_processed b \<and> b_lines b' = b_lines b \<and> b_pfail b' = b_pfail b \<and> b_cursor_invalid b' = b_cursor_invalid b
    \<and> b_eligible b' + b_info b' + b_nomatch b' = b_eligible b + b_info b + b_nomatch b + 1 \<and> b_last b' = b_last b
    \<and> b_unusable b' \<le> b_nomatch b' \<and> wf_dict (b_groups b')
    \<and> dict_sum (\<lambda>(lo, hi, n). int n) (b_groups b') = int (b_eligible b') \<and> length (b_fps b') \<le> MAX_FP_PER_WINDOW"
proof -
  have "wf_dict (b_groups (b\<lparr>b_eligible := b_eligible b + 1, b_limited := n, b_fps := fps\<rparr>))" using assms(2) by (simp add: counted_def)
  from count_in_sum [OF this, of k ts] count_in_wf [OF this, of k ts] assms(2,3) show ?thesis
    by (simp add: assms(1) counted_def)
qed

lemma absorb_counted:
  assumes "absorb hash d ts b = Inr b'" "counted b"
  shows "b_processed b' = b_processed b \<and> b_lines b' = b_lines b \<and> b_pfail b' = b_pfail b \<and> b_cursor_invalid b' = b_cursor_invalid b
    \<and> b_eligible b' + b_info b' + b_nomatch b' = b_eligible b + b_info b + b_nomatch b + 1 \<and> b_last b' = b_last b
    \<and> b_unusable b' \<le> b_nomatch b' \<and> wf_dict (b_groups b')
    \<and> dict_sum (\<lambda>(lo, hi, n). int n) (b_groups b') = int (b_eligible b') \<and> length (b_fps b') \<le> MAX_FP_PER_WINDOW"
proof (cases d)
  case (Eligible cls proto port dcls msg)
  show ?thesis
  proof (cases cls)
    case None
    with assms(1) Eligible have "absorb_other hash proto port dcls msg ts (b\<lparr>b_eligible := b_eligible b + 1\<rparr>) = Inr b'" by (simp add: absorb_def)
    from absorb_other_cases [OF this] obtain k n fps where
      "b' = count_in k ts (b\<lparr>b_eligible := b_eligible b + 1, b_limited := n, b_fps := fps\<rparr>)" "length fps \<le> max (length (b_fps b)) MAX_FP_PER_WINDOW"
      by auto
    from counted_after [OF this(1) assms(2) this(2)] show ?thesis .
  next
    case (Some c)
    with assms(1) Eligible have "b' = count_in (c, proto, or_zero port, or_empty dcls, []) ts (b\<lparr>b_eligible := b_eligible b + 1, b_limited := b_limited b, b_fps := b_fps b\<rparr>)"
      by (simp add: absorb_def)
    from counted_after [OF this assms(2)] show ?thesis by simp
  qed
next
  case DropInfo
  with assms show ?thesis by (auto simp: absorb_def counted_def)
next
  case (DropNomatch u)
  with assms show ?thesis by (auto simp: absorb_def counted_def)
qed


lemma batch_ok_fields [simp]:
  "batch_ok (b\<lparr>b_eligible := x\<rparr>) = batch_ok b" "batch_ok (b\<lparr>b_limited := x\<rparr>) = batch_ok b" "batch_ok (b\<lparr>b_fps := y\<rparr>) = batch_ok b"
  "batch_ok (b\<lparr>b_info := x\<rparr>) = batch_ok b" "batch_ok (b\<lparr>b_nomatch := x\<rparr>) = batch_ok b" "batch_ok (b\<lparr>b_unusable := x\<rparr>) = batch_ok b"
  "batch_ok (b\<lparr>b_pfail := x\<rparr>) = batch_ok b" "batch_ok (b\<lparr>b_cursor_invalid := z\<rparr>) = batch_ok b"
  "batch_ok (seen_line b) = batch_ok b" "batch_ok (processed_entry c b) = batch_ok b"
  by (simp_all add: batch_ok_def seen_line_def processed_entry_def)

lemma key_ok_class: "key_ok (''other'', proto, port, dcls, []) \<Longrightarrow> c \<in> set CLASSES \<Longrightarrow> key_ok (c, proto, port, dcls, [])"
  by (simp add: key_ok_def)

lemma absorb_batch_ok:
  assumes "absorb hash d ts b = Inr b'" "batch_ok b" "decision_ok d" "hash_ok hash" "0 \<le> ts" "ts \<le> 10 ^ 11"
  shows "batch_ok b'"
proof (cases d)
  case (Eligible cls proto port dcls msg)
  show ?thesis
  proof (cases cls)
    case None
    with assms(1) Eligible have "absorb_other hash proto port dcls msg ts (b\<lparr>b_eligible := b_eligible b + 1\<rparr>) = Inr b'" by (simp add: absorb_def)
    from absorb_other_cases [OF this] assms(3,4) Eligible obtain k n fps where
      b': "b' = count_in k ts (b\<lparr>b_eligible := b_eligible b + 1, b_limited := n, b_fps := fps\<rparr>)" and k: "key_ok k"
      by (auto simp: decision_ok_def)
    have "batch_ok (b\<lparr>b_eligible := b_eligible b + 1, b_limited := n, b_fps := fps\<rparr>)" using assms(2) by (simp add: batch_ok_def)
    from count_in_ok [OF this k assms(5,6)] show ?thesis by (simp add: b')
  next
    case (Some c)
    with assms(1) Eligible have b': "b' = count_in (c, proto, or_zero port, or_empty dcls, []) ts (b\<lparr>b_eligible := b_eligible b + 1\<rparr>)"
      by (simp add: absorb_def)
    from assms(3) Eligible Some have "key_ok (c, proto, or_zero port, or_empty dcls, [])"
      by - (rule key_ok_class, simp_all add: decision_ok_def)
    from count_in_ok [OF _ this assms(5,6)] assms(2) show ?thesis by (simp add: b')
  qed
qed (use assms in \<open>auto simp: absorb_def\<close>)

text \<open>The time stamps of the journal lie before the year 5138.\<close>

definition plausible_line :: "line \<Rightarrow> bool" where
  "plausible_line l \<longleftrightarrow> (case l of Some (PDict d) \<Rightarrow> (case entry_ts d of Inr (Some t) \<Rightarrow> t \<le> 10 ^ 11 | _ \<Rightarrow> True) | _ \<Rightarrow> True)"

lemma micros_nonneg: "micros i = Inr q \<Longrightarrow> 0 \<le> i \<Longrightarrow> 0 \<le> q"
  by (simp add: micros_def int_to_float_def split: if_splits)

lemma decimal_nonneg: "list_all is_digit s \<Longrightarrow> 0 \<le> decimal s"
proof -
  have "0 \<le> n \<Longrightarrow> list_all is_digit s \<Longrightarrow> 0 \<le> foldl (\<lambda>n c. n * 10 + (int (of_char c) - 48)) n s" for n
  proof (induction s arbitrary: n)
    case (Cons c s)
    from Cons.prems(2) have "CHR ''0'' \<le> c" by (simp add: is_digit_def)
    then have "48 \<le> (of_char c :: nat)" by (simp add: less_eq_char_def)
    with Cons.prems Cons.IH show ?case by simp
  qed simp
  then show "list_all is_digit s \<Longrightarrow> 0 \<le> decimal s" by (simp add: decimal_def)
qed

lemma field_ts_nonneg: "field_ts v = Inr (Some t) \<Longrightarrow> 0 \<le> t"
proof (cases v)
  case (PInt i)
  assume "field_ts v = Inr (Some t)"
  with PInt have "0 < i" "micros i = Inr t" by (simp_all add: field_ts_def res_bind_eq_Inr split: if_splits)
  with micros_nonneg [of i t] show ?thesis by simp
next
  case (PStr s)
  assume "field_ts v = Inr (Some t)"
  with PStr have "micros (decimal s) = Inr t" "list_all is_digit s" by (simp_all add: field_ts_def res_bind_eq_Inr split: if_splits)
  with micros_nonneg [of "decimal s" t] decimal_nonneg [of s] show ?thesis by simp
qed (simp_all add: field_ts_def)

lemma entry_ts_nonneg: "entry_ts d = Inr (Some t) \<Longrightarrow> 0 \<le> t"
  unfolding entry_ts_def res_bind_eq_Inr by (elim exE conjE) (simp split: if_splits, auto intro: field_ts_nonneg)

definition invalid_line :: "line \<Rightarrow> bool" where
  "invalid_line l \<longleftrightarrow> (case l of Some (PDict d) \<Rightarrow> \<not> validate_cursor (pgetN d ''__CURSOR'') | _ \<Rightarrow> True)"

definition after_entry :: "obj \<Rightarrow> batch \<Rightarrow> batch" where
  "after_entry d b = processed_entry (pgetN d ''__CURSOR'') (seen_line b)"

text \<open>The ways a run over the lines of the child can go on.\<close>

lemma consume_cases:
  assumes "consume_lines hash b (l # ls) = Inr (b', stopped)"
  obtains (invalid) "b' = (seen_line b)\<lparr>b_cursor_invalid := True\<rparr>" "\<not> stopped"
    | (unusable) d where "l = Some (PDict d)" "validate_cursor (pgetN d ''__CURSOR'')"
        "consume_lines hash ((after_entry d b)\<lparr>b_pfail := b_pfail b + 1\<rparr>) ls = Inr (b', stopped)"
    | (usable) d t b2 where "l = Some (PDict d)" "validate_cursor (pgetN d ''__CURSOR'')" "entry_ts d = Inr (Some t)"
        "absorb hash (assess (pgetN d ''MESSAGE'') (pgetN d ''PRIORITY'')) t (after_entry d b) = Inr b2"
        "if BACKLOG_CAP \<le> int (b_processed b2) then b' = b2 \<and> stopped else consume_lines hash b2 ls = Inr (b', stopped)"
proof (cases "invalid_line l")
  case True
  then have "(case l of Some v \<Rightarrow> \<not> is_dict v | None \<Rightarrow> True) \<or> \<not> validate_cursor (pgetN (case l of Some (PDict d) \<Rightarrow> d | _ \<Rightarrow> []) ''__CURSOR'')"
    by (simp add: invalid_line_def split: option.splits pyval.splits)
  with assms show ?thesis by (intro invalid) (simp_all add: Let_def)
next
  case False
  then obtain d where d: "l = Some (PDict d)" and c: "validate_cursor (pgetN d ''__CURSOR'')"
    by (simp add: invalid_line_def split: option.splits pyval.splits)
  have pf: "b_pfail (after_entry d b) = b_pfail b" by (simp add: after_entry_def processed_entry_def seen_line_def)
  from assms d c obtain ts where ts: "entry_ts d = Inr ts"
    by (cases "entry_ts d") (simp_all add: Let_def)
  show ?thesis
  proof (cases "ts = None \<or> pgetN d ''MESSAGE'' = PNone")
    case True
    with assms d c ts have "consume_lines hash ((after_entry d b)\<lparr>b_pfail := b_pfail b + 1\<rparr>) ls = Inr (b', stopped)"
      by (cases ts) (simp_all add: Let_def after_entry_def pf [unfolded after_entry_def])
    from unusable [OF d c this] show ?thesis .
  next
    case False
    then obtain t where t: "ts = Some t" by auto
    with assms d c ts False obtain b2 where
      b2: "absorb hash (assess (pgetN d ''MESSAGE'') (pgetN d ''PRIORITY'')) t (after_entry d b) = Inr b2"
      by (cases "absorb hash (assess (pgetN d ''MESSAGE'') (pgetN d ''PRIORITY'')) t (after_entry d b)")
        (simp_all add: Let_def after_entry_def)
    with assms d c ts t False have "if BACKLOG_CAP \<le> int (b_processed b2) then b' = b2 \<and> stopped else consume_lines hash b2 ls = Inr (b', stopped)"
      by (simp add: Let_def after_entry_def split: if_splits)
    from usable [OF d c ts [unfolded t] b2 this] show ?thesis .
  qed
qed

lemma after_entry_fields:
  "b_lines (after_entry d b) = b_lines b + 1" "b_processed (after_entry d b) = b_processed b + 1" "b_pfail (after_entry d b) = b_pfail b"
  "b_eligible (after_entry d b) = b_eligible b" "b_info (after_entry d b) = b_info b" "b_nomatch (after_entry d b) = b_nomatch b"
  "b_unusable (after_entry d b) = b_unusable b" "b_groups (after_entry d b) = b_groups b" "b_fps (after_entry d b) = b_fps b"
  "b_cursor_invalid (after_entry d b) = b_cursor_invalid b" "batch_ok (after_entry d b) = batch_ok b"
  by (simp_all add: after_entry_def processed_entry_def seen_line_def batch_ok_def)

definition settled :: "batch \<Rightarrow> bool" where
  "settled b \<longleftrightarrow> counted b \<and> b_lines b = b_processed b
     \<and> b_processed b = b_pfail b + b_eligible b + b_info b + b_nomatch b"

lemma absorb_settled:
  assumes "absorb hash v t (after_entry d b) = Inr b2" "settled b"
  shows "settled b2 \<and> b_cursor_invalid b2 = b_cursor_invalid b"
proof -
  have "counted (after_entry d b)" using assms(2) by (simp add: settled_def counted_def after_entry_fields)
  from absorb_counted [OF assms(1) this] assms(2) show ?thesis
    by (simp add: settled_def counted_def after_entry_fields)
qed

lemma consume_settled:
  "consume_lines hash b ls = Inr (b', stopped) \<Longrightarrow> settled b \<Longrightarrow> \<not> b_cursor_invalid b' \<Longrightarrow> settled b'"
proof (induction ls arbitrary: b)
  case Nil
  then show ?case by simp
next
  case (Cons l ls)
  from Cons.prems(1) show ?case
  proof (cases rule: consume_cases)
    case invalid
    with Cons.prems(3) show ?thesis by simp
  next
    case (unusable d)
    have "settled ((after_entry d b)\<lparr>b_pfail := b_pfail b + 1\<rparr>)"
      using Cons.prems(2) by (simp add: settled_def counted_def after_entry_fields)
    from Cons.IH [OF unusable(3) this Cons.prems(3)] show ?thesis .
  next
    case (usable d t b2)
    from absorb_settled [OF usable(4) Cons.prems(2)] have b2: "settled b2" by simp
    show ?thesis
    proof (cases "BACKLOG_CAP \<le> int (b_processed b2)")
      case True
      with usable(5) b2 show ?thesis by simp
    next
      case False
      with usable(5) have "consume_lines hash b2 ls = Inr (b', stopped)" by simp
      from Cons.IH [OF this b2 Cons.prems(3)] show ?thesis .
    qed
  qed
qed

lemma consume_batch_ok:
  "consume_lines hash b ls = Inr (b', stopped) \<Longrightarrow> batch_ok b \<Longrightarrow> hash_ok hash \<Longrightarrow> list_all plausible_line ls \<Longrightarrow> batch_ok b'"
proof (induction ls arbitrary: b)
  case Nil
  then show ?case by simp
next
  case (Cons l ls)
  from Cons.prems(4) have ls: "list_all plausible_line ls" by simp
  from Cons.prems(1) show ?case
  proof (cases rule: consume_cases)
    case invalid
    with Cons.prems(2) show ?thesis by simp
  next
    case (unusable d)
    have "batch_ok ((after_entry d b)\<lparr>b_pfail := b_pfail b + 1\<rparr>)" using Cons.prems(2) by (simp add: after_entry_fields)
    from Cons.IH [OF unusable(3) this Cons.prems(3) ls] show ?thesis .
  next
    case (usable d t b2)
    have "batch_ok (after_entry d b)" using Cons.prems(2) by (simp add: after_entry_fields)
    moreover have "t \<le> 10 ^ 11" using Cons.prems(4) usable(1,3) by (simp add: plausible_line_def)
    ultimately have b2: "batch_ok b2"
      by (rule absorb_batch_ok [OF usable(4) _ assess_ok Cons.prems(3) entry_ts_nonneg [OF usable(3)]])
    show ?thesis
    proof (cases "BACKLOG_CAP \<le> int (b_processed b2)")
      case True
      with usable(5) b2 show ?thesis by simp
    next
      case False
      with usable(5) have "consume_lines hash b2 ls = Inr (b', stopped)" by simp
      from Cons.IH [OF this b2 Cons.prems(3) ls] show ?thesis .
    qed
  qed
qed

lemma new_batch_ok: "settled new_batch" "batch_ok new_batch"
  by (simp_all add: settled_def counted_def batch_ok_def new_batch_def)

section \<open>Records\<close>

definition row_ok :: "event_row \<Rightarrow> bool" where
  "row_ok r = (case r of (k, ts, n) \<Rightarrow> key_ok k \<and> 0 \<le> ts \<and> ts \<le> 10 ^ 11 \<and> 0 < n)"

definition total :: "event_row list \<Rightarrow> nat" where
  "total rows = sum_list (map (\<lambda>(k, ts, n). n) rows)"

definition folded_ok :: "(string, rat \<times> nat) dict \<Rightarrow> bool" where
  "folded_ok d \<longleftrightarrow> wf_dict d \<and> (\<forall>(c, ts, n)\<in>set d. c \<in> set CLASSES \<and> 0 \<le> ts \<and> ts \<le> 10 ^ 11 \<and> 0 < n)"

definition folded_total :: "(string, rat \<times> nat) dict \<Rightarrow> int" where
  "folded_total d = dict_sum (\<lambda>(ts, n). int n) d"

lemma set_dict_set: "x \<in> set (dict_set k v d) \<Longrightarrow> x = (k, v) \<or> x \<in> set d"
  by (induction d) (auto split: if_splits)

lemma fold_row_ok:
  assumes "folded_ok d" "row_ok r"
  shows "folded_ok (fold_row d r)" "folded_total (fold_row d r) = folded_total d + int (snd (snd r))"
proof -
  obtain cls rest ts n where r: "r = ((cls, rest), ts, n)" by (metis prod.exhaust)
  have cls: "cls \<in> set CLASSES" and ts: "0 \<le> ts" "ts \<le> 10 ^ 11" "0 < n"
    using assms(2) by (auto simp: row_ok_def key_ok_def r)
  have old: "dict_get d cls = Some (lo, m) \<Longrightarrow> 0 \<le> lo \<and> lo \<le> 10 ^ 11 \<and> 0 < m" for lo m
    using assms(1) by (auto simp: folded_ok_def dest!: map_of_SomeD)
  obtain lo m where e: "(case dict_get d cls of None \<Rightarrow> (ts, 0) | Some p \<Rightarrow> p) = (lo, m)" by (rule prod.exhaust)
  have v: "fold_row d r = dict_set cls (if ts < lo then ts else lo, m + n) d" by (simp add: fold_row_def r e)
  have lo: "0 \<le> lo \<and> lo \<le> 10 ^ 11" using e old ts by (cases "dict_get d cls") auto
  show "folded_ok (fold_row d r)"
    unfolding folded_ok_def v
  proof (intro conjI ballI)
    show "wf_dict (dict_set cls (if ts < lo then ts else lo, m + n) d)" using assms(1) by (simp add: folded_ok_def)
    fix x assume "x \<in> set (dict_set cls (if ts < lo then ts else lo, m + n) d)"
    from set_dict_set [OF this] show "case x of (c, ts, n) \<Rightarrow> c \<in> set CLASSES \<and> 0 \<le> ts \<and> ts \<le> 10 ^ 11 \<and> 0 < n"
    proof
      assume "x = (cls, if ts < lo then ts else lo, m + n)"
      with cls ts lo show ?thesis by simp
    next
      assume "x \<in> set d"
      with assms(1) show ?thesis by (simp add: folded_ok_def)
    qed
  qed
  show "folded_total (fold_row d r) = folded_total d + int (snd (snd r))"
  proof (cases "dict_get d cls")
    case None
    with e have "m = 0" by simp
    then show ?thesis unfolding folded_total_def v by (simp add: dict_sum_set_new [OF None] r)
  next
    case (Some p)
    with e have "p = (lo, m)" by simp
    then show ?thesis unfolding folded_total_def v by (simp add: dict_sum_set_present [OF Some] r)
  qed
qed

lemma fold_rows_ok:
  "folded_ok d \<Longrightarrow> list_all row_ok rows \<Longrightarrow>
     folded_ok (foldl fold_row d rows) \<and> folded_total (foldl fold_row d rows) = folded_total d + int (total rows)"
proof (induction rows arbitrary: d)
  case Nil
  then show ?case by (simp add: total_def)
next
  case (Cons r rows)
  from Cons.prems have r: "row_ok r" "list_all row_ok rows" by simp_all
  from Cons.IH [OF fold_row_ok(1) [OF Cons.prems(1) r(1)] r(2)] fold_row_ok(2) [OF Cons.prems(1) r(1)]
  show ?case by (simp add: total_def split_beta)
qed

lemma class_row_ok: "c \<in> set CLASSES \<Longrightarrow> 0 \<le> ts \<Longrightarrow> ts \<le> 10 ^ 11 \<Longrightarrow> 0 < n \<Longrightarrow> row_ok ((c, ''OTHER'', 0, [], []), ts, n)"
  by (simp add: row_ok_def key_ok_def PROTOS_def)

lemma folded_rows_facts:
  assumes "folded_ok d"
  shows "list_all row_ok (folded_rows d)" "int (total (folded_rows d)) = folded_total d" "length (folded_rows d) \<le> length CLASSES"
proof -
  have keys: "distinct (map fst d)" "set (map fst d) \<subseteq> set CLASSES"
    using assms by (auto simp: folded_ok_def wf_dict_def)
  have got: "dict_get d c = Some v \<Longrightarrow> c \<in> set CLASSES \<and> 0 \<le> fst v \<and> fst v \<le> 10 ^ 11 \<and> 0 < snd v" for c v
    using assms by (auto simp: folded_ok_def dest!: map_of_SomeD)
  have "row_ok (case dict_get d c of Some (ts, n) \<Rightarrow> ((c, ''OTHER'', 0, [], []), ts, n) | None \<Rightarrow> ((c, ''OTHER'', 0, [], []), 0, 0))"
    if "c \<in> set (map fst d)" for c
  proof -
    from that have "dict_get d c \<noteq> None" by (metis map_of_eq_None_iff set_map)
    then obtain v where v: "dict_get d c = Some v" by auto
    with got [OF v] show ?thesis by (cases v) (simp add: class_row_ok)
  qed
  then show "list_all row_ok (folded_rows d)" by (simp add: folded_rows_def list_all_iff)
  have "card (set (map fst d)) \<le> card (set CLASSES)" by (rule card_mono [OF _ keys(2)]) simp
  also have "\<dots> \<le> length CLASSES" by (rule card_length)
  finally show "length (folded_rows d) \<le> length CLASSES" using distinct_card [OF keys(1)] by (simp add: folded_rows_def)
  have "total (folded_rows d) = sum_list (map (\<lambda>c. case dict_get d c of Some (ts, n) \<Rightarrow> n | None \<Rightarrow> 0) (sort (map fst d)))"
    unfolding total_def folded_rows_def map_map comp_def by (rule arg_cong [of _ _ sum_list], rule map_cong) (auto split: option.split)
  also have "\<dots> = (\<Sum>c\<in>set (map fst d). case dict_get d c of Some (ts, n) \<Rightarrow> n | None \<Rightarrow> 0)"
    using keys(1) by (subst sum_list_distinct_conv_sum_set) simp_all
  also have "\<dots> = sum_list (map (\<lambda>c. case dict_get d c of Some (ts, n) \<Rightarrow> n | None \<Rightarrow> 0) (map fst d))"
    using keys(1) by (subst sum_list_distinct_conv_sum_set) simp_all
  also have "\<dots> = sum_list (map (\<lambda>(c, ts, n). n) d)"
    unfolding map_map comp_def
  proof (rule arg_cong [of _ _ sum_list], rule map_cong [OF refl], goal_cases)
    case (1 x)
    obtain c ts n where x: "x = (c, ts, n)" by (cases x)
    from 1 keys(1) have "dict_get d c = Some (ts, n)" by (simp add: x)
    then show ?case by (simp add: x)
  qed
  finally have "total (folded_rows d) = sum_list (map (\<lambda>(c, ts, n). n) d)" .
  moreover have "int (sum_list (map (\<lambda>(c, ts, n). n) d)) = folded_total d"
    unfolding folded_total_def by (induction d) (simp_all add: split_beta dict_sum_def)
  ultimately show "int (total (folded_rows d)) = folded_total d" by simp
qed

lemma rows_of_ok: "batch_ok b \<Longrightarrow> list_all row_ok (rows_of b)"
  by (auto simp: batch_ok_def list_all_iff rows_of_def row_ok_def group_ok_def)

lemma rows_of_total: "int (total (rows_of b)) = dict_sum (\<lambda>(lo, hi, n). int n) (b_groups b)"
proof -
  have "int (total (map (\<lambda>(k, lo, hi, n). (k, lo, n)) d)) = dict_sum (\<lambda>(lo, hi, n). int n) d" for d :: "(key, rat \<times> rat \<times> nat) dict"
    by (induction d) (simp_all add: total_def dict_sum_def split_beta)
  then show ?thesis by (simp add: rows_of_def)
qed

lemma total_append: "total (xs @ ys) = total xs + total ys"
  by (simp add: total_def)

lemma total_insort: "total (insort_key f x xs) = total (x # xs)"
  by (induction xs) (simp_all add: total_def)

lemma total_sort: "total (sort_key f xs) = total xs"
proof (induction xs)
  case (Cons x xs)
  have "total (sort_key f (x # xs)) = total (x # sort_key f xs)" by (simp add: total_insort)
  with Cons show ?case by (simp add: total_def)
qed simp

lemma batch_records_facts:
  assumes "batch_ok b" "batch_records b = (rows, folded)"
  shows "list_all row_ok rows" "int (total rows) = dict_sum (\<lambda>(lo, hi, n). int n) (b_groups b)" "length rows \<le> MAX_RECORDS_PER_FILE"
proof -
  note all = rows_of_ok [OF assms(1)]
  have "list_all row_ok rows \<and> total rows = total (rows_of b) \<and> length rows \<le> MAX_RECORDS_PER_FILE"
  proof (cases "length (rows_of b) \<le> MAX_RECORDS_PER_FILE")
    case True
    with assms(2) all show ?thesis by (simp add: batch_records_def)
  next
    case False
    define k where "k = MAX_RECORDS_PER_FILE - length CLASSES"
    define ranked where "ranked = sort_key row_rank (rows_of b)"
    have rows: "rows = take k ranked @ folded_rows (foldl fold_row [] (drop k ranked))"
      using assms(2) False by (simp add: batch_records_def Let_def k_def ranked_def)
    have ok: "list_all row_ok ranked" using all by (simp add: ranked_def list_all_iff)
    then have parts: "list_all row_ok (take k ranked)" "list_all row_ok (drop k ranked)"
      by (auto simp: list_all_iff dest: in_set_takeD in_set_dropD)
    have "folded_ok []" by (simp add: folded_ok_def)
    from fold_rows_ok [OF this parts(2)] have f: "folded_ok (foldl fold_row [] (drop k ranked))"
      "folded_total (foldl fold_row [] (drop k ranked)) = int (total (drop k ranked))"
      by (simp_all add: folded_total_def)
    note ff = folded_rows_facts [OF f(1)]
    have "total (take k ranked) + total (drop k ranked) = total (rows_of b)"
      by (metis append_take_drop_id ranked_def total_append total_sort)
    then have "total rows = total (rows_of b)" using ff(2) f(2) by (simp add: rows total_append)
    moreover have "length rows \<le> MAX_RECORDS_PER_FILE" using ff(3) by (simp add: rows k_def MAX_RECORDS_PER_FILE_def CLASSES_def)
    ultimately show ?thesis using parts(1) ff(1) by (simp add: rows)
  qed
  then show "list_all row_ok rows" "int (total rows) = dict_sum (\<lambda>(lo, hi, n). int n) (b_groups b)" "length rows \<le> MAX_RECORDS_PER_FILE"
    using rows_of_total [of b] by simp_all
qed

section \<open>Windows on the wire\<close>

lemma event_valid: "row_ok r \<Longrightarrow> validate_event (event_obj r)"
proof -
  assume ok: "row_ok r"
  obtain cls proto port dcls fp ts n where r: "r = ((cls, proto, port, dcls, fp), ts, n)" by (metis prod.exhaust)
  have k: "cls \<in> set CLASSES" "proto \<in> set PROTOS" "0 \<le> port" "port \<le> 65535" "dcls = [] \<or> dcls \<in> set DCLS"
    "fp = [] \<or> cls = ''other'' \<and> hex_of_length FP_HEX_LEN (PStr fp)" "dcls \<noteq> [] \<longrightarrow> port \<noteq> 0" and n: "0 \<le> ts" "ts \<le> 10 ^ 11" "0 < n"
    using ok by (simp_all add: row_ok_def key_ok_def r)
  show ?thesis
    using k n by (simp add: validate_event_def event_obj_def r event_ok_def exact_keys_def EVENT_KEYS_def pget_or_def plausible_ts_def
        one_in_def port_ok_def null_or_def at_least_def split: if_splits) (elim disjE; simp)
qed

lemma header_valid:
  assumes "hex_of_length 32 (PStr run)" "0 < seq" "0 < epoch" "boundary \<in> set BOUNDS"
  shows "validate_header (header_obj b folded seq run epoch boundary)"
  using assms by (simp add: validate_header_def header_obj_def header_ok_def exact_keys_def HEADER_KEYS_def COUNT_FIELDS_def pget_or_def
      is_one_def at_least_def one_in_def)

lemma events_parse:
  "list_all (\<lambda>v. validate_event v \<and> is_dict v \<and> pgetN (dict_items v) ''t'' \<noteq> PStr ''h'') vs \<Longrightarrow> parse_lines index True seq (map Some vs) = None"
  by (induction vs arbitrary: index) simp_all

lemma event_tag: "is_dict (event_obj r) \<and> pgetN (dict_items (event_obj r)) ''t'' = PStr ''e''"
  by (simp add: event_obj_def pget_or_def split: prod.split)

text \<open>
  Every window is accounted for. When the journal child's lines were all usable, each of them was
  counted exactly once, as unparsable, dropped as information, dropped without a match, or eligible, and the
  counts of the records add up to the eligible ones even when records are folded; there are at most two
  hundred records and sixteen fingerprints.
\<close>

theorem window_accounted:
  assumes "consume_lines hash new_batch ls = Inr (b, stopped)" "\<not> b_cursor_invalid b"
    and "hash_ok hash" "list_all plausible_line ls"
  shows "b_lines b = b_pfail b + b_info b + b_nomatch b + total (fst (batch_records b))
    \<and> b_eligible b = total (fst (batch_records b)) \<and> length (fst (batch_records b)) \<le> 200 \<and> length (b_fps b) \<le> 16"
proof -
  obtain rows folded where r: "batch_records b = (rows, folded)" by (cases "batch_records b")
  from consume_settled [OF assms(1) new_batch_ok(1) assms(2)] have s: "settled b" .
  note f = batch_records_facts [OF consume_batch_ok [OF assms(1) new_batch_ok(2) assms(3,4)] r]
  show ?thesis using s f(2,3) r by (simp add: settled_def counted_def MAX_RECORDS_PER_FILE_def MAX_FP_PER_WINDOW_def)
qed

text \<open>The body of a window is produced, one valid event per record.\<close>

lemma window_body:
  assumes "consume_lines hash new_batch ls = Inr (b, stopped)" "hash_ok hash" "list_all plausible_line ls"
    and "hex_of_length 32 (PStr run)" "0 < seq" "0 < epoch" "boundary \<in> set BOUNDS"
  shows "\<exists>h. exchange_body b seq run epoch boundary = Inr (h # map event_obj (fst (batch_records b)))
    \<and> parse_exchange (map Some (h # map event_obj (fst (batch_records b)))) (int seq) = None"
proof -
  obtain rows folded where r: "batch_records b = (rows, folded)" by (cases "batch_records b")
  note f = batch_records_facts [OF consume_batch_ok [OF assms(1) new_batch_ok(2) assms(2,3)] r]
  define h where "h = header_obj b folded seq run epoch boundary"
  have hv: "validate_header h" using header_valid [OF assms(4-7)] by (simp add: h_def)
  have ev: "list_all validate_event (map event_obj rows)" using f(1) event_valid by (simp add: list_all_iff)
  have tag: "is_dict h" "pgetN (dict_items h) ''t'' = PStr ''h''" "pgetN (dict_items h) ''seq'' = PInt (int seq)"
    by (simp_all add: h_def header_obj_def pget_or_def)
  have "parse_lines (Suc 0) True (int seq) (map Some (map event_obj rows)) = None"
    by (rule events_parse) (use ev event_tag in \<open>simp add: list_all_iff\<close>)
  then have "parse_exchange (map Some (h # map event_obj rows)) (int seq) = None"
    using hv tag by (simp add: parse_exchange_def)
  moreover have "exchange_body b seq run epoch boundary = Inr (h # map event_obj rows)"
    using r hv ev by (simp add: exchange_body_def h_def)
  ultimately show ?thesis using r by auto
qed

text \<open>
  C36: what the reader writes the monitor accepts. The body of every window is produced without error, and the
  monitor's contract accepts it under its sequence number: one header, first, then one valid event per record.
\<close>

theorem window_accepted:
  assumes "consume_lines hash new_batch ls = Inr (b, stopped)" "hash_ok hash" "list_all plausible_line ls"
    and "hex_of_length 32 (PStr run)" "0 < seq" "0 < epoch" "boundary \<in> set BOUNDS"
  shows "\<exists>h. exchange_body b seq run epoch boundary = Inr (h # map event_obj (fst (batch_records b)))
    \<and> parse_exchange (map Some (h # map event_obj (fst (batch_records b)))) (int seq) = None"
  by (rule window_body [OF assms])

definition sample_message :: pyval where "sample_message = PStr ''ERROR tls: reset''"

definition sample_line :: line where
  "sample_line = Some (PDict [(PStr ''__CURSOR'', PStr ''s=1''), (PStr ''__REALTIME_TIMESTAMP'', PStr ''5000000''), (PStr ''MESSAGE'', sample_message)])"

lemma sample_assess: "assess sample_message PNone = Eligible (Some ''tls_handshake'') ''OTHER'' None None ''tls: reset''"
proof -
  have "normalize_message sample_message = (''tls: reset'', Some Lerror)" by code_simp
  moreover have "classify_entry ''tls: reset'' = \<lparr>e_cls = ''tls_handshake'', e_proto = ''OTHER'', e_port = None, e_dcls = None\<rparr>"
    by code_simp
  ultimately show ?thesis by (simp add: assess_def eligible_as_def own_class_def)
qed

lemma sample_ts: "entry_ts [(PStr ''__CURSOR'', PStr ''s=1''), (PStr ''__REALTIME_TIMESTAMP'', PStr ''5000000''), (PStr ''MESSAGE'', m)] = Inr (Some 5)"
  by (simp add: entry_ts_def pget_or_def field_ts_def is_digit_def less_eq_char_def MAX_STR_DIGITS_def micros_def decimal_def int_to_float_def float_limit_def)

definition sample_batch :: batch where
  "sample_batch = \<lparr>b_lines = 1, b_processed = 1, b_pfail = 0, b_eligible = 1, b_info = 0, b_nomatch = 0, b_unusable = 0,
     b_limited = 0, b_cursor_invalid = False, b_last = Some ''s=1'', b_groups = [((''tls_handshake'', ''OTHER'', 0, [], []), 5, 5, 1)], b_fps = []\<rparr>"

lemma sample_run: "consume_lines None new_batch [sample_line] = Inr (sample_batch, False)"
  using sample_assess sample_ts [of sample_message]
  by (simp add: sample_line_def pget_or_def validate_cursor_def CURSOR_MAX_BYTES_def sample_message_def absorb_def count_in_def
      processed_entry_def seen_line_def new_batch_def BACKLOG_CAP_def or_zero_def or_empty_def sample_batch_def)

lemma sample_plausible: "list_all plausible_line [sample_line]"
  using sample_ts [of sample_message] by (simp add: plausible_line_def sample_line_def)

lemma no_hash: "hash_ok None"
  by (simp add: hash_ok_def)

theorem window_accounted_witness:
  "b_lines sample_batch = b_pfail sample_batch + b_info sample_batch + b_nomatch sample_batch + total (fst (batch_records sample_batch))
    \<and> total (fst (batch_records sample_batch)) = 1"
  using window_accounted [OF sample_run _ no_hash sample_plausible] by (simp add: sample_batch_def)

theorem window_accepted_witness:
  "\<exists>h. exchange_body sample_batch 7 (replicate 32 CHR ''a'') 1 ''NONE'' = Inr (h # map event_obj (fst (batch_records sample_batch)))
    \<and> parse_exchange (map Some (h # map event_obj (fst (batch_records sample_batch)))) (int 7) = None"
  by (rule window_accepted [OF sample_run no_hash sample_plausible]) (simp_all add: hex_of_length_def hex_digit_def BOUNDS_def list_all_iff)

section \<open>The template never carries addresses\<close>

lemma cut_subset: "cut sep xs = Some (a, b) \<Longrightarrow> set a \<subseteq> set xs \<and> set b \<subseteq> set xs"
  by (drule cut_Some) auto

lemma split_all_subset: "p \<in> set (split_all sep xs) \<Longrightarrow> set p \<subseteq> set xs"
proof (induction sep xs rule: split_all.induct)
  case (1 sep xs)
  show ?case
  proof (cases "cut sep xs")
    case None
    with 1(2) show ?thesis by (simp add: split_all.simps [of sep xs])
  next
    case (Some ab)
    obtain a b where ab: "ab = (a, b)" by (cases ab)
    with Some have sub: "set a \<subseteq> set xs \<and> set b \<subseteq> set xs" by (simp add: cut_subset)
    from 1(2) Some ab have "p = a \<or> length b < length xs \<and> p \<in> set (split_all sep b)"
      by (auto simp: split_all.simps [of sep xs] split: if_splits)
    with sub 1(1) [OF Some ab [symmetric]] show ?thesis by blast
  qed
qed

lemma joined_chars: "set (joined sep ws) \<subseteq> set sep \<union> (\<Union>w\<in>set ws. set w)"
  by (cases ws) (auto simp: joined_def)

lemma letter_apart: "is_alpha c \<Longrightarrow> \<not> is_digit c \<and> c \<notin> {CHR '' '', CHR ''.'', CHR ''/'', CHR ''@'', CHR '':''}"
  by (auto simp: is_alpha_def is_digit_def less_eq_char_def)

lemma blank_apart: "\<not> is_digit CHR '' '' \<and> \<not> hex_digit CHR '' '' \<and> \<not> is_alpha CHR '' ''"
  by (simp add: is_digit_def hex_digit_def is_alpha_def less_eq_char_def)

text \<open>A text of letters and blanks is only unsafe as one hexadecimal word or one long word.\<close>

lemma letters_safe:
  assumes "\<And>c. c \<in> set s \<Longrightarrow> is_alpha c \<or> c = CHR '' ''" and "residual_unsafe s"
  shows "CHR '' '' \<notin> set s \<and> (ipv6_like s \<or> high_entropy s)"
proof -
  have no: "c \<in> set s \<Longrightarrow> \<not> is_digit c \<and> c \<notin> {CHR ''.'', CHR ''/'', CHR ''@'', CHR '':''}" for c
    using assms(1) [of c] letter_apart [of c] blank_apart by auto
  have "\<not> host_like s" using no by (auto simp: host_like_def list_ex_iff)
  moreover have "\<not> digit_host_within s" using no by (auto simp: digit_host_within_def list_ex_iff)
  moreover have "\<not> ipv4_like s"
  proof
    assume v4: "ipv4_like s"
    then have "length (split_all ''.'' s) = 4 \<and> (\<forall>p\<in>set (split_all ''.'' s). 1 \<le> length p \<and> length p \<le> 3 \<and> list_all is_digit p)"
      unfolding ipv4_like_def list_all_iff .
    then have four: "length (split_all ''.'' s) = 4" and parts: "\<forall>p\<in>set (split_all ''.'' s). 1 \<le> length p \<and> length p \<le> 3 \<and> list_all is_digit p"
      by (rule conjunct1, rule conjunct2)
    define p where "p = hd (split_all ''.'' s)"
    from four have p: "p \<in> set (split_all ''.'' s)" unfolding p_def by (intro hd_in_set) force
    with parts have "p \<noteq> []" "list_all is_digit p" by force+
    then have "hd p \<in> set p" "is_digit (hd p)" by (simp_all add: list_all_iff)
    with split_all_subset [OF p] no show False by blast
  qed
  ultimately have bad: "ipv6_like s \<or> high_entropy s" using assms(2) no by (auto simp: residual_unsafe_def)
  moreover have "CHR '' '' \<notin> set s"
    using bad blank_apart by (auto simp: ipv6_like_def high_entropy_def list_all_iff)
  ultimately show ?thesis by simp
qed

text \<open>
  The hashed template is made of words only. It joins at most twenty-four words of one to twelve
  lower-case letters, none of them hexadecimal; no digit, dot, colon, slash or at sign of the message survives,
  and the residual check behind it never fires.
\<close>

theorem template_is_words_only:
  "length (kept_words text) \<le> 24 \<and> list_all (\<lambda>w. plain_word w \<and> \<not> ipv6_like w) (kept_words text)
    \<and> list_all (\<lambda>c. is_alpha c \<or> c = CHR '' '') (build_template text) \<and> \<not> residual_unsafe (build_template text)"
proof -
  have kept: "plain_word w \<and> \<not> residual_unsafe w" if "w \<in> set (kept_words text)" for w
    using that by (auto simp: kept_words_def dest: in_set_takeD)
  have letters: "is_alpha c \<or> c = CHR '' ''" if "c \<in> set (build_template text)" for c
  proof -
    from that joined_chars [of "'' ''" "kept_words text"] have "c \<in> set '' '' \<union> (\<Union>w\<in>set (kept_words text). set w)"
      unfolding build_template_def by (rule subsetD [rotated])
    with kept show ?thesis by (auto simp: plain_word_def list_all_iff)
  qed
  have "\<not> residual_unsafe (build_template text)"
  proof
    assume "residual_unsafe (build_template text)"
    from letters_safe [OF letters this] have one: "CHR '' '' \<notin> set (build_template text)"
      and bad: "ipv6_like (build_template text) \<or> high_entropy (build_template text)" by simp_all
    show False
    proof (cases "kept_words text")
      case Nil
      with bad show False by (simp add: build_template_def joined_def ipv6_like_def high_entropy_def)
    next
      case (Cons w ws)
      with one have "ws = []" by (cases ws) (simp_all add: build_template_def joined_def)
      with Cons have "build_template text = w" by (simp add: build_template_def joined_def)
      with bad kept [of w] Cons show False by (auto simp: residual_unsafe_def)
    qed
  qed
  moreover have "list_all (\<lambda>w. plain_word w \<and> \<not> ipv6_like w) (kept_words text)"
    using kept by (simp add: list_all_iff residual_unsafe_def)
  moreover have "length (kept_words text) \<le> 24" by (simp add: kept_words_def MAX_TEMPLATE_TOKENS_def)
  moreover have "list_all (\<lambda>c. is_alpha c \<or> c = CHR '' '') (build_template text)"
    using letters by (simp only: list_all_iff) blast
  ultimately show ?thesis by (intro conjI)
qed

section \<open>The backlog cap\<close>

definition unusable_line :: line where
  "unusable_line = Some (PDict [(PStr ''__CURSOR'', PStr ''s=1''), (PStr ''__REALTIME_TIMESTAMP'', PStr ''5000000'')])"

lemma unusable_step:
  "consume_lines hash b (unusable_line # ls) =
     consume_lines hash (b\<lparr>b_lines := b_lines b + 1, b_processed := b_processed b + 1, b_last := Some ''s=1'', b_pfail := b_pfail b + 1\<rparr>) ls"
proof -
  have t: "entry_ts [(PStr ''__CURSOR'', PStr ''s=1''), (PStr ''__REALTIME_TIMESTAMP'', PStr ''5000000'')] = Inr (Some 5)"
    by (simp add: entry_ts_def pget_or_def field_ts_def is_digit_def less_eq_char_def MAX_STR_DIGITS_def micros_def decimal_def int_to_float_def float_limit_def)
  then show ?thesis
    by (simp add: unusable_line_def pget_or_def validate_cursor_def CURSOR_MAX_BYTES_def processed_entry_def seen_line_def)
qed

lemma unusable_run:
  "\<exists>b'. consume_lines hash b (replicate n unusable_line) = Inr (b', False) \<and> b_processed b' = b_processed b + n"
proof (induction n arbitrary: b)
  case (Suc n)
  from Suc [of "b\<lparr>b_lines := b_lines b + 1, b_processed := b_processed b + 1, b_last := Some ''s=1'', b_pfail := b_pfail b + 1\<rparr>"]
  show ?case by (simp add: unusable_step del: consume_lines.simps(2))
qed simp

text \<open>
  Entries without a message escape the cap. The cap that guards a poll against a flood is only
  tested after an entry was absorbed, so a journal that keeps giving entries with a cursor and no message is
  read to its end, however long it is.
\<close>

theorem unusable_entries_escape_the_cap:
  "\<exists>b. consume_lines hash new_batch (replicate n unusable_line) = Inr (b, False) \<and> b_processed b = n"
  using unusable_run [of hash new_batch n] by (simp add: new_batch_def)

end
