(* ===== verification/Exchange.thy ===== *)
theory Exchange
  imports Reader
begin

text \<open>
  The durable state of the journal reader (\<open>journal_reader/state.py\<close>, the commit protocol, recovery,
  retention and reset of \<open>reader.py\<close>) and the monitor's side of the exchange (\<open>ingest_contract.py\<close>).
  A procedure is the list of durable operations it performs, in order, with its result: a crash or a failed
  write leaves exactly a prefix of them. Scratch files are not part of the state: they are never read.
\<close>

section \<open>Committed and pending state\<close>

datatype source = Cursor string | Since string

record committed =
  c_seq :: nat
  c_epoch :: nat
  c_boundary :: string
  c_source :: source

record pending =
  p_run :: string
  p_seq :: nat
  p_epoch :: nat
  p_boundary :: string
  p_end :: string

definition source_obj :: "source \<Rightarrow> pyval" where
  "source_obj s =
     (case s of
        Cursor v \<Rightarrow> PDict [(PStr ''mode'', PStr ''cursor''), (PStr ''value'', PStr v)]
      | Since v \<Rightarrow> PDict [(PStr ''mode'', PStr ''since''), (PStr ''value'', PStr v)])"

definition committed_obj :: "committed \<Rightarrow> pyval" where
  "committed_obj c =
     PDict [(PStr ''v'', PInt 1), (PStr ''seq'', PInt (int (c_seq c))), (PStr ''epoch'', PInt (int (c_epoch c))),
       (PStr ''boundary'', PStr (c_boundary c)), (PStr ''source'', source_obj (c_source c))]"

definition pending_obj :: "pending \<Rightarrow> pyval" where
  "pending_obj p =
     PDict [(PStr ''v'', PInt 1), (PStr ''run'', PStr (p_run p)), (PStr ''seq'', PInt (int (p_seq p))),
       (PStr ''epoch'', PInt (int (p_epoch p))), (PStr ''boundary'', PStr (p_boundary p)), (PStr ''source_end'', source_obj (Cursor (p_end p)))]"

text \<open>\<open>YYYY-MM-DD HH:MM:SS\<close>, with a date and a time that exist.\<close>

definition days_in_month :: "int \<Rightarrow> int \<Rightarrow> int" where
  "days_in_month y m =
     (if m = 2 then if y mod 4 = 0 \<and> (y mod 100 \<noteq> 0 \<or> y mod 400 = 0) then 29 else 28
      else if m \<in> {4, 6, 9, 11} then 30 else 31)"

definition since_shape :: "string \<Rightarrow> bool" where
  "since_shape s \<longleftrightarrow> in_turn [digits 4 4, lit ''-'', digits 2 2, lit ''-'', digits 2 2, lit '' '',
     digits 2 2, lit '':'', digits 2 2, lit '':'', digits 2 2] s = Some []"

definition number_at :: "nat \<Rightarrow> nat \<Rightarrow> string \<Rightarrow> int" where
  "number_at i n s = decimal (take n (drop i s))"

definition since_ok :: "string \<Rightarrow> bool" where
  "since_ok s \<longleftrightarrow> since_shape s \<and> 1 \<le> number_at 0 4 s \<and> 1 \<le> number_at 5 2 s \<and> number_at 5 2 s \<le> 12
     \<and> 1 \<le> number_at 8 2 s \<and> number_at 8 2 s \<le> days_in_month (number_at 0 4 s) (number_at 5 2 s)
     \<and> number_at 11 2 s \<le> 23 \<and> number_at 14 2 s \<le> 59 \<and> number_at 17 2 s \<le> 59"

definition validate_source :: "bool \<Rightarrow> pyval \<Rightarrow> bool" where
  "validate_source cursor_only v =
     (case v of
        PDict d \<Rightarrow>
          exact_keys d [''mode'', ''value'']
          \<and> (if pgetN d ''mode'' = PStr ''cursor'' then validate_cursor (pgetN d ''value'')
             else if cursor_only then False
             else if pgetN d ''mode'' = PStr ''since''
             then (case pgetN d ''value'' of PStr s \<Rightarrow> since_ok s | _ \<Rightarrow> False) else False)
      | _ \<Rightarrow> False)"

definition validate_committed :: "pyval \<Rightarrow> bool" where
  "validate_committed v =
     (case v of
        PDict d \<Rightarrow>
          exact_keys d [''v'', ''seq'', ''epoch'', ''boundary'', ''source''] \<and> is_one (pgetN d ''v'')
          \<and> at_least 0 (pgetN d ''seq'') \<and> at_least 1 (pgetN d ''epoch'') \<and> one_in BOUNDS (pgetN d ''boundary'')
          \<and> validate_source False (pgetN d ''source'')
      | _ \<Rightarrow> False)"

definition validate_pending :: "pyval \<Rightarrow> bool" where
  "validate_pending v =
     (case v of
        PDict d \<Rightarrow>
          exact_keys d [''v'', ''run'', ''seq'', ''epoch'', ''boundary'', ''source_end''] \<and> is_one (pgetN d ''v'')
          \<and> hex_of_length 32 (pgetN d ''run'') \<and> at_least 1 (pgetN d ''seq'') \<and> at_least 1 (pgetN d ''epoch'')
          \<and> one_in BOUNDS (pgetN d ''boundary'') \<and> validate_source True (pgetN d ''source_end'')
      | _ \<Rightarrow> False)"

text \<open>The fields of a validated object.\<close>

definition str_at :: "obj \<Rightarrow> string \<Rightarrow> string" where
  "str_at d k = (case pgetN d k of PStr s \<Rightarrow> s | _ \<Rightarrow> [])"

definition nat_at :: "obj \<Rightarrow> string \<Rightarrow> nat" where
  "nat_at d k = (case pgetN d k of PInt i \<Rightarrow> nat i | _ \<Rightarrow> 0)"

definition source_at :: "obj \<Rightarrow> string \<Rightarrow> source" where
  "source_at d k =
     (let s = dict_items (pgetN d k)
      in if pgetN s ''mode'' = PStr ''cursor'' then Cursor (str_at s ''value'') else Since (str_at s ''value''))"

definition committed_of :: "obj \<Rightarrow> committed" where
  "committed_of d = \<lparr>c_seq = nat_at d ''seq'', c_epoch = nat_at d ''epoch'', c_boundary = str_at d ''boundary'', c_source = source_at d ''source''\<rparr>"

definition pending_of :: "obj \<Rightarrow> pending" where
  "pending_of d = \<lparr>p_run = str_at d ''run'', p_seq = nat_at d ''seq'', p_epoch = nat_at d ''epoch'', p_boundary = str_at d ''boundary'',
     p_end = (case source_at d ''source_end'' of Cursor v \<Rightarrow> v | Since v \<Rightarrow> v)\<rparr>"

text \<open>A state file: absent, unreadable or not JSON, or the JSON value it holds.\<close>

datatype slot = Absent | Broken | Holds pyval

definition load_committed :: "slot \<Rightarrow> committed option res" where
  "load_committed s =
     (case s of
        Absent \<Rightarrow> Inr None
      | Broken \<Rightarrow> Inl (ReaderFailure CODE_STATE_CORRUPTION)
      | Holds v \<Rightarrow> if validate_committed v then Inr (Some (committed_of (dict_items v))) else Inl (ReaderFailure CODE_STATE_CORRUPTION))"

definition load_pending :: "slot \<Rightarrow> pending option res" where
  "load_pending s =
     (case s of
        Absent \<Rightarrow> Inr None
      | Broken \<Rightarrow> Inl (ReaderFailure CODE_STATE_CORRUPTION)
      | Holds v \<Rightarrow> if validate_pending v then Inr (Some (pending_of (dict_items v))) else Inl (ReaderFailure CODE_STATE_CORRUPTION))"

definition make_pending :: "string \<Rightarrow> committed \<Rightarrow> string \<Rightarrow> pending" where
  "make_pending run c stop = \<lparr>p_run = run, p_seq = c_seq c + 1, p_epoch = c_epoch c, p_boundary = c_boundary c, p_end = stop\<rparr>"

definition step4_committed :: "pending \<Rightarrow> committed" where
  "step4_committed p = \<lparr>c_seq = p_seq p, c_epoch = p_epoch p, c_boundary = ''NONE'', c_source = Cursor (p_end p)\<rparr>"

section \<open>The disk\<close>

text \<open>An exchange file: its lines as JSON values and its size in bytes.\<close>

type_synonym efile = "line list \<times> nat"

record disk =
  at_committed :: slot
  at_pending :: slot
  out :: "(nat, efile) dict"
  beat :: "nat option"

definition empty_disk :: disk where
  "empty_disk = \<lparr>at_committed = Absent, at_pending = Absent, out = [], beat = None\<rparr>"

datatype op = PutCommitted committed | PutPending pending | DropPending | PutFile nat efile | Evict nat | Beat nat

definition perform :: "disk \<Rightarrow> op \<Rightarrow> disk" where
  "perform d x =
     (case x of
        PutCommitted c \<Rightarrow> d\<lparr>at_committed := Holds (committed_obj c)\<rparr>
      | PutPending p \<Rightarrow> d\<lparr>at_pending := Holds (pending_obj p)\<rparr>
      | DropPending \<Rightarrow> d\<lparr>at_pending := Absent\<rparr>
      | PutFile n f \<Rightarrow> d\<lparr>out := dict_set n f (out d)\<rparr>
      | Evict n \<Rightarrow> d\<lparr>out := dict_del n (out d)\<rparr>
      | Beat n \<Rightarrow> d\<lparr>beat := Some n\<rparr>)"

abbreviation performs :: "disk \<Rightarrow> op list \<Rightarrow> disk" where
  "performs \<equiv> foldl perform"

text \<open>\<open>write_committed\<close> and \<open>write_pending\<close> refuse an invalid object with \<open>ValueError\<close>.\<close>

definition checked :: "bool \<Rightarrow> op list \<times> unit res \<Rightarrow> op list \<times> unit res" where
  "checked ok later = (if ok then later else ([], Inl (ValueError ''invalid'')))"

definition and_then :: "op \<Rightarrow> op list \<times> unit res \<Rightarrow> op list \<times> unit res" where
  "and_then x later = (x # fst later, snd later)"

section \<open>Retention\<close>

definition RETENTION_MAX_FILES :: nat where "RETENTION_MAX_FILES = 720"
definition RETENTION_MAX_BYTES :: nat where "RETENTION_MAX_BYTES = 8 * 1024 * 1024"

fun evictions :: "(nat \<times> nat) list \<Rightarrow> nat list" where
  "evictions [] = []"
| "evictions ((n, s) # es) =
     (if RETENTION_MAX_FILES < length ((n, s) # es) \<or> RETENTION_MAX_BYTES < sum_list (map snd ((n, s) # es))
      then n # evictions es else [])"

definition entries_of :: "disk \<Rightarrow> (nat \<times> nat) list" where
  "entries_of d = sort (map (\<lambda>(n, lines, bytes). (n, bytes)) (out d))"

definition enforce_retention :: "disk \<Rightarrow> op list" where
  "enforce_retention d = map Evict (evictions (entries_of d))"

section \<open>Recovery\<close>

datatype action = Start | FinishCommit | Repoll | FailClosed | FirstActivation

definition header_matches :: "disk \<Rightarrow> nat \<Rightarrow> string \<Rightarrow> nat \<Rightarrow> bool" where
  "header_matches d n run seq =
     (case dict_get (out d) n of
        None \<Rightarrow> False
      | Some (lines, _) \<Rightarrow>
          (case lines of
             Some v # _ \<Rightarrow> validate_header v \<and> pgetN (dict_items v) ''seq'' = PInt (int seq) \<and> pgetN (dict_items v) ''run'' = PStr run
           | _ \<Rightarrow> False))"

definition evaluate_recovery :: "committed option \<Rightarrow> pending option \<Rightarrow> disk \<Rightarrow> nat \<times> action" where
  "evaluate_recovery c p d =
     (let seqs = map fst (out d)
      in case c of
           None \<Rightarrow> if p = None \<and> seqs = [] then (7, FirstActivation) else (8, FailClosed)
         | Some com \<Rightarrow>
             (let cs = c_seq com; ev_next = cs + 1 \<in> set seqs; beyond = list_ex (\<lambda>n. cs + 1 < n) seqs
              in case p of
                   None \<Rightarrow> if ev_next then (6, FailClosed) else if beyond then (8, FailClosed) else (1, Start)
                 | Some pen \<Rightarrow>
                     if p_seq pen \<le> cs then (4, Repoll)
                     else if cs + 1 < p_seq pen then (5, FailClosed)
                     else if beyond then (8, FailClosed)
                     else if \<not> ev_next then (3, Repoll)
                     else if header_matches d (cs + 1) (p_run pen) (p_seq pen) then (2, FinishCommit)
                     else (6, FailClosed)))"

definition finish :: "disk \<Rightarrow> op list \<Rightarrow> op list \<times> unit res" where
  "finish d ops = (ops @ enforce_retention (performs d ops), Inr ())"

text \<open>\<open>startup\<close>, with the anchor that \<open>_capture_tail_anchor\<close> would give.\<close>

definition startup :: "source \<Rightarrow> disk \<Rightarrow> op list \<times> unit res" where
  "startup anchor d =
     (case load_committed (at_committed d) of
        Inl e \<Rightarrow> ([], Inl e)
      | Inr com \<Rightarrow>
          (case load_pending (at_pending d) of
             Inl e \<Rightarrow> ([], Inl e)
           | Inr pen \<Rightarrow>
               (case snd (evaluate_recovery com pen d) of
                  FailClosed \<Rightarrow> ([], Inl (ReaderFailure CODE_STATE_CORRUPTION))
                | FirstActivation \<Rightarrow>
                    (let c = \<lparr>c_seq = 0, c_epoch = 1, c_boundary = ''COLD_START'', c_source = anchor\<rparr>
                     in checked (validate_committed (committed_obj c)) (finish d [PutCommitted c]))
                | FinishCommit \<Rightarrow>
                    (case pen of
                       None \<Rightarrow> ([], Inr ())
                     | Some p \<Rightarrow> checked (validate_committed (committed_obj (step4_committed p)))
                                  (finish d [PutCommitted (step4_committed p), DropPending]))
                | Repoll \<Rightarrow> finish d (if pen = None then [] else [DropPending])
                | Start \<Rightarrow> finish d [])))"

section \<open>One cycle\<close>

text \<open>What the journal child of one poll gave: its lines, its exit code, and the size of the file made of them.\<close>

record poll =
  po_lines :: "line list"
  po_rc :: int
  po_size :: nat

definition commit_batch :: "string \<Rightarrow> committed \<Rightarrow> batch \<Rightarrow> nat \<Rightarrow> disk \<Rightarrow> op list \<times> unit res" where
  "commit_batch run c b size_bytes d =
     (let p = make_pending run c (or_empty (b_last b))
      in checked (validate_pending (pending_obj p)) (and_then (PutPending p)
           (case exchange_body b (p_seq p) run (p_epoch p) (p_boundary p) of
              Inl e \<Rightarrow> ([], Inl e)
            | Inr body \<Rightarrow>
                and_then (PutFile (p_seq p) (map Some body, size_bytes))
                  (checked (validate_committed (committed_obj (step4_committed p)))
                    (finish (performs d [PutPending p, PutFile (p_seq p) (map Some body, size_bytes)])
                       [PutCommitted (step4_committed p), DropPending, Beat (p_seq p)])))))"

definition finish_cycle :: "string \<Rightarrow> committed \<Rightarrow> batch \<Rightarrow> bool \<Rightarrow> poll \<Rightarrow> disk \<Rightarrow> op list \<times> unit res" where
  "finish_cycle run c b truncated q d =
     (if b_cursor_invalid b then ([], Inl (ReaderFailure CODE_CURSOR_INVALID))
      else if b_processed b = 0
      then (if truncated \<or> po_rc q \<noteq> 0 then ([], Inl (ReaderFailure CODE_SOURCE_UNAVAILABLE)) else ([Beat (c_seq c)], Inr ()))
      else if po_rc q \<noteq> 0 \<and> \<not> truncated then ([], Inl (ReaderFailure CODE_SOURCE_UNAVAILABLE))
      else commit_batch run c b (po_size q) d)"

text \<open>\<open>run_cycle\<close>: the poll is asked for the committed source.\<close>

definition run_cycle :: "(string \<Rightarrow> string) option \<Rightarrow> string \<Rightarrow> (source \<Rightarrow> poll res) \<Rightarrow> disk \<Rightarrow> op list \<times> unit res" where
  "run_cycle hash run journal d =
     (case load_committed (at_committed d) of
        Inl e \<Rightarrow> ([], Inl e)
      | Inr None \<Rightarrow> ([], Inl (ReaderFailure CODE_STATE_CORRUPTION))
      | Inr (Some c) \<Rightarrow>
          (case journal (c_source c) of
             Inl e \<Rightarrow> ([], Inl (ReaderFailure CODE_SOURCE_UNAVAILABLE))
           | Inr q \<Rightarrow>
               (case consume_lines hash new_batch (po_lines q) of
                  Inl e \<Rightarrow> ([], Inl e)
                | Inr (b, truncated) \<Rightarrow> finish_cycle run c b truncated q d)))"

text \<open>The operator's \<open>reset --from-now\<close>.\<close>

definition reset_from_now :: "source \<Rightarrow> disk \<Rightarrow> op list \<times> unit res" where
  "reset_from_now anchor d =
     (case (load_committed (at_committed d), load_pending (at_pending d)) of
        (Inr (Some c), Inr pen) \<Rightarrow>
          (let action = snd (evaluate_recovery (Some c) pen d);
               settle_first = action = Repoll \<and> pen \<noteq> None;
               reset = \<lparr>c_seq = c_seq c, c_epoch = c_epoch c + 1, c_boundary = ''SOURCE_GAP'', c_source = anchor\<rparr>;
               write = checked (validate_committed (committed_obj reset)) ([PutCommitted reset], Inr ())
           in if settle_first then and_then DropPending write
              else if action \<noteq> Start \<or> pen \<noteq> None then ([], Inl (ReaderFailure CODE_RESET_REFUSED))
              else write)
      | _ \<Rightarrow> ([], Inl (ReaderFailure CODE_RESET_REFUSED)))"

section \<open>State files\<close>

definition source_ok :: "source \<Rightarrow> bool" where
  "source_ok s = (case s of Cursor v \<Rightarrow> validate_cursor (PStr v) | Since v \<Rightarrow> since_ok v)"

definition committed_ok :: "committed \<Rightarrow> bool" where
  "committed_ok c \<longleftrightarrow> 0 < c_epoch c \<and> c_boundary c \<in> set BOUNDS \<and> source_ok (c_source c)"

definition pending_ok :: "pending \<Rightarrow> bool" where
  "pending_ok p \<longleftrightarrow> hex_of_length 32 (PStr (p_run p)) \<and> 0 < p_seq p \<and> 0 < p_epoch p \<and> p_boundary p \<in> set BOUNDS \<and> source_ok (Cursor (p_end p))"

lemma validate_source_obj: "validate_source False (source_obj s) = source_ok s" "validate_source True (source_obj (Cursor v)) = source_ok (Cursor v)"
  by (cases s) (simp_all add: validate_source_def source_obj_def exact_keys_def pget_or_def source_ok_def)

lemma validate_committed_obj: "validate_committed (committed_obj c) = committed_ok c"
  by (simp add: validate_committed_def committed_obj_def exact_keys_def pget_or_def committed_ok_def is_one_def at_least_def one_in_def
      validate_source_obj Suc_le_eq)

lemma validate_pending_obj: "validate_pending (pending_obj p) = pending_ok p"
  by (simp add: validate_pending_def pending_obj_def exact_keys_def pget_or_def pending_ok_def is_one_def at_least_def one_in_def
      validate_source_obj Suc_le_eq)

lemma source_at_obj: "pgetN d k = source_obj s \<Longrightarrow> source_at d k = s"
  by (cases s) (simp_all add: source_at_def source_obj_def pget_or_def str_at_def)

lemma committed_of_obj: "committed_of (dict_items (committed_obj c)) = c"
  by (simp add: committed_of_def committed_obj_def nat_at_def str_at_def pget_or_def source_at_obj [of _ _ "c_source c"])

lemma pending_of_obj: "pending_of (dict_items (pending_obj p)) = p"
  by (simp add: pending_of_def pending_obj_def nat_at_def str_at_def pget_or_def source_at_obj [of _ _ "Cursor (p_end p)"])

text \<open>What was written is what is loaded.\<close>

lemma load_written:
  "committed_ok c \<Longrightarrow> load_committed (Holds (committed_obj c)) = Inr (Some c)"
  "pending_ok p \<Longrightarrow> load_pending (Holds (pending_obj p)) = Inr (Some p)"
  "load_committed Absent = Inr None" "load_pending Absent = Inr None"
  by (simp_all add: load_committed_def load_pending_def validate_committed_obj validate_pending_obj committed_of_obj pending_of_obj)

section \<open>Exports\<close>

text \<open>
  A file that became durable in the exchange directory: its number, epoch and boundary, the source its entries
  were polled from and the cursor of its last entry.
\<close>

record export =
  x_seq :: nat
  x_epoch :: nat
  x_boundary :: string
  x_from :: source
  x_to :: string

type_synonym world = "disk \<times> export list"

definition export_of :: "committed \<Rightarrow> string \<Rightarrow> export" where
  "export_of c stop = \<lparr>x_seq = c_seq c + 1, x_epoch = c_epoch c, x_boundary = c_boundary c, x_from = c_source c, x_to = stop\<rparr>"

definition log_op :: "disk \<Rightarrow> op \<Rightarrow> export list" where
  "log_op d x =
     (case x of
        PutFile n f \<Rightarrow>
          (case (load_committed (at_committed d), load_pending (at_pending d)) of
             (Inr (Some c), Inr (Some p)) \<Rightarrow>
               [\<lparr>x_seq = n, x_epoch = p_epoch p, x_boundary = p_boundary p, x_from = c_source c, x_to = p_end p\<rparr>]
           | _ \<Rightarrow> [])
      | _ \<Rightarrow> [])"

definition act :: "world \<Rightarrow> op \<Rightarrow> world" where
  "act w x = (perform (fst w) x, snd w @ log_op (fst w) x)"

text \<open>The processes: starting the service, one turn of its loop, the operator's reset; each may be cut short.\<close>

datatype event = Boot string source nat | Turn "source \<Rightarrow> poll res" nat | Reset source nat

type_synonym system = "world \<times> string option"

definition cut_short :: "nat \<Rightarrow> op list \<times> unit res \<Rightarrow> op list \<times> bool" where
  "cut_short n proc = (take n (fst proc), length (fst proc) \<le> n \<and> snd proc = Inr ())"

definition happen :: "(string \<Rightarrow> string) option \<Rightarrow> system \<Rightarrow> event \<Rightarrow> system" where
  "happen hash s e =
     (case s of (w, alive) \<Rightarrow>
        (case e of
           Boot run anchor n \<Rightarrow>
             (let (ops, whole) = cut_short n (startup anchor (fst w)) in (foldl act w ops, if whole then Some run else None))
         | Turn journal n \<Rightarrow>
             (case alive of
                None \<Rightarrow> s
              | Some run \<Rightarrow>
                  (let (ops, whole) = cut_short n (run_cycle hash run journal (fst w)) in (foldl act w ops, if whole then Some run else None)))
         | Reset anchor n \<Rightarrow>
             (let (ops, whole) = cut_short n (reset_from_now anchor (fst w)) in (foldl act w ops, None))))"

definition fresh :: system where
  "fresh = ((empty_disk, []), None)"

text \<open>An export follows the one before it: the same epoch and the very next entries, or a new epoch behind a marked gap.\<close>

definition joins :: "export option \<Rightarrow> export \<Rightarrow> bool" where
  "joins prev x =
     (case prev of
        None \<Rightarrow> x_boundary x \<noteq> ''NONE''
      | Some a \<Rightarrow> x_epoch x = x_epoch a \<and> x_boundary x = ''NONE'' \<and> x_from x = Cursor (x_to a)
          \<or> x_epoch a < x_epoch x \<and> x_boundary x = ''SOURCE_GAP'')"

definition newest :: "'a list \<Rightarrow> 'a option" where
  "newest xs = (if xs = [] then None else Some (last xs))"

fun linked_from :: "nat \<Rightarrow> export option \<Rightarrow> export list \<Rightarrow> bool" where
  "linked_from n prev [] = True"
| "linked_from n prev (x # xs) = (x_seq x = n \<and> joins prev x \<and> linked_from (Suc n) (Some x) xs)"

definition linked :: "export list \<Rightarrow> bool" where
  "linked xs = linked_from 1 None xs"

lemma linked_from_snoc:
  "linked_from n prev (xs @ [x]) \<longleftrightarrow>
     linked_from n prev xs \<and> x_seq x = n + length xs \<and> joins (if xs = [] then prev else Some (last xs)) x"
  by (induction xs arbitrary: n prev) (auto simp del: One_nat_def)

lemma linked_snoc: "linked (xs @ [x]) \<longleftrightarrow> linked xs \<and> x_seq x = Suc (length xs) \<and> joins (newest xs) x"
  by (simp add: linked_def linked_from_snoc newest_def)

section \<open>The invariant\<close>

definition pending_at_most :: "nat \<Rightarrow> slot \<Rightarrow> bool" where
  "pending_at_most n s \<longleftrightarrow> s = Absent \<or> (\<exists>p. s = Holds (pending_obj p) \<and> pending_ok p \<and> p_seq p \<le> n)"

definition quiet :: "committed \<Rightarrow> world \<Rightarrow> bool" where
  "quiet c w \<longleftrightarrow> at_committed (fst w) = Holds (committed_obj c) \<and> committed_ok c
     \<and> pending_at_most (c_seq c + 1) (at_pending (fst w)) \<and> (\<forall>n\<in>fst ` set (out (fst w)). n \<le> c_seq c)
     \<and> length (snd w) = c_seq c \<and> linked (snd w) \<and> (\<forall>stop. joins (newest (snd w)) (export_of c stop))"

definition in_flight :: "committed \<Rightarrow> pending \<Rightarrow> world \<Rightarrow> bool" where
  "in_flight c p w \<longleftrightarrow> at_committed (fst w) = Holds (committed_obj c) \<and> committed_ok c
     \<and> at_pending (fst w) = Holds (pending_obj p) \<and> pending_ok p \<and> p_seq p = c_seq c + 1 \<and> p_epoch p = c_epoch c
     \<and> (\<forall>n\<in>fst ` set (out (fst w)). n \<le> c_seq c + 1) \<and> header_matches (fst w) (c_seq c + 1) (p_run p) (p_seq p)
     \<and> length (snd w) = c_seq c + 1 \<and> linked (snd w) \<and> last (snd w) = export_of c (p_end p)"

definition virgin :: "world \<Rightarrow> bool" where
  "virgin w \<longleftrightarrow> at_committed (fst w) = Absent \<and> at_pending (fst w) = Absent \<and> out (fst w) = [] \<and> snd w = []"

definition sound :: "world \<Rightarrow> bool" where
  "sound w \<longleftrightarrow> virgin w \<or> (\<exists>c. quiet c w) \<or> (\<exists>c p. in_flight c p w)"

text \<open>The epoch and boundary that the header of a file names.\<close>

definition header_names :: "efile \<Rightarrow> nat \<Rightarrow> string \<Rightarrow> bool" where
  "header_names f epoch boundary =
     (case fst f of
        Some v # _ \<Rightarrow> pgetN (dict_items v) ''epoch'' = PInt (int epoch) \<and> pgetN (dict_items v) ''boundary'' = PStr boundary
      | _ \<Rightarrow> False)"

text \<open>The operations the protocol allows in a state.\<close>

inductive legal :: "world \<Rightarrow> op \<Rightarrow> bool" where
  activate: "virgin w \<Longrightarrow> committed_ok c \<Longrightarrow> c_seq c = 0 \<Longrightarrow> c_boundary c = ''COLD_START'' \<Longrightarrow> legal w (PutCommitted c)"
| commit: "in_flight c p w \<Longrightarrow> legal w (PutCommitted (step4_committed p))"
| reset: "quiet c w \<Longrightarrow> committed_ok c' \<Longrightarrow> c_seq c' = c_seq c \<Longrightarrow> c_epoch c' = Suc (c_epoch c) \<Longrightarrow>
    c_boundary c' = ''SOURCE_GAP'' \<Longrightarrow> legal w (PutCommitted c')"
| intend: "quiet c w \<Longrightarrow> at_pending (fst w) = Absent \<Longrightarrow> pending_ok (make_pending run c stop) \<Longrightarrow> legal w (PutPending (make_pending run c stop))"
| settle: "quiet c w \<Longrightarrow> legal w DropPending"
| export: "quiet c w \<Longrightarrow> at_pending (fst w) = Holds (pending_obj p) \<Longrightarrow> pending_ok p \<Longrightarrow> p = make_pending run c stop \<Longrightarrow>
    header_matches (perform (fst w) (PutFile (c_seq c + 1) f)) (c_seq c + 1) run (c_seq c + 1) \<Longrightarrow>
    header_names f (c_epoch c) (c_boundary c) \<Longrightarrow> legal w (PutFile (c_seq c + 1) f)"
| evict: "quiet c w \<Longrightarrow> legal w (Evict n)"
| pulse: "quiet c w \<Longrightarrow> legal w (Beat n)"

lemma joins_ge: "joins prev x \<Longrightarrow> (case prev of None \<Rightarrow> True | Some a \<Rightarrow> x_epoch a \<le> x_epoch x)"
  by (auto simp: joins_def split: option.splits)

lemma reset_joins:
  assumes "joins prev (export_of c stop)" "c_epoch c' = Suc (c_epoch c)" "c_boundary c' = ''SOURCE_GAP''"
  shows "joins prev (export_of c' stop')"
proof (cases prev)
  case (Some a)
  with joins_ge [OF assms(1)] have "x_epoch a \<le> c_epoch c" by (simp add: export_of_def)
  with assms(2,3) Some show ?thesis by (simp add: joins_def export_of_def)
qed (simp add: joins_def export_of_def assms)

lemma legal_sound:
  assumes "legal w x"
  shows "sound (act w x)"
  using assms
proof (cases rule: legal.cases)
  case (activate c)
  then have "quiet c (act w x)"
    by (simp add: quiet_def virgin_def act_def perform_def log_op_def pending_at_most_def linked_def newest_def joins_def export_of_def)
  then show ?thesis by (auto simp: sound_def)
next
  case (commit c p)
  then have "quiet (step4_committed p) (act w x)"
    by (simp add: quiet_def in_flight_def act_def perform_def log_op_def pending_at_most_def step4_committed_def)
       (auto simp: committed_ok_def pending_ok_def BOUNDS_def joins_def newest_def export_of_def)
  then show ?thesis by (auto simp: sound_def)
next
  case (reset c c')
  then have "quiet c' (act w x)"
    by (simp add: quiet_def act_def perform_def log_op_def) (metis reset_joins)
  then show ?thesis by (auto simp: sound_def)
next
  case (intend c run stop)
  then have "quiet c (act w x)"
    by (simp add: quiet_def act_def perform_def log_op_def pending_at_most_def) (auto simp: make_pending_def)
  then show ?thesis by (auto simp: sound_def)
next
  case (settle c)
  then have "quiet c (act w x)"
    by (simp add: quiet_def act_def perform_def log_op_def pending_at_most_def)
  then show ?thesis by (auto simp: sound_def)
next
  case (export c p run stop f)
  from export(2) have q: "at_committed (fst w) = Holds (committed_obj c)" "committed_ok c" by (simp_all add: quiet_def)
  have "log_op (fst w) x = [export_of c stop]"
    unfolding log_op_def export(1) using q export(3,4,5) by (simp add: load_written make_pending_def export_of_def)
  with export have "in_flight c p (act w x)"
    by (simp add: in_flight_def quiet_def act_def perform_def linked_snoc) (auto simp: make_pending_def export_of_def)
  then show ?thesis by (auto simp: sound_def)
next
  case (evict c n)
  then have "quiet c (act w x)"
    by (simp add: quiet_def act_def perform_def log_op_def) (auto simp: AList.delete_eq)
  then show ?thesis by (auto simp: sound_def)
next
  case (pulse c n)
  then have "quiet c (act w x)"
    by (simp add: quiet_def act_def perform_def log_op_def)
  then show ?thesis by (auto simp: sound_def)
qed

interpretation protocol: machine act sound legal
  by unfold_locales (rule legal_sound)

section \<open>The procedures follow the protocol\<close>

lemma fst_acts: "fst (foldl act w xs) = performs (fst w) xs"
  by (induction xs arbitrary: w) (simp_all add: act_def)

definition at_rest :: "committed \<Rightarrow> world \<Rightarrow> bool" where
  "at_rest c w \<longleftrightarrow> quiet c w \<and> at_pending (fst w) = Absent"

lemma evict_run:
  "at_rest c w \<Longrightarrow> run_ok act legal w (map Evict ns) \<and> at_rest c (foldl act w (map Evict ns))"
proof (induction ns arbitrary: w)
  case (Cons n ns)
  then have l: "legal w (Evict n)" by (auto simp: at_rest_def intro: legal.evict)
  have "at_rest c (act w (Evict n))"
    using Cons.prems by (simp add: at_rest_def quiet_def act_def perform_def log_op_def) (auto simp: AList.delete_eq)
  from Cons.IH [OF this] l show ?case by simp
qed simp

lemma finish_run:
  assumes "run_ok act legal w ops" "at_rest c (foldl act w ops)"
  shows "run_ok act legal w (fst (finish (fst w) ops)) \<and> at_rest c (foldl act w (fst (finish (fst w) ops))) \<and> snd (finish (fst w) ops) = Inr ()"
  using assms evict_run [OF assms(2), of "evictions (entries_of (performs (fst w) ops))"]
  by (simp add: finish_def enforce_retention_def run_ok_append)

lemma settle_rest: "quiet c w \<Longrightarrow> at_rest c (act w DropPending)"
  by (simp add: at_rest_def quiet_def act_def perform_def log_op_def pending_at_most_def)

lemma commit_quiet:
  assumes "in_flight c p w"
  shows "quiet (step4_committed p) (act w (PutCommitted (step4_committed p)))"
  using assms
  by (simp add: quiet_def in_flight_def act_def perform_def log_op_def pending_at_most_def step4_committed_def)
     (auto simp: committed_ok_def pending_ok_def BOUNDS_def joins_def newest_def export_of_def)

lemma commit_run:
  assumes "in_flight c p w"
  shows "run_ok act legal w [PutCommitted (step4_committed p), DropPending]
    \<and> at_rest (step4_committed p) (foldl act w [PutCommitted (step4_committed p), DropPending])"
  using commit_quiet [OF assms] settle_rest [OF commit_quiet [OF assms]]
  by (simp add: legal.commit [OF assms] legal.settle [OF commit_quiet [OF assms]])

lemma step4_ok: "pending_ok p \<Longrightarrow> committed_ok (step4_committed p)"
  by (simp add: pending_ok_def committed_ok_def step4_committed_def BOUNDS_def)

definition follows_protocol :: "world \<Rightarrow> op list \<times> unit res \<Rightarrow> bool" where
  "follows_protocol w proc \<longleftrightarrow> run_ok act legal w (fst proc) \<and> (snd proc = Inr () \<longrightarrow> (\<exists>c. at_rest c (foldl act w (fst proc))))"

lemma follows_failed [simp]: "follows_protocol w ([], Inl e)"
  by (simp add: follows_protocol_def)

lemma follows_finish: "run_ok act legal w ops \<Longrightarrow> at_rest c (foldl act w ops) \<Longrightarrow> follows_protocol w (finish (fst w) ops)"
  using finish_run [of w ops c] by (auto simp: follows_protocol_def)

lemma load_quiet: "quiet c w \<Longrightarrow> load_committed (at_committed (fst w)) = Inr (Some c)"
  by (simp add: quiet_def load_written)

lemma load_pending_quiet:
  assumes "quiet c w"
  obtains "at_pending (fst w) = Absent" "load_pending (at_pending (fst w)) = Inr None"
  | p where "at_pending (fst w) = Holds (pending_obj p)" "load_pending (at_pending (fst w)) = Inr (Some p)" "p_seq p \<le> c_seq c + 1"
  using assms by (auto simp: quiet_def pending_at_most_def load_written)

lemma quiet_keys:
  assumes "quiet c w"
  shows "c_seq c + 1 \<notin> set (map fst (out (fst w))) \<and> \<not> list_ex (\<lambda>n. c_seq c + 1 < n) (map fst (out (fst w)))"
  using assms by (fastforce simp: quiet_def list_ex_iff)

lemma recovery_quiet:
  assumes "quiet c w"
  shows "snd (evaluate_recovery (Some c) None (fst w)) = Start"
    "p_seq p \<le> c_seq c + 1 \<Longrightarrow> snd (evaluate_recovery (Some c) (Some p) (fst w)) = Repoll"
  using quiet_keys [OF assms] by (simp_all add: evaluate_recovery_def Let_def)

lemma recovery_in_flight:
  assumes "in_flight c p w"
  shows "snd (evaluate_recovery (Some c) (Some p) (fst w)) = FinishCommit"
proof -
  have h: "header_matches (fst w) (c_seq c + 1) (p_run p) (p_seq p)" and n: "p_seq p = c_seq c + 1" and
    k: "\<forall>n\<in>fst ` set (out (fst w)). n \<le> c_seq c + 1" using assms unfolding in_flight_def by blast+
  from h have "dict_get (out (fst w)) (c_seq c + 1) \<noteq> None" by (auto simp: header_matches_def split: option.splits)
  then have "c_seq c + 1 \<in> set (map fst (out (fst w)))" by (simp add: map_of_eq_None_iff)
  moreover have "\<not> list_ex (\<lambda>n. c_seq c + 1 < n) (map fst (out (fst w)))" using k by (fastforce simp: list_ex_iff)
  ultimately show ?thesis using h n by (simp add: evaluate_recovery_def Let_def)
qed

lemma startup_virgin:
  assumes "virgin w"
  shows "follows_protocol w (startup anchor (fst w)) \<and> (source_ok anchor \<longrightarrow> snd (startup anchor (fst w)) = Inr ())
    \<and> snd (startup anchor (fst w)) \<noteq> Inl (ReaderFailure e)"
proof -
  define c where "c = \<lparr>c_seq = 0, c_epoch = 1, c_boundary = ''COLD_START'', c_source = anchor\<rparr>"
  have s: "startup anchor (fst w) = checked (committed_ok c) (finish (fst w) [PutCommitted c])"
    using assms by (simp add: startup_def virgin_def load_written evaluate_recovery_def c_def validate_committed_obj Let_def)
  show ?thesis
  proof (cases "committed_ok c")
    case True
    then have l: "legal w (PutCommitted c)" by (intro legal.activate [OF assms]) (simp_all add: c_def)
    have "at_rest c (act w (PutCommitted c))"
      using assms True by (simp add: at_rest_def quiet_def virgin_def act_def perform_def log_op_def pending_at_most_def linked_def newest_def
          joins_def export_of_def c_def)
    with l have "follows_protocol w (finish (fst w) [PutCommitted c])" by (intro follows_finish) simp_all
    then show ?thesis by (simp add: s True checked_def finish_def)
  next
    case False
    then have "\<not> source_ok anchor" by (simp add: committed_ok_def c_def BOUNDS_def)
    with False show ?thesis by (simp add: s checked_def)
  qed
qed

lemma startup_quiet:
  assumes "quiet c w"
  shows "follows_protocol w (startup anchor (fst w)) \<and> snd (startup anchor (fst w)) = Inr ()"
  using assms
proof (cases rule: load_pending_quiet)
  case 1
  then have "startup anchor (fst w) = finish (fst w) []"
    by (simp add: startup_def load_quiet [OF assms] recovery_quiet(1) [OF assms])
  moreover have "at_rest c w" using assms 1 by (simp add: at_rest_def)
  then have "follows_protocol w (finish (fst w) [])" by (intro follows_finish) simp_all
  ultimately show ?thesis by (simp add: finish_def)
next
  case (2 p)
  then have "startup anchor (fst w) = finish (fst w) [DropPending]"
    by (simp add: startup_def load_quiet [OF assms] recovery_quiet(2) [OF assms])
  moreover have "follows_protocol w (finish (fst w) [DropPending])"
    by (intro follows_finish [where c = c]) (simp_all add: legal.settle [OF assms] settle_rest [OF assms])
  ultimately show ?thesis by (simp add: finish_def)
qed

lemma startup_in_flight:
  assumes "in_flight c p w"
  shows "follows_protocol w (startup anchor (fst w)) \<and> snd (startup anchor (fst w)) = Inr ()"
proof -
  have q: "at_committed (fst w) = Holds (committed_obj c)" "committed_ok c" "at_pending (fst w) = Holds (pending_obj p)" "pending_ok p"
    using assms by (simp_all add: in_flight_def)
  then have "startup anchor (fst w) = finish (fst w) [PutCommitted (step4_committed p), DropPending]"
    by (simp add: startup_def load_written recovery_in_flight [OF assms] checked_def validate_committed_obj step4_ok)
  moreover have "follows_protocol w (finish (fst w) [PutCommitted (step4_committed p), DropPending])"
    using commit_run [OF assms] by (intro follows_finish) auto
  ultimately show ?thesis by (simp add: finish_def)
qed

lemma startup_follows: "sound w \<Longrightarrow> follows_protocol w (startup anchor (fst w))"
  unfolding sound_def using startup_virgin startup_quiet startup_in_flight by blast


text \<open>One turn of the loop, from a state at rest.\<close>

lemma exchange_body_header:
  "exchange_body b n run epoch boundary = Inr body \<Longrightarrow>
     \<exists>h es. body = h # es \<and> validate_header h \<and> pgetN (dict_items h) ''seq'' = PInt (int n) \<and> pgetN (dict_items h) ''run'' = PStr run
       \<and> pgetN (dict_items h) ''epoch'' = PInt (int epoch) \<and> pgetN (dict_items h) ''boundary'' = PStr boundary"
  by (auto simp: exchange_body_def Let_def header_obj_def pget_or_def split: prod.splits if_splits)

lemma intend_rest:
  assumes "at_rest c w" "pending_ok (make_pending run c stop)"
  shows "legal w (PutPending (make_pending run c stop))" "quiet c (act w (PutPending (make_pending run c stop)))"
    "at_pending (fst (act w (PutPending (make_pending run c stop)))) = Holds (pending_obj (make_pending run c stop))"
proof -
  from assms(1) have q: "quiet c w" "at_pending (fst w) = Absent" by (simp_all add: at_rest_def)
  show "legal w (PutPending (make_pending run c stop))" by (rule legal.intend [OF q assms(2)])
  show "quiet c (act w (PutPending (make_pending run c stop)))"
    using q(1) assms(2) by (simp add: quiet_def act_def perform_def log_op_def pending_at_most_def) (auto simp: make_pending_def)
  show "at_pending (fst (act w (PutPending (make_pending run c stop)))) = Holds (pending_obj (make_pending run c stop))"
    by (simp add: act_def perform_def)
qed

lemma export_step:
  assumes q: "quiet c w" "at_pending (fst w) = Holds (pending_obj p)" "pending_ok p" and p: "p = make_pending run c stop"
    and h: "header_matches (perform (fst w) (PutFile (c_seq c + 1) f)) (c_seq c + 1) run (c_seq c + 1)"
  shows "in_flight c p (act w (PutFile (c_seq c + 1) f))"
proof -
  have "at_committed (fst w) = Holds (committed_obj c)" "committed_ok c" using q(1) by (simp_all add: quiet_def)
  then have "log_op (fst w) (PutFile (c_seq c + 1) f) = [export_of c stop]"
    unfolding log_op_def using q(2,3) p by (simp add: load_written make_pending_def export_of_def)
  with q h p show ?thesis
    by (simp add: in_flight_def quiet_def act_def perform_def linked_snoc) (auto simp: make_pending_def export_of_def)
qed

lemma beat_rest: "at_rest c w \<Longrightarrow> at_rest c (act w (Beat n))"
  by (simp add: at_rest_def quiet_def act_def perform_def log_op_def pending_at_most_def)

lemma other_ops_log: "(\<And>n f. PutFile n f \<notin> set ops) \<Longrightarrow> snd (foldl act w ops) = snd w"
proof (induction ops arbitrary: w)
  case (Cons x ops)
  have "snd (act w x) = snd w"
  proof (cases x)
    case (PutFile n f)
    with Cons.prems [of n f] show ?thesis by simp
  qed (simp_all add: act_def log_op_def)
  moreover have "snd (foldl act (act w x) ops) = snd (act w x)" by (rule Cons.IH) (use Cons.prems in auto)
  ultimately show ?case by simp
qed simp

lemma commit_batch_done:
  assumes "at_rest c w" and p_def: "p = make_pending run c (or_empty (b_last b))" and ok: "pending_ok p"
    and body: "exchange_body b (p_seq p) run (p_epoch p) (p_boundary p) = Inr body"
  shows "run_ok act legal w (fst (commit_batch run c b size_bytes (fst w)))
    \<and> at_rest (step4_committed p) (foldl act w (fst (commit_batch run c b size_bytes (fst w))))
    \<and> snd (commit_batch run c b size_bytes (fst w)) = Inr ()
    \<and> snd (foldl act w (fst (commit_batch run c b size_bytes (fst w)))) = snd w @ [export_of c (p_end p)]"
proof -
  define w1 where "w1 = act w (PutPending p)"
  from intend_rest [OF assms(1) ok [unfolded p_def]] have intend: "legal w (PutPending p)" "quiet c w1" "at_pending (fst w1) = Holds (pending_obj p)"
    by (simp_all add: p_def w1_def)
  have p1: "p_seq p = c_seq c + 1" "p_run p = run" by (simp_all add: p_def make_pending_def)
  define f where "f = (map Some body, size_bytes)"
  from exchange_body_header [OF body] obtain h es where b: "body = h # es" "validate_header h"
    "pgetN (dict_items h) ''seq'' = PInt (int (p_seq p))" "pgetN (dict_items h) ''run'' = PStr run"
    "pgetN (dict_items h) ''epoch'' = PInt (int (p_epoch p))" "pgetN (dict_items h) ''boundary'' = PStr (p_boundary p)" by auto
  have m: "header_matches (perform (fst w1) (PutFile (c_seq c + 1) f)) (c_seq c + 1) run (c_seq c + 1)"
    using b p1 by (simp add: header_matches_def perform_def f_def)
  have put: "legal w1 (PutFile (p_seq p) f)"
    unfolding p1(1) by (rule legal.export [OF intend(2,3) ok p_def m])
      (use b in \<open>simp add: header_names_def f_def p_def make_pending_def\<close>)
  define w2 where "w2 = act w1 (PutFile (p_seq p) f)"
  from export_step [OF intend(2,3) ok p_def m] have fl: "in_flight c p w2" by (simp add: p1 w2_def)
  define ops where "ops = [PutCommitted (step4_committed p), DropPending, Beat (p_seq p)]"
  from commit_run [OF fl] have c4: "run_ok act legal w2 [PutCommitted (step4_committed p), DropPending]"
    "at_rest (step4_committed p) (foldl act w2 [PutCommitted (step4_committed p), DropPending])" by simp_all
  have "legal (foldl act w2 [PutCommitted (step4_committed p), DropPending]) (Beat (p_seq p))"
    using c4(2) unfolding at_rest_def by (elim conjE) (rule legal.pulse)
  with c4 have run2: "run_ok act legal w2 ops" "at_rest (step4_committed p) (foldl act w2 ops)"
    using beat_rest [OF c4(2)] by (simp_all add: ops_def)
  note fin = finish_run [OF run2]
  have w2: "fst w2 = performs (fst w) [PutPending p, PutFile (p_seq p) f]" by (simp add: w2_def w1_def act_def)
  have cb: "commit_batch run c b size_bytes (fst w) = and_then (PutPending p) (and_then (PutFile (p_seq p) f) (finish (fst w2) ops))"
    using ok body step4_ok [OF ok] unfolding w2 ops_def
    by (simp add: commit_batch_def Let_def checked_def validate_pending_obj validate_committed_obj f_def flip: p_def)
  have "snd (foldl act w2 (fst (finish (fst w2) ops))) = snd w2"
    by (rule other_ops_log) (auto simp: finish_def ops_def enforce_retention_def)
  moreover have "snd w2 = snd w @ [export_of c (p_end p)]"
  proof -
    have "length (snd w2) = Suc (length (snd w))" "last (snd w2) = export_of c (p_end p)" "snd w2 \<noteq> []"
      using fl assms(1) by (auto simp: in_flight_def at_rest_def quiet_def)
    moreover have "snd w1 = snd w" by (simp add: w1_def act_def log_op_def)
    then have "\<exists>l. snd w2 = snd w @ l" by (simp add: w2_def act_def)
    then obtain l where "snd w2 = snd w @ l" by blast
    moreover from this calculation(1) obtain x where "l = [x]" by (cases l) auto
    ultimately show ?thesis by simp
  qed
  ultimately show ?thesis unfolding cb using intend(1) put fin
    by (simp add: and_then_def flip: w1_def w2_def)
qed

lemma commit_batch_follows:
  assumes "at_rest c w"
  shows "follows_protocol w (commit_batch run c b size_bytes (fst w))"
proof (cases "pending_ok (make_pending run c (or_empty (b_last b)))")
  case False
  then show ?thesis by (simp add: commit_batch_def checked_def validate_pending_obj)
next
  case True
  define p where "p = make_pending run c (or_empty (b_last b))"
  have ok: "pending_ok p" using True by (simp add: p_def)
  show ?thesis
  proof (cases "exchange_body b (p_seq p) run (p_epoch p) (p_boundary p)")
    case (Inl e)
    have "legal w (PutPending p)" using intend_rest(1) [OF assms True] by (simp add: p_def)
    with ok Inl show ?thesis
      by (simp add: commit_batch_def Let_def checked_def validate_pending_obj and_then_def follows_protocol_def flip: p_def)
  next
    case (Inr body)
    from commit_batch_done [OF assms p_def ok Inr] show ?thesis by (auto simp: follows_protocol_def)
  qed
qed

lemma run_cycle_follows:
  assumes "at_rest c w"
  shows "follows_protocol w (run_cycle hash run journal (fst w))"
proof -
  have "load_committed (at_committed (fst w)) = Inr (Some c)" using assms by (simp add: at_rest_def load_quiet)
  moreover have "legal w (Beat (c_seq c)) \<and> at_rest c (act w (Beat (c_seq c)))"
    using beat_rest [OF assms] assms by (auto simp: at_rest_def intro: legal.pulse)
  then have "follows_protocol w ([Beat (c_seq c)], Inr ())" by (auto simp: follows_protocol_def)
  then have "follows_protocol w (finish_cycle run c b truncated q (fst w))" for b truncated q
    using commit_batch_follows [OF assms] by (simp add: finish_cycle_def)
  ultimately show ?thesis by (simp add: run_cycle_def split: sum.split prod.split)
qed

lemma reset_write:
  assumes "quiet c w" "c' = \<lparr>c_seq = c_seq c, c_epoch = c_epoch c + 1, c_boundary = ''SOURCE_GAP'', c_source = anchor\<rparr>"
  shows "run_ok act legal w (fst (checked (validate_committed (committed_obj c')) ([PutCommitted c'], Inr ())))"
  using legal.reset [OF assms(1), of c'] assms(2) by (simp add: checked_def validate_committed_obj)

lemma reset_legal:
  assumes "sound w"
  shows "run_ok act legal w (fst (reset_from_now anchor (fst w)))"
  using assms unfolding sound_def
proof (elim disjE exE)
  assume "virgin w"
  then show ?thesis by (simp add: reset_from_now_def virgin_def load_written)
next
  fix c p assume fl: "in_flight c p w"
  then have q: "at_committed (fst w) = Holds (committed_obj c)" "committed_ok c" "at_pending (fst w) = Holds (pending_obj p)" "pending_ok p"
    by (simp_all add: in_flight_def)
  then show ?thesis by (simp add: reset_from_now_def load_written recovery_in_flight [OF fl] Let_def)
next
  fix c assume q: "quiet c w"
  from q show ?thesis
  proof (cases rule: load_pending_quiet)
    case 1
    with reset_write [OF q refl] show ?thesis
      by (simp add: reset_from_now_def load_quiet [OF q] recovery_quiet(1) [OF q] Let_def)
  next
    case (2 p)
    have s: "legal w DropPending" "quiet c (act w DropPending)" using settle_rest [OF q] legal.settle [OF q] by (simp_all add: at_rest_def)
    with 2 reset_write [OF s(2) refl] show ?thesis
      by (simp add: reset_from_now_def load_quiet [OF q] recovery_quiet(2) [OF q] Let_def and_then_def)
  qed
qed

section \<open>Histories\<close>

definition system_ok :: "system \<Rightarrow> bool" where
  "system_ok s \<longleftrightarrow> sound (fst s) \<and> (snd s \<noteq> None \<longrightarrow> (\<exists>c. at_rest c (fst s)))"

lemma rest_sound: "at_rest c w \<Longrightarrow> sound w"
  by (auto simp: at_rest_def sound_def)

lemma cut_short_ok:
  assumes "sound w" "follows_protocol w proc" "cut_short n proc = (ops, whole)"
  shows "system_ok (foldl act w ops, if whole then Some run else None)"
proof -
  have ops: "ops = take n (fst proc)" "whole = (length (fst proc) \<le> n \<and> snd proc = Inr ())" using assms(3) by (simp_all add: cut_short_def)
  have "run_ok act legal w (take n (fst proc))" using assms(2) by (simp add: follows_protocol_def run_ok_take)
  from protocol.run_inv [OF assms(1) this] assms(2) show ?thesis by (auto simp: system_ok_def ops follows_protocol_def)
qed

lemma happen_ok: "system_ok s \<Longrightarrow> system_ok (happen hash s e)"
proof -
  assume ok: "system_ok s"
  obtain w alive where s: "s = (w, alive)" by (cases s)
  have sw: "sound w" using ok by (simp add: system_ok_def s)
  show ?thesis
  proof (cases e)
    case (Boot run anchor n)
    obtain ops whole where c: "cut_short n (startup anchor (fst w)) = (ops, whole)" by (rule prod.exhaust)
    from cut_short_ok [OF sw startup_follows [OF sw] c] show ?thesis by (simp add: happen_def s Boot c)
  next
    case (Turn journal n)
    show ?thesis
    proof (cases alive)
      case None
      with ok show ?thesis by (simp add: happen_def s Turn)
    next
      case (Some run)
      with ok s obtain k where "at_rest k w" by (auto simp: system_ok_def)
      from run_cycle_follows [OF this] have f: "follows_protocol w (run_cycle hash run journal (fst w))" .
      obtain ops whole where c: "cut_short n (run_cycle hash run journal (fst w)) = (ops, whole)" by (rule prod.exhaust)
      from cut_short_ok [OF sw f c] show ?thesis by (simp add: happen_def s Turn Some c)
    qed
  next
    case (Reset anchor n)
    have "run_ok act legal w (take n (fst (reset_from_now anchor (fst w))))" by (rule run_ok_take [OF reset_legal [OF sw]])
    from protocol.run_inv [OF sw this] show ?thesis by (simp add: happen_def s Reset cut_short_def system_ok_def)
  qed
qed

interpretation service: machine "happen hash" system_ok "\<lambda>s e. True" for hash
  by unfold_locales (rule happen_ok)

lemma fresh_ok: "system_ok fresh"
  by (simp add: system_ok_def fresh_def sound_def virgin_def empty_disk_def)

lemma history_ok: "system_ok (foldl (happen hash) fresh es)"
  by (rule service.run_inv [OF fresh_ok]) (simp add: run_ok_all)

lemma sound_linked: "sound w \<Longrightarrow> linked (snd w)"
  by (auto simp: sound_def virgin_def quiet_def in_flight_def linked_def)


text \<open>
  C30: a crash never locks the reader out. Whatever happened before, a start on the disk that the reader
  itself left never reports corrupted state and never refuses: it completes, unless it is the first activation
  and the anchor it captured is unusable.
\<close>

theorem restart_always_recovers:
  "case snd (startup anchor (fst (fst (foldl (happen hash) fresh es)))) of
     Inr _ \<Rightarrow> True
   | Inl e \<Rightarrow> e = ValueError ''invalid'' \<and> \<not> source_ok anchor"
proof -
  have "sound (fst (foldl (happen hash) fresh es))" using history_ok by (simp add: system_ok_def)
  then show ?thesis unfolding sound_def
  proof (elim disjE exE)
    assume v: "virgin (fst (foldl (happen hash) fresh es))"
    show ?thesis
    proof (cases "source_ok anchor")
      case True
      with startup_virgin [OF v, of anchor] show ?thesis by simp
    next
      case False
      with v show ?thesis
        by (simp add: startup_def virgin_def load_written evaluate_recovery_def Let_def validate_committed_obj checked_def committed_ok_def)
    qed
  next
    fix c assume "quiet c (fst (foldl (happen hash) fresh es))"
    from startup_quiet [OF this, of anchor] show ?thesis by simp
  next
    fix c p assume "in_flight c p (fst (foldl (happen hash) fresh es))"
    from startup_in_flight [OF this, of anchor] show ?thesis by simp
  qed
qed


text \<open>The last usable cursor of a window is usable.\<close>

definition last_usable :: "batch \<Rightarrow> bool" where
  "last_usable b \<longleftrightarrow> b_processed b = 0 \<or> (\<exists>v. b_last b = Some v \<and> validate_cursor (PStr v))"

lemma after_entry_usable: "validate_cursor (pgetN d ''__CURSOR'') \<Longrightarrow> last_usable (after_entry d b)"
  by (cases "pgetN d ''__CURSOR''") (simp_all add: last_usable_def after_entry_def processed_entry_def validate_cursor_def)

lemma count_in_usable: "last_usable (count_in k ts b) = last_usable b"
  by (simp add: last_usable_def)

lemma absorb_usable: "absorb hash d ts b = Inr b' \<Longrightarrow> last_usable b \<Longrightarrow> last_usable b'"
proof (cases d)
  case (Eligible cls proto port dcls msg)
  assume a: "absorb hash d ts b = Inr b'" and l: "last_usable b"
  show ?thesis
  proof (cases cls)
    case None
    with a Eligible have "absorb_other hash proto port dcls msg ts (b\<lparr>b_eligible := b_eligible b + 1\<rparr>) = Inr b'" by (simp add: absorb_def)
    from absorb_other_cases [OF this] obtain k n fps where
      "b' = count_in k ts (b\<lparr>b_eligible := b_eligible b + 1, b_limited := n, b_fps := fps\<rparr>)" by auto
    with l show ?thesis by (simp add: last_usable_def)
  next
    case (Some c)
    with a Eligible l show ?thesis by (auto simp: absorb_def last_usable_def)
  qed
qed (auto simp: absorb_def last_usable_def)

lemma consume_usable:
  "consume_lines hash b ls = Inr (b', stopped) \<Longrightarrow> last_usable b \<Longrightarrow> last_usable b'"
proof (induction ls arbitrary: b)
  case (Cons l ls)
  from Cons.prems(1) show ?case
  proof (cases rule: consume_cases)
    case invalid
    with Cons.prems(2) show ?thesis by (simp add: last_usable_def seen_line_def)
  next
    case (unusable d)
    from Cons.IH [OF unusable(3)] after_entry_usable [OF unusable(2), of b] show ?thesis by (simp add: last_usable_def)
  next
    case (usable d t b2)
    from absorb_usable [OF usable(4) after_entry_usable [OF usable(2)]] have b2: "last_usable b2" .
    with usable(5) Cons.IH [OF _ b2] show ?thesis by (cases "BACKLOG_CAP \<le> int (b_processed b2)") simp_all
  qed
qed simp

text \<open>
  A usable poll is exported. In whatever state a history has left the running reader, a turn whose
  journal child ends well with at least one entry and only usable lines appends exactly one file, made of what
  was polled from the committed source, and moves the committed state to the last cursor of the poll.
\<close>

theorem usable_poll_is_exported:
  assumes "foldl (happen hash) fresh es = ((d, exported), Some run)" "load_committed (at_committed d) = Inr (Some c)"
    and "hex_of_length 32 (PStr run)" "hash_ok hash"
    and "journal (c_source c) = Inr q" "po_rc q = 0" "list_all plausible_line (po_lines q)"
    and "consume_lines hash new_batch (po_lines q) = Inr (b, stopped)" "\<not> b_cursor_invalid b" "0 < b_processed b"
  shows "\<exists>n d' stop. b_last b = Some stop
    \<and> happen hash ((d, exported), Some run) (Turn journal n) = ((d', exported @ [export_of c stop]), Some run)
    \<and> load_committed (at_committed d') = Inr (Some \<lparr>c_seq = c_seq c + 1, c_epoch = c_epoch c, c_boundary = ''NONE'', c_source = Cursor stop\<rparr>)"
proof -
  define w where "w = (d, exported)"
  from history_ok [of hash es] assms(1) obtain k where "at_rest k w" by (auto simp: system_ok_def w_def)
  moreover from this assms(2) have "k = c" using load_quiet [of k w] by (simp add: at_rest_def w_def)
  ultimately have rest: "at_rest c w" by simp
  have "last_usable new_batch" by (simp add: last_usable_def new_batch_def)
  from consume_usable [OF assms(8) this] assms(10) obtain stop where stop: "b_last b = Some stop" "validate_cursor (PStr stop)"
    by (auto simp: last_usable_def)
  define p where "p = make_pending run c (or_empty (b_last b))"
  have c: "committed_ok c" using rest by (simp add: at_rest_def quiet_def)
  have ok: "pending_ok p"
    using c stop assms(3) by (simp add: pending_ok_def p_def make_pending_def committed_ok_def or_empty_def source_ok_def)
  obtain h where "exchange_body b (p_seq p) run (p_epoch p) (p_boundary p) = Inr (h # map event_obj (fst (batch_records b)))"
    using window_body [OF assms(8,4,7,3), of "p_seq p" "p_epoch p" "p_boundary p"] ok by (auto simp: pending_ok_def)
  note end_state = commit_batch_done [OF rest p_def ok this, of "po_size q"]
  have cyc: "run_cycle hash run journal (fst w) = commit_batch run c b (po_size q) (fst w)"
    using assms(2,5,6,8-10) by (simp add: run_cycle_def w_def finish_cycle_def)
  define w' where "w' = foldl act w (fst (commit_batch run c b (po_size q) (fst w)))"
  have "happen hash (w, Some run) (Turn journal (length (fst (commit_batch run c b (po_size q) (fst w))))) = (w', Some run)"
    using end_state by (simp add: happen_def cyc cut_short_def w'_def)
  moreover have "snd w' = exported @ [export_of c stop]"
    using end_state by (simp add: w'_def w_def p_def make_pending_def stop or_empty_def)
  moreover have "load_committed (at_committed (fst w')) = Inr (Some (step4_committed p))"
    using end_state by (simp add: w'_def at_rest_def load_quiet)
  moreover have "step4_committed p = \<lparr>c_seq = c_seq c + 1, c_epoch = c_epoch c, c_boundary = ''NONE'', c_source = Cursor stop\<rparr>"
    by (simp add: step4_committed_def p_def make_pending_def stop or_empty_def)
  ultimately show ?thesis using stop(1)
    by (intro exI [of _ "length (fst (commit_batch run c b (po_size q) (fst w)))"] exI [of _ "fst w'"] exI [of _ stop])
      (simp add: w_def prod_eq_iff)
qed

section \<open>A run of the service\<close>

definition sample_run_id :: string where "sample_run_id = replicate 32 CHR ''a''"

definition sample_anchor :: committed where
  "sample_anchor = \<lparr>c_seq = 0, c_epoch = 1, c_boundary = ''COLD_START'', c_source = Cursor ''s=0''\<rparr>"

definition sample_poll :: poll where
  "sample_poll = \<lparr>po_lines = [sample_line], po_rc = 0, po_size = 400\<rparr>"

lemma sample_anchor_ok: "committed_ok sample_anchor"
  by (simp add: committed_ok_def sample_anchor_def BOUNDS_def source_ok_def validate_cursor_def CURSOR_MAX_BYTES_def)

lemma sample_boot:
  "foldl (happen None) fresh [Boot sample_run_id (Cursor ''s=0'') 1] =
     ((empty_disk\<lparr>at_committed := Holds (committed_obj sample_anchor)\<rparr>, []), Some sample_run_id)"
proof -
  have "startup (Cursor ''s=0'') empty_disk = ([PutCommitted sample_anchor], Inr ())"
    using sample_anchor_ok
    by (simp add: startup_def empty_disk_def load_written evaluate_recovery_def Let_def checked_def validate_committed_obj
        finish_def enforce_retention_def entries_of_def perform_def flip: One_nat_def) (simp add: sample_anchor_def)
  then show ?thesis by (simp add: happen_def fresh_def cut_short_def act_def perform_def log_op_def)
qed

theorem usable_poll_is_exported_witness:
  "\<exists>n d' stop. b_last sample_batch = Some stop
    \<and> happen None ((empty_disk\<lparr>at_committed := Holds (committed_obj sample_anchor)\<rparr>, []), Some sample_run_id) (Turn (\<lambda>s. Inr sample_poll) n)
        = ((d', [] @ [export_of sample_anchor stop]), Some sample_run_id)
    \<and> load_committed (at_committed d') = Inr (Some \<lparr>c_seq = c_seq sample_anchor + 1, c_epoch = c_epoch sample_anchor,
        c_boundary = ''NONE'', c_source = Cursor stop\<rparr>)"
proof (rule usable_poll_is_exported [OF sample_boot, where q = sample_poll and stopped = False])
  show "load_committed (at_committed (empty_disk\<lparr>at_committed := Holds (committed_obj sample_anchor)\<rparr>)) = Inr (Some sample_anchor)"
    using sample_anchor_ok by (simp add: load_written)
  show "hex_of_length 32 (PStr sample_run_id)" by (simp add: hex_of_length_def sample_run_id_def list_all_iff hex_digit_def)
  show "hash_ok None" by (rule no_hash)
  show "list_all plausible_line (po_lines sample_poll)" using sample_plausible by (simp add: sample_poll_def)
  show "consume_lines None new_batch (po_lines sample_poll) = Inr (sample_batch, False)" using sample_run by (simp add: sample_poll_def)
qed (simp_all add: sample_poll_def sample_batch_def)

section \<open>Retention\<close>

definition within_bounds :: "disk \<Rightarrow> bool" where
  "within_bounds d \<longleftrightarrow> length (out d) \<le> RETENTION_MAX_FILES \<and> sum_list (map (\<lambda>(n, ls, bytes). bytes) (out d)) \<le> RETENTION_MAX_BYTES"

definition evicted :: "(nat \<times> nat) list \<Rightarrow> nat" where
  "evicted es = length (evictions es)"

lemma evictions_take: "evictions es = map fst (take (evicted es) es)"
  unfolding evicted_def by (induction es rule: evictions.induct) auto

lemma evictions_bound:
  "length (drop (evicted es) es) \<le> RETENTION_MAX_FILES \<and> sum_list (map snd (drop (evicted es) es)) \<le> RETENTION_MAX_BYTES"
  unfolding evicted_def by (induction es rule: evictions.induct) auto

lemma evict_out: "wf_dict (out d) \<Longrightarrow> out (performs d (map Evict ns)) = filter (\<lambda>e. fst e \<notin> set ns) (out d) \<and> wf_dict (out (performs d (map Evict ns)))"
proof (induction ns arbitrary: d)
  case (Cons n ns)
  have o: "out (perform d (Evict n)) = filter (\<lambda>e. fst e \<noteq> n) (out d)" by (auto simp: perform_def AList.delete_eq split_beta intro: filter_cong)
  have "wf_dict (out (perform d (Evict n)))" using Cons.prems by (simp add: perform_def)
  from Cons.IH [OF this] have ih: "out (performs (perform d (Evict n)) (map Evict ns)) = filter (\<lambda>e. fst e \<notin> set ns) (out (perform d (Evict n)))"
    "wf_dict (out (performs (perform d (Evict n)) (map Evict ns)))" by (rule conjunct1, rule conjunct2)
  from ih(1) have "out (performs d (map Evict (n # ns))) = filter (\<lambda>e. fst e \<notin> set (n # ns)) (out d)"
    by (simp add: o conj_commute)
  with ih(2) show ?case by simp
qed simp

lemma filter_tail: "distinct (map fst es) \<Longrightarrow> filter (\<lambda>e. fst e \<notin> set (map fst (take k es))) es = drop k es"
proof -
  assume d: "distinct (map fst es)"
  have split: "es = take k es @ drop k es" by simp
  from d have "distinct (map fst (take k es) @ map fst (drop k es))" by (metis append_take_drop_id map_append)
  then have apart: "set (map fst (take k es)) \<inter> set (map fst (drop k es)) = {}" by simp
  have "filter (\<lambda>e. fst e \<notin> set (map fst (take k es))) (take k es) = []" by (auto simp: filter_empty_conv)
  moreover have "filter (\<lambda>e. fst e \<notin> set (map fst (take k es))) (drop k es) = drop k es"
    by (rule filter_True) (use apart in auto)
  ultimately show ?thesis by (subst split) (simp only: filter_append append_Nil)
qed

lemma entries_sum: "sum_list (map snd (entries_of d)) = sum_list (map (\<lambda>(n, ls, bytes). bytes) (out d))"
proof -
  have "sum_list (map snd (insort x xs)) = snd x + sum_list (map snd xs)" for x :: "nat \<times> nat" and xs by (induction xs) auto
  then have "sum_list (map snd (sort xs)) = sum_list (map snd xs)" for xs :: "(nat \<times> nat) list" by (induction xs) simp_all
  then show ?thesis by (simp add: entries_of_def comp_def case_prod_unfold)
qed

lemma entries_after:
  assumes "wf_dict (out d)"
  shows "entries_of (performs d (enforce_retention d)) = drop (evicted (entries_of d)) (entries_of d)"
proof -
  let ?ns = "evictions (entries_of d)"
  have keys: "distinct (map fst (entries_of d))"
  proof -
    have "distinct (map fst (map (\<lambda>(n, ls, bytes). (n, bytes)) (out d)))" using assms by (simp add: wf_dict_def comp_def case_prod_unfold)
    then have "distinct (map fst (sort (map (\<lambda>(n, ls, bytes). (n, bytes)) (out d))))"
      by (simp only: distinct_map set_sort distinct_sort)
    then show ?thesis by (simp add: entries_of_def)
  qed
  have "entries_of (performs d (enforce_retention d)) = sort (map (\<lambda>(n, ls, bytes). (n, bytes)) (filter (\<lambda>e. fst e \<notin> set ?ns) (out d)))"
    using evict_out [OF assms, of ?ns] by (simp add: entries_of_def enforce_retention_def)
  also have "map (\<lambda>(n, ls, bytes). (n, bytes)) (filter (\<lambda>e. fst e \<notin> set ?ns) (out d))
      = filter (\<lambda>e. fst e \<notin> set ?ns) (map (\<lambda>(n, ls, bytes). (n, bytes)) (out d))"
    by (simp add: filter_map comp_def split_beta)
  also have "sort \<dots> = filter (\<lambda>e. fst e \<notin> set ?ns) (entries_of d)" by (simp add: entries_of_def filter_sort)
  also have "\<dots> = drop (evicted (entries_of d)) (entries_of d)"
    unfolding evictions_take by (rule filter_tail [OF keys])
  finally show ?thesis .
qed

lemma retention_bound:
  assumes "wf_dict (out d)"
  shows "within_bounds (performs d (enforce_retention d))"
  using evictions_bound [of "entries_of d"] entries_after [OF assms]
  by (metis entries_sum within_bounds_def entries_of_def length_map length_sort)

definition tidy :: "disk \<Rightarrow> op list \<times> unit res \<Rightarrow> bool" where
  "tidy d proc \<longleftrightarrow> (snd proc = Inr () \<longrightarrow> within_bounds (performs d (fst proc)))"

lemma performs_wf: "wf_dict (out d) \<Longrightarrow> wf_dict (out (performs d ops))"
  by (induction ops arbitrary: d) (auto simp: perform_def split: op.splits)

lemma tidy_simps:
  "tidy d ([], Inl e)" "(ok \<Longrightarrow> tidy d proc) \<Longrightarrow> tidy d (checked ok proc)" "tidy (perform d x) proc \<Longrightarrow> tidy d (and_then x proc)"
  "wf_dict (out d) \<Longrightarrow> tidy d (finish d ops)"
  using retention_bound [OF performs_wf, of d ops] by (simp_all add: tidy_def checked_def and_then_def finish_def)

lemma recovery_finish: "snd (evaluate_recovery c p d) = FinishCommit \<Longrightarrow> p \<noteq> None"
  by (auto simp: evaluate_recovery_def Let_def split: option.splits if_splits)

lemma startup_tidy: "wf_dict (out d) \<Longrightarrow> tidy d (startup anchor d)"
  unfolding startup_def
  by (auto simp: Let_def tidy_simps dest: recovery_finish split: sum.split action.split option.split)

lemma commit_tidy: "wf_dict (out d) \<Longrightarrow> tidy d (commit_batch run c b size_bytes d)"
  unfolding commit_batch_def Let_def
proof (rule tidy_simps(2), rule tidy_simps(3), goal_cases)
  case 1
  let ?p = "make_pending run c (or_empty (b_last b))"
  show ?case
  proof (cases "exchange_body b (p_seq ?p) run (p_epoch ?p) (p_boundary ?p)")
    case (Inr body)
    have "wf_dict (out (performs d [PutPending ?p, PutFile (p_seq ?p) (map Some body, size_bytes)]))" using 1 by (intro performs_wf) simp
    from tidy_simps(4) [OF this] Inr show ?thesis by (simp, intro tidy_simps(2,3)) simp
  qed (simp add: tidy_simps(1))
qed

lemma cycle_tidy:
  assumes "wf_dict (out d)" "within_bounds d"
  shows "tidy d (run_cycle hash run journal d)"
proof -
  have "tidy d ([Beat n], Inr ())" for n using assms(2) by (simp add: tidy_def perform_def within_bounds_def)
  then show ?thesis
    using commit_tidy [OF assms(1)] unfolding run_cycle_def finish_cycle_def
    by (auto simp: tidy_simps(1) split: sum.split option.split)
qed

definition bounded_system :: "system \<Rightarrow> bool" where
  "bounded_system s \<longleftrightarrow> wf_dict (out (fst (fst s))) \<and> (snd s \<noteq> None \<longrightarrow> within_bounds (fst (fst s)))"

lemma cut_short_bounded:
  assumes "wf_dict (out (fst w))" "tidy (fst w) proc" "cut_short n proc = (ops, whole)"
  shows "bounded_system (foldl act w ops, if whole then Some run else None)"
  using assms performs_wf [OF assms(1)] by (auto simp: bounded_system_def cut_short_def fst_acts tidy_def)

lemma happen_bounded: "bounded_system s \<Longrightarrow> bounded_system (happen hash s e)"
proof -
  assume b: "bounded_system s"
  obtain w alive where s: "s = (w, alive)" by (cases s)
  have wf: "wf_dict (out (fst w))" using b by (simp add: bounded_system_def s)
  show ?thesis
  proof (cases e)
    case (Boot run anchor n)
    obtain ops whole where c: "cut_short n (startup anchor (fst w)) = (ops, whole)" by (rule prod.exhaust)
    from cut_short_bounded [OF wf startup_tidy [OF wf] c] show ?thesis by (simp add: happen_def s Boot c)
  next
    case (Turn journal n)
    show ?thesis
    proof (cases alive)
      case None
      with b show ?thesis by (simp add: happen_def s Turn)
    next
      case (Some run)
      obtain ops whole where c: "cut_short n (run_cycle hash run journal (fst w)) = (ops, whole)" by (rule prod.exhaust)
      have "within_bounds (fst w)" using b Some by (simp add: bounded_system_def s)
      from cut_short_bounded [OF wf cycle_tidy [OF wf this] c] show ?thesis by (simp add: happen_def s Turn Some c)
    qed
  next
    case (Reset anchor n)
    with wf show ?thesis by (simp add: happen_def s cut_short_def bounded_system_def fst_acts performs_wf)
  qed
qed

interpretation retention: machine "happen hash" bounded_system "\<lambda>s e. True" for hash
  by unfold_locales (rule happen_bounded)

text \<open>
  A running reader keeps its exchange directory bounded. Whenever the service is running, after a
  completed start or turn of any history, the directory holds at most 720 files of at most eight mebibytes in
  all, however long the monitor has not collected them.
\<close>

theorem running_reader_stays_bounded:
  assumes "foldl (happen hash) fresh es = ((d, exported), Some run)"
  shows "length (out d) \<le> 720 \<and> sum_list (map (\<lambda>(n, ls, bytes). bytes) (out d)) \<le> 8388608"
proof -
  have "bounded_system fresh" by (simp add: bounded_system_def fresh_def empty_disk_def)
  then have "bounded_system (foldl (happen hash) fresh es)" by (rule retention.run_inv) (simp add: run_ok_all)
  then show ?thesis using assms by (simp add: bounded_system_def within_bounds_def RETENTION_MAX_FILES_def RETENTION_MAX_BYTES_def)
qed

theorem running_reader_stays_bounded_witness:
  "length (out (empty_disk\<lparr>at_committed := Holds (committed_obj sample_anchor)\<rparr>)) \<le> 720
     \<and> sum_list (map (\<lambda>(n, ls, bytes). bytes) (out (empty_disk\<lparr>at_committed := Holds (committed_obj sample_anchor)\<rparr>))) \<le> 8388608"
  by (rule running_reader_stays_bounded [OF sample_boot])

end
