(* ===== verification/Ingest.thy ===== *)
theory Ingest
  imports Exchange
begin

text \<open>
  The monitor's side of the journal exchange (\<open>journal_reader/ingest_contract.py\<close>): the scan of the
  exchange directory, validation of one file and one ingest pass, \<open>settle\<close>. The store is a parameter: \<open>apply_fn\<close>
  gives the next state of the store, or \<open>None\<close> when it raises and the transaction is rolled back.
\<close>

section \<open>The directory\<close>

text \<open>What reading a file gives: an \<open>OSError\<close>, bytes that are not UTF-8, or its lines and its size in bytes.\<close>

datatype content = NoAccess | NotUtf8 | Body "line list" nat

text \<open>A directory entry: \<open>lstat\<close> fails, not a regular file, or a size and a content.\<close>

datatype dir_entry = Gone | Irregular | Regular nat content

definition MAX_FILE_BYTES :: nat where "MAX_FILE_BYTES = 256 * 1024"

definition seq_of_name :: "string \<Rightarrow> nat option" where
  "seq_of_name s =
     (case in_turn [lit ''ev-'', digits 1 20] s of
        Some rest \<Rightarrow> if rest = ''.jsonl'' then Some (nat (decimal (take (length s - 9) (drop 3 s)))) else None
      | None \<Rightarrow> None)"

text \<open>\<open>scan_exchange_dir\<close>: numbers to names, the last name in order winning; \<open>None\<close> is a directory that cannot be listed.\<close>

definition scan_exchange_dir :: "string list option \<Rightarrow> (nat, string) dict res" where
  "scan_exchange_dir listing =
     (case listing of
        None \<Rightarrow> Inl (OSError ''ExchangeDirUnreadable'')
      | Some names \<Rightarrow>
          Inr (foldl (\<lambda>d name. case seq_of_name name of None \<Rightarrow> d | Some n \<Rightarrow> dict_set n name d) [] (sort names)))"

definition event_records :: "line list \<Rightarrow> pyval list" where
  "event_records ls = filter (\<lambda>v. pgetN (dict_items v) ''t'' = PStr ''e'') (List.map_filter id ls)"

text \<open>
  \<open>read_and_validate\<close>: the body with its event records, or the reason for refusing the file. Decoding the
  file raises \<open>UnicodeDecodeError\<close>, a \<open>ValueError\<close>, which is not caught.
\<close>

definition read_and_validate :: "dir_entry \<Rightarrow> nat \<Rightarrow> (string + line list \<times> pyval list) res" where
  "read_and_validate e n =
     (case e of
        Gone \<Rightarrow> Inr (Inl ''exchange_unreadable'')
      | Irregular \<Rightarrow> Inr (Inl ''exchange_not_regular'')
      | Regular stat content \<Rightarrow>
          if MAX_FILE_BYTES < stat then Inr (Inl ''exchange_too_large'')
          else (case content of
                  NoAccess \<Rightarrow> Inr (Inl ''exchange_unreadable'')
                | NotUtf8 \<Rightarrow> Inl (ValueError ''UnicodeDecodeError'')
                | Body ls bytes \<Rightarrow>
                    if MAX_FILE_BYTES < bytes then Inr (Inl ''exchange_too_large'')
                    else (case parse_exchange ls (int n) of
                            Some code \<Rightarrow> Inr (Inl code)
                          | None \<Rightarrow> Inr (Inr (ls, event_records ls)))))"

section \<open>One pass\<close>

record pass =
  terminal :: nat
  gaps :: nat
  rejected :: nat
  consumed :: nat
  last_consumed :: "nat option"
  blocked_at :: "nat option"
  rejected_codes :: "(nat, string) dict"

definition new_pass :: "nat \<Rightarrow> pass" where
  "new_pass t = \<lparr>terminal = t, gaps = 0, rejected = 0, consumed = 0, last_consumed = None, blocked_at = None, rejected_codes = []\<rparr>"

type_synonym 's apply_fn = "'s \<Rightarrow> line \<Rightarrow> pyval list \<Rightarrow> nat \<Rightarrow> 's option"

text \<open>The treatment of one number that is present; the flag says whether the pass goes on.\<close>

definition settle_one :: "'s apply_fn \<Rightarrow> (nat \<Rightarrow> dir_entry) \<Rightarrow> nat \<Rightarrow> pass \<times> 's \<Rightarrow> ((pass \<times> 's) \<times> bool) res" where
  "settle_one apply_fn look n state =
     (case state of (r, s) \<Rightarrow>
        res_bind (read_and_validate (look n) n) (\<lambda>outcome.
          case outcome of
            Inl code \<Rightarrow>
              Inr ((r\<lparr>terminal := n, rejected := rejected r + 1, rejected_codes := dict_set n code (rejected_codes r)\<rparr>, s), True)
          | Inr (body, records) \<Rightarrow>
              (case apply_fn s (hd body) records n of
                 None \<Rightarrow> Inr ((r\<lparr>blocked_at := Some n\<rparr>, s), False)
               | Some s' \<Rightarrow> Inr ((r\<lparr>terminal := n, last_consumed := Some n, consumed := consumed r + 1\<rparr>, s'), True))))"

text \<open>A number that is missing below a present one: the whole gap is counted and the terminal moves behind it.\<close>

definition skip_gap :: "nat \<Rightarrow> nat \<Rightarrow> pass \<Rightarrow> pass" where
  "skip_gap seq n r = (if n = seq then r else r\<lparr>gaps := gaps r + (n - seq), terminal := n - 1\<rparr>)"

function settle_loop :: "'s apply_fn \<Rightarrow> (nat \<Rightarrow> dir_entry) \<Rightarrow> nat list \<Rightarrow> nat \<Rightarrow> pass \<times> 's \<Rightarrow> (pass \<times> 's) res" where
  "settle_loop apply_fn look present seq state =
     (if seq \<in> set present \<or> list_ex (\<lambda>m. seq < m) present
      then (let n = (if seq \<in> set present then seq else hd (sort (filter (\<lambda>m. seq \<le> m) present)))
            in (case settle_one apply_fn look n (skip_gap seq n (fst state), snd state) of
                  Inl e \<Rightarrow> Inl e
                | Inr (state', True) \<Rightarrow> settle_loop apply_fn look present (Suc n) state'
                | Inr (state', False) \<Rightarrow> Inr state'))
      else Inr state)"
  by pat_completeness auto

definition next_present :: "nat list \<Rightarrow> nat \<Rightarrow> nat" where
  "next_present present seq = (if seq \<in> set present then seq else hd (sort (filter (\<lambda>m. seq \<le> m) present)))"

lemma next_present_facts:
  assumes "seq \<in> set present \<or> list_ex (\<lambda>m. seq < m) present"
  shows "next_present present seq \<in> set present" "seq \<le> next_present present seq"
    "m \<in> set present \<Longrightarrow> seq \<le> m \<Longrightarrow> next_present present seq \<le> m"
proof -
  let ?s = "sort (filter (\<lambda>m. seq \<le> m) present)"
  have hs: "set ?s = {m \<in> set present. seq \<le> m}" by auto
  have "\<exists>m. m \<in> set present \<and> seq \<le> m" using assms by (auto simp: list_ex_iff intro: less_imp_le)
  with hs have ne: "?s \<noteq> []" by (metis (mono_tags, lifting) empty_iff list.set(1) mem_Collect_eq)
  then obtain h t where h: "?s = h # t" by (cases ?s) auto
  have "sorted ?s" by simp
  with h have le: "\<And>m. m \<in> set ?s \<Longrightarrow> h \<le> m" by auto
  have "h \<in> set ?s" by (simp add: h)
  with hs have hin: "h \<in> set present" "seq \<le> h" by auto
  show "next_present present seq \<in> set present" "seq \<le> next_present present seq" using hin by (auto simp: next_present_def h)
  show "m \<in> set present \<Longrightarrow> seq \<le> m \<Longrightarrow> next_present present seq \<le> m" using le [of m] hs by (auto simp: next_present_def h)
qed

termination settle_loop
proof (relation "measure (\<lambda>(apply_fn, look, present, seq, state). card {m \<in> set present. seq \<le> m})", goal_cases)
  case (2 apply_fn look present seq state n x2 a b)
  note f = next_present_facts [OF 2(1)]
  have n: "n = next_present present seq" using 2(2) by (simp add: next_present_def)
  have "n \<in> {m \<in> set present. seq \<le> m}" "n \<notin> {m \<in> set present. Suc n \<le> m}" using f(1,2) n by simp_all
  moreover have "{m \<in> set present. Suc n \<le> m} \<subseteq> {m \<in> set present. seq \<le> m}" using f(2) n by auto
  ultimately have "{m \<in> set present. Suc n \<le> m} \<subset> {m \<in> set present. seq \<le> m}" by (metis psubsetI)
  then show ?case by (simp add: psubset_card_mono)
qed simp

declare settle_loop.simps [simp del]

definition settle :: "'s apply_fn \<Rightarrow> (string \<Rightarrow> dir_entry) \<Rightarrow> string list option \<Rightarrow> nat \<Rightarrow> 's \<Rightarrow> (pass \<times> 's) res" where
  "settle apply_fn entry listing t s =
     res_bind (scan_exchange_dir listing) (\<lambda>files.
       settle_loop apply_fn (\<lambda>n. case dict_get files n of Some name \<Rightarrow> entry name | None \<Rightarrow> Gone) (map fst files) (t + 1) (new_pass t, s))"

section \<open>A pass in terms of the numbers present\<close>

text \<open>The reference: the present numbers above the terminal in increasing order, each treated once.\<close>

fun settle_in_order :: "'s apply_fn \<Rightarrow> (nat \<Rightarrow> dir_entry) \<Rightarrow> nat list \<Rightarrow> pass \<times> 's \<Rightarrow> (pass \<times> 's) res" where
  "settle_in_order apply_fn look [] state = Inr state"
| "settle_in_order apply_fn look (n # ns) state =
     (case settle_one apply_fn look n (skip_gap (terminal (fst state) + 1) n (fst state), snd state) of
        Inl e \<Rightarrow> Inl e
      | Inr (state', go) \<Rightarrow> if go then settle_in_order apply_fn look ns state' else Inr state')"

lemma settle_one_cases:
  assumes "settle_one apply_fn look n (r, s) = Inr ((r', s'), go)"
  obtains (reject) code where "read_and_validate (look n) n = Inr (Inl code)" "go" "s' = s"
      "r' = r\<lparr>terminal := n, rejected := rejected r + 1, rejected_codes := dict_set n code (rejected_codes r)\<rparr>"
    | (block) body records where "read_and_validate (look n) n = Inr (Inr (body, records))" "apply_fn s (hd body) records n = None"
      "\<not> go" "s' = s" "r' = r\<lparr>blocked_at := Some n\<rparr>"
    | (consume) body records where "read_and_validate (look n) n = Inr (Inr (body, records))"
      "apply_fn s (hd body) records n = Some s'" "go"
      "r' = r\<lparr>terminal := n, last_consumed := Some n, consumed := consumed r + 1\<rparr>"
proof -
  from assms obtain outcome where o: "read_and_validate (look n) n = Inr outcome" by (auto simp: settle_one_def res_bind_eq_Inr)
  show ?thesis
  proof (cases outcome)
    case (Inl code)
    with assms o show ?thesis by (intro reject [of code]) (simp_all add: settle_one_def)
  next
    case (Inr p)
    obtain body records where p: "p = (body, records)" by (cases p)
    show ?thesis
    proof (cases "apply_fn s (hd body) records n")
      case None
      with assms o Inr p show ?thesis by (intro block [of body records]) (simp_all add: settle_one_def)
    next
      case (Some t)
      with assms o Inr p show ?thesis by (intro consume [of body records]) (simp_all add: settle_one_def)
    qed
  qed
qed

lemma settle_one_terminal: "settle_one apply_fn look n (r, s) = Inr ((r', s'), True) \<Longrightarrow> terminal r' = n"
  by (erule settle_one_cases) simp_all

definition above :: "nat list \<Rightarrow> nat \<Rightarrow> nat list" where
  "above present seq = sort (filter (\<lambda>m. seq \<le> m) (remdups present))"

lemma above_step:
  assumes "seq \<in> set present \<or> list_ex (\<lambda>m. seq < m) present"
  shows "above present seq = next_present present seq # above present (Suc (next_present present seq))"
proof -
  let ?n = "next_present present seq"
  note f = next_present_facts [OF assms]
  have "sorted (?n # above present (Suc ?n))" by (auto simp: above_def)
  moreover have "distinct (?n # above present (Suc ?n))" by (auto simp: above_def)
  moreover have "set (?n # above present (Suc ?n)) = {m \<in> set present. seq \<le> m}"
  proof (intro set_eqI iffI)
    fix m assume "m \<in> {m \<in> set present. seq \<le> m}"
    then have m: "m \<in> set present" "seq \<le> m" by simp_all
    from f(3) [OF this] have "m = ?n \<or> Suc ?n \<le> m" by linarith
    with m(1) show "m \<in> set (?n # above present (Suc ?n))" by (auto simp: above_def)
  next
    fix m assume "m \<in> set (?n # above present (Suc ?n))"
    then have "m = ?n \<or> m \<in> set present \<and> Suc ?n \<le> m" by (auto simp: above_def)
    with f(1,2) show "m \<in> {m \<in> set present. seq \<le> m}" by auto
  qed
  ultimately show ?thesis
    by (intro sorted_distinct_set_unique) (auto simp: above_def)
qed

lemma above_none: "\<not> (seq \<in> set present \<or> list_ex (\<lambda>m. seq < m) present) \<Longrightarrow> above present seq = []"
proof -
  assume a: "\<not> (seq \<in> set present \<or> list_ex (\<lambda>m. seq < m) present)"
  have "\<not> seq \<le> m" if "m \<in> set present" for m
    using a that by (cases "m = seq") (auto simp: list_ex_iff)
  then have "filter (\<lambda>m. seq \<le> m) (remdups present) = []" by (simp add: filter_empty_conv)
  then show ?thesis by (simp add: above_def)
qed

lemma settle_loop_in_order:
  "terminal (fst state) + 1 = seq \<Longrightarrow>
     settle_loop apply_fn look present seq state = settle_in_order apply_fn look (above present seq) state"
proof (induction apply_fn look present seq state rule: settle_loop.induct)
  case (1 apply_fn look present seq state)
  show ?case
  proof (cases "seq \<in> set present \<or> list_ex (\<lambda>m. seq < m) present")
    case False
    then show ?thesis by (simp add: settle_loop.simps above_none)
  next
    case True
    let ?n = "next_present present seq"
    have n: "(if seq \<in> set present then seq else hd (sort (filter (\<lambda>m. seq \<le> m) present))) = ?n" by (simp add: next_present_def)
    let ?one = "settle_one apply_fn look ?n (skip_gap seq ?n (fst state), snd state)"
    have loop: "settle_loop apply_fn look present seq state =
        (case ?one of Inl e \<Rightarrow> Inl e | Inr (state', True) \<Rightarrow> settle_loop apply_fn look present (Suc ?n) state' | Inr (state', False) \<Rightarrow> Inr state')"
      by (subst settle_loop.simps) (simp only: True if_True Let_def n)
    have ref: "settle_in_order apply_fn look (above present seq) state =
        (case ?one of Inl e \<Rightarrow> Inl e | Inr (state', go) \<Rightarrow> if go then settle_in_order apply_fn look (above present (Suc ?n)) state' else Inr state')"
      using 1(2) by (simp add: above_step [OF True])
    show ?thesis
    proof (cases ?one)
      case (Inl e)
      then show ?thesis by (simp add: loop ref)
    next
      case (Inr p)
      obtain state' go where p: "p = (state', go)" by (cases p)
      show ?thesis
      proof (cases go)
        case go: True
        from settle_one_terminal [of apply_fn look ?n _ _ "fst state'" "snd state'"] Inr p go have "terminal (fst state') + 1 = Suc ?n" by simp
        from 1(1) [OF True n [symmetric] Inr p [symmetric] eqTrueI [OF go] this] show ?thesis using Inr p go by (simp add: loop ref)
      next
        case False
        then show ?thesis using Inr p by (simp add: loop ref)
      qed
    qed
  qed
qed



section \<open>Accounting of a pass\<close>

definition pass_counts :: "nat \<Rightarrow> pass \<Rightarrow> bool" where
  "pass_counts t r \<longleftrightarrow> gaps r + rejected r + consumed r + t = terminal r
     \<and> length (rejected_codes r) = rejected r \<and> (\<forall>n\<in>fst ` set (rejected_codes r). t < n \<and> n \<le> terminal r)
     \<and> wf_dict (rejected_codes r)"

lemma skip_gap_counts:
  "pass_counts t r \<Longrightarrow> terminal r < n \<Longrightarrow> pass_counts t (skip_gap (terminal r + 1) n r) \<and> terminal (skip_gap (terminal r + 1) n r) + 1 = n
     \<and> blocked_at (skip_gap (terminal r + 1) n r) = blocked_at r"
  by (auto simp: pass_counts_def skip_gap_def)

lemma length_dict_set_new: "k \<notin> fst ` set d \<Longrightarrow> length (dict_set k v d) = Suc (length d)"
  by (induction d) auto

lemma settle_in_order_counts:
  "settle_in_order apply_fn look ns (r, s) = Inr (r', s') \<Longrightarrow> pass_counts t r \<Longrightarrow> blocked_at r = None \<Longrightarrow>
     sorted ns \<Longrightarrow> distinct ns \<Longrightarrow> (\<forall>n\<in>set ns. terminal r < n) \<Longrightarrow>
     pass_counts t r' \<and> terminal r \<le> terminal r' \<and> (case blocked_at r' of None \<Rightarrow> (\<forall>n\<in>set ns. n \<le> terminal r') | Some n \<Rightarrow> n = terminal r' + 1 \<and> n \<in> set ns)"
proof (induction ns arbitrary: r s)
  case Nil
  then show ?case by simp
next
  case (Cons n ns)
  let ?g = "skip_gap (terminal r + 1) n r"
  from Cons.prems have g: "pass_counts t ?g" "terminal ?g + 1 = n" "blocked_at ?g = None" using skip_gap_counts [of t r n] by simp_all
  from Cons.prems(1) obtain r1 s1 go where one: "settle_one apply_fn look n (?g, s) = Inr ((r1, s1), go)"
    and later: "if go then settle_in_order apply_fn look ns (r1, s1) = Inr (r', s') else r' = r1 \<and> s' = s1"
    by (auto split: sum.splits if_splits)
  from Cons.prems(4,5) have ns: "sorted ns" "distinct ns" "\<forall>m\<in>set ns. n < m" by (simp_all add: order.not_eq_order_implies_strict) (metis order_le_imp_less_or_eq)
  from one show ?case
  proof (cases rule: settle_one_cases)
    case (reject code)
    have "n \<notin> fst ` set (rejected_codes ?g)" using g(1,2) by (auto simp: pass_counts_def)
    then have "pass_counts t r1" "blocked_at r1 = None" "terminal r1 = n"
      using g reject by (auto simp: pass_counts_def length_dict_set_new)
    with Cons.IH [of r1 s1] later reject(2) ns Cons.prems(6) show ?thesis by (simp split: option.splits)
  next
    case (block body records)
    with g later Cons.prems(6) show ?thesis by (simp add: pass_counts_def)
  next
    case (consume body records)
    then have "pass_counts t r1" "blocked_at r1 = None" "terminal r1 = n" using g by (auto simp: pass_counts_def)
    with Cons.IH [of r1 s1] later consume(3) ns Cons.prems(6) show ?thesis by (simp split: option.splits)
  qed
qed

text \<open>
  A pass accounts for every number once. The terminal never goes back, and the gaps, refusals and
  applications of a pass add up exactly to the numbers it moved over, with one refusal code per refused number; a
  pass that was not blocked has settled every number present, and a blocked one stops right behind its terminal.
\<close>

theorem settle_accounts:
  assumes "settle apply_fn entry listing t s = Inr (r, s')" "scan_exchange_dir listing = Inr files"
  shows "t \<le> terminal r \<and> gaps r + rejected r + consumed r = terminal r - t \<and> length (rejected_codes r) = rejected r
    \<and> (case blocked_at r of None \<Rightarrow> (\<forall>n\<in>fst ` set files. n \<le> terminal r) | Some n \<Rightarrow> n = terminal r + 1 \<and> n \<in> fst ` set files)"
proof -
  let ?look = "\<lambda>n. case dict_get files n of Some name \<Rightarrow> entry name | None \<Rightarrow> Gone"
  let ?ns = "above (map fst files) (t + 1)"
  have "settle_in_order apply_fn ?look ?ns (new_pass t, s) = Inr (r, s')"
    using assms settle_loop_in_order [of "(new_pass t, s)" "t + 1" apply_fn ?look "map fst files"] by (simp add: settle_def new_pass_def)
  moreover have "pass_counts t (new_pass t)" "blocked_at (new_pass t) = None" by (simp_all add: pass_counts_def new_pass_def)
  moreover have "sorted ?ns" "distinct ?ns" "set ?ns = {n \<in> fst ` set files. t < n}" by (auto simp: above_def)
  ultimately have "pass_counts t r" "case blocked_at r of None \<Rightarrow> (\<forall>n\<in>set ?ns. n \<le> terminal r) | Some n \<Rightarrow> n = terminal r + 1 \<and> n \<in> set ?ns"
    using settle_in_order_counts [of apply_fn ?look ?ns "new_pass t" s r s' t] by (simp_all add: new_pass_def)
  with \<open>set ?ns = _\<close> show ?thesis by (fastforce simp: pass_counts_def split: option.splits)
qed

text \<open>Valid, missing, refused, valid: one gap, one refusal, two applications.\<close>

definition sample_entry :: "string \<Rightarrow> dir_entry" where
  "sample_entry name = (if name = ''ev-3.jsonl'' then Regular 10 (Body [] 0) else Gone)"

theorem settle_accounts_witness:
  "settle (\<lambda>log h records n. Some (log @ [n])) sample_entry (Some [''ev-3.jsonl'', ''hb'', ''ev-5.jsonl'']) 1 []
     = Inr (\<lparr>terminal = 5, gaps = 2, rejected = 2, consumed = 0, last_consumed = None, blocked_at = None,
         rejected_codes = [(3, ''exchange_empty''), (5, ''exchange_unreadable'')]\<rparr>, [])
   \<and> (1::nat) \<le> 5 \<and> (2::nat) + 2 + 0 = 5 - 1"
proof -
  have names: "sort [''ev-3.jsonl'', ''hb'', ''ev-5.jsonl''] = [''ev-3.jsonl'', ''ev-5.jsonl'', ''hb'']" by code_simp
  have seqs: "seq_of_name ''ev-3.jsonl'' = Some 3" "seq_of_name ''ev-5.jsonl'' = Some 5" "seq_of_name ''hb'' = None" by code_simp+
  have scan: "scan_exchange_dir (Some [''ev-3.jsonl'', ''hb'', ''ev-5.jsonl'']) = Inr [(3, ''ev-3.jsonl''), (5, ''ev-5.jsonl'')]"
    by (simp add: scan_exchange_dir_def names seqs)
  have run: "settle (\<lambda>log h records n. Some (log @ [n])) sample_entry (Some [''ev-3.jsonl'', ''hb'', ''ev-5.jsonl'']) 1 ([] :: nat list)
     = Inr (\<lparr>terminal = 5, gaps = 2, rejected = 2, consumed = 0, last_consumed = None, blocked_at = None,
         rejected_codes = [(3, ''exchange_empty''), (5, ''exchange_unreadable'')]\<rparr>, [])"
    by (simp add: settle_def scan settle_loop_in_order above_def settle_one_def read_and_validate_def sample_entry_def parse_exchange_def
        MAX_FILE_BYTES_def skip_gap_def new_pass_def)
  from settle_accounts [OF this scan] run show ?thesis by simp
qed

end
