(* ===== verification/Store.thy ===== *)
theory Store
  imports Ingest
begin

text \<open>
  Journal ingestion of the history store (\<open>web/incident_history.py\<close>, the journal section): one pass over the
  exchange directory in which every settlement is a SQLite transaction of its own. The tables are lists of
  rows in insertion order; a failed statement or commit is an outcome of the transaction, also the commit that
  landed although it was reported as failed. Integers that do not fit SQLite's 64 bits raise \<open>OverflowError\<close>.
\<close>

section \<open>Tables\<close>

definition CODE_INGEST_APPLY_FAILED :: string where "CODE_INGEST_APPLY_FAILED = ''history_ingest_apply_failed''"
definition CODE_EXCHANGE_UNREADABLE :: string where "CODE_EXCHANGE_UNREADABLE = ''history_journal_exchange_unreadable''"

record run_row =
  r_seq :: nat
  r_run :: string
  r_epoch :: int
  r_boundary :: string
  r_counts :: "int list"
  r_first :: "pyval option"
  r_last :: "pyval option"
  r_records :: nat
  r_events :: int

record event_rec =
  v_seq :: nat
  v_ts :: pyval
  v_cls :: string
  v_proto :: string
  v_port :: int
  v_dcls :: string
  v_fp :: "string option"
  v_n :: int

datatype audit_row = Gap nat | Rejected nat string

record store =
  s_terminal :: nat
  s_last :: "nat option"
  s_gaps :: nat
  s_rejected :: nat
  s_runs :: "run_row list"
  s_events :: "event_rec list"
  s_audit :: "audit_row list"

definition new_store :: store where
  "new_store = \<lparr>s_terminal = 0, s_last = None, s_gaps = 0, s_rejected = 0, s_runs = [], s_events = [], s_audit = []\<rparr>"

section \<open>Rows of a validated file\<close>

definition int_at :: "obj \<Rightarrow> string \<Rightarrow> int" where
  "int_at d k = (case pgetN d k of PInt i \<Rightarrow> i | _ \<Rightarrow> 0)"

definition opt_str :: "pyval \<Rightarrow> string option" where
  "opt_str v = (case v of PStr s \<Rightarrow> Some s | _ \<Rightarrow> None)"

text \<open>\<open>min\<close> and \<open>max\<close> of the time stamps: the first least and the first greatest value.\<close>

definition least_ts :: "pyval list \<Rightarrow> pyval option" where
  "least_ts vs = (case vs of [] \<Rightarrow> None | v # rest \<Rightarrow> Some (foldl (\<lambda>m w. if num_value w < num_value m then w else m) v rest))"

definition greatest_ts :: "pyval list \<Rightarrow> pyval option" where
  "greatest_ts vs = (case vs of [] \<Rightarrow> None | v # rest \<Rightarrow> Some (foldl (\<lambda>m w. if num_value m < num_value w then w else m) v rest))"

definition event_row_of :: "nat \<Rightarrow> pyval \<Rightarrow> event_rec" where
  "event_row_of n v =
     (let d = dict_items v
      in \<lparr>v_seq = n, v_ts = pgetN d ''ts'', v_cls = str_at d ''cls'', v_proto = str_at d ''proto'', v_port = int_at d ''port'',
          v_dcls = (case pgetN d ''dcls'' of PStr s \<Rightarrow> s | _ \<Rightarrow> ''NONE''), v_fp = opt_str (pgetN d ''fp''), v_n = int_at d ''n''\<rparr>)"

definition run_row_of :: "nat \<Rightarrow> pyval \<Rightarrow> pyval list \<Rightarrow> run_row" where
  "run_row_of n header records =
     (let h = dict_items header; stamps = map (\<lambda>v. pgetN (dict_items v) ''ts'') records
      in \<lparr>r_seq = n, r_run = str_at h ''run'', r_epoch = int_at h ''epoch'', r_boundary = str_at h ''boundary'',
          r_counts = map (int_at h) COUNT_FIELDS, r_first = least_ts stamps, r_last = greatest_ts stamps,
          r_records = length records, r_events = sum_list (map (\<lambda>v. int_at (dict_items v) ''n'') records)\<rparr>)"

definition fits64 :: "int \<Rightarrow> bool" where
  "fits64 i \<longleftrightarrow> - (2 ^ 63) \<le> i \<and> i < 2 ^ 63"

definition row_fits :: "run_row \<Rightarrow> bool" where
  "row_fits r \<longleftrightarrow> fits64 (int (r_seq r)) \<and> fits64 (r_epoch r) \<and> list_all fits64 (r_counts r) \<and> fits64 (r_events r)"

definition event_fits :: "event_rec \<Rightarrow> bool" where
  "event_fits e \<longleftrightarrow> fits64 (int (v_seq e)) \<and> fits64 (v_port e) \<and> fits64 (v_n e)"

section \<open>Transactions\<close>

datatype commit = Landed | RolledBack | LandedUnseen

definition transact :: "commit \<Rightarrow> 'a \<Rightarrow> 'a \<Rightarrow> 'a \<times> bool" where
  "transact c new old = (case c of Landed \<Rightarrow> (new, True) | RolledBack \<Rightarrow> (old, False) | LandedUnseen \<Rightarrow> (new, False))"

definition settle_gap :: "nat \<Rightarrow> nat \<Rightarrow> store \<Rightarrow> store" where
  "settle_gap seq n st =
     st\<lparr>s_audit := s_audit st @ map Gap [seq..<n], s_terminal := n - 1, s_gaps := s_gaps st + (n - seq)\<rparr>"

definition settle_rejected :: "nat \<Rightarrow> string \<Rightarrow> store \<Rightarrow> store" where
  "settle_rejected n code st =
     st\<lparr>s_audit := s_audit st @ [Rejected n code], s_terminal := n, s_rejected := s_rejected st + 1\<rparr>"

definition apply_locked :: "pyval \<Rightarrow> pyval list \<Rightarrow> nat \<Rightarrow> store \<Rightarrow> store" where
  "apply_locked header records n st =
     st\<lparr>s_runs := s_runs st @ [run_row_of n header records], s_events := s_events st @ map (event_row_of n) records,
        s_terminal := n, s_last := Some n\<rparr>"

section \<open>One pass\<close>

record tally =
  t_consumed :: nat
  t_gaps :: nat
  t_rejected :: nat
  t_blocked :: "nat option"

definition new_tally :: tally where
  "new_tally = \<lparr>t_consumed = 0, t_gaps = 0, t_rejected = 0, t_blocked = None\<rparr>"

datatype flow = GoOn | Blocked | Crashed exn

text \<open>Reading a file: bytes that are not UTF-8 are refused like a file that cannot be read.\<close>

definition read_outcome :: "dir_entry \<Rightarrow> nat \<Rightarrow> string + line list \<times> pyval list" where
  "read_outcome e n = (case read_and_validate e n of Inl _ \<Rightarrow> Inl ''exchange_unreadable'' | Inr outcome \<Rightarrow> outcome)"

definition first_object :: "line list \<Rightarrow> pyval" where
  "first_object ls = (case ls of Some v # _ \<Rightarrow> v | _ \<Rightarrow> PNone)"

definition blocked_tally :: "nat \<Rightarrow> tally \<Rightarrow> tally" where
  "blocked_tally n r = r\<lparr>t_blocked := Some n\<rparr>"

definition gap_step :: "(bool \<Rightarrow> nat \<Rightarrow> commit) \<Rightarrow> nat \<Rightarrow> nat \<Rightarrow> tally \<times> store \<Rightarrow> (tally \<times> store) \<times> flow" where
  "gap_step commits seq n state =
     (case state of (r, st) \<Rightarrow>
        if n = seq then (state, GoOn)
        else if \<not> fits64 (int (n - 1)) then (state, Crashed OverflowError)
        else (let (st', ok) = transact (commits True seq) (settle_gap seq n st) st
              in if ok then ((r\<lparr>t_gaps := t_gaps r + (n - seq)\<rparr>, st'), GoOn) else ((blocked_tally seq r, st'), Blocked)))"

definition file_step :: "(nat \<Rightarrow> dir_entry) \<Rightarrow> (bool \<Rightarrow> nat \<Rightarrow> commit) \<Rightarrow> nat \<Rightarrow> tally \<times> store \<Rightarrow> (tally \<times> store) \<times> flow" where
  "file_step look commits n state =
     (case state of (r, st) \<Rightarrow>
        (case read_outcome (look n) n of
           Inl code \<Rightarrow>
             if \<not> fits64 (int n) then (state, Crashed OverflowError)
             else (let (st', ok) = transact (commits False n) (settle_rejected n code st) st
                   in if ok then ((r\<lparr>t_rejected := t_rejected r + 1\<rparr>, st'), GoOn) else ((blocked_tally n r, st'), Blocked))
         | Inr (body, records) \<Rightarrow>
             if \<not> (row_fits (run_row_of n (first_object body) records) \<and> list_all event_fits (map (event_row_of n) records))
             then (state, Crashed OverflowError)
             else (let (st', ok) = transact (commits False n) (apply_locked (first_object body) records n st) st
                   in if ok then ((r\<lparr>t_consumed := t_consumed r + 1\<rparr>, st'), GoOn) else ((blocked_tally n r, st'), Blocked))))"

function ingest_loop :: "(nat \<Rightarrow> dir_entry) \<Rightarrow> (bool \<Rightarrow> nat \<Rightarrow> commit) \<Rightarrow> nat list \<Rightarrow> nat \<Rightarrow> tally \<times> store \<Rightarrow> (tally \<times> store) \<times> flow" where
  "ingest_loop look commits present seq state =
     (if seq \<in> set present \<or> list_ex (\<lambda>m. seq < m) present
      then (let n = next_present present seq
            in (case gap_step commits seq n state of
                  (state', GoOn) \<Rightarrow>
                    (case file_step look commits n state' of
                       (state'', GoOn) \<Rightarrow> ingest_loop look commits present (Suc n) state''
                     | stopped \<Rightarrow> stopped)
                | stopped \<Rightarrow> stopped))
      else (state, GoOn))"
  by pat_completeness auto
termination ingest_loop
proof (relation "measure (\<lambda>(look, commits, present, seq, state). card {m \<in> set present. seq \<le> m})", goal_cases)
  case (2 look commits present seq state n)
  note f = next_present_facts [OF 2(1)]
  have "n \<in> {m \<in> set present. seq \<le> m}" "n \<notin> {m \<in> set present. Suc n \<le> m}" using f(1,2) 2(2) by simp_all
  moreover have "{m \<in> set present. Suc n \<le> m} \<subseteq> {m \<in> set present. seq \<le> m}" using f(2) 2(2) by auto
  ultimately have "{m \<in> set present. Suc n \<le> m} \<subset> {m \<in> set present. seq \<le> m}" by (metis psubsetI)
  then show ?case by (simp add: psubset_card_mono)
qed simp

declare ingest_loop.simps [simp del]

text \<open>The store with the journal's own health, as the publishing thread sees it.\<close>

record monitor =
  m_store :: store
  m_degraded :: bool
  m_error :: "string option"
  m_tally :: "tally option"

definition record_failure :: "string \<Rightarrow> monitor \<Rightarrow> monitor" where
  "record_failure code m = m\<lparr>m_degraded := True, m_error := Some code\<rparr>"

text \<open>
  A pass as the publication drives it: an exception of any kind is contained, the open transaction rolled back
  and the failure recorded; only a pass that ends with nothing blocked clears the degradation.
\<close>

definition publish_gate ::
    "(string \<Rightarrow> dir_entry) \<Rightarrow> (bool \<Rightarrow> nat \<Rightarrow> commit) \<Rightarrow> string list option \<Rightarrow> monitor \<Rightarrow> monitor" where
  "publish_gate entry commits listing m =
     (case scan_exchange_dir listing of
        Inl e \<Rightarrow> record_failure CODE_EXCHANGE_UNREADABLE (m\<lparr>m_tally := Some new_tally\<rparr>)
      | Inr files \<Rightarrow>
          (case ingest_loop (\<lambda>n. case dict_get files n of Some name \<Rightarrow> entry name | None \<Rightarrow> Gone) commits (map fst files)
                  (s_terminal (m_store m) + 1) (new_tally, m_store m) of
             ((r, st), GoOn) \<Rightarrow> m\<lparr>m_store := st, m_tally := Some r, m_degraded := False, m_error := None\<rparr>
           | ((r, st), _) \<Rightarrow> record_failure CODE_INGEST_APPLY_FAILED (m\<lparr>m_store := st, m_tally := Some r\<rparr>)))"

section \<open>A pass in order\<close>

fun ingest_in_order :: "(nat \<Rightarrow> dir_entry) \<Rightarrow> (bool \<Rightarrow> nat \<Rightarrow> commit) \<Rightarrow> nat list \<Rightarrow> tally \<times> store \<Rightarrow> (tally \<times> store) \<times> flow" where
  "ingest_in_order look commits [] state = (state, GoOn)"
| "ingest_in_order look commits (n # ns) state =
     (case gap_step commits (s_terminal (snd state) + 1) n state of
        (state', GoOn) \<Rightarrow>
          (case file_step look commits n state' of
             (state'', GoOn) \<Rightarrow> ingest_in_order look commits ns state''
           | stopped \<Rightarrow> stopped)
      | stopped \<Rightarrow> stopped)"

lemma transact_ok: "transact c new old = (st', ok) \<Longrightarrow> (ok \<longrightarrow> st' = new) \<and> (st' = new \<or> st' = old)"
  by (cases c) (auto simp: transact_def)

text \<open>The ways a step can end.\<close>

lemma gap_step_cases:
  assumes "gap_step commits seq n (r, st) = ((r', st'), fl)"
  obtains (none) "n = seq" "r' = r" "st' = st" "fl = GoOn"
    | (crash) "n \<noteq> seq" "\<not> fits64 (int (n - 1))" "r' = r" "st' = st" "fl = Crashed OverflowError"
    | (settled) "n \<noteq> seq" "fits64 (int (n - 1))" "st' = settle_gap seq n st" "r' = r\<lparr>t_gaps := t_gaps r + (n - seq)\<rparr>" "fl = GoOn"
    | (failed) "n \<noteq> seq" "st' = st \<or> st' = settle_gap seq n st" "r' = blocked_tally seq r" "fl = Blocked" "commits True seq \<noteq> Landed"
proof (cases "n = seq \<or> \<not> fits64 (int (n - 1))")
  case True
  show ?thesis
  proof (cases "n = seq")
    case True
    with assms show ?thesis by (intro none) (simp_all add: gap_step_def)
  next
    case False
    with True assms show ?thesis by (intro crash) (simp_all add: gap_step_def)
  qed
next
  case False
  obtain st1 ok where t: "transact (commits True seq) (settle_gap seq n st) st = (st1, ok)" by (rule prod.exhaust)
  from transact_ok [OF t] assms False t show ?thesis
    by (cases ok) (auto simp: gap_step_def transact_def intro: settled failed split: commit.splits)
qed

lemma file_step_cases:
  assumes "file_step look commits n (r, st) = ((r', st'), fl)"
  obtains (crash) "r' = r" "st' = st" "fl = Crashed OverflowError"
    | (rejected) code where "read_outcome (look n) n = Inl code" "st' = settle_rejected n code st"
        "r' = r\<lparr>t_rejected := t_rejected r + 1\<rparr>" "fl = GoOn"
    | (applied) body records where "read_outcome (look n) n = Inr (body, records)" "st' = apply_locked (first_object body) records n st"
        "r' = r\<lparr>t_consumed := t_consumed r + 1\<rparr>" "fl = GoOn"
    | (failed) "st' = st \<or> (\<exists>code. read_outcome (look n) n = Inl code \<and> st' = settle_rejected n code st)
          \<or> (\<exists>body records. read_outcome (look n) n = Inr (body, records) \<and> st' = apply_locked (first_object body) records n st)"
        "r' = blocked_tally n r" "fl = Blocked" "commits False n \<noteq> Landed"
proof (cases "read_outcome (look n) n")
  case (Inl code)
  obtain st1 ok where t: "transact (commits False n) (settle_rejected n code st) st = (st1, ok)" by (rule prod.exhaust)
  show ?thesis
  proof (cases "fits64 (int n)")
    case False
    with assms Inl show ?thesis by (intro crash) (simp_all add: file_step_def)
  next
    case True
    with transact_ok [OF t] assms Inl t show ?thesis
      by (cases ok) (auto simp: file_step_def transact_def intro: rejected failed split: commit.splits)
  qed
next
  case (Inr p)
  obtain body records where p: "p = (body, records)" by (cases p)
  obtain st1 ok where t: "transact (commits False n) (apply_locked (first_object body) records n st) st = (st1, ok)" by (rule prod.exhaust)
  show ?thesis
  proof (cases "row_fits (run_row_of n (first_object body) records) \<and> list_all event_fits (map (event_row_of n) records)")
    case False
    with assms Inr p have "((r, st), Crashed OverflowError) = ((r', st'), fl)" unfolding file_step_def by (simp only: case_prod_conv sum.case if_True simp_thms)
    then show ?thesis by (intro crash) simp_all
  next
    case True
    with assms Inr p have e: "(let (st', ok) = (st1, ok)
        in if ok then ((r\<lparr>t_consumed := t_consumed r + 1\<rparr>, st'), GoOn) else ((blocked_tally n r, st'), Blocked)) = ((r', st'), fl)"
      unfolding file_step_def t [symmetric] by (simp only: case_prod_conv sum.case if_False simp_thms)
    show ?thesis
    proof (cases ok)
      case True
      with e transact_ok [OF t] Inr p show ?thesis by (intro applied [of body records]) simp_all
    next
      case False
      with t have "commits False n \<noteq> Landed" by (auto simp: transact_def)
      with e False transact_ok [OF t] Inr p show ?thesis by (intro failed) auto
    qed
  qed
qed

lemma gap_step_on: "gap_step commits seq n (r, st) = ((r', st'), GoOn) \<Longrightarrow> seq \<le> n \<Longrightarrow> s_terminal st + 1 = seq \<Longrightarrow> s_terminal st' + 1 = n"
  by (erule gap_step_cases) (auto simp: settle_gap_def)

lemma file_step_on: "file_step look commits n (r, st) = ((r', st'), GoOn) \<Longrightarrow> s_terminal st' = n"
  by (erule file_step_cases) (auto simp: settle_rejected_def apply_locked_def)

lemma ingest_loop_in_order:
  "s_terminal (snd state) + 1 = seq \<Longrightarrow> ingest_loop look commits present seq state = ingest_in_order look commits (above present seq) state"
proof (induction look commits present seq state rule: ingest_loop.induct)
  case (1 look commits present seq state)
  show ?case
  proof (cases "seq \<in> set present \<or> list_ex (\<lambda>m. seq < m) present")
    case False
    then show ?thesis by (simp add: ingest_loop.simps above_none)
  next
    case True
    let ?n = "next_present present seq"
    obtain s1 f1 where g: "gap_step commits seq ?n state = (s1, f1)" by (rule prod.exhaust)
    obtain s2 f2 where h: "file_step look commits ?n s1 = (s2, f2)" by (rule prod.exhaust)
    have loop: "ingest_loop look commits present seq state =
        (case f1 of GoOn \<Rightarrow> (case f2 of GoOn \<Rightarrow> ingest_loop look commits present (Suc ?n) s2 | _ \<Rightarrow> (s2, f2)) | _ \<Rightarrow> (s1, f1))"
      by (subst ingest_loop.simps) (simp add: True Let_def g h split: flow.split)
    have ref: "ingest_in_order look commits (above present seq) state =
        (case f1 of GoOn \<Rightarrow> (case f2 of GoOn \<Rightarrow> ingest_in_order look commits (above present (Suc ?n)) s2 | _ \<Rightarrow> (s2, f2)) | _ \<Rightarrow> (s1, f1))"
      using 1(2) g h by (simp add: above_step [OF True] split: flow.split)
    show ?thesis
    proof (cases "f1 = GoOn \<and> f2 = GoOn")
      case False
      then show ?thesis unfolding loop ref by (cases f1; cases f2) simp_all
    next
      case on: True
      have "s_terminal (snd s2) = ?n" using file_step_on [of look commits ?n "fst s1" "snd s1" "fst s2" "snd s2"] h on by simp
      then have "s_terminal (snd s2) + 1 = Suc ?n" by simp
      from 1(1) [OF True refl _ _ _ _ this] g h on show ?thesis by (simp add: loop ref)
    qed
  qed
qed

section \<open>The ledger of numbers\<close>

definition audit_seq :: "audit_row \<Rightarrow> nat" where
  "audit_seq a = (case a of Gap n \<Rightarrow> n | Rejected n _ \<Rightarrow> n)"

definition is_gap :: "audit_row \<Rightarrow> bool" where
  "is_gap a = (case a of Gap n \<Rightarrow> True | Rejected n _ \<Rightarrow> False)"

text \<open>Every number up to the terminal has exactly one row, and the counters and the events agree with the rows.\<close>

definition numbers_ok :: "nat list \<Rightarrow> nat list \<Rightarrow> nat \<Rightarrow> bool" where
  "numbers_ok rs as t \<longleftrightarrow> sorted rs \<and> sorted as \<and> distinct (rs @ as) \<and> set (rs @ as) = {1..t}"

lemma numbers_le:
  assumes "numbers_ok rs as t"
  shows "x \<in> set rs \<Longrightarrow> x \<le> t" "x \<in> set as \<Longrightarrow> x \<le> t"
proof -
  have "x \<in> {1..t}" if "x \<in> set (rs @ as)" using assms that unfolding numbers_ok_def by blast
  then show "x \<in> set rs \<Longrightarrow> x \<le> t" "x \<in> set as \<Longrightarrow> x \<le> t" by auto
qed

lemma numbers_gap:
  assumes "numbers_ok rs as t" "t \<le> u"
  shows "numbers_ok rs (as @ [Suc t..<Suc u]) u"
proof -
  note le = numbers_le [OF assms(1)]
  have "set (rs @ as @ [Suc t..<Suc u]) = {1..t} \<union> {Suc t..u}" using assms(1) unfolding numbers_ok_def by auto
  also have "\<dots> = {1..u}" using assms(2) by auto
  finally have "set (rs @ as @ [Suc t..<Suc u]) = {1..u}" .
  moreover have "sorted (as @ [Suc t..<Suc u])"
    using assms(1) by (auto simp: numbers_ok_def sorted_append simp del: upt_Suc dest!: le(2))
  moreover have "distinct (rs @ as @ [Suc t..<Suc u])"
    using assms(1) le by (auto simp: numbers_ok_def simp del: upt_Suc dest: le)
  ultimately show ?thesis using assms(1) by (simp add: numbers_ok_def del: upt_Suc)
qed

lemma numbers_run:
  assumes "numbers_ok rs as t"
  shows "numbers_ok (rs @ [Suc t]) as (Suc t)"
proof -
  note le = numbers_le [OF assms]
  have "set ((rs @ [Suc t]) @ as) = insert (Suc t) {1..t}" using assms unfolding numbers_ok_def by auto
  also have "\<dots> = {1..Suc t}" by auto
  finally have "set ((rs @ [Suc t]) @ as) = {1..Suc t}" .
  moreover have "sorted (rs @ [Suc t])" using assms le(1) by (auto simp: numbers_ok_def sorted_append intro: le_SucI)
  moreover have "distinct ((rs @ [Suc t]) @ as)" using assms le by (auto simp: numbers_ok_def dest: le)
  ultimately show ?thesis using assms by (simp add: numbers_ok_def)
qed

text \<open>Every number up to the terminal has exactly one row, and the counters and the events agree with the rows.\<close>

definition counters_ok :: "store \<Rightarrow> bool" where
  "counters_ok st \<longleftrightarrow> s_gaps st = length (filter is_gap (s_audit st)) \<and> s_rejected st = length (filter (\<lambda>a. \<not> is_gap a) (s_audit st))"

definition events_of :: "store \<Rightarrow> nat \<Rightarrow> event_rec list" where
  "events_of st n = filter (\<lambda>e. v_seq e = n) (s_events st)"

definition events_ok :: "store \<Rightarrow> bool" where
  "events_ok st \<longleftrightarrow>
     (\<forall>r\<in>set (s_runs st). length (events_of st (r_seq r)) = r_records r \<and> sum_list (map v_n (events_of st (r_seq r))) = r_events r)
     \<and> v_seq ` set (s_events st) \<subseteq> set (map r_seq (s_runs st))"

definition ledger_ok :: "store \<Rightarrow> bool" where
  "ledger_ok st \<longleftrightarrow> numbers_ok (map r_seq (s_runs st)) (map audit_seq (s_audit st)) (s_terminal st) \<and> counters_ok st \<and> events_ok st"

lemma ledger_rejected:
  assumes "ledger_ok st" "n = s_terminal st + 1"
  shows "ledger_ok (settle_rejected n code st)"
proof -
  have "numbers_ok (map r_seq (s_runs st)) (map audit_seq (s_audit st) @ [n]) n"
    using numbers_gap [of _ _ "s_terminal st" n] assms by (simp add: ledger_ok_def)
  with assms(1) show ?thesis
    by (simp add: ledger_ok_def settle_rejected_def counters_ok_def events_ok_def events_of_def audit_seq_def is_gap_def)
qed

lemma ledger_gap:
  assumes "ledger_ok st" "seq = s_terminal st + 1" "seq < n"
  shows "ledger_ok (settle_gap seq n st)"
proof -
  have g: "audit_seq \<circ> Gap = id" "is_gap \<circ> Gap = (\<lambda>x. True)" "(\<lambda>a. \<not> is_gap a) \<circ> Gap = (\<lambda>x. False)"
    by (simp_all add: audit_seq_def is_gap_def comp_def id_def)
  have "numbers_ok (map r_seq (s_runs st)) (map audit_seq (s_audit st) @ [seq..<n]) (n - 1)"
    using numbers_gap [of _ _ "s_terminal st" "n - 1"] assms by (simp add: ledger_ok_def del: upt_Suc)
  with assms(1) show ?thesis
    unfolding ledger_ok_def settle_gap_def counters_ok_def events_ok_def events_of_def by (simp add: filter_map g)
qed

lemma run_row_fields:
  "r_seq (run_row_of n h vs) = n" "r_records (run_row_of n h vs) = length vs"
  "r_events (run_row_of n h vs) = sum_list (map (\<lambda>v. int_at (dict_items v) ''n'') vs)"
  by (simp_all add: run_row_of_def Let_def)

lemma event_row_fields: "v_seq (event_row_of n v) = n" "v_n (event_row_of n v) = int_at (dict_items v) ''n''"
  by (simp_all add: event_row_of_def Let_def)

lemma ledger_applied:
  assumes "ledger_ok st" "n = s_terminal st + 1"
  shows "ledger_ok (apply_locked h vs n st)"
proof -
  let ?st = "apply_locked h vs n st"
  from assms(1) have num: "numbers_ok (map r_seq (s_runs st)) (map audit_seq (s_audit st)) (s_terminal st)" and ev: "events_ok st"
    by (simp_all add: ledger_ok_def)
  have fresh: "n \<notin> set (map r_seq (s_runs st))" using numbers_le(1) [OF num, of n] assms(2) by auto
  with ev have "n \<notin> v_seq ` set (s_events st)" unfolding events_ok_def by blast
  then have old: "events_of st n = []" by (auto simp: events_of_def filter_empty_conv)
  have "filter (\<lambda>e. v_seq e = n) (map (event_row_of n) vs) = map (event_row_of n) vs" by (rule filter_True) (simp add: event_row_fields)
  with old have this_run: "events_of ?st n = map (event_row_of n) vs" by (simp add: events_of_def apply_locked_def)
  have other: "events_of ?st m = events_of st m" if "m \<noteq> n" for m
    using that by (auto simp: events_of_def apply_locked_def event_row_fields filter_empty_conv)
  have "numbers_ok (map r_seq (s_runs st) @ [n]) (map audit_seq (s_audit st)) n" using numbers_run [OF num] assms(2) by simp
  moreover have "events_ok ?st"
    unfolding events_ok_def
  proof (intro conjI ballI)
    fix r assume "r \<in> set (s_runs ?st)"
    then consider "r \<in> set (s_runs st)" | "r = run_row_of n h vs" by (auto simp: apply_locked_def)
    then have "length (events_of ?st (r_seq r)) = r_records r \<and> sum_list (map v_n (events_of ?st (r_seq r))) = r_events r"
    proof cases
      case 1
      with fresh have "r_seq r \<noteq> n" by auto
      with other ev 1 show ?thesis by (simp add: events_ok_def)
    next
      case 2
      then show ?thesis by (simp add: run_row_fields this_run comp_def event_row_fields)
    qed
    then show "length (events_of ?st (r_seq r)) = r_records r" "sum_list (map v_n (events_of ?st (r_seq r))) = r_events r" by simp_all
  next
    show "v_seq ` set (s_events ?st) \<subseteq> set (map r_seq (s_runs ?st))"
      using ev by (auto simp: events_ok_def apply_locked_def run_row_fields event_row_fields)
  qed
  ultimately show ?thesis using assms(1)
    by (simp add: ledger_ok_def counters_ok_def) (simp add: apply_locked_def run_row_fields)
qed

section \<open>Every pass keeps the ledger\<close>

definition keeps :: "store \<Rightarrow> store \<Rightarrow> bool" where
  "keeps st st' \<longleftrightarrow> (ledger_ok st \<longrightarrow> ledger_ok st') \<and> s_terminal st \<le> s_terminal st' \<and> prefix (s_runs st) (s_runs st') \<and> prefix (s_audit st) (s_audit st')"

lemma keeps_refl [simp]: "keeps st st"
  by (simp add: keeps_def)

lemma keeps_trans: "keeps a b \<Longrightarrow> keeps b c \<Longrightarrow> keeps a c"
  unfolding keeps_def by (auto intro: prefix_order.trans)

lemma keeps_steps:
  "n = s_terminal st + 1 \<Longrightarrow> keeps st (settle_rejected n code st)"
  "n = s_terminal st + 1 \<Longrightarrow> keeps st (apply_locked h vs n st)"
  "seq = s_terminal st + 1 \<Longrightarrow> seq < n \<Longrightarrow> keeps st (settle_gap seq n st)"
  using ledger_rejected ledger_applied ledger_gap
  by (auto simp: keeps_def) (auto simp: settle_rejected_def apply_locked_def settle_gap_def)

lemma gap_step_keeps:
  "gap_step commits seq n (r, st) = ((r', st'), fl) \<Longrightarrow> seq = s_terminal st + 1 \<Longrightarrow> seq \<le> n \<Longrightarrow> keeps st st'"
  by (erule gap_step_cases) (auto intro: keeps_steps)

lemma file_step_keeps:
  "file_step look commits n (r, st) = ((r', st'), fl) \<Longrightarrow> n = s_terminal st + 1 \<Longrightarrow> keeps st st'"
  by (erule file_step_cases) (auto intro: keeps_steps)

lemma ingest_keeps:
  "ingest_in_order look commits ns (r, st) = ((r', st'), fl) \<Longrightarrow> sorted ns \<Longrightarrow> distinct ns \<Longrightarrow> (\<forall>n\<in>set ns. s_terminal st < n) \<Longrightarrow> keeps st st'"
proof (induction ns arbitrary: r st)
  case Nil
  then show ?case by simp
next
  case (Cons n ns)
  obtain r1 st1 f1 where g: "gap_step commits (s_terminal st + 1) n (r, st) = ((r1, st1), f1)" by (metis prod.exhaust)
  from gap_step_keeps [OF g refl] Cons.prems(4) have k1: "keeps st st1" by simp
  show ?case
  proof (cases "f1 = GoOn")
    case False
    with Cons.prems(1) g have "st' = st1" by (cases f1) simp_all
    with k1 show ?thesis by simp
  next
    case True
    obtain r2 st2 f2 where h: "file_step look commits n (r1, st1) = ((r2, st2), f2)" by (metis prod.exhaust)
    have n: "s_terminal st1 + 1 = n" using gap_step_on [of commits "s_terminal st + 1" n r st r1 st1] g True Cons.prems(4) by simp
    from file_step_keeps [OF h] n have k2: "keeps st1 st2" by simp
    show ?thesis
    proof (cases "f2 = GoOn")
      case False
      with Cons.prems(1) g h True have "st' = st2" by (cases f2) simp_all
      with keeps_trans [OF k1 k2] show ?thesis by simp
    next
      case on: True
      have t: "s_terminal st2 = n" using file_step_on [of look commits n r1 st1 r2 st2] h on by simp
      from Cons.prems(2,3) have ns: "sorted ns" "distinct ns" "\<forall>m\<in>set ns. s_terminal st2 < m"
        by (simp_all add: t) (metis order_le_imp_less_or_eq)
      have "ingest_in_order look commits ns (r2, st2) = ((r', st'), fl)" using Cons.prems(1) g h True on by simp
      from keeps_trans [OF k1 keeps_trans [OF k2 Cons.IH [OF this ns]]] show ?thesis .
    qed
  qed
qed

lemma gate_keeps: "keeps (m_store m) (m_store (publish_gate entry commits listing m))"
proof (cases "scan_exchange_dir listing")
  case (Inl e)
  then show ?thesis by (simp add: publish_gate_def record_failure_def)
next
  case (Inr files)
  define look where "look = (\<lambda>n. case dict_get files n of Some name \<Rightarrow> entry name | None \<Rightarrow> Gone)"
  let ?ns = "above (map fst files) (s_terminal (m_store m) + 1)"
  obtain r st fl where run: "ingest_in_order look commits ?ns (new_tally, m_store m) = ((r, st), fl)" by (metis prod.exhaust)
  have "keeps (m_store m) st" by (rule ingest_keeps [OF run]) (auto simp: above_def)
  moreover have "m_store (publish_gate entry commits listing m) = st"
    using Inr run ingest_loop_in_order [of "(new_tally, m_store m)" "s_terminal (m_store m) + 1" look commits "map fst files"]
    by (simp add: publish_gate_def look_def record_failure_def split: flow.split)
  ultimately show ?thesis by simp
qed

text \<open>A history of passes, each over a directory and with commit outcomes of its own.\<close>

type_synonym pass_input = "(string \<Rightarrow> dir_entry) \<times> (bool \<Rightarrow> nat \<Rightarrow> commit) \<times> string list option"

definition next_pass :: "monitor \<Rightarrow> pass_input \<Rightarrow> monitor" where
  "next_pass m x = (case x of (entry, commits, listing) \<Rightarrow> publish_gate entry commits listing m)"

definition new_monitor :: monitor where
  "new_monitor = \<lparr>m_store = new_store, m_degraded = False, m_error = None, m_tally = None\<rparr>"

lemma next_pass_keeps: "keeps (m_store m) (m_store (next_pass m x))"
  by (cases x) (simp add: next_pass_def gate_keeps)

interpretation passes: monotone_machine next_pass "\<lambda>m. ledger_ok (m_store m)" "\<lambda>m x. True" "\<lambda>m. s_terminal (m_store m)"
  using next_pass_keeps by unfold_locales (auto simp: keeps_def)

lemma new_store_ok: "ledger_ok new_store"
  by (simp add: ledger_ok_def numbers_ok_def counters_ok_def events_ok_def new_store_def)

text \<open>
  C3: every number is settled exactly once. After any history of passes over any directories, with
  transactions that commit, roll back or land although their commit was reported as failed, each number up to the
  terminal has exactly one row, as an ingested run, a gap or a refusal; the two counters count the gap and refusal
  rows, and every run has exactly the event rows its record and event counts say.
\<close>

theorem numbers_settled_once:
  "let st = m_store (foldl next_pass new_monitor xs); seqs = map r_seq (s_runs st) @ map audit_seq (s_audit st)
   in distinct seqs \<and> set seqs = {1..s_terminal st} \<and> sorted (map r_seq (s_runs st))
      \<and> s_gaps st = length (filter is_gap (s_audit st)) \<and> s_rejected st = length (filter (\<lambda>a. \<not> is_gap a) (s_audit st))
      \<and> list_all (\<lambda>r. length (events_of st (r_seq r)) = r_records r \<and> sum_list (map v_n (events_of st (r_seq r))) = r_events r) (s_runs st)"
proof -
  have "ledger_ok (m_store new_monitor)" by (simp add: new_monitor_def new_store_ok)
  then have "ledger_ok (m_store (foldl next_pass new_monitor xs))" by (rule passes.run_inv) (simp add: run_ok_all)
  then show ?thesis by (simp add: ledger_ok_def numbers_ok_def counters_ok_def events_ok_def Let_def list_all_iff)
qed

section \<open>The pass implements the contract\<close>

definition file_storable :: "dir_entry \<Rightarrow> nat \<Rightarrow> bool" where
  "file_storable e n \<longleftrightarrow> fits64 (int n) \<and>
     (case read_and_validate e n of
        Inl _ \<Rightarrow> False
      | Inr (Inl code) \<Rightarrow> True
      | Inr (Inr (body, records)) \<Rightarrow> body \<noteq> [] \<and> row_fits (run_row_of n (first_object body) records) \<and> list_all event_fits (map (event_row_of n) records))"

definition collect_run :: "run_row list apply_fn" where
  "collect_run rows header records n = Some (rows @ [run_row_of n (first_object [header]) records])"

definition same_pass :: "pass \<times> run_row list \<Rightarrow> tally \<times> store \<Rightarrow> bool" where
  "same_pass a b \<longleftrightarrow> terminal (fst a) = s_terminal (snd b) \<and> gaps (fst a) = t_gaps (fst b) \<and> rejected (fst a) = t_rejected (fst b)
     \<and> consumed (fst a) = t_consumed (fst b) \<and> blocked_at (fst a) = t_blocked (fst b) \<and> snd a = s_runs (snd b)"

lemma fits64_below: "fits64 (int n) \<Longrightarrow> fits64 (int (n - 1))"
  by (simp add: fits64_def)

lemma first_object_hd: "body \<noteq> [] \<Longrightarrow> first_object [hd body] = first_object body"
  by (cases body) (simp_all add: first_object_def split: option.split)

lemma step_simulated:
  assumes "same_pass (r, rows) (q, st)" "file_storable (look n) n" "s_terminal st < n"
  shows "\<exists>a q1 st1 b. settle_one collect_run look n (skip_gap (terminal r + 1) n r, rows) = Inr (a, True)
    \<and> gap_step (\<lambda>_ _. Landed) (s_terminal st + 1) n (q, st) = ((q1, st1), GoOn)
    \<and> file_step look (\<lambda>_ _. Landed) n (q1, st1) = (b, GoOn) \<and> same_pass a b \<and> s_terminal (snd b) = n
    \<and> t_blocked (fst b) = t_blocked q"
proof -
  have fit: "fits64 (int n)" "fits64 (int (n - 1))" using assms(2) fits64_below by (simp_all add: file_storable_def)
  obtain q1 st1 where g: "gap_step (\<lambda>_ _. Landed) (s_terminal st + 1) n (q, st) = ((q1, st1), GoOn)"
    and s1: "same_pass (skip_gap (terminal r + 1) n r, rows) (q1, st1)" and q1: "t_blocked q1 = t_blocked q"
  proof (cases "n = s_terminal st + 1")
    case True
    with assms(1) that [of q st] show ?thesis by (simp add: gap_step_def skip_gap_def same_pass_def)
  next
    case False
    with assms(1) fit that [of "q\<lparr>t_gaps := t_gaps q + (n - (s_terminal st + 1))\<rparr>" "settle_gap (s_terminal st + 1) n st"] show ?thesis
      by (simp add: gap_step_def skip_gap_def same_pass_def transact_def settle_gap_def)
  qed
  let ?r1 = "skip_gap (terminal r + 1) n r"
  from assms(2) obtain outcome where o: "read_and_validate (look n) n = Inr outcome"
    by (auto simp: file_storable_def split: sum.splits)
  show ?thesis
  proof (cases outcome)
    case (Inl code)
    have "settle_one collect_run look n (?r1, rows)
        = Inr ((?r1\<lparr>terminal := n, rejected := rejected ?r1 + 1, rejected_codes := dict_set n code (rejected_codes ?r1)\<rparr>, rows), True)"
      using o Inl by (simp add: settle_one_def)
    moreover have "file_step look (\<lambda>_ _. Landed) n (q1, st1) = ((q1\<lparr>t_rejected := t_rejected q1 + 1\<rparr>, settle_rejected n code st1), GoOn)"
      using o Inl fit by (simp add: file_step_def read_outcome_def transact_def)
    ultimately show ?thesis using g s1 q1 by (force simp: same_pass_def settle_rejected_def)
  next
    case (Inr p)
    obtain body records where p: "p = (body, records)" by (cases p)
    from assms(2) o Inr p have b: "body \<noteq> []" "row_fits (run_row_of n (first_object body) records)" "list_all event_fits (map (event_row_of n) records)"
      by (simp_all add: file_storable_def)
    have "settle_one collect_run look n (?r1, rows)
        = Inr ((?r1\<lparr>terminal := n, last_consumed := Some n, consumed := consumed ?r1 + 1\<rparr>, rows @ [run_row_of n (first_object body) records]), True)"
      using o Inr p b(1) by (simp add: settle_one_def collect_run_def first_object_hd)
    moreover have "file_step look (\<lambda>_ _. Landed) n (q1, st1)
        = ((q1\<lparr>t_consumed := t_consumed q1 + 1\<rparr>, apply_locked (first_object body) records n st1), GoOn)"
      using o Inr p b by (simp add: file_step_def read_outcome_def transact_def)
    ultimately show ?thesis using g s1 q1 by (force simp: same_pass_def apply_locked_def)
  qed
qed

lemma sweep_simulated:
  "same_pass (r, rows) (q, st) \<Longrightarrow> (\<forall>n\<in>set ns. file_storable (look n) n) \<Longrightarrow> sorted ns \<Longrightarrow> distinct ns \<Longrightarrow> (\<forall>n\<in>set ns. s_terminal st < n) \<Longrightarrow>
     \<exists>a b. settle_in_order collect_run look ns (r, rows) = Inr a \<and> ingest_in_order look (\<lambda>_ _. Landed) ns (q, st) = (b, GoOn) \<and> same_pass a b
       \<and> t_blocked (fst b) = t_blocked q"
proof (induction ns arbitrary: r rows q st)
  case Nil
  then show ?case by simp
next
  case (Cons n ns)
  from Cons.prems(2,5) have n: "file_storable (look n) n" "s_terminal st < n" by simp_all
  from step_simulated [where look = look, OF Cons.prems(1) n] obtain a q1 st1 b where
    one: "settle_one collect_run look n (skip_gap (terminal r + 1) n r, rows) = Inr (a, True)"
    and g: "gap_step (\<lambda>_ _. Landed) (s_terminal st + 1) n (q, st) = ((q1, st1), GoOn)"
    and h: "file_step look (\<lambda>_ _. Landed) n (q1, st1) = (b, GoOn)" and ab: "same_pass a b" "s_terminal (snd b) = n" "t_blocked (fst b) = t_blocked q" by blast
  from Cons.prems(3,4) have ns: "sorted ns" "distinct ns" "\<forall>m\<in>set ns. s_terminal (snd b) < m"
    by (simp_all add: ab(2)) (metis order_le_imp_less_or_eq)
  obtain r' rows' q' st' where e: "a = (r', rows')" "b = (q', st')" by (metis prod.exhaust)
  from Cons.IH [of r' rows' q' st'] ab ns Cons.prems(2) e one g h show ?case by simp
qed

text \<open>
  C4: The database pass implements the exchange contract. When every transaction commits and every file is
  decodable with numbers of 64 bits, a pass moves the terminal, counts gaps, refusals and runs and stores run rows
  exactly as the contract's \<open>settle\<close> does with a store that keeps those rows, and it clears the degradation.
\<close>

theorem pass_implements_contract:
  assumes "\<forall>name\<in>set names. \<forall>n. seq_of_name name = Some n \<longrightarrow> file_storable (entry name) n" "listing = Some names"
  shows "\<exists>r rows q st. settle collect_run entry listing (s_terminal (m_store m)) (s_runs (m_store m)) = Inr (r, rows)
    \<and> publish_gate entry (\<lambda>_ _. Landed) listing m = \<lparr>m_store = st, m_degraded = False, m_error = None, m_tally = Some q\<rparr>
    \<and> s_terminal st = terminal r \<and> s_runs st = rows \<and> t_gaps q = gaps r \<and> t_rejected q = rejected r \<and> t_consumed q = consumed r
    \<and> blocked_at r = None"
proof -
  obtain files where files: "scan_exchange_dir listing = Inr files" using assms(2) by (simp add: scan_exchange_dir_def)
  have scanned: "\<forall>(n, name)\<in>set files. seq_of_name name = Some n \<and> name \<in> set names"
  proof -
    have "\<forall>(n, name)\<in>set d. seq_of_name name = Some n \<and> name \<in> set names \<Longrightarrow> set ns \<subseteq> set names \<Longrightarrow>
      \<forall>(n, name)\<in>set (foldl (\<lambda>d name. case seq_of_name name of None \<Rightarrow> d | Some n \<Rightarrow> dict_set n name d) d ns). seq_of_name name = Some n \<and> name \<in> set names" for d ns
    proof (induction ns arbitrary: d)
      case (Cons x ns)
      have "\<forall>(n, name)\<in>set (case seq_of_name x of None \<Rightarrow> d | Some n \<Rightarrow> dict_set n x d). seq_of_name name = Some n \<and> name \<in> set names"
        using Cons.prems by (cases "seq_of_name x") (auto dest!: set_dict_set)
      from Cons.IH [OF this] Cons.prems(2) show ?case by simp
    qed simp
    from this [of "[]" "sort names"] files assms(2) show ?thesis by (simp add: scan_exchange_dir_def)
  qed
  define look where "look = (\<lambda>n. case dict_get files n of Some name \<Rightarrow> entry name | None \<Rightarrow> Gone)"
  let ?t = "s_terminal (m_store m)"
  let ?ns = "above (map fst files) (?t + 1)"
  have "file_storable (look n) n" if "n \<in> set ?ns" for n
  proof -
    from that have "n \<in> fst ` set files" by (auto simp: above_def)
    then obtain name where name: "dict_get files n = Some name" by (metis map_of_eq_None_iff option.exhaust)
    from map_of_SomeD [OF this] scanned have "seq_of_name name = Some n" "name \<in> set names" by auto
    with assms(1) name show ?thesis by (auto simp: look_def)
  qed
  moreover have "same_pass (new_pass ?t, s_runs (m_store m)) (new_tally, m_store m)" by (simp add: same_pass_def new_pass_def new_tally_def)
  moreover have "sorted ?ns" "distinct ?ns" "\<forall>n\<in>set ?ns. ?t < n" by (auto simp: above_def)
  ultimately obtain a b where sim: "settle_in_order collect_run look ?ns (new_pass ?t, s_runs (m_store m)) = Inr a"
    "ingest_in_order look (\<lambda>_ _. Landed) ?ns (new_tally, m_store m) = (b, GoOn)" "same_pass a b" "t_blocked (fst b) = None"
    using sweep_simulated [of "new_pass ?t" "s_runs (m_store m)" new_tally "m_store m" ?ns look] by (auto simp: new_tally_def)
  obtain r rows q st where e: "a = (r, rows)" "b = (q, st)" by (metis prod.exhaust)
  have blocked: "blocked_at r = None" using sim(3,4) e by (simp add: same_pass_def)
  have "settle collect_run entry listing ?t (s_runs (m_store m)) = Inr (r, rows)"
    using sim(1) files e settle_loop_in_order [of "(new_pass ?t, s_runs (m_store m))" "?t + 1" collect_run look "map fst files"]
    by (simp add: settle_def look_def new_pass_def)
  moreover have "publish_gate entry (\<lambda>_ _. Landed) listing m = \<lparr>m_store = st, m_degraded = False, m_error = None, m_tally = Some q\<rparr>"
    using sim(2) files e ingest_loop_in_order [of "(new_tally, m_store m)" "?t + 1" look "\<lambda>_ _. Landed" "map fst files"]
    by (simp add: publish_gate_def look_def)
  ultimately show ?thesis using sim(3) blocked e by (auto simp: same_pass_def)
qed


theorem pass_implements_contract_witness:
  "\<exists>r rows q st. settle collect_run (\<lambda>_. Gone) (Some [''ev-5.jsonl'']) (s_terminal (m_store new_monitor)) (s_runs (m_store new_monitor)) = Inr (r, rows)
    \<and> publish_gate (\<lambda>_. Gone) (\<lambda>_ _. Landed) (Some [''ev-5.jsonl'']) new_monitor
        = \<lparr>m_store = st, m_degraded = False, m_error = None, m_tally = Some q\<rparr>
    \<and> s_terminal st = terminal r \<and> s_runs st = rows \<and> t_gaps q = gaps r \<and> t_rejected q = rejected r \<and> t_consumed q = consumed r
    \<and> blocked_at r = None"
proof (rule pass_implements_contract [OF _ refl])
  have "seq_of_name ''ev-5.jsonl'' = Some 5" by code_simp
  then show "\<forall>name\<in>set [''ev-5.jsonl'']. \<forall>n. seq_of_name name = Some n \<longrightarrow> file_storable Gone n"
    by (simp add: file_storable_def read_and_validate_def fits64_def)
qed

section \<open>The table constraints\<close>

definition AUDIT_CODES :: "string list" where
  "AUDIT_CODES = [''sequence_gap'', ''exchange_bad_json'', ''exchange_bad_name'', ''exchange_bad_shape'', ''exchange_empty'',
     ''exchange_event_invalid'', ''exchange_header_invalid'', ''exchange_header_position'', ''exchange_no_header'',
     ''exchange_not_regular'', ''exchange_seq_mismatch'', ''exchange_too_large'', ''exchange_unreadable'']"

text \<open>The \<open>CHECK\<close> constraints of \<open>journal_runs\<close> and \<open>journal_events\<close>.\<close>

definition run_check :: "run_row \<Rightarrow> bool" where
  "run_check r \<longleftrightarrow> length (r_run r) = 32 \<and> 1 \<le> r_epoch r \<and> r_boundary r \<in> set BOUNDS \<and> list_all (\<lambda>i. 0 \<le> i) (r_counts r) \<and> 0 \<le> r_events r"

definition event_check :: "event_rec \<Rightarrow> bool" where
  "event_check e \<longleftrightarrow> 0 \<le> num_value (v_ts e) \<and> v_cls e \<in> set CLASSES \<and> v_proto e \<in> set PROTOS \<and> 0 \<le> v_port e \<and> v_port e \<le> 65535
     \<and> v_dcls e \<in> set (''NONE'' # DCLS) \<and> (case v_fp e of None \<Rightarrow> True | Some f \<Rightarrow> length f = 16 \<and> list_all hex_digit f \<and> v_cls e = ''other'')
     \<and> 1 \<le> v_n e \<and> (v_dcls e = ''NONE'' \<or> 0 < v_port e)"

lemma at_least_int_at: "at_least m (pgetN d k) \<Longrightarrow> m \<le> int_at d k"
  by (simp add: at_least_def int_at_def split: pyval.splits)

lemma one_in_str_at: "one_in names (pgetN d k) \<Longrightarrow> str_at d k \<in> set names \<and> pgetN d k = PStr (str_at d k)"
  by (simp add: one_in_def str_at_def split: pyval.splits)

lemma event_row_select:
  "v_ts (event_row_of n (PDict d)) = pgetN d ''ts''" "v_cls (event_row_of n (PDict d)) = str_at d ''cls''"
  "v_proto (event_row_of n (PDict d)) = str_at d ''proto''" "v_port (event_row_of n (PDict d)) = int_at d ''port''"
  "v_dcls (event_row_of n (PDict d)) = (case pgetN d ''dcls'' of PStr s \<Rightarrow> s | _ \<Rightarrow> ''NONE'')"
  "v_fp (event_row_of n (PDict d)) = opt_str (pgetN d ''fp'')" "v_n (event_row_of n (PDict d)) = int_at d ''n''"
  by (simp_all add: event_row_of_def Let_def)

lemma event_ok_check:
  assumes "event_ok d"
  shows "event_check (event_row_of n (PDict d))"
proof -
  note f = assms [unfolded event_ok_def]
  have ts: "0 \<le> num_value (pgetN d ''ts'')" using f by (simp add: plausible_ts_def split: pyval.splits pyfloat.splits)
  have cls: "str_at d ''cls'' \<in> set CLASSES" "pgetN d ''cls'' = PStr (str_at d ''cls'')" using f one_in_str_at by blast+
  have proto: "str_at d ''proto'' \<in> set PROTOS" using f one_in_str_at by blast
  have port: "0 \<le> int_at d ''port'' \<and> int_at d ''port'' \<le> 65535 \<and> (pgetN d ''port'' \<noteq> PNone \<longrightarrow> 0 < int_at d ''port'')"
    using f by (simp add: port_ok_def int_at_def split: pyval.splits)
  have n: "1 \<le> int_at d ''n''" using f at_least_int_at by blast
  have dcls: "(case pgetN d ''dcls'' of PStr s \<Rightarrow> s | _ \<Rightarrow> ''NONE'') \<in> set (''NONE'' # DCLS)
      \<and> ((case pgetN d ''dcls'' of PStr s \<Rightarrow> s | _ \<Rightarrow> ''NONE'') = ''NONE'' \<or> pgetN d ''port'' \<noteq> PNone)"
  proof (cases "pgetN d ''dcls'' = PNone")
    case True
    then show ?thesis by simp
  next
    case False
    with f have "one_in DCLS (pgetN d ''dcls'')" "pgetN d ''port'' \<noteq> PNone" by blast+
    then show ?thesis by (simp add: one_in_def split: pyval.splits)
  qed
  have fp: "case opt_str (pgetN d ''fp'') of None \<Rightarrow> True | Some s \<Rightarrow> length s = 16 \<and> list_all hex_digit s \<and> str_at d ''cls'' = ''other''"
  proof (cases "pgetN d ''fp'' = PNone")
    case True
    then show ?thesis by (simp add: opt_str_def)
  next
    case False
    with f have "hex_of_length FP_HEX_LEN (pgetN d ''fp'')" "pgetN d ''cls'' = PStr ''other''" by blast+
    then show ?thesis by (simp add: hex_of_length_def opt_str_def FP_HEX_LEN_def str_at_def split: pyval.splits)
  qed
  show ?thesis
    unfolding event_check_def event_row_select using ts cls(1) proto port n dcls fp by (intro conjI) blast+
qed

lemma parse_tail:
  "parse_lines index True seq ls = None \<Longrightarrow> 0 < index \<Longrightarrow> \<exists>vs. ls = map Some vs \<and> list_all validate_event vs"
proof (induction ls arbitrary: index)
  case (Cons l ls)
  from Cons.prems obtain v where v: "l = Some v" "validate_event v" "parse_lines (Suc index) True seq ls = None"
    by (auto split: option.splits if_splits)
  from Cons.IH [OF v(3)] obtain vs where "ls = map Some vs" "list_all validate_event vs" by auto
  with v have "l # ls = map Some (v # vs) \<and> list_all validate_event (v # vs)" by simp
  then show ?case by (intro exI [of _ "v # vs"])
qed simp

lemma parse_unseen: "parse_lines (Suc index) False seq ls \<noteq> None"
  by (induction ls arbitrary: index) (auto split: option.splits)

lemma parse_exchange_shape:
  assumes "parse_exchange ls seq = None"
  obtains h vs where "ls = map Some (h # vs)" "validate_header h" "pgetN (dict_items h) ''seq'' = PInt seq" "list_all validate_event vs"
proof -
  from assms obtain l rest where ls: "ls = l # rest" by (cases ls) (simp_all add: parse_exchange_def)
  with assms have p: "parse_lines 0 False seq (l # rest) = None" by (simp add: parse_exchange_def)
  then obtain v where v: "l = Some v" by (cases l) simp_all
  have tag: "pgetN (dict_items v) ''t'' = PStr ''h''"
  proof (rule ccontr)
    assume "pgetN (dict_items v) ''t'' \<noteq> PStr ''h''"
    with p v have "parse_lines (Suc 0) False seq rest = None" by (simp split: if_splits)
    with parse_unseen show False by blast
  qed
  with p v have h: "validate_header v" "pgetN (dict_items v) ''seq'' = PInt seq" "parse_lines (Suc 0) True seq rest = None"
    by (simp_all split: if_splits)
  from parse_tail [OF h(3)] obtain vs where "rest = map Some vs" "list_all validate_event vs" by auto
  with ls v h(1,2) that [of v vs] show ?thesis by simp
qed

lemma valid_tags:
  "validate_header h \<Longrightarrow> pgetN (dict_items h) ''t'' = PStr ''h''"
  "validate_event v \<Longrightarrow> pgetN (dict_items v) ''t'' = PStr ''e''"
  by (cases h; simp add: validate_header_def header_ok_def) (cases v; simp add: validate_event_def event_ok_def)

lemma event_records_shape:
  assumes "validate_header h" "list_all validate_event vs"
  shows "event_records (map Some (h # vs)) = vs"
proof -
  have "pgetN (dict_items h) ''t'' = PStr ''h''" using assms(1) by (rule valid_tags)
  moreover have "pgetN (dict_items v) ''t'' = PStr ''e''" if "v \<in> set vs" for v
    using assms(2) that by (simp add: list_all_iff valid_tags)
  moreover have "List.map_filter id (map Some xs) = xs" for xs :: "pyval list" by (induction xs) (simp_all add: List.map_filter_simps)
  ultimately show ?thesis by (simp add: event_records_def filter_True del: list.map)
qed

lemma parse_codes: "parse_lines index seen seq ls = Some code \<Longrightarrow> code \<in> set AUDIT_CODES"
proof (induction ls arbitrary: index seen)
  case Nil
  then show ?case by (simp add: AUDIT_CODES_def split: if_splits)
next
  case (Cons l ls)
  have c: "''exchange_bad_json'' \<in> set AUDIT_CODES" "''exchange_bad_shape'' \<in> set AUDIT_CODES" "''exchange_header_position'' \<in> set AUDIT_CODES"
    "''exchange_header_invalid'' \<in> set AUDIT_CODES" "''exchange_seq_mismatch'' \<in> set AUDIT_CODES" "''exchange_event_invalid'' \<in> set AUDIT_CODES"
    by (simp_all add: AUDIT_CODES_def)
  show ?case
  proof (cases l)
    case None
    with Cons.prems c(1) show ?thesis by simp
  next
    case (Some v)
    with Cons.prems c Cons.IH show ?thesis by (simp split: if_splits)
  qed
qed

text \<open>
  C40: what the contract lets through the tables accept. The outcome of reading any file is either a refusal
  code of the audit table's closed vocabulary, or a header and events whose rows satisfy every check constraint of
  the run and event tables: no constraint can ever turn an accepted file into one that blocks the ingest.
\<close>

theorem read_outcome_storable:
  "case read_outcome e n of
     Inl code \<Rightarrow> code \<in> set AUDIT_CODES
   | Inr (body, records) \<Rightarrow>
       run_check (run_row_of n (first_object body) records) \<and> list_all event_check (map (event_row_of n) records)"
proof -
  have codes: "''exchange_unreadable'' \<in> set AUDIT_CODES" "''exchange_not_regular'' \<in> set AUDIT_CODES" "''exchange_too_large'' \<in> set AUDIT_CODES"
    "''exchange_empty'' \<in> set AUDIT_CODES" by (simp_all add: AUDIT_CODES_def)
  have parse: "parse_exchange ls seq = Some code \<Longrightarrow> code \<in> set AUDIT_CODES" for ls seq code
    using parse_codes codes(4) by (auto simp: parse_exchange_def split: if_splits)
  have rows: "run_check (run_row_of n (first_object ls) (event_records ls)) \<and> list_all event_check (map (event_row_of n) (event_records ls))"
    if ok: "parse_exchange ls (int n) = None" for ls
  proof -
    from ok obtain h vs where ls: "ls = map Some (h # vs)" and h: "validate_header h" and vs: "list_all validate_event vs"
      by (rule parse_exchange_shape)
    have rec: "event_records ls = vs" using event_records_shape [OF h vs] ls by simp
    have first: "first_object ls = h" by (simp add: ls first_object_def)
    from h obtain d where d: "h = PDict d" "header_ok d" by (auto simp: validate_header_def split: pyval.splits)
    note f = d(2) [unfolded header_ok_def]
    have ev: "event_check (event_row_of n v) \<and> 1 \<le> int_at (dict_items v) ''n''" if "v \<in> set vs" for v
    proof -
      from vs that have "validate_event v" by (simp add: list_all_iff)
      then obtain e where e: "v = PDict e" "event_ok e" by (cases v) (simp_all add: validate_event_def)
      with event_ok_check [OF e(2), of n] show ?thesis by (simp add: event_check_def event_row_fields)
    qed
    have "length (str_at d ''run'') = 32"
    proof -
      have "hex_of_length 32 (pgetN d ''run'')" using f by blast
      then show ?thesis by (simp add: hex_of_length_def str_at_def split: pyval.splits)
    qed
    moreover have "1 \<le> int_at d ''epoch''" using f at_least_int_at by blast
    moreover have "str_at d ''boundary'' \<in> set BOUNDS" using f one_in_str_at by blast
    moreover have "list_all (\<lambda>i. 0 \<le> i) (map (int_at d) COUNT_FIELDS)"
    proof -
      have "list_all (\<lambda>k. at_least 0 (pgetN d k)) COUNT_FIELDS" using f by blast
      then show ?thesis by (auto simp: list_all_iff dest: at_least_int_at)
    qed
    moreover have "0 \<le> sum_list (map (\<lambda>v. int_at (dict_items v) ''n'') vs)" using ev by (intro sum_list_nonneg) force
    ultimately have "run_check (run_row_of n h vs)" using d(1) by (simp add: run_check_def run_row_of_def Let_def)
    with ev show ?thesis by (simp add: rec first list_all_iff)
  qed
  show ?thesis
    unfolding read_outcome_def read_and_validate_def
    using codes(1-3) parse rows by (auto split: dir_entry.splits content.splits option.splits)
qed

section \<open>Counts of more than 64 bits\<close>

definition huge_file :: "line list" where
  "huge_file = [Some (header_obj new_batch 0 1 (replicate 32 CHR ''a'') 1 ''NONE''),
     Some (PDict [(PStr ''t'', PStr ''e''), (PStr ''ts'', PInt 5), (PStr ''cls'', PStr ''dns''), (PStr ''proto'', PStr ''OTHER''),
       (PStr ''port'', PNone), (PStr ''dcls'', PNone), (PStr ''fp'', PNone), (PStr ''n'', PInt (2 ^ 63))])]"

text \<open>
  A count of more than 64 bits blocks the ingest for good. The exchange contract puts no upper bound on
  the count of an event, so a file with the count 2^63 is accepted by the contract; storing it raises
  \<open>OverflowError\<close>, the number is neither ingested nor refused, and however often the pass is repeated nothing
  of the directory is ever settled.
\<close>

theorem oversized_count_blocks_forever:
  "parse_exchange huge_file 1 = None
   \<and> m_store (foldl next_pass new_monitor (replicate k (\<lambda>_. Regular 500 (Body huge_file 500), commits, Some [''ev-1.jsonl'']))) = new_store"
proof -
  have ok: "parse_exchange huge_file 1 = None"
  proof -
    have "validate_header (header_obj new_batch 0 1 (replicate 32 CHR ''a'') 1 ''NONE'')"
      using header_valid [of "replicate 32 CHR ''a''" 1 1 "''NONE''" new_batch 0]
      by (simp add: hex_of_length_def hex_digit_def BOUNDS_def list_all_iff)
    then show ?thesis
      by (simp add: parse_exchange_def huge_file_def validate_event_def event_ok_def exact_keys_def EVENT_KEYS_def pget_or_def plausible_ts_def
          one_in_def CLASSES_def PROTOS_def port_ok_def at_least_def) (simp add: header_obj_def)
  qed
  have seq: "seq_of_name ''ev-1.jsonl'' = Some 1" by code_simp
  have records: "read_outcome (Regular 500 (Body huge_file 500)) 1 = Inr (huge_file, event_records huge_file)"
    using ok by (simp add: read_outcome_def read_and_validate_def MAX_FILE_BYTES_def)
  have big: "\<not> list_all event_fits (map (event_row_of 1) (event_records huge_file))"
    by (simp add: huge_file_def event_records_def header_obj_def pget_or_def event_row_of_def Let_def event_fits_def fits64_def
        int_at_def)
  have step: "m_store (publish_gate (\<lambda>_. Regular 500 (Body huge_file 500)) commits (Some [''ev-1.jsonl'']) m) = new_store"
    if "m_store m = new_store" for m
    using that seq records big
    by (simp add: publish_gate_def scan_exchange_dir_def ingest_loop_in_order new_store_def above_def gap_step_def file_step_def record_failure_def)
  have "m_store m = new_store \<Longrightarrow>
      m_store (foldl next_pass m (replicate k (\<lambda>_. Regular 500 (Body huge_file 500), commits, Some [''ev-1.jsonl'']))) = new_store" for m
    by (induction k arbitrary: m) (simp_all add: next_pass_def step)
  with ok show ?thesis by (simp add: new_monitor_def)
qed

end
