(* ===== verification/Pipeline.thy ===== *)
theory Pipeline
  imports Store
begin

text \<open>
  The reader and the monitor together: histories in which starts, turns and resets of the reader, cut short
  anywhere, interleave with passes of the monitor over whatever the exchange directory holds.
\<close>

section \<open>What the monitor sees\<close>

definition ev_filename :: "nat \<Rightarrow> string" where
  "ev_filename n = ''ev-'' @ int_digits n @ ''.jsonl''"

definition listing_of :: "disk \<Rightarrow> string list" where
  "listing_of d = ''hb'' # map (\<lambda>(n, f). ev_filename n) (out d)"

definition entry_of :: "disk \<Rightarrow> string \<Rightarrow> dir_entry" where
  "entry_of d name =
     (case seq_of_name name of
        None \<Rightarrow> Gone
      | Some n \<Rightarrow> (case dict_get (out d) n of None \<Rightarrow> Gone | Some (ls, bytes) \<Rightarrow> Regular bytes (Body ls bytes)))"

datatype stage = Writing event | Passing "bool \<Rightarrow> nat \<Rightarrow> commit"

type_synonym pipeline = "system \<times> monitor"

definition progress :: "(string \<Rightarrow> string) option \<Rightarrow> pipeline \<Rightarrow> stage \<Rightarrow> pipeline" where
  "progress hash p x =
     (case x of
        Writing e \<Rightarrow> (happen hash (fst p) e, snd p)
      | Passing commits \<Rightarrow>
          (let d = fst (fst (fst p)) in (fst p, publish_gate (entry_of d) commits (Some (listing_of d)) (snd p))))"

section \<open>Files carry their export\<close>

definition names_export :: "line list \<Rightarrow> export \<Rightarrow> bool" where
  "names_export ls x \<longleftrightarrow>
     pgetN (dict_items (first_object ls)) ''epoch'' = PInt (int (x_epoch x)) \<and> pgetN (dict_items (first_object ls)) ''boundary'' = PStr (x_boundary x)"

definition files_logged :: "world \<Rightarrow> bool" where
  "files_logged w \<longleftrightarrow>
     (\<forall>n f. dict_get (out (fst w)) n = Some f \<longrightarrow> 0 < n \<and> n \<le> length (snd w) \<and> names_export (fst f) (snd w ! (n - 1)))"

lemma header_names_export:
  "header_names f epoch boundary \<Longrightarrow> x_epoch x = epoch \<Longrightarrow> x_boundary x = boundary \<Longrightarrow> names_export (fst f) x"
  by (auto simp: header_names_def names_export_def first_object_def split: list.splits option.splits)

lemma files_logged_keep:
  assumes "files_logged w" "\<And>n f. dict_get (out d) n = Some f \<Longrightarrow> dict_get (out (fst w)) n = Some f"
  shows "files_logged (d, snd w)"
  using assms by (simp add: files_logged_def)

lemma legal_logged:
  assumes "legal w x" "files_logged w"
  shows "files_logged (act w x)"
  using assms(1)
proof (cases rule: legal.cases)
  case (export c p run stop f)
  from export(2) have q: "at_committed (fst w) = Holds (committed_obj c)" "committed_ok c" "length (snd w) = c_seq c"
    by (simp_all add: quiet_def)
  have l: "log_op (fst w) x = [export_of c stop]"
    unfolding log_op_def export(1) using q export(3,4,5) by (simp add: load_written make_pending_def export_of_def)
  have new: "names_export (fst f) (export_of c stop)"
    by (rule header_names_export [OF export(7)]) (simp_all add: export_of_def)
  show ?thesis
    unfolding files_logged_def
  proof (intro allI impI)
    fix n g assume g: "dict_get (out (fst (act w x))) n = Some g"
    show "0 < n \<and> n \<le> length (snd (act w x)) \<and> names_export (fst g) (snd (act w x) ! (n - 1))"
    proof (cases "n = c_seq c + 1")
      case True
      with g export(1) have "g = f" by (simp add: act_def perform_def)
      with True new l q(3) show ?thesis by (simp add: act_def nth_append)
    next
      case False
      with g export(1) have "dict_get (out (fst w)) n = Some g" by (simp add: act_def perform_def)
      with assms(2) have "0 < n \<and> n \<le> length (snd w) \<and> names_export (fst g) (snd w ! (n - 1))"
        unfolding files_logged_def by blast
      moreover from this have "n - 1 < length (snd w)" by linarith
      ultimately show ?thesis by (simp add: act_def nth_append)
    qed
  qed
next
  case (evict c n)
  have "files_logged (perform (fst w) x, snd w)"
    by (rule files_logged_keep [OF assms(2)]) (simp add: evict perform_def split: if_splits)
  then show ?thesis by (simp add: evict act_def log_op_def)
qed (use assms(2) in \<open>simp_all add: files_logged_def act_def perform_def log_op_def\<close>)

interpretation logged: machine act "\<lambda>w. sound w \<and> files_logged w" legal
  by unfold_locales (auto intro: legal_sound legal_logged)

text \<open>Whatever happens to the reader is a run of legal operations.\<close>

lemma happen_ops:
  assumes "system_ok s"
  shows "\<exists>ops. fst (happen hash s e) = foldl act (fst s) ops \<and> run_ok act legal (fst s) ops"
proof -
  obtain w alive where s: "s = (w, alive)" by (cases s)
  have sw: "sound w" using assms by (simp add: system_ok_def s)
  have none: "\<exists>ops. w = foldl act w ops \<and> run_ok act legal w ops" by (rule exI [of _ "[]"]) simp
  show ?thesis
  proof (cases e)
    case (Boot run anchor n)
    have "run_ok act legal w (take n (fst (startup anchor (fst w))))"
      using startup_follows [OF sw, of anchor] by (simp add: follows_protocol_def run_ok_take)
    then show ?thesis by (auto simp: happen_def s Boot cut_short_def)
  next
    case (Turn journal n)
    show ?thesis
    proof (cases alive)
      case None
      with none show ?thesis by (simp add: happen_def s Turn)
    next
      case (Some run)
      with assms s obtain c where "at_rest c w" by (auto simp: system_ok_def)
      then have "run_ok act legal w (take n (fst (run_cycle hash run journal (fst w))))"
        using run_cycle_follows [of c w hash run journal] by (simp add: follows_protocol_def run_ok_take)
      then show ?thesis by (auto simp: happen_def s Turn Some cut_short_def)
    qed
  next
    case (Reset anchor n)
    have "run_ok act legal w (take n (fst (reset_from_now anchor (fst w))))" by (rule run_ok_take [OF reset_legal [OF sw]])
    then show ?thesis by (auto simp: happen_def s Reset cut_short_def)
  qed
qed

lemma acts_extend: "prefix (snd w) (snd (foldl act w ops))"
proof (induction ops arbitrary: w)
  case (Cons x ops)
  have "prefix (snd w) (snd (act w x))" by (simp add: act_def)
  also have "prefix (snd (act w x)) (snd (foldl act (act w x) ops))" by (rule Cons.IH)
  finally show ?case by simp
qed simp

section \<open>Runs come from exports\<close>

definition runs_logged :: "export list \<Rightarrow> run_row list \<Rightarrow> bool" where
  "runs_logged xs rows \<longleftrightarrow>
     (\<forall>r\<in>set rows. 0 < r_seq r \<and> r_seq r \<le> length xs \<and> r_epoch r = int (x_epoch (xs ! (r_seq r - 1))) \<and> r_boundary r = x_boundary (xs ! (r_seq r - 1)))"

lemma runs_logged_extend:
  assumes "runs_logged xs rows" "prefix xs ys"
  shows "runs_logged ys rows"
proof -
  obtain zs where ys: "ys = xs @ zs" using assms(2) by (auto simp: prefix_def)
  show ?thesis unfolding runs_logged_def ys
  proof
    fix r assume "r \<in> set rows"
    with assms(1) have r: "0 < r_seq r" "r_seq r \<le> length xs" "r_epoch r = int (x_epoch (xs ! (r_seq r - 1)))"
      "r_boundary r = x_boundary (xs ! (r_seq r - 1))" by (simp_all add: runs_logged_def)
    have "r_seq r - 1 < length xs" using r(1,2) by simp
    then have "(xs @ zs) ! (r_seq r - 1) = xs ! (r_seq r - 1)" by (simp add: nth_append)
    with r show "0 < r_seq r \<and> r_seq r \<le> length (xs @ zs) \<and> r_epoch r = int (x_epoch ((xs @ zs) ! (r_seq r - 1)))
      \<and> r_boundary r = x_boundary ((xs @ zs) ! (r_seq r - 1))" by simp
  qed
qed

lemma scan_sound: "scan_exchange_dir listing = Inr files \<Longrightarrow> dict_get files n = Some name \<Longrightarrow> seq_of_name name = Some n"
proof -
  assume files: "scan_exchange_dir listing = Inr files" and get: "dict_get files n = Some name"
  have "\<forall>(n, name)\<in>set d. seq_of_name name = Some n \<Longrightarrow>
      \<forall>(n, name)\<in>set (foldl (\<lambda>d name. case seq_of_name name of None \<Rightarrow> d | Some n \<Rightarrow> dict_set n name d) d ns). seq_of_name name = Some n" for d ns
  proof (induction ns arbitrary: d)
    case (Cons x ns)
    have "\<forall>(n, name)\<in>set (case seq_of_name x of None \<Rightarrow> d | Some n \<Rightarrow> dict_set n x d). seq_of_name name = Some n"
      using Cons.prems by (cases "seq_of_name x") (auto dest!: set_dict_set)
    from Cons.IH [OF this] show ?case by simp
  qed simp
  from this [of "[]"] files have "\<forall>(n, name)\<in>set files. seq_of_name name = Some n"
    by (auto simp: scan_exchange_dir_def split: option.splits)
  with map_of_SomeD [OF get] show ?thesis by auto
qed

text \<open>A file that is read through the directory is one the reader exported.\<close>

definition reads_export :: "export list \<Rightarrow> (nat \<Rightarrow> dir_entry) \<Rightarrow> bool" where
  "reads_export xs look \<longleftrightarrow>
     (\<forall>n body records. read_outcome (look n) n = Inr (body, records) \<longrightarrow> 0 < n \<and> n \<le> length xs \<and> names_export body (xs ! (n - 1)))"

lemma look_export:
  assumes "files_logged w" "scan_exchange_dir (Some (listing_of (fst w))) = Inr files"
  shows "reads_export (snd w) (\<lambda>n. case dict_get files n of Some name \<Rightarrow> entry_of (fst w) name | None \<Rightarrow> Gone)"
  unfolding reads_export_def
proof (intro allI impI)
  fix n body records
  assume r: "read_outcome (case dict_get files n of Some name \<Rightarrow> entry_of (fst w) name | None \<Rightarrow> Gone) n = Inr (body, records)"
  have gone: "read_outcome Gone n = Inl ''exchange_unreadable''" by (simp add: read_outcome_def read_and_validate_def)
  with r obtain name where name: "dict_get files n = Some name" by (cases "dict_get files n") simp_all
  from scan_sound [OF assms(2) name] have s: "seq_of_name name = Some n" .
  with r name gone obtain f where f: "dict_get (out (fst w)) n = Some f"
    by (cases "dict_get (out (fst w)) n") (simp_all add: entry_of_def)
  obtain ls bytes where fb: "f = (ls, bytes)" by (cases f)
  with r name s f have "read_outcome (Regular bytes (Body ls bytes)) n = Inr (body, records)" by (simp add: entry_of_def)
  then have "body = ls" by (auto simp: read_outcome_def read_and_validate_def split: if_splits option.splits)
  with assms(1) f fb show "0 < n \<and> n \<le> length (snd w) \<and> names_export body (snd w ! (n - 1))" by (auto simp: files_logged_def)
qed

lemma applied_logged:
  assumes "reads_export xs look" "read_outcome (look n) n = Inr (body, records)" "runs_logged xs (s_runs st)"
  shows "runs_logged xs (s_runs (apply_locked (first_object body) records n st))"
proof -
  have "0 < n" "n \<le> length xs" "names_export body (xs ! (n - 1))" using assms(1,2) by (auto simp: reads_export_def)
  with assms(3) show ?thesis
    by (auto simp: runs_logged_def apply_locked_def run_row_of_def Let_def names_export_def int_at_def str_at_def)
qed

lemma file_step_logged:
  assumes "file_step look commits n (r, st) = ((r', st'), fl)" "reads_export xs look" "runs_logged xs (s_runs st)"
  shows "runs_logged xs (s_runs st')"
  using assms(1)
proof (cases rule: file_step_cases)
  case failed
  then show ?thesis using assms(3) applied_logged [OF assms(2) _ assms(3)] by (auto simp: settle_rejected_def)
next
  case (applied body records)
  then show ?thesis using applied_logged [OF assms(2) _ assms(3)] by simp
qed (use assms(3) in \<open>simp_all add: settle_rejected_def\<close>)

lemma gap_step_runs: "gap_step commits seq n (r, st) = ((r', st'), fl) \<Longrightarrow> s_runs st' = s_runs st"
  by (erule gap_step_cases) (auto simp: settle_gap_def)

lemma ingest_logged:
  "ingest_in_order look commits ns (r, st) = ((r', st'), fl) \<Longrightarrow> reads_export xs look \<Longrightarrow> runs_logged xs (s_runs st) \<Longrightarrow> runs_logged xs (s_runs st')"
proof (induction ns arbitrary: r st)
  case Nil
  then show ?case by simp
next
  case (Cons n ns)
  obtain r1 st1 f1 where g: "gap_step commits (s_terminal st + 1) n (r, st) = ((r1, st1), f1)" by (metis prod.exhaust)
  have l1: "runs_logged xs (s_runs st1)" using gap_step_runs [OF g] Cons.prems(3) by simp
  obtain r2 st2 f2 where h: "file_step look commits n (r1, st1) = ((r2, st2), f2)" by (metis prod.exhaust)
  have l2: "runs_logged xs (s_runs st2)" by (rule file_step_logged [OF h Cons.prems(2) l1])
  have "f1 \<noteq> GoOn \<and> st' = st1 \<or> f1 = GoOn \<and> f2 \<noteq> GoOn \<and> st' = st2
      \<or> f1 = GoOn \<and> f2 = GoOn \<and> ingest_in_order look commits ns (r2, st2) = ((r', st'), fl)"
    using Cons.prems(1) g h by (auto split: flow.splits)
  then show ?case using l1 l2 Cons.IH [of r2 st2] Cons.prems(2) by blast
qed

definition pipeline_ok :: "pipeline \<Rightarrow> bool" where
  "pipeline_ok p \<longleftrightarrow> system_ok (fst p) \<and> files_logged (fst (fst p)) \<and> ledger_ok (m_store (snd p))
     \<and> runs_logged (snd (fst (fst p))) (s_runs (m_store (snd p)))"

lemma progress_ok: "pipeline_ok p \<Longrightarrow> pipeline_ok (progress hash p x)"
proof -
  assume ok: "pipeline_ok p"
  obtain s m where p: "p = (s, m)" by (cases p)
  from ok have o: "system_ok s" "files_logged (fst s)" "ledger_ok (m_store m)" "runs_logged (snd (fst s)) (s_runs (m_store m))"
    by (simp_all add: pipeline_ok_def p)
  show ?thesis
  proof (cases x)
    case (Writing e)
    from happen_ops [OF o(1)] obtain ops where ops: "fst (happen hash s e) = foldl act (fst s) ops" "run_ok act legal (fst s) ops" by blast
    have "sound (fst s)" using o(1) by (simp add: system_ok_def)
    with logged.run_inv [OF _ ops(2)] o(2) have "files_logged (fst (happen hash s e))" by (simp add: ops(1))
    moreover have "runs_logged (snd (fst (happen hash s e))) (s_runs (m_store m))"
      using runs_logged_extend [OF o(4) acts_extend] by (simp add: ops(1))
    ultimately show ?thesis using happen_ok [OF o(1)] o(3) by (simp add: progress_def p Writing pipeline_ok_def)
  next
    case (Passing commits)
    let ?d = "fst (fst s)"
    let ?m = "publish_gate (entry_of ?d) commits (Some (listing_of ?d)) m"
    obtain files where files: "scan_exchange_dir (Some (listing_of ?d)) = Inr files" by (simp add: scan_exchange_dir_def)
    define look where "look = (\<lambda>n. case dict_get files n of Some name \<Rightarrow> entry_of ?d name | None \<Rightarrow> Gone)"
    let ?ns = "above (map fst files) (s_terminal (m_store m) + 1)"
    obtain r st fl where run: "ingest_in_order look commits ?ns (new_tally, m_store m) = ((r, st), fl)" by (metis prod.exhaust)
    have "m_store ?m = st"
      using files run ingest_loop_in_order [of "(new_tally, m_store m)" "s_terminal (m_store m) + 1" look commits "map fst files"]
      by (simp add: publish_gate_def look_def record_failure_def split: flow.split)
    moreover have "runs_logged (snd (fst s)) (s_runs st)"
      by (rule ingest_logged [OF run _ o(4)]) (use look_export [OF o(2) files] in \<open>simp add: look_def\<close>)
    moreover have "ledger_ok (m_store ?m)" using gate_keeps [of m "entry_of ?d" commits "Some (listing_of ?d)"] o(3) by (simp add: keeps_def)
    ultimately show ?thesis using o(1,2) by (simp add: progress_def p Passing pipeline_ok_def Let_def)
  qed
qed

interpretation pipeline: machine "progress hash" pipeline_ok "\<lambda>p x. True" for hash
  by unfold_locales (rule progress_ok)

definition fresh_pipeline :: pipeline where
  "fresh_pipeline = (fresh, new_monitor)"

text \<open>
  C1: exactly once from the journal to the database. In every interleaving of the reader, cut short anywhere,
  with passes of the monitor whose commits may fail or land unseen, the exported files are an unbroken chain
  without loss or repetition, every ingested run is one of them with the epoch and boundary it was exported
  under, no file is ingested twice, and the runs are in the order of the export.
\<close>

theorem journal_exactly_once:
  "let p = foldl (progress hash) fresh_pipeline xs; exported = snd (fst (fst p)); rows = s_runs (m_store (snd p))
   in linked exported \<and> distinct (map r_seq rows) \<and> sorted (map r_seq rows)
      \<and> list_all (\<lambda>r. 0 < r_seq r \<and> r_seq r \<le> length exported \<and> r_epoch r = int (x_epoch (exported ! (r_seq r - 1)))
           \<and> r_boundary r = x_boundary (exported ! (r_seq r - 1))) rows"
proof -
  have "pipeline_ok fresh_pipeline"
    by (simp add: pipeline_ok_def fresh_pipeline_def fresh_ok new_monitor_def new_store_ok files_logged_def runs_logged_def fresh_def
        empty_disk_def new_store_def) (simp add: fresh_ok [unfolded fresh_def empty_disk_def] new_store_ok [unfolded new_store_def])
  then have "pipeline_ok (foldl (progress hash) fresh_pipeline xs)" by (rule pipeline.run_inv) (simp add: run_ok_all)
  then show ?thesis
    by (auto simp: pipeline_ok_def Let_def system_ok_def sound_linked ledger_ok_def numbers_ok_def runs_logged_def list_all_iff)
qed

end
