(* ===== verification/Incidents.thy ===== *)
theory Incidents
  imports Store Attribution
begin

text \<open>
  The incident plane of the history store (\<open>web/incident_history.py\<close>): the table of incident windows with its
  single open row, the row of the runtime state with its gates, operator markers, the bundle of evidence the
  classifier reads, and the reader's heartbeat. Every write is one transaction; its outcome and the clock are
  arguments. A statement that breaks a table constraint fails like any other.
\<close>

section \<open>Tables\<close>

definition CODE_HISTORY_INCIDENT_PERSIST_FAILED :: string where
  "CODE_HISTORY_INCIDENT_PERSIST_FAILED = ''history_incident_persist_failed''"

definition INCIDENT_EVIDENCE_BITS_MAX :: int where "INCIDENT_EVIDENCE_BITS_MAX = 35184372088831"
definition INCIDENT_UNKNOWN_BITS_MAX :: int where "INCIDENT_UNKNOWN_BITS_MAX = 268435455"
definition INCIDENT_BUDGET_MAX :: int where "INCIDENT_BUDGET_MAX = 60"
definition CLASSIFIER_BUNDLE_ROW_BUDGET :: nat where "CLASSIFIER_BUNDLE_ROW_BUDGET = 2000"
definition INCIDENT_BUCKET_SECONDS :: rat where "INCIDENT_BUCKET_SECONDS = 60"

definition INCIDENT_WINDOW_CATEGORIES :: "string list" where
  "INCIDENT_WINDOW_CATEGORIES = [''common_inbound_client_office'', ''hysteria2_udp_path'', ''insufficient_evidence'',
     ''reality_tcp_path'', ''vps_outbound'', ''vps_process_or_api'']"

definition INCIDENT_CLOSURE_CLEAN_BUCKETS :: string where "INCIDENT_CLOSURE_CLEAN_BUCKETS = ''clean_buckets''"
definition INCIDENT_CLOSURE_WINDOW_LIMIT :: string where "INCIDENT_CLOSURE_WINDOW_LIMIT = ''window_limit''"

definition INCIDENT_CLOSURE_REASONS :: "string list" where
  "INCIDENT_CLOSURE_REASONS = [INCIDENT_CLOSURE_CLEAN_BUCKETS, INCIDENT_CLOSURE_WINDOW_LIMIT]"

definition CLASSIFIER_READER_STATUSES :: "string list" where "CLASSIFIER_READER_STATUSES = [''fresh'', ''stale'']"

definition MARKER_KINDS :: "string list" where
  "MARKER_KINDS = [''tt_live_studio_login_failed'', ''operator_event'']"

text \<open>The columns one classification writes, and the row around them.\<close>

record verdict_cols =
  k_category :: string
  k_last :: rat
  k_end :: rat
  k_buckets :: int
  k_evidence :: int
  k_unknown :: int

record window = verdict_cols +
  w_id :: nat
  w_start :: rat
  w_first :: rat
  w_closed :: "(rat \<times> string) option"
  w_created :: rat
  w_updated :: rat

record runtime_row =
  rt_floor :: rat
  rt_evaluated :: rat
  rt_fresh :: "rat option"
  rt_open :: "nat option"
  rt_discovery :: "rat option"
  rt_rearm :: int

record marker =
  mk_id :: nat
  mk_epoch :: rat
  mk_kind :: string
  mk_created :: rat

record history =
  hi_enabled :: bool
  hi_windows :: "window list"
  hi_runtime :: "runtime_row option"
  hi_markers :: "marker list"
  hi_persisted :: nat
  hi_rejected :: nat
  hi_failures :: nat
  hi_degraded :: bool
  hi_error :: "string option"

definition inert_row :: runtime_row where
  "inert_row = \<lparr>rt_floor = 0, rt_evaluated = 0, rt_fresh = None, rt_open = None, rt_discovery = None, rt_rearm = 0\<rparr>"

definition new_history :: history where
  "new_history = \<lparr>hi_enabled = True, hi_windows = [], hi_runtime = Some inert_row, hi_markers = [], hi_persisted = 0,
     hi_rejected = 0, hi_failures = 0, hi_degraded = False, hi_error = None\<rparr>"

text \<open>A row is open when it has neither a closing time nor a reason; the table demands both or none.\<close>

definition is_open :: "window \<Rightarrow> bool" where
  "is_open w \<longleftrightarrow> w_closed w = None"

definition window_check :: "window \<Rightarrow> bool" where
  "window_check w \<longleftrightarrow> k_category w \<in> set INCIDENT_WINDOW_CATEGORIES \<and> 0 \<le> w_start w \<and> w_start w \<le> w_first w
     \<and> w_first w \<le> k_last w \<and> w_first w \<le> k_end w
     \<and> (case w_closed w of None \<Rightarrow> True | Some (t, why) \<Rightarrow> k_last w \<le> t \<and> why \<in> set INCIDENT_CLOSURE_REASONS)
     \<and> 1 \<le> k_buckets w \<and> k_buckets w \<le> 60 \<and> 0 \<le> k_evidence w \<and> k_evidence w \<le> INCIDENT_EVIDENCE_BITS_MAX
     \<and> 0 \<le> k_unknown w \<and> k_unknown w \<le> INCIDENT_UNKNOWN_BITS_MAX \<and> w_created w \<le> w_updated w"

definition runtime_check :: "runtime_row \<Rightarrow> bool" where
  "runtime_check r \<longleftrightarrow> 0 \<le> rt_floor r \<and> 0 \<le> rt_evaluated r \<and> (case rt_fresh r of None \<Rightarrow> True | Some t \<Rightarrow> 0 \<le> t)
     \<and> (case rt_open r of None \<Rightarrow> True | Some i \<Rightarrow> 1 \<le> i)
     \<and> (case rt_discovery r of None \<Rightarrow> True | Some t \<Rightarrow> rt_floor r \<le> t) \<and> (rt_rearm r = 0 \<or> rt_rearm r = 1)
     \<and> (rt_rearm r = 0 \<or> rt_open r = None \<and> rt_discovery r = None)
     \<and> (rt_floor r \<le> 0 \<or> rt_rearm r = 1 \<or> rt_discovery r \<noteq> None)"

text \<open>Every row passes its checks and the partial unique index admits at most one open window.\<close>

definition constraints_ok :: "history \<Rightarrow> bool" where
  "constraints_ok h \<longleftrightarrow> list_all window_check (hi_windows h) \<and> length (filter is_open (hi_windows h)) \<le> 1
     \<and> (case hi_runtime h of None \<Rightarrow> True | Some r \<Rightarrow> runtime_check r)"

section \<open>Health of the plane and transactions\<close>

definition plane_failure :: "history \<Rightarrow> history" where
  "plane_failure h = h\<lparr>hi_failures := hi_failures h + 1, hi_degraded := True, hi_error := Some CODE_HISTORY_INCIDENT_PERSIST_FAILED\<rparr>"

definition plane_refusal :: "history \<Rightarrow> history" where
  "plane_refusal h = plane_failure (h\<lparr>hi_rejected := hi_rejected h + 1\<rparr>)"

definition plane_accept :: "history \<Rightarrow> history" where
  "plane_accept h = h\<lparr>hi_persisted := hi_persisted h + 1, hi_degraded := False, hi_error := None\<rparr>"

text \<open>
  The statements of one transaction and its commit. A broken constraint raises before the commit; a commit that
  raises is followed by a rollback, which changes nothing when the transaction did land.
\<close>

definition write_tables :: "commit \<Rightarrow> history \<Rightarrow> history \<Rightarrow> history \<times> bool" where
  "write_tables c new h =
     (if \<not> constraints_ok new then (plane_failure h, False)
      else (case transact c new h of (h', ok) \<Rightarrow> if ok then (plane_accept h', True) else (plane_failure h', False)))"

definition incident_epoch :: "rat \<Rightarrow> rat option" where
  "incident_epoch q = (if q < 0 then None else Some q)"

definition encode_incident_bits :: "int \<Rightarrow> int \<Rightarrow> int option" where
  "encode_incident_bits v maximum = (if v < 0 \<or> maximum < v then None else Some v)"

definition incident_values :: "'a verdict_cols_scheme \<Rightarrow> bool" where
  "incident_values v \<longleftrightarrow> k_category v \<in> set INCIDENT_WINDOW_CATEGORIES
     \<and> incident_epoch (k_last v) \<noteq> None \<and> incident_epoch (k_end v) \<noteq> None \<and> k_last v \<le> k_end v
     \<and> 1 \<le> k_buckets v \<and> k_buckets v \<le> INCIDENT_BUDGET_MAX
     \<and> encode_incident_bits (k_evidence v) INCIDENT_EVIDENCE_BITS_MAX \<noteq> None
     \<and> encode_incident_bits (k_unknown v) INCIDENT_UNKNOWN_BITS_MAX \<noteq> None"

section \<open>Operations\<close>

text \<open>The one-way activation floor.\<close>

definition incident_activate :: "commit \<Rightarrow> rat \<Rightarrow> history \<Rightarrow> history \<times> bool" where
  "incident_activate c flr h =
     (if \<not> hi_enabled h then (h, False)
      else if incident_epoch flr = None then (plane_refusal h, False)
      else (case hi_runtime h of
              None \<Rightarrow> (plane_failure h, False)
            | Some r \<Rightarrow>
                if 0 < rt_floor r then (h, True)
                else (let new = h\<lparr>hi_runtime := Some (if rt_floor r = 0
                            then r\<lparr>rt_floor := flr, rt_discovery := Some flr, rt_rearm := 0\<rparr> else r)\<rparr>
                      in if \<not> constraints_ok new then (plane_failure h, False)
                         else (case transact c new h of (h', ok) \<Rightarrow> if ok then (h', True) else (plane_failure h', False)))))"

text \<open>SQLite gives a new row the largest row number plus one.\<close>

definition next_id :: "nat list \<Rightarrow> nat" where
  "next_id ids = Suc (fold max ids 0)"

definition incident_open_window :: "commit \<Rightarrow> rat \<Rightarrow> rat \<Rightarrow> rat \<Rightarrow> verdict_cols \<Rightarrow> history \<Rightarrow> history \<times> nat option" where
  "incident_open_window c now start first v h =
     (if \<not> hi_enabled h then (h, None)
      else if incident_epoch start = None \<or> incident_epoch first = None \<or> incident_epoch now = None \<or> first < start \<or> \<not> incident_values v
      then (plane_refusal h, None)
      else (case hi_runtime h of
              None \<Rightarrow> (plane_failure h, None)
            | Some r \<Rightarrow>
                (let i = next_id (map w_id (hi_windows h));
                     w = \<lparr>k_category = k_category v, k_last = k_last v, k_end = k_end v, k_buckets = k_buckets v,
                          k_evidence = k_evidence v, k_unknown = k_unknown v, w_id = i, w_start = start, w_first = first,
                          w_closed = None, w_created = now, w_updated = now\<rparr>;
                     (h', ok) = write_tables c (h\<lparr>hi_windows := hi_windows h @ [w], hi_runtime := Some (r\<lparr>rt_open := Some i\<rparr>)\<rparr>) h
                 in (h', if ok then Some i else None))))"

definition with_verdict :: "verdict_cols \<Rightarrow> rat \<Rightarrow> window \<Rightarrow> window" where
  "with_verdict v now w =
     w\<lparr>k_category := k_category v, k_last := k_last v, k_end := k_end v, k_buckets := k_buckets v,
       k_evidence := k_evidence v, k_unknown := k_unknown v, w_updated := now\<rparr>"

definition update_open :: "nat \<Rightarrow> (window \<Rightarrow> window) \<Rightarrow> window list \<Rightarrow> window list" where
  "update_open i f ws = map (\<lambda>w. if w_id w = i \<and> is_open w then f w else w) ws"

definition open_with_id :: "nat \<Rightarrow> window list \<Rightarrow> bool" where
  "open_with_id i ws \<longleftrightarrow> list_ex (\<lambda>w. w_id w = i \<and> is_open w) ws"

definition incident_update_window :: "commit \<Rightarrow> rat \<Rightarrow> nat \<Rightarrow> verdict_cols \<Rightarrow> history \<Rightarrow> history \<times> bool" where
  "incident_update_window c now i v h =
     (if \<not> hi_enabled h then (h, False)
      else if i < 1 \<or> \<not> incident_values v \<or> incident_epoch now = None \<or> \<not> open_with_id i (hi_windows h)
      then (plane_refusal h, False)
      else write_tables c (h\<lparr>hi_windows := update_open i (with_verdict v now) (hi_windows h)\<rparr>) h)"

definition gate_after :: "string \<Rightarrow> rat \<Rightarrow> runtime_row \<Rightarrow> runtime_row" where
  "gate_after reason signal r =
     (if reason = INCIDENT_CLOSURE_CLEAN_BUCKETS then r\<lparr>rt_open := None, rt_discovery := Some signal, rt_rearm := 0\<rparr>
      else r\<lparr>rt_open := None, rt_discovery := None, rt_rearm := 1\<rparr>)"

definition incident_close_window :: "commit \<Rightarrow> rat \<Rightarrow> nat \<Rightarrow> verdict_cols \<Rightarrow> string \<Rightarrow> history \<Rightarrow> history \<times> bool" where
  "incident_close_window c now i v reason h =
     (if \<not> hi_enabled h then (h, False)
      else if i < 1 \<or> reason \<notin> set INCIDENT_CLOSURE_REASONS \<or> \<not> incident_values v \<or> incident_epoch now = None \<or> now < k_last v
         \<or> \<not> open_with_id i (hi_windows h)
      then (plane_refusal h, False)
      else write_tables c (h\<lparr>hi_windows := update_open i (\<lambda>w. (with_verdict v now w)\<lparr>w_closed := Some (now, reason)\<rparr>) (hi_windows h),
                        hi_runtime := map_option (gate_after reason (k_last v)) (hi_runtime h)\<rparr>) h)"

definition incident_runtime_mark :: "commit \<Rightarrow> rat \<Rightarrow> rat option \<Rightarrow> history \<Rightarrow> history \<times> bool" where
  "incident_runtime_mark c evaluated since h =
     (if \<not> hi_enabled h then (h, False)
      else if since \<noteq> None \<and> Option.bind since incident_epoch = None \<or> incident_epoch evaluated = None then (plane_refusal h, False)
      else (case hi_runtime h of
              None \<Rightarrow> (plane_failure h, False)
            | Some r \<Rightarrow> write_tables c (h\<lparr>hi_runtime := Some (r\<lparr>rt_evaluated := evaluated, rt_fresh := since\<rparr>)\<rparr>) h))"

datatype outcome = Rearmed | NotRearmable | StoreUnavailable | Recorded | Refused

definition minute_ceiling :: "rat \<Rightarrow> rat" where
  "minute_ceiling t = of_int \<lceil>t / INCIDENT_BUCKET_SECONDS\<rceil> * INCIDENT_BUCKET_SECONDS"

definition incident_rearm :: "commit \<Rightarrow> rat \<Rightarrow> history \<Rightarrow> history \<times> outcome" where
  "incident_rearm c now h =
     (if \<not> hi_enabled h then (h, StoreUnavailable)
      else if incident_epoch now = None then (plane_refusal h, NotRearmable)
      else (case hi_runtime h of
              None \<Rightarrow> (plane_failure h, StoreUnavailable)
            | Some r \<Rightarrow>
                if \<not> (0 < rt_floor r \<and> rt_open r = None \<and> rt_discovery r = None \<and> rt_rearm r = 1)
                then (plane_refusal h, NotRearmable)
                else (let (h', ok) = write_tables c (h\<lparr>hi_runtime := Some (r\<lparr>rt_rearm := 0, rt_discovery := Some (minute_ceiling now)\<rparr>)\<rparr>) h
                      in (h', if ok then Rearmed else StoreUnavailable))))"

definition record_marker :: "commit \<Rightarrow> rat \<Rightarrow> rat \<Rightarrow> string \<Rightarrow> rat option \<Rightarrow> history \<Rightarrow> history \<times> outcome \<times> marker option" where
  "record_marker c retention now kind epoch h =
     (if \<not> hi_enabled h then (h, StoreUnavailable, None)
      else (let e = (case epoch of None \<Rightarrow> now | Some t \<Rightarrow> t)
            in if kind \<notin> set MARKER_KINDS \<or> incident_epoch e = None \<or> incident_epoch now = None \<or> now < e \<or> e < now - retention
               then (plane_refusal h, Refused, None)
               else (let m = \<lparr>mk_id = next_id (map mk_id (hi_markers h)), mk_epoch = e, mk_kind = kind, mk_created = now\<rparr>;
                         (h', ok) = write_tables c (h\<lparr>hi_markers := hi_markers h @ [m]\<rparr>) h
                     in if ok then (h', Recorded, Some m) else (h', StoreUnavailable, None))))"

text \<open>Retention: closed windows and markers behind the horizon go, the open window and the runtime row never do.\<close>

definition expire_incidents :: "commit \<Rightarrow> rat \<Rightarrow> history \<Rightarrow> history" where
  "expire_incidents c horizon h =
     fst (transact c (h\<lparr>hi_windows := filter (\<lambda>w. is_open w \<or> horizon \<le> k_last w) (hi_windows h),
                        hi_markers := filter (\<lambda>m. horizon \<le> mk_epoch m) (hi_markers h)\<rparr>) h)"

section \<open>Reads\<close>

text \<open>The snapshot of the runtime row and the window its pointer names; the flag says whether the read succeeds.\<close>

definition incident_runtime_snapshot :: "bool \<Rightarrow> history \<Rightarrow> history \<times> runtime_row option \<times> window option" where
  "incident_runtime_snapshot readable h =
     (if \<not> hi_enabled h then (h, None, None)
      else if \<not> readable then (plane_failure h, None, None)
      else (h, hi_runtime h, Option.bind (hi_runtime h) (\<lambda>r. Option.bind (rt_open r) (\<lambda>i. find (\<lambda>w. w_id w = i) (hi_windows h)))))"

text \<open>Evidence tables, already projected to the columns of the bundle, and the health of the three evidence planes.\<close>

record tables =
  tb_samples :: "pyval list"
  tb_devices :: "pyval list"
  tb_probes :: "pyval list"
  tb_events :: "pyval list"
  tb_audit :: "pyval list"

type_synonym plane_health = "bool \<times> string option"

definition evidence_health :: "plane_health \<Rightarrow> plane_health \<Rightarrow> plane_health \<Rightarrow> plane_health" where
  "evidence_health ordinary journal probe =
     (fst ordinary \<or> fst journal \<or> fst probe,
      case snd ordinary of
        Some code \<Rightarrow> Some code
      | None \<Rightarrow>
          (let code = (if fst journal then snd journal else None)
           in if code = None \<and> fst probe then snd probe else code))"

definition section_rows :: "string \<Rightarrow> rat \<Rightarrow> rat \<Rightarrow> pyval list \<Rightarrow> pyval list" where
  "section_rows column start stop rows =
     take (CLASSIFIER_BUNDLE_ROW_BUDGET + 1)
       (sort_key (\<lambda>v. num_of (dict_items v) column)
          (filter (\<lambda>v. start \<le> num_of (dict_items v) column \<and> num_of (dict_items v) column < stop) rows))"

definition bundle_sections :: "tables \<Rightarrow> rat \<Rightarrow> rat \<Rightarrow> (string \<times> pyval list) list" where
  "bundle_sections t start stop =
     [(''samples'', section_rows ''epoch'' start stop (tb_samples t)),
      (''device_states'', section_rows ''epoch'' start stop (tb_devices t)),
      (''probe_rows'', section_rows ''epoch'' start stop (tb_probes t)),
      (''journal_events'', section_rows ''ts'' start stop (tb_events t)),
      (''audit'', section_rows ''epoch'' start stop (tb_audit t))]"

definition bundle_of :: "plane_health \<Rightarrow> rat \<Rightarrow> rat \<Rightarrow> string \<Rightarrow> (string \<times> pyval list) list \<Rightarrow> pyval" where
  "bundle_of health start stop status secs =
     PDict ([(PStr ''window'', PDict [(PStr ''start_epoch'', PFloat (Fin start)), (PStr ''end_epoch'', PFloat (Fin stop))]),
             (PStr ''health'', PDict [(PStr ''enabled'', PBool True), (PStr ''degraded'', PBool (fst health)),
                (PStr ''last_error_code'', case snd health of None \<Rightarrow> PNone | Some code \<Rightarrow> PStr code)]),
             (PStr ''reader'', PDict [(PStr ''status'', PStr status)])]
            @ map (\<lambda>(name, rows). (PStr name, PList rows)) secs)"

definition classifier_bundle :: "bool \<Rightarrow> tables \<Rightarrow> plane_health \<Rightarrow> rat \<Rightarrow> rat \<Rightarrow> string \<Rightarrow> history \<Rightarrow> history \<times> pyval option" where
  "classifier_bundle readable t health start stop status h =
     (if \<not> hi_enabled h then (h, None)
      else if incident_epoch start = None \<or> incident_epoch stop = None \<or> stop \<le> start \<or> status \<notin> set CLASSIFIER_READER_STATUSES
      then (plane_refusal h, None)
      else if \<not> readable then (plane_failure h, None)
      else (let secs = bundle_sections t start stop
            in if list_ex (\<lambda>(name, rows). CLASSIFIER_BUNDLE_ROW_BUDGET < length rows) secs then (plane_refusal h, None)
               else (h, Some (bundle_of health start stop status secs))))"

section \<open>The reader's heartbeat\<close>

text \<open>The heartbeat file: missing, \<open>lstat\<close> fails, not regular, or a size and what parsing its content gives.\<close>

datatype heartbeat = HbAbsent | HbUnreadable | HbIrregular | HbFile nat "pyval option"

definition JOURNAL_HB_STALE_SECONDS :: rat where "JOURNAL_HB_STALE_SECONDS = 180"
definition JOURNAL_HB_MAX_BYTES :: nat where "JOURNAL_HB_MAX_BYTES = 4096"

definition age_status :: "rat \<Rightarrow> rat \<Rightarrow> string" where
  "age_status now ts = (if JOURNAL_HB_STALE_SECONDS < now - ts then ''stale'' else ''fresh'')"

definition heartbeat_ts :: "rat \<Rightarrow> pyval \<Rightarrow> string res" where
  "heartbeat_ts now ts =
     (case ts of
        PInt i \<Rightarrow> res_bind (int_to_float i) (\<lambda>q. Inr (age_status now q))
      | PFloat (Fin q) \<Rightarrow> Inr (age_status now q)
      | PFloat (Infinite positive) \<Rightarrow> Inr (if positive then ''fresh'' else ''stale'')
      | _ \<Rightarrow> Inr ''invalid'')"

definition heartbeat_status :: "rat \<Rightarrow> heartbeat option \<Rightarrow> string res" where
  "heartbeat_status now hb =
     (case hb of
        None \<Rightarrow> Inr ''disabled''
      | Some HbAbsent \<Rightarrow> Inr ''absent''
      | Some HbUnreadable \<Rightarrow> Inr ''unreadable''
      | Some HbIrregular \<Rightarrow> Inr ''invalid''
      | Some (HbFile bytes content) \<Rightarrow>
          if JOURNAL_HB_MAX_BYTES < bytes then Inr ''invalid''
          else (case content of
                  Some (PDict d) \<Rightarrow>
                    (case pgetN d ''seq'' of
                       PInt s \<Rightarrow> if s < 0 then Inr ''invalid'' else heartbeat_ts now (pgetN d ''ts'')
                     | _ \<Rightarrow> Inr ''invalid'')
                | _ \<Rightarrow> Inr ''invalid''))"

section \<open>The plane's invariant\<close>

definition pointer_ok :: "history \<Rightarrow> bool" where
  "pointer_ok h \<longleftrightarrow> (\<exists>r. hi_runtime h = Some r \<and> map w_id (filter is_open (hi_windows h)) = (case rt_open r of None \<Rightarrow> [] | Some i \<Rightarrow> [i]))"

definition plane_ok :: "history \<Rightarrow> bool" where
  "plane_ok h \<longleftrightarrow> constraints_ok h \<and> pointer_ok h \<and> distinct (map w_id (hi_windows h)) \<and> 0 \<notin> set (map w_id (hi_windows h))
     \<and> list_all incident_values (hi_windows h)"

text \<open>The health fields do not matter.\<close>

definition same_tables :: "history \<Rightarrow> history \<Rightarrow> bool" where
  "same_tables h k \<longleftrightarrow> hi_windows h = hi_windows k \<and> hi_runtime h = hi_runtime k \<and> hi_enabled h = hi_enabled k"

lemma same_tables_refl [simp]: "same_tables h h"
  by (simp add: same_tables_def)

lemma same_tables_health [simp]:
  "same_tables (plane_failure h) k \<longleftrightarrow> same_tables h k" "same_tables (plane_refusal h) k \<longleftrightarrow> same_tables h k"
  "same_tables (plane_accept h) k \<longleftrightarrow> same_tables h k"
  by (simp_all add: same_tables_def plane_failure_def plane_refusal_def plane_accept_def)

lemma plane_ok_same: "same_tables h k \<Longrightarrow> plane_ok h \<longleftrightarrow> plane_ok k"
  by (simp add: same_tables_def plane_ok_def constraints_ok_def pointer_ok_def)

text \<open>The effect of a transaction on the tables: the new ones, under the constraints, or the old ones.\<close>

lemma write_effect:
  assumes "write_tables c new h = (h', ok)"
  shows "same_tables h' h \<and> \<not> ok \<or> same_tables h' new \<and> constraints_ok new"
  using assms by (cases c) (auto simp: write_tables_def transact_def split: if_splits)

lemma write_ok: "write_tables c new h = (h', True) \<Longrightarrow> same_tables h' new \<and> constraints_ok new"
  using write_effect by fastforce

lemma write_landed: "constraints_ok new \<Longrightarrow> write_tables Landed new h = (plane_accept new, True)"
  by (simp add: write_tables_def transact_def)

lemma write_plane_ok:
  assumes "plane_ok h" "constraints_ok new \<Longrightarrow> plane_ok new"
  shows "plane_ok (fst (write_tables c new h))"
proof -
  obtain h' ok where s: "write_tables c new h = (h', ok)" by (cases "write_tables c new h")
  from write_effect [OF s] assms plane_ok_same [of h'] show ?thesis by (auto simp: s)
qed

lemma next_id_fresh: "next_id ids \<notin> set ids" "0 < next_id ids"
proof -
  have "\<forall>i\<in>set ids. i \<le> fold max ids a" for a
  proof (induction ids arbitrary: a)
    case (Cons x xs)
    have "a \<le> fold max ys a" for ys :: "nat list" and a
      by (induction ys arbitrary: a) (auto intro: order_trans [OF max.cobounded2])
    then have "max x a \<le> fold max xs (max x a)" .
    with Cons show ?case by simp
  qed simp
  then have "\<forall>i\<in>set ids. i \<le> fold max ids 0" .
  then show "next_id ids \<notin> set ids" "0 < next_id ids" by (auto simp: next_id_def dest!: bspec)
qed

lemma plane_health [simp]:
  "plane_ok (plane_failure h) = plane_ok h" "plane_ok (plane_refusal h) = plane_ok h" "plane_ok (plane_accept h) = plane_ok h"
  by (rule plane_ok_same, simp)+

lemma same_windows_plane_ok:
  assumes "plane_ok h" "constraints_ok new" "hi_windows new = hi_windows h"
    and "\<And>r. hi_runtime h = Some r \<Longrightarrow> \<exists>r'. hi_runtime new = Some r' \<and> rt_open r' = rt_open r"
  shows "plane_ok new"
  using assms(1-3) assms(4) by (fastforce simp: plane_ok_def pointer_ok_def)

lemma activate_plane_ok:
  assumes "plane_ok h"
  shows "plane_ok (fst (incident_activate c flr h))"
proof -
  obtain r where r: "hi_runtime h = Some r" using assms by (auto simp: plane_ok_def pointer_ok_def)
  let ?new = "h\<lparr>hi_runtime := Some (if rt_floor r = 0 then r\<lparr>rt_floor := flr, rt_discovery := Some flr, rt_rearm := 0\<rparr> else r)\<rparr>"
  have new: "plane_ok ?new" if "constraints_ok ?new" by (rule same_windows_plane_ok [OF assms that]) (auto simp: r)
  show ?thesis
  proof (cases "hi_enabled h \<and> incident_epoch flr \<noteq> None \<and> \<not> 0 < rt_floor r \<and> constraints_ok ?new")
    case True
    with new assms r show ?thesis by (cases c) (simp_all add: incident_activate_def Let_def transact_def)
  next
    case False
    with assms r show ?thesis by (auto simp: incident_activate_def Let_def)
  qed
qed

lemma open_plane_ok:
  assumes "plane_ok h"
  shows "plane_ok (fst (incident_open_window c now start first v h))"
proof -
  let ?i = "next_id (map w_id (hi_windows h))"
  have "plane_ok (h\<lparr>hi_windows := hi_windows h @ [w], hi_runtime := Some (r\<lparr>rt_open := Some ?i\<rparr>)\<rparr>)"
    if "constraints_ok (h\<lparr>hi_windows := hi_windows h @ [w], hi_runtime := Some (r\<lparr>rt_open := Some ?i\<rparr>)\<rparr>)"
      "w_id w = ?i" "w_closed w = None" "incident_values w" "hi_runtime h = Some r" for w r
  proof -
    have "filter is_open (hi_windows h) = []" using that(1,3) by (simp add: constraints_ok_def is_open_def)
    then show ?thesis using assms that next_id_fresh [of "map w_id (hi_windows h)"]
      by (auto simp: plane_ok_def pointer_ok_def is_open_def)
  qed
  then show ?thesis using assms
    by (auto simp: incident_open_window_def Let_def case_prod_unfold incident_values_def split: option.splits intro!: write_plane_ok)
qed

lemma update_ids:
  assumes "\<And>w. w_id (f w) = w_id w"
  shows "map w_id (update_open i f ws) = map w_id ws"
  using assms by (simp add: update_open_def)

lemma update_filter:
  assumes "\<And>w. w_id (f w) = w_id w" "\<And>w. is_open w \<Longrightarrow> is_open (f w)"
  shows "map w_id (filter is_open (update_open i f ws)) = map w_id (filter is_open ws)"
  using assms by (induction ws) (auto simp: update_open_def)

lemma with_verdict_simps [simp]:
  "w_id (with_verdict v now w) = w_id w" "is_open (with_verdict v now w) = is_open w" "w_closed (with_verdict v now w) = w_closed w"
  "w_start (with_verdict v now w) = w_start w" "w_first (with_verdict v now w) = w_first w" "w_created (with_verdict v now w) = w_created w"
  "k_last (with_verdict v now w) = k_last v"
  by (simp_all add: with_verdict_def is_open_def)

lemma update_values:
  assumes "list_all incident_values ws" "\<And>w. incident_values (f w)"
  shows "list_all incident_values (update_open i f ws)"
  using assms by (auto simp: list_all_iff update_open_def)

lemma with_verdict_values: "incident_values (with_verdict v now w) = incident_values v"
  by (simp add: with_verdict_def incident_values_def)

lemma update_plane_ok:
  assumes "plane_ok h"
  shows "plane_ok (fst (incident_update_window c now i v h))"
proof -
  let ?new = "h\<lparr>hi_windows := update_open i (with_verdict v now) (hi_windows h)\<rparr>"
  have "plane_ok ?new" if "constraints_ok ?new" "incident_values v"
    using assms that by (simp add: plane_ok_def pointer_ok_def update_ids update_filter update_values with_verdict_values)
  then have "plane_ok (fst (write_tables c ?new h))" if "incident_values v" using that by (intro write_plane_ok [OF assms])
  with assms show ?thesis by (simp add: incident_update_window_def)
qed

lemma close_filter:
  assumes "\<And>w. \<not> is_open (f w)"
  shows "filter is_open (update_open i f ws) = filter (\<lambda>w. is_open w \<and> w_id w \<noteq> i) ws"
  using assms by (induction ws) (auto simp: update_open_def)

lemma gate_after_open [simp]: "rt_open (gate_after reason signal r) = None"
  by (simp add: gate_after_def)

lemma close_plane_ok:
  assumes "plane_ok h"
  shows "plane_ok (fst (incident_close_window c now i v reason h))"
proof -
  let ?f = "\<lambda>w. (with_verdict v now w)\<lparr>w_closed := Some (now, reason)\<rparr>"
  have "plane_ok (h\<lparr>hi_windows := update_open i ?f (hi_windows h), hi_runtime := map_option (gate_after reason (k_last v)) (hi_runtime h)\<rparr>)"
    if "constraints_ok (h\<lparr>hi_windows := update_open i ?f (hi_windows h), hi_runtime := map_option (gate_after reason (k_last v)) (hi_runtime h)\<rparr>)"
      "open_with_id i (hi_windows h)" "incident_values v"
  proof -
    obtain r where r: "hi_runtime h = Some r" "map w_id (filter is_open (hi_windows h)) = (case rt_open r of None \<Rightarrow> [] | Some i \<Rightarrow> [i])"
      using assms by (auto simp: plane_ok_def pointer_ok_def)
    from that(2) have "i \<in> set (map w_id (filter is_open (hi_windows h)))" by (auto simp: open_with_id_def list_ex_iff)
    with r(2) have one: "map w_id (filter is_open (hi_windows h)) = [i]" by (auto split: option.splits)
    have "w_id w = i" if "w \<in> set (hi_windows h)" "is_open w" for w
    proof -
      have "w_id w \<in> set (map w_id (filter is_open (hi_windows h)))" using that by simp
      then show ?thesis unfolding one by simp
    qed
    then have "filter (\<lambda>w. is_open w \<and> w_id w \<noteq> i) (hi_windows h) = []" by (auto simp: filter_empty_conv)
    then show ?thesis using assms that r(1)
      by (simp add: plane_ok_def pointer_ok_def update_ids close_filter is_open_def update_values incident_values_def with_verdict_def)
  qed
  then have "plane_ok (fst (write_tables c (h\<lparr>hi_windows := update_open i ?f (hi_windows h),
      hi_runtime := map_option (gate_after reason (k_last v)) (hi_runtime h)\<rparr>) h))" if "open_with_id i (hi_windows h)" "incident_values v"
    using that by (intro write_plane_ok [OF assms])
  with assms show ?thesis by (simp add: incident_close_window_def)
qed

lemma mark_plane_ok:
  assumes "plane_ok h"
  shows "plane_ok (fst (incident_runtime_mark c e s h))"
proof -
  have "plane_ok (fst (write_tables c (h\<lparr>hi_runtime := Some (r\<lparr>rt_evaluated := e, rt_fresh := s\<rparr>)\<rparr>) h))" if "hi_runtime h = Some r" for r
    by (rule write_plane_ok [OF assms same_windows_plane_ok [OF assms]]) (simp_all add: that)
  with assms show ?thesis by (simp add: incident_runtime_mark_def split: option.split)
qed

lemma rearm_plane_ok:
  assumes "plane_ok h"
  shows "plane_ok (fst (incident_rearm c now h))"
proof -
  have "plane_ok (fst (write_tables c (h\<lparr>hi_runtime := Some (r\<lparr>rt_rearm := 0, rt_discovery := d\<rparr>)\<rparr>) h))" if "hi_runtime h = Some r" for r d
    by (rule write_plane_ok [OF assms same_windows_plane_ok [OF assms]]) (simp_all add: that)
  with assms show ?thesis by (simp add: incident_rearm_def case_prod_unfold Let_def split: option.split)
qed

lemma marker_plane_ok:
  assumes "plane_ok h"
  shows "plane_ok (fst (record_marker c retention now kind epoch h))"
proof -
  have "plane_ok (fst (write_tables c (h\<lparr>hi_markers := ms\<rparr>) h))" for ms
    by (rule write_plane_ok [OF assms same_windows_plane_ok [OF assms]]) simp_all
  with assms show ?thesis by (simp add: record_marker_def case_prod_unfold Let_def)
qed

lemma expire_plane_ok:
  assumes "plane_ok h"
  shows "plane_ok (expire_incidents c horizon h)"
proof -
  let ?ws = "filter (\<lambda>w. is_open w \<or> horizon \<le> k_last w) (hi_windows h)"
  have "filter is_open ?ws = filter is_open (hi_windows h)" unfolding filter_filter by (rule filter_cong) auto
  moreover have "list_all window_check (hi_windows h) \<Longrightarrow> list_all window_check ?ws" by (simp add: list_all_iff)
  moreover have "distinct (map w_id (hi_windows h)) \<Longrightarrow> distinct (map w_id ?ws)" by (rule distinct_map_filter)
  moreover have "list_all incident_values (hi_windows h) \<Longrightarrow> list_all incident_values ?ws" by (simp add: list_all_iff)
  moreover have "0 \<notin> set (map w_id (hi_windows h)) \<Longrightarrow> 0 \<notin> set (map w_id ?ws)" by auto
  ultimately have "plane_ok (h\<lparr>hi_windows := ?ws, hi_markers := ms\<rparr>)" for ms
    using assms by (simp add: plane_ok_def constraints_ok_def pointer_ok_def)
  with assms show ?thesis by (cases c) (simp_all add: expire_incidents_def transact_def)
qed

lemma snapshot_tables: "same_tables (fst (incident_runtime_snapshot readable h)) h"
  by (simp add: incident_runtime_snapshot_def)

lemma bundle_tables: "same_tables (fst (classifier_bundle readable t hl start stop status h)) h"
  by (simp add: classifier_bundle_def Let_def)

end
