(* ===== verification/Runtime.thy ===== *)
theory Runtime
  imports Incidents
begin

text \<open>
  The incident scanner (\<open>web/incident_runtime.py\<close>): activation, one scan cycle with its discovery and open
  stages, reader continuity, containment and the reported phase. A cycle is a computation over the scanner's
  fields and the history store that may abort with a closed code; everything it reads from outside (clock
  readings, the heartbeat, the evidence tables, the outcome of its writes) is in a record of inputs.
\<close>

section \<open>Constants\<close>

definition BUCKET_GRACE_SECONDS :: rat where "BUCKET_GRACE_SECONDS = 15"
definition DISCOVERY_BUCKETS :: nat where "DISCOVERY_BUCKETS = 5"
definition CLOSE_CLEAN_BUCKETS :: int where "CLOSE_CLEAN_BUCKETS = 3"
definition MAX_ANALYSIS_BUCKETS :: int where "MAX_ANALYSIS_BUCKETS = int MAX_BUCKETS"

definition ERROR_EVIDENCE_READ_FAILED :: string where "ERROR_EVIDENCE_READ_FAILED = ''evidence_read_failed''"
definition ERROR_CLASSIFY_FAILED :: string where "ERROR_CLASSIFY_FAILED = ''classify_failed''"
definition ERROR_PERSIST_FAILED :: string where "ERROR_PERSIST_FAILED = ''persist_failed''"
definition ERROR_RUNTIME_STATE_CORRUPT :: string where "ERROR_RUNTIME_STATE_CORRUPT = ''runtime_state_corrupt''"

datatype phase = PhaseWarmup | PhaseIdle | PhaseOpen | PhaseRearm | PhaseDegraded

section \<open>The scanner and its computations\<close>

record scanner =
  sc_enabled :: bool
  sc_thread :: bool
  sc_stop :: bool
  sc_completed :: nat
  sc_failed :: nat
  sc_error :: "string option"
  sc_last_failed :: bool
  sc_evaluated :: "rat option"
  sc_open :: "nat option"
  sc_rearm :: bool
  sc_gated :: bool
  sc_discovery :: "rat option"

definition new_scanner :: scanner where
  "new_scanner = \<lparr>sc_enabled = False, sc_thread = False, sc_stop = False, sc_completed = 0, sc_failed = 0, sc_error = None,
     sc_last_failed = False, sc_evaluated = None, sc_open = None, sc_rearm = False, sc_gated = True, sc_discovery = None\<rparr>"

record tick =
  tk_readable :: bool
  tk_beat :: "heartbeat option"
  tk_beat_now :: rat
  tk_stamp :: rat
  tk_now :: rat
  tk_evidence :: tables
  tk_health :: plane_health
  tk_bundle_readable :: bool
  tk_store_now :: rat
  tk_write :: commit
  tk_mark :: commit

type_synonym plane = "scanner \<times> history"
type_synonym 'a job = "plane \<Rightarrow> (string + 'a) \<times> plane"

definition abort :: "string \<Rightarrow> 'a job" where
  "abort code p = (Inl code, p)"

definition give :: "'a \<Rightarrow> 'a job" where
  "give x p = (Inr x, p)"

definition chain :: "'a job \<Rightarrow> ('a \<Rightarrow> 'b job) \<Rightarrow> 'b job" where
  "chain m f p = (case m p of (Inl code, q) \<Rightarrow> (Inl code, q) | (Inr x, q) \<Rightarrow> f x q)"

definition cache :: "(scanner \<Rightarrow> scanner) \<Rightarrow> unit job" where
  "cache f p = (Inr (), f (fst p), snd p)"

definition ask :: "(history \<Rightarrow> history \<times> 'a) \<Rightarrow> 'a job" where
  "ask f p = (case f (snd p) of (h, x) \<Rightarrow> (Inr x, fst p, h))"

definition demand :: "string \<Rightarrow> bool \<Rightarrow> unit job" where
  "demand code ok = (if ok then give () else abort code)"

definition need :: "string \<Rightarrow> 'a option \<Rightarrow> 'a job" where
  "need code x = (case x of None \<Rightarrow> abort code | Some y \<Rightarrow> give y)"

section \<open>Helpers of a cycle\<close>

definition epoch_ok :: "rat \<Rightarrow> rat option" where
  "epoch_ok q = (if q < 0 then None else Some q)"

definition rearm_flag :: "int \<Rightarrow> bool option" where
  "rearm_flag v = (if v = 0 \<or> v = 1 then Some (v = 1) else None)"

definition warming :: "rat option \<Rightarrow> rat option \<Rightarrow> bool" where
  "warming gate last_end =
     (case (gate, last_end) of
        (Some g, Some e) \<Rightarrow> e - of_nat DISCOVERY_BUCKETS * BUCKET_SECONDS < g
      | _ \<Rightarrow> True)"

definition last_complete_end :: "rat \<Rightarrow> rat \<Rightarrow> rat option" where
  "last_complete_end flr now =
     (let latest = flr + BUCKET_SECONDS * of_int \<lfloor>(now - BUCKET_GRACE_SECONDS - flr) / BUCKET_SECONDS\<rfloor>
      in if latest < flr + BUCKET_SECONDS then None else Some latest)"

definition read_snapshot :: "bool \<Rightarrow> (runtime_row \<times> window option) job" where
  "read_snapshot readable =
     chain (ask (incident_runtime_snapshot readable)) (\<lambda>(state, row).
       chain (need ERROR_RUNTIME_STATE_CORRUPT state) (\<lambda>r. give (r, row)))"

definition discovery_gate :: "runtime_row \<Rightarrow> rat option job" where
  "discovery_gate r =
     chain (need ERROR_RUNTIME_STATE_CORRUPT (rearm_flag (rt_rearm r))) (\<lambda>flag.
       chain (cache (\<lambda>s. s\<lparr>sc_rearm := flag\<rparr>)) (\<lambda>_.
         if flag then give None
         else chain (need ERROR_RUNTIME_STATE_CORRUPT (Option.bind (rt_discovery r) epoch_ok)) (\<lambda>d.
                chain (cache (\<lambda>s. s\<lparr>sc_discovery := Some d\<rparr>)) (\<lambda>_. give (Some d)))))"

definition reader_hb :: "rat \<Rightarrow> heartbeat option \<Rightarrow> string job" where
  "reader_hb now hb = (case heartbeat_status now hb of Inl _ \<Rightarrow> abort ERROR_EVIDENCE_READ_FAILED | Inr token \<Rightarrow> give token)"

definition derive_rfs :: "tick \<Rightarrow> rat option \<Rightarrow> rat option job" where
  "derive_rfs tk persisted =
     chain (reader_hb (tk_beat_now tk) (tk_beat tk)) (\<lambda>token.
       give (if token \<noteq> ''fresh'' then None
             else (case Option.bind persisted epoch_ok of None \<Rightarrow> Some (tk_stamp tk) | Some t \<Rightarrow> Some t)))"

definition projection :: "rat option \<Rightarrow> rat \<Rightarrow> string" where
  "projection rfs start = (case rfs of None \<Rightarrow> ''stale'' | Some t \<Rightarrow> if t \<le> start then ''fresh'' else ''stale'')"

definition detect_window :: "tick \<Rightarrow> rat \<Rightarrow> rat \<Rightarrow> rat option \<Rightarrow> detection job" where
  "detect_window tk start stop rfs =
     chain (ask (classifier_bundle (tk_bundle_readable tk) (tk_evidence tk) (tk_health tk) start stop (projection rfs start))) (\<lambda>b.
       chain (need ERROR_EVIDENCE_READ_FAILED b) (\<lambda>bundle.
         case detect bundle of Inl _ \<Rightarrow> abort ERROR_CLASSIFY_FAILED | Inr d \<Rightarrow> give d))"

definition encode_bits :: "classification \<Rightarrow> (int \<times> int) job" where
  "encode_bits c =
     (case (evidence_to_bits (PList (map PStr (cl_evidence c))), unknown_to_bits (PList (map PStr (cl_unknowns c)))) of
        (Some e, Some u) \<Rightarrow> give (e, u)
      | _ \<Rightarrow> abort ERROR_CLASSIFY_FAILED)"

text \<open>The six columns of one classification.\<close>

definition verdict_of :: "string \<Rightarrow> rat \<Rightarrow> rat \<Rightarrow> int \<Rightarrow> int \<times> int \<Rightarrow> verdict_cols" where
  "verdict_of category signal stop buckets bits =
     \<lparr>k_category = category, k_last = signal, k_end = stop, k_buckets = buckets, k_evidence = fst bits, k_unknown = snd bits\<rparr>"

section \<open>Stages\<close>

definition discovery_cycle :: "tick \<Rightarrow> rat \<Rightarrow> rat \<Rightarrow> rat option \<Rightarrow> rat option job" where
  "discovery_cycle tk gate last_end rfs =
     (if warming (Some gate) (Some last_end) then give None
      else chain (detect_window tk (last_end - of_nat DISCOVERY_BUCKETS * BUCKET_SECONDS) last_end rfs) (\<lambda>d.
        if cl_status (de_classification d) \<noteq> STATUS_INCIDENT then give (Some last_end)
        else chain (encode_bits (de_classification d)) (\<lambda>bits.
          chain (need ERROR_RUNTIME_STATE_CORRUPT (de_first d)) (\<lambda>first.
            chain (need ERROR_RUNTIME_STATE_CORRUPT (de_last d)) (\<lambda>signal.
              chain (ask (incident_open_window (tk_write tk) (tk_store_now tk) (first - of_nat MIN_BASELINE_BUCKETS * BUCKET_SECONDS) first
                           (verdict_of (cl_category (de_classification d)) signal last_end (int DISCOVERY_BUCKETS) bits))) (\<lambda>opened.
                chain (need ERROR_PERSIST_FAILED opened) (\<lambda>i.
                  chain (cache (\<lambda>s. s\<lparr>sc_open := Some i\<rparr>)) (\<lambda>_. give (Some last_end)))))))))"

definition advance_last_signal :: "window \<Rightarrow> detection \<Rightarrow> rat job" where
  "advance_last_signal w d =
     chain (need ERROR_RUNTIME_STATE_CORRUPT (epoch_ok (k_last w))) (\<lambda>persisted.
       if de_indices d = [] then give persisted
       else chain (need ERROR_CLASSIFY_FAILED (Option.bind (de_last d) epoch_ok)) (\<lambda>advanced. give (max persisted advanced)))"

definition unchanged :: "window \<Rightarrow> verdict_cols \<Rightarrow> bool" where
  "unchanged w v \<longleftrightarrow> k_buckets v = k_buckets w \<and> epoch_ok (k_end w) = Some (k_end v) \<and> k_category v = k_category w
     \<and> epoch_ok (k_last w) = Some (k_last v) \<and> k_evidence v = k_evidence w \<and> k_unknown v = k_unknown w"

definition close_clean :: "tick \<Rightarrow> window \<Rightarrow> verdict_cols \<Rightarrow> unit job" where
  "close_clean tk w v =
     chain (ask (incident_close_window (tk_write tk) (tk_store_now tk) (w_id w) v INCIDENT_CLOSURE_CLEAN_BUCKETS)) (\<lambda>landed.
       chain (demand ERROR_PERSIST_FAILED landed) (\<lambda>_. cache (\<lambda>s. s\<lparr>sc_open := None, sc_discovery := Some (k_last v)\<rparr>)))"

definition close_window_limit :: "tick \<Rightarrow> window \<Rightarrow> unit job" where
  "close_window_limit tk w =
     chain (need ERROR_RUNTIME_STATE_CORRUPT (epoch_ok (k_last w))) (\<lambda>signal.
       chain (need ERROR_RUNTIME_STATE_CORRUPT (epoch_ok (k_end w))) (\<lambda>stop.
         chain (ask (incident_close_window (tk_write tk) (tk_store_now tk) (w_id w)
                      (verdict_of (k_category w) signal stop (k_buckets w) (k_evidence w, k_unknown w)) INCIDENT_CLOSURE_WINDOW_LIMIT)) (\<lambda>landed.
           chain (demand ERROR_PERSIST_FAILED landed) (\<lambda>_.
             cache (\<lambda>s. s\<lparr>sc_open := None, sc_rearm := True, sc_discovery := None\<rparr>)))))"

definition settle_verdict :: "tick \<Rightarrow> window \<Rightarrow> detection \<Rightarrow> verdict_cols \<Rightarrow> unit job" where
  "settle_verdict tk w d v =
     (if list_all (\<lambda>i. int i < k_buckets v - CLOSE_CLEAN_BUCKETS) (de_indices d) then close_clean tk w v
      else if unchanged w v then give ()
      else chain (ask (incident_update_window (tk_write tk) (tk_store_now tk) (w_id w) v)) (demand ERROR_PERSIST_FAILED))"

definition open_cycle :: "tick \<Rightarrow> window \<Rightarrow> rat \<Rightarrow> rat option \<Rightarrow> rat option job" where
  "open_cycle tk w last_end rfs =
     chain (need ERROR_RUNTIME_STATE_CORRUPT (epoch_ok (w_start w))) (\<lambda>start.
       let count = round_half_even ((last_end - start) / BUCKET_SECONDS)
       in if count < 1 then abort ERROR_RUNTIME_STATE_CORRUPT
          else if MAX_ANALYSIS_BUCKETS < count then chain (close_window_limit tk w) (\<lambda>_. give None)
          else chain (detect_window tk start last_end rfs) (\<lambda>d.
            chain (encode_bits (de_classification d)) (\<lambda>bits.
              chain (advance_last_signal w d) (\<lambda>signal.
                chain (settle_verdict tk w d (verdict_of (cl_category (de_classification d)) signal last_end count bits)) (\<lambda>_.
                  give (Some last_end))))))"

definition mark_cycle :: "tick \<Rightarrow> rat option \<Rightarrow> rat option \<Rightarrow> runtime_row \<Rightarrow> unit job" where
  "mark_cycle tk evaluated rfs r =
     chain (need ERROR_RUNTIME_STATE_CORRUPT (epoch_ok (rt_evaluated r))) (\<lambda>persisted.
       chain (ask (incident_runtime_mark (tk_mark tk) (case evaluated of None \<Rightarrow> persisted | Some e \<Rightarrow> e) rfs)) (\<lambda>landed.
         chain (demand ERROR_PERSIST_FAILED landed) (\<lambda>_.
           case evaluated of None \<Rightarrow> give () | Some e \<Rightarrow> cache (\<lambda>s. s\<lparr>sc_evaluated := Some e\<rparr>))))"

definition stage :: "tick \<Rightarrow> window option \<Rightarrow> rat option \<Rightarrow> rat \<Rightarrow> rat option \<Rightarrow> rat option job" where
  "stage tk row gate last_end rfs =
     (case row of
        Some w \<Rightarrow> open_cycle tk w last_end rfs
      | None \<Rightarrow> (case gate of None \<Rightarrow> give None | Some g \<Rightarrow> discovery_cycle tk g last_end rfs))"

definition run_one_cycle :: "tick \<Rightarrow> unit job" where
  "run_one_cycle tk =
     chain (read_snapshot (tk_readable tk)) (\<lambda>(r, row).
       case epoch_ok (rt_floor r) of
         None \<Rightarrow> give ()
       | Some flr \<Rightarrow>
           if flr \<le> 0 then give ()
           else chain (discovery_gate r) (\<lambda>gate.
             chain (derive_rfs tk (rt_fresh r)) (\<lambda>rfs.
               case last_complete_end flr (tk_now tk) of
                 None \<Rightarrow> chain (cache (\<lambda>s. s\<lparr>sc_gated := True\<rparr>)) (\<lambda>_. mark_cycle tk None rfs r)
               | Some last_end \<Rightarrow>
                   chain (stage tk row gate last_end rfs) (\<lambda>evaluated.
                     chain (cache (\<lambda>s. s\<lparr>sc_gated := \<not> sc_rearm s \<and> warming (sc_discovery s) (Some last_end)\<rparr>)) (\<lambda>_.
                       mark_cycle tk evaluated rfs r)))))"

definition note_success :: "scanner \<Rightarrow> scanner" where
  "note_success s = s\<lparr>sc_completed := sc_completed s + 1, sc_last_failed := False, sc_error := None\<rparr>"

definition note_failure :: "string \<Rightarrow> scanner \<Rightarrow> scanner" where
  "note_failure code s = s\<lparr>sc_failed := sc_failed s + 1, sc_last_failed := True, sc_error := Some code\<rparr>"

definition run_once :: "tick \<Rightarrow> plane \<Rightarrow> plane" where
  "run_once tk p =
     (if \<not> sc_enabled (fst p) then p
      else (case run_one_cycle tk p of
              (Inl code, s, h) \<Rightarrow> (note_failure code s, h)
            | (Inr _, s, h) \<Rightarrow> (note_success s, h)))"

section \<open>Activation\<close>

record boot =
  bt_now :: rat
  bt_activate :: commit
  bt_readable :: bool
  bt_beat :: "heartbeat option"
  bt_beat_now :: rat
  bt_mark :: commit
  bt_grid_now :: rat

definition restart_mark :: "boot \<Rightarrow> (runtime_row \<times> bool) job" where
  "restart_mark b =
     (let flr = minute_ceiling (bt_now b)
      in chain (ask (incident_activate (bt_activate b) flr)) (\<lambda>landed.
           chain (demand ERROR_PERSIST_FAILED landed) (\<lambda>_.
             chain (read_snapshot (bt_readable b)) (\<lambda>(r, row).
               chain (reader_hb (bt_beat_now b) (bt_beat b)) (\<lambda>token.
                 chain (ask (incident_runtime_mark (bt_mark b) (rt_evaluated r) (if token = ''fresh'' then Some flr else None))) (\<lambda>marked.
                   chain (demand ERROR_PERSIST_FAILED marked) (\<lambda>_. give (r, True))))))))"

definition activated :: "boot \<Rightarrow> runtime_row \<Rightarrow> scanner \<Rightarrow> scanner option" where
  "activated b r s =
     (case (rearm_flag (rt_rearm r), epoch_ok (rt_floor r)) of
        (Some rearm, Some flr) \<Rightarrow>
          (let discovery = Option.bind (rt_discovery r) epoch_ok
           in if flr \<le> 0 \<or> \<not> rearm \<and> discovery = None then None
              else Some (s\<lparr>sc_enabled := True, sc_rearm := rearm, sc_last_failed := False, sc_error := None,
                     sc_evaluated := (case epoch_ok (rt_evaluated r) of Some e \<Rightarrow> if 0 < e then Some e else None | None \<Rightarrow> None),
                     sc_discovery := discovery,
                     sc_gated := \<not> rearm \<and> warming discovery (last_complete_end flr (bt_grid_now b)),
                     sc_open := (case rt_open r of Some i \<Rightarrow> if 1 \<le> i then Some i else None | None \<Rightarrow> None)\<rparr>))
      | _ \<Rightarrow> None)"

definition start_scanner :: "boot \<Rightarrow> plane \<Rightarrow> plane" where
  "start_scanner b p =
     (if sc_thread (fst p) \<or> sc_stop (fst p) then p
      else (case restart_mark b p of
              (Inl _, q) \<Rightarrow> q
            | (Inr (r, _), s, h) \<Rightarrow> (case activated b r s of None \<Rightarrow> (s, h) | Some s' \<Rightarrow> (s'\<lparr>sc_thread := True\<rparr>, h))))"

definition phase :: "scanner \<Rightarrow> phase" where
  "phase s =
     (if \<not> sc_enabled s then PhaseWarmup
      else if sc_last_failed s then PhaseDegraded
      else if sc_open s \<noteq> None then PhaseOpen
      else if sc_rearm s then PhaseRearm
      else if sc_gated s then PhaseWarmup else PhaseIdle)"

section \<open>Histories\<close>

text \<open>
  A process starts with a new scanner, its thread runs cycles until it is stopped, the operator re-arms and sets
  markers, and retention prunes. A crash inside a cycle is a cycle whose later writes are rolled back, followed by
  a new start.
\<close>

datatype happening = Begin boot | Cycle tick | Rearm commit rat | Note commit rat rat string "rat option" | Retain commit rat | Halt

definition live :: "scanner \<Rightarrow> bool" where
  "live s \<longleftrightarrow> sc_thread s \<and> \<not> sc_stop s"

definition occur :: "plane \<Rightarrow> happening \<Rightarrow> plane" where
  "occur p e =
     (case e of
        Begin b \<Rightarrow> start_scanner b (new_scanner, snd p)
      | Cycle tk \<Rightarrow> if live (fst p) then run_once tk p else p
      | Rearm c now \<Rightarrow> (fst p, fst (incident_rearm c now (snd p)))
      | Note c retention now kind epoch \<Rightarrow> (fst p, fst (record_marker c retention now kind epoch (snd p)))
      | Retain c horizon \<Rightarrow> (fst p, expire_incidents c horizon (snd p))
      | Halt \<Rightarrow> ((fst p)\<lparr>sc_stop := True\<rparr>, snd p))"

definition first_plane :: plane where
  "first_plane = (new_scanner, new_history)"

section \<open>Reasoning about computations\<close>

text \<open>From \<open>P\<close>, a returning run of \<open>m\<close> ends in \<open>Q\<close> and an aborting one in \<open>E\<close>.\<close>

definition runs :: "(plane \<Rightarrow> bool) \<Rightarrow> 'a job \<Rightarrow> ('a \<Rightarrow> plane \<Rightarrow> bool) \<Rightarrow> (plane \<Rightarrow> bool) \<Rightarrow> bool" where
  "runs P m Q E \<longleftrightarrow> (\<forall>p. P p \<longrightarrow> (case m p of (Inl _, q) \<Rightarrow> E q | (Inr x, q) \<Rightarrow> Q x q))"

lemma runs_conseq:
  assumes "runs P m Q E" "\<And>p. P' p \<Longrightarrow> P p" "\<And>x p. Q x p \<Longrightarrow> Q' x p" "\<And>p. E p \<Longrightarrow> E' p"
  shows "runs P' m Q' E'"
  using assms by (fastforce simp: runs_def split: prod.splits sum.splits)

lemma runs_chain: "runs P m R E \<Longrightarrow> (\<And>x. runs (R x) (f x) Q E) \<Longrightarrow> runs P (chain m f) Q E"
  by (fastforce simp: runs_def chain_def split: prod.splits sum.splits)

lemma runs_give: "(\<And>p. P p \<Longrightarrow> Q x p) \<Longrightarrow> runs P (give x) Q E"
  by (simp add: runs_def give_def)

lemma runs_abort: "(\<And>p. P p \<Longrightarrow> E p) \<Longrightarrow> runs P (abort code) Q E"
  by (simp add: runs_def abort_def)

lemma runs_cache: "(\<And>s h. P (s, h) \<Longrightarrow> Q () (f s, h)) \<Longrightarrow> runs P (cache f) Q E"
  by (auto simp: runs_def cache_def)

text \<open>The steps a computation is made of, with what is known behind them.\<close>

named_theorems job_rules

lemma runs_need [job_rules]:
  "(\<And>p. P p \<Longrightarrow> E p) \<Longrightarrow> (\<And>y. x = Some y \<Longrightarrow> runs P (f y) Q E) \<Longrightarrow> runs P (chain (need code x) f) Q E"
  by (auto simp: runs_def chain_def need_def give_def abort_def split: option.split)

lemma runs_demand [job_rules]:
  "(\<And>p. P p \<Longrightarrow> E p) \<Longrightarrow> (ok \<Longrightarrow> runs P (f ()) Q E) \<Longrightarrow> runs P (chain (demand code ok) f) Q E"
  by (auto simp: runs_def chain_def demand_def give_def abort_def)

lemma runs_then_cache [job_rules]:
  assumes "runs (\<lambda>p. \<exists>s. P (s, snd p) \<and> fst p = g s) (f ()) Q E"
  shows "runs P (chain (cache g) f) Q E"
  unfolding runs_def
proof (intro allI impI)
  fix p assume "P p"
  then have "\<exists>s. P (s, snd (g (fst p), snd p)) \<and> fst (g (fst p), snd p) = g s" by (metis fst_conv snd_conv surjective_pairing)
  from assms [unfolded runs_def, rule_format, OF this]
  show "case chain (cache g) f p of (Inl _, q) \<Rightarrow> E q | (Inr x, q) \<Rightarrow> Q x q" by (simp add: chain_def cache_def)
qed

lemma chain_assoc: "chain (chain m g) k = chain m (\<lambda>x. chain (g x) k)"
  by (auto simp: chain_def fun_eq_iff split: prod.split sum.split)

lemma chain_give: "chain (give x) k = k x"
  by (simp add: chain_def give_def fun_eq_iff)

text \<open>A computation that leaves the store alone.\<close>

definition inert :: "'a job \<Rightarrow> bool" where
  "inert m \<longleftrightarrow> (\<forall>p. snd (snd (m p)) = snd p)"

lemma inert_rules [job_rules]:
  "inert (give x)" "inert (abort code)" "inert (cache g)" "inert (need code y)" "inert (demand code ok)"
  by (simp_all add: inert_def give_def abort_def cache_def need_def demand_def split: option.split)

lemma inert_chain [job_rules]: "inert m \<Longrightarrow> (\<And>x. inert (k x)) \<Longrightarrow> inert (chain m k)"
  by (auto simp: inert_def chain_def split: prod.split sum.split) (metis snd_conv)+

lemma runs_if [job_rules]: "(b \<Longrightarrow> runs P m Q E) \<Longrightarrow> (\<not> b \<Longrightarrow> runs P n Q E) \<Longrightarrow> runs P (if b then m else n) Q E"
  by simp

lemma runs_inert:
  assumes "inert m" "\<And>h. P h \<Longrightarrow> R h"
  shows "runs (\<lambda>p. P (snd p)) m (\<lambda>_ p. R (snd p)) (\<lambda>p. R (snd p))"
  unfolding runs_def
proof (intro allI impI)
  fix p :: plane assume p: "P (snd p)"
  obtain r q where q: "m p = (r, q)" by (cases "m p")
  have "snd (snd (m p)) = snd p" using assms(1) unfolding inert_def by blast
  with assms(2) [OF p] q show "case m p of (Inl _, q) \<Rightarrow> R (snd q) | (Inr x, q) \<Rightarrow> R (snd q)" by (simp split: sum.split)
qed

lemma runs_ask_inert:
  assumes "\<And>h h' x. P h \<Longrightarrow> g h = (h', x) \<Longrightarrow> R h'" "\<And>x. inert (f x)"
  shows "runs (\<lambda>p. P (snd p)) (chain (ask g) f) (\<lambda>_ p. R (snd p)) (\<lambda>p. R (snd p))"
proof (rule runs_chain)
  show "runs (\<lambda>p. P (snd p)) (ask g) (\<lambda>_ p. R (snd p)) (\<lambda>p. R (snd p))"
    using assms(1) by (auto simp: runs_def ask_def split: prod.split)
  show "runs (\<lambda>p. R (snd p)) (f x) (\<lambda>_ p. R (snd p)) (\<lambda>p. R (snd p))" for x
    by (rule runs_inert [OF assms(2)])
qed

lemma runs_use:
  assumes "runs P m Q E" "P p" "m p = (r, q)"
  shows "case r of Inl _ \<Rightarrow> E q | Inr x \<Rightarrow> Q x q"
  using assms(1) [unfolded runs_def, rule_format, OF assms(2)] assms(3) by simp

section \<open>The transactions of a cycle\<close>

text \<open>The bundle a cycle reads for a window, and the stored bits of a classification.\<close>

definition bundle_seen :: "tick \<Rightarrow> rat option \<Rightarrow> rat \<Rightarrow> rat \<Rightarrow> pyval" where
  "bundle_seen tk rfs start stop = bundle_of (tk_health tk) start stop (projection rfs start) (bundle_sections (tk_evidence tk) start stop)"

definition bits_of :: "classification \<Rightarrow> (int \<times> int) option" where
  "bits_of c =
     (case (evidence_to_bits (PList (map PStr (cl_evidence c))), unknown_to_bits (PList (map PStr (cl_unknowns c)))) of
        (Some e, Some u) \<Rightarrow> Some (e, u)
      | _ \<Rightarrow> None)"

lemma encode_bits_need: "encode_bits c = need ERROR_CLASSIFY_FAILED (bits_of c)"
  by (auto simp: encode_bits_def bits_of_def need_def fun_eq_iff split: option.splits)

definition signal_after :: "window \<Rightarrow> detection \<Rightarrow> rat" where
  "signal_after w d = (if de_indices d = [] then k_last w else max (k_last w) (case de_last d of Some l \<Rightarrow> l | None \<Rightarrow> 0))"

definition grown_buckets :: "rat \<Rightarrow> window \<Rightarrow> int" where
  "grown_buckets last_end w = round_half_even ((last_end - w_start w) / BUCKET_SECONDS)"

definition clean_tail :: "int \<Rightarrow> detection \<Rightarrow> bool" where
  "clean_tail count d \<longleftrightarrow> list_all (\<lambda>i. int i < count - CLOSE_CLEAN_BUCKETS) (de_indices d)"

definition verdict_now :: "rat \<Rightarrow> window \<Rightarrow> detection \<Rightarrow> int \<times> int \<Rightarrow> verdict_cols" where
  "verdict_now last_end w d bits = verdict_of (cl_category (de_classification d)) (signal_after w d) last_end (grown_buckets last_end w) bits"

definition closed_as :: "rat \<Rightarrow> string \<Rightarrow> verdict_cols \<Rightarrow> window \<Rightarrow> window" where
  "closed_as now reason v w = (with_verdict v now w)\<lparr>w_closed := Some (now, reason)\<rparr>"

text \<open>What the tables can be after the stage of a cycle that found \<open>row\<close> open.\<close>

inductive stage_step :: "tick \<Rightarrow> rat option \<Rightarrow> rat \<Rightarrow> rat option \<Rightarrow> window option \<Rightarrow> history \<Rightarrow> history \<Rightarrow> bool"
  for tk rfs last_end gate row h where
  quiet: "same_tables h' h \<Longrightarrow> stage_step tk rfs last_end gate row h h'"
| opened: "row = None \<Longrightarrow> gate = Some g \<Longrightarrow> \<not> warming (Some g) (Some last_end) \<Longrightarrow>
    detect (bundle_seen tk rfs (last_end - 300) last_end) = Inr d \<Longrightarrow> cl_status (de_classification d) = STATUS_INCIDENT \<Longrightarrow>
    bits_of (de_classification d) = Some bits \<Longrightarrow> de_first d = Some f \<Longrightarrow> de_last d = Some l \<Longrightarrow>
    k = verdict_of (cl_category (de_classification d)) l last_end 5 bits \<Longrightarrow>
    fst (incident_open_window (tk_write tk) (tk_store_now tk) (f - 180) f k h) = h' \<Longrightarrow>
    stage_step tk rfs last_end gate row h h'"
| updated: "row = Some w \<Longrightarrow> grown_buckets last_end w \<le> 60 \<Longrightarrow> detect (bundle_seen tk rfs (w_start w) last_end) = Inr d \<Longrightarrow>
    bits_of (de_classification d) = Some bits \<Longrightarrow> \<not> clean_tail (grown_buckets last_end w) d \<Longrightarrow>
    fst (incident_update_window (tk_write tk) (tk_store_now tk) (w_id w) (verdict_now last_end w d bits) h) = h' \<Longrightarrow>
    stage_step tk rfs last_end gate row h h'"
| cleaned: "row = Some w \<Longrightarrow> grown_buckets last_end w \<le> 60 \<Longrightarrow> detect (bundle_seen tk rfs (w_start w) last_end) = Inr d \<Longrightarrow>
    bits_of (de_classification d) = Some bits \<Longrightarrow> clean_tail (grown_buckets last_end w) d \<Longrightarrow>
    fst (incident_close_window (tk_write tk) (tk_store_now tk) (w_id w) (verdict_now last_end w d bits) INCIDENT_CLOSURE_CLEAN_BUCKETS h) = h' \<Longrightarrow>
    stage_step tk rfs last_end gate row h h'"
| limited: "row = Some w \<Longrightarrow> 60 < grown_buckets last_end w \<Longrightarrow>
    fst (incident_close_window (tk_write tk) (tk_store_now tk) (w_id w)
       (verdict_of (k_category w) (k_last w) (k_end w) (k_buckets w) (k_evidence w, k_unknown w)) INCIDENT_CLOSURE_WINDOW_LIMIT h) = h' \<Longrightarrow>
    stage_step tk rfs last_end gate row h h'"

lemma bundle_answer:
  assumes "classifier_bundle ok t hl a b status h = (h', x)"
  shows "same_tables h' h \<and> (x \<noteq> None \<longrightarrow> h' = h \<and> x = Some (bundle_of hl a b status (bundle_sections t a b)))"
proof -
  have "same_tables h' h" using bundle_tables [of ok t hl a b status h] assms by simp
  then show ?thesis using assms by (auto simp: classifier_bundle_def Let_def split: if_splits)
qed

lemma detect_window_runs:
  "runs (\<lambda>p. snd p = h) (detect_window tk a b rfs) (\<lambda>d p. snd p = h \<and> detect (bundle_seen tk rfs a b) = Inr d) (\<lambda>p. same_tables (snd p) h)"
  unfolding detect_window_def
proof (rule runs_chain)
  show "runs (\<lambda>p. snd p = h) (ask (classifier_bundle (tk_bundle_readable tk) (tk_evidence tk) (tk_health tk) a b (projection rfs a)))
      (\<lambda>x p. same_tables (snd p) h \<and> (x \<noteq> None \<longrightarrow> snd p = h \<and> x = Some (bundle_seen tk rfs a b))) (\<lambda>p. same_tables (snd p) h)"
    by (auto simp: runs_def ask_def bundle_seen_def split: prod.splits dest!: bundle_answer)
  fix x
  show "runs (\<lambda>p. same_tables (snd p) h \<and> (x \<noteq> None \<longrightarrow> snd p = h \<and> x = Some (bundle_seen tk rfs a b)))
      (chain (need ERROR_EVIDENCE_READ_FAILED x) (\<lambda>bundle. case detect bundle of Inl _ \<Rightarrow> abort ERROR_CLASSIFY_FAILED | Inr d \<Rightarrow> give d))
      (\<lambda>d p. snd p = h \<and> detect (bundle_seen tk rfs a b) = Inr d) (\<lambda>p. same_tables (snd p) h)"
    by (auto simp: runs_def chain_def need_def give_def abort_def split: option.split sum.split)
qed

lemma epoch_ok_Some [simp]: "epoch_ok q = Some t \<longleftrightarrow> 0 \<le> q \<and> t = q"
  by (auto simp: epoch_ok_def)

lemma advance_runs: "runs P (advance_last_signal w d) (\<lambda>signal p. P p \<and> signal = signal_after w d) P"
  by (auto simp: runs_def advance_last_signal_def signal_after_def need_def chain_def give_def abort_def
      split: option.split prod.split)

lemma buckets_seconds: "of_nat DISCOVERY_BUCKETS * BUCKET_SECONDS = 300" "of_nat MIN_BASELINE_BUCKETS * BUCKET_SECONDS = 180"
  by (simp_all add: DISCOVERY_BUCKETS_def MIN_BASELINE_BUCKETS_def BUCKET_SECONDS_def)

abbreviation stages :: "tick \<Rightarrow> rat option \<Rightarrow> rat \<Rightarrow> rat option \<Rightarrow> window option \<Rightarrow> history \<Rightarrow> 'a job \<Rightarrow> bool" where
  "stages tk rfs e gate row h m \<equiv>
     runs (\<lambda>p. snd p = h) m (\<lambda>_ p. stage_step tk rfs e gate row h (snd p)) (\<lambda>p. stage_step tk rfs e gate row h (snd p))"

lemma stages_give: "stages tk rfs e gate row h (give x)" and stages_abort: "stages tk rfs e gate row h (abort code)"
  by (auto simp: runs_def give_def abort_def intro: quiet)

lemma stages_need: "(\<And>y. x = Some y \<Longrightarrow> stages tk rfs e gate row h (f y)) \<Longrightarrow> stages tk rfs e gate row h (chain (need code x) f)"
  by (rule runs_need) (auto intro: quiet)

lemma stages_detect:
  assumes "\<And>d. detect (bundle_seen tk rfs a b) = Inr d \<Longrightarrow> stages tk rfs e gate row h (f d)"
  shows "stages tk rfs e gate row h (chain (detect_window tk a b rfs) f)"
proof -
  have "runs (\<lambda>p. snd p = h) (detect_window tk a b rfs) (\<lambda>d p. snd p = h \<and> detect (bundle_seen tk rfs a b) = Inr d)
      (\<lambda>p. stage_step tk rfs e gate row h (snd p))"
    by (rule runs_conseq [OF detect_window_runs]) (auto intro: quiet)
  moreover have "runs (\<lambda>p. snd p = h \<and> detect (bundle_seen tk rfs a b) = Inr d) (f d)
      (\<lambda>_ p. stage_step tk rfs e gate row h (snd p)) (\<lambda>p. stage_step tk rfs e gate row h (snd p))" for d
    using assms [of d] by (auto simp: runs_def)
  ultimately show ?thesis by (rule runs_chain)
qed

lemma stages_ask:
  assumes "\<And>h' x. g h = (h', x) \<Longrightarrow> stage_step tk rfs e gate row h h'" "\<And>x. inert (f x)"
  shows "stages tk rfs e gate row h (chain (ask g) f)"
  by (rule runs_ask_inert [where P = "\<lambda>k. k = h"]) (use assms in auto)

lemma discovery_stages: "stages tk rfs e (Some g) None h (discovery_cycle tk g e rfs)"
  unfolding discovery_cycle_def buckets_seconds encode_bits_need
proof (intro runs_if stages_give stages_detect stages_need stages_ask job_rules, goal_cases)
  case (1 d bits f l h' x)
  have five: "int DISCOVERY_BUCKETS = 5" by (simp add: DISCOVERY_BUCKETS_def)
  note asked = 1(7) [unfolded five]
  show ?case
    by (rule opened [OF refl refl 1(1) 1(2) _ 1(4) 1(5) 1(6) refl]) (use 1(3) in \<open>simp_all add: asked\<close>)
qed

lemma stages_inert: "inert m \<Longrightarrow> stages tk rfs e gate row h m"
  by (rule runs_inert [where P = "\<lambda>k. k = h"]) (auto intro: quiet)

lemma stages_settle:
  assumes "grown_buckets e w \<le> 60" "detect (bundle_seen tk rfs (w_start w) e) = Inr d" "bits_of (de_classification d) = Some bits"
    and "\<And>x. inert (f x)"
  shows "stages tk rfs e gate (Some w) h (chain (settle_verdict tk w d (verdict_now e w d bits)) f)"
proof -
  have k: "k_buckets (verdict_now e w d bits) = grown_buckets e w" by (simp add: verdict_now_def verdict_of_def)
  show ?thesis
  proof (cases "clean_tail (grown_buckets e w) d")
    case True
    show ?thesis
      unfolding settle_verdict_def k clean_tail_def [symmetric] if_P [OF True] close_clean_def chain_assoc
      by (rule stages_ask) (auto intro!: cleaned [OF refl assms(1-3) True] job_rules assms(4))
  next
    case False
    show ?thesis
      unfolding settle_verdict_def k clean_tail_def [symmetric] if_not_P [OF False]
    proof (cases "unchanged w (verdict_now e w d bits)")
      case True
      show "stages tk rfs e gate (Some w) h (chain (if unchanged w (verdict_now e w d bits) then give ()
          else chain (ask (incident_update_window (tk_write tk) (tk_store_now tk) (w_id w) (verdict_now e w d bits))) (demand ERROR_PERSIST_FAILED)) f)"
        unfolding if_P [OF True] chain_give by (rule stages_inert [OF assms(4)])
    next
      case u: False
      show "stages tk rfs e gate (Some w) h (chain (if unchanged w (verdict_now e w d bits) then give ()
          else chain (ask (incident_update_window (tk_write tk) (tk_store_now tk) (w_id w) (verdict_now e w d bits))) (demand ERROR_PERSIST_FAILED)) f)"
        unfolding if_not_P [OF u] chain_assoc
        by (rule stages_ask) (auto intro!: updated [OF refl assms(1-3) False] job_rules assms(4))
    qed
  qed
qed

lemma stages_advance:
  assumes "stages tk rfs e gate row h (f (signal_after w d))"
  shows "stages tk rfs e gate row h (chain (advance_last_signal w d) f)"
proof (rule runs_chain)
  show "runs (\<lambda>p. snd p = h) (advance_last_signal w d) (\<lambda>signal p. snd p = h \<and> signal = signal_after w d)
      (\<lambda>p. stage_step tk rfs e gate row h (snd p))"
    by (rule runs_conseq [OF advance_runs [of "\<lambda>p. snd p = h"]]) (auto intro: quiet)
  show "runs (\<lambda>p. snd p = h \<and> x = signal_after w d) (f x) (\<lambda>_ p. stage_step tk rfs e gate row h (snd p))
      (\<lambda>p. stage_step tk rfs e gate row h (snd p))" for x
    using assms by (auto simp: runs_def)
qed

lemma stages_limit:
  assumes "60 < grown_buckets e w" "\<And>x. inert (f x)"
  shows "stages tk rfs e gate (Some w) h (chain (close_window_limit tk w) f)"
  unfolding close_window_limit_def chain_assoc
proof (intro stages_need stages_ask, goal_cases)
  case (1 signal stop h' x)
  then show ?case by (intro limited [OF refl assms(1)]) auto
qed (intro job_rules assms(2))

lemma open_stages: "stages tk rfs e gate (Some w) h (open_cycle tk w e rfs)"
  unfolding open_cycle_def encode_bits_need Let_def
proof (intro stages_need runs_if stages_abort, goal_cases)
  case (1 start)
  then show ?case
    by (intro stages_limit job_rules) (auto simp: grown_buckets_def MAX_ANALYSIS_BUCKETS_def MAX_BUCKETS_def)
next
  case (2 start)
  then have w: "start = w_start w" and n: "grown_buckets e w \<le> 60"
    by (auto simp: grown_buckets_def MAX_ANALYSIS_BUCKETS_def MAX_BUCKETS_def)
  show ?case unfolding w
  proof (intro stages_detect stages_need stages_advance, goal_cases)
    case (1 d bits)
    then show ?case
      unfolding verdict_now_def [symmetric] grown_buckets_def [symmetric]
      by (intro stages_settle [OF n] job_rules)
  qed
qed

lemma stage_stages: "stages tk rfs e gate row h (stage tk row gate e rfs)"
  by (auto simp: stage_def intro: discovery_stages open_stages stages_give split: option.split)

text \<open>A whole cycle: one stage, then the mark.\<close>

definition row_named :: "history \<Rightarrow> window option" where
  "row_named h = Option.bind (hi_runtime h) (\<lambda>r. Option.bind (rt_open r) (\<lambda>i. find (\<lambda>w. w_id w = i) (hi_windows h)))"

definition rfs_after :: "tick \<Rightarrow> string \<Rightarrow> rat option \<Rightarrow> rat option" where
  "rfs_after tk token persisted =
     (if token \<noteq> ''fresh'' then None else (case Option.bind persisted epoch_ok of None \<Rightarrow> Some (tk_stamp tk) | Some t \<Rightarrow> Some t))"

definition gate_read :: "runtime_row \<Rightarrow> rat option \<Rightarrow> bool" where
  "gate_read r gate \<longleftrightarrow> (case gate of None \<Rightarrow> rt_rearm r = 1 | Some g \<Rightarrow> rt_rearm r = 0 \<and> rt_discovery r = Some g)"

definition marked_or_not :: "tick \<Rightarrow> rat option \<Rightarrow> history \<Rightarrow> history \<Rightarrow> bool" where
  "marked_or_not tk rfs h h' \<longleftrightarrow> h' = h \<or> (\<exists>e. h' = fst (incident_runtime_mark (tk_mark tk) e rfs h))"

inductive cycle_step :: "tick \<Rightarrow> history \<Rightarrow> history \<Rightarrow> bool" for tk h where
  nothing: "same_tables h' h \<Longrightarrow> cycle_step tk h h'"
| waiting: "hi_runtime h = Some r \<Longrightarrow> heartbeat_status (tk_beat_now tk) (tk_beat tk) = Inr token \<Longrightarrow>
    marked_or_not tk (rfs_after tk token (rt_fresh r)) h h' \<Longrightarrow> cycle_step tk h h'"
| staged: "hi_runtime h = Some r \<Longrightarrow> 0 < rt_floor r \<Longrightarrow> last_complete_end (rt_floor r) (tk_now tk) = Some e \<Longrightarrow>
    gate_read r gate \<Longrightarrow> heartbeat_status (tk_beat_now tk) (tk_beat tk) = Inr token \<Longrightarrow>
    stage_step tk (rfs_after tk token (rt_fresh r)) e gate (row_named h) h h1 \<Longrightarrow>
    marked_or_not tk (rfs_after tk token (rt_fresh r)) h1 h' \<Longrightarrow> cycle_step tk h h'"

lemma mark_runs:
  "runs (\<lambda>p. P (snd p)) (mark_cycle tk ev rfs r) (\<lambda>_ p. \<exists>h. P h \<and> marked_or_not tk rfs h (snd p)) (\<lambda>p. \<exists>h. P h \<and> marked_or_not tk rfs h (snd p))"
  unfolding mark_cycle_def
proof (intro runs_need runs_ask_inert, goal_cases)
  case (1 p)
  then show ?case by (auto simp: marked_or_not_def)
next
  case (2 y h h' x)
  then show ?case by (metis fst_conv marked_or_not_def)
qed (auto intro!: job_rules split: option.split)

lemma discovery_gate_runs:
  "runs (\<lambda>p. snd p = h) (discovery_gate r) (\<lambda>gate p. snd p = h \<and> gate_read r gate) (\<lambda>p. snd p = h)"
  unfolding discovery_gate_def
  by (intro job_rules runs_give)
    (auto simp: gate_read_def rearm_flag_def bind_eq_Some_conv split: if_splits)

lemma derive_rfs_runs:
  "runs (\<lambda>p. snd p = h) (derive_rfs tk persisted)
     (\<lambda>rfs p. snd p = h \<and> (\<exists>token. heartbeat_status (tk_beat_now tk) (tk_beat tk) = Inr token \<and> rfs = rfs_after tk token persisted))
     (\<lambda>p. snd p = h)"
  by (auto simp: runs_def derive_rfs_def reader_hb_def chain_def give_def abort_def rfs_after_def split: sum.split)

lemma snapshot_runs:
  "runs (\<lambda>p. snd p = h) (read_snapshot ok)
     (\<lambda>(r, row) p. snd p = h \<and> hi_runtime h = Some r \<and> row = row_named h) (\<lambda>p. same_tables (snd p) h)"
  unfolding read_snapshot_def
  by (auto simp: runs_def chain_def ask_def need_def give_def abort_def incident_runtime_snapshot_def row_named_def
      split: option.split prod.split)

lemma marks:
  assumes "\<And>k h'. P k \<Longrightarrow> marked_or_not tk rfs k h' \<Longrightarrow> R h'"
  shows "runs (\<lambda>p. P (snd p)) (chain (cache g) (\<lambda>_. mark_cycle tk ev rfs r)) (\<lambda>_ p. R (snd p)) (\<lambda>p. R (snd p))"
proof (rule runs_then_cache)
  show "runs (\<lambda>p. \<exists>s. P (snd (s, snd p)) \<and> fst p = g s) (mark_cycle tk ev rfs r) (\<lambda>_ p. R (snd p)) (\<lambda>p. R (snd p))"
    by (rule runs_conseq [OF mark_runs [of P]]) (use assms in auto)
qed

lemma cycle_runs: "runs (\<lambda>p. snd p = h) (run_one_cycle tk) (\<lambda>_ p. cycle_step tk h (snd p)) (\<lambda>p. cycle_step tk h (snd p))"
proof -
  let ?C = "\<lambda>p :: plane. cycle_step tk h (snd p)"
  have S: "runs (\<lambda>p. snd p = h) (read_snapshot (tk_readable tk)) (\<lambda>x p. snd p = h \<and> hi_runtime h = Some (fst x) \<and> snd x = row_named h) ?C"
    by (rule runs_conseq [OF snapshot_runs]) (auto intro: cycle_step.intros(1))
  have cyc: "runs (\<lambda>p. snd p = h) (chain (discovery_gate r) (\<lambda>gate. chain (derive_rfs tk (rt_fresh r)) (\<lambda>rfs.
        case last_complete_end (rt_floor r) (tk_now tk) of
          None \<Rightarrow> chain (cache (\<lambda>s. s\<lparr>sc_gated := True\<rparr>)) (\<lambda>_. mark_cycle tk None rfs r)
        | Some last_end \<Rightarrow> chain (stage tk (row_named h) gate last_end rfs) (\<lambda>evaluated.
            chain (cache (\<lambda>s. s\<lparr>sc_gated := \<not> sc_rearm s \<and> warming (sc_discovery s) (Some last_end)\<rparr>)) (\<lambda>_. mark_cycle tk evaluated rfs r))))) (\<lambda>_. ?C) ?C"
    if r: "hi_runtime h = Some r" "0 < rt_floor r" for r
  proof (rule runs_chain)
    show "runs (\<lambda>p. snd p = h) (discovery_gate r) (\<lambda>gate p. snd p = h \<and> gate_read r gate) ?C"
      by (rule runs_conseq [OF discovery_gate_runs]) (auto intro: cycle_step.nothing)
    fix gate
    show "runs (\<lambda>p. snd p = h \<and> gate_read r gate) (chain (derive_rfs tk (rt_fresh r)) (\<lambda>rfs.
        case last_complete_end (rt_floor r) (tk_now tk) of
          None \<Rightarrow> chain (cache (\<lambda>s. s\<lparr>sc_gated := True\<rparr>)) (\<lambda>_. mark_cycle tk None rfs r)
        | Some last_end \<Rightarrow> chain (stage tk (row_named h) gate last_end rfs) (\<lambda>evaluated.
            chain (cache (\<lambda>s. s\<lparr>sc_gated := \<not> sc_rearm s \<and> warming (sc_discovery s) (Some last_end)\<rparr>)) (\<lambda>_. mark_cycle tk evaluated rfs r)))) (\<lambda>_. ?C) ?C"
    proof (rule runs_chain)
      let ?H = "\<lambda>rfs. gate_read r gate \<and> (\<exists>token. heartbeat_status (tk_beat_now tk) (tk_beat tk) = Inr token \<and> rfs = rfs_after tk token (rt_fresh r))"
      show "runs (\<lambda>p. snd p = h \<and> gate_read r gate) (derive_rfs tk (rt_fresh r)) (\<lambda>rfs p. snd p = h \<and> ?H rfs) ?C"
      proof (cases "gate_read r gate")
        case True
        then show ?thesis by (intro runs_conseq [OF derive_rfs_runs]) (auto intro: cycle_step.nothing)
      qed (simp add: runs_def)
      fix rfs
      show "runs (\<lambda>p. snd p = h \<and> ?H rfs) (case last_complete_end (rt_floor r) (tk_now tk) of
          None \<Rightarrow> chain (cache (\<lambda>s. s\<lparr>sc_gated := True\<rparr>)) (\<lambda>_. mark_cycle tk None rfs r)
        | Some last_end \<Rightarrow> chain (stage tk (row_named h) gate last_end rfs) (\<lambda>evaluated.
            chain (cache (\<lambda>s. s\<lparr>sc_gated := \<not> sc_rearm s \<and> warming (sc_discovery s) (Some last_end)\<rparr>)) (\<lambda>_. mark_cycle tk evaluated rfs r))) (\<lambda>_. ?C) ?C"
      proof (cases "?H rfs")
        case True
        then obtain token where H: "gate_read r gate" "heartbeat_status (tk_beat_now tk) (tk_beat tk) = Inr token" "rfs = rfs_after tk token (rt_fresh r)"
          by blast
        show ?thesis
        proof (cases "last_complete_end (rt_floor r) (tk_now tk)")
          case None
          show ?thesis unfolding None option.case
            by (rule marks [where P = "\<lambda>k. k = h \<and> ?H rfs"]) (use waiting [OF r(1) H(2)] H(3) in auto)
        next
          case (Some e)
          have st: "cycle_step tk h k" if "stage_step tk rfs e gate (row_named h) h k'" "marked_or_not tk rfs k' k" for k k'
            using staged [OF r Some H(1,2)] that H(3) by simp
          have sg: "runs (\<lambda>p. snd p = h \<and> ?H rfs) (stage tk (row_named h) gate e rfs) (\<lambda>_ p. stage_step tk rfs e gate (row_named h) h (snd p)) ?C"
            by (rule runs_conseq [OF stage_stages]) (auto intro: st simp: marked_or_not_def)
          show ?thesis unfolding Some option.case
            by (rule runs_chain [OF sg], rule marks) (rule st)
        qed
      next
        case False
        then show ?thesis unfolding runs_def by blast
      qed
    qed
  qed
  show ?thesis
    unfolding run_one_cycle_def
  proof (rule runs_chain [OF S])
    fix x :: "runtime_row \<times> window option"
    obtain r row where x: "x = (r, row)" by (cases x)
    show "runs (\<lambda>p. snd p = h \<and> hi_runtime h = Some (fst x) \<and> snd x = row_named h) (case x of (r, row) \<Rightarrow> (case epoch_ok (rt_floor r) of
         None \<Rightarrow> give ()
       | Some flr \<Rightarrow>
           if flr \<le> 0 then give ()
           else chain (discovery_gate r) (\<lambda>gate.
             chain (derive_rfs tk (rt_fresh r)) (\<lambda>rfs.
               case last_complete_end flr (tk_now tk) of
                 None \<Rightarrow> chain (cache (\<lambda>s. s\<lparr>sc_gated := True\<rparr>)) (\<lambda>_. mark_cycle tk None rfs r)
               | Some last_end \<Rightarrow>
                   chain (stage tk row gate last_end rfs) (\<lambda>evaluated.
                     chain (cache (\<lambda>s. s\<lparr>sc_gated := \<not> sc_rearm s \<and> warming (sc_discovery s) (Some last_end)\<rparr>)) (\<lambda>_.
                       mark_cycle tk evaluated rfs r)))))) (\<lambda>_. ?C) ?C"
    proof (cases "hi_runtime h = Some r \<and> row = row_named h \<and> 0 < rt_floor r")
      case False
      then show ?thesis by (auto simp: x runs_def give_def epoch_ok_def intro: cycle_step.nothing)
    next
      case True
      then have ep: "epoch_ok (rt_floor r) = Some (rt_floor r)" "\<not> rt_floor r \<le> 0" and row: "row = row_named h" by (simp_all add: epoch_ok_def)
      show ?thesis unfolding x prod.case ep(1) option.case if_not_P [OF ep(2)] row
        by (rule runs_conseq [OF cyc]) (use True in auto)
    qed
  qed
qed

lemma run_once_step: "cycle_step tk (snd p) (snd (run_once tk p))"
proof -
  obtain r s h where c: "run_one_cycle tk p = (r, s, h)" by (metis prod.exhaust)
  have "cycle_step tk (snd p) h" using runs_use [OF cycle_runs [of "snd p" tk] refl c] by (cases r) simp_all
  then show ?thesis by (auto simp: run_once_def c intro: cycle_step.intros(1) split: sum.split)
qed

section \<open>The plane stays consistent\<close>

lemma mark_or_not_ok: "marked_or_not tk rfs h h' \<Longrightarrow> plane_ok h \<Longrightarrow> plane_ok h'"
  by (auto simp: marked_or_not_def intro: mark_plane_ok)

lemma stage_plane_ok: "stage_step tk rfs e gate row h h' \<Longrightarrow> plane_ok h \<Longrightarrow> plane_ok h'"
  by (induction rule: stage_step.induct) (auto intro: open_plane_ok update_plane_ok close_plane_ok simp: plane_ok_same)

lemma cycle_plane_ok: "cycle_step tk h h' \<Longrightarrow> plane_ok h \<Longrightarrow> plane_ok h'"
  by (induction rule: cycle_step.induct) (auto simp: plane_ok_same intro: mark_or_not_ok stage_plane_ok)

text \<open>A predicate on the store that a whole computation keeps.\<close>

definition keeps_store :: "(history \<Rightarrow> bool) \<Rightarrow> 'a job \<Rightarrow> bool" where
  "keeps_store P m \<longleftrightarrow> runs (\<lambda>p. P (snd p)) m (\<lambda>_ p. P (snd p)) (\<lambda>p. P (snd p))"

lemma keeps_store_chain [job_rules]: "keeps_store P m \<Longrightarrow> (\<And>x. keeps_store P (f x)) \<Longrightarrow> keeps_store P (chain m f)"
  unfolding keeps_store_def by (rule runs_chain)

lemma keeps_store_inert: "inert m \<Longrightarrow> keeps_store P m"
  unfolding keeps_store_def by (rule runs_inert)

lemmas keeps_store_rules [job_rules] = inert_rules [THEN keeps_store_inert]

lemma keeps_store_ask: "(\<And>h. P h \<Longrightarrow> P (fst (g h))) \<Longrightarrow> keeps_store P (ask g)"
  by (auto simp: keeps_store_def runs_def ask_def split: prod.split) (metis fst_conv)

lemma restart_keeps:
  assumes "\<And>h c t. P h \<Longrightarrow> P (fst (incident_activate c t h))" "\<And>h c t s. P h \<Longrightarrow> P (fst (incident_runtime_mark c t s h))"
    and "\<And>h k. same_tables h k \<Longrightarrow> P h = P k"
  shows "keeps_store P (restart_mark b)"
  unfolding restart_mark_def read_snapshot_def reader_hb_def Let_def
proof (intro keeps_store_chain, goal_cases)
  case 1
  show ?case by (rule keeps_store_ask) (rule assms(1))
next
  case (3 x y)
  show ?case by (rule keeps_store_ask) (simp add: assms(3) [OF snapshot_tables])
qed (auto split: prod.split sum.split intro!: job_rules keeps_store_ask assms(2))

end
