(* ===== verification/Lifecycle.thy ===== *)
theory Lifecycle
  imports Runtime
begin

text \<open>
  Properties of the incident runtime over whole histories of starts, cycles, re-arming, markers and retention: the
  tables stay consistent, how windows come and go, what opens and closes them, and what the scanner reports.
\<close>

section \<open>Consistency\<close>

lemma start_plane_ok: "plane_ok (snd p) \<Longrightarrow> plane_ok (snd (start_scanner b p))"
proof -
  assume ok: "plane_ok (snd p)"
  have k: "keeps_store plane_ok (restart_mark b)"
    by (rule restart_keeps) (auto intro: activate_plane_ok mark_plane_ok simp: plane_ok_same)
  obtain r q where r: "restart_mark b p = (r, q)" by (cases "restart_mark b p")
  have "plane_ok (snd q)" using runs_use [OF k [unfolded keeps_store_def] ok r] by (cases r) simp_all
  with ok r show ?thesis by (auto simp: start_scanner_def split: sum.split option.split prod.split)
qed

lemma occur_plane_ok: "plane_ok (snd p) \<Longrightarrow> plane_ok (snd (occur p e))"
  by (cases e) (auto simp: occur_def intro: start_plane_ok cycle_plane_ok [OF run_once_step] rearm_plane_ok marker_plane_ok expire_plane_ok)

interpretation incident_plane: machine occur "\<lambda>p. plane_ok (snd p)" "\<lambda>p e. True"
  by unfold_locales (rule occur_plane_ok)

lemma new_history_ok: "plane_ok new_history"
  by (simp add: plane_ok_def constraints_ok_def pointer_ok_def new_history_def inert_row_def runtime_check_def)

lemma history_plane_ok: "plane_ok (snd (foldl occur first_plane es))"
  by (rule incident_plane.run_inv) (simp_all add: first_plane_def new_history_ok run_ok_all)

text \<open>
  C8: the tables are consistent at every moment. In every history of starts, scan cycles, operator actions and
  retention, whatever the outcome of each commit and wherever the process died, every window satisfies the table's
  constraints, identifiers are distinct, at most one window is open, and the pointer of the runtime row names
  exactly that one.
\<close>

theorem incident_tables_consistent:
  "let h = snd (foldl occur first_plane es)
   in list_all window_check (hi_windows h) \<and> distinct (map w_id (hi_windows h))
      \<and> (\<exists>r. hi_runtime h = Some r \<and> runtime_check r
           \<and> map w_id (filter is_open (hi_windows h)) = (case rt_open r of None \<Rightarrow> [] | Some i \<Rightarrow> [i]))"
  using history_plane_ok [of es] by (auto simp: plane_ok_def constraints_ok_def pointer_ok_def Let_def)

section \<open>How windows change\<close>

definition evolves :: "window \<Rightarrow> window \<Rightarrow> bool" where
  "evolves w w' \<longleftrightarrow> w' = w \<or> is_open w \<and> w_id w' = w_id w \<and> w_start w' = w_start w \<and> w_first w' = w_first w
     \<and> w_created w' = w_created w \<and> k_last w \<le> k_last w'"

definition windows_step :: "history \<Rightarrow> history \<Rightarrow> bool" where
  "windows_step h h' \<longleftrightarrow>
     (\<forall>w\<in>set (hi_windows h). \<exists>w'\<in>set (hi_windows h'). evolves w w')
     \<and> (\<forall>w'\<in>set (hi_windows h'). (\<exists>w\<in>set (hi_windows h). evolves w w') \<or> is_open w' \<and> filter is_open (hi_windows h) = [])"

lemma evolves_refl [simp]: "evolves w w"
  by (simp add: evolves_def)

lemma windows_same: "hi_windows h' = hi_windows h \<Longrightarrow> windows_step h h'"
  by (auto simp: windows_step_def intro: evolves_refl)

text \<open>The open row, when the pointer names one.\<close>

lemma row_named_open:
  assumes "plane_ok h" "row_named h = Some w"
  shows "w \<in> set (hi_windows h)" "is_open w" "\<exists>r. hi_runtime h = Some r \<and> rt_open r = Some (w_id w)"
proof -
  obtain r i where r: "hi_runtime h = Some r" "rt_open r = Some i" "find (\<lambda>w. w_id w = i) (hi_windows h) = Some w"
    using assms(2) by (auto simp: row_named_def bind_eq_Some_conv)
  then have w: "w \<in> set (hi_windows h)" "w_id w = i" by (auto simp: find_Some_iff)
  have ids: "map w_id (filter is_open (hi_windows h)) = [i]" using assms(1) r(1,2) by (auto simp: plane_ok_def pointer_ok_def)
  then obtain x where x: "filter is_open (hi_windows h) = [x]" "w_id x = i" by auto
  then have "x \<in> set (filter is_open (hi_windows h))" by simp
  then have "x \<in> set (hi_windows h)" "is_open x" by simp_all
  moreover have "x = w" using assms(1) w x(2) \<open>x \<in> set (hi_windows h)\<close> by (auto simp: plane_ok_def dest: distinct_map [THEN iffD1] inj_onD)
  ultimately show "w \<in> set (hi_windows h)" "is_open w" "\<exists>r. hi_runtime h = Some r \<and> rt_open r = Some (w_id w)"
    using w r by auto
qed

lemma row_named_unique:
  assumes "plane_ok h" "row_named h = Some w" "x \<in> set (hi_windows h)" "w_id x = w_id w"
  shows "x = w"
  using assms row_named_open(1) [OF assms(1,2)] by (auto simp: plane_ok_def dest: distinct_map [THEN iffD1] inj_onD)

lemma no_row_no_open:
  assumes "plane_ok h" "row_named h = None"
  shows "filter is_open (hi_windows h) = [] \<and> (\<exists>r. hi_runtime h = Some r \<and> rt_open r = None)"
proof -
  obtain r where r: "hi_runtime h = Some r" "map w_id (filter is_open (hi_windows h)) = (case rt_open r of None \<Rightarrow> [] | Some i \<Rightarrow> [i])"
    using assms(1) by (auto simp: plane_ok_def pointer_ok_def)
  show ?thesis
  proof (cases "rt_open r")
    case None
    with r show ?thesis by simp
  next
    case (Some i)
    with r(2) have "i \<in> set (map w_id (filter is_open (hi_windows h)))" by simp
    then obtain x where "x \<in> set (hi_windows h)" "w_id x = i" by auto
    with assms(2) r(1) Some show ?thesis by (auto simp: row_named_def find_None_iff)
  qed
qed

text \<open>What each operation does to the windows.\<close>

lemma write_eq:
  "hi_windows (fst (write_tables c new h)) = (if constraints_ok new \<and> c \<noteq> RolledBack then hi_windows new else hi_windows h)"
  "hi_runtime (fst (write_tables c new h)) = (if constraints_ok new \<and> c \<noteq> RolledBack then hi_runtime new else hi_runtime h)"
  "hi_enabled (fst (write_tables c new h)) = (if constraints_ok new \<and> c \<noteq> RolledBack then hi_enabled new else hi_enabled h)"
  "snd (write_tables c new h) = (constraints_ok new \<and> c = Landed)"
  by (cases c; simp add: write_tables_def transact_def plane_failure_def plane_accept_def)+

lemma refused_eq [simp]:
  "hi_windows (plane_failure h) = hi_windows h" "hi_runtime (plane_failure h) = hi_runtime h" "hi_enabled (plane_failure h) = hi_enabled h"
  "hi_windows (plane_refusal h) = hi_windows h" "hi_runtime (plane_refusal h) = hi_runtime h" "hi_enabled (plane_refusal h) = hi_enabled h"
  "hi_windows (plane_accept h) = hi_windows h" "hi_runtime (plane_accept h) = hi_runtime h" "hi_enabled (plane_accept h) = hi_enabled h"
  by (simp_all add: plane_failure_def plane_refusal_def plane_accept_def)

lemma open_windows:
  "hi_windows (fst (incident_open_window c now a f v h)) = hi_windows h
   \<or> hi_windows (fst (incident_open_window c now a f v h)) = hi_windows h @
       [\<lparr>k_category = k_category v, k_last = k_last v, k_end = k_end v, k_buckets = k_buckets v, k_evidence = k_evidence v,
         k_unknown = k_unknown v, w_id = next_id (map w_id (hi_windows h)), w_start = a, w_first = f, w_closed = None,
         w_created = now, w_updated = now\<rparr>]"
  by (auto simp: incident_open_window_def Let_def case_prod_unfold write_eq split: option.split)

lemma update_windows:
  "hi_windows (fst (incident_update_window c now i v h)) = hi_windows h
   \<or> hi_windows (fst (incident_update_window c now i v h)) = update_open i (with_verdict v now) (hi_windows h)"
  by (auto simp: incident_update_window_def write_eq)

lemma close_windows:
  "hi_windows (fst (incident_close_window c now i v reason h)) = hi_windows h
   \<or> hi_windows (fst (incident_close_window c now i v reason h)) = update_open i (closed_as now reason v) (hi_windows h)"
  by (auto simp: incident_close_window_def closed_as_def [abs_def] write_eq)

lemma mark_windows: "marked_or_not tk rfs h h' \<Longrightarrow> hi_windows h' = hi_windows h"
  by (auto simp: marked_or_not_def incident_runtime_mark_def write_eq split: option.split)

text \<open>A rewritten open row evolves, every other row stays.\<close>

lemma update_step:
  assumes "plane_ok h" "row_named h = Some w" "hi_windows h' = update_open (w_id w) f (hi_windows h)"
    and "w_id (f w) = w_id w" "w_start (f w) = w_start w" "w_first (f w) = w_first w" "w_created (f w) = w_created w" "k_last w \<le> k_last (f w)"
  shows "windows_step h h'"
proof -
  have "evolves x (if w_id x = w_id w \<and> is_open x then f x else x)" if "x \<in> set (hi_windows h)" for x
    using row_named_unique [OF assms(1,2) that] row_named_open(2) [OF assms(1,2)] assms(4-8) by (auto simp: evolves_def)
  then show ?thesis unfolding windows_step_def assms(3) update_open_def set_map by blast
qed

lemma signal_after_ge: "k_last w \<le> signal_after w d"
  by (simp add: signal_after_def)

lemma verdict_now_last [simp]: "k_last (verdict_now e w d bits) = signal_after w d"
  by (simp add: verdict_now_def verdict_of_def)

lemma closed_as_simps [simp]:
  "w_id (closed_as now reason v w) = w_id w" "w_start (closed_as now reason v w) = w_start w" "w_first (closed_as now reason v w) = w_first w"
  "w_created (closed_as now reason v w) = w_created w" "k_last (closed_as now reason v w) = k_last v" "\<not> is_open (closed_as now reason v w)"
  "w_closed (closed_as now reason v w) = Some (now, reason)"
  by (simp_all add: closed_as_def with_verdict_def is_open_def)

lemma stage_windows:
  assumes "stage_step tk rfs e gate (row_named h) h h'" "plane_ok h"
  shows "windows_step h h'"
  using assms(1)
proof cases
  case quiet
  then show ?thesis by (intro windows_same) (simp add: same_tables_def)
next
  case (opened g d bits f l k)
  have none: "filter is_open (hi_windows h) = []" using no_row_no_open [OF assms(2)] opened(1) by simp
  from open_windows [of "tk_write tk" "tk_store_now tk" "f - 180" f k h] show ?thesis
    unfolding opened(10) using none
    by (elim disjE) (auto intro!: windows_same simp: windows_step_def is_open_def intro: evolves_refl)
next
  case (updated w d bits)
  from update_windows [of "tk_write tk" "tk_store_now tk" "w_id w" "verdict_now e w d bits" h] show ?thesis
    unfolding updated(6)
    by (elim disjE) (auto intro: windows_same update_step [OF assms(2) updated(1)] simp: signal_after_ge)
next
  case (cleaned w d bits)
  from close_windows [of "tk_write tk" "tk_store_now tk" "w_id w" "verdict_now e w d bits" INCIDENT_CLOSURE_CLEAN_BUCKETS h] show ?thesis
    unfolding cleaned(6)
    by (elim disjE) (auto intro: windows_same update_step [OF assms(2) cleaned(1)] simp: signal_after_ge)
next
  case (limited w)
  let ?v = "verdict_of (k_category w) (k_last w) (k_end w) (k_buckets w) (k_evidence w, k_unknown w)"
  from close_windows [of "tk_write tk" "tk_store_now tk" "w_id w" ?v INCIDENT_CLOSURE_WINDOW_LIMIT h] show ?thesis
    unfolding limited(3)
    by (elim disjE) (auto intro: windows_same update_step [OF assms(2) limited(1)] simp: verdict_of_def)
qed

lemma cycle_windows: "cycle_step tk h h' \<Longrightarrow> plane_ok h \<Longrightarrow> windows_step h h'"
proof (induction rule: cycle_step.cases)
  case (staged r e gate token h1 h')
  then show ?case using stage_windows mark_windows by (fastforce simp: windows_step_def)
qed (auto intro: windows_same simp: same_tables_def dest: mark_windows)

lemma restart_windows: "hi_windows (snd (start_scanner b p)) = hi_windows (snd p)"
proof -
  let ?P = "\<lambda>h. hi_windows h = hi_windows (snd p)"
  have k: "keeps_store ?P (restart_mark b)"
    by (rule restart_keeps)
      (auto simp: incident_activate_def incident_runtime_mark_def write_eq transact_def same_tables_def Let_def split: option.split commit.split)
  obtain r q where r: "restart_mark b p = (r, q)" by (cases "restart_mark b p")
  have "?P (snd q)" using runs_use [OF k [unfolded keeps_store_def] refl r] by (cases r) simp_all
  with r show ?thesis by (auto simp: start_scanner_def split: sum.split option.split prod.split)
qed

lemma operator_windows:
  "hi_windows (fst (incident_rearm c now h)) = hi_windows h" "hi_windows (fst (record_marker c retention now kind epoch h)) = hi_windows h"
  by (simp_all add: incident_rearm_def record_marker_def write_eq case_prod_unfold Let_def split: option.split)

text \<open>
  C26: a window's life. In one step of any history an existing window stays as it is, or it is the open one and is
  rewritten with its identity, analysis start, first signal and creation time unchanged and its last signal not
  moved back, or it is a closed one behind the horizon of a retention pass; a window that was closed is never
  written again. A window only appears, open, in a scan cycle that found none open.
\<close>

theorem window_lifecycle:
  "let p = foldl occur first_plane es; before = hi_windows (snd p); after = hi_windows (snd (occur p e))
   in (\<forall>w\<in>set before. (\<exists>w'\<in>set after. evolves w w') \<or> (\<exists>c horizon. e = Retain c horizon \<and> \<not> is_open w \<and> k_last w < horizon))
      \<and> (\<forall>w'\<in>set after. (\<exists>w\<in>set before. evolves w w') \<or> (\<exists>tk. e = Cycle tk) \<and> is_open w' \<and> filter is_open before = [])"
proof -
  let ?p = "foldl occur first_plane es"
  show ?thesis
  proof (cases e)
    case (Begin b)
    then show ?thesis using restart_windows [of b "(new_scanner, snd ?p)"] by (auto simp: occur_def Let_def intro: evolves_refl)
  next
    case (Cycle tk)
    have "windows_step (snd ?p) (snd (occur ?p e))"
      using cycle_windows [OF run_once_step history_plane_ok] windows_same by (auto simp: Cycle occur_def)
    then show ?thesis by (simp add: windows_step_def Cycle Let_def)
  next
    case (Retain c horizon)
    then show ?thesis by (cases c) (auto simp: occur_def expire_incidents_def transact_def Let_def intro: evolves_refl)
  qed (auto simp: occur_def operator_windows Let_def intro: evolves_refl)
qed

section \<open>What opens a window\<close>

lemma bundle_window [simp]:
  "\<exists>ev. bundle_of hl a b status secs = PDict ev
     \<and> pgetN ev ''window'' = PDict [(PStr ''start_epoch'', PFloat (Fin a)), (PStr ''end_epoch'', PFloat (Fin b))]"
  by (simp add: bundle_of_def pget_or_def)

lemma bucket_grid:
  fixes a :: rat
  assumes "3 \<le> x" "x \<le> y" "y + 1 \<le> n"
  shows "a + 180 \<le> a + x * 60 \<and> a + x * 60 < a + (y + 1) * 60 \<and> a + (y + 1) * 60 \<le> a + n * 60"
proof -
  have "(180::rat) \<le> x * 60" "x * 60 < (y + 1) * 60" "(y + 1) * 60 \<le> n * 60" using assms by simp_all
  then show ?thesis by simp
qed

lemma detect_signals:
  assumes "detect (bundle_of hl a b status secs) = Inr d" "de_first d = Some f" "de_last d = Some l"
  shows "a + 180 \<le> f \<and> f < l \<and> l \<le> a + of_nat (window_buckets a b) * 60"
proof -
  let ?e = "bundle_of hl a b status secs" and ?n = "window_buckets a b"
  obtain ev where ev: "?e = PDict ev" "pgetN ev ''window'' = PDict [(PStr ''start_epoch'', PFloat (Fin a)), (PStr ''end_epoch'', PFloat (Fin b))]"
    using bundle_window by blast
  have num: "num_of (dict_items (pgetN ev ''window'')) ''start_epoch'' = a" "num_of (dict_items (pgetN ev ''window'')) ''end_epoch'' = b"
    unfolding ev(2) by (simp_all add: num_of_def pget_or_def)
  have r: "refusals ?e = Inr []" using refused_quiet [OF assms(1)] assms(2) by auto
  obtain c idx where an: "analyse_with_meta (read_bundle ev) a ?n = Inr (c, idx)" and
    d: "d = (if idx = [] then \<lparr>de_classification = c, de_indices = [], de_first = None, de_last = None\<rparr>
             else \<lparr>de_classification = c, de_indices = idx, de_first = Some (a + of_nat (hd idx) * BUCKET_SECONDS),
                   de_last = Some (a + of_nat (last idx + 1) * BUCKET_SECONDS)\<rparr>)"
    using assms(1) r num by (auto simp: detect_def res_bind_eq_Inr Let_def ev(1))
  have ne: "idx \<noteq> []" using d assms(2) by auto
  obtain p st ca seen unknown where v: "window_verdict p (read_bundle ev) ?n = Inr (st, ca, seen, unknown, idx)"
    using an by (auto simp: analyse_with_meta_def res_bind_eq_Inr)
  have m: "hd idx \<in> set idx" "last idx \<in> set idx" using ne by simp_all
  with verdict_indices(4) [OF v] have lo: "3 \<le> hd idx" and hi: "last idx < ?n" by (auto simp: MIN_BASELINE_BUCKETS_def)
  have le: "hd idx \<le> last idx" using verdict_indices(3) [OF v] ne
    by (metis hd_Cons_tl last_ConsL last_ConsR last_in_set less_imp_le order_refl sorted_wrt.simps(2))
  have "(3::rat) \<le> of_nat (hd idx)" using lo by (metis of_nat_le_iff of_nat_numeral)
  moreover have "of_nat (hd idx) \<le> (of_nat (last idx) :: rat)" using le by (rule of_nat_mono)
  moreover have "of_nat (last idx) + 1 \<le> (of_nat ?n :: rat)" using hi by (metis of_nat_le_iff of_nat_Suc Suc_leI add.commute)
  moreover have "f = a + of_nat (hd idx) * 60" "l = a + (of_nat (last idx) + 1) * 60"
    using d ne assms(2,3) by (simp_all add: BUCKET_SECONDS_def algebra_simps)
  ultimately show ?thesis using bucket_grid [of "of_nat (hd idx)" "of_nat (last idx)" "of_nat ?n" a] by simp
qed

lemma five_buckets: "window_buckets (e - 300) e = 5"
  by (simp add: window_buckets_def BUCKET_SECONDS_def round_half_even_def)

lemma last_complete_le: "last_complete_end flr now = Some e \<Longrightarrow> e \<le> now - 15"
proof -
  assume a: "last_complete_end flr now = Some e"
  let ?q = "(now - 15 - flr) / 60"
  have "e = flr + 60 * of_int \<lfloor>?q\<rfloor>"
    using a by (simp add: last_complete_end_def Let_def BUCKET_SECONDS_def BUCKET_GRACE_SECONDS_def split: if_splits)
  moreover have "of_int \<lfloor>?q\<rfloor> \<le> ?q" by (rule of_int_floor_le)
  moreover have "60 * ?q = now - 15 - flr" by simp
  ultimately show ?thesis by linarith
qed

lemma new_window:
  assumes "plane_ok h" "hi_runtime h = Some r" "gate_read r gate" "stage_step tk rfs e gate (row_named h) h h1"
    and "w \<in> set (hi_windows h1)" "\<forall>x\<in>set (hi_windows h). \<not> evolves x w"
  shows "\<exists>g d. rt_rearm r = 0 \<and> rt_open r = None \<and> rt_discovery r = Some g \<and> rt_floor r \<le> g \<and> g \<le> w_start w
    \<and> w_start w = w_first w - 180 \<and> w_first w < k_last w \<and> k_last w \<le> k_end w \<and> k_end w = e \<and> k_buckets w = 5
    \<and> detect (bundle_seen tk rfs (e - 300) e) = Inr d \<and> cl_status (de_classification d) = STATUS_INCIDENT
    \<and> k_category w = cl_category (de_classification d)"
proof -
  have old: "w \<notin> set (hi_windows h)" using assms(6) by auto
  have none: "row_named h = None"
  proof (rule ccontr)
    assume "row_named h \<noteq> None"
    then obtain x where "row_named h = Some x" by blast
    from row_named_open(1,2) [OF assms(1) this] have "filter is_open (hi_windows h) \<noteq> []" by (auto simp: filter_empty_conv)
    with stage_windows [OF assms(4,1)] assms(5,6) show False by (auto simp: windows_step_def)
  qed
  from assms(4) show ?thesis
  proof cases
    case quiet
    then show ?thesis using assms(5) old by (simp add: same_tables_def)
  next
    case (opened g d bits f l k)
    have row: "w = \<lparr>k_category = k_category k, k_last = k_last k, k_end = k_end k, k_buckets = k_buckets k, k_evidence = k_evidence k,
       k_unknown = k_unknown k, w_id = next_id (map w_id (hi_windows h)), w_start = f - 180, w_first = f, w_closed = None,
       w_created = tk_store_now tk, w_updated = tk_store_now tk\<rparr>"
      using open_windows [of "tk_write tk" "tk_store_now tk" "f - 180" f k h] assms(5) old unfolding opened(10) by auto
    have cols: "w_start w = f - 180" "w_first w = f" "k_last w = l" "k_end w = e" "k_buckets w = 5" "k_category w = cl_category (de_classification d)"
      unfolding row opened(9) by (simp_all add: verdict_of_def)
    have armed: "rt_rearm r = 0" "rt_discovery r = Some g" using assms(3) opened(2) by (simp_all add: gate_read_def)
    have "runtime_check r" using assms(1,2) by (simp add: plane_ok_def constraints_ok_def)
    with armed have "rt_floor r \<le> g" by (simp add: runtime_check_def)
    moreover have "g \<le> e - 300" using opened(3) by (simp add: warming_def DISCOVERY_BUCKETS_def BUCKET_SECONDS_def)
    moreover have "e - 300 + 180 \<le> f \<and> f < l \<and> l \<le> e"
      using detect_signals [OF opened(4) [unfolded bundle_seen_def] opened(7,8)] by (simp add: five_buckets)
    moreover have "rt_open r = None" using no_row_no_open [OF assms(1) none] assms(2) by simp
    ultimately show ?thesis
      using armed opened(4,5) unfolding cols by (intro exI [of _ g] exI [of _ d]) auto
  qed (simp_all add: none)
qed


section \<open>The floor\<close>

text \<open>An activated scanner has a positive floor in the store, and no window starts before it.\<close>

definition floor_ok :: "history \<Rightarrow> bool" where
  "floor_ok h \<longleftrightarrow> hi_enabled h \<and> (\<exists>r. hi_runtime h = Some r \<and> (if 0 < rt_floor r then \<forall>w\<in>set (hi_windows h). rt_floor r \<le> w_start w else hi_windows h = []))"

definition grounded :: "plane \<Rightarrow> bool" where
  "grounded p \<longleftrightarrow> plane_ok (snd p) \<and> floor_ok (snd p) \<and> (sc_thread (fst p) \<longrightarrow> sc_enabled (fst p))
     \<and> (sc_enabled (fst p) \<longrightarrow> (\<exists>r. hi_runtime (snd p) = Some r \<and> 0 < rt_floor r))"

definition same_floor :: "history \<Rightarrow> history \<Rightarrow> bool" where
  "same_floor h h' \<longleftrightarrow> hi_enabled h' = hi_enabled h \<and> map_option rt_floor (hi_runtime h') = map_option rt_floor (hi_runtime h)"

lemma gate_after_floor [simp]: "rt_floor (gate_after reason t r) = rt_floor r"
  by (simp add: gate_after_def)

lemma ops_floor:
  "same_floor h (fst (incident_open_window c now a f v h))" "same_floor h (fst (incident_update_window c now i v h))"
  "same_floor h (fst (incident_close_window c now i v reason h))" "same_floor h (fst (incident_runtime_mark c t s h))"
  "same_floor h (fst (incident_rearm c now h))" "same_floor h (fst (record_marker c retention now kind epoch h))"
  "same_floor h (expire_incidents c now h)"
  by (auto simp: same_floor_def incident_open_window_def incident_update_window_def incident_close_window_def incident_runtime_mark_def
      incident_rearm_def record_marker_def expire_incidents_def transact_def write_eq case_prod_unfold Let_def option.map_comp comp_def
      split: option.split commit.split)

lemma same_tables_floor: "same_tables h' h \<Longrightarrow> same_floor h h'"
  by (simp add: same_tables_def same_floor_def)

lemma cycle_floor: "cycle_step tk h h' \<Longrightarrow> same_floor h h'"
proof -
  have mark: "same_floor h h' \<Longrightarrow> marked_or_not tk rfs h' k \<Longrightarrow> same_floor h k" for h' k rfs
    using ops_floor(4) [of h'] by (auto simp: marked_or_not_def same_floor_def)
  have stage: "stage_step tk rfs e gate row h k \<Longrightarrow> same_floor h k" for rfs e gate row k
    by (induction rule: stage_step.induct) (auto intro: ops_floor same_tables_floor)
  have refl: "same_floor h h" by (simp add: same_floor_def)
  show "cycle_step tk h h' \<Longrightarrow> same_floor h h'"
    by (induction rule: cycle_step.induct) (auto intro: mark stage refl same_tables_floor)
qed

lemma floor_ok_kept:
  assumes "floor_ok h" "same_floor h h'" "\<forall>w'\<in>set (hi_windows h'). \<exists>w\<in>set (hi_windows h). w_start w' = w_start w"
  shows "floor_ok h'"
  using assms unfolding floor_ok_def same_floor_def by (fastforce split: if_splits)

lemma activate_floor_ok:
  assumes "floor_ok h"
  shows "floor_ok (fst (incident_activate c t h))"
  using assms
  by (auto simp: floor_ok_def incident_activate_def transact_def Let_def split: option.splits commit.split)

text \<open>A restart that gets through has read the row it then marked.\<close>

lemma mark_row:
  "incident_runtime_mark c t s h = (h', True) \<Longrightarrow>
     \<exists>r. hi_runtime h = Some r \<and> hi_runtime h' = Some (r\<lparr>rt_evaluated := t, rt_fresh := s\<rparr>) \<and> hi_windows h' = hi_windows h"
proof -
  assume m: "incident_runtime_mark c t s h = (h', True)"
  then obtain r where r: "hi_runtime h = Some r" by (auto simp: incident_runtime_mark_def split: option.splits if_splits)
  let ?new = "h\<lparr>hi_runtime := Some (r\<lparr>rt_evaluated := t, rt_fresh := s\<rparr>)\<rparr>"
  from m r have "write_tables c ?new h = (h', True)" by (simp add: incident_runtime_mark_def split: if_splits)
  with write_eq(1,2,4) [of c ?new h] show ?thesis by (auto simp: r split: if_splits)
qed

lemma grounded_start:
  assumes "grounded p"
  shows "grounded (start_scanner b (new_scanner, snd p))"
proof -
  let ?s = "(new_scanner, snd p)"
  have ok: "plane_ok (snd p)" "floor_ok (snd p)" using assms by (simp_all add: grounded_def)
  have k: "keeps_store (\<lambda>h. plane_ok h \<and> floor_ok h) (restart_mark b)"
  proof (rule restart_keeps)
    fix h c t assume h: "plane_ok h \<and> floor_ok h"
    then show "plane_ok (fst (incident_activate c t h)) \<and> floor_ok (fst (incident_activate c t h))"
      by (simp add: activate_plane_ok activate_floor_ok)
    fix s
    have "hi_windows (fst (incident_runtime_mark c t s h)) = hi_windows h"
      by (simp add: incident_runtime_mark_def write_eq split: option.split)
    then have "floor_ok (fst (incident_runtime_mark c t s h))"
      by (intro floor_ok_kept [OF _ ops_floor(4) [of h c t s]]) (use h in auto)
    then show "plane_ok (fst (incident_runtime_mark c t s h)) \<and> floor_ok (fst (incident_runtime_mark c t s h))"
      using h by (simp add: mark_plane_ok)
  qed (simp add: plane_ok_same, auto simp: same_tables_def floor_ok_def)
  obtain r q where r: "restart_mark b ?s = (r, q)" by (cases "restart_mark b ?s")
  have kept: "plane_ok (snd q) \<and> floor_ok (snd q)" using runs_use [OF k [unfolded keeps_store_def] _ r] ok by (cases r) simp_all
  have "runs (\<lambda>p. fst p = new_scanner) (restart_mark b)
      (\<lambda>(row, _) p. fst p = new_scanner \<and> (\<exists>x. hi_runtime (snd p) = Some x \<and> rt_floor x = rt_floor row \<and> rt_open x = rt_open row)) (\<lambda>p. fst p = new_scanner)"
    by (auto simp: runs_def restart_mark_def chain_def ask_def demand_def read_snapshot_def need_def give_def abort_def reader_hb_def Let_def
        incident_runtime_snapshot_def split: prod.splits option.splits sum.splits dest!: mark_row)
  from runs_use [OF this _ r] have scan: "fst q = new_scanner"
    "\<And>row ok. r = Inr (row, ok) \<Longrightarrow> \<exists>x. hi_runtime (snd q) = Some x \<and> rt_floor x = rt_floor row"
    by (cases r; auto)+
  show ?thesis
  proof (cases r)
    case (Inl code)
    then show ?thesis using r kept scan(1) by (cases q) (simp add: start_scanner_def grounded_def new_scanner_def)
  next
    case (Inr x)
    obtain row d where x: "x = (row, d)" by (cases x)
    from scan(2) [OF Inr [unfolded x]] obtain y where y: "hi_runtime (snd q) = Some y" "rt_floor y = rt_floor row" by blast
    obtain h' where q: "q = (new_scanner, h')" using scan(1) by (cases q) simp
    have "activated b row new_scanner = Some s \<Longrightarrow> 0 < rt_floor row \<and> sc_enabled s" for s
      by (auto simp: activated_def Let_def split: option.splits if_splits)
    then show ?thesis using r kept y unfolding Inr x q
      by (auto simp: start_scanner_def grounded_def new_scanner_def split: option.split)
  qed
qed

text \<open>What a computation keeps of the scanner's own fields.\<close>

definition keeps_view :: "(scanner \<Rightarrow> 'v) \<Rightarrow> 'a job \<Rightarrow> bool" where
  "keeps_view F m \<longleftrightarrow> (\<forall>p. F (fst (snd (m p))) = F (fst p))"

lemma keeps_view_rules [job_rules]:
  "keeps_view F (give x)" "keeps_view F (abort code)" "keeps_view F (need code y)" "keeps_view F (demand code ok)" "keeps_view F (ask g)"
  by (simp_all add: keeps_view_def give_def abort_def need_def demand_def ask_def split: option.split prod.split)

lemma keeps_view_chain [job_rules]: "keeps_view F m \<Longrightarrow> (\<And>x. keeps_view F (k x)) \<Longrightarrow> keeps_view F (chain m k)"
  by (auto simp: keeps_view_def chain_def split: prod.split sum.split) (metis fst_conv snd_conv)+

lemma keeps_view_cache [job_rules]: "(\<And>s. F (g s) = F s) \<Longrightarrow> keeps_view F (cache g)"
  by (simp add: keeps_view_def cache_def)

lemma keeps_view_if [job_rules]: "keeps_view F m \<Longrightarrow> keeps_view F n \<Longrightarrow> keeps_view F (if b then m else n)"
  by simp

lemma keeps_view_option [job_rules]: "keeps_view F m \<Longrightarrow> (\<And>y. keeps_view F (n y)) \<Longrightarrow> keeps_view F (case x of None \<Rightarrow> m | Some y \<Rightarrow> n y)"
  by (simp split: option.split)

lemma keeps_view_sum [job_rules]: "(\<And>y. keeps_view F (m y)) \<Longrightarrow> (\<And>y. keeps_view F (n y)) \<Longrightarrow> keeps_view F (case x of Inl y \<Rightarrow> m y | Inr y \<Rightarrow> n y)"
  by (simp split: sum.split)

lemma keeps_view_pair [job_rules]: "(\<And>a b. keeps_view F (m a b)) \<Longrightarrow> keeps_view F (case x of (a, b) \<Rightarrow> m a b)"
  by (simp split: prod.split)

lemma cycle_view: "keeps_view (\<lambda>s. (sc_thread s, sc_enabled s)) (run_one_cycle tk)"
  unfolding run_one_cycle_def read_snapshot_def discovery_gate_def derive_rfs_def reader_hb_def stage_def open_cycle_def discovery_cycle_def
    detect_window_def encode_bits_need advance_last_signal_def settle_verdict_def close_clean_def close_window_limit_def mark_cycle_def Let_def
  by (intro job_rules) simp_all

lemma once_view: "sc_thread (fst (run_once tk p)) = sc_thread (fst p) \<and> sc_enabled (fst (run_once tk p)) = sc_enabled (fst p)"
proof -
  obtain r s h where c: "run_one_cycle tk p = (r, s, h)" by (metis prod.exhaust)
  have "(sc_thread s, sc_enabled s) = (sc_thread (fst p), sc_enabled (fst p))"
    using cycle_view [of tk, unfolded keeps_view_def, rule_format, of p] by (simp add: c)
  then show ?thesis by (cases r) (simp_all add: run_once_def c note_success_def note_failure_def)
qed

lemma grounded_cycle:
  assumes "grounded p"
  shows "grounded (run_once tk p)"
proof -
  let ?h = "snd p" and ?h' = "snd (run_once tk p)"
  have ok: "plane_ok ?h" "floor_ok ?h" using assms by (simp_all add: grounded_def)
  have step: "cycle_step tk ?h ?h'" by (rule run_once_step)
  obtain r where r: "hi_runtime ?h = Some r" "hi_enabled ?h" using ok(2) by (auto simp: floor_ok_def)
  obtain r' where r': "hi_runtime ?h' = Some r'" "rt_floor r' = rt_floor r" "hi_enabled ?h'"
    using cycle_floor [OF step] r by (auto simp: same_floor_def)
  have starts: "if 0 < rt_floor r then \<forall>w\<in>set (hi_windows ?h'). rt_floor r \<le> w_start w else hi_windows ?h' = []"
    using step
  proof cases
    case (staged r1 e gate token h1)
    then have "r1 = r" using r by simp
    have "rt_floor r \<le> w_start w" if w: "w \<in> set (hi_windows ?h')" for w
    proof (cases "\<forall>x\<in>set (hi_windows ?h). \<not> evolves x w")
      case True
      have "w \<in> set (hi_windows h1)" using w mark_windows [OF staged(7)] by simp
      from new_window [OF ok(1) staged(1,4,6) this True] show ?thesis using \<open>r1 = r\<close> by auto
    next
      case False
      then obtain x where "x \<in> set (hi_windows ?h)" "evolves x w" by blast
      then show ?thesis using ok(2) r staged(2) \<open>r1 = r\<close> by (auto simp: floor_ok_def evolves_def)
    qed
    then show ?thesis using staged(2) \<open>r1 = r\<close> by simp
  qed (use ok(2) r mark_windows in \<open>auto simp: same_tables_def floor_ok_def\<close>)
  have "sc_thread (fst (run_once tk p)) = sc_thread (fst p) \<and> sc_enabled (fst (run_once tk p)) = sc_enabled (fst p)"
    by (rule once_view)
  then show ?thesis using assms starts r r' cycle_plane_ok [OF step ok(1)] by (auto simp: grounded_def floor_ok_def)
qed

lemma grounded_occur:
  assumes "grounded p"
  shows "grounded (occur p e)"
proof -
  have keep: "grounded (s, h)" if "same_floor (snd p) h" "plane_ok h" "s = fst p \<or> s = (fst p)\<lparr>sc_stop := True\<rparr>"
    "set (hi_windows h) \<subseteq> set (hi_windows (snd p))" for s h
  proof -
    have "floor_ok h" by (rule floor_ok_kept [OF _ that(1)]) (use assms that(4) in \<open>auto simp: grounded_def\<close>)
    then show ?thesis using assms that by (auto simp: grounded_def same_floor_def)
  qed
  have ok: "plane_ok (snd p)" using assms by (simp add: grounded_def)
  show ?thesis
  proof (cases e)
    case (Retain c horizon)
    have "set (hi_windows (expire_incidents c horizon (snd p))) \<subseteq> set (hi_windows (snd p))"
      by (cases c) (auto simp: expire_incidents_def transact_def)
    then show ?thesis using keep [OF ops_floor(7) expire_plane_ok [OF ok]] by (simp add: occur_def Retain)
  next
    case Halt
    then show ?thesis using keep [OF same_tables_floor ok] by (simp add: occur_def)
  next
    case (Rearm c now)
    then show ?thesis using keep [OF ops_floor(5) rearm_plane_ok [OF ok]] by (simp add: occur_def operator_windows)
  next
    case (Note c retention now kind epoch)
    then show ?thesis using keep [OF ops_floor(6) marker_plane_ok [OF ok]] by (simp add: occur_def operator_windows)
  qed (use assms grounded_start grounded_cycle in \<open>auto simp: occur_def\<close>)
qed

interpretation grounded: machine occur grounded "\<lambda>p e. True"
  by unfold_locales (rule grounded_occur)

lemma history_grounded: "grounded (foldl occur first_plane es)"
proof (rule grounded.run_inv)
  show "grounded first_plane"
    using new_history_ok by (simp add: grounded_def first_plane_def floor_ok_def new_history_def inert_row_def new_scanner_def)
qed (simp add: run_ok_all)

section \<open>What closes a window\<close>

text \<open>A cycle on a readable store, up to its stage.\<close>

lemma cycle_start:
  assumes "hi_enabled h" "tk_readable tk" "hi_runtime h = Some r" "0 < rt_floor r" "rt_rearm r = 0" "rt_discovery r = Some g" "0 \<le> g"
    and "heartbeat_status (tk_beat_now tk) (tk_beat tk) = Inr token" "last_complete_end (rt_floor r) (tk_now tk) = Some e"
  shows "run_one_cycle tk (s, h) =
    chain (stage tk (row_named h) (Some g) e (rfs_after tk token (rt_fresh r))) (\<lambda>evaluated.
      chain (cache (\<lambda>s. s\<lparr>sc_gated := \<not> sc_rearm s \<and> warming (sc_discovery s) (Some e)\<rparr>)) (\<lambda>_.
        mark_cycle tk evaluated (rfs_after tk token (rt_fresh r)) r)) (s\<lparr>sc_rearm := False, sc_discovery := Some g\<rparr>, h)"
proof -
  have "read_snapshot (tk_readable tk) (s, h) = (Inr (r, row_named h), s, h)"
    by (simp add: read_snapshot_def chain_def ask_def need_def give_def incident_runtime_snapshot_def row_named_def assms(1-3))
  note snap = this
  have fl: "epoch_ok (rt_floor r) = Some (rt_floor r)" "\<not> rt_floor r \<le> 0" using assms(4) by simp_all
  have gate: "discovery_gate r (s, h) = (Inr (Some g), s\<lparr>sc_rearm := False, sc_discovery := Some g\<rparr>, h)"
    by (simp add: discovery_gate_def chain_def need_def give_def cache_def rearm_flag_def assms(5,6) epoch_ok_def) (use assms(7) in simp)
  have rfs: "derive_rfs tk (rt_fresh r) q = (Inr (rfs_after tk token (rt_fresh r)), q)" for q
    by (simp add: derive_rfs_def chain_def reader_hb_def give_def rfs_after_def assms(8))
  show ?thesis
    unfolding run_one_cycle_def chain_def [of "read_snapshot (tk_readable tk)"] snap prod.case sum.case fl(1) option.case if_not_P [OF fl(2)]
      chain_def [of "discovery_gate r"] gate chain_def [of "derive_rfs tk (rt_fresh r)"] rfs assms(9) ..
qed

text \<open>What a live scanner finds when a window is open.\<close>

lemma open_row_facts:
  assumes "grounded p" "live (fst p)" "w \<in> set (hi_windows (snd p))" "is_open w" "hi_runtime (snd p) = Some r"
  shows "hi_enabled (snd p)" "sc_enabled (fst p)" "0 < rt_floor r" "row_named (snd p) = Some w" "rt_rearm r = 0"
    "\<exists>g. rt_discovery r = Some g \<and> rt_floor r \<le> g" "runtime_check r" "window_check w" "incident_values w" "1 \<le> w_id w"
    "rt_floor r \<le> w_start w" "filter is_open (hi_windows (snd p)) = [w]"
proof -
  let ?h = "snd p"
  have ok: "plane_ok ?h" "floor_ok ?h" using assms(1) by (simp_all add: grounded_def)
  show en: "hi_enabled ?h" "sc_enabled (fst p)" and fl: "0 < rt_floor r"
    using assms(1,2,5) by (auto simp: grounded_def live_def floor_ok_def)
  then show "rt_floor r \<le> w_start w" using ok(2) assms(3,5) by (auto simp: floor_ok_def)
  have ids: "map w_id (filter is_open (hi_windows ?h)) = (case rt_open r of None \<Rightarrow> [] | Some i \<Rightarrow> [i])"
    using ok(1) assms(5) by (auto simp: plane_ok_def pointer_ok_def)
  have mem: "w \<in> set (filter is_open (hi_windows ?h))" using assms(3,4) by simp
  then have "filter is_open (hi_windows ?h) \<noteq> []" by (cases "filter is_open (hi_windows ?h)") simp_all
  with ids obtain i where i: "rt_open r = Some i" by (auto split: option.splits)
  with ids obtain x where "filter is_open (hi_windows ?h) = [x]" "w_id x = i" by auto
  with mem show one: "filter is_open (hi_windows ?h) = [w]" by simp
  then have wi: "rt_open r = Some (w_id w)" using ids i by simp
  show rn: "row_named ?h = Some w"
  proof (cases "row_named ?h")
    case None
    from no_row_no_open [OF ok(1) this] show ?thesis using one by simp
  next
    case (Some x)
    from row_named_open(1,2) [OF ok(1) Some] have "x \<in> set (filter is_open (hi_windows ?h))" by simp
    then show ?thesis unfolding one Some by simp
  qed
  show rc: "runtime_check r" and wc: "window_check w" and iv: "incident_values w" and "1 \<le> w_id w"
    using ok(1) assms(3,5) by (auto simp: plane_ok_def constraints_ok_def list_all_iff) (metis image_eqI not_gr_zero Suc_leI)
  then show "rt_rearm r = 0" "\<exists>g. rt_discovery r = Some g \<and> rt_floor r \<le> g"
    using wi fl by (auto simp: runtime_check_def split: option.splits)
qed

lemma fewer_open: "length (filter (\<lambda>w. is_open w \<and> w_id w \<noteq> i) ws) \<le> length (filter is_open ws)"
  by (induction ws) auto

lemma constraints_after_close:
  assumes "constraints_ok h" "hi_windows h' = update_open i f (hi_windows h)" "\<And>x. \<not> is_open (f x)" "hi_runtime h' = Some r" "runtime_check r"
    and "\<And>x. x \<in> set (hi_windows h) \<Longrightarrow> w_id x = i \<Longrightarrow> is_open x \<Longrightarrow> window_check (f x)"
  shows "constraints_ok h'"
proof -
  have "length (filter (\<lambda>w. is_open w \<and> w_id w \<noteq> i) (hi_windows h)) \<le> length (filter is_open (hi_windows h))"
    by (rule fewer_open)
  moreover have "list_all window_check (hi_windows h')"
    using assms(1,6) by (auto simp: assms(2) constraints_ok_def list_all_iff update_open_def)
  ultimately show ?thesis using assms(1) by (simp add: constraints_ok_def assms(2,4,5) close_filter [OF assms(3)])
qed

lemma close_lands:
  assumes "plane_ok h" "hi_enabled h" "hi_runtime h = Some r" "w \<in> set (hi_windows h)" "is_open w" "reason \<in> set INCIDENT_CLOSURE_REASONS"
    and "incident_values v" "k_last w \<le> k_last v" "k_last v \<le> now" "w_created w \<le> now" "rt_floor r \<le> k_last v"
  shows "incident_close_window Landed now (w_id w) v reason h =
    (plane_accept (h\<lparr>hi_windows := update_open (w_id w) (closed_as now reason v) (hi_windows h),
                     hi_runtime := Some (gate_after reason (k_last v) r)\<rparr>), True)"
proof -
  let ?new = "h\<lparr>hi_windows := update_open (w_id w) (closed_as now reason v) (hi_windows h), hi_runtime := Some (gate_after reason (k_last v) r)\<rparr>"
  have rc: "runtime_check r" and wc: "window_check w" and w1: "\<not> w_id w < 1" and iv: "incident_values w"
    using assms(1,3,4) by (auto simp: plane_ok_def constraints_ok_def list_all_iff)
  have unique: "x = w" if "x \<in> set (hi_windows h)" "w_id x = w_id w" for x
    using assms(1,4) that by (auto simp: plane_ok_def dest: distinct_map [THEN iffD1] inj_onD)
  have "constraints_ok ?new"
  proof (rule constraints_after_close)
    show "constraints_ok h" using assms(1) by (simp add: plane_ok_def)
    show "runtime_check (gate_after reason (k_last v) r)"
      using rc assms(11) by (auto simp: runtime_check_def gate_after_def split: option.splits)
    have "window_check (closed_as now reason v w)"
      using wc assms(6-10) unfolding window_check_def incident_values_def closed_as_def with_verdict_def INCIDENT_BUDGET_MAX_def
      by (simp add: encode_incident_bits_def split: if_splits)
    then show "window_check (closed_as now reason v x)" if "x \<in> set (hi_windows h)" "w_id x = w_id w" for x
      using unique [OF that] by simp
  qed simp_all
  moreover have "0 \<le> now" using assms(7,9) by (auto simp: incident_values_def incident_epoch_def split: if_splits)
  moreover have "open_with_id (w_id w) (hi_windows h)" using assms(4,5) by (auto simp: open_with_id_def list_ex_iff)
  ultimately show ?thesis
    using assms(2,3,6,7,9) w1
    by (simp add: incident_close_window_def write_landed closed_as_def [abs_def] incident_epoch_def)
qed

lemma mark_lands:
  assumes "hi_enabled h" "constraints_ok h" "hi_runtime h = Some r" "0 \<le> evaluated" "\<And>t. since = Some t \<Longrightarrow> 0 \<le> t"
  shows "incident_runtime_mark Landed evaluated since h =
    (plane_accept (h\<lparr>hi_runtime := Some (r\<lparr>rt_evaluated := evaluated, rt_fresh := since\<rparr>)\<rparr>), True)"
proof -
  have "constraints_ok (h\<lparr>hi_runtime := Some (r\<lparr>rt_evaluated := evaluated, rt_fresh := since\<rparr>)\<rparr>)"
    using assms(2-5) by (auto simp: constraints_ok_def runtime_check_def split: option.split)
  then show ?thesis using assms by (cases since) (simp_all add: incident_runtime_mark_def write_landed incident_epoch_def)
qed

lemma rfs_after_nonneg: "0 \<le> tk_stamp tk \<Longrightarrow> rfs_after tk token persisted = Some t \<Longrightarrow> 0 \<le> t"
  by (auto simp: rfs_after_def bind_eq_Some_conv split: if_splits option.splits)

text \<open>The end of a cycle whose stage closed the window.\<close>

lemma mark_after:
  assumes "hi_enabled h" "constraints_ok h" "hi_runtime h = Some r'" "tk_mark tk = Landed" "0 \<le> tk_stamp tk" "0 \<le> rt_evaluated r"
    and "\<And>e. evaluated = Some e \<Longrightarrow> 0 \<le> e"
  shows "mark_cycle tk evaluated (rfs_after tk token (rt_fresh r)) r (s, h) =
    (Inr (), case evaluated of None \<Rightarrow> s | Some e \<Rightarrow> s\<lparr>sc_evaluated := Some e\<rparr>,
     plane_accept (h\<lparr>hi_runtime := Some (r'\<lparr>rt_evaluated := (case evaluated of None \<Rightarrow> rt_evaluated r | Some e \<Rightarrow> e),
       rt_fresh := rfs_after tk token (rt_fresh r)\<rparr>)\<rparr>))"
proof -
  have ev: "epoch_ok (rt_evaluated r) = Some (rt_evaluated r)" using assms(6) by simp
  have "0 \<le> (case evaluated of None \<Rightarrow> rt_evaluated r | Some e \<Rightarrow> e)" using assms(6,7) by (simp split: option.split)
  from mark_lands [OF assms(1-3) this rfs_after_nonneg [OF assms(5)]] show ?thesis
    unfolding mark_cycle_def ev by (simp add: chain_def need_def give_def ask_def demand_def cache_def assms(4) split: option.split)
qed

lemma limit_stage:
  assumes "incident_close_window (tk_write tk) (tk_store_now tk) (w_id w)
      (verdict_of (k_category w) (k_last w) (k_end w) (k_buckets w) (k_evidence w, k_unknown w)) INCIDENT_CLOSURE_WINDOW_LIMIT h = (h', True)"
    and "60 < grown_buckets e w" "0 \<le> w_start w" "0 \<le> k_last w" "0 \<le> k_end w"
  shows "stage tk (Some w) gate e rfs (s, h) = (Inr None, s\<lparr>sc_open := None, sc_rearm := True, sc_discovery := None\<rparr>, h')"
proof -
  have ep: "epoch_ok (w_start w) = Some (w_start w)" "epoch_ok (k_last w) = Some (k_last w)" "epoch_ok (k_end w) = Some (k_end w)"
    using assms(3-5) by simp_all
  have "MAX_ANALYSIS_BUCKETS < round_half_even ((e - w_start w) / BUCKET_SECONDS)" "\<not> round_half_even ((e - w_start w) / BUCKET_SECONDS) < 1"
    using assms(2) by (simp_all add: grown_buckets_def MAX_ANALYSIS_BUCKETS_def MAX_BUCKETS_def)
  then show ?thesis
    unfolding stage_def open_cycle_def close_window_limit_def option.case ep
    by (simp add: chain_def need_def give_def ask_def demand_def cache_def Let_def assms(1))
qed

definition healthy_tick :: "tick \<Rightarrow> window \<Rightarrow> bool" where
  "healthy_tick tk w \<longleftrightarrow> tk_readable tk \<and> (\<exists>token. heartbeat_status (tk_beat_now tk) (tk_beat tk) = Inr token) \<and> 0 \<le> tk_stamp tk
     \<and> tk_write tk = Landed \<and> tk_mark tk = Landed \<and> w_created w \<le> tk_store_now tk"

lemma own_verdict: "incident_values (verdict_of (k_category w) (k_last w) (k_end w) (k_buckets w) (k_evidence w, k_unknown w)) = incident_values w"
  by (simp add: incident_values_def verdict_of_def)

lemma closed_with_own: "closed_as now reason (verdict_of (k_category w) (k_last w) (k_end w) (k_buckets w) (k_evidence w, k_unknown w)) w
    = w\<lparr>w_updated := now, w_closed := Some (now, reason)\<rparr>"
  by (simp add: closed_as_def with_verdict_def verdict_of_def)

text \<open>After the only open row is closed, its closed form is in the table and nothing is open.\<close>

lemma after_close:
  assumes "filter is_open ws = [w]" "\<And>x. \<not> is_open (f x)"
  shows "f w \<in> set (update_open (w_id w) f ws)" "filter is_open (update_open (w_id w) f ws) = []"
proof -
  have "w \<in> set (filter is_open ws)" unfolding assms(1) by simp
  then have w: "w \<in> set ws" "is_open w" by simp_all
  then show "f w \<in> set (update_open (w_id w) f ws)" by (auto simp: update_open_def image_iff intro!: bexI [of _ w])
  have "x = w" if "x \<in> set ws" "is_open x" for x
  proof -
    have "x \<in> set (filter is_open ws)" using that by simp
    then show ?thesis unfolding assms(1) by simp
  qed
  then show "filter is_open (update_open (w_id w) f ws) = []"
    unfolding close_filter [of f, OF assms(2)] by (auto simp: filter_empty_conv)
qed

text \<open>
  An incident that outlives its analysis limit is closed. When a live scanner's cycle works (the store reads
  and commits, the heartbeat parses, the clock is not behind the row), and the grid has grown more than sixty
  buckets past the start of the open window, that cycle closes the window with the columns of its last verdict and
  the reason \<open>window_limit\<close>; afterwards no window is open, automatic discovery is off until the operator re-arms
  it, and the scanner reports the re-arm phase.
\<close>

theorem overlong_window_is_closed:
  assumes "p = foldl occur first_plane es" "live (fst p)" "w \<in> set (hi_windows (snd p))" "is_open w" "hi_runtime (snd p) = Some r"
    and "healthy_tick tk w" "k_last w \<le> tk_store_now tk"
    and "last_complete_end (rt_floor r) (tk_now tk) = Some e" "60 < grown_buckets e w"
  shows "let (s, h) = occur p (Cycle tk)
    in w\<lparr>w_updated := tk_store_now tk, w_closed := Some (tk_store_now tk, INCIDENT_CLOSURE_WINDOW_LIMIT)\<rparr> \<in> set (hi_windows h)
      \<and> filter is_open (hi_windows h) = [] \<and> (\<exists>r'. hi_runtime h = Some r' \<and> rt_open r' = None \<and> rt_discovery r' = None \<and> rt_rearm r' = 1)
      \<and> phase s = PhaseRearm"
proof -
  obtain s h where p: "p = (s, h)" by (cases p)
  have gr: "grounded p" using history_grounded assms(1) by simp
  note f = open_row_facts [OF gr assms(2-5), unfolded p snd_conv fst_conv]
  obtain g where g: "rt_discovery r = Some g" "rt_floor r \<le> g" using f(6) by blast
  obtain token where tok: "heartbeat_status (tk_beat_now tk) (tk_beat tk) = Inr token" using assms(6) by (auto simp: healthy_tick_def)
  have tk: "tk_readable tk" "0 \<le> tk_stamp tk" "tk_write tk = Landed" "tk_mark tk = Landed" "w_created w \<le> tk_store_now tk"
    using assms(6) by (simp_all add: healthy_tick_def)
  let ?v = "verdict_of (k_category w) (k_last w) (k_end w) (k_buckets w) (k_evidence w, k_unknown w)"
  let ?h = "h\<lparr>hi_windows := update_open (w_id w) (closed_as (tk_store_now tk) INCIDENT_CLOSURE_WINDOW_LIMIT ?v) (hi_windows h),
    hi_runtime := Some (gate_after INCIDENT_CLOSURE_WINDOW_LIMIT (k_last w) r)\<rparr>"
  have ok: "plane_ok h" using gr p by (simp add: grounded_def)
  have wc: "0 \<le> w_start w" "w_start w \<le> w_first w" "w_first w \<le> k_last w" "w_first w \<le> k_end w" using f(8) by (simp_all add: window_check_def)
  have cl: "incident_close_window (tk_write tk) (tk_store_now tk) (w_id w) ?v INCIDENT_CLOSURE_WINDOW_LIMIT h = (plane_accept ?h, True)"
    using close_lands [OF ok f(1) _ _ assms(4), of r INCIDENT_CLOSURE_WINDOW_LIMIT ?v "tk_store_now tk"] assms(3,5,7) f(9,11) wc tk(3,5)
    by (simp add: p own_verdict INCIDENT_CLOSURE_REASONS_def) (simp add: verdict_of_def)
  have st: "stage tk (row_named h) (Some g) e rfs (s', h) =
      (Inr None, s'\<lparr>sc_open := None, sc_rearm := True, sc_discovery := None\<rparr>, plane_accept ?h)" for rfs s'
    unfolding f(4) using wc by (intro limit_stage [OF cl assms(9)]) simp_all
  have "plane_ok (plane_accept ?h)" using close_plane_ok [OF ok] cl by (metis fst_conv)
  then have cs: "constraints_ok (plane_accept ?h)" by (simp add: plane_ok_def)
  have ev: "0 \<le> rt_evaluated r" using f(7) by (simp add: runtime_check_def)
  have mk: "mark_cycle tk None (rfs_after tk token (rt_fresh r)) r (s', plane_accept ?h) = (Inr (), s', plane_accept (plane_accept ?h
      \<lparr>hi_runtime := Some (gate_after INCIDENT_CLOSURE_WINDOW_LIMIT (k_last w) r\<lparr>rt_evaluated := rt_evaluated r, rt_fresh := rfs_after tk token (rt_fresh r)\<rparr>)\<rparr>))" for s'
    using mark_after [OF _ cs _ tk(4,2) ev, where evaluated = None and r' = "gate_after INCIDENT_CLOSURE_WINDOW_LIMIT (k_last w) r"] f(1)
    by (simp add: plane_accept_def)
  have "run_one_cycle tk (s, h) = (Inr (), s\<lparr>sc_rearm := True, sc_discovery := None, sc_open := None, sc_gated := False\<rparr>,
      plane_accept (plane_accept ?h\<lparr>hi_runtime := Some (gate_after INCIDENT_CLOSURE_WINDOW_LIMIT (k_last w) r
        \<lparr>rt_evaluated := rt_evaluated r, rt_fresh := rfs_after tk token (rt_fresh r)\<rparr>)\<rparr>))"
    using f(3) g assms(5) unfolding p
    by (subst cycle_start [OF f(1) tk(1) _ f(3,5) g(1) _ tok assms(8)]) (simp_all add: chain_def cache_def st mk)
  then have "occur p (Cycle tk) = (note_success (s\<lparr>sc_rearm := True, sc_discovery := None, sc_open := None, sc_gated := False\<rparr>),
      plane_accept (plane_accept ?h\<lparr>hi_runtime := Some (gate_after INCIDENT_CLOSURE_WINDOW_LIMIT (k_last w) r
        \<lparr>rt_evaluated := rt_evaluated r, rt_fresh := rfs_after tk token (rt_fresh r)\<rparr>)\<rparr>))"
    using assms(2) f(2) by (simp add: occur_def p run_once_def)
  then show ?thesis
    using after_close [OF f(12), of "closed_as (tk_store_now tk) INCIDENT_CLOSURE_WINDOW_LIMIT ?v"] f(2)
    by (simp add: closed_with_own plane_accept_def gate_after_def phase_def note_success_def
        INCIDENT_CLOSURE_CLEAN_BUCKETS_def INCIDENT_CLOSURE_WINDOW_LIMIT_def)
qed

text \<open>A cycle that reads its frozen window and gets the verdict \<open>d\<close> on it.\<close>

definition frozen_verdict :: "tick \<Rightarrow> runtime_row \<Rightarrow> window \<Rightarrow> rat \<Rightarrow> detection \<Rightarrow> bool" where
  "frozen_verdict tk r w e d \<longleftrightarrow> tk_readable tk \<and> last_complete_end (rt_floor r) (tk_now tk) = Some e
     \<and> 1 \<le> grown_buckets e w \<and> grown_buckets e w \<le> 60 \<and> w_start w < e \<and> tk_bundle_readable tk
     \<and> list_all (\<lambda>(name, rows). length rows \<le> CLASSIFIER_BUNDLE_ROW_BUDGET) (bundle_sections (tk_evidence tk) (w_start w) e)
     \<and> (\<exists>token. heartbeat_status (tk_beat_now tk) (tk_beat tk) = Inr token
          \<and> detect (bundle_seen tk (rfs_after tk token (rt_fresh r)) (w_start w) e) = Inr d)"

lemma not_incident_quiet:
  assumes "detect ev = Inr d" "cl_status (de_classification d) \<noteq> STATUS_INCIDENT"
  shows "de_indices d = []"
proof (cases "refusals ev = Inr []")
  case True
  from detect_analysed [OF assms(1) this] verdict_indices(1) assms(2) show ?thesis by metis
next
  case False
  from refused_quiet [OF assms(1) this] show ?thesis by simp
qed

lemma detect_lands:
  assumes "hi_enabled h" "tk_bundle_readable tk" "0 \<le> a" "a < b"
    and "list_all (\<lambda>(name, rows). length rows \<le> CLASSIFIER_BUNDLE_ROW_BUDGET) (bundle_sections (tk_evidence tk) a b)"
    and "detect (bundle_seen tk rfs a b) = Inr d"
  shows "detect_window tk a b rfs (s, h) = (Inr d, s, h)"
proof -
  have "\<not> list_ex (\<lambda>(name, rows). CLASSIFIER_BUNDLE_ROW_BUDGET < length rows) (bundle_sections (tk_evidence tk) a b)"
    using assms(5) by (auto simp: list_all_iff list_ex_iff)
  moreover have "projection rfs a \<in> set CLASSIFIER_READER_STATUSES"
    by (simp add: projection_def CLASSIFIER_READER_STATUSES_def split: option.split)
  ultimately have "classifier_bundle (tk_bundle_readable tk) (tk_evidence tk) (tk_health tk) a b (projection rfs a) h = (h, Some (bundle_seen tk rfs a b))"
    using assms(1-4) by (simp add: classifier_bundle_def incident_epoch_def bundle_seen_def)
  then show ?thesis using assms(6) by (simp add: detect_window_def chain_def ask_def need_def give_def)
qed

text \<open>The bits of a verdict always encode.\<close>

lemma bits_available:
  assumes "detect ev = Inr d"
  obtains v u where "bits_of (de_classification d) = Some (v, u)"
    "encode_incident_bits v INCIDENT_EVIDENCE_BITS_MAX \<noteq> None" "encode_incident_bits u INCIDENT_UNKNOWN_BITS_MAX \<noteq> None"
proof -
  have "closed_result (de_classification d)" using detect_closed [OF assms] by simp
  from closed_bits [OF this] show thesis
    by (auto simp: bits_of_def encode_incident_bits_def INCIDENT_EVIDENCE_BITS_MAX_def INCIDENT_UNKNOWN_BITS_MAX_def intro!: that)
qed

lemma signal_advances:
  assumes "0 \<le> k_last w" "de_indices d = [] \<or> (\<exists>l. de_last d = Some l \<and> 0 \<le> l)"
  shows "advance_last_signal w d q = (Inr (signal_after w d), q)"
proof -
  have "epoch_ok (k_last w) = Some (k_last w)" using assms(1) by simp
  then show ?thesis using assms(2) unfolding advance_last_signal_def
    by (auto simp: chain_def need_def give_def signal_after_def epoch_ok_def)
qed

lemma need_Some: "need code (Some x) = give x"
  by (simp add: need_def)

lemma chain_at: "m q = (Inr x, q') \<Longrightarrow> chain m f q = f x q'"
  by (simp add: chain_def)

text \<open>The open stage up to the closing of a window with a clean tail.\<close>

lemma clean_stage:
  assumes "hi_enabled h" "tk_bundle_readable tk" "0 \<le> w_start w" "w_start w < e" "0 \<le> k_last w"
    and "list_all (\<lambda>(name, rows). length rows \<le> CLASSIFIER_BUNDLE_ROW_BUDGET) (bundle_sections (tk_evidence tk) (w_start w) e)"
    and "detect (bundle_seen tk rfs (w_start w) e) = Inr d" "1 \<le> grown_buckets e w" "grown_buckets e w \<le> 60"
    and "clean_tail (grown_buckets e w) d" "de_indices d = [] \<or> (\<exists>l. de_last d = Some l \<and> 0 \<le> l)" "bits_of (de_classification d) = Some bits"
  shows "stage tk (Some w) gate e rfs (s, h) =
    chain (close_clean tk w (verdict_now e w d bits)) (\<lambda>_. give (Some e)) (s, h)"
proof -
  have ep: "epoch_ok (w_start w) = Some (w_start w)" using assms(3) by simp
  have n: "\<not> MAX_ANALYSIS_BUCKETS < grown_buckets e w" "\<not> grown_buckets e w < 1"
    using assms(8,9) by (simp_all add: MAX_ANALYSIS_BUCKETS_def MAX_BUCKETS_def)
  have k: "k_buckets (verdict_now e w d bits) = grown_buckets e w" by (simp add: verdict_now_def verdict_of_def)
  have settle: "settle_verdict tk w d (verdict_now e w d bits) = close_clean tk w (verdict_now e w d bits)"
    using assms(10) unfolding settle_verdict_def k clean_tail_def by simp
  have det: "detect_window tk (w_start w) e rfs (s, h) = (Inr d, (s, h))" by (rule detect_lands [OF assms(1-4,6,7)])
  have adv: "advance_last_signal w d (s, h) = (Inr (signal_after w d), (s, h))" by (rule signal_advances [OF assms(5,11)])
  have need_bits: "encode_bits (de_classification d) = give bits" unfolding encode_bits_need assms(12) need_Some ..
  show ?thesis
    unfolding stage_def open_cycle_def option.case ep Let_def need_Some chain_give grown_buckets_def [symmetric]
    unfolding if_not_P [OF n(1)] if_not_P [OF n(2)] chain_at [where m = "detect_window tk (w_start w) e rfs", OF det]
      need_bits chain_give chain_at [where m = "advance_last_signal w d", OF adv] verdict_now_def [symmetric] settle ..
qed

text \<open>The cycle behind such a verdict, up to its closing write.\<close>

lemma clean_cycle:
  assumes "grounded (s, h)" "live s" "w \<in> set (hi_windows h)" "is_open w" "hi_runtime h = Some r" "frozen_verdict tk r w e d"
    and "clean_tail (grown_buckets e w) d" "de_indices d = [] \<or> (\<exists>l. de_last d = Some l \<and> 0 \<le> l)" "bits_of (de_classification d) = Some bits"
  obtains g token where "rt_discovery r = Some g" "run_one_cycle tk (s, h) =
    chain (chain (close_clean tk w (verdict_now e w d bits)) (\<lambda>_. give (Some e))) (\<lambda>evaluated.
      chain (cache (\<lambda>s. s\<lparr>sc_gated := \<not> sc_rearm s \<and> warming (sc_discovery s) (Some e)\<rparr>)) (\<lambda>_.
        mark_cycle tk evaluated (rfs_after tk token (rt_fresh r)) r)) (s\<lparr>sc_rearm := False, sc_discovery := Some g\<rparr>, h)"
proof -
  note f = open_row_facts [OF assms(1) _ _ assms(4), unfolded fst_conv snd_conv, OF assms(2,3,5)]
  obtain g where g: "rt_discovery r = Some g" "0 \<le> g" using f(3,6) by auto
  obtain token where tok: "heartbeat_status (tk_beat_now tk) (tk_beat tk) = Inr token"
    "detect (bundle_seen tk (rfs_after tk token (rt_fresh r)) (w_start w) e) = Inr d"
    using assms(6) unfolding frozen_verdict_def by blast
  have v: "tk_readable tk" "last_complete_end (rt_floor r) (tk_now tk) = Some e" "1 \<le> grown_buckets e w" "grown_buckets e w \<le> 60"
    "w_start w < e" "tk_bundle_readable tk"
    "list_all (\<lambda>(name, rows). length rows \<le> CLASSIFIER_BUNDLE_ROW_BUDGET) (bundle_sections (tk_evidence tk) (w_start w) e)"
    using assms(6) unfolding frozen_verdict_def by blast+
  have wc: "0 \<le> w_start w" "0 \<le> k_last w" using f(8) by (simp_all add: window_check_def)
  show thesis
  proof (rule that [OF g(1)])
    let ?rfs = "rfs_after tk token (rt_fresh r)"
    have "stage tk (row_named h) (Some g) e ?rfs (s', h) = chain (close_clean tk w (verdict_now e w d bits)) (\<lambda>_. give (Some e)) (s', h)" for s'
      unfolding f(4) by (rule clean_stage [OF f(1) v(6) wc(1) v(5) wc(2) v(7) tok(2) v(3,4) assms(7-9)])
    then show "run_one_cycle tk (s, h) = chain (chain (close_clean tk w (verdict_now e w d bits)) (\<lambda>_. give (Some e))) (\<lambda>evaluated.
        chain (cache (\<lambda>s. s\<lparr>sc_gated := \<not> sc_rearm s \<and> warming (sc_discovery s) (Some e)\<rparr>)) (\<lambda>_.
          mark_cycle tk evaluated ?rfs r)) (s\<lparr>sc_rearm := False, sc_discovery := Some g\<rparr>, h)"
      unfolding cycle_start [OF f(1) v(1) assms(5) f(3,5) g tok(1) v(2)] by (simp add: chain_def)
  qed
qed

text \<open>
  C10: A window whose evidence turns out to be no incident cannot be closed. The frozen window of an open incident
  starts later than the five buckets that opened it, so its baseline is another one and the classifier may now
  answer \<open>no_incident\<close>. The scanner then finds a clean tail and tries to close the window with that verdict,
  whose category the store does not accept: in every such cycle, however well reads and commits work, the tables
  stay as they are, the cycle fails with \<open>persist_failed\<close> and the phase is degraded.
\<close>

theorem calm_window_cannot_close:
  assumes "p = foldl occur first_plane es" "live (fst p)" "w \<in> set (hi_windows (snd p))" "is_open w" "hi_runtime (snd p) = Some r"
    and "frozen_verdict tk r w e d" "cl_status (de_classification d) = STATUS_NO_INCIDENT"
  shows "let (s, h) = occur p (Cycle tk)
    in clean_tail (grown_buckets e w) d \<and> hi_windows h = hi_windows (snd p) \<and> hi_runtime h = hi_runtime (snd p)
      \<and> sc_error s = Some ERROR_PERSIST_FAILED \<and> phase s = PhaseDegraded"
proof -
  obtain s h where p: "p = (s, h)" by (cases p)
  have gr: "grounded (s, h)" using history_grounded [of es] assms(1) by (simp add: p)
  obtain ev where det: "detect ev = Inr d" using assms(6) unfolding frozen_verdict_def by blast
  have none: "de_indices d = []" using not_incident_quiet [OF det] assms(7) by (simp add: status_defs)
  then have tail: "clean_tail (grown_buckets e w) d" by (simp add: clean_tail_def)
  obtain v u where bits: "bits_of (de_classification d) = Some (v, u)" using bits_available [OF det] .
  have here: "live s" "w \<in> set (hi_windows h)" "hi_runtime h = Some r" using assms(2,3,5) by (simp_all add: p)
  from clean_cycle [OF gr here(1,2) assms(4) here(3) assms(6) tail disjI1 [OF none] bits]
  obtain g token where c: "rt_discovery r = Some g" "run_one_cycle tk (s, h) =
    chain (chain (close_clean tk w (verdict_now e w d (v, u))) (\<lambda>_. give (Some e))) (\<lambda>evaluated.
      chain (cache (\<lambda>s. s\<lparr>sc_gated := \<not> sc_rearm s \<and> warming (sc_discovery s) (Some e)\<rparr>)) (\<lambda>_.
        mark_cycle tk evaluated (rfs_after tk token (rt_fresh r)) r)) (s\<lparr>sc_rearm := False, sc_discovery := Some g\<rparr>, h)" .
  have "cl_category (de_classification d) = CATEGORY_NONE"
    using detect_closed [OF det] assms(7) by (auto simp: closed_result_def pairing_valid_def status_defs)
  then have bad: "\<not> incident_values (verdict_now e w d (v, u))"
    by (simp add: incident_values_def verdict_now_def verdict_of_def INCIDENT_WINDOW_CATEGORIES_def CATEGORY_NONE_def)
  have en: "hi_enabled h" "sc_enabled s" using open_row_facts(1,2) [OF gr _ _ assms(4)] here by simp_all
  have "close_clean tk w (verdict_now e w d (v, u)) q = (Inl ERROR_PERSIST_FAILED, fst q, plane_refusal (snd q))" if "snd q = h" for q
    using bad en(1) that by (simp add: close_clean_def chain_def ask_def demand_def abort_def incident_close_window_def)
  then have "run_one_cycle tk (s, h) = (Inl ERROR_PERSIST_FAILED, s\<lparr>sc_rearm := False, sc_discovery := Some g\<rparr>, plane_refusal h)"
    by (simp add: c(2) chain_def)
  then show ?thesis using en(2) here(1) tail
    by (simp add: p occur_def run_once_def note_failure_def phase_def)
qed

lemma anomalies_located:
  assumes "detect (bundle_of hl a b status secs) = Inr d" "0 \<le> a"
  shows "de_indices d = [] \<or> (\<exists>l. de_last d = Some l \<and> 0 \<le> l)"
proof (cases "de_indices d = []")
  case False
  let ?ev = "bundle_of hl a b status secs"
  have "refusals ?ev = Inr []" using refused_quiet [OF assms(1)] False by blast
  from detect_analysed [OF assms(1) this] False obtain f l where fl: "de_first d = Some f" "de_last d = Some l" by metis
  from detect_signals [OF assms(1) this] assms(2) fl(2) show ?thesis by auto
qed simp

lemma storable_category:
  assumes "detect ev = Inr d" "cl_status (de_classification d) \<noteq> STATUS_NO_INCIDENT"
  shows "cl_category (de_classification d) \<in> set INCIDENT_WINDOW_CATEGORIES"
proof -
  have "pairing_valid (cl_status (de_classification d)) (cl_category (de_classification d))"
    using detect_closed [OF assms(1)] by (simp add: closed_result_def)
  then have "cl_category (de_classification d) \<in> set EMITTABLE_CATEGORIES"
    using assms(2) emittable(1) by (auto simp: pairing_valid_def)
  moreover have "set EMITTABLE_CATEGORIES \<subseteq> set INCIDENT_WINDOW_CATEGORIES"
    by (simp add: EMITTABLE_CATEGORIES_def CATEGORIES_def INCIDENT_WINDOW_CATEGORIES_def category_defs)
  ultimately show ?thesis by blast
qed

text \<open>
  C24: An incident whose tail is clean is closed. When a live scanner's cycle works and classifies the frozen window
  as anything but \<open>no_incident\<close>, with no anomaly in its last three buckets, that cycle closes the window with the
  verdict of this very cycle and the reason \<open>clean_buckets\<close>; no window is open afterwards, the discovery gate
  stands at the end of the last signal, and the scanner reports warm-up exactly while the five-bucket window still
  reaches behind that gate.
\<close>

theorem clean_tail_closes:
  assumes "p = foldl occur first_plane es" "live (fst p)" "w \<in> set (hi_windows (snd p))" "is_open w" "hi_runtime (snd p) = Some r"
    and "frozen_verdict tk r w e d" "cl_status (de_classification d) \<noteq> STATUS_NO_INCIDENT" "clean_tail (grown_buckets e w) d"
    and "healthy_tick tk w" "signal_after w d \<le> e" "e \<le> tk_store_now tk"
  shows "let (s, h) = occur p (Cycle tk)
    in (\<exists>bits. closed_as (tk_store_now tk) INCIDENT_CLOSURE_CLEAN_BUCKETS (verdict_now e w d bits) w \<in> set (hi_windows h))
      \<and> filter is_open (hi_windows h) = []
      \<and> (\<exists>r'. hi_runtime h = Some r' \<and> rt_open r' = None \<and> rt_discovery r' = Some (signal_after w d) \<and> rt_rearm r' = 0)
      \<and> phase s = (if warming (Some (signal_after w d)) (Some e) then PhaseWarmup else PhaseIdle)"
proof -
  obtain s h where p: "p = (s, h)" by (cases p)
  have gr: "grounded (s, h)" using history_grounded [of es] assms(1) by (simp add: p)
  have here: "live s" "w \<in> set (hi_windows h)" "hi_runtime h = Some r" using assms(2,3,5) by (simp_all add: p)
  note f = open_row_facts [OF gr _ _ assms(4), unfolded fst_conv snd_conv, OF here]
  have wc: "0 \<le> w_start w" "w_start w \<le> w_first w" "w_first w \<le> k_last w" using f(8) by (simp_all add: window_check_def)
  obtain hl sec status where det: "detect (bundle_of hl (w_start w) e status sec) = Inr d"
    using assms(6) unfolding frozen_verdict_def bundle_seen_def by blast
  obtain v u where bits: "bits_of (de_classification d) = Some (v, u)"
    "encode_incident_bits v INCIDENT_EVIDENCE_BITS_MAX \<noteq> None" "encode_incident_bits u INCIDENT_UNKNOWN_BITS_MAX \<noteq> None"
    using bits_available [OF det] .
  from clean_cycle [OF gr here(1,2) assms(4) here(3) assms(6,8) anomalies_located [OF det wc(1)] bits(1)]
  obtain g token where c: "rt_discovery r = Some g" "run_one_cycle tk (s, h) =
    chain (chain (close_clean tk w (verdict_now e w d (v, u))) (\<lambda>_. give (Some e))) (\<lambda>evaluated.
      chain (cache (\<lambda>s. s\<lparr>sc_gated := \<not> sc_rearm s \<and> warming (sc_discovery s) (Some e)\<rparr>)) (\<lambda>_.
        mark_cycle tk evaluated (rfs_after tk token (rt_fresh r)) r)) (s\<lparr>sc_rearm := False, sc_discovery := Some g\<rparr>, h)" .
  let ?v = "verdict_now e w d (v, u)" and ?sig = "signal_after w d" and ?now = "tk_store_now tk"
  have sig: "0 \<le> ?sig" "rt_floor r \<le> ?sig" using wc f(3,11) signal_after_ge [of w d] by linarith+
  have iv: "incident_values ?v"
    using storable_category [OF det assms(7)] bits(2,3) sig(1) assms(6,10)
    by (simp add: incident_values_def verdict_now_def verdict_of_def incident_epoch_def INCIDENT_BUDGET_MAX_def frozen_verdict_def)
  have tk: "tk_write tk = Landed" "tk_mark tk = Landed" "w_created w \<le> ?now" "0 \<le> tk_stamp tk"
    using assms(9) by (simp_all add: healthy_tick_def)
  let ?h = "h\<lparr>hi_windows := update_open (w_id w) (closed_as ?now INCIDENT_CLOSURE_CLEAN_BUCKETS ?v) (hi_windows h),
    hi_runtime := Some (gate_after INCIDENT_CLOSURE_CLEAN_BUCKETS ?sig r)\<rparr>"
  have ok: "plane_ok h" using gr by (simp add: grounded_def)
  have cl: "incident_close_window (tk_write tk) ?now (w_id w) ?v INCIDENT_CLOSURE_CLEAN_BUCKETS h = (plane_accept ?h, True)"
    using close_lands [OF ok f(1) here(3,2) assms(4) _ iv _ _ tk(3), of INCIDENT_CLOSURE_CLEAN_BUCKETS] sig(2) assms(10,11) signal_after_ge [of w d]
    by (simp add: tk(1) INCIDENT_CLOSURE_REASONS_def)
  have cs: "constraints_ok (plane_accept ?h)" using close_plane_ok [OF ok] cl by (metis fst_conv plane_ok_def)
  have ev: "0 \<le> rt_evaluated r" using f(7) by (simp add: runtime_check_def)
  have e0: "0 \<le> e" using sig(1) assms(10) by simp
  have mk: "mark_cycle tk (Some e) (rfs_after tk token (rt_fresh r)) r (s', plane_accept ?h) = (Inr (), s'\<lparr>sc_evaluated := Some e\<rparr>,
      plane_accept (plane_accept ?h\<lparr>hi_runtime := Some (gate_after INCIDENT_CLOSURE_CLEAN_BUCKETS ?sig r
        \<lparr>rt_evaluated := e, rt_fresh := rfs_after tk token (rt_fresh r)\<rparr>)\<rparr>))" for s'
    using mark_after [OF _ cs _ tk(2,4) ev, where evaluated = "Some e" and r' = "gate_after INCIDENT_CLOSURE_CLEAN_BUCKETS ?sig r"] f(1) e0
    by (simp add: plane_accept_def)
  have "close_clean tk w ?v (s', h) = (Inr (), s'\<lparr>sc_open := None, sc_discovery := Some ?sig\<rparr>, plane_accept ?h)" for s'
    by (simp add: close_clean_def chain_def ask_def demand_def give_def cache_def cl)
  then have run: "run_one_cycle tk (s, h) = (Inr (), s\<lparr>sc_rearm := False, sc_discovery := Some ?sig, sc_open := None,
      sc_gated := warming (Some ?sig) (Some e), sc_evaluated := Some e\<rparr>,
      plane_accept (plane_accept ?h\<lparr>hi_runtime := Some (gate_after INCIDENT_CLOSURE_CLEAN_BUCKETS ?sig r
        \<lparr>rt_evaluated := e, rt_fresh := rfs_after tk token (rt_fresh r)\<rparr>)\<rparr>))"
    by (simp add: c(2) chain_def cache_def give_def mk)
  have "closed_as ?now INCIDENT_CLOSURE_CLEAN_BUCKETS ?v w \<in> set (hi_windows ?h)" "filter is_open (hi_windows ?h) = []"
    using after_close [OF f(12), of "closed_as ?now INCIDENT_CLOSURE_CLEAN_BUCKETS ?v"] by simp_all
  then show ?thesis using f(2) here(1)
    by (auto simp: p occur_def run_once_def run note_success_def phase_def plane_accept_def gate_after_def)
qed

section \<open>Reader continuity\<close>

text \<open>
  A failed cycle forgets that the reader was stale. Documented is that a heartbeat that is not fresh clears the
  continuity of the reader. The cleared value is only written at the end of a cycle: when the cycle that saw the
  stale heartbeat fails to read its evidence, the runtime row keeps the old start of continuity, and every later
  cycle with a fresh heartbeat takes the whole stretch since then, the stale time included, for fresh.
\<close>

theorem failed_cycle_forgets_staleness:
  assumes "p = foldl occur first_plane es" "live (fst p)" "hi_runtime (snd p) = Some r" "rt_open r = None" "rt_discovery r = Some g"
    and "last_complete_end (rt_floor r) (tk_now tk) = Some e" "\<not> warming (Some g) (Some e)"
    and "tk_readable tk" "heartbeat_status (tk_beat_now tk) (tk_beat tk) = Inr token" "token \<noteq> ''fresh''" "\<not> tk_bundle_readable tk"
    and "rt_fresh r = Some t" "t \<le> a"
  shows "let (s, h) = occur p (Cycle tk)
    in sc_error s = Some ERROR_EVIDENCE_READ_FAILED \<and> hi_runtime h = Some r \<and> rfs_after tk token (rt_fresh r) = None
      \<and> projection (rfs_after tk' ''fresh'' (rt_fresh r)) a = ''fresh''"
proof -
  obtain s h where p: "p = (s, h)" by (cases p)
  have gr: "grounded (s, h)" using history_grounded [of es] assms(1) by (simp add: p)
  have ok: "plane_ok h" "hi_enabled h" "sc_enabled s" "live s" "0 < rt_floor r" and rc: "runtime_check r"
    using gr assms(2,3) by (auto simp: grounded_def floor_ok_def live_def p plane_ok_def constraints_ok_def)
  then have g: "rt_rearm r = 0" "0 \<le> g" "0 \<le> t" using assms(5,12) by (auto simp: runtime_check_def)
  have none: "row_named h = None" using assms(3,4) by (simp add: row_named_def p)
  have c: "run_one_cycle tk (s, h) =
    chain (stage tk None (Some g) e (rfs_after tk token (rt_fresh r))) (\<lambda>evaluated.
      chain (cache (\<lambda>s. s\<lparr>sc_gated := \<not> sc_rearm s \<and> warming (sc_discovery s) (Some e)\<rparr>)) (\<lambda>_.
        mark_cycle tk evaluated (rfs_after tk token (rt_fresh r)) r)) (s\<lparr>sc_rearm := False, sc_discovery := Some g\<rparr>, h)"
    using cycle_start [where h = h and s = s, OF ok(2) assms(8) _ ok(5) g(1) assms(5) g(2) assms(9,6)] assms(3) by (simp add: p none)
  have unread: "\<exists>h'. same_tables h' h \<and> classifier_bundle (tk_bundle_readable tk) ev hl x y st h = (h', None)" for ev hl x y st
    using assms(11) by (simp add: classifier_bundle_def)
  have st: "\<exists>h'. same_tables h' h \<and> stage tk None (Some g) e rfs (s', h) = (Inl ERROR_EVIDENCE_READ_FAILED, s', h')" for rfs s'
  proof -
    obtain h' where h': "same_tables h' h" "classifier_bundle (tk_bundle_readable tk) (tk_evidence tk) (tk_health tk)
        (e - of_nat DISCOVERY_BUCKETS * BUCKET_SECONDS) e (projection rfs (e - of_nat DISCOVERY_BUCKETS * BUCKET_SECONDS)) h = (h', None)"
      using unread by blast
    then have "detect_window tk (e - of_nat DISCOVERY_BUCKETS * BUCKET_SECONDS) e rfs (s', h) = (Inl ERROR_EVIDENCE_READ_FAILED, s', h')"
      by (simp add: chain_def detect_window_def ask_def need_def abort_def)
    then have "stage tk None (Some g) e rfs (s', h) = (Inl ERROR_EVIDENCE_READ_FAILED, s', h')"
      by (simp add: stage_def discovery_cycle_def assms(7) chain_def)
    with h'(1) show ?thesis by blast
  qed
  obtain h' where h': "same_tables h' h" "stage tk None (Some g) e (rfs_after tk token (rt_fresh r)) (s\<lparr>sc_rearm := False, sc_discovery := Some g\<rparr>, h)
      = (Inl ERROR_EVIDENCE_READ_FAILED, s\<lparr>sc_rearm := False, sc_discovery := Some g\<rparr>, h')"
    using st by blast
  then have "run_one_cycle tk (s, h) = (Inl ERROR_EVIDENCE_READ_FAILED, s\<lparr>sc_rearm := False, sc_discovery := Some g\<rparr>, h')"
    by (simp add: c chain_def)
  then show ?thesis using h'(1) ok(3,4) assms(3,10,12,13) g(3)
    by (simp add: p occur_def run_once_def note_failure_def same_tables_def rfs_after_def projection_def epoch_ok_def)
qed

section \<open>A concrete history\<close>

text \<open>
  An activation at minute one and a cycle whose five buckets hold a journal burst over a low baseline, with two
  quiet devices in the same bucket. It opens a window that starts one bucket later, where the baseline is higher.
\<close>

definition opening_boot :: boot where
  "opening_boot = \<lparr>bt_now = 60, bt_activate = Landed, bt_readable = True, bt_beat = None, bt_beat_now = 60, bt_mark = Landed, bt_grid_now = 60\<rparr>"
definition failures_at :: "int \<Rightarrow> int \<Rightarrow> pyval" where
  "failures_at t n = PDict [(PStr ''ts'', PInt t), (PStr ''cls'', PStr ''dial_timeout''), (PStr ''proto'', PStr ''Reality''),
     (PStr ''port'', PInt 443), (PStr ''dcls'', PStr ''https443''), (PStr ''n'', PInt n)]"
definition shifting :: tables where
  "shifting = \<lparr>tb_samples = [], tb_devices = [device_row (PInt 330) (PStr ''obs''), device_row (PInt 330) (PStr ''vmix'')], tb_probes = [],
     tb_events = [failures_at 200 4, failures_at 260 4, failures_at 320 6], tb_audit = []\<rparr>"
definition shifting_tick :: "rat \<Rightarrow> tick" where
  "shifting_tick now = \<lparr>tk_readable = True, tk_beat = None, tk_beat_now = now, tk_stamp = now, tk_now = now,
     tk_evidence = shifting, tk_health = (False, None),
     tk_bundle_readable = True, tk_store_now = now, tk_write = Landed, tk_mark = Landed\<rparr>"



definition shifting_start :: "happening list" where
  "shifting_start = [Begin opening_boot, Cycle (shifting_tick 376)]"

definition shifting_verdict :: classification where
  "shifting_verdict = \<lparr>cl_version = 1, cl_status = ''incident'', cl_category = ''insufficient_evidence'', cl_window_start = 60,
     cl_window_end = 360, cl_buckets = 5,
     cl_evidence = [''all_devices_quiet'', ''journal_burst_reality'', ''journal_cls_dial_timeout''],
     cl_unknowns = [''baseline_evidence_absent'', ''device_states_are_change_only'', ''journal_evidence_incomplete'',
       ''probe_evidence_absent'', ''root_cause_not_established'', ''transport_negatives_unproven'']\<rparr>"

definition calm_verdict :: classification where
  "calm_verdict = \<lparr>cl_version = 1, cl_status = ''no_incident'', cl_category = ''NONE'', cl_window_start = 120,
     cl_window_end = 360, cl_buckets = 4, cl_evidence = [''all_devices_quiet'', ''journal_cls_dial_timeout''],
     cl_unknowns = [''baseline_evidence_absent'', ''count_drop_only'', ''device_states_are_change_only'',
       ''journal_evidence_incomplete'', ''no_corroboration'', ''probe_evidence_absent'']\<rparr>"

definition shifting_window :: window where
  "shifting_window = \<lparr>k_category = ''insufficient_evidence'', k_last = 360, k_end = 360, k_buckets = 5, k_evidence = 167772161,
     k_unknown = 104923154, w_id = 1, w_start = 120, w_first = 300, w_closed = None, w_created = 376, w_updated = 376\<rparr>"

definition shifting_row :: runtime_row where
  "shifting_row = \<lparr>rt_floor = 60, rt_evaluated = 360, rt_fresh = None, rt_open = Some 1, rt_discovery = Some 60, rt_rearm = 0\<rparr>"

definition booted :: plane where
  "booted = (new_scanner\<lparr>sc_enabled := True, sc_thread := True, sc_discovery := Some 60\<rparr>,
     new_history\<lparr>hi_runtime := Some (inert_row\<lparr>rt_floor := 60, rt_discovery := Some 60\<rparr>), hi_persisted := 1\<rparr>)"

lemma shifting_detected:
  "detect (bundle_seen (shifting_tick 376) None 60 360) =
     Inr \<lparr>de_classification = shifting_verdict, de_indices = [4], de_first = Some 300, de_last = Some 360\<rparr>"
  by code_simp

lemma shifting_bits: "bits_of shifting_verdict = Some (167772161, 104923154)"
  by code_simp

lemma calm_detected:
  "detect (bundle_seen (shifting_tick 400) None 120 360) =
     Inr \<lparr>de_classification = calm_verdict, de_indices = [], de_first = None, de_last = None\<rparr>"
  by code_simp

lemma shifting_boots: "occur first_plane (Begin opening_boot) = booted"
  by code_simp

lemma small_bundle:
  assumes "list_all (\<lambda>rows. length rows \<le> CLASSIFIER_BUNDLE_ROW_BUDGET) [tb_samples t, tb_devices t, tb_probes t, tb_events t, tb_audit t]"
  shows "list_all (\<lambda>(name, rows). length rows \<le> CLASSIFIER_BUNDLE_ROW_BUDGET) (bundle_sections t a b)"
proof -
  have "length (section_rows c a b rows) \<le> CLASSIFIER_BUNDLE_ROW_BUDGET" if "length rows \<le> CLASSIFIER_BUNDLE_ROW_BUDGET" for c rows
    using that length_filter_le [of "\<lambda>v. a \<le> num_of (dict_items v) c \<and> num_of (dict_items v) c < b" rows]
    unfolding section_rows_def length_take length_sort by linarith
  then show ?thesis using assms by (simp add: bundle_sections_def)
qed

lemma shifting_within: "list_all (\<lambda>(name, rows). length rows \<le> CLASSIFIER_BUNDLE_ROW_BUDGET) (bundle_sections (tk_evidence (shifting_tick now)) a b)"
  by (rule small_bundle) (simp add: shifting_tick_def shifting_def CLASSIFIER_BUNDLE_ROW_BUDGET_def)

lemma shifting_grid: "last_complete_end 60 376 = Some 360" "last_complete_end 60 400 = Some 360"
  by (simp_all add: last_complete_end_def BUCKET_SECONDS_def BUCKET_GRACE_SECONDS_def Let_def floor_eq_iff)

lemma shifting_beat: "heartbeat_status (tk_beat_now (shifting_tick now)) (tk_beat (shifting_tick now)) = Inr ''disabled''"
  by (simp add: heartbeat_status_def shifting_tick_def)

lemma shifting_opens:
  "foldl occur first_plane shifting_start =
     (new_scanner\<lparr>sc_enabled := True, sc_thread := True, sc_completed := 1, sc_evaluated := Some 360, sc_open := Some 1,
        sc_gated := False, sc_discovery := Some 60\<rparr>,
      \<lparr>hi_enabled = True, hi_windows = [shifting_window], hi_runtime = Some shifting_row, hi_markers = [], hi_persisted = 3,
       hi_rejected = 0, hi_failures = 0, hi_degraded = False, hi_error = None\<rparr>)"
proof -
  obtain s h where b: "booted = (s, h)" by (cases booted)
  have h: "h = \<lparr>hi_enabled = True, hi_windows = [], hi_runtime = Some \<lparr>rt_floor = 60, rt_evaluated = 0, rt_fresh = None, rt_open = None,
      rt_discovery = Some 60, rt_rearm = 0\<rparr>, hi_markers = [], hi_persisted = 1, hi_rejected = 0, hi_failures = 0, hi_degraded = False, hi_error = None\<rparr>"
    using b by (simp add: booted_def new_history_def inert_row_def)
  have s: "s = new_scanner\<lparr>sc_enabled := True, sc_thread := True, sc_discovery := Some 60\<rparr>" using b by (simp add: booted_def)
  let ?tk = "shifting_tick 376"
  have tk: "tk_readable ?tk" "tk_now ?tk = 376" "tk_write ?tk = Landed" "tk_mark ?tk = Landed" "tk_store_now ?tk = 376" "tk_bundle_readable ?tk"
    by (simp_all add: shifting_tick_def)
  have det: "detect_window ?tk 60 360 None (s', h) = (Inr \<lparr>de_classification = shifting_verdict, de_indices = [4], de_first = Some 300, de_last = Some 360\<rparr>, s', h)" for s'
    by (rule detect_lands [OF _ tk(6) _ _ shifting_within shifting_detected]) (simp_all add: h)
  have opened: "incident_open_window Landed 376 120 300 (verdict_of ''insufficient_evidence'' 360 360 5 (167772161, 104923154)) h =
      (plane_accept (h\<lparr>hi_windows := [shifting_window], hi_runtime := Some (shifting_row\<lparr>rt_evaluated := 0\<rparr>)\<rparr>), Some 1)"
    unfolding h by code_simp
  let ?h1 = "plane_accept (h\<lparr>hi_windows := [shifting_window], hi_runtime := Some (shifting_row\<lparr>rt_evaluated := 0\<rparr>)\<rparr>)"
  have five: "int DISCOVERY_BUCKETS = 5" by (simp add: DISCOVERY_BUCKETS_def)
  have stg: "stage ?tk (row_named h) (Some 60) 360 (rfs_after ?tk ''disabled'' None) (s', h) = (Inr (Some 360), s'\<lparr>sc_open := Some 1\<rparr>, ?h1)" for s'
  proof -
    have "row_named h = None" "rfs_after ?tk ''disabled'' None = None" by (simp_all add: row_named_def h rfs_after_def)
    moreover have "discovery_cycle ?tk 60 360 None (s', h) = (Inr (Some 360), s'\<lparr>sc_open := Some 1\<rparr>, ?h1)"
      unfolding discovery_cycle_def buckets_seconds
      by (simp add: warming_def buckets_seconds chain_def det encode_bits_need shifting_bits need_def give_def
          ask_def cache_def tk five opened)
        (simp add: shifting_verdict_def STATUS_INCIDENT_def opened chain_def give_def cache_def)
    ultimately show ?thesis by (simp add: stage_def)
  qed
  have mk: "mark_cycle ?tk (Some 360) (rfs_after ?tk ''disabled'' None) \<lparr>rt_floor = 60, rt_evaluated = 0, rt_fresh = None, rt_open = None,
      rt_discovery = Some 60, rt_rearm = 0\<rparr> (s', ?h1) = (Inr (), s'\<lparr>sc_evaluated := Some 360\<rparr>, plane_accept (?h1\<lparr>hi_runtime := Some shifting_row\<rparr>))" for s'
  proof -
    have "incident_runtime_mark Landed 360 None ?h1 = (plane_accept (?h1\<lparr>hi_runtime := Some shifting_row\<rparr>), True)"
      unfolding h by code_simp
    then show ?thesis by (simp add: mark_cycle_def rfs_after_def chain_def need_def give_def ask_def demand_def cache_def tk epoch_ok_def)
  qed
  have "run_one_cycle ?tk (s, h) = (Inr (), s\<lparr>sc_rearm := False, sc_discovery := Some 60, sc_open := Some 1, sc_gated := False, sc_evaluated := Some 360\<rparr>,
      plane_accept (?h1\<lparr>hi_runtime := Some shifting_row\<rparr>))"
    by (subst cycle_start [where r = "\<lparr>rt_floor = 60, rt_evaluated = 0, rt_fresh = None, rt_open = None,
          rt_discovery = Some 60, rt_rearm = 0\<rparr>" and g = 60 and e = 360, OF _ tk(1) _ _ _ _ _ shifting_beat])
      (simp_all add: chain_def cache_def stg mk tk shifting_grid warming_def buckets_seconds, simp_all add: h)
  moreover have "live s" "sc_enabled s" by (simp_all add: s live_def new_scanner_def)
  ultimately have "occur (s, h) (Cycle ?tk) = (note_success (s\<lparr>sc_rearm := False, sc_discovery := Some 60, sc_open := Some 1, sc_gated := False,
      sc_evaluated := Some 360\<rparr>), plane_accept (?h1\<lparr>hi_runtime := Some shifting_row\<rparr>))"
    by (simp add: occur_def run_once_def)
  then show ?thesis unfolding shifting_start_def foldl_Cons foldl_Nil shifting_boots b
    by (simp add: note_success_def s h plane_accept_def new_scanner_def)
qed

lemma shifting_live: "live (fst (foldl occur first_plane shifting_start))"
  by (simp add: shifting_opens live_def new_scanner_def)

lemma shifting_open: "shifting_window \<in> set (hi_windows (snd (foldl occur first_plane shifting_start)))"
  "is_open shifting_window" "hi_runtime (snd (foldl occur first_plane shifting_start)) = Some shifting_row"
  by (simp_all add: shifting_opens shifting_window_def is_open_def)

theorem window_lifecycle_witness:
  "\<exists>w'. w' \<in> set (hi_windows (snd (occur (foldl occur first_plane shifting_start) Halt)))
     \<and> evolves shifting_window w'"
  using window_lifecycle [of "shifting_start" Halt] shifting_open(1) unfolding Let_def by blast


definition late_tick :: tick where
  "late_tick = (shifting_tick 3800)\<lparr>tk_bundle_readable := False\<rparr>"

theorem overlong_window_is_closed_witness:
  "phase (fst (occur (foldl occur first_plane shifting_start) (Cycle late_tick))) = PhaseRearm"
proof -
  have "healthy_tick late_tick shifting_window"
    using shifting_beat by (simp add: healthy_tick_def late_tick_def shifting_tick_def shifting_window_def)
  moreover have "k_last shifting_window \<le> tk_store_now late_tick" by (simp add: late_tick_def shifting_tick_def shifting_window_def)
  moreover have "last_complete_end (rt_floor shifting_row) (tk_now late_tick) = Some 3780"
    by (simp add: shifting_row_def late_tick_def shifting_tick_def last_complete_end_def BUCKET_SECONDS_def BUCKET_GRACE_SECONDS_def Let_def floor_eq_iff)
  moreover have "60 < grown_buckets 3780 shifting_window"
    by (simp add: grown_buckets_def shifting_window_def BUCKET_SECONDS_def round_half_even_def)
  ultimately show ?thesis
    using overlong_window_is_closed [OF refl shifting_live shifting_open] by (auto simp: Let_def case_prod_unfold)
qed

theorem calm_window_cannot_close_witness:
  "phase (fst (occur (foldl occur first_plane shifting_start) (Cycle (shifting_tick 400)))) = PhaseDegraded"
proof -
  have "frozen_verdict (shifting_tick 400) shifting_row shifting_window 360
      \<lparr>de_classification = calm_verdict, de_indices = [], de_first = None, de_last = None\<rparr>"
    using shifting_beat [of 400] calm_detected shifting_within [of 400 120 360]
    by (simp add: frozen_verdict_def shifting_row_def shifting_window_def shifting_grid rfs_after_def grown_buckets_def BUCKET_SECONDS_def
        round_half_even_def shifting_tick_def)
  from calm_window_cannot_close [OF refl shifting_live shifting_open this] show ?thesis
    by (simp add: calm_verdict_def STATUS_NO_INCIDENT_def Let_def case_prod_unfold)
qed

definition silent_tick :: tick where
  "silent_tick = (shifting_tick 400)\<lparr>tk_evidence := \<lparr>tb_samples = [], tb_devices = [], tb_probes = [], tb_events = [], tb_audit = []\<rparr>\<rparr>"

definition silent_verdict :: detection where
  "silent_verdict = \<lparr>de_classification = \<lparr>cl_version = 1, cl_status = ''indeterminate'', cl_category = ''insufficient_evidence'',
     cl_window_start = 120, cl_window_end = 360, cl_buckets = 4, cl_evidence = [],
     cl_unknowns = [''baseline_evidence_absent'', ''journal_evidence_incomplete'', ''probe_evidence_absent'']\<rparr>,
     de_indices = [], de_first = None, de_last = None\<rparr>"

lemma silent_detected: "detect (bundle_seen silent_tick None 120 360) = Inr silent_verdict"
  by code_simp

theorem clean_tail_closes_witness:
  "filter is_open (hi_windows (snd (occur (foldl occur first_plane shifting_start) (Cycle silent_tick)))) = []"
proof -
  have "frozen_verdict silent_tick shifting_row shifting_window 360 silent_verdict"
    using shifting_beat [of 400] silent_detected
    by (simp add: frozen_verdict_def shifting_row_def shifting_window_def shifting_grid rfs_after_def grown_buckets_def BUCKET_SECONDS_def
        round_half_even_def silent_tick_def shifting_tick_def small_bundle)
  moreover have "cl_status (de_classification silent_verdict) \<noteq> STATUS_NO_INCIDENT" "clean_tail (grown_buckets 360 shifting_window) silent_verdict"
    "signal_after shifting_window silent_verdict \<le> 360"
    by (simp_all add: silent_verdict_def STATUS_NO_INCIDENT_def clean_tail_def signal_after_def shifting_window_def)
  moreover have "healthy_tick silent_tick shifting_window" "360 \<le> tk_store_now silent_tick"
    using shifting_beat by (simp_all add: healthy_tick_def silent_tick_def shifting_tick_def shifting_window_def)
  ultimately show ?thesis
    using clean_tail_closes [OF refl shifting_live shifting_open] by (auto simp: Let_def case_prod_unfold)
qed

text \<open>A reader that was fresh at the start and then vanished.\<close>

definition fresh_boot :: boot where
  "fresh_boot = opening_boot\<lparr>bt_beat := Some (HbFile 40 (Some (PDict [(PStr ''seq'', PInt 1), (PStr ''ts'', PFloat (Fin 60))])))\<rparr>"

lemma fresh_boots:
  "occur first_plane (Begin fresh_boot) = (fst booted, (snd booted)\<lparr>hi_runtime := Some (inert_row\<lparr>rt_floor := 60, rt_discovery := Some 60, rt_fresh := Some 60\<rparr>)\<rparr>)"
  by code_simp

theorem failed_cycle_forgets_staleness_witness:
  "\<exists>r. hi_runtime (snd (occur (foldl occur first_plane [Begin fresh_boot]) (Cycle ((shifting_tick 376)\<lparr>tk_beat := Some HbAbsent, tk_bundle_readable := False\<rparr>)))) = Some r
     \<and> projection (rfs_after silent_tick ''fresh'' (rt_fresh r)) 60 = ''fresh''"
proof -
  let ?p = "foldl occur first_plane [Begin fresh_boot]"
  let ?r = "inert_row\<lparr>rt_floor := 60, rt_discovery := Some 60, rt_fresh := Some 60\<rparr>"
  let ?tk = "(shifting_tick 376)\<lparr>tk_beat := Some HbAbsent, tk_bundle_readable := False\<rparr>"
  have p: "live (fst ?p)" "hi_runtime (snd ?p) = Some ?r"
    by (simp_all add: fresh_boots booted_def live_def new_scanner_def)
  have "heartbeat_status (tk_beat_now ?tk) (tk_beat ?tk) = Inr ''absent''" by (simp add: heartbeat_status_def)
  from failed_cycle_forgets_staleness [OF refl p _ _ _ _ _ this, of 60 360 60 60 silent_tick] show ?thesis
    by (simp add: inert_row_def warming_def buckets_seconds shifting_tick_def shifting_grid Let_def case_prod_unfold)
qed

end
