(* ===== verification/Sample.thy ===== *)
theory Sample
  imports Journal
begin

text \<open>
  The wire format of the office probe (\<open>monitor-v2/remote_probe/payload.py\<close>): the closed schema of one sample, the
  signed request and its headers. JSON text is a byte string behind an encoder and a decoder given as arguments; so
  are SHA-256 and HMAC.
\<close>

section \<open>Constants\<close>

definition P6_PROTOCOL :: string where "P6_PROTOCOL = ''p6-v1''"
definition INGEST_METHOD :: string where "INGEST_METHOD = ''POST''"
definition INGEST_PATH :: string where "INGEST_PATH = ''/api/v1/remote-probes/ingest''"
definition SEQ_MAX :: int where "SEQ_MAX = 9223372036854775807"
definition MAX_BODY_BYTES :: nat where "MAX_BODY_BYTES = 16384"
definition ACTIVE_OUTCOMES :: "string list" where "ACTIVE_OUTCOMES = [''ok'', ''timeout'', ''unavailable'', ''invalid'']"
definition ROLES :: "string list" where "ROLES = [''reality'', ''hy2'']"
definition SLOT_STATUSES :: "string list" where "SLOT_STATUSES = [''ok'', ''failed'']"

definition SLOT_ERROR_CODES :: "string list" where
  "SLOT_ERROR_CODES = [''NONE'', ''timeout'', ''dns_failed'', ''connect_failed'', ''tls_failed'', ''bad_response'',
     ''protocol_failed'', ''parse_failed'', ''unavailable'']"

definition CHANGE_VALUES :: "string list" where "CHANGE_VALUES = [''unchanged'', ''changed'', ''unknown'']"
definition ev_sources :: "string list" where "ev_sources = [''active_delay'', ''passive_cache'']"
definition SLOT_KEYS :: "string list" where "SLOT_KEYS = [''status'', ''latency_ms'', ''error_code'']"
definition EGRESS_KEYS :: "string list" where "EGRESS_KEYS = SLOT_KEYS @ [''ip'', ''change'']"

definition ACTIVE_KEYS :: "string list" where
  "ACTIVE_KEYS = [''role'', ''source'', ''outcome'', ''delay_ms'', ''test_id'', ''independent'']"

definition MIHOMO_KEYS :: "string list" where "MIHOMO_KEYS = [''status'']"
definition FLAGS_KEYS :: "string list" where "FLAGS_KEYS = [''truncated'', ''source_unavailable'']"

definition SAMPLE_KEYS :: "string list" where
  "SAMPLE_KEYS = [''v'', ''probe_id'', ''run'', ''seq'', ''sample_epoch'', ''dns'', ''https'', ''vps_tcp'', ''egress'',
     ''mihomo_api'', ''active'', ''flags'']"

definition SOURCE_TOKENS :: "string list" where
  "SOURCE_TOKENS = [''active_delay'', ''direct'', ''egress'', ''mihomo_api'', ''passive_cache'']"

definition MIHOMO_API_STATUSES :: "string list" where "MIHOMO_API_STATUSES = [''ok'', ''unavailable'', ''invalid'']"
definition MAX_ACTIVE_ENTRIES :: nat where "MAX_ACTIVE_ENTRIES = length ROLES * 2"
definition MAX_SOURCE_TOKENS :: nat where "MAX_SOURCE_TOKENS = length SOURCE_TOKENS"
definition MAX_TEST_ID_LEN :: nat where "MAX_TEST_ID_LEN = 64"

section \<open>Grammar gates\<close>

definition probe_char :: "char \<Rightarrow> bool" where
  "probe_char c \<longleftrightarrow> is_alpha c \<or> is_digit c \<or> c = CHR ''-''"

definition valid_probe_id :: "pyval \<Rightarrow> bool" where
  "valid_probe_id v = (case v of PStr s \<Rightarrow> 1 \<le> length s \<and> length s \<le> 64 \<and> list_all probe_char s | _ \<Rightarrow> False)"

definition valid_run :: "pyval \<Rightarrow> bool" where
  "valid_run v = hex_of_length 32 v"

definition valid_seq :: "pyval \<Rightarrow> bool" where
  "valid_seq v = (case v of PInt i \<Rightarrow> 1 \<le> i \<and> i \<le> SEQ_MAX | _ \<Rightarrow> False)"

text \<open>\<open>math.isfinite\<close> of an \<open>int\<close> converts it first.\<close>

definition valid_sample_epoch :: "pyval \<Rightarrow> bool res" where
  "valid_sample_epoch v =
     (case v of
        PInt i \<Rightarrow> res_bind (int_to_float i) (\<lambda>q. Inr (0 \<le> q))
      | PFloat (Fin q) \<Rightarrow> Inr (0 \<le> q)
      | _ \<Rightarrow> Inr False)"

section \<open>The closed schema\<close>

definition flagged :: "bool \<Rightarrow> string \<Rightarrow> string list" where
  "flagged b problem = (if b then [problem] else [])"

definition slot_violations :: "string \<Rightarrow> pyval \<Rightarrow> string list" where
  "slot_violations name slot =
     (case slot of
        PDict d \<Rightarrow>
          if \<not> exact_keys d SLOT_KEYS then [name @ '': shape'']
          else (let latency = pgetN d ''latency_ms'' in
              flagged (\<not> one_in SLOT_STATUSES (pgetN d ''status'')) (name @ '': status'')
            @ flagged (\<not> one_in SLOT_ERROR_CODES (pgetN d ''error_code'')) (name @ '': error_code'')
            @ flagged (latency \<noteq> PNone \<and> \<not> at_least 0 latency) (name @ '': latency_ms'')
            @ (if pgetN d ''status'' = PStr ''ok''
               then flagged (pgetN d ''error_code'' \<noteq> PStr ''NONE'' \<or> latency = PNone) (name @ '': ok-invariant'')
               else flagged (pgetN d ''error_code'' = PStr ''NONE'' \<or> latency \<noteq> PNone) (name @ '': failed-invariant'')))
      | _ \<Rightarrow> [name @ '': shape''])"

definition ip_char :: "char \<Rightarrow> bool" where
  "ip_char c \<longleftrightarrow> c \<in> set ''0123456789abcdefABCDEF:.''"

definition egress_violations :: "pyval \<Rightarrow> string list" where
  "egress_violations egress =
     (case egress of
        PDict d \<Rightarrow>
          if \<not> exact_keys d EGRESS_KEYS then [''egress: shape'']
          else slot_violations ''egress'' (PDict (map (\<lambda>k. (PStr k, pgetN d k)) SLOT_KEYS))
            @ flagged (\<not> one_in CHANGE_VALUES (pgetN d ''change'')) ''egress: change''
            @ (case pgetN d ''ip'' of
                 PNone \<Rightarrow> []
               | PStr ip \<Rightarrow> flagged (64 < py_len ip \<or> \<not> list_all ip_char ip) ''egress: ip''
               | _ \<Rightarrow> [''egress: ip''])
            @ flagged (pgetN d ''status'' \<noteq> PStr ''ok'' \<and> pgetN d ''ip'' \<noteq> PNone) ''egress: ip-on-failure''
      | _ \<Rightarrow> [''egress: shape''])"

text \<open>\<open>set.add\<close> and the membership test hash the pair of role and source.\<close>

definition entry_violations :: "(pyval \<times> pyval) list \<Rightarrow> pyval \<Rightarrow> ((pyval \<times> pyval) list \<times> string list) res" where
  "entry_violations seen entry =
     (case entry of
        PDict d \<Rightarrow>
          if \<not> exact_keys d ACTIVE_KEYS then Inr (seen, [''active: entry-shape''])
          else if \<not> (hashable (pgetN d ''role'') \<and> hashable (pgetN d ''source'')) then Inl TypeError
          else (let pair = (hash_key (pgetN d ''role''), hash_key (pgetN d ''source''));
                    delay = pgetN d ''delay_ms''; good = (pgetN d ''outcome'' = PStr ''ok'')
                in Inr (pair # seen,
                     flagged (\<not> one_in ROLES (pgetN d ''role'') \<or> pair \<in> set seen) ''active: role''
                   @ (if \<not> one_in ev_sources (pgetN d ''source'') then [''active: source'']
                      else flagged (pgetN d ''source'' = PStr ''active_delay'' \<and> pgetN d ''independent'' \<noteq> PBool True)
                             ''active: active-not-independent'')
                   @ flagged (\<not> one_in ACTIVE_OUTCOMES (pgetN d ''outcome'')) ''active: outcome''
                   @ flagged (delay \<noteq> PNone \<and> \<not> at_least 1 delay) ''active: delay_ms''
                   @ flagged (good \<and> delay = PNone) ''active: ok-without-delay''
                   @ flagged (\<not> good \<and> delay \<noteq> PNone) ''active: delay-without-ok''
                   @ (case pgetN d ''test_id'' of
                        PStr s \<Rightarrow> flagged (s = [] \<or> MAX_TEST_ID_LEN < py_len s) ''active: test_id''
                      | _ \<Rightarrow> [''active: test_id''])
                   @ (case pgetN d ''independent'' of PBool _ \<Rightarrow> [] | _ \<Rightarrow> [''active: independent''])))
      | _ \<Rightarrow> Inr (seen, [''active: entry-shape'']))"

definition active_violations :: "pyval \<Rightarrow> string list res" where
  "active_violations active =
     (case active of
        PList entries \<Rightarrow>
          if MAX_ACTIVE_ENTRIES < length entries then Inr [''active: shape'']
          else res_bind (res_fold (\<lambda>(seen, problems) entry.
                   res_bind (entry_violations seen entry) (\<lambda>(seen', more). Inr (seen', problems @ more))) ([], []) entries)
                 (\<lambda>(_, problems). Inr problems)
      | _ \<Rightarrow> Inr [''active: shape''])"

definition flags_violations :: "pyval \<Rightarrow> string list" where
  "flags_violations flags =
     (case flags of
        PDict d \<Rightarrow>
          if \<not> exact_keys d FLAGS_KEYS then [''flags: shape'']
          else (case pgetN d ''truncated'' of PBool _ \<Rightarrow> [] | _ \<Rightarrow> [''flags: truncated''])
            @ (case pgetN d ''source_unavailable'' of
                 PList tokens \<Rightarrow> flagged (MAX_SOURCE_TOKENS < length tokens \<or> \<not> list_all (one_in SOURCE_TOKENS) tokens) ''flags: source_unavailable''
               | _ \<Rightarrow> [''flags: source_unavailable''])
      | _ \<Rightarrow> [''flags: shape''])"

definition mihomo_ok :: "pyval \<Rightarrow> bool" where
  "mihomo_ok v = (case v of PDict d \<Rightarrow> exact_keys d MIHOMO_KEYS \<and> one_in MIHOMO_API_STATUSES (pgetN d ''status'') | _ \<Rightarrow> False)"

definition validate_sample :: "pyval \<Rightarrow> string list res" where
  "validate_sample sample =
     (case sample of
        PDict d \<Rightarrow>
          if \<not> exact_keys d SAMPLE_KEYS then Inr [''root: key-set'']
          else res_bind (valid_sample_epoch (pgetN d ''sample_epoch'')) (\<lambda>epoch_fine.
            res_bind (active_violations (pgetN d ''active'')) (\<lambda>active.
              Inr (flagged (\<not> is_one (pgetN d ''v'') \<or> pgetN d ''v'' = PBool True) ''v''
                 @ flagged (\<not> valid_probe_id (pgetN d ''probe_id'')) ''probe_id''
                 @ flagged (\<not> valid_run (pgetN d ''run'')) ''run''
                 @ flagged (\<not> valid_seq (pgetN d ''seq'')) ''seq''
                 @ flagged (\<not> epoch_fine) ''sample_epoch''
                 @ concat (map (\<lambda>name. slot_violations name (pgetN d name)) [''dns'', ''https'', ''vps_tcp''])
                 @ egress_violations (pgetN d ''egress'')
                 @ flagged (\<not> mihomo_ok (pgetN d ''mihomo_api'')) ''mihomo_api''
                 @ active @ flags_violations (pgetN d ''flags''))))
      | _ \<Rightarrow> Inr [''root: shape''])"

section \<open>Canonical encoding\<close>

text \<open>The encoder refuses numbers that JSON does not have.\<close>

fun finite_value :: "pyval \<Rightarrow> bool" where
  "finite_value (PFloat (Fin _)) = True"
| "finite_value (PFloat _) = False"
| "finite_value (PList vs) = list_all finite_value vs"
| "finite_value (PDict d) = list_all (\<lambda>(k, v). finite_value v) d"
| "finite_value POther = False"
| "finite_value _ = True"

definition canonical_bytes :: "(pyval \<Rightarrow> string) \<Rightarrow> pyval \<Rightarrow> string res" where
  "canonical_bytes dumps v = (if finite_value v then Inr (dumps v) else Inl (ValueError ''nan''))"

definition canonical_roundtrip_ok :: "(pyval \<Rightarrow> string) \<Rightarrow> (string \<Rightarrow> pyval option) \<Rightarrow> string \<Rightarrow> bool" where
  "canonical_roundtrip_ok dumps loads body = (case loads body of None \<Rightarrow> False | Some v \<Rightarrow> canonical_bytes dumps v = Inr body)"

definition encode_sample :: "(pyval \<Rightarrow> string) \<Rightarrow> (string \<Rightarrow> pyval option) \<Rightarrow> pyval \<Rightarrow> string res" where
  "encode_sample dumps loads sample =
     res_bind (validate_sample sample) (\<lambda>problems.
       if problems \<noteq> [] then Inl (ValueError ''sample schema'')
       else res_bind (canonical_bytes dumps sample) (\<lambda>body.
         if MAX_BODY_BYTES < length body then Inl (ValueError ''sample exceeds'')
         else if \<not> canonical_roundtrip_ok dumps loads body then Inl (ValueError ''encoder is not idempotent'')
         else Inr body))"

section \<open>Signing\<close>

definition NEWLINE :: char where "NEWLINE = CHR 0x0A"

definition signature_input :: "(string \<Rightarrow> string) \<Rightarrow> string \<Rightarrow> int \<Rightarrow> string \<Rightarrow> int \<Rightarrow> string \<Rightarrow> string res" where
  "signature_input sha probe_id sent_epoch run seq raw_body =
     (if \<not> valid_probe_id (PStr probe_id) then Inl (ValueError ''probe_id grammar'')
      else if \<not> valid_run (PStr run) then Inl (ValueError ''run grammar'')
      else if \<not> valid_seq (PInt seq) then Inl (ValueError ''seq grammar'')
      else if sent_epoch < 0 then Inl (ValueError ''sent_epoch'')
      else Inr (concat (map (\<lambda>part. part @ [NEWLINE])
             [P6_PROTOCOL, INGEST_METHOD, INGEST_PATH, probe_id, int_digits (nat sent_epoch), run, int_digits (nat seq)]) @ sha raw_body))"

definition sign :: "(string \<Rightarrow> string) \<Rightarrow> (string \<Rightarrow> string \<Rightarrow> string) \<Rightarrow> string \<Rightarrow> string \<Rightarrow> int \<Rightarrow> string \<Rightarrow> int \<Rightarrow> string \<Rightarrow> string res" where
  "sign sha mac secret probe_id sent_epoch run seq raw_body =
     (if secret = [] then Inl (ValueError ''probe secret'')
      else res_bind (signature_input sha probe_id sent_epoch run seq raw_body) (\<lambda>message. Inr (mac secret message)))"

text \<open>\<open>hmac.compare_digest\<close> of two strings raises \<open>TypeError\<close> when one of them is not ASCII.\<close>

definition is_ascii :: "string \<Rightarrow> bool" where
  "is_ascii s \<longleftrightarrow> list_all (\<lambda>c. (of_char c :: nat) < 128) s"

definition verify_signature :: "(string \<Rightarrow> string) \<Rightarrow> (string \<Rightarrow> string \<Rightarrow> string) \<Rightarrow> string \<Rightarrow> string \<Rightarrow> int \<Rightarrow> string \<Rightarrow> int \<Rightarrow> string \<Rightarrow> string \<Rightarrow> bool res" where
  "verify_signature sha mac secret probe_id sent_epoch run seq raw_body claimed =
     (case sign sha mac secret probe_id sent_epoch run seq raw_body of
        Inl _ \<Rightarrow> Inr False
      | Inr own \<Rightarrow> if is_ascii claimed then Inr (own = claimed) else Inl TypeError)"

text \<open>The five machine headers as the server reads them; an absent header is \<open>None\<close>.\<close>

record wire_headers =
  hd_probe_id :: "string option"
  hd_sent_epoch :: "string option"
  hd_run :: "string option"
  hd_seq :: "string option"
  hd_signature :: "string option"

definition headers :: "string \<Rightarrow> int \<Rightarrow> string \<Rightarrow> int \<Rightarrow> string \<Rightarrow> wire_headers" where
  "headers probe_id sent_epoch run seq signature =
     \<lparr>hd_probe_id = Some probe_id, hd_sent_epoch = Some (int_str sent_epoch), hd_run = Some run, hd_seq = Some (int_str seq),
      hd_signature = Some signature\<rparr>"

section \<open>The signing string has no second reading\<close>

lemma split_at_newline:
  "NEWLINE \<notin> set a \<Longrightarrow> NEWLINE \<notin> set b \<Longrightarrow> a @ NEWLINE # xs = b @ NEWLINE # ys \<longleftrightarrow> a = b \<and> xs = ys"
proof (induction a arbitrary: b)
  case Nil
  then show ?case by (cases b) auto
next
  case (Cons c a)
  then show ?case by (cases b) auto
qed

lemma newline_classes: "\<not> is_digit NEWLINE" "\<not> is_alpha NEWLINE" "\<not> probe_char NEWLINE" "\<not> hex_digit NEWLINE"
  by (simp_all add: NEWLINE_def is_digit_def is_alpha_def probe_char_def hex_digit_def less_eq_char_def)

lemma list_all_no_newline: "list_all p s \<Longrightarrow> \<not> p NEWLINE \<Longrightarrow> NEWLINE \<notin> set s"
  by (auto simp: list_all_iff)

lemma decimal_snoc: "decimal (s @ [c]) = decimal s * 10 + (int (of_char c) - 48)"
  by (simp add: decimal_def)

lemma digit_value: "n < 10 \<Longrightarrow> int (of_char (char_of (48 + n) :: char)) - 48 = int n"
  by simp

lemma decimal_int_digits: "decimal (int_digits n) = int n"
proof (induction n rule: int_digits.induct)
  case (1 n)
  show ?case
  proof (cases "n < 10")
    case True
    then show ?thesis using decimal_snoc [of "[]"] digit_value [of n] by (subst int_digits.simps) (simp add: decimal_def)
  next
    case False
    have "int n = int (n div 10) * 10 + int (n mod 10)" by presburger
    with False 1 [OF False] show ?thesis
      by (subst int_digits.simps) (simp only: if_False decimal_snoc digit_value mod_less_divisor zero_less_numeral)
  qed
qed

lemma int_digits_digits: "list_all is_digit (int_digits n)"
proof (induction n rule: int_digits.induct)
  case (1 n)
  have d: "is_digit (char_of (48 + k))" if "k < 10" for k :: nat
    using that by (simp add: is_digit_def less_eq_char_def)
  show ?case
  proof (cases "n < 10")
    case True
    then show ?thesis by (subst int_digits.simps) (simp add: d)
  next
    case False
    then show ?thesis using 1 by (subst int_digits.simps) (simp add: d)
  qed
qed

lemma int_digits_inject: "int_digits m = int_digits n \<longleftrightarrow> m = n"
  by (metis decimal_int_digits of_nat_eq_iff)

lemma no_newline [simp]:
  "NEWLINE \<notin> set (int_digits n)"
  "valid_probe_id (PStr p) \<Longrightarrow> NEWLINE \<notin> set p"
  "valid_run (PStr r) \<Longrightarrow> NEWLINE \<notin> set r"
  using list_all_no_newline [OF int_digits_digits newline_classes(1)]
  by (auto simp: valid_probe_id_def valid_run_def hex_of_length_def newline_classes dest: list_all_no_newline)

lemma signature_input_Inr:
  "signature_input sha p e r s body = Inr m \<longleftrightarrow>
     valid_probe_id (PStr p) \<and> valid_run (PStr r) \<and> valid_seq (PInt s) \<and> 0 \<le> e
     \<and> m = concat (map (\<lambda>part. part @ [NEWLINE]) [P6_PROTOCOL, INGEST_METHOD, INGEST_PATH, p, int_digits (nat e), r, int_digits (nat s)])
             @ sha body"
  by (auto simp: signature_input_def)

text \<open>
  C25: The string that is signed has only one reading: two requests that are well formed and sign the same
  string have the same probe, sending time, run, sequence number and body hash. Line breaks separate the
  fields and no field can hold one, so a signature for one identity, tuple or body can never be presented for
  another.
\<close>

theorem signature_binds_request:
  assumes "signature_input sha p e r s body = Inr m" and "signature_input sha p' e' r' s' body' = Inr m"
  shows "p = p' \<and> e = e' \<and> r = r' \<and> s = s' \<and> sha body = sha body'"
proof -
  have seq: "0 \<le> s" "0 \<le> s'" using assms by (auto simp: signature_input_Inr valid_seq_def)
  from assms have nl: "NEWLINE \<notin> set p" "NEWLINE \<notin> set p'" "NEWLINE \<notin> set r" "NEWLINE \<notin> set r'" "0 \<le> e" "0 \<le> e'"
    by (simp_all add: signature_input_Inr)
  from assms have "p @ NEWLINE # int_digits (nat e) @ NEWLINE # r @ NEWLINE # int_digits (nat s) @ NEWLINE # sha body
      = p' @ NEWLINE # int_digits (nat e') @ NEWLINE # r' @ NEWLINE # int_digits (nat s') @ NEWLINE # sha body'"
    by (simp add: signature_input_Inr)
  with nl have "p = p' \<and> nat e = nat e' \<and> r = r' \<and> nat s = nat s' \<and> sha body = sha body'"
    by (simp add: split_at_newline int_digits_inject)
  with nl seq show ?thesis by (simp add: eq_nat_nat_iff)
qed

definition sample_run :: string where "sample_run = concat (replicate 8 ''0a1b'')"

theorem signature_binds_request_witness:
  "\<exists>m. signature_input (\<lambda>b. b) ''office-1'' 1700000000 sample_run 7 ''{}'' = Inr m \<and> ''{}'' = ''{}''"
proof -
  have "valid_probe_id (PStr ''office-1'')" "valid_run (PStr sample_run)" "valid_seq (PInt 7)" by code_simp+
  then have "\<exists>m. signature_input (\<lambda>b. b) ''office-1'' 1700000000 sample_run 7 ''{}'' = Inr m"
    unfolding signature_input_Inr by simp
  then obtain m where m: "signature_input (\<lambda>b. b) ''office-1'' 1700000000 sample_run 7 ''{}'' = Inr m" by blast
  from m signature_binds_request [OF m m] show ?thesis by blast
qed

section \<open>What an accepted sample says\<close>

lemma flagged_Nil [simp]: "flagged b problem = [] \<longleftrightarrow> \<not> b"
  by (simp add: flagged_def)

text \<open>A slot is a success with a latency or a failure with a code, never a mixture.\<close>

definition slot_good :: "pyval \<Rightarrow> bool" where
  "slot_good slot \<longleftrightarrow> (\<exists>d. slot = PDict d \<and>
     (pgetN d ''status'' = PStr ''ok'' \<and> pgetN d ''error_code'' = PStr ''NONE'' \<and> at_least 0 (pgetN d ''latency_ms'')
      \<or> pgetN d ''status'' = PStr ''failed'' \<and> one_in (tl SLOT_ERROR_CODES) (pgetN d ''error_code'') \<and> pgetN d ''latency_ms'' = PNone))"

lemma one_in_Cons: "one_in (n # names) v \<longleftrightarrow> v = PStr n \<or> one_in names v"
  by (cases v) (auto simp: one_in_def)

lemma one_in_Nil [simp]: "\<not> one_in [] v"
  by (cases v) (simp_all add: one_in_def)

lemma at_least_not_None: "at_least m v \<Longrightarrow> v \<noteq> PNone"
  by (auto simp: at_least_def)

lemma slot_violations_Nil: "slot_violations name slot = [] \<Longrightarrow> slot_good slot"
proof (cases slot)
  case (PDict d)
  assume "slot_violations name slot = []"
  then show ?thesis
    using one_in_Cons [of "''NONE''" "tl SLOT_ERROR_CODES" "pgetN d ''error_code''"]
    by (auto simp: slot_violations_def slot_good_def Let_def PDict one_in_Cons SLOT_STATUSES_def
          SLOT_ERROR_CODES_def dest: at_least_not_None split: if_splits)
qed (simp_all add: slot_violations_def)

definition entry_good :: "pyval \<Rightarrow> bool" where
  "entry_good entry \<longleftrightarrow> (\<exists>d. entry = PDict d \<and> one_in ROLES (pgetN d ''role'') \<and> one_in ev_sources (pgetN d ''source'')
     \<and> (pgetN d ''outcome'' = PStr ''ok'' \<and> at_least 1 (pgetN d ''delay_ms'')
        \<or> one_in (tl ACTIVE_OUTCOMES) (pgetN d ''outcome'') \<and> pgetN d ''delay_ms'' = PNone))"

definition entry_pair :: "pyval \<Rightarrow> pyval \<times> pyval" where
  "entry_pair entry = (pgetN (dict_items entry) ''role'', pgetN (dict_items entry) ''source'')"

lemma one_in_hash: "one_in names v \<Longrightarrow> hash_key v = v"
  by (cases v) (simp_all add: one_in_def)

lemma entry_violations_Nil:
  "entry_violations seen entry = Inr (seen', []) \<Longrightarrow> entry_good entry \<and> seen' = entry_pair entry # seen \<and> entry_pair entry \<notin> set seen"
proof (cases entry)
  case (PDict d)
  assume "entry_violations seen entry = Inr (seen', [])"
  then have r: "one_in ROLES (pgetN d ''role'')" and s: "one_in ev_sources (pgetN d ''source'')"
    and o: "one_in ACTIVE_OUTCOMES (pgetN d ''outcome'')"
    and w: "pgetN d ''delay_ms'' = PNone \<or> at_least 1 (pgetN d ''delay_ms'')"
      "pgetN d ''outcome'' = PStr ''ok'' \<longleftrightarrow> pgetN d ''delay_ms'' \<noteq> PNone"
    and p: "seen' = (hash_key (pgetN d ''role''), hash_key (pgetN d ''source'')) # seen"
      "(hash_key (pgetN d ''role''), hash_key (pgetN d ''source'')) \<notin> set seen"
    by (auto simp: entry_violations_def PDict Let_def split: if_splits)
  from o have "pgetN d ''outcome'' = PStr ''ok'' \<or> one_in (tl ACTIVE_OUTCOMES) (pgetN d ''outcome'')"
    by (simp add: one_in_Cons ACTIVE_OUTCOMES_def)
  with r s w p show ?thesis by (auto simp: entry_good_def entry_pair_def PDict one_in_hash)
qed (simp_all add: entry_violations_def)

definition active_step :: "(pyval \<times> pyval) list \<times> string list \<Rightarrow> pyval \<Rightarrow> ((pyval \<times> pyval) list \<times> string list) res" where
  "active_step = (\<lambda>(seen, problems) entry.
     res_bind (entry_violations seen entry) (\<lambda>(seen', more). Inr (seen', problems @ more)))"

lemma active_fold:
  "res_fold active_step (seen, problems) entries = Inr (seen', []) \<Longrightarrow>
     problems = [] \<and> list_all entry_good entries \<and> distinct (map entry_pair entries) \<and> set (map entry_pair entries) \<inter> set seen = {}"
proof (induction entries arbitrary: seen problems)
  case Nil
  then show ?case by simp
next
  case (Cons entry entries)
  then obtain mid more where m: "entry_violations seen entry = Inr (mid, more)"
    "res_fold active_step (mid, problems @ more) entries = Inr (seen', [])"
    by (auto simp: active_step_def res_bind_eq_Inr)
  from Cons.IH [OF m(2)] have i: "problems = []" "more = []" "list_all entry_good entries" "distinct (map entry_pair entries)"
    "set (map entry_pair entries) \<inter> set mid = {}" by auto
  from entry_violations_Nil [of seen entry mid] m(1) i(2) i show ?case by auto
qed

lemma active_violations_Nil:
  assumes "active_violations active = Inr []"
  shows "\<exists>entries. active = PList entries \<and> length entries \<le> 4 \<and> list_all entry_good entries \<and> distinct (map entry_pair entries)"
proof (cases active)
  case (PList entries)
  with assms obtain seen where "length entries \<le> MAX_ACTIVE_ENTRIES" "res_fold active_step ([], []) entries = Inr (seen, [])"
    by (auto simp: active_violations_def active_step_def res_bind_eq_Inr split: if_splits)
  with active_fold [of "[]" "[]" entries seen] PList show ?thesis
    by (auto simp: MAX_ACTIVE_ENTRIES_def ROLES_def)
qed (use assms in \<open>simp_all add: active_violations_def\<close>)

lemma egress_violations_Nil:
  assumes "egress_violations egress = []"
  shows "\<exists>d. egress = PDict d \<and> slot_good egress \<and> one_in CHANGE_VALUES (pgetN d ''change'')
    \<and> (pgetN d ''ip'' = PNone \<or> pgetN d ''status'' = PStr ''ok'')"
proof (cases egress)
  case (PDict d)
  from assms PDict have v: "slot_violations ''egress'' (PDict (map (\<lambda>k. (PStr k, pgetN d k)) SLOT_KEYS)) = []"
    "one_in CHANGE_VALUES (pgetN d ''change'')" "pgetN d ''status'' = PStr ''ok'' \<or> pgetN d ''ip'' = PNone"
    by (auto simp: egress_violations_def split: if_splits)
  from slot_violations_Nil [OF v(1)] have "slot_good egress"
    by (simp add: slot_good_def PDict SLOT_KEYS_def pget_or_def)
  with v PDict show ?thesis by auto
qed (use assms in \<open>simp_all add: egress_violations_def\<close>)

lemma validate_sample_fields:
  assumes "validate_sample v = Inr []"
  obtains d where "v = PDict d" "exact_keys d SAMPLE_KEYS" "is_one (pgetN d ''v'')" "valid_probe_id (pgetN d ''probe_id'')"
    "valid_run (pgetN d ''run'')" "valid_seq (pgetN d ''seq'')" "valid_sample_epoch (pgetN d ''sample_epoch'') = Inr True"
    "slot_violations ''dns'' (pgetN d ''dns'') = []" "slot_violations ''https'' (pgetN d ''https'') = []"
    "slot_violations ''vps_tcp'' (pgetN d ''vps_tcp'') = []"
    "egress_violations (pgetN d ''egress'') = []" "mihomo_ok (pgetN d ''mihomo_api'')"
    "active_violations (pgetN d ''active'') = Inr []" "flags_violations (pgetN d ''flags'') = []"
proof (cases v)
  case (PDict d)
  with assms show ?thesis
    by (intro that [of d]) (auto simp: validate_sample_def res_bind_eq_Inr split: if_splits)
qed (use assms in \<open>simp_all add: validate_sample_def\<close>)

text \<open>
  C33: A sample that passes the gate is consistent evidence: its identity, run and sequence number follow the
  grammars, its time is a finite non-negative number, every measured slot is either a success with a latency and
  no error code or a failure with a code and no latency, an address is reported only with a successful egress
  test, and the active measurements are at most four, at most one for each role and source, each with a positive
  delay exactly when it succeeded.
\<close>

theorem accepted_sample_is_consistent:
  assumes "validate_sample v = Inr []"
  shows "\<exists>d entries. v = PDict d \<and> valid_probe_id (pgetN d ''probe_id'') \<and> valid_run (pgetN d ''run'') \<and> valid_seq (pgetN d ''seq'')
    \<and> valid_sample_epoch (pgetN d ''sample_epoch'') = Inr True
    \<and> slot_good (pgetN d ''dns'') \<and> slot_good (pgetN d ''https'') \<and> slot_good (pgetN d ''vps_tcp'') \<and> slot_good (pgetN d ''egress'')
    \<and> (pgetN (dict_items (pgetN d ''egress'')) ''ip'' = PNone \<or> pgetN (dict_items (pgetN d ''egress'')) ''status'' = PStr ''ok'')
    \<and> pgetN d ''active'' = PList entries \<and> length entries \<le> 4 \<and> list_all entry_good entries \<and> distinct (map entry_pair entries)"
proof -
  from assms obtain d where d: "v = PDict d" "valid_probe_id (pgetN d ''probe_id'')"
    "valid_run (pgetN d ''run'')" "valid_seq (pgetN d ''seq'')" "valid_sample_epoch (pgetN d ''sample_epoch'') = Inr True"
    "slot_violations ''dns'' (pgetN d ''dns'') = []" "slot_violations ''https'' (pgetN d ''https'') = []"
    "slot_violations ''vps_tcp'' (pgetN d ''vps_tcp'') = []"
    "egress_violations (pgetN d ''egress'') = []" "active_violations (pgetN d ''active'') = Inr []"
    by (rule validate_sample_fields)
  from active_violations_Nil [OF d(10)] obtain entries where
    "pgetN d ''active'' = PList entries" "length entries \<le> 4" "list_all entry_good entries" "distinct (map entry_pair entries)" by blast
  moreover from egress_violations_Nil [OF d(9)] have "slot_good (pgetN d ''egress'')"
    "pgetN (dict_items (pgetN d ''egress'')) ''ip'' = PNone \<or> pgetN (dict_items (pgetN d ''egress'')) ''status'' = PStr ''ok''"
    by auto
  ultimately show ?thesis using d slot_violations_Nil by blast
qed

definition slot_ok :: pyval where
  "slot_ok = PDict [(PStr ''status'', PStr ''ok''), (PStr ''latency_ms'', PInt 12), (PStr ''error_code'', PStr ''NONE'')]"

definition entry_ok :: "string \<Rightarrow> pyval \<Rightarrow> pyval" where
  "entry_ok source role = PDict [(PStr ''role'', role), (PStr ''source'', PStr source), (PStr ''outcome'', PStr ''ok''),
     (PStr ''delay_ms'', PInt 31), (PStr ''test_id'', PStr ''p6''), (PStr ''independent'', PBool True)]"

definition sample_of :: "pyval \<Rightarrow> pyval list \<Rightarrow> pyval" where
  "sample_of epoch active = PDict [(PStr ''v'', PInt 1), (PStr ''probe_id'', PStr ''office-1''), (PStr ''run'', PStr sample_run),
     (PStr ''seq'', PInt 7), (PStr ''sample_epoch'', epoch), (PStr ''dns'', slot_ok), (PStr ''https'', slot_ok), (PStr ''vps_tcp'', slot_ok),
     (PStr ''egress'', PDict [(PStr ''status'', PStr ''ok''), (PStr ''latency_ms'', PInt 40), (PStr ''error_code'', PStr ''NONE''),
        (PStr ''ip'', PStr ''192.0.2.7''), (PStr ''change'', PStr ''unchanged'')]),
     (PStr ''mihomo_api'', PDict [(PStr ''status'', PStr ''ok'')]), (PStr ''active'', PList active),
     (PStr ''flags'', PDict [(PStr ''truncated'', PBool False), (PStr ''source_unavailable'', PList [])])]"

definition good_sample :: pyval where
  "good_sample = sample_of (PFloat (Fin 1000)) [entry_ok ''active_delay'' (PStr ''reality''), entry_ok ''active_delay'' (PStr ''hy2'')]"

lemma good_sample_ok: "validate_sample good_sample = Inr []"
  by code_simp

theorem accepted_sample_is_consistent_witness:
  "\<exists>d entries. good_sample = PDict d \<and> pgetN d ''active'' = PList entries \<and> distinct (map entry_pair entries)"
  using accepted_sample_is_consistent [OF good_sample_ok] by blast

definition unhashable_entry :: "pyval \<Rightarrow> bool" where
  "unhashable_entry entry \<longleftrightarrow> (\<exists>d. entry = PDict d \<and> exact_keys d ACTIVE_KEYS
     \<and> \<not> (hashable (pgetN d ''role'') \<and> hashable (pgetN d ''source'')))"

definition unhashable_active :: "pyval \<Rightarrow> bool" where
  "unhashable_active active \<longleftrightarrow> (\<exists>entries. active = PList entries \<and> length entries \<le> 4 \<and> list_ex unhashable_entry entries)"

definition huge_epoch :: "pyval \<Rightarrow> bool" where
  "huge_epoch v \<longleftrightarrow> (\<exists>i. v = PInt i \<and> float_limit \<le> \<bar>i\<bar>)"

lemma entry_raises:
  "unhashable_entry entry \<Longrightarrow> entry_violations seen entry = Inl TypeError"
  "\<not> unhashable_entry entry \<Longrightarrow> \<exists>r. entry_violations seen entry = Inr r"
  by (auto simp: unhashable_entry_def entry_violations_def Let_def split: pyval.split)

lemma active_step_raises:
  "unhashable_entry entry \<Longrightarrow> active_step st entry = Inl TypeError"
  "\<not> unhashable_entry entry \<Longrightarrow> \<exists>st'. active_step st entry = Inr st'"
  using entry_raises [of entry "fst st"] by (auto simp: active_step_def case_prod_beta)

lemma active_fold_raises:
  "list_ex unhashable_entry entries \<Longrightarrow> res_fold active_step st entries = Inl TypeError"
  "\<not> list_ex unhashable_entry entries \<Longrightarrow> \<exists>st'. res_fold active_step st entries = Inr st'"
proof (induction entries arbitrary: st)
  case (Cons entry entries)
  { case 1
    then show ?case using Cons.IH active_step_raises [of entry st] by (cases "unhashable_entry entry") auto
  next
    case 2
    then show ?case using Cons.IH active_step_raises(2) [of entry st] by auto
  }
qed auto

lemma active_raises:
  "unhashable_active v \<Longrightarrow> active_violations v = Inl TypeError"
  "\<not> unhashable_active v \<Longrightarrow> \<exists>r. active_violations v = Inr r"
proof -
  have m: "MAX_ACTIVE_ENTRIES = 4" by (simp add: MAX_ACTIVE_ENTRIES_def ROLES_def)
  have u: "active_violations (PList entries) = (if 4 < length entries then Inr [''active: shape'']
      else res_bind (res_fold active_step ([], []) entries) (\<lambda>(_, problems). Inr problems))" for entries
    by (simp add: active_violations_def active_step_def m)
  { assume "unhashable_active v"
    then show "active_violations v = Inl TypeError"
      by (auto simp: unhashable_active_def u active_fold_raises)
  next
    assume n: "\<not> unhashable_active v"
    show "\<exists>r. active_violations v = Inr r"
    proof (cases v)
      case (PList entries)
      with n show ?thesis using active_fold_raises(2) [of entries "([], [])"]
        by (cases "4 < length entries") (auto simp: unhashable_active_def u)
    qed (simp_all add: active_violations_def)
  }
qed

lemma epoch_raises:
  "huge_epoch v \<Longrightarrow> valid_sample_epoch v = Inl OverflowError"
  "\<not> huge_epoch v \<Longrightarrow> \<exists>b. valid_sample_epoch v = Inr b"
  by (auto simp: huge_epoch_def valid_sample_epoch_def int_to_float_def split: pyval.split pyfloat.split)

text \<open>
  The gate is not total, although its documentation says so: on a dictionary with the right keys it raises
  \<open>OverflowError\<close> exactly when the sample time is an integer beyond the range of a \<open>float\<close>, and otherwise
  \<open>TypeError\<close> exactly when one of at most four well-shaped active entries has a list or an object as its
  role or source; on everything else it returns a list of problems.
\<close>

theorem gate_raises_exactly:
  "validate_sample v = Inl e \<longleftrightarrow> (\<exists>d. v = PDict d \<and> exact_keys d SAMPLE_KEYS
     \<and> (if huge_epoch (pgetN d ''sample_epoch'') then e = OverflowError
        else unhashable_active (pgetN d ''active'') \<and> e = TypeError))"
proof (cases v)
  case (PDict d)
  show ?thesis
    using epoch_raises [of "pgetN d ''sample_epoch''"] active_raises [of "pgetN d ''active''"]
    by (cases "huge_epoch (pgetN d ''sample_epoch'')"; cases "unhashable_active (pgetN d ''active'')")
      (auto simp: PDict validate_sample_def)
qed (simp_all add: validate_sample_def)

lemma gate_raises:
  "validate_sample (sample_of (PInt (10 ^ 400)) []) = Inl OverflowError"
  "validate_sample (sample_of (PInt 1000) [entry_ok ''active_delay'' (PList [])]) = Inl TypeError"
  by code_simp+

end
