(* ===== verification/Spool.thy ===== *)
theory Spool
  imports Sample Store
begin

text \<open>
  The agent's durable queue (\<open>monitor-v2/remote_probe/spool.py\<close>): a chain of files of record lines, oldest first, and a
  state file with the cursor and the retry counts. Files are byte strings; what a failing write, a failing
  synchronisation or a failing state save leaves behind is an outcome of the call. \<open>SpoolError\<close> and \<open>OSError\<close> are
  handled alike by every caller and are one exception here. JSON and base64 are arguments.
\<close>

section \<open>Records\<close>

abbreviation SpoolError :: "string \<Rightarrow> exn" where "SpoolError \<equiv> OSError"

definition RECORD_MAX_BYTES :: nat where "RECORD_MAX_BYTES = MAX_BODY_BYTES * 2"
definition QUARANTINE_MAX_ENTRIES :: nat where "QUARANTINE_MAX_ENTRIES = 512"
definition MAX_TRACKED_RETRIES :: nat where "MAX_TRACKED_RETRIES = 4096"

definition QUARANTINE_TOKENS :: "string list" where
  "QUARANTINE_TOKENS = [''malformed_2xx'', ''redirect'', ''client_error'', ''oversize'', ''unknown_response'']"

record spool_limits =
  sx_max_age :: rat
  sx_max_bytes :: nat
  sx_max_files :: nat
  sx_file_bytes :: nat

definition default_limits :: spool_limits where
  "default_limits = \<lparr>sx_max_age = 7 * 86400, sx_max_bytes = 32 * 1024 * 1024, sx_max_files = 4,
     sx_file_bytes = 32 * 1024 * 1024 div 4 - MAX_BODY_BYTES * 2\<rparr>"

record spool_codec =
  sc_dumps :: "pyval \<Rightarrow> string"
  sc_loads :: "string \<Rightarrow> pyval option"
  sc_b64e :: "string \<Rightarrow> string"
  sc_b64d :: "string \<Rightarrow> string option"

record queued =
  q_id :: int
  q_probe :: string
  q_run :: string
  q_seq :: int
  q_epoch :: pyfloat
  q_body :: string

text \<open>
  A time stamp as a float; an integer that no float can hold, which is never written, counts as unreadable.
\<close>

definition epoch_float :: "pyval \<Rightarrow> pyfloat option" where
  "epoch_float v = (case v of PInt i \<Rightarrow> (case int_to_float i of Inr q \<Rightarrow> Some (Fin q) | Inl _ \<Rightarrow> None) | PFloat f \<Rightarrow> Some f | _ \<Rightarrow> None)"

definition record_of :: "spool_codec \<Rightarrow> obj \<Rightarrow> queued option" where
  "record_of sc d =
     (case (pgetN d ''body_b64'', pgetN d ''record_id'', pgetN d ''seq'', epoch_float (pgetN d ''queued_epoch''), pgetN d ''probe_id'', pgetN d ''run'') of
        (PStr b, PInt i, PInt s, Some e, PStr p, PStr r) \<Rightarrow>
          (case sc_b64d sc b of
             Some body \<Rightarrow> if i < 1 then None
               else Some \<lparr>q_id = i, q_probe = p, q_run = r, q_seq = s, q_epoch = e, q_body = body\<rparr>
           | None \<Rightarrow> None)
      | _ \<Rightarrow> None)"

definition decode_record :: "spool_codec \<Rightarrow> string \<Rightarrow> queued option" where
  "decode_record sc line = (case sc_loads sc line of Some (PDict d) \<Rightarrow> record_of sc d | _ \<Rightarrow> None)"

definition recover_record_id :: "spool_codec \<Rightarrow> string \<Rightarrow> int option" where
  "recover_record_id sc line =
     (case sc_loads sc line of
        Some (PDict d) \<Rightarrow> (case pgetN d ''record_id'' of PInt i \<Rightarrow> if i < 1 then None else Some i | _ \<Rightarrow> None)
      | _ \<Rightarrow> None)"

text \<open>The count at opening; the scan before it has refused every line whose identifier is not a positive integer.\<close>

definition record_id_unresolved :: "spool_codec \<Rightarrow> string \<Rightarrow> int \<Rightarrow> bool" where
  "record_id_unresolved sc line resolved = (case recover_record_id sc line of Some i \<Rightarrow> resolved < i | None \<Rightarrow> True)"

definition record_value :: "spool_codec \<Rightarrow> queued \<Rightarrow> pyval" where
  "record_value sc q = PDict [(PStr ''v'', PInt 1), (PStr ''record_id'', PInt (q_id q)), (PStr ''probe_id'', PStr (q_probe q)),
     (PStr ''run'', PStr (q_run q)), (PStr ''seq'', PInt (q_seq q)), (PStr ''queued_epoch'', PFloat (q_epoch q)),
     (PStr ''body_b64'', PStr (sc_b64e sc (q_body q)))]"

section \<open>Lines\<close>

definition LF :: char where "LF = CHR 0x0A"
definition CR :: char where "CR = CHR 0x0D"

text \<open>\<open>bytes.splitlines\<close>: at line feeds, carriage returns and the two together; no last empty line.\<close>

function split_lines :: "string \<Rightarrow> string \<Rightarrow> string list" where
  "split_lines part [] = (if part = [] then [] else [part])"
| "split_lines part (c # cs) =
     (if c = LF then part # split_lines [] cs
      else if c = CR then part # split_lines [] (case cs of [] \<Rightarrow> [] | x # rest \<Rightarrow> if x = LF then rest else cs)
      else split_lines (part @ [c]) cs)"
  by pat_completeness auto
termination
  by (relation "measure (length o snd)") (auto split: list.split)

definition lines_of :: "string \<Rightarrow> string list" where
  "lines_of s = filter (\<lambda>line. line \<noteq> []) (split_lines [] s)"

section \<open>The state\<close>

record cursor =
  cu_next :: int
  cu_resolved :: int
  cu_acknowledged :: int
  cu_quarantined :: int
  cu_expired :: int
  cu_dropped :: int
  cu_corrupt :: int
  cu_save_failures :: int
  cu_reconciled :: int
  cu_attempts :: "(string, int) dict"
  cu_quarantine :: "pyval list"

definition first_cursor :: cursor where
  "first_cursor = \<lparr>cu_next = 1, cu_resolved = 0, cu_acknowledged = 0, cu_quarantined = 0, cu_expired = 0, cu_dropped = 0,
     cu_corrupt = 0, cu_save_failures = 0, cu_reconciled = 0, cu_attempts = [], cu_quarantine = []\<rparr>"

text \<open>The state file by its parsed content.\<close>

datatype state_file = NoState | BadState | StateFile pyval

record spool =
  sp_open :: bool
  sp_cursor :: cursor
  sp_file :: state_file
  sp_rotated :: "nat \<Rightarrow> string option"
  sp_current :: "string option"

definition cursor_value :: "cursor \<Rightarrow> pyval" where
  "cursor_value c = PDict [(PStr ''next_record_id'', PInt (cu_next c)), (PStr ''resolved_through'', PInt (cu_resolved c)),
     (PStr ''acknowledged_total'', PInt (cu_acknowledged c)), (PStr ''quarantined_total'', PInt (cu_quarantined c)),
     (PStr ''expired_total'', PInt (cu_expired c)), (PStr ''budget_dropped_total'', PInt (cu_dropped c)),
     (PStr ''corrupt_total'', PInt (cu_corrupt c)), (PStr ''state_save_failures'', PInt (cu_save_failures c)),
     (PStr ''reconciled_ids'', PInt (cu_reconciled c)),
     (PStr ''retry_attempts'', PDict (map (\<lambda>(k, n). (PStr k, PInt n)) (cu_attempts c))),
     (PStr ''quarantine'', PList (cu_quarantine c))]"

definition last_of :: "nat \<Rightarrow> 'a list \<Rightarrow> 'a list" where
  "last_of n xs = drop (length xs - n) xs"

definition counter_field :: "obj \<Rightarrow> string \<Rightarrow> int \<Rightarrow> int res" where
  "counter_field d k present =
     (case pgetN d k of
        PNone \<Rightarrow> Inr present
      | PInt i \<Rightarrow> if i < 0 then Inl (SpoolError ''spool state field'') else Inr i
      | _ \<Rightarrow> Inl (SpoolError ''spool state field''))"

fun attempt_item :: "pyval \<times> pyval \<Rightarrow> (string \<times> int) list" where
  "attempt_item (PStr k, PInt n) = (if k \<noteq> [] \<and> list_all is_digit k \<and> 0 < n then [(k, n)] else [])"
| "attempt_item _ = []"

definition load_state :: "spool \<Rightarrow> cursor res" where
  "load_state sp =
     (let c = sp_cursor sp in
      case sp_file sp of
        NoState \<Rightarrow> Inr c
      | StateFile (PDict d) \<Rightarrow>
          res_bind (counter_field d ''next_record_id'' (cu_next c)) (\<lambda>n.
          res_bind (counter_field d ''resolved_through'' (cu_resolved c)) (\<lambda>r.
          res_bind (counter_field d ''acknowledged_total'' (cu_acknowledged c)) (\<lambda>a.
          res_bind (counter_field d ''quarantined_total'' (cu_quarantined c)) (\<lambda>q.
          res_bind (counter_field d ''expired_total'' (cu_expired c)) (\<lambda>x.
          res_bind (counter_field d ''budget_dropped_total'' (cu_dropped c)) (\<lambda>b.
          res_bind (counter_field d ''corrupt_total'' (cu_corrupt c)) (\<lambda>k.
          res_bind (counter_field d ''state_save_failures'' (cu_save_failures c)) (\<lambda>f.
          res_bind (counter_field d ''reconciled_ids'' (cu_reconciled c)) (\<lambda>i.
            Inr \<lparr>cu_next = n, cu_resolved = r, cu_acknowledged = a, cu_quarantined = q, cu_expired = x, cu_dropped = b, cu_corrupt = k,
              cu_save_failures = f, cu_reconciled = i,
              cu_attempts = (case pgetN d ''retry_attempts'' of
                  PDict items \<Rightarrow> last_of MAX_TRACKED_RETRIES (concat (map attempt_item items)) | _ \<Rightarrow> cu_attempts c),
              cu_quarantine = (case pgetN d ''quarantine'' of
                  PList entries \<Rightarrow> filter (\<lambda>e. is_dict e \<and> one_in QUARANTINE_TOKENS (pgetN (dict_items e) ''token''))
                                   (last_of QUARANTINE_MAX_ENTRIES entries)
                | _ \<Rightarrow> cu_quarantine c)\<rparr>)))))))))
      | _ \<Rightarrow> Inl (SpoolError ''spool state unreadable''))"

text \<open>A save replaces the file or fails; it may also have replaced the file and fail afterwards.\<close>

definition save_state :: "commit \<Rightarrow> spool \<Rightarrow> bool \<times> spool" where
  "save_state w sp =
     (let saved = sp\<lparr>sp_file := StateFile (cursor_value (sp_cursor sp))\<rparr> in
      case w of Landed \<Rightarrow> (True, saved) | RolledBack \<Rightarrow> (False, sp) | LandedUnseen \<Rightarrow> (False, saved))"

definition with_cursor :: "(cursor \<Rightarrow> cursor) \<Rightarrow> spool \<Rightarrow> spool" where
  "with_cursor f sp = sp\<lparr>sp_cursor := f (sp_cursor sp)\<rparr>"

definition save_soft :: "commit \<Rightarrow> spool \<Rightarrow> spool" where
  "save_soft w sp = (let (ok, sp') = save_state w sp in
     if ok then sp' else with_cursor (\<lambda>c. c\<lparr>cu_save_failures := cu_save_failures c + 1\<rparr>) sp')"

section \<open>The chain\<close>

definition rotated_indices :: "spool_limits \<Rightarrow> nat list" where
  "rotated_indices L = rev [1 ..< Suc (sx_max_files L)]"

text \<open>The members oldest first; a read stops at four times the size of a file.\<close>

definition chain :: "spool_limits \<Rightarrow> spool \<Rightarrow> string list" where
  "chain L sp = List.map_filter (sp_rotated sp) (rotated_indices L) @ [case sp_current sp of None \<Rightarrow> [] | Some s \<Rightarrow> s]"

definition read_member :: "spool_limits \<Rightarrow> string \<Rightarrow> string" where
  "read_member L s = take (sx_file_bytes L * 4) s"

definition chain_lines :: "spool_limits \<Rightarrow> spool \<Rightarrow> string list" where
  "chain_lines L sp = concat (map (\<lambda>s. lines_of (read_member L s)) (chain L sp))"

text \<open>The scan: the readable records, the highest identifier and the first unresolved unreadable one (0 if none).\<close>

record scan =
  sn_found :: "queued list"
  sn_last :: int
  sn_blocked :: int

definition scan_line :: "spool_codec \<Rightarrow> int \<Rightarrow> scan \<Rightarrow> string \<Rightarrow> scan res" where
  "scan_line sc resolved s line =
     (case decode_record sc line of
        None \<Rightarrow>
          (case recover_record_id sc line of
             None \<Rightarrow> Inl (SpoolError ''corrupt record without a recoverable id'')
           | Some i \<Rightarrow>
               if i \<le> sn_last s then Inl (SpoolError ''duplicate or non-monotonic record id'')
               else Inr (s\<lparr>sn_last := i, sn_blocked := (if resolved < i then (if sn_blocked s = 0 then i else min (sn_blocked s) i) else sn_blocked s)\<rparr>))
      | Some q \<Rightarrow>
          if q_id q \<le> sn_last s then Inl (SpoolError ''duplicate or non-monotonic record id'')
          else Inr (s\<lparr>sn_found := sn_found s @ [q], sn_last := q_id q\<rparr>))"

definition scan_records :: "spool_limits \<Rightarrow> spool_codec \<Rightarrow> spool \<Rightarrow> scan res" where
  "scan_records L sc sp =
     res_fold (scan_line sc (cu_resolved (sp_cursor sp))) \<lparr>sn_found = [], sn_last = 0, sn_blocked = 0\<rparr> (chain_lines L sp)"

definition before_block :: "int \<Rightarrow> queued list \<Rightarrow> queued list" where
  "before_block blocked qs = takeWhile (\<lambda>q. \<not> (blocked \<noteq> 0 \<and> blocked \<le> q_id q)) qs"

definition pending :: "spool_limits \<Rightarrow> spool_codec \<Rightarrow> spool \<Rightarrow> queued list res" where
  "pending L sc sp =
     (let resolved = cu_resolved (sp_cursor sp) in
      res_bind (scan_records L sc sp) (\<lambda>s.
        let ready = filter (\<lambda>q. resolved < q_id q) (before_block (sn_blocked s) (sn_found s)) in
        if sn_blocked s \<noteq> 0 \<and> resolved < sn_blocked s \<and> ready = [] then Inl (SpoolError ''unresolved corrupt record blocks the queue'')
        else Inr ready))"

section \<open>Opening\<close>

definition repair_tail :: "spool_limits \<Rightarrow> spool \<Rightarrow> spool" where
  "repair_tail L sp =
     (case sp_current sp of
        None \<Rightarrow> sp
      | Some s \<Rightarrow>
          (let data = read_member L s in
           if data = [] \<or> last data = LF then sp
           else sp\<lparr>sp_current := Some (rev (dropWhile (\<lambda>c. c \<noteq> LF) (rev data)))\<rparr>))"

definition reconcile_ids :: "spool_limits \<Rightarrow> spool_codec \<Rightarrow> commit \<Rightarrow> spool \<Rightarrow> spool res" where
  "reconcile_ids L sc w sp =
     res_bind (scan_records L sc sp) (\<lambda>s.
       let highest = max (if sn_found s = [] then 0 else q_id (last (sn_found s))) (sn_last s);
           sp' = (if cu_next (sp_cursor sp) < highest + 1
                  then save_soft w (with_cursor (\<lambda>c. c\<lparr>cu_reconciled := cu_reconciled c + 1, cu_next := highest + 1\<rparr>) sp) else sp);
           live = map (\<lambda>q. int_str (q_id q)) (filter (\<lambda>q. cu_resolved (sp_cursor sp) < q_id q) (sn_found s))
       in Inr (with_cursor (\<lambda>c. c\<lparr>cu_attempts := filter (\<lambda>(k, _). k \<in> set live) (cu_attempts c)\<rparr>) sp'))"

definition count_corrupt :: "spool_limits \<Rightarrow> spool_codec \<Rightarrow> commit \<Rightarrow> spool \<Rightarrow> spool" where
  "count_corrupt L sc w sp =
     (let n = length (filter (\<lambda>line. decode_record sc line = None \<and> record_id_unresolved sc line (cu_resolved (sp_cursor sp))) (chain_lines L sp)) in
      if n = 0 then sp else save_soft w (with_cursor (\<lambda>c. c\<lparr>cu_corrupt := cu_corrupt c + int n\<rparr>) sp))"

definition open_spool :: "spool_limits \<Rightarrow> spool_codec \<Rightarrow> commit \<Rightarrow> commit \<Rightarrow> spool \<Rightarrow> spool res" where
  "open_spool L sc w1 w2 sp =
     res_bind (load_state sp) (\<lambda>c.
     res_bind (reconcile_ids L sc w1 (repair_tail L (sp\<lparr>sp_cursor := c\<rparr>))) (\<lambda>sp'.
     Inr ((count_corrupt L sc w2 sp')\<lparr>sp_open := True\<rparr>)))"

section \<open>Appending\<close>

text \<open>
  A write lands whole and is synchronised, is cut after some bytes, or lands whole and is not synchronised; the last
  two raise.
\<close>

datatype write_outcome = Written | Torn nat | Unsynced

definition rotate :: "spool_limits \<Rightarrow> spool \<Rightarrow> spool" where
  "rotate L sp =
     (let shifted = foldl (\<lambda>files i. case files i of None \<Rightarrow> files | Some s \<Rightarrow> files(Suc i := Some s, i := None))
                      (sp_rotated sp) (rev [1 ..< sx_max_files L]);
          sp' = (if shifted (sx_max_files L) \<noteq> None then with_cursor (\<lambda>c. c\<lparr>cu_dropped := cu_dropped c + 1\<rparr>) sp else sp)
      in sp'\<lparr>sp_rotated := shifted(sx_max_files L := None, 1 := sp_current sp), sp_current := None\<rparr>)"

definition append_line :: "spool_limits \<Rightarrow> write_outcome \<Rightarrow> string \<Rightarrow> spool \<Rightarrow> bool \<times> spool" where
  "append_line L w line sp =
     (let sp' = (case sp_current sp of
            Some s \<Rightarrow> if sx_file_bytes L < length s + length line then rotate L sp else sp
          | None \<Rightarrow> sp);
          old = (case sp_current sp' of None \<Rightarrow> [] | Some s \<Rightarrow> s)
      in case w of
           Written \<Rightarrow> (True, sp'\<lparr>sp_current := Some (old @ line)\<rparr>)
         | Torn k \<Rightarrow> (False, sp'\<lparr>sp_current := Some (old @ take k line)\<rparr>)
         | Unsynced \<Rightarrow> (False, sp'\<lparr>sp_current := Some (old @ line)\<rparr>))"

definition record_line :: "spool_codec \<Rightarrow> queued \<Rightarrow> string" where
  "record_line sc q = sc_dumps sc (record_value sc q) @ [LF]"

definition append_record :: "spool_limits \<Rightarrow> spool_codec \<Rightarrow> write_outcome \<Rightarrow> commit \<Rightarrow> string \<Rightarrow> string \<Rightarrow> int \<Rightarrow> string \<Rightarrow> rat \<Rightarrow> spool
    \<Rightarrow> int res \<times> spool" where
  "append_record L sc w saved probe run seq body epoch sp =
     (if \<not> sp_open sp then (Inl (SpoolError ''spool not open''), sp)
      else if MAX_BODY_BYTES < length body then (Inl (SpoolError ''body bytes out of bounds''), sp)
      else (let i = cu_next (sp_cursor sp);
                line = record_line sc \<lparr>q_id = i, q_probe = probe, q_run = run, q_seq = seq, q_epoch = Fin epoch, q_body = body\<rparr>
            in if RECORD_MAX_BYTES < length line then (Inl (SpoolError ''record exceeds spool record bound''), sp)
               else (case append_line L w line sp of
                       (False, sp') \<Rightarrow> (Inl (SpoolError ''append''), sp')
                     | (True, sp') \<Rightarrow> (Inr i, save_soft saved (with_cursor (\<lambda>c. c\<lparr>cu_next := i + 1\<rparr>) sp')))))"

section \<open>Attempts and terminal states\<close>

definition attempts :: "int \<Rightarrow> spool \<Rightarrow> int" where
  "attempts i sp = (case dict_get (cu_attempts (sp_cursor sp)) (int_str i) of None \<Rightarrow> 0 | Some n \<Rightarrow> n)"

text \<open>The attempt is charged durably or not at all.\<close>

definition note_attempt :: "commit \<Rightarrow> int \<Rightarrow> spool \<Rightarrow> int res \<times> spool" where
  "note_attempt w i sp =
     (let n = attempts i sp + 1;
          charged = with_cursor (\<lambda>c. c\<lparr>cu_attempts := last_of MAX_TRACKED_RETRIES (dict_set (int_str i) n (cu_attempts c))\<rparr>) sp;
          (ok, sp') = save_state w charged
      in if ok then (Inr n, sp')
         else (Inl (SpoolError ''retry attempt count is not durable''),
               sp'\<lparr>sp_cursor := (sp_cursor sp)\<lparr>cu_save_failures := cu_save_failures (sp_cursor sp) + 1\<rparr>\<rparr>))"

definition ledger_entry :: "string \<Rightarrow> int \<Rightarrow> rat \<Rightarrow> pyval" where
  "ledger_entry token i now = PDict [(PStr ''token'', PStr token), (PStr ''record_id'', PInt i), (PStr ''epoch'', PFloat (Fin now))]"

definition resolve :: "commit \<Rightarrow> rat \<Rightarrow> int \<Rightarrow> string option \<Rightarrow> spool \<Rightarrow> bool res \<times> spool" where
  "resolve w now i token sp =
     (if i \<le> 0 then (Inl (SpoolError ''record id''), sp)
      else if i \<le> cu_resolved (sp_cursor sp) then (Inr False, sp)
      else (let ended = with_cursor (\<lambda>c. c\<lparr>cu_resolved := i, cu_attempts := dict_del (int_str i) (cu_attempts c)\<rparr>) sp in
            case token of
              None \<Rightarrow> (Inr True, save_soft w (with_cursor (\<lambda>c. c\<lparr>cu_acknowledged := cu_acknowledged c + 1\<rparr>) ended))
            | Some t \<Rightarrow>
                if t \<notin> set QUARANTINE_TOKENS then (Inl (SpoolError ''quarantine token must be closed''), ended)
                else (Inr True, save_soft w (with_cursor (\<lambda>c. c\<lparr>cu_quarantined := cu_quarantined c + 1,
                       cu_quarantine := last_of QUARANTINE_MAX_ENTRIES (cu_quarantine c @ [ledger_entry t i now])\<rparr>) ended))))"

section \<open>Bounds\<close>

text \<open>The identifier a line occupies, readable or not, and the lines of one member that compaction keeps.\<close>

definition line_id :: "spool_codec \<Rightarrow> string \<Rightarrow> int option" where
  "line_id sc line = (case decode_record sc line of Some q \<Rightarrow> Some (q_id q) | None \<Rightarrow> recover_record_id sc line)"

fun kept_lines :: "spool_codec \<Rightarrow> int \<Rightarrow> string list \<Rightarrow> string list res" where
  "kept_lines sc resolved [] = Inr []"
| "kept_lines sc resolved (line # rest) =
     (case line_id sc line of
        None \<Rightarrow> Inl (SpoolError ''corrupt record without a recoverable id'')
      | Some i \<Rightarrow> res_bind (kept_lines sc resolved rest) (\<lambda>keep. Inr (if i \<le> resolved then keep else line # keep)))"

definition unlines_of :: "string list \<Rightarrow> string" where
  "unlines_of keep = concat (map (\<lambda>line. line @ [LF]) keep)"

definition compact_rotated :: "spool_limits \<Rightarrow> spool_codec \<Rightarrow> unit res \<times> spool \<Rightarrow> nat \<Rightarrow> unit res \<times> spool" where
  "compact_rotated L sc acc i =
     (case acc of
        (Inl e, sp) \<Rightarrow> (Inl e, sp)
      | (Inr _, sp) \<Rightarrow>
          (case sp_rotated sp i of
             None \<Rightarrow> (Inr (), sp)
           | Some s \<Rightarrow>
               (case kept_lines sc (cu_resolved (sp_cursor sp)) (lines_of (read_member L s)) of
                  Inl e \<Rightarrow> (Inl e, sp)
                | Inr keep \<Rightarrow> (Inr (), sp\<lparr>sp_rotated := (sp_rotated sp)(i := (if keep = [] then None else Some (unlines_of keep)))\<rparr>))))"

definition compact :: "spool_limits \<Rightarrow> spool_codec \<Rightarrow> spool \<Rightarrow> unit res \<times> spool" where
  "compact L sc sp =
     (case foldl (compact_rotated L sc) (Inr (), sp) (rotated_indices L) of
        (Inl e, sp') \<Rightarrow> (Inl e, sp')
      | (Inr _, sp') \<Rightarrow>
          (case sp_current sp' of
             None \<Rightarrow> (Inr (), sp')
           | Some s \<Rightarrow>
               (case kept_lines sc (cu_resolved (sp_cursor sp')) (lines_of (read_member L s)) of
                  Inl e \<Rightarrow> (Inl e, sp')
                | Inr keep \<Rightarrow> (Inr (), sp'\<lparr>sp_current := Some (unlines_of keep)\<rparr>))))"

definition physical_bytes :: "spool_limits \<Rightarrow> spool \<Rightarrow> nat" where
  "physical_bytes L sp = sum_list (map length (chain L sp))"

definition aged :: "rat \<Rightarrow> rat \<Rightarrow> pyfloat \<Rightarrow> bool" where
  "aged max_age now e = (case e of Fin q \<Rightarrow> max_age < now - q | Infinite positive \<Rightarrow> \<not> positive | NaN \<Rightarrow> False)"

definition expire_step :: "rat \<Rightarrow> rat \<Rightarrow> cursor \<Rightarrow> queued \<Rightarrow> cursor" where
  "expire_step max_age now c q =
     (if aged max_age now (q_epoch q) then c\<lparr>cu_resolved := q_id q, cu_expired := cu_expired c + 1\<rparr> else c)"

text \<open>The byte budget: resolve the oldest record, compact, measure, and refuse when nothing is freed.\<close>

function shed :: "spool_limits \<Rightarrow> spool_codec \<Rightarrow> commit \<Rightarrow> spool \<Rightarrow> unit res \<times> spool" where
  "shed L sc w sp =
     (if physical_bytes L sp \<le> sx_max_bytes L then (Inr (), sp)
      else case scan_records L sc sp of
          Inl e \<Rightarrow> (Inl e, sp)
        | Inr s \<Rightarrow>
            (case filter (\<lambda>q. cu_resolved (sp_cursor sp) < q_id q \<and> \<not> (sn_blocked s \<noteq> 0 \<and> sn_blocked s \<le> q_id q)) (sn_found s) of
               [] \<Rightarrow> (Inl (SpoolError ''byte budget''), save_soft w sp)
             | q # _ \<Rightarrow>
                 (case compact L sc (with_cursor (\<lambda>c. c\<lparr>cu_resolved := q_id q, cu_dropped := cu_dropped c + 1\<rparr>) sp) of
                    (Inl e, sp') \<Rightarrow> (Inl e, sp')
                  | (Inr _, sp') \<Rightarrow>
                      if physical_bytes L sp \<le> physical_bytes L sp' then (Inl (SpoolError ''byte budget''), save_soft w sp')
                      else shed L sc w sp')))"
  by pat_completeness auto
termination
  by (relation "measure (\<lambda>(L, sc, w, sp). physical_bytes L sp)") simp_all

declare shed.simps [simp del]

definition expire :: "spool_limits \<Rightarrow> rat \<Rightarrow> scan \<Rightarrow> spool \<Rightarrow> spool" where
  "expire L now s sp = with_cursor (\<lambda>c. foldl (expire_step (sx_max_age L) now) c
     (filter (\<lambda>q. cu_resolved (sp_cursor sp) < q_id q) (before_block (sn_blocked s) (sn_found s)))) sp"

definition enforce_bounds :: "spool_limits \<Rightarrow> spool_codec \<Rightarrow> commit \<Rightarrow> rat \<Rightarrow> spool \<Rightarrow> unit res \<times> spool" where
  "enforce_bounds L sc w now sp =
     (case compact L sc sp of
        (Inl e, sp1) \<Rightarrow> (Inl e, sp1)
      | (Inr _, sp1) \<Rightarrow>
          (case scan_records L sc sp1 of
             Inl e \<Rightarrow> (Inl e, sp1)
           | Inr s \<Rightarrow>
               (case shed L sc w (expire L now s sp1) of
                  (Inl e, sp2) \<Rightarrow> (Inl e, sp2)
                | (Inr _, sp2) \<Rightarrow> compact L sc (save_soft w sp2))))"

section \<open>Status\<close>

definition float_less :: "pyfloat \<Rightarrow> pyfloat \<Rightarrow> bool" where
  "float_less a b = (case (a, b) of (Fin p, Fin q) \<Rightarrow> p < q | (Fin _, Infinite positive) \<Rightarrow> positive | (Infinite positive, Fin _) \<Rightarrow> \<not> positive
     | (Infinite p, Infinite q) \<Rightarrow> \<not> p \<and> q | _ \<Rightarrow> False)"

fun least_float :: "pyfloat list \<Rightarrow> pyfloat option" where
  "least_float [] = None"
| "least_float (e # es) = Some (foldl (\<lambda>m x. if float_less x m then x else m) e es)"

record spool_status =
  st_pending :: nat
  st_pending_bytes :: nat
  st_oldest :: "pyfloat option"
  st_resolved :: int
  st_acknowledged :: int
  st_quarantined :: int
  st_expired :: int
  st_dropped :: int
  st_corrupt :: int
  st_save_failures :: int
  st_reconciled :: int
  st_tracked :: nat
  st_blocked :: bool

definition spool_status_of :: "spool_limits \<Rightarrow> spool_codec \<Rightarrow> spool \<Rightarrow> spool_status" where
  "spool_status_of L sc sp =
     (let c = sp_cursor sp; ready = (case pending L sc sp of Inl _ \<Rightarrow> [] | Inr qs \<Rightarrow> qs) in
      \<lparr>st_pending = length ready, st_pending_bytes = sum_list (map (\<lambda>q. length (q_body q)) ready),
       st_oldest = least_float (map q_epoch ready), st_resolved = cu_resolved c, st_acknowledged = cu_acknowledged c, st_quarantined = cu_quarantined c,
       st_expired = cu_expired c, st_dropped = cu_dropped c, st_corrupt = cu_corrupt c, st_save_failures = cu_save_failures c,
       st_reconciled = cu_reconciled c, st_tracked = length (cu_attempts c),
       st_blocked = (case pending L sc sp of Inl _ \<Rightarrow> True | Inr _ \<Rightarrow> False)\<rparr>)"

section \<open>Lines and members\<close>

lemma split_plain: "LF \<notin> set line \<Longrightarrow> CR \<notin> set line \<Longrightarrow> split_lines part line = (if part @ line = [] then [] else [part @ line])"
  by (induction line arbitrary: part) auto

lemma split_plain_LF: "LF \<notin> set line \<Longrightarrow> CR \<notin> set line \<Longrightarrow> split_lines part (line @ [LF]) = [part @ line]"
  by (induction line arbitrary: part) auto

lemma LF_CR [simp]: "LF \<noteq> CR" "CR \<noteq> LF"
  by (simp_all add: LF_def CR_def)

lemma split_CR: "split_lines part (CR # x # rest) = part # split_lines [] (if x = LF then rest else x # rest)"
  by (subst split_lines.simps) simp

lemma split_append: "split_lines part (a @ LF # b) = split_lines part (a @ [LF]) @ split_lines [] b"
proof (induction "length a" arbitrary: a part rule: less_induct)
  case less
  show ?case
  proof (cases a)
    case Nil
    then show ?thesis by simp
  next
    case (Cons c cs)
    show ?thesis
    proof (cases "c = CR")
      case True
      show ?thesis
      proof (cases cs)
        case Nil
        then show ?thesis by (simp add: Cons True LF_def CR_def)
      next
        case inner: (Cons x rest)
        have "split_lines [] (rest @ LF # b) = split_lines [] (rest @ [LF]) @ split_lines [] b"
          "split_lines [] (cs @ LF # b) = split_lines [] (cs @ [LF]) @ split_lines [] b"
          using less [of rest] less [of cs] Cons inner by (simp_all only: list.size)
        then show ?thesis by (cases "x = LF") (simp_all only: Cons True inner append_Cons split_CR if_True if_False simp_thms)
      qed
    next
      case False
      then show ?thesis using less [of cs] Cons by simp
    qed
  qed
qed

text \<open>A member without a fragment: empty, or ending with a line feed.\<close>

definition ended :: "string \<Rightarrow> bool" where
  "ended s \<longleftrightarrow> s = [] \<or> last s = LF"

lemma lines_of_append:
  assumes "ended s"
  shows "lines_of (s @ b) = lines_of s @ lines_of b"
proof (cases "s = []")
  case False
  with assms obtain a where "s = a @ [LF]" by (metis append_butlast_last_id ended_def)
  then show ?thesis using split_append [of "[]" a b] by (simp add: lines_of_def)
qed (simp add: lines_of_def)

lemma lines_of_plain: "line \<noteq> [] \<Longrightarrow> LF \<notin> set line \<Longrightarrow> CR \<notin> set line \<Longrightarrow> lines_of (line @ [LF]) = [line]"
  by (simp add: lines_of_def split_plain_LF)

lemma lines_of_fragment: "line \<noteq> [] \<Longrightarrow> LF \<notin> set line \<Longrightarrow> CR \<notin> set line \<Longrightarrow> lines_of line = [line]"
  by (simp add: lines_of_def split_plain)

lemma split_lines_clean: "LF \<notin> set part \<Longrightarrow> CR \<notin> set part \<Longrightarrow> line \<in> set (split_lines part s) \<Longrightarrow> LF \<notin> set line \<and> CR \<notin> set line"
  by (induction part s rule: split_lines.induct) (auto split: if_splits)

lemma lines_of_clean: "line \<in> set (lines_of s) \<Longrightarrow> line \<noteq> [] \<and> LF \<notin> set line \<and> CR \<notin> set line"
  by (auto simp: lines_of_def dest: split_lines_clean [rotated 2])

lemma lines_of_unlines: "(\<And>line. line \<in> set keep \<Longrightarrow> line \<noteq> [] \<and> LF \<notin> set line \<and> CR \<notin> set line) \<Longrightarrow> lines_of (unlines_of keep) = keep"
proof (induction keep)
  case Nil
  then show ?case by (simp add: unlines_of_def lines_of_def)
next
  case (Cons line keep)
  have "ended (line @ [LF])" by (simp add: ended_def)
  moreover have "unlines_of (line # keep) = (line @ [LF]) @ unlines_of keep" by (simp add: unlines_of_def)
  ultimately show ?case using Cons lines_of_append [of "line @ [LF]" "unlines_of keep"] lines_of_plain [of line] by simp
qed

lemma ended_unlines [simp]: "ended (unlines_of keep)"
  by (induction keep rule: rev_induct) (simp_all add: ended_def unlines_of_def)

lemma unlines_length: "length (unlines_of keep) = sum_list (map (\<lambda>line. Suc (length line)) keep)"
  by (induction keep) (simp_all add: unlines_of_def)

lemma filter_sum_le: "sum_list (map f (filter P xs)) \<le> sum_list (map f xs)" for f :: "'a \<Rightarrow> nat"
  by (induction xs) auto

definition open_end :: "string \<Rightarrow> nat" where
  "open_end s = (if s \<noteq> [] \<and> last s \<noteq> LF then 1 else 0)"

lemma open_end_Cons: "open_end (c # cs) = (if cs = [] then (if c = LF then 0 else 1) else open_end cs)"
  by (simp add: open_end_def)

lemma split_lines_length:
  "sum_list (map (\<lambda>line. Suc (length line)) (split_lines part s)) \<le> length part + length s + (if s = [] then (if part = [] then 0 else 1) else open_end s)"
proof (induction part s rule: split_lines.induct)
  case (1 part)
  then show ?case by simp
next
  case (2 part c cs)
  show ?case
  proof (cases "c = LF")
    case True
    with 2(1) show ?thesis by (cases "cs = []") (simp_all add: open_end_Cons)
  next
    case False
    show ?thesis
    proof (cases "c = CR")
      case True
      show ?thesis
      proof (cases cs)
        case Nil
        with True show ?thesis by (simp add: open_end_Cons)
      next
        case (Cons x rest)
        with 2(2) [OF False True] True show ?thesis
          by (cases "x = LF"; cases "rest = []") (simp_all add: open_end_Cons)
      qed
    next
      case other: False
      with 2(3) [OF False other] False show ?thesis by (cases "cs = []") (simp_all add: open_end_Cons)
    qed
  qed
qed

lemma lines_of_length:
  assumes "ended s"
  shows "sum_list (map (\<lambda>line. Suc (length line)) (lines_of s)) \<le> length s"
proof -
  have "sum_list (map (\<lambda>line. Suc (length line)) (split_lines [] s)) \<le> length s"
    using split_lines_length [of "[]" s] assms by (cases "s = []") (simp_all add: ended_def open_end_def)
  with filter_sum_le show ?thesis unfolding lines_of_def by (rule order_trans)
qed

definition member_lines :: "spool_limits \<Rightarrow> string option \<Rightarrow> string list" where
  "member_lines L m = (case m of None \<Rightarrow> [] | Some s \<Rightarrow> lines_of (read_member L s))"

lemma map_filter_concat: "concat (map (\<lambda>s. lines_of (read_member L s)) (List.map_filter f xs)) = concat (map (\<lambda>i. member_lines L (f i)) xs)"
  by (induction xs) (auto simp: member_lines_def split: option.split)

lemma lines_of_Nil [simp]: "lines_of [] = []"
  by (simp add: lines_of_def)

lemma chain_lines_eq:
  "chain_lines L sp = concat (map (\<lambda>i. member_lines L (sp_rotated sp i)) (rotated_indices L)) @ member_lines L (sp_current sp)"
  by (cases "sp_current sp")
    (simp_all add: chain_lines_def chain_def map_filter_concat, simp_all add: member_lines_def read_member_def)

definition tidy_member :: "spool_limits \<Rightarrow> string \<Rightarrow> bool" where
  "tidy_member L s \<longleftrightarrow> ended s \<and> length s \<le> sx_file_bytes L * 4"

definition tidy :: "spool_limits \<Rightarrow> spool \<Rightarrow> bool" where
  "tidy L sp \<longleftrightarrow> list_all (tidy_member L) (chain L sp)"

lemma tidy_iff:
  "tidy L sp \<longleftrightarrow> (\<forall>i\<in>set (rotated_indices L). \<forall>s. sp_rotated sp i = Some s \<longrightarrow> tidy_member L s) \<and> (\<forall>s. sp_current sp = Some s \<longrightarrow> tidy_member L s)"
  by (cases "sp_current sp") (auto simp: tidy_def chain_def list_all_iff map_filter_def tidy_member_def ended_def)

lemma member_lines_tidy: "tidy_member L s \<Longrightarrow> member_lines L (Some s) = lines_of s"
  by (simp add: member_lines_def read_member_def tidy_member_def)

section \<open>Rotation\<close>

definition shift_step :: "(nat \<Rightarrow> string option) \<Rightarrow> nat \<Rightarrow> (nat \<Rightarrow> string option)" where
  "shift_step = (\<lambda>files i. case files i of None \<Rightarrow> files | Some s \<Rightarrow> files(Suc i := Some s, i := None))"

lemma shift_fold:
  "foldl shift_step f (rev [1 ..< Suc n]) j =
     (if n = 0 \<or> j = 0 \<or> Suc n < j then f j
      else if j = 1 then None
      else if j \<le> n then f (j - 1)
      else (case f n of None \<Rightarrow> f (Suc n) | Some s \<Rightarrow> Some s))"
proof (induction n arbitrary: f)
  case 0
  then show ?case by simp
next
  case (Suc n)
  have "rev [1 ..< Suc (Suc n)] = Suc n # rev [1 ..< Suc n]" by simp
  then have "foldl shift_step f (rev [1 ..< Suc (Suc n)]) j = foldl shift_step (shift_step f (Suc n)) (rev [1 ..< Suc n]) j" by simp
  also have "\<dots> = (if Suc n = 0 \<or> j = 0 \<or> Suc (Suc n) < j then f j
      else if j = 1 then None else if j \<le> Suc n then f (j - 1) else (case f (Suc n) of None \<Rightarrow> f (Suc (Suc n)) | Some s \<Rightarrow> Some s))"
    unfolding Suc.IH by (cases "f (Suc n)"; cases "f n"; cases "j = Suc (Suc n)") (auto simp: shift_step_def le_Suc_eq)
  finally show ?case .
qed

lemma rotate_files:
  assumes "2 \<le> sx_max_files L"
  shows "sp_rotated (rotate L sp) = (\<lambda>j. if j = 1 then sp_current sp else if 2 \<le> j \<and> j < sx_max_files L then sp_rotated sp (j - 1)
           else if j = sx_max_files L then None else sp_rotated sp j)"
    and "sp_current (rotate L sp) = None"
proof -
  obtain n where n: "sx_max_files L = Suc n" "0 < n" using assms by (cases "sx_max_files L") auto
  have "sp_rotated (rotate L sp) = (foldl shift_step (sp_rotated sp) (rev [1 ..< Suc n]))(Suc n := None, 1 := sp_current sp)"
    by (simp add: rotate_def Let_def n with_cursor_def shift_step_def)
  then show "sp_rotated (rotate L sp) = (\<lambda>j. if j = 1 then sp_current sp else if 2 \<le> j \<and> j < sx_max_files L then sp_rotated sp (j - 1)
           else if j = sx_max_files L then None else sp_rotated sp j)"
    using n by (intro ext) (simp only: fun_upd_apply shift_fold, auto)
  show "sp_current (rotate L sp) = None" by (simp add: rotate_def Let_def)
qed

text \<open>The lines of the member that a rotation deletes.\<close>

definition last_member :: "spool_limits \<Rightarrow> spool \<Rightarrow> string list" where
  "last_member L sp = member_lines L (sp_rotated sp (sx_max_files L)) @ member_lines L (sp_rotated sp (sx_max_files L - 1))"

lemma rotate_lines:
  assumes "2 \<le> sx_max_files L"
  shows "chain_lines L sp = last_member L sp @ chain_lines L (rotate L sp)"
proof -
  let ?g = "\<lambda>sp i. member_lines L (sp_rotated sp i)"
  obtain n where n: "sx_max_files L = Suc (Suc n)" using assms by (metis add_2_eq_Suc le_Suc_ex)
  have idx: "rotated_indices L = Suc (Suc n) # Suc n # rev [1 ..< Suc n]" by (simp add: rotated_indices_def n)
  have new: "rotated_indices L = Suc (Suc n) # map Suc (rev [1 ..< Suc n]) @ [1]"
  proof -
    have "[1 ..< Suc (Suc (Suc n))] = 1 # map Suc [1 ..< Suc (Suc n)]" by (simp add: map_Suc_upt upt_conv_Cons del: upt_Suc)
    moreover have "[1 ..< Suc (Suc n)] = [1 ..< Suc n] @ [Suc n]" by simp
    ultimately have "[1 ..< Suc (Suc (Suc n))] = 1 # map Suc [1 ..< Suc n] @ [Suc (Suc n)]" by (simp del: upt_Suc)
    then show ?thesis by (simp add: rotated_indices_def n rev_map del: upt_Suc)
  qed
  have "concat (map (?g (rotate L sp)) (map Suc (rev [1 ..< Suc n]))) = concat (map (?g sp) (rev [1 ..< Suc n]))"
    by (intro arg_cong [where f = concat]) (auto simp: rotate_files [OF assms] n)
  moreover have "?g (rotate L sp) (Suc (Suc n)) = []" by (simp add: rotate_files [OF assms] n member_lines_def)
  moreover have "?g (rotate L sp) 1 = member_lines L (sp_current sp)" by (simp add: rotate_files [OF assms])
  moreover have "member_lines L (sp_current (rotate L sp)) = []" by (simp add: rotate_files [OF assms] member_lines_def)
  ultimately have "chain_lines L (rotate L sp) = concat (map (?g sp) (rev [1 ..< Suc n])) @ member_lines L (sp_current sp)"
    unfolding chain_lines_eq new by simp
  moreover have "chain_lines L sp = last_member L sp @ concat (map (?g sp) (rev [1 ..< Suc n])) @ member_lines L (sp_current sp)"
    unfolding chain_lines_eq idx by (simp add: last_member_def n)
  ultimately show ?thesis by simp
qed

lemma rotate_tidy:
  assumes "2 \<le> sx_max_files L" "tidy L sp"
  shows "tidy L (rotate L sp)"
proof -
  have "tidy_member L s" if "i \<in> set (rotated_indices L)" "sp_rotated (rotate L sp) i = Some s" for i s
  proof (cases "i = 1")
    case True
    with that assms show ?thesis by (simp add: rotate_files tidy_iff)
  next
    case False
    with that assms(1) have "2 \<le> i" "i < sx_max_files L" "sp_rotated sp (i - 1) = Some s"
      by (auto simp: rotated_indices_def rotate_files split: if_splits)
    moreover from this have "i - 1 \<in> set (rotated_indices L)" by (auto simp: rotated_indices_def)
    ultimately show ?thesis using assms(2) by (auto simp: tidy_iff)
  qed
  then show ?thesis by (auto simp: tidy_iff rotate_files(2) [OF assms(1)])
qed

section \<open>The scan\<close>

lemma recover_positive: "recover_record_id sc line = Some i \<Longrightarrow> 1 \<le> i"
  by (auto simp: recover_record_id_def split: option.splits pyval.splits if_splits)

lemma decode_positive: "decode_record sc line = Some q \<Longrightarrow> 1 \<le> q_id q"
  by (auto simp: decode_record_def record_of_def split: option.splits pyval.splits if_splits)

lemma scan_line_Inr:
  "scan_line sc resolved s line = Inr s' \<longleftrightarrow> (\<exists>i. line_id sc line = Some i \<and> sn_last s < i \<and> sn_last s' = i
     \<and> (case decode_record sc line of
          Some q \<Rightarrow> sn_found s' = sn_found s @ [q] \<and> sn_blocked s' = sn_blocked s
        | None \<Rightarrow> sn_found s' = sn_found s
            \<and> sn_blocked s' = (if resolved < i then (if sn_blocked s = 0 then i else min (sn_blocked s) i) else sn_blocked s)))"
  by (cases s, cases s') (auto simp: scan_line_def line_id_def split: option.split)

text \<open>The invariant of a scan: what was found is in order, and the first obstacle lies after the cursor.\<close>

definition scan_inv :: "int \<Rightarrow> scan \<Rightarrow> bool" where
  "scan_inv resolved s \<longleftrightarrow> sorted_wrt (<) (map q_id (sn_found s)) \<and> (\<forall>q\<in>set (sn_found s). 1 \<le> q_id q \<and> q_id q \<le> sn_last s \<and> q_id q \<noteq> sn_blocked s)
     \<and> 0 \<le> sn_last s \<and> sn_blocked s \<le> sn_last s \<and> (sn_blocked s \<noteq> 0 \<longrightarrow> resolved < sn_blocked s \<and> 1 \<le> sn_blocked s)"

lemma scan_line_inv:
  assumes "scan_inv resolved s" "scan_line sc resolved s line = Inr s'"
  shows "scan_inv resolved s'"
proof -
  from assms(2) obtain i where i: "line_id sc line = Some i" "sn_last s < i" "sn_last s' = i"
    and d: "case decode_record sc line of
          Some q \<Rightarrow> sn_found s' = sn_found s @ [q] \<and> sn_blocked s' = sn_blocked s
        | None \<Rightarrow> sn_found s' = sn_found s
            \<and> sn_blocked s' = (if resolved < i then (if sn_blocked s = 0 then i else min (sn_blocked s) i) else sn_blocked s)"
    by (auto simp: scan_line_Inr)
  show ?thesis
  proof (cases "decode_record sc line")
    case None
    with i(1) have "1 \<le> i" by (auto simp: line_id_def dest: recover_positive)
    with None d i assms(1) show ?thesis by (fastforce simp: scan_inv_def)
  next
    case (Some q)
    with i(1) decode_positive [OF Some] have "q_id q = i" "1 \<le> i" by (simp_all add: line_id_def)
    with Some d i assms(1) show ?thesis by (fastforce simp: scan_inv_def sorted_wrt_append)
  qed
qed

lemma scan_fold_inv:
  "res_fold (scan_line sc resolved) s ls = Inr s' \<Longrightarrow> scan_inv resolved s \<Longrightarrow> scan_inv resolved s'"
  by (rule res_fold_inv [where P = "scan_inv resolved"]) (auto intro: scan_line_inv)

definition no_scan :: scan where "no_scan = \<lparr>sn_found = [], sn_last = 0, sn_blocked = 0\<rparr>"

lemma scan_records_eq: "scan_records L sc sp = res_fold (scan_line sc (cu_resolved (sp_cursor sp))) no_scan (chain_lines L sp)"
  by (simp add: scan_records_def no_scan_def)

lemma scan_records_inv: "scan_records L sc sp = Inr s \<Longrightarrow> scan_inv (cu_resolved (sp_cursor sp)) s"
  unfolding scan_records_eq by (erule scan_fold_inv) (simp add: scan_inv_def no_scan_def)

lemma res_fold_append: "res_fold f s (xs @ ys) = res_bind (res_fold f s xs) (\<lambda>s'. res_fold f s' ys)"
proof (induction xs arbitrary: s)
  case (Cons x xs)
  then show ?case by (cases "f s x") simp_all
qed simp

text \<open>Every identifier of the chain is at most the last one.\<close>

lemma scan_fold_last: "res_fold (scan_line sc resolved) s ls = Inr s' \<Longrightarrow> sn_last s \<le> sn_last s'"
  by (induction ls arbitrary: s) (fastforce simp: res_bind_eq_Inr scan_line_Inr)+

lemma scan_fold_ids:
  "res_fold (scan_line sc resolved) s ls = Inr s' \<Longrightarrow> line \<in> set ls \<Longrightarrow> \<exists>i. line_id sc line = Some i \<and> sn_last s < i \<and> i \<le> sn_last s'"
proof (induction ls arbitrary: s)
  case (Cons l ls)
  then obtain t where t: "scan_line sc resolved s l = Inr t" "res_fold (scan_line sc resolved) t ls = Inr s'"
    by (auto simp: res_bind_eq_Inr)
  from t(1) obtain i where i: "line_id sc l = Some i" "sn_last s < i" "sn_last t = i" by (auto simp: scan_line_Inr)
  show ?case
  proof (cases "line = l")
    case True
    with i scan_fold_last [OF t(2)] show ?thesis by auto
  next
    case False
    with Cons.prems(2) Cons.IH [OF t(2)] i show ?thesis by force
  qed
qed simp

section \<open>A sound spool\<close>

text \<open>
  Every member is complete, the chain scans, and the next identifier is beyond every identifier on disk.
\<close>

definition sound :: "spool_limits \<Rightarrow> spool_codec \<Rightarrow> spool \<Rightarrow> bool" where
  "sound L sc sp \<longleftrightarrow> tidy L sp \<and> (\<exists>s. scan_records L sc sp = Inr s \<and> sn_last s < cu_next (sp_cursor sp))"

text \<open>What the encoder does for one record.\<close>

definition line_fine :: "spool_codec \<Rightarrow> queued \<Rightarrow> bool" where
  "line_fine sc q \<longleftrightarrow> sc_loads sc (sc_dumps sc (record_value sc q)) = Some (record_value sc q) \<and> sc_b64d sc (sc_b64e sc (q_body q)) = Some (q_body q)
     \<and> sc_dumps sc (record_value sc q) \<noteq> [] \<and> LF \<notin> set (sc_dumps sc (record_value sc q)) \<and> CR \<notin> set (sc_dumps sc (record_value sc q))"

lemma decode_own_line: "line_fine sc q \<Longrightarrow> 1 \<le> q_id q \<Longrightarrow> decode_record sc (sc_dumps sc (record_value sc q)) = Some q"
  by (simp add: line_fine_def decode_record_def record_value_def record_of_def pget_or_def epoch_float_def)

lemma sound_next: "sound L sc sp \<Longrightarrow> 1 \<le> cu_next (sp_cursor sp)"
  unfolding sound_def by (force dest: scan_records_inv simp: scan_inv_def)

text \<open>A rotation that deletes nothing keeps the lines.\<close>

definition roomy :: "spool_limits \<Rightarrow> spool \<Rightarrow> bool" where
  "roomy L sp \<longleftrightarrow> 2 \<le> sx_max_files L \<and> RECORD_MAX_BYTES \<le> sx_file_bytes L * 4
     \<and> sp_rotated sp (sx_max_files L) = None \<and> sp_rotated sp (sx_max_files L - 1) = None"

lemma append_line_written:
  assumes "tidy L sp" "roomy L sp" "length line + 1 \<le> RECORD_MAX_BYTES" "line \<noteq> []" "LF \<notin> set line" "CR \<notin> set line"
    and a: "append_line L Written (line @ [LF]) sp = (ok, sp')"
  shows "ok \<and> tidy L sp' \<and> chain_lines L sp' = chain_lines L sp @ [line] \<and> cu_resolved (sp_cursor sp') = cu_resolved (sp_cursor sp)
    \<and> cu_next (sp_cursor sp') = cu_next (sp_cursor sp) \<and> sp_open sp' = sp_open sp"
proof -
  define sp1 where "sp1 = (case sp_current sp of Some s \<Rightarrow> if sx_file_bytes L < length s + length (line @ [LF]) then rotate L sp else sp | None \<Rightarrow> sp)"
  define old where "old = (case sp_current sp1 of None \<Rightarrow> [] | Some s \<Rightarrow> s)"
  have sp': "ok" "sp' = sp1\<lparr>sp_current := Some (old @ line @ [LF])\<rparr>"
    using a by (auto simp: append_line_def Let_def sp1_def old_def)
  have files: "2 \<le> sx_max_files L" using assms(2) by (simp add: roomy_def)
  have "last_member L sp = []" using assms(2) by (simp add: last_member_def member_lines_def roomy_def)
  with rotate_lines [OF files, of sp] have rot: "chain_lines L (rotate L sp) = chain_lines L sp" by simp
  have sp1: "tidy L sp1" "chain_lines L sp1 = chain_lines L sp" "cu_resolved (sp_cursor sp1) = cu_resolved (sp_cursor sp)"
    "cu_next (sp_cursor sp1) = cu_next (sp_cursor sp)" "sp_open sp1 = sp_open sp"
    using assms(1) rot rotate_tidy [OF files assms(1)]
    by (auto simp: sp1_def rotate_def Let_def with_cursor_def split: option.split)
  have old: "ended old" using sp1(1) by (auto simp: old_def tidy_iff tidy_member_def ended_def split: option.split)
  have short: "length old + length (line @ [LF]) \<le> sx_file_bytes L * 4"
  proof (cases "sp_current sp1")
    case None
    with assms(2,3) show ?thesis by (simp add: old_def roomy_def)
  next
    case (Some s)
    then have "sp_current sp = Some s \<and> \<not> sx_file_bytes L < length s + length (line @ [LF])"
      using rotate_files(2) [OF files, of sp] by (auto simp: sp1_def split: option.splits if_splits)
    with Some show ?thesis by (simp add: old_def)
  qed
  have new: "tidy_member L (old @ line @ [LF])" using short by (simp add: tidy_member_def ended_def)
  then have "tidy L sp'" using sp1(1) sp' by (simp add: tidy_iff)
  moreover have "chain_lines L sp' = chain_lines L sp1 @ [line]"
  proof -
    have "member_lines L (sp_current sp1) = lines_of old"
      using sp1(1) by (auto simp: old_def member_lines_def tidy_iff tidy_member_def read_member_def split: option.split)
    moreover have "member_lines L (Some (old @ line @ [LF])) = lines_of old @ [line]"
      using member_lines_tidy [OF new] lines_of_append [OF old] lines_of_plain [OF assms(4-6)] by simp
    ultimately show ?thesis by (simp add: chain_lines_eq sp')
  qed
  ultimately show ?thesis using sp' sp1 by simp
qed

lemma save_soft_simps:
  "chain_lines L (save_soft w sp) = chain_lines L sp" "tidy L (save_soft w sp) = tidy L sp" "sp_open (save_soft w sp) = sp_open sp"
  "cu_resolved (sp_cursor (save_soft w sp)) = cu_resolved (sp_cursor sp)" "cu_next (sp_cursor (save_soft w sp)) = cu_next (sp_cursor sp)"
  by (cases w; simp add: save_soft_def save_state_def with_cursor_def chain_lines_def chain_def tidy_def Let_def)+

lemma with_cursor_simps:
  "chain_lines L (with_cursor f sp) = chain_lines L sp" "tidy L (with_cursor f sp) = tidy L sp" "sp_cursor (with_cursor f sp) = f (sp_cursor sp)"
  "sp_open (with_cursor f sp) = sp_open sp"
  by (simp_all add: with_cursor_def chain_lines_def chain_def tidy_def)

text \<open>What a successful append does to the queue.\<close>

lemma append_written:
  assumes snd: "sound L sc sp" and room: "roomy L sp" and a: "append_record L sc Written saved probe run seq body epoch sp = (Inr i, sp')"
    and fine: "line_fine sc \<lparr>q_id = cu_next (sp_cursor sp), q_probe = probe, q_run = run, q_seq = seq, q_epoch = Fin epoch, q_body = body\<rparr>"
    and s: "scan_records L sc sp = Inr s"
  defines "q \<equiv> \<lparr>q_id = i, q_probe = probe, q_run = run, q_seq = seq, q_epoch = Fin epoch, q_body = body\<rparr>"
  shows "i = cu_next (sp_cursor sp)" "scan_records L sc sp' = Inr (s\<lparr>sn_found := sn_found s @ [q], sn_last := i\<rparr>)"
    "tidy L sp'" "cu_next (sp_cursor sp') = i + 1" "cu_resolved (sp_cursor sp') = cu_resolved (sp_cursor sp)" "sp_open sp'"
proof -
  let ?line = "sc_dumps sc (record_value sc q)"
  have opened: "sp_open sp" using a by (auto simp: append_record_def split: if_splits)
  from a opened show i: "i = cu_next (sp_cursor sp)"
    by (auto simp: append_record_def Let_def split: if_splits prod.splits bool.splits)
  have bound: "length ?line + 1 \<le> RECORD_MAX_BYTES" "length body \<le> MAX_BODY_BYTES"
    using a opened i by (auto simp: append_record_def Let_def record_line_def q_def split: if_splits)
  obtain ok sp1 where al: "append_line L Written (?line @ [LF]) sp = (ok, sp1)" by force
  from fine i have f: "line_fine sc q" by (simp add: q_def)
  then have clean: "?line \<noteq> []" "LF \<notin> set ?line" "CR \<notin> set ?line" by (simp_all add: line_fine_def)
  from snd have "tidy L sp" by (simp add: sound_def)
  from append_line_written [OF this room bound(1) clean al] have o: ok "tidy L sp1" "chain_lines L sp1 = chain_lines L sp @ [?line]"
    "cu_resolved (sp_cursor sp1) = cu_resolved (sp_cursor sp)" "cu_next (sp_cursor sp1) = cu_next (sp_cursor sp)" "sp_open sp1 = sp_open sp" by simp_all
  have sp': "sp' = save_soft saved (with_cursor (\<lambda>c. c\<lparr>cu_next := i + 1\<rparr>) sp1)"
    using a opened i bound al o(1) by (auto simp: append_record_def Let_def record_line_def q_def split: if_splits)
  show "tidy L sp'" "cu_next (sp_cursor sp') = i + 1" "cu_resolved (sp_cursor sp') = cu_resolved (sp_cursor sp)" "sp_open sp'"
    using o opened by (simp_all add: sp' save_soft_simps with_cursor_simps)
  have "1 \<le> i" using sound_next [OF snd] i by simp
  then have d: "decode_record sc ?line = Some q" using decode_own_line [OF f] by (simp add: q_def)
  from snd s have "sn_last s < i" using i by (simp add: sound_def)
  then have step: "scan_line sc (cu_resolved (sp_cursor sp)) s ?line = Inr (s\<lparr>sn_found := sn_found s @ [q], sn_last := i\<rparr>)"
    by (simp add: scan_line_def d) (simp add: q_def)
  from s step show "scan_records L sc sp' = Inr (s\<lparr>sn_found := sn_found s @ [q], sn_last := i\<rparr>)"
    by (simp add: scan_records_eq sp' save_soft_simps with_cursor_simps o res_fold_append)
qed

text \<open>The queue without obstacles: everything found after the cursor.\<close>

lemma pending_unblocked:
  assumes "scan_records L sc sp = Inr s" "sn_blocked s = 0"
  shows "pending L sc sp = Inr (filter (\<lambda>q. cu_resolved (sp_cursor sp) < q_id q) (sn_found s))"
proof -
  have "before_block 0 qs = qs" for qs by (induction qs) (simp_all add: before_block_def)
  with assms show ?thesis by (simp add: pending_def Let_def)
qed

end
