(* ===== verification/Queue.thy ===== *)
theory Queue
  imports Spool
begin

text \<open>
  What the agent's spool promises: the queue is served in order, compaction loses nothing, an append is a record last in
  line, no identifier is used twice - and what one failed write does to it.
\<close>

section \<open>The order of the queue\<close>

lemma takeWhile_sorted:
  "sorted_wrt (<) (map f xs) \<Longrightarrow> takeWhile (\<lambda>x. f x < b) xs = filter (\<lambda>x. f x < b) xs" for b :: int
proof (induction xs)
  case (Cons x xs)
  show ?case
  proof (cases "f x < b")
    case False
    with Cons.prems have "\<forall>y\<in>set xs. \<not> f y < b" by auto
    with False show ?thesis by simp
  qed (use Cons in simp)
qed simp

lemma before_block_filter:
  assumes "scan_inv resolved s"
  shows "before_block (sn_blocked s) (sn_found s) = filter (\<lambda>q. sn_blocked s = 0 \<or> q_id q < sn_blocked s) (sn_found s)"
proof (cases "sn_blocked s = 0")
  case True
  then show ?thesis by (simp add: before_block_def)
next
  case False
  with assms takeWhile_sorted [of q_id "sn_found s" "sn_blocked s"] show ?thesis
    by (simp add: before_block_def scan_inv_def not_le)
qed

lemma sorted_wrt_filter_map: "sorted_wrt (<) (map f xs) \<Longrightarrow> sorted_wrt (<) (map f (filter P xs))" for f :: "'a \<Rightarrow> int"
  by (induction xs) auto

lemma pending_eq:
  assumes "scan_records L sc sp = Inr s"
  defines "ready \<equiv> filter (\<lambda>q. cu_resolved (sp_cursor sp) < q_id q \<and> (sn_blocked s = 0 \<or> q_id q < sn_blocked s)) (sn_found s)"
  shows "pending L sc sp = (if sn_blocked s \<noteq> 0 \<and> ready = [] then Inl (SpoolError ''unresolved corrupt record blocks the queue'') else Inr ready)"
proof -
  have i: "scan_inv (cu_resolved (sp_cursor sp)) s" by (rule scan_records_inv [OF assms(1)])
  then have b: "sn_blocked s \<noteq> 0 \<Longrightarrow> cu_resolved (sp_cursor sp) < sn_blocked s" by (simp add: scan_inv_def)
  have "filter (\<lambda>q. cu_resolved (sp_cursor sp) < q_id q) (before_block (sn_blocked s) (sn_found s)) = ready"
    unfolding before_block_filter [OF i] filter_filter ready_def by (rule filter_cong) auto
  with b assms(1) show ?thesis by (auto simp: pending_def Let_def)
qed


section \<open>Compaction\<close>

lemma kept_lines_eq:
  "(\<And>line. line \<in> set ls \<Longrightarrow> line_id sc line \<noteq> None) \<Longrightarrow> kept_lines sc r ls = Inr (filter (\<lambda>line. r < the (line_id sc line)) ls)"
proof (induction ls)
  case (Cons line ls)
  moreover obtain i where "line_id sc line = Some i" using Cons.prems [of line] by auto
  ultimately show ?case by (simp add: not_le)
qed simp

definition unresolved_lines :: "spool_codec \<Rightarrow> int \<Rightarrow> string list \<Rightarrow> string list" where
  "unresolved_lines sc r ls = filter (\<lambda>line. r < the (line_id sc line)) ls"

definition compacted :: "spool_limits \<Rightarrow> spool_codec \<Rightarrow> int \<Rightarrow> string option \<Rightarrow> string option" where
  "compacted L sc r m = (let keep = unresolved_lines sc r (member_lines L m) in if m = None \<or> keep = [] then None else Some (unlines_of keep))"

definition readable_ids :: "spool_codec \<Rightarrow> string list \<Rightarrow> bool" where
  "readable_ids sc ls \<longleftrightarrow> (\<forall>line\<in>set ls. line_id sc line \<noteq> None)"

lemma compact_rotated_eq:
  assumes "readable_ids sc (member_lines L (sp_rotated sp i))"
  shows "compact_rotated L sc (Inr (), sp) i
    = (Inr (), sp\<lparr>sp_rotated := (sp_rotated sp)(i := compacted L sc (cu_resolved (sp_cursor sp)) (sp_rotated sp i))\<rparr>)"
proof (cases "sp_rotated sp i")
  case None
  then have "(sp_rotated sp)(i := None) = sp_rotated sp" by auto
  with None show ?thesis by (simp add: compact_rotated_def compacted_def)
next
  case (Some s)
  with assms kept_lines_eq [of "lines_of (read_member L s)" sc] show ?thesis
    by (auto simp: compact_rotated_def compacted_def Let_def unresolved_lines_def member_lines_def readable_ids_def)
qed

lemma compact_fold_eq:
  assumes "\<And>i. i \<in> set is \<Longrightarrow> readable_ids sc (member_lines L (sp_rotated sp i))" "distinct is"
  shows "foldl (compact_rotated L sc) (Inr (), sp) is
    = (Inr (), sp\<lparr>sp_rotated := (\<lambda>i. if i \<in> set is then compacted L sc (cu_resolved (sp_cursor sp)) (sp_rotated sp i) else sp_rotated sp i)\<rparr>)"
  using assms
proof (induction "is" arbitrary: sp)
  case Nil
  then show ?case by simp
next
  case (Cons i "is")
  let ?c = "\<lambda>i. compacted L sc (cu_resolved (sp_cursor sp)) (sp_rotated sp i)"
  let ?G = "\<lambda>j. if j \<in> set (i # is) then ?c j else sp_rotated sp j"
  define sp1 where "sp1 = sp\<lparr>sp_rotated := (sp_rotated sp)(i := ?c i)\<rparr>"
  have f: "sp_rotated sp1 = (sp_rotated sp)(i := ?c i)" "sp_cursor sp1 = sp_cursor sp" by (simp_all add: sp1_def)
  have "readable_ids sc (member_lines L (sp_rotated sp1 j))" if "j \<in> set is" for j
    using Cons.prems that by (auto simp: f)
  moreover have "distinct is" using Cons.prems(2) by simp
  ultimately have "foldl (compact_rotated L sc) (Inr (), sp1) is = (Inr (), sp1\<lparr>sp_rotated :=
      (\<lambda>j. if j \<in> set is then compacted L sc (cu_resolved (sp_cursor sp1)) (sp_rotated sp1 j) else sp_rotated sp1 j)\<rparr>)"
    by (rule Cons.IH)
  also have "(\<lambda>j. if j \<in> set is then compacted L sc (cu_resolved (sp_cursor sp1)) (sp_rotated sp1 j) else sp_rotated sp1 j) = ?G"
    unfolding f using Cons.prems(2) by (intro ext) auto
  also have "sp1\<lparr>sp_rotated := ?G\<rparr> = sp\<lparr>sp_rotated := ?G\<rparr>" by (simp add: sp1_def)
  finally show ?case
    using compact_rotated_eq [of sc L sp i] Cons.prems(1) [of i] by (simp only: foldl_Cons list.set_intros sp1_def)
qed

definition compact_image :: "spool_limits \<Rightarrow> spool_codec \<Rightarrow> spool \<Rightarrow> spool" where
  "compact_image L sc sp = (let r = cu_resolved (sp_cursor sp) in
     sp\<lparr>sp_rotated := (\<lambda>i. if i \<in> set (rotated_indices L) then compacted L sc r (sp_rotated sp i) else sp_rotated sp i),
        sp_current := map_option (\<lambda>s. unlines_of (unresolved_lines sc r (lines_of (read_member L s)))) (sp_current sp)\<rparr>)"

lemma compact_eq:
  assumes "readable_ids sc (chain_lines L sp)"
  shows "compact L sc sp = (Inr (), compact_image L sc sp)"
proof -
  have r: "readable_ids sc (member_lines L (sp_rotated sp i))" if "i \<in> set (rotated_indices L)" for i
    using assms that by (auto simp: readable_ids_def chain_lines_eq)
  have d: "distinct (rotated_indices L)" by (simp add: rotated_indices_def)
  have c: "readable_ids sc (member_lines L (sp_current sp))" using assms by (simp add: readable_ids_def chain_lines_eq)
  show ?thesis
  proof (cases "sp_current sp")
    case None
    then show ?thesis by (simp add: compact_def compact_fold_eq [OF r d] compact_image_def Let_def)
  next
    case (Some s)
    with c kept_lines_eq [of "lines_of (read_member L s)" sc] show ?thesis
      by (simp add: compact_def compact_fold_eq [OF r d] compact_image_def Let_def unresolved_lines_def member_lines_def readable_ids_def)
  qed
qed

lemma unresolved_clean: "line \<in> set (unresolved_lines sc r (lines_of s)) \<Longrightarrow> line \<noteq> [] \<and> LF \<notin> set line \<and> CR \<notin> set line"
  by (auto simp: unresolved_lines_def dest: lines_of_clean)

lemma unlines_tidy:
  assumes "tidy_member L s"
  shows "tidy_member L (unlines_of (unresolved_lines sc r (lines_of s)))" "length (unlines_of (unresolved_lines sc r (lines_of s))) \<le> length s"
proof -
  have e: "ended s" using assms by (simp add: tidy_member_def)
  show "length (unlines_of (unresolved_lines sc r (lines_of s))) \<le> length s"
    unfolding unlines_length unresolved_lines_def using filter_sum_le lines_of_length [OF e] by (rule order_trans)
  with assms show "tidy_member L (unlines_of (unresolved_lines sc r (lines_of s)))" by (simp add: tidy_member_def)
qed

lemma read_tidy: "tidy_member L s \<Longrightarrow> read_member L s = s"
  by (simp add: read_member_def tidy_member_def)

lemma member_lines_compacted:
  assumes "\<And>s. m = Some s \<Longrightarrow> tidy_member L s"
  shows "member_lines L (compacted L sc r m) = unresolved_lines sc r (member_lines L m)"
proof (cases m)
  case None
  then show ?thesis by (simp add: compacted_def member_lines_def unresolved_lines_def)
next
  case (Some s)
  with assms have t: "tidy_member L s" by simp
  from member_lines_tidy [OF unlines_tidy(1) [OF t]] lines_of_unlines [of "unresolved_lines sc r (lines_of s)"] unresolved_clean
  have "member_lines L (Some (unlines_of (unresolved_lines sc r (lines_of s)))) = unresolved_lines sc r (lines_of s)" by metis
  then show ?thesis by (simp add: compacted_def Some member_lines_tidy [OF t] Let_def) (simp add: member_lines_def)
qed

lemma concat_filter_map: "concat (map (\<lambda>x. filter P (f x)) xs) = filter P (concat (map f xs))"
  by (induction xs) simp_all

lemma compact_lines:
  assumes "tidy L sp"
  shows "chain_lines L (compact_image L sc sp) = unresolved_lines sc (cu_resolved (sp_cursor sp)) (chain_lines L sp)"
proof -
  let ?r = "cu_resolved (sp_cursor sp)"
  have rot: "map (\<lambda>i. member_lines L (sp_rotated (compact_image L sc sp) i)) (rotated_indices L)
      = map (\<lambda>i. unresolved_lines sc ?r (member_lines L (sp_rotated sp i))) (rotated_indices L)"
    using assms by (intro map_cong) (auto simp: compact_image_def Let_def member_lines_compacted tidy_iff)
  have cur: "member_lines L (sp_current (compact_image L sc sp)) = unresolved_lines sc ?r (member_lines L (sp_current sp))"
  proof (cases "sp_current sp")
    case None
    then show ?thesis by (simp add: compact_image_def Let_def member_lines_def unresolved_lines_def)
  next
    case (Some s)
    with assms have t: "tidy_member L s" by (simp add: tidy_iff)
    from member_lines_tidy [OF unlines_tidy(1) [OF t]] lines_of_unlines [of "unresolved_lines sc ?r (lines_of s)"] unresolved_clean
    have "member_lines L (Some (unlines_of (unresolved_lines sc ?r (lines_of s)))) = unresolved_lines sc ?r (lines_of s)" by metis
    then show ?thesis by (simp add: compact_image_def Let_def Some read_tidy [OF t] member_lines_tidy [OF t])
  qed
  show ?thesis unfolding chain_lines_eq rot cur by (simp add: unresolved_lines_def concat_filter_map)
qed

lemma compact_tidy:
  assumes "tidy L sp"
  shows "tidy L (compact_image L sc sp)"
proof -
  have "tidy_member L t" if "i \<in> set (rotated_indices L)" "compacted L sc r (sp_rotated sp i) = Some t" for i t r
  proof -
    from that(2) obtain s where s: "sp_rotated sp i = Some s" "t = unlines_of (unresolved_lines sc r (member_lines L (Some s)))"
      by (auto simp: compacted_def Let_def split: if_splits)
    with assms that(1) have "tidy_member L s" by (auto simp: tidy_iff)
    with s unlines_tidy(1) member_lines_tidy show ?thesis by simp
  qed
  with assms show ?thesis by (auto simp: tidy_iff compact_image_def Let_def read_tidy unlines_tidy(1))
qed

lemma compact_image_simps [simp]:
  "sp_cursor (compact_image L sc sp) = sp_cursor sp" "sp_open (compact_image L sc sp) = sp_open sp" "sp_file (compact_image L sc sp) = sp_file sp"
  by (simp_all add: compact_image_def Let_def)

text \<open>Scanning what is left finds the unresolved part of what was found.\<close>

lemma scan_unresolved:
  assumes "res_fold (scan_line sc r) s ls = Inr s'"
    "sn_found t = filter (\<lambda>q. r < q_id q) (sn_found s)" "sn_blocked t = sn_blocked s" "sn_last t \<le> sn_last s"
  shows "\<exists>t'. res_fold (scan_line sc r) t (unresolved_lines sc r ls) = Inr t' \<and> sn_found t' = filter (\<lambda>q. r < q_id q) (sn_found s')
    \<and> sn_blocked t' = sn_blocked s' \<and> sn_last t' \<le> sn_last s'"
  using assms
proof (induction ls arbitrary: s t)
  case Nil
  then show ?case by (simp add: unresolved_lines_def)
next
  case (Cons l ls)
  from Cons.prems(1) obtain s1 where s1: "scan_line sc r s l = Inr s1" "res_fold (scan_line sc r) s1 ls = Inr s'"
    by (auto simp: res_bind_eq_Inr)
  from s1(1) obtain i where i: "line_id sc l = Some i" "sn_last s < i" "sn_last s1 = i"
    and d: "case decode_record sc l of
          Some q \<Rightarrow> sn_found s1 = sn_found s @ [q] \<and> sn_blocked s1 = sn_blocked s
        | None \<Rightarrow> sn_found s1 = sn_found s
            \<and> sn_blocked s1 = (if r < i then (if sn_blocked s = 0 then i else min (sn_blocked s) i) else sn_blocked s)"
    by (auto simp: scan_line_Inr)
  have qi: "decode_record sc l = Some q \<Longrightarrow> q_id q = i" for q using i(1) by (simp add: line_id_def)
  show ?case
  proof (cases "r < i")
    case True
    let ?t1 = "\<lparr>sn_found = filter (\<lambda>q. r < q_id q) (sn_found s1), sn_last = i, sn_blocked = sn_blocked s1\<rparr>"
    have "scan_line sc r t l = Inr ?t1"
      unfolding scan_line_Inr using i d Cons.prems(2-4) True qi by (auto split: option.splits)
    moreover from Cons.IH [OF s1(2), of ?t1] i(3) obtain t' where
      "res_fold (scan_line sc r) ?t1 (unresolved_lines sc r ls) = Inr t'" "sn_found t' = filter (\<lambda>q. r < q_id q) (sn_found s')"
      "sn_blocked t' = sn_blocked s'" "sn_last t' \<le> sn_last s'" by auto
    ultimately show ?thesis using True i(1) by (simp add: unresolved_lines_def)
  next
    case False
    have "sn_found t = filter (\<lambda>q. r < q_id q) (sn_found s1)" "sn_blocked t = sn_blocked s1" "sn_last t \<le> sn_last s1"
      using d False qi Cons.prems(2-4) i by (auto split: option.splits)
    from Cons.IH [OF s1(2) this] False i(1) show ?thesis by (simp add: unresolved_lines_def)
  qed
qed

lemma sound_readable: "sound L sc sp \<Longrightarrow> readable_ids sc (chain_lines L sp)"
  unfolding sound_def readable_ids_def scan_records_eq using scan_fold_ids by fastforce

lemma compact_scan:
  assumes "tidy L sp" "scan_records L sc sp = Inr s"
  shows "\<exists>t. scan_records L sc (compact_image L sc sp) = Inr t \<and> sn_found t = filter (\<lambda>q. cu_resolved (sp_cursor sp) < q_id q) (sn_found s)
    \<and> sn_blocked t = sn_blocked s \<and> sn_last t \<le> sn_last s"
proof -
  from assms(2) have "res_fold (scan_line sc (cu_resolved (sp_cursor sp))) no_scan (chain_lines L sp) = Inr s" by (simp add: scan_records_eq)
  from scan_unresolved [OF this, of no_scan] show ?thesis
    by (simp add: scan_records_eq compact_lines [OF assms(1)] no_scan_def)
qed

text \<open>
  C17: Compaction loses no evidence: on a sound spool it succeeds, leaves no line on disk that the cursor has
  passed, keeps every other line in its order, readable or not, and the queue before and after is the same.
\<close>

theorem compaction_keeps_queue:
  assumes "sound L sc sp"
  shows "\<exists>sp'. compact L sc sp = (Inr (), sp') \<and> sound L sc sp' \<and> pending L sc sp' = pending L sc sp
    \<and> chain_lines L sp' = filter (\<lambda>line. cu_resolved (sp_cursor sp) < the (line_id sc line)) (chain_lines L sp)
    \<and> sp_cursor sp' = sp_cursor sp"
proof -
  from assms obtain s where s: "tidy L sp" "scan_records L sc sp = Inr s" "sn_last s < cu_next (sp_cursor sp)" by (auto simp: sound_def)
  from compact_scan [OF s(1,2)] obtain t where t: "scan_records L sc (compact_image L sc sp) = Inr t"
    "sn_found t = filter (\<lambda>q. cu_resolved (sp_cursor sp) < q_id q) (sn_found s)" "sn_blocked t = sn_blocked s" "sn_last t \<le> sn_last s" by blast
  have "sound L sc (compact_image L sc sp)" using compact_tidy [OF s(1)] t s(3) by (simp add: sound_def)
  moreover have "pending L sc (compact_image L sc sp) = pending L sc sp"
    unfolding pending_eq [OF s(2)] pending_eq [OF t(1)] by (simp add: t conj_ac cong: conj_cong)
  ultimately show ?thesis
    using compact_eq [OF sound_readable [OF assms]] compact_lines [OF s(1)] by (simp add: unresolved_lines_def)
qed

section \<open>Spool before send\<close>


definition toy_spool :: spool where
  "toy_spool = \<lparr>sp_open = True, sp_cursor = first_cursor, sp_file = NoState, sp_rotated = (\<lambda>_. None), sp_current = None\<rparr>"

definition toy_file :: string where "toy_file = ''rec-1'' @ [LF]"

text \<open>A codec that reads the records of a list.\<close>

definition toy_line :: "pyval \<Rightarrow> string" where
  "toy_line v = (case pgetN (dict_items v) ''record_id'' of PInt i \<Rightarrow> ''rec-'' @ int_str i | _ \<Rightarrow> ''rec'')"

definition listed_codec :: "pyval list \<Rightarrow> spool_codec" where
  "listed_codec vs = \<lparr>sc_dumps = toy_line, sc_loads = (\<lambda>s. find (\<lambda>v. toy_line v = s) vs), sc_b64e = (\<lambda>b. b), sc_b64d = Some\<rparr>"

definition toy_queued :: queued where
  "toy_queued = \<lparr>q_id = 1, q_probe = ''office-1'', q_run = ''aa'', q_seq = 7, q_epoch = Fin 1000, q_body = ''{}''\<rparr>"

definition toy_value :: pyval where "toy_value = record_value (listed_codec []) toy_queued"

lemma toy_value_eq: "record_value (listed_codec vs) toy_queued = toy_value"
  by (simp add: toy_value_def record_value_def listed_codec_def)

lemma toy_line_value: "toy_line toy_value = ''rec-1''"
  by code_simp

lemma toy_line_fine: "line_fine (listed_codec [toy_value]) toy_queued"
  unfolding line_fine_def toy_value_eq by (simp add: listed_codec_def toy_line_value LF_def CR_def)

lemma toy_sound: "sound default_limits sc toy_spool" "scan_records default_limits sc toy_spool = Inr no_scan" "roomy default_limits toy_spool"
proof -
  have c: "chain_lines default_limits toy_spool = []"
    by (auto simp: chain_lines_eq toy_spool_def member_lines_def)
  then show s: "scan_records default_limits sc toy_spool = Inr no_scan" by (simp add: scan_records_eq)
  have "tidy default_limits toy_spool" by (simp add: tidy_iff toy_spool_def)
  with s show "sound default_limits sc toy_spool" by (simp add: sound_def no_scan_def toy_spool_def first_cursor_def)
  show "roomy default_limits toy_spool" by (simp add: roomy_def default_limits_def toy_spool_def RECORD_MAX_BYTES_def MAX_BODY_BYTES_def)
qed

lemma toy_append:
  "\<exists>sp'. append_record default_limits (listed_codec [toy_value]) Written Landed ''office-1'' ''aa'' 7 ''{}'' 1000 toy_spool = (Inr 1, sp')"
proof -
  have "\<lparr>q_id = 1, q_probe = ''office-1'', q_run = ''aa'', q_seq = 7, q_epoch = Fin 1000, q_body = ''{}''\<rparr> = toy_queued" by (simp add: toy_queued_def)
  then have "record_line (listed_codec [toy_value]) \<lparr>q_id = 1, q_probe = ''office-1'', q_run = ''aa'', q_seq = 7, q_epoch = Fin 1000, q_body = ''{}''\<rparr>
      = ''rec-1'' @ [LF]" by (simp only: record_line_def toy_value_eq) (simp add: listed_codec_def toy_line_value)
  then show ?thesis
    by (simp add: append_record_def toy_spool_def first_cursor_def append_line_def MAX_BODY_BYTES_def RECORD_MAX_BYTES_def)
qed



theorem compaction_keeps_queue_witness:
  "\<exists>sp'. compact default_limits (listed_codec [toy_value]) toy_spool = (Inr (), sp') \<and> sp_cursor sp' = first_cursor"
  using compaction_keeps_queue [OF toy_sound(1)] by (auto simp: toy_spool_def)

section \<open>Opening never reuses an identifier\<close>

lemma reconcile_next:
  assumes "reconcile_ids L sc w sp = Inr sp'"
  shows "\<exists>s. scan_records L sc sp' = Inr s \<and> sn_last s < cu_next (sp_cursor sp')"
proof -
  from assms obtain s where s: "scan_records L sc sp = Inr s" by (cases "scan_records L sc sp") (simp_all add: reconcile_ids_def)
  define highest where "highest = max (if sn_found s = [] then 0 else q_id (last (sn_found s))) (sn_last s)"
  define sp1 where "sp1 = (if cu_next (sp_cursor sp) < highest + 1
     then save_soft w (with_cursor (\<lambda>c. c\<lparr>cu_reconciled := cu_reconciled c + 1, cu_next := highest + 1\<rparr>) sp) else sp)"
  have "chain_lines L sp1 = chain_lines L sp" "cu_resolved (sp_cursor sp1) = cu_resolved (sp_cursor sp)" "highest < cu_next (sp_cursor sp1)"
    by (simp_all add: sp1_def save_soft_simps with_cursor_simps not_less)
  moreover have "sn_last s \<le> highest" by (simp add: highest_def)
  moreover have "sp' = with_cursor (\<lambda>c. c\<lparr>cu_attempts := filter (\<lambda>(k, _). k \<in> set (map (\<lambda>q. int_str (q_id q))
      (filter (\<lambda>q. cu_resolved (sp_cursor sp) < q_id q) (sn_found s)))) (cu_attempts c)\<rparr>) sp1"
    using assms unfolding reconcile_ids_def s Let_def res_bind_simps highest_def [symmetric] sp1_def [symmetric] by (simp only: sum.inject)
  ultimately show ?thesis using s by (simp add: scan_records_eq with_cursor_simps)
qed

lemma count_corrupt_simps:
  "chain_lines L (count_corrupt L sc w sp) = chain_lines L sp" "cu_resolved (sp_cursor (count_corrupt L sc w sp)) = cu_resolved (sp_cursor sp)"
  "cu_next (sp_cursor (count_corrupt L sc w sp)) = cu_next (sp_cursor sp)"
  by (simp_all add: count_corrupt_def Let_def save_soft_simps with_cursor_simps)

text \<open>
  C13: No identifier is handed out twice: whatever the state file says and whatever the state saves do, a spool that
  opens scans, and its next identifier is beyond the identifier of every line on disk, readable or not - also when a
  crash came between the record and the state.
\<close>

theorem open_never_reuses:
  assumes "open_spool L sc w1 w2 sp = Inr sp'"
  shows "sp_open sp' \<and> (\<exists>s. scan_records L sc sp' = Inr s)
    \<and> (\<forall>line\<in>set (chain_lines L sp'). \<exists>i. line_id sc line = Some i \<and> 1 \<le> i \<and> i < cu_next (sp_cursor sp'))"
proof -
  from assms obtain c sp1 where r: "reconcile_ids L sc w1 (repair_tail L (sp\<lparr>sp_cursor := c\<rparr>)) = Inr sp1"
    and sp': "sp' = (count_corrupt L sc w2 sp1)\<lparr>sp_open := True\<rparr>"
    by (auto simp: open_spool_def res_bind_eq_Inr)
  have same: "chain_lines L sp' = chain_lines L sp1" "cu_resolved (sp_cursor sp') = cu_resolved (sp_cursor sp1)" "cu_next (sp_cursor sp') = cu_next (sp_cursor sp1)"
    using count_corrupt_simps [of L sc w2 sp1] by (simp_all add: sp' chain_lines_eq)
  from reconcile_next [OF r] obtain s where s: "scan_records L sc sp1 = Inr s" "sn_last s < cu_next (sp_cursor sp1)" by blast
  from s(1) have "scan_records L sc sp' = Inr s" by (simp add: scan_records_eq same)
  moreover have "\<exists>i. line_id sc line = Some i \<and> 1 \<le> i \<and> i < cu_next (sp_cursor sp')" if "line \<in> set (chain_lines L sp')" for line
    using scan_fold_ids [OF s(1) [unfolded scan_records_eq]] that s(2) same by (force simp: no_scan_def)
  ultimately show ?thesis by (simp add: sp')
qed

theorem open_never_reuses_witness:
  "\<exists>sp'. open_spool default_limits (listed_codec [toy_value]) Landed Landed (toy_spool\<lparr>sp_current := Some toy_file\<rparr>) = Inr sp'
     \<and> (\<forall>line\<in>set (chain_lines default_limits sp'). \<exists>i. line_id (listed_codec [toy_value]) line = Some i \<and> i < cu_next (sp_cursor sp'))"
proof -
  let ?sc = "listed_codec [toy_value]" and ?sp = "toy_spool\<lparr>sp_current := Some toy_file\<rparr>"
  have t: "tidy_member default_limits toy_file" by (simp add: toy_file_def tidy_member_def ended_def default_limits_def MAX_BODY_BYTES_def)
  have "lines_of toy_file = [''rec-1'']" unfolding toy_file_def by (rule lines_of_plain) (simp_all add: LF_def CR_def)
  then have c: "chain_lines default_limits ?sp = [''rec-1'']"
    using member_lines_tidy [OF t] by (auto simp: chain_lines_eq toy_spool_def) (auto simp: member_lines_def)
  have d: "decode_record ?sc ''rec-1'' = Some toy_queued"
    using decode_own_line [OF toy_line_fine] toy_value_eq [of "[toy_value]"] by (simp add: listed_codec_def toy_line_value) (simp add: toy_queued_def)
  have s: "scan_records default_limits ?sc ?sp = Inr \<lparr>sn_found = [toy_queued], sn_last = 1, sn_blocked = 0\<rparr>"
    by (simp add: scan_records_eq c no_scan_def scan_line_def d) (simp add: toy_queued_def)
  have rep: "repair_tail default_limits ?sp = ?sp" using read_tidy [OF t] by (simp add: repair_tail_def toy_file_def)
  have ld: "load_state ?sp = Inr (sp_cursor ?sp)" by (simp add: load_state_def toy_spool_def)
  obtain sp' where o: "open_spool default_limits ?sc Landed Landed ?sp = Inr sp'"
    using rep s by (simp add: open_spool_def ld reconcile_ids_def Let_def)
  from open_never_reuses [OF this] o show ?thesis by blast
qed

section \<open>What a failed write leaves\<close>

lemma unreadable_line:
  assumes "line \<in> set (chain_lines L sp)" "sc_loads sc line = None"
  shows "\<exists>e. scan_records L sc sp = Inl e"
proof (cases "scan_records L sc sp")
  case (Inr s)
  from scan_fold_ids [OF this [unfolded scan_records_eq] assms(1)] assms(2) have False
    by (auto simp: line_id_def decode_record_def recover_record_id_def)
  then show ?thesis ..
qed simp

lemma pending_scan_fails: "scan_records L sc sp = Inl e \<Longrightarrow> pending L sc sp = Inl e"
  by (simp add: pending_def Let_def)

lemma open_scan_fails:
  assumes "line \<in> set (chain_lines L sp)" "sc_loads sc line = None"
    and "\<And>s. sp_current sp = Some s \<Longrightarrow> ended (read_member L s)"
  shows "\<exists>e. open_spool L sc w1 w2 sp = Inl e"
proof (cases "load_state sp")
  case (Inl e)
  then show ?thesis by (simp add: open_spool_def)
next
  case (Inr c)
  have rep: "repair_tail L (sp\<lparr>sp_cursor := c\<rparr>) = sp\<lparr>sp_cursor := c\<rparr>"
    using assms(3) by (auto simp: repair_tail_def Let_def ended_def split: option.split)
  have "chain_lines L (sp\<lparr>sp_cursor := c\<rparr>) = chain_lines L sp" by (simp add: chain_lines_eq)
  with unreadable_line [of line L "sp\<lparr>sp_cursor := c\<rparr>" sc] assms(1,2) obtain e where "scan_records L sc (sp\<lparr>sp_cursor := c\<rparr>) = Inl e" by auto
  then show ?thesis by (simp add: open_spool_def Inr rep reconcile_ids_def)
qed

text \<open>The file of an append that does not rotate.\<close>

lemma append_no_rotation:
  assumes "append_record L sc w saved probe run seq body epoch sp = (r, sp')" "sp_open sp" "length body \<le> MAX_BODY_BYTES"
    and "sp_current sp = Some s"
    and "length (record_line sc \<lparr>q_id = cu_next (sp_cursor sp), q_probe = probe, q_run = run, q_seq = seq, q_epoch = Fin epoch, q_body = body\<rparr>) \<le> RECORD_MAX_BYTES"
    and "length s + length (record_line sc \<lparr>q_id = cu_next (sp_cursor sp), q_probe = probe, q_run = run, q_seq = seq, q_epoch = Fin epoch, q_body = body\<rparr>) \<le> sx_file_bytes L"
  defines "line \<equiv> record_line sc \<lparr>q_id = cu_next (sp_cursor sp), q_probe = probe, q_run = run, q_seq = seq, q_epoch = Fin epoch, q_body = body\<rparr>"
  shows "sp_current sp' = Some (s @ (case w of Torn k \<Rightarrow> take k line | _ \<Rightarrow> line)) \<and> sp_rotated sp' = sp_rotated sp \<and> sp_open sp'
    \<and> (w \<noteq> Written \<longrightarrow> (\<exists>e. r = Inl e) \<and> sp_cursor sp' = sp_cursor sp)"
proof -
  have "sp_current (save_soft v x) = sp_current x" "sp_rotated (save_soft v x) = sp_rotated x" "sp_open (save_soft v x) = sp_open x" for v x
    by (cases v; simp add: save_soft_def save_state_def with_cursor_def Let_def)+
  then show ?thesis
    using assms(1-6) unfolding line_def
    by (cases w) (auto simp: append_record_def append_line_def Let_def with_cursor_def)
qed

text \<open>
  C15: One torn write jams the queue for good: when an append is cut in the middle of its line, the queue is refused
  at once; and when the next append succeeds, as the cycle after the failure makes it do, its record joins the
  fragment on one line, which no longer has an identifier, so the queue stays refused and every later start fails,
  because only an incomplete last line is repaired.
\<close>

theorem torn_append_jams_queue:
  assumes "sp_open sp" and "sp_current sp = Some s" and "ended s"
    and "append_record L sc (Torn k) w probe run seq body epoch sp = (r1, sp1)"
    and "append_record L sc Written w' probe' run' seq' body' epoch' sp1 = (r2, sp2)"
    and "length body \<le> MAX_BODY_BYTES" and "length body' \<le> MAX_BODY_BYTES"
    and "line = sc_dumps sc (record_value sc \<lparr>q_id = cu_next (sp_cursor sp), q_probe = probe, q_run = run, q_seq = seq, q_epoch = Fin epoch, q_body = body\<rparr>)"
    and "line' = sc_dumps sc (record_value sc \<lparr>q_id = cu_next (sp_cursor sp), q_probe = probe', q_run = run', q_seq = seq', q_epoch = Fin epoch', q_body = body'\<rparr>)"
    and "LF \<notin> set line \<union> set line'" and "CR \<notin> set line \<union> set line'" and "0 < k" and "k \<le> length line"
    and "line \<noteq> []" and "sc_loads sc (take k line) = None" and "sc_loads sc (take k line @ line') = None"
    and "Suc (length line) \<le> RECORD_MAX_BYTES" and "Suc (length line') \<le> RECORD_MAX_BYTES"
    and "length s + Suc (length line) + Suc (length line') \<le> sx_file_bytes L"
  shows "(\<exists>e. r1 = Inl e) \<and> (\<exists>e. pending L sc sp1 = Inl e) \<and> (\<exists>i. r2 = Inr i) \<and> (\<exists>e. pending L sc sp2 = Inl e)
    \<and> (\<forall>w1 w2. \<exists>e. open_spool L sc w1 w2 sp2 = Inl e)"
proof -
  let ?frag = "take k line"
  have rl: "record_line sc \<lparr>q_id = cu_next (sp_cursor sp), q_probe = probe, q_run = run, q_seq = seq, q_epoch = Fin epoch, q_body = body\<rparr> = line @ [LF]"
    "record_line sc \<lparr>q_id = cu_next (sp_cursor sp), q_probe = probe', q_run = run', q_seq = seq', q_epoch = Fin epoch', q_body = body'\<rparr> = line' @ [LF]"
    using assms(8,9) by (simp_all add: record_line_def)
  have a: "sp_current sp1 = Some (s @ ?frag)" "sp_rotated sp1 = sp_rotated sp" "sp_open sp1" "sp_cursor sp1 = sp_cursor sp" "\<exists>e. r1 = Inl e"
    using append_no_rotation [OF assms(4,1,6,2)] assms(13,17,19) unfolding rl by simp_all
  have b: "sp_current sp2 = Some (s @ ?frag @ line' @ [LF])" "sp_rotated sp2 = sp_rotated sp"
    using append_no_rotation [OF assms(5) a(3) assms(7) a(1)] assms(13,18,19) a unfolding a(4) rl by simp_all
  have r2: "\<exists>i. r2 = Inr i"
    using assms(5,7,18) a(3) by (auto simp: append_record_def append_line_def Let_def a(4) rl split: if_splits)
  have f: "?frag \<noteq> []" "LF \<notin> set ?frag" "CR \<notin> set ?frag" using assms(10-14) by (auto dest: in_set_takeD)
  have m: "?frag @ line' \<noteq> []" "LF \<notin> set (?frag @ line')" "CR \<notin> set (?frag @ line')" using f assms(10,11) by auto
  have len: "length (s @ ?frag) \<le> sx_file_bytes L * 4" "length (s @ ?frag @ line' @ [LF]) \<le> sx_file_bytes L * 4" using assms(13,19) by simp_all
  have "lines_of (s @ ?frag) = lines_of s @ [?frag]" using lines_of_append [OF assms(3)] lines_of_fragment [OF f] by simp
  moreover have "read_member L (s @ ?frag) = s @ ?frag" using len(1) unfolding read_member_def by (rule take_all)
  ultimately have l1: "?frag \<in> set (chain_lines L sp1)" unfolding chain_lines_eq a(1) member_lines_def by simp
  have "lines_of (s @ (?frag @ line') @ [LF]) = lines_of s @ [?frag @ line']" using lines_of_append [OF assms(3)] lines_of_plain [OF m] by simp
  moreover have rm: "read_member L (s @ ?frag @ line' @ [LF]) = s @ ?frag @ line' @ [LF]" using len(2) unfolding read_member_def by (rule take_all)
  ultimately have l2: "?frag @ line' \<in> set (chain_lines L sp2)" unfolding chain_lines_eq b(1) member_lines_def by simp
  have e: "ended (read_member L t)" if "sp_current sp2 = Some t" for t using that b(1) rm by (auto simp: ended_def)
  show ?thesis
    using a(5) r2 unreadable_line [OF l1 assms(15)] unreadable_line [OF l2 assms(16)] open_scan_fails [OF l2 assms(16) e]
    by (blast dest: pending_scan_fails)
qed

theorem torn_append_jams_queue_witness:
  "\<exists>r1 sp1 r2 sp2. append_record default_limits (listed_codec [toy_value]) (Torn 3) Landed ''office-1'' ''aa'' 7 ''{}'' 1000 (toy_spool\<lparr>sp_current := Some []\<rparr>) = (r1, sp1)
     \<and> append_record default_limits (listed_codec [toy_value]) Written Landed ''office-1'' ''aa'' 7 ''{}'' 1000 sp1 = (r2, sp2)
     \<and> (\<exists>e. open_spool default_limits (listed_codec [toy_value]) Landed Landed sp2 = Inl e)"
proof -
  let ?sc = "listed_codec [toy_value]" and ?sp = "toy_spool\<lparr>sp_current := Some []\<rparr>"
  obtain r1 sp1 where a: "append_record default_limits ?sc (Torn 3) Landed ''office-1'' ''aa'' 7 ''{}'' 1000 ?sp = (r1, sp1)" by (meson surj_pair)
  obtain r2 sp2 where b: "append_record default_limits ?sc Written Landed ''office-1'' ''aa'' 7 ''{}'' 1000 sp1 = (r2, sp2)" by (meson surj_pair)
  have q: "\<lparr>q_id = cu_next (sp_cursor ?sp), q_probe = ''office-1'', q_run = ''aa'', q_seq = 7, q_epoch = Fin 1000, q_body = ''{}''\<rparr> = toy_queued"
    by (simp add: toy_queued_def toy_spool_def first_cursor_def)
  have l: "''rec-1'' = sc_dumps ?sc (record_value ?sc toy_queued)" unfolding toy_value_eq by (simp add: listed_codec_def toy_line_value)
  have "\<forall>w1 w2. \<exists>e. open_spool default_limits ?sc w1 w2 sp2 = Inl e"
    using torn_append_jams_queue [OF _ _ _ a b, unfolded q, OF _ _ _ _ _ l l, of "[]"]
    by (simp add: toy_spool_def ended_def MAX_BODY_BYTES_def RECORD_MAX_BYTES_def default_limits_def LF_def CR_def listed_codec_def toy_line_value)
  with a b show ?thesis by blast
qed

text \<open>
  A record that was written but not synchronised jams the queue as well: the append reports failure and keeps
  its identifier for the next record, which then is a second line under the same identifier; the queue is refused and
  stays so over restarts.
\<close>

lemma unsynced_append_jams_queue:
  assumes "sp_open sp" and "sp_current sp = Some s" and "ended s"
    and "append_record L sc Unsynced w probe run seq body epoch sp = (r1, sp1)"
    and "append_record L sc Written w' probe' run' seq' body' epoch' sp1 = (r2, sp2)"
    and "length body \<le> MAX_BODY_BYTES" and "length body' \<le> MAX_BODY_BYTES"
    and "line_fine sc \<lparr>q_id = cu_next (sp_cursor sp), q_probe = probe, q_run = run, q_seq = seq, q_epoch = Fin epoch, q_body = body\<rparr>"
    and "line_fine sc \<lparr>q_id = cu_next (sp_cursor sp), q_probe = probe', q_run = run', q_seq = seq', q_epoch = Fin epoch', q_body = body'\<rparr>"
    and "line = sc_dumps sc (record_value sc \<lparr>q_id = cu_next (sp_cursor sp), q_probe = probe, q_run = run, q_seq = seq, q_epoch = Fin epoch, q_body = body\<rparr>)"
    and "line' = sc_dumps sc (record_value sc \<lparr>q_id = cu_next (sp_cursor sp), q_probe = probe', q_run = run', q_seq = seq', q_epoch = Fin epoch', q_body = body'\<rparr>)"
    and "1 \<le> cu_next (sp_cursor sp)"
    and "Suc (length line) \<le> RECORD_MAX_BYTES" and "Suc (length line') \<le> RECORD_MAX_BYTES"
    and "length s + Suc (length line) + Suc (length line') \<le> sx_file_bytes L"
  shows "(\<exists>e. r1 = Inl e) \<and> (\<exists>e. pending L sc sp2 = Inl e) \<and> (\<forall>w1 w2. \<exists>e. open_spool L sc w1 w2 sp2 = Inl e)"
proof -
  let ?n = "cu_next (sp_cursor sp)"
  have rl: "record_line sc \<lparr>q_id = ?n, q_probe = probe, q_run = run, q_seq = seq, q_epoch = Fin epoch, q_body = body\<rparr> = line @ [LF]"
    "record_line sc \<lparr>q_id = ?n, q_probe = probe', q_run = run', q_seq = seq', q_epoch = Fin epoch', q_body = body'\<rparr> = line' @ [LF]"
    using assms(10,11) by (simp_all add: record_line_def)
  have a: "sp_current sp1 = Some (s @ line @ [LF])" "sp_rotated sp1 = sp_rotated sp" "sp_open sp1" "sp_cursor sp1 = sp_cursor sp" "\<exists>e. r1 = Inl e"
    using append_no_rotation [OF assms(4,1,6,2)] assms(13,15) unfolding rl by simp_all
  have b: "sp_current sp2 = Some (s @ line @ [LF] @ line' @ [LF])" "sp_rotated sp2 = sp_rotated sp"
    using append_no_rotation [OF assms(5) a(3) assms(7) a(1)] assms(14,15) unfolding a(4) rl a(2) by simp_all
  have clean: "line \<noteq> []" "LF \<notin> set line" "CR \<notin> set line" "line' \<noteq> []" "LF \<notin> set line'" "CR \<notin> set line'"
    using assms(8-11) by (simp_all add: line_fine_def)
  have ids: "line_id sc line = Some ?n" "line_id sc line' = Some ?n"
    using decode_own_line [OF assms(8)] decode_own_line [OF assms(9)] assms(10-12) by (simp_all add: line_id_def)
  have len: "length (s @ line @ [LF] @ line' @ [LF]) \<le> sx_file_bytes L * 4" using assms(15) by simp
  have el: "ended (line @ [LF])" by (simp add: ended_def)
  have "lines_of (s @ (line @ [LF]) @ line' @ [LF]) = lines_of s @ lines_of (line @ [LF]) @ lines_of (line' @ [LF])"
    unfolding lines_of_append [OF assms(3)] lines_of_append [OF el] ..
  with lines_of_plain [OF clean(1-3)] lines_of_plain [OF clean(4-6)]
  have "lines_of (s @ line @ [LF] @ line' @ [LF]) = lines_of s @ [line, line']" by simp
  moreover have rm: "read_member L (s @ line @ [LF] @ line' @ [LF]) = s @ line @ [LF] @ line' @ [LF]"
    using len unfolding read_member_def by (rule take_all)
  ultimately have "\<exists>pre. chain_lines L sp2 = pre @ [line, line']" unfolding chain_lines_eq b(1) member_lines_def option.case rm by simp
  then obtain pre where pre: "chain_lines L sp2 = pre @ [line, line']" ..
  have no: "\<exists>e. res_fold (scan_line sc r) no_scan (pre @ [line, line']) = Inl e" for r
  proof (cases "res_fold (scan_line sc r) no_scan (pre @ [line, line'])")
    case (Inr t)
    then obtain t1 where t1: "res_fold (scan_line sc r) no_scan (pre @ [line]) = Inr t1" "scan_line sc r t1 line' = Inr t"
      by (auto simp: res_fold_append res_bind_eq_Inr)
    from t1(1) obtain t0 where "scan_line sc r t0 line = Inr t1" by (auto simp: res_fold_append res_bind_eq_Inr)
    with t1(2) ids show ?thesis by (auto simp: scan_line_Inr)
  qed simp
  have "\<exists>e. open_spool L sc w1 w2 sp2 = Inl e" for w1 w2
  proof (cases "load_state sp2")
    case (Inl e)
    then show ?thesis by (simp add: open_spool_def)
  next
    case (Inr c)
    have "repair_tail L (sp2\<lparr>sp_cursor := c\<rparr>) = sp2\<lparr>sp_cursor := c\<rparr>"
      using b(1) rm by (simp add: repair_tail_def Let_def)
    moreover have "chain_lines L (sp2\<lparr>sp_cursor := c\<rparr>) = pre @ [line, line']" using pre by (simp add: chain_lines_eq)
    moreover obtain e where "res_fold (scan_line sc (cu_resolved c)) no_scan (pre @ [line, line']) = Inl e" using no by blast
    ultimately show ?thesis by (simp add: open_spool_def Inr reconcile_ids_def scan_records_eq)
  qed
  moreover obtain e where "res_fold (scan_line sc (cu_resolved (sp_cursor sp2))) no_scan (pre @ [line, line']) = Inl e" using no by blast
  then have "pending L sc sp2 = Inl e" by (intro pending_scan_fails) (simp add: scan_records_eq pre)
  then have "\<exists>e. pending L sc sp2 = Inl e" ..
  ultimately show ?thesis using a(5) by blast
qed

text \<open>
  A rotation can delete records that were never sent: when the chain is full, the append that needs a new file
  deletes the oldest rotated member with every record in it, resolved or not, and counts one drop; the cursor does not
  pass them, so no terminal state is ever recorded for them.
\<close>

lemma rotation_drops_unsent:
  assumes "2 \<le> sx_max_files L" and "line \<in> set (last_member L sp)" and "line_id sc line = Some i" and "cu_resolved (sp_cursor sp) < i"
    and "scan_records L sc sp = Inr s" and "sp_rotated sp (sx_max_files L - 1) \<noteq> None"
  shows "line \<in> set (chain_lines L sp) \<and> line \<notin> set (chain_lines L (rotate L sp))
    \<and> cu_resolved (sp_cursor (rotate L sp)) < i \<and> cu_dropped (sp_cursor (rotate L sp)) = cu_dropped (sp_cursor sp) + 1"
proof -
  have r: "chain_lines L sp = last_member L sp @ chain_lines L (rotate L sp)" by (rule rotate_lines [OF assms(1)])
  have "line \<notin> set (chain_lines L (rotate L sp))"
  proof
    assume again: "line \<in> set (chain_lines L (rotate L sp))"
    from assms(5) r obtain t where t: "res_fold (scan_line sc (cu_resolved (sp_cursor sp))) no_scan (last_member L sp) = Inr t"
      "res_fold (scan_line sc (cu_resolved (sp_cursor sp))) t (chain_lines L (rotate L sp)) = Inr s"
      by (auto simp: scan_records_eq res_fold_append res_bind_eq_Inr)
    from scan_fold_ids [OF t(1) assms(2)] scan_fold_ids [OF t(2) again] assms(3) show False by auto
  qed
  moreover obtain n where n: "sx_max_files L = Suc n" "0 < n" using assms(1) by (cases "sx_max_files L") auto
  moreover have "foldl shift_step (sp_rotated sp) (rev [1 ..< Suc n]) (Suc n) \<noteq> None"
    using assms(6) n by (simp only: shift_fold) auto
  ultimately show ?thesis
    using assms(2,4) r by (simp add: rotate_def Let_def with_cursor_def shift_step_def)
qed

end
