(* ===== verification/Delivery.thy ===== *)
theory Delivery
  imports Queue
begin

text \<open>
  The upload of spooled records (\<open>monitor-v2/remote_probe/delivery.py\<close>): the classification of a response, the
  backoff, the signed request and one pass over the queue. The transport is a function that takes the state of the
  world, a body and headers to an answer and the next state; the clocks, the jitter and the fates of the state saves
  are given for every record of the pass.
\<close>

section \<open>Responses\<close>

datatype disposition = Ack | Retry | Permanent

definition SUCCESS_KEYS :: "string list" where "SUCCESS_KEYS = [''v'', ''result'']"
definition SUCCESS_RESULTS :: "string list" where "SUCCESS_RESULTS = [''accepted'', ''duplicate'']"

definition success_body_response :: "(string \<Rightarrow> pyval option) \<Rightarrow> string \<Rightarrow> bool" where
  "success_body_response loads body =
     (case loads body of
        Some (PDict d) \<Rightarrow> exact_keys d SUCCESS_KEYS \<and> is_one (pgetN d ''v'') \<and> pgetN d ''v'' \<noteq> PBool True
                            \<and> one_in SUCCESS_RESULTS (pgetN d ''result'')
      | _ \<Rightarrow> False)"

definition classify_response :: "(string \<Rightarrow> pyval option) \<Rightarrow> pyval \<Rightarrow> string \<Rightarrow> disposition \<times> string option" where
  "classify_response loads status body =
     (case status of
        PInt s \<Rightarrow>
          if 200 \<le> s \<and> s < 300 then (if success_body_response loads body then (Ack, None) else (Permanent, Some ''malformed_2xx''))
          else if 300 \<le> s \<and> s < 400 then (Permanent, Some ''redirect'')
          else if s = 408 \<or> s = 429 then (Retry, None)
          else if s = 413 then (Permanent, Some ''oversize'')
          else if 400 \<le> s \<and> s < 500 then (Permanent, Some ''client_error'')
          else if 500 \<le> s \<and> s < 600 then (Retry, None)
          else (Permanent, Some ''unknown_response'')
      | _ \<Rightarrow> (Permanent, Some ''unknown_response''))"

section \<open>Backoff\<close>

definition BACKOFF_CAP_SECONDS :: rat where "BACKOFF_CAP_SECONDS = 60"
definition UNKNOWN_RESPONSE_MAX_ATTEMPTS :: int where "UNKNOWN_RESPONSE_MAX_ATTEMPTS = 5"

text \<open>The product of a \<open>float\<close> and the integer power converts the power; the jitter is the value its source returns.\<close>

definition backoff_delay :: "int \<Rightarrow> rat option \<Rightarrow> rat res" where
  "backoff_delay attempt jitter =
     res_bind (int_to_float (2 ^ nat attempt)) (\<lambda>p.
       let full = min BACKOFF_CAP_SECONDS p in
       Inr (case jitter of None \<Rightarrow> full | Some share \<Rightarrow> full * (1 / 2 + 1 / 2 * min 1 (max 0 share))))"

section \<open>Requests\<close>

abbreviation UploadConfigError :: exn where "UploadConfigError \<equiv> ConfigurationError"

definition canonical_sent_epoch :: "pyval \<Rightarrow> int res" where
  "canonical_sent_epoch v =
     (case v of
        PInt i \<Rightarrow> res_bind (int_to_float i) (\<lambda>_. if i < 0 then Inl UploadConfigError else Inr i)
      | PFloat (Fin q) \<Rightarrow> if q < 0 then Inl UploadConfigError else Inr \<lfloor>q\<rfloor>
      | _ \<Rightarrow> Inl UploadConfigError)"

record sender =
  sd_sha :: "string \<Rightarrow> string"
  sd_mac :: "string \<Rightarrow> string \<Rightarrow> string"
  sd_loads :: "string \<Rightarrow> pyval option"
  sd_secret :: string
  sd_probe :: string

definition sign_record :: "sender \<Rightarrow> string \<Rightarrow> int \<Rightarrow> string \<Rightarrow> pyval \<Rightarrow> wire_headers res" where
  "sign_record sd run seq body sent =
     res_bind (canonical_sent_epoch sent) (\<lambda>epoch.
     res_bind (sign (sd_sha sd) (sd_mac sd) (sd_secret sd) (sd_probe sd) epoch run seq body) (\<lambda>signature.
     Inr (headers (sd_probe sd) epoch run seq signature)))"

section \<open>One pass\<close>

text \<open>What the transport raises is only used by the name of its type.\<close>

type_synonym 'w poster = "'w \<Rightarrow> string \<Rightarrow> wire_headers \<Rightarrow> (string + pyval \<times> string) \<times> 'w"

record turn =
  tn_charge :: commit
  tn_sent :: pyval
  tn_settle :: commit
  tn_now :: rat
  tn_jitter :: "rat option"

record summary =
  dv_acked :: nat
  dv_quarantined :: nat
  dv_retries :: nat
  dv_attempts :: nat
  dv_attempt :: "int option"
  dv_stopped :: "string option"
  dv_retry_after :: rat

definition no_summary :: summary where
  "no_summary = \<lparr>dv_acked = 0, dv_quarantined = 0, dv_retries = 0, dv_attempts = 0, dv_attempt = None, dv_stopped = None, dv_retry_after = 0\<rparr>"

definition stop_retry :: "turn \<Rightarrow> int \<Rightarrow> string \<Rightarrow> summary \<Rightarrow> summary res" where
  "stop_retry t attempt why s =
     res_bind (backoff_delay attempt (tn_jitter t)) (\<lambda>delay.
       Inr (s\<lparr>dv_attempt := Some attempt, dv_retries := Suc (dv_retries s), dv_stopped := Some why, dv_retry_after := delay\<rparr>))"

definition stop_undurable :: "turn \<Rightarrow> summary \<Rightarrow> summary res" where
  "stop_undurable t s =
     res_bind (backoff_delay 1 (tn_jitter t)) (\<lambda>delay. Inr (s\<lparr>dv_stopped := Some ''retry_state_not_durable'', dv_retry_after := delay\<rparr>))"

definition spool_blocked :: "spool_limits \<Rightarrow> spool_codec \<Rightarrow> spool \<Rightarrow> bool" where
  "spool_blocked L sc sp = st_blocked (spool_status_of L sc sp)"

definition finish_pass :: "spool_limits \<Rightarrow> spool_codec \<Rightarrow> spool \<Rightarrow> summary \<Rightarrow> summary" where
  "finish_pass L sc sp s = (if spool_blocked L sc sp then s\<lparr>dv_stopped := Some ''queue_blocked''\<rparr> else s)"

text \<open>One record: it ends the pass with a result, or the pass goes on with a new summary.\<close>

datatype progress = Ended "summary res" | Onward summary

definition deliver_record :: "sender \<Rightarrow> 'w poster \<Rightarrow> int \<Rightarrow> turn \<Rightarrow> queued \<Rightarrow> summary \<Rightarrow> spool \<Rightarrow> 'w \<Rightarrow> progress \<times> spool \<times> 'w" where
  "deliver_record sd poster max_unknown t q s0 sp w =
     (case note_attempt (tn_charge t) (q_id q) sp of
        (Inl _, sp1) \<Rightarrow> (Ended (stop_undurable t s0), sp1, w)
      | (Inr attempt, sp1) \<Rightarrow>
          (let s = s0\<lparr>dv_attempts := Suc (dv_attempts s0)\<rparr> in
           case sign_record sd (q_run q) (q_seq q) (q_body q) (tn_sent t) of
             Inl e \<Rightarrow> (Ended (Inl e), sp1, w)
           | Inr h \<Rightarrow>
               (case poster w (q_body q) h of
                  (Inl kind, w') \<Rightarrow> (Ended (stop_retry t attempt kind s), sp1, w')
                | (Inr (status, said), w') \<Rightarrow>
                    (case classify_response (sd_loads sd) status said of
                       (Retry, _) \<Rightarrow> (Ended (stop_retry t attempt ''retryable'' s), sp1, w')
                     | (Ack, _) \<Rightarrow>
                         (case resolve (tn_settle t) (tn_now t) (q_id q) None sp1 of
                            (Inl e, sp2) \<Rightarrow> (Ended (Inl e), sp2, w')
                          | (Inr _, sp2) \<Rightarrow> (Onward (s\<lparr>dv_acked := Suc (dv_acked s)\<rparr>), sp2, w'))
                     | (Permanent, token) \<Rightarrow>
                         if token = Some ''unknown_response'' \<and> attempt < max_unknown
                         then (Ended (stop_retry t attempt ''unknown_bounded'' s), sp1, w')
                         else (case resolve (tn_settle t) (tn_now t) (q_id q) token sp1 of
                                 (Inl e, sp2) \<Rightarrow> (Ended (Inl e), sp2, w')
                               | (Inr _, sp2) \<Rightarrow> (Onward (s\<lparr>dv_quarantined := Suc (dv_quarantined s)\<rparr>), sp2, w'))))))"

fun deliver_from :: "sender \<Rightarrow> spool_limits \<Rightarrow> spool_codec \<Rightarrow> 'w poster \<Rightarrow> (nat \<Rightarrow> turn) \<Rightarrow> nat option \<Rightarrow> int \<Rightarrow> nat \<Rightarrow> queued list
    \<Rightarrow> summary \<Rightarrow> spool \<Rightarrow> 'w \<Rightarrow> summary res \<times> spool \<times> 'w" where
  "deliver_from sd L sc poster turns limit max_unknown k [] s sp w = (Inr (finish_pass L sc sp s), sp, w)"
| "deliver_from sd L sc poster turns limit max_unknown k (q # qs) s sp w =
     (if (case limit of None \<Rightarrow> False | Some n \<Rightarrow> n \<le> dv_attempts s) then (Inr (finish_pass L sc sp s), sp, w)
      else case deliver_record sd poster max_unknown (turns k) q s sp w of
          (Ended outcome, sp', w') \<Rightarrow> (outcome, sp', w')
        | (Onward s', sp', w') \<Rightarrow> deliver_from sd L sc poster turns limit max_unknown (Suc k) qs s' sp' w')"

definition deliver_pending :: "sender \<Rightarrow> spool_limits \<Rightarrow> spool_codec \<Rightarrow> 'w poster \<Rightarrow> (nat \<Rightarrow> turn) \<Rightarrow> nat option \<Rightarrow> int \<Rightarrow> spool \<Rightarrow> 'w
    \<Rightarrow> summary res \<times> spool \<times> 'w" where
  "deliver_pending sd L sc poster turns limit max_unknown sp w =
     (case pending L sc sp of
        Inl _ \<Rightarrow> (Inr (no_summary\<lparr>dv_stopped := Some ''queue_blocked''\<rparr>), sp, w)
      | Inr qs \<Rightarrow> deliver_from sd L sc poster turns limit max_unknown 0 qs no_summary sp w)"

section \<open>The parts of a pass\<close>

lemma classify_Ack: "fst (classify_response loads status said) = Ack \<Longrightarrow>
    snd (classify_response loads status said) = None \<and> (\<exists>s. status = PInt s \<and> 200 \<le> s \<and> s < 300) \<and> success_body_response loads said"
  by (auto simp: classify_response_def split: pyval.splits if_splits)

lemma classify_token:
  "fst (classify_response loads status said) = Permanent \<Longrightarrow> \<exists>t. snd (classify_response loads status said) = Some t \<and> t \<in> set QUARANTINE_TOKENS"
  by (cases status) (auto simp: classify_response_def QUARANTINE_TOKENS_def)

lemma note_attempt_cursor:
  assumes "note_attempt w i sp = (r, sp')"
  shows "cu_resolved (sp_cursor sp') = cu_resolved (sp_cursor sp)" "cu_acknowledged (sp_cursor sp') = cu_acknowledged (sp_cursor sp)"
    "chain_lines L sp' = chain_lines L sp" "r = Inr n \<Longrightarrow> n = attempts i sp + 1"
  using assms by (cases w; auto simp: note_attempt_def save_state_def with_cursor_def Let_def chain_lines_eq)+

lemma save_soft_acknowledged: "cu_acknowledged (sp_cursor (save_soft v x)) = cu_acknowledged (sp_cursor x)"
  by (cases v) (simp_all add: save_soft_def save_state_def with_cursor_def Let_def)

lemma resolve_forward:
  assumes "1 \<le> i" "cu_resolved (sp_cursor sp) < i" "\<And>t. token = Some t \<Longrightarrow> t \<in> set QUARANTINE_TOKENS"
  shows "\<exists>sp'. resolve w now i token sp = (Inr True, sp') \<and> cu_resolved (sp_cursor sp') = i \<and> chain_lines L sp' = chain_lines L sp
    \<and> cu_acknowledged (sp_cursor sp') = cu_acknowledged (sp_cursor sp) + (if token = None then 1 else 0)"
  using assms by (cases token) (simp_all add: resolve_def Let_def save_soft_simps with_cursor_simps save_soft_acknowledged)

lemma pending_sorted:
  assumes "pending L sc sp = Inr qs"
  shows "sorted_wrt (<) (map q_id qs)" "\<forall>q\<in>set qs. cu_resolved (sp_cursor sp) < q_id q \<and> 1 \<le> q_id q"
proof -
  from assms obtain s where s: "scan_records L sc sp = Inr s"
    by (cases "scan_records L sc sp") (simp_all add: pending_def Let_def)
  have i: "scan_inv (cu_resolved (sp_cursor sp)) s" by (rule scan_records_inv [OF s])
  from assms pending_eq [OF s] have q: "qs = filter (\<lambda>q. cu_resolved (sp_cursor sp) < q_id q \<and> (sn_blocked s = 0 \<or> q_id q < sn_blocked s)) (sn_found s)"
    by (auto split: if_splits)
  show "sorted_wrt (<) (map q_id qs)" using i unfolding q scan_inv_def by (blast intro: sorted_wrt_filter_map)
  show "\<forall>q\<in>set qs. cu_resolved (sp_cursor sp) < q_id q \<and> 1 \<le> q_id q" using i unfolding q scan_inv_def by simp
qed

text \<open>How one record can leave the pass going on: acknowledged, or refused for good.\<close>

lemma deliver_record_cases [consumes 3, case_names Ended Acked Refused]:
  assumes "deliver_record sd poster max_unknown t q s sp w = (p, sp', w')" and "1 \<le> q_id q" and "cu_resolved (sp_cursor sp) < q_id q"
  obtains outcome where "p = Ended outcome" "cu_resolved (sp_cursor sp') = cu_resolved (sp_cursor sp)"
      "cu_acknowledged (sp_cursor sp') = cu_acknowledged (sp_cursor sp)"
      "w' = w \<or> (\<exists>h a. sign_record sd (q_run q) (q_seq q) (q_body q) (tn_sent t) = Inr h \<and> poster w (q_body q) h = (a, w'))"
  | h status said where "p = Onward (s\<lparr>dv_attempts := Suc (dv_attempts s), dv_acked := Suc (dv_acked s)\<rparr>)" "cu_resolved (sp_cursor sp') = q_id q"
      "cu_acknowledged (sp_cursor sp') = cu_acknowledged (sp_cursor sp) + 1"
      "sign_record sd (q_run q) (q_seq q) (q_body q) (tn_sent t) = Inr h" "poster w (q_body q) h = (Inr (status, said), w')"
      "fst (classify_response (sd_loads sd) status said) = Ack"
  | h status said where "p = Onward (s\<lparr>dv_attempts := Suc (dv_attempts s), dv_quarantined := Suc (dv_quarantined s)\<rparr>)" "cu_resolved (sp_cursor sp') = q_id q"
      "cu_acknowledged (sp_cursor sp') = cu_acknowledged (sp_cursor sp)"
      "sign_record sd (q_run q) (q_seq q) (q_body q) (tn_sent t) = Inr h" "poster w (q_body q) h = (Inr (status, said), w')"
      "fst (classify_response (sd_loads sd) status said) = Permanent"
proof -
  obtain r sp1 where n: "note_attempt (tn_charge t) (q_id q) sp = (r, sp1)" by force
  note c = note_attempt_cursor(1,2) [OF n]
  show ?thesis
  proof (cases r)
    case (Inl e)
    with assms(1) n c show ?thesis by (intro that(1) [of "stop_undurable t s"]) (simp_all add: deliver_record_def)
  next
    case (Inr attempt)
    show ?thesis
    proof (cases "sign_record sd (q_run q) (q_seq q) (q_body q) (tn_sent t)")
      case sign: (Inl e)
      with assms(1) n c Inr show ?thesis by (intro that(1) [of "Inl e"]) (simp_all add: deliver_record_def Let_def)
    next
      case sign: (Inr h)
      obtain a w1 where post: "poster w (q_body q) h = (a, w1)" by force
      show ?thesis
      proof (cases a)
        case a: (Inl kind)
        with assms(1) n c Inr sign post show ?thesis
          by (intro that(1) [of "stop_retry t attempt kind (s\<lparr>dv_attempts := Suc (dv_attempts s)\<rparr>)"]) (auto simp: deliver_record_def Let_def)
      next
        case a: (Inr st)
        obtain status said where st: "st = (status, said)" by force
        obtain d token where d: "classify_response (sd_loads sd) status said = (d, token)" by force
        note base = n Inr sign post a st d
        show ?thesis
        proof (cases d)
          case Ack
          with classify_Ack [of "sd_loads sd" status said] d have "token = None" by simp
          from assms(2,3) c obtain sp2 where r: "resolve (tn_settle t) (tn_now t) (q_id q) None sp1 = (Inr True, sp2)"
            "cu_resolved (sp_cursor sp2) = q_id q" "cu_acknowledged (sp_cursor sp2) = cu_acknowledged (sp_cursor sp1) + 1" using resolve_forward [of "q_id q" sp1 None "tn_settle t" "tn_now t" L] by auto
          show ?thesis
            using assms(1) base c Ack r by (intro that(2) [of h status said]) (simp_all add: deliver_record_def Let_def)
        next
          case Retry
          with assms(1) base c show ?thesis
            by (intro that(1) [of "stop_retry t attempt ''retryable'' (s\<lparr>dv_attempts := Suc (dv_attempts s)\<rparr>)"]) (auto simp: deliver_record_def Let_def)
        next
          case Permanent
          show ?thesis
          proof (cases "token = Some ''unknown_response'' \<and> attempt < max_unknown")
            case True
            with assms(1) base c Permanent show ?thesis
              by (intro that(1) [of "stop_retry t attempt ''unknown_bounded'' (s\<lparr>dv_attempts := Suc (dv_attempts s)\<rparr>)"]) (auto simp: deliver_record_def Let_def)
          next
            case False
            from classify_token [of "sd_loads sd" status said] d Permanent have tok: "\<And>t. token = Some t \<Longrightarrow> t \<in> set QUARANTINE_TOKENS" "token \<noteq> None" by auto
            from assms(2,3) c tok obtain sp2 where r: "resolve (tn_settle t) (tn_now t) (q_id q) token sp1 = (Inr True, sp2)"
              "cu_resolved (sp_cursor sp2) = q_id q" "cu_acknowledged (sp_cursor sp2) = cu_acknowledged (sp_cursor sp1)" using resolve_forward [of "q_id q" sp1 token "tn_settle t" "tn_now t" L] by auto
            show ?thesis
              using assms(1) base c Permanent False r by (intro that(3) [of h status said]) (simp_all add: deliver_record_def Let_def)
          qed
        qed
      qed
    qed
  qed
qed

section \<open>What an acknowledgement is worth\<close>

text \<open>
  What a pass needs of the far side of the transport: a state it keeps, a record of what it has taken that never
  shrinks, and that an answer which counts as an acknowledgement means that this request has been taken.
\<close>

locale far_end =
  fixes poster :: "'w poster" and loads :: "string \<Rightarrow> pyval option"
    and good :: "'w \<Rightarrow> bool" and taken :: "string \<Rightarrow> wire_headers \<Rightarrow> 'w \<Rightarrow> bool"
  assumes good_kept: "good w \<Longrightarrow> poster w body h = (a, w') \<Longrightarrow> good w'"
    and taken_kept: "taken body' h' w \<Longrightarrow> poster w body h = (a, w') \<Longrightarrow> taken body' h' w'"
    and acked_taken: "good w \<Longrightarrow> poster w body h = (Inr (status, said), w') \<Longrightarrow> fst (classify_response loads status said) = Ack \<Longrightarrow> taken body h w'"
begin

lemma deliver_from_taken:
  assumes "deliver_from sd L sc poster turns limit max_unknown k qs s sp w = (r, sp', w')" and "sd_loads sd = loads" and "good w"
    and "sorted_wrt (<) (map q_id qs)" and "\<forall>q\<in>set qs. cu_resolved (sp_cursor sp) < q_id q \<and> 1 \<le> q_id q"
  shows "good w' \<and> cu_resolved (sp_cursor sp) \<le> cu_resolved (sp_cursor sp') \<and> (\<forall>body h. taken body h w \<longrightarrow> taken body h w')
    \<and> (\<exists>acked. set acked \<subseteq> set qs \<and> distinct acked
        \<and> cu_acknowledged (sp_cursor sp') = cu_acknowledged (sp_cursor sp) + int (length acked)
        \<and> (\<forall>q\<in>set acked. q_id q \<le> cu_resolved (sp_cursor sp') \<and> (\<exists>t h. sign_record sd (q_run q) (q_seq q) (q_body q) t = Inr h \<and> taken (q_body q) h w')))"
  using assms
proof (induction qs arbitrary: k s sp w)
  case Nil
  then show ?case by (auto intro!: exI [of _ "[]"])
next
  case (Cons q qs)
  show ?case
  proof (cases "case limit of None \<Rightarrow> False | Some n \<Rightarrow> n \<le> dv_attempts s")
    case True
    with Cons.prems show ?thesis by (auto intro!: exI [of _ "[]"])
  next
    case False
    obtain p sp1 w1 where d: "deliver_record sd poster max_unknown (turns k) q s sp w = (p, sp1, w1)" by (metis prod_cases3)
    have q: "1 \<le> q_id q" "cu_resolved (sp_cursor sp) < q_id q" using Cons.prems(5) by simp_all
    from Cons.prems(4) have tl: "sorted_wrt (<) (map q_id qs)" "\<forall>x\<in>set qs. q_id q < q_id x" by simp_all
    with Cons.prems(5) have rest: "\<forall>x\<in>set qs. q_id q < q_id x \<and> 1 \<le> q_id x" by simp
    from d q show ?thesis
    proof (cases rule: deliver_record_cases)
      case (Ended outcome)
      with Cons.prems(1) False d have e: "r = outcome" "sp' = sp1" "w' = w1" by simp_all
      have "good w1 \<and> (\<forall>body h. taken body h w \<longrightarrow> taken body h w1)" using Ended(4) Cons.prems(3) good_kept taken_kept by blast
      with e Ended show ?thesis by (auto intro!: exI [of _ "[]"])
    next
      case (Acked h status said)
      have step: "deliver_from sd L sc poster turns limit max_unknown (Suc k) qs (s\<lparr>dv_attempts := Suc (dv_attempts s), dv_acked := Suc (dv_acked s)\<rparr>) sp1 w1 = (r, sp', w')"
        using Cons.prems(1) False d Acked(1) by simp
      have g: "good w1" "\<forall>body h. taken body h w \<longrightarrow> taken body h w1" "taken (q_body q) h w1"
        using good_kept taken_kept acked_taken Acked(5,6) Cons.prems(2,3) by blast+
      from Cons.IH [OF step Cons.prems(2) g(1) tl(1)] rest Acked(2) obtain acked where ih:
        "good w'" "cu_resolved (sp_cursor sp1) \<le> cu_resolved (sp_cursor sp')" "\<forall>body h. taken body h w1 \<longrightarrow> taken body h w'"
        "set acked \<subseteq> set qs" "distinct acked" "cu_acknowledged (sp_cursor sp') = cu_acknowledged (sp_cursor sp1) + int (length acked)"
        "\<forall>q\<in>set acked. q_id q \<le> cu_resolved (sp_cursor sp') \<and> (\<exists>t h. sign_record sd (q_run q) (q_seq q) (q_body q) t = Inr h \<and> taken (q_body q) h w')"
        by auto
      have "q \<notin> set acked" using ih(4) tl(2) by auto
      moreover have "q_id q \<le> cu_resolved (sp_cursor sp')" using ih(2) Acked(2) by simp
      moreover have "taken (q_body q) h w'" using ih(3) g(3) by blast
      ultimately show ?thesis using ih g(2) Acked(2-4) q(2)
        by (intro conjI exI [of _ "q # acked"]) auto
    next
      case (Refused h status said)
      have step: "deliver_from sd L sc poster turns limit max_unknown (Suc k) qs (s\<lparr>dv_attempts := Suc (dv_attempts s), dv_quarantined := Suc (dv_quarantined s)\<rparr>) sp1 w1 = (r, sp', w')"
        using Cons.prems(1) False d Refused(1) by simp
      have g: "good w1" "\<forall>body h. taken body h w \<longrightarrow> taken body h w1"
        using good_kept taken_kept Refused(5) Cons.prems(3) by blast+
      from Cons.IH [OF step Cons.prems(2) g(1) tl(1)] rest Refused(2) obtain acked where ih:
        "good w'" "cu_resolved (sp_cursor sp1) \<le> cu_resolved (sp_cursor sp')" "\<forall>body h. taken body h w1 \<longrightarrow> taken body h w'"
        "set acked \<subseteq> set qs" "distinct acked" "cu_acknowledged (sp_cursor sp') = cu_acknowledged (sp_cursor sp1) + int (length acked)"
        "\<forall>q\<in>set acked. q_id q \<le> cu_resolved (sp_cursor sp') \<and> (\<exists>t h. sign_record sd (q_run q) (q_seq q) (q_body q) t = Inr h \<and> taken (q_body q) h w')"
        by auto
      then show ?thesis using g(2) Refused(2,3) q(2) by (intro conjI exI [of _ acked]) auto
    qed
  qed
qed

lemma deliver_pending_taken:
  assumes "deliver_pending sd L sc poster turns limit max_unknown sp w = (r, sp', w')" and "sd_loads sd = loads" and "good w"
  shows "good w' \<and> (\<exists>acked. distinct acked \<and> cu_acknowledged (sp_cursor sp') = cu_acknowledged (sp_cursor sp) + int (length acked)
      \<and> (\<forall>q\<in>set acked. (\<exists>qs. pending L sc sp = Inr qs \<and> q \<in> set qs) \<and> q_id q \<le> cu_resolved (sp_cursor sp')
           \<and> (\<exists>t h. sign_record sd (q_run q) (q_seq q) (q_body q) t = Inr h \<and> taken (q_body q) h w')))"
proof (cases "pending L sc sp")
  case (Inl e)
  with assms show ?thesis by (auto simp: deliver_pending_def intro!: exI [of _ "[]"])
next
  case (Inr qs)
  with assms(1) have "deliver_from sd L sc poster turns limit max_unknown 0 qs no_summary sp w = (r, sp', w')" by (simp add: deliver_pending_def)
  from deliver_from_taken [OF this assms(2,3) pending_sorted [OF Inr]] Inr show ?thesis by (elim conjE exE) (rule conjI, assumption, blast)
qed

end

section \<open>The bounds of trying again\<close>

lemma power_overflows: "int_to_float (2 ^ k) = (if 1024 \<le> k then Inl OverflowError else Inr (2 ^ k))"
proof (cases "1024 \<le> k")
  case True
  then have "(2::int) ^ 1024 \<le> 2 ^ k" by (rule power_increasing) simp
  then have "float_limit \<le> \<bar>2 ^ k\<bar>" by (simp add: float_limit_def)
  with True show ?thesis by (simp add: int_to_float_def)
next
  case False
  then have "(2::int) ^ k \<le> 2 ^ 1023" by (intro power_increasing) simp_all
  then have "\<not> float_limit \<le> \<bar>2 ^ k\<bar>" by (simp add: float_limit_def)
  with False show ?thesis by (simp add: int_to_float_def)
qed

lemma backoff_delay_eq:
  "backoff_delay attempt None = (if 1024 \<le> attempt then Inl OverflowError else Inr (min 60 (2 ^ nat attempt)))"
proof -
  have "1024 \<le> nat attempt \<longleftrightarrow> 1024 \<le> attempt" by arith
  then show ?thesis by (simp add: backoff_delay_def power_overflows BACKOFF_CAP_SECONDS_def)
qed

lemma note_attempt_landed:
  "\<exists>sp'. note_attempt Landed i sp = (Inr (attempts i sp + 1), sp') \<and> cu_resolved (sp_cursor sp') = cu_resolved (sp_cursor sp)"
  by (simp add: note_attempt_def save_state_def with_cursor_def Let_def)

lemma deliver_pending_first:
  assumes "pending L sc sp = Inr (q # qs)" and "limit \<noteq> Some 0" and "deliver_record sd poster max_unknown (turns 0) q no_summary sp w = (Ended outcome, sp', w')"
  shows "deliver_pending sd L sc poster turns limit max_unknown sp w = (outcome, sp', w')"
  using assms by (auto simp: deliver_pending_def no_summary_def split: option.split)

text \<open>
  CX: A long outage breaks the retry: when the transport fails for the record at the head, the pass ends with a
  bounded backoff and keeps the record - but from the 1024th durable attempt on, which an outage of a day
  reaches, computing that backoff raises \<open>OverflowError\<close> out of the pass, although the delay is capped at a minute.
\<close>

theorem long_outage_raises:
  assumes "pending L sc sp = Inr (q # qs)" and "limit \<noteq> Some 0" and "tn_charge (turns 0) = Landed" and "tn_jitter (turns 0) = None"
    and "sign_record sd (q_run q) (q_seq q) (q_body q) (tn_sent (turns 0)) = Inr h" and "poster w (q_body q) h = (Inl kind, w')"
  shows "\<exists>sp'. deliver_pending sd L sc poster turns limit max_unknown sp w =
      (if 1023 \<le> attempts (q_id q) sp then Inl OverflowError
       else Inr (no_summary\<lparr>dv_attempts := 1, dv_attempt := Some (attempts (q_id q) sp + 1), dv_retries := 1, dv_stopped := Some kind,
              dv_retry_after := min 60 (2 ^ nat (attempts (q_id q) sp + 1))\<rparr>), sp', w')
    \<and> cu_resolved (sp_cursor sp') = cu_resolved (sp_cursor sp)"
proof -
  let ?n = "attempts (q_id q) sp + 1"
  from note_attempt_landed [of "q_id q" sp] obtain sp' where n: "note_attempt Landed (q_id q) sp = (Inr ?n, sp')"
    and c: "cu_resolved (sp_cursor sp') = cu_resolved (sp_cursor sp)" by blast
  have "deliver_record sd poster max_unknown (turns 0) q no_summary sp w
      = (Ended (stop_retry (turns 0) ?n kind (no_summary\<lparr>dv_attempts := 1\<rparr>)), sp', w')"
    by (simp add: deliver_record_def assms(3,5,6) n) (simp add: no_summary_def)
  from deliver_pending_first [where turns = turns, OF assms(1,2) this] c show ?thesis
    by (intro exI [of _ sp']) (simp add: stop_retry_def assms(4) backoff_delay_eq, simp add: no_summary_def)
qed

text \<open>
  CX: No answer can poison the queue: a record whose answer is of no known class stays queued only while its durable
  attempts, whatever they were spent on, are below the bound; at the bound it is quarantined under a closed token and the
  pass goes on with the next record.
\<close>

theorem unknown_answer_is_bounded:
  assumes "tn_charge t = Landed" and "1 \<le> q_id q" and "cu_resolved (sp_cursor sp) < q_id q"
    and "sign_record sd (q_run q) (q_seq q) (q_body q) (tn_sent t) = Inr h" and "poster w (q_body q) h = (Inr (status, said), w')"
    and "classify_response (sd_loads sd) status said = (Permanent, Some ''unknown_response'')"
  shows "\<exists>p sp'. deliver_record sd poster max_unknown t q s sp w = (p, sp', w')
    \<and> (if attempts (q_id q) sp + 1 < max_unknown then cu_resolved (sp_cursor sp') = cu_resolved (sp_cursor sp) \<and> (\<exists>outcome. p = Ended outcome)
       else cu_resolved (sp_cursor sp') = q_id q \<and> cu_quarantined (sp_cursor sp') = cu_quarantined (sp_cursor sp) + 1
          \<and> p = Onward (s\<lparr>dv_attempts := Suc (dv_attempts s), dv_quarantined := Suc (dv_quarantined s)\<rparr>))"
proof -
  let ?n = "attempts (q_id q) sp + 1"
  obtain sp1 where n: "note_attempt Landed (q_id q) sp = (Inr ?n, sp1)" "cu_resolved (sp_cursor sp1) = cu_resolved (sp_cursor sp)"
    "cu_quarantined (sp_cursor sp1) = cu_quarantined (sp_cursor sp)"
    by (simp add: note_attempt_def save_state_def with_cursor_def Let_def)
  have qs: "cu_quarantined (sp_cursor (save_soft v x)) = cu_quarantined (sp_cursor x)" for v x
    by (cases v) (simp_all add: save_soft_def save_state_def with_cursor_def Let_def)
  show ?thesis
  proof (cases "?n < max_unknown")
    case True
    then show ?thesis using n by (simp add: deliver_record_def assms Let_def)
  next
    case False
    obtain sp2 where r: "resolve (tn_settle t) (tn_now t) (q_id q) (Some ''unknown_response'') sp1 = (Inr True, sp2)"
      "cu_resolved (sp_cursor sp2) = q_id q" "cu_quarantined (sp_cursor sp2) = cu_quarantined (sp_cursor sp1) + 1"
      using assms(2,3) n(2) by (simp add: resolve_def QUARANTINE_TOKENS_def Let_def save_soft_simps with_cursor_simps qs)
    have "deliver_record sd poster max_unknown t q s sp w = (Onward (s\<lparr>dv_attempts := Suc (dv_attempts s), dv_quarantined := Suc (dv_quarantined s)\<rparr>), sp2, w')"
      using False by (simp add: deliver_record_def assms(1,4,5,6) n(1) r(1) Let_def)
    with False r n(3) show ?thesis by simp
  qed
qed

section \<open>A queue of one record\<close>

definition one_codec :: "queued \<Rightarrow> spool_codec" where
  "one_codec q = listed_codec [record_value (listed_codec []) q]"

definition one_spool :: "int \<Rightarrow> spool" where
  "one_spool n = toy_spool\<lparr>sp_current := Some toy_file, sp_cursor := first_cursor\<lparr>cu_next := 2, cu_attempts := [(''1'', n)]\<rparr>\<rparr>"

lemma int_str_1: "int_str 1 = ''1''"
  by code_simp

lemma one_line: "q_id q = 1 \<Longrightarrow> toy_line (record_value sc q) = ''rec-1''"
  by (simp add: toy_line_def record_value_def pget_or_def int_str_1)

lemma one_value: "record_value (one_codec q) q' = record_value (listed_codec []) q'"
  by (simp add: one_codec_def listed_codec_def record_value_def)

lemma one_line_fine: "q_id q = 1 \<Longrightarrow> line_fine (one_codec q) q"
  unfolding line_fine_def one_value by (simp add: one_codec_def listed_codec_def one_line LF_def CR_def)

lemma one_waiting:
  assumes "q_id q = 1"
  shows "pending default_limits (one_codec q) (one_spool n) = Inr [q]"
proof -
  let ?sc = "one_codec q" and ?sp = "one_spool n"
  have t: "tidy_member default_limits toy_file" by (simp add: toy_file_def tidy_member_def ended_def default_limits_def MAX_BODY_BYTES_def)
  have "lines_of toy_file = [''rec-1'']" unfolding toy_file_def by (rule lines_of_plain) (simp_all add: LF_def CR_def)
  then have c: "chain_lines default_limits ?sp = [''rec-1'']"
    using member_lines_tidy [OF t] by (auto simp: chain_lines_eq one_spool_def toy_spool_def) (auto simp: member_lines_def)
  have d: "decode_record ?sc ''rec-1'' = Some q"
    using decode_own_line [OF one_line_fine [OF assms]] assms unfolding one_value by (simp add: one_codec_def listed_codec_def one_line)
  have s: "scan_records default_limits ?sc ?sp = Inr \<lparr>sn_found = [q], sn_last = 1, sn_blocked = 0\<rparr>"
    by (simp add: scan_records_eq c no_scan_def scan_line_def d assms)
  have r: "cu_resolved (sp_cursor ?sp) = 0" by (simp add: one_spool_def first_cursor_def)
  show ?thesis by (simp add: pending_eq [OF s] assms r)
qed

lemma one_attempts: "attempts 1 (one_spool n) = n"
  by (simp add: attempts_def one_spool_def int_str_1)


definition one_record :: "string \<Rightarrow> string \<Rightarrow> queued" where
  "one_record run body = \<lparr>q_id = 1, q_probe = ''office-1'', q_run = run, q_seq = 7, q_epoch = Fin 1000, q_body = body\<rparr>"

lemma one_record_id [simp]: "q_id (one_record run body) = 1" "q_run (one_record run body) = run" "q_seq (one_record run body) = 7" "q_body (one_record run body) = body"
  by (simp_all add: one_record_def)

definition plain_turn :: turn where
  "plain_turn = \<lparr>tn_charge = Landed, tn_sent = PInt 900, tn_settle = Landed, tn_now = 0, tn_jitter = None\<rparr>"

definition plain_sender :: sender where
  "plain_sender = \<lparr>sd_sha = (\<lambda>_. ''d''), sd_mac = (\<lambda>_ _. ''5b''), sd_loads = (\<lambda>_. None), sd_secret = ''k'', sd_probe = ''office-1''\<rparr>"

lemma plain_signed: "sign_record plain_sender sample_run 7 body (PInt 900) = Inr (headers ''office-1'' 900 sample_run 7 ''5b'')"
proof -
  have "valid_probe_id (PStr ''office-1'')" "valid_run (PStr sample_run)" "valid_seq (PInt 7)" by code_simp+
  moreover have "int_to_float 900 = Inr 900" by (simp add: int_to_float_small)
  ultimately show ?thesis by (simp add: sign_record_def plain_sender_def canonical_sent_epoch_def sign_def signature_input_def)
qed

theorem long_outage_raises_witness:
  "fst (deliver_pending plain_sender default_limits (one_codec (one_record sample_run ''{}'')) (\<lambda>w body h. (Inl ''ConnectionRefusedError'', w))
     (\<lambda>_. plain_turn) None UNKNOWN_RESPONSE_MAX_ATTEMPTS (one_spool 1023) (0 :: nat)) = Inl OverflowError"
proof -
  let ?q = "one_record sample_run ''{}''" and ?poster = "\<lambda>w body h. (Inl ''ConnectionRefusedError'', w)"
  have t: "tn_charge plain_turn = Landed" "tn_jitter plain_turn = None" "tn_sent plain_turn = PInt 900" by (simp_all add: plain_turn_def)
  have s: "sign_record plain_sender (q_run ?q) (q_seq ?q) (q_body ?q) (tn_sent plain_turn) = Inr (headers ''office-1'' 900 sample_run 7 ''5b'')"
    by (simp add: t(3) plain_signed)
  from long_outage_raises [where turns = "\<lambda>_. plain_turn" and poster = ?poster and limit = None and sp = "one_spool 1023" and w = "0 :: nat"
      and max_unknown = UNKNOWN_RESPONSE_MAX_ATTEMPTS, OF one_waiting [OF one_record_id(1)] _ t(1,2) s refl]
  show ?thesis by (auto simp: one_attempts)
qed

theorem unknown_answer_is_bounded_witness:
  "\<exists>p sp'. deliver_record plain_sender (\<lambda>w body h. (Inr (PInt 600, []), w)) UNKNOWN_RESPONSE_MAX_ATTEMPTS plain_turn (one_record sample_run ''{}'') no_summary (one_spool 4) (0 :: nat)
     = (p, sp', 0) \<and> cu_resolved (sp_cursor sp') = 1"
proof -
  let ?q = "one_record sample_run ''{}''" and ?poster = "\<lambda>w body h. (Inr (PInt 600, []), w)"
  have t: "tn_charge plain_turn = Landed" "tn_sent plain_turn = PInt 900" by (simp_all add: plain_turn_def)
  have s: "sign_record plain_sender (q_run ?q) (q_seq ?q) (q_body ?q) (tn_sent plain_turn) = Inr (headers ''office-1'' 900 sample_run 7 ''5b'')"
    by (simp add: t(2) plain_signed)
  have c: "classify_response (sd_loads plain_sender) (PInt 600) [] = (Permanent, Some ''unknown_response'')" by (simp add: classify_response_def)
  have r: "cu_resolved (sp_cursor (one_spool 4)) < q_id ?q" by (simp add: one_spool_def first_cursor_def)
  from unknown_answer_is_bounded [where poster = ?poster and max_unknown = UNKNOWN_RESPONSE_MAX_ATTEMPTS and w = "0 :: nat" and s = no_summary, OF t(1) _ r s refl c]
  show ?thesis by (auto simp: one_attempts UNKNOWN_RESPONSE_MAX_ATTEMPTS_def)
qed

end
