(* ===== verification/Agent.thy ===== *)
theory Agent
  imports Delivery
begin

text \<open>
  The remote probe agent (\<open>monitor-v2/remote_probe/agent.py\<close>, the merge of \<open>evidence.py\<close>): one cycle collects a
  sample, spools it and only then delivers. The agent is open (it has its secrets and a run) and has a transport. What
  the probes measured, the clocks, the random run and the fates of the writes are given for every cycle; the cycle
  lock is a flag of the call.
\<close>

section \<open>Evidence\<close>

record evidence =
  ee_role :: string
  ee_source :: string
  ee_outcome :: string
  ee_delay :: "int option"
  ee_test :: string
  ee_independent :: bool

definition active_entry :: "string \<Rightarrow> string \<Rightarrow> int option \<Rightarrow> string \<Rightarrow> evidence" where
  "active_entry role outcome delay test = \<lparr>ee_role = role, ee_source = ''active_delay'', ee_outcome = outcome, ee_delay = delay,
     ee_test = test, ee_independent = True\<rparr>"

definition passive_entry :: "string \<Rightarrow> string \<Rightarrow> int option \<Rightarrow> string \<Rightarrow> evidence" where
  "passive_entry role outcome delay test = \<lparr>ee_role = role, ee_source = ''passive_cache'', ee_outcome = outcome, ee_delay = delay,
     ee_test = test, ee_independent = True\<rparr>"

definition test_key :: "evidence \<Rightarrow> string \<times> string" where "test_key e = (ee_role e, ee_test e)"

definition merge_evidence :: "evidence list \<Rightarrow> evidence list \<Rightarrow> evidence list \<times> nat \<times> nat" where
  "merge_evidence active cached =
     (let keys = set (map test_key active);
          marked = map (\<lambda>e. e\<lparr>ee_independent := test_key e \<notin> keys\<rparr>) cached;
          echoes = length (filter (\<lambda>e. test_key e \<in> keys) cached)
      in (map (\<lambda>e. e\<lparr>ee_independent := True\<rparr>) active @ marked, length active + (length cached - echoes), echoes))"

definition entry_value :: "evidence \<Rightarrow> pyval" where
  "entry_value e = PDict [(PStr ''role'', PStr (ee_role e)), (PStr ''source'', PStr (ee_source e)), (PStr ''outcome'', PStr (ee_outcome e)),
     (PStr ''delay_ms'', case ee_delay e of None \<Rightarrow> PNone | Some d \<Rightarrow> PInt d), (PStr ''test_id'', PStr (ee_test e)),
     (PStr ''independent'', PBool (ee_independent e))]"

section \<open>The agent\<close>

text \<open>What one cycle observed; \<open>ob_run\<close> is the random run that a step back of the clock would start.\<close>

record observed =
  ob_now :: rat
  ob_run :: string
  ob_dns :: pyval
  ob_https :: pyval
  ob_tcp :: pyval
  ob_egress :: obj
  ob_api :: string
  ob_active :: "evidence list"
  ob_cached :: "evidence list"
  ob_unavailable :: "string list"

record agent =
  ag_probe :: string
  ag_spool :: spool
  ag_run :: string
  ag_seq :: int
  ag_last_epoch :: "rat option"
  ag_staged :: "string option"
  ag_baseline :: "string option"
  ag_resume_at :: rat
  ag_next_retention :: rat
  ag_backoff :: rat
  ag_state :: string
  ag_cycles :: nat
  ag_failures :: nat
  ag_overlaps :: nat
  ag_rollbacks :: nat
  ag_spool_failures :: nat
  ag_retention_runs :: nat
  ag_retention_failures :: nat
  ag_deferrals :: nat
  ag_baseline_failures :: nat

definition start_run :: "string \<Rightarrow> agent \<Rightarrow> agent" where
  "start_run run ag = ag\<lparr>ag_run := run, ag_seq := 0\<rparr>"

definition next_seq :: "agent \<Rightarrow> int \<times> agent" where
  "next_seq ag = (ag_seq ag + 1, ag\<lparr>ag_seq := ag_seq ag + 1\<rparr>)"

definition take_epoch :: "rat \<Rightarrow> string \<Rightarrow> agent \<Rightarrow> agent" where
  "take_epoch now run ag =
     (let ag' = (case ag_last_epoch ag of
          None \<Rightarrow> ag
        | Some e \<Rightarrow> if now \<le> e then start_run run (ag\<lparr>ag_rollbacks := Suc (ag_rollbacks ag)\<rparr>) else ag)
      in ag'\<lparr>ag_last_epoch := Some now\<rparr>)"

text \<open>The assembly of a sample; an observed egress address is staged, not yet the baseline.\<close>

definition collect_sample :: "observed \<Rightarrow> agent \<Rightarrow> obj \<times> agent" where
  "collect_sample ob ag =
     (let egress_ok = (pgetN (ob_egress ob) ''status'' = PStr ''ok'');
          unavailable = (if \<not> egress_ok \<and> ag_baseline ag = None then ob_unavailable ob @ [''egress''] else ob_unavailable ob);
          staged = (case pgetN (ob_egress ob) ''ip'' of PStr ip \<Rightarrow> Some ip | _ \<Rightarrow> None);
          ag1 = take_epoch (ob_now ob) (ob_run ob) (if egress_ok then ag\<lparr>ag_staged := staged\<rparr> else ag);
          (seq, ag2) = next_seq ag1
      in ([(PStr ''v'', PInt 1), (PStr ''probe_id'', PStr (ag_probe ag)), (PStr ''run'', PStr (ag_run ag2)), (PStr ''seq'', PInt seq),
           (PStr ''sample_epoch'', PFloat (Fin (ob_now ob))), (PStr ''dns'', ob_dns ob), (PStr ''https'', ob_https ob),
           (PStr ''vps_tcp'', ob_tcp ob), (PStr ''egress'', PDict (ob_egress ob)),
           (PStr ''mihomo_api'', PDict [(PStr ''status'', PStr (ob_api ob))]),
           (PStr ''active'', PList (map entry_value (fst (merge_evidence (ob_active ob) (ob_cached ob))))),
           (PStr ''flags'', PDict [(PStr ''truncated'', PBool False),
              (PStr ''source_unavailable'', PList (map PStr (sort (remdups unavailable))))])], ag2))"

definition RETENTION_INTERVAL_SECONDS :: rat where "RETENTION_INTERVAL_SECONDS = 3600"

text \<open>The environment of one cycle.\<close>

record cycle_env =
  cy_busy :: bool
  cy_due :: rat
  cy_retained :: rat
  cy_retain :: commit
  cy_wall :: rat
  cy_seen :: observed
  cy_write :: write_outcome
  cy_save :: commit
  cy_baseline_written :: bool
  cy_send :: rat
  cy_sent :: rat
  cy_turns :: "nat \<Rightarrow> turn"

record agent_codec =
  ac_spool :: spool_codec
  ac_dumps :: "pyval \<Rightarrow> string"
  ac_loads :: "string \<Rightarrow> pyval option"

definition run_retention :: "spool_limits \<Rightarrow> spool_codec \<Rightarrow> commit \<Rightarrow> rat \<Rightarrow> agent \<Rightarrow> bool \<times> agent" where
  "run_retention L sc save wall ag =
     (case enforce_bounds L sc save wall (ag_spool ag) of
        (Inr _, sp) \<Rightarrow> (True, ag\<lparr>ag_spool := sp, ag_retention_runs := Suc (ag_retention_runs ag)\<rparr>)
      | (Inl _, sp) \<Rightarrow> (False, ag\<lparr>ag_spool := sp, ag_retention_failures := Suc (ag_retention_failures ag), ag_state := ''degraded''\<rparr>))"

definition commit_baseline :: "bool \<Rightarrow> agent \<Rightarrow> agent" where
  "commit_baseline written ag =
     (case ag_staged ag of
        None \<Rightarrow> ag
      | Some ip \<Rightarrow> if written then ag\<lparr>ag_baseline := Some ip, ag_staged := None\<rparr>
                   else ag\<lparr>ag_baseline_failures := Suc (ag_baseline_failures ag), ag_state := ''degraded''\<rparr>)"

definition deferred :: "rat \<Rightarrow> summary" where
  "deferred delay = no_summary\<lparr>dv_stopped := Some ''backoff'', dv_retry_after := delay\<rparr>"

definition after_delivery :: "rat \<Rightarrow> summary \<Rightarrow> agent \<Rightarrow> agent" where
  "after_delivery now s ag =
     (let ag' = (if dv_stopped s = Some ''retry_state_not_durable'' \<or> dv_stopped s = Some ''queue_blocked''
                 then ag\<lparr>ag_failures := Suc (ag_failures ag), ag_state := ''degraded''\<rparr> else ag)
      in ag'\<lparr>ag_backoff := dv_retry_after s, ag_resume_at := (if 0 < dv_retry_after s then now + dv_retry_after s else 0)\<rparr>)"

definition deliver :: "sender \<Rightarrow> spool_limits \<Rightarrow> spool_codec \<Rightarrow> 'w poster \<Rightarrow> cycle_env \<Rightarrow> agent \<Rightarrow> 'w \<Rightarrow> summary res \<times> agent \<times> 'w" where
  "deliver sd L sc poster cy ag w =
     (if cy_send cy < ag_resume_at ag
      then (Inr (deferred (ag_resume_at ag - cy_send cy)), ag\<lparr>ag_deferrals := Suc (ag_deferrals ag)\<rparr>, w)
      else case deliver_pending sd L sc poster (cy_turns cy) None UNKNOWN_RESPONSE_MAX_ATTEMPTS (ag_spool ag) w of
          (Inl e, sp, w') \<Rightarrow> (Inl e, ag\<lparr>ag_spool := sp\<rparr>, w')
        | (Inr s, sp, w') \<Rightarrow> (Inr s, after_delivery (cy_sent cy) s (ag\<lparr>ag_spool := sp\<rparr>), w'))"

datatype outcome = OverlapRefused | RetentionFailed | SampleInvalid | SpoolUnavailable | Spooled int summary

definition spool_sample :: "spool_limits \<Rightarrow> spool_codec \<Rightarrow> cycle_env \<Rightarrow> string \<Rightarrow> agent \<Rightarrow> int res \<times> spool" where
  "spool_sample L sc cy body ag =
     append_record L sc (cy_write cy) (cy_save cy) (ag_probe ag) (ag_run ag) (ag_seq ag) body (ob_now (cy_seen cy)) (ag_spool ag)"

definition work_cycle :: "sender \<Rightarrow> spool_limits \<Rightarrow> agent_codec \<Rightarrow> 'w poster \<Rightarrow> cycle_env \<Rightarrow> agent \<Rightarrow> 'w \<Rightarrow> outcome res \<times> agent \<times> 'w" where
  "work_cycle sd L ac poster cy ag w =
     (let (d, ag1) = collect_sample (cy_seen cy) ag in
      case encode_sample (ac_dumps ac) (ac_loads ac) (PDict d) of
        Inl (ValueError _) \<Rightarrow> (Inr SampleInvalid, ag1\<lparr>ag_failures := Suc (ag_failures ag1), ag_state := ''degraded''\<rparr>, w)
      | Inl e \<Rightarrow> (Inl e, ag1, w)
      | Inr body \<Rightarrow>
          (case spool_sample L (ac_spool ac) cy body ag1 of
             (Inl _, sp) \<Rightarrow> (Inr SpoolUnavailable, ag1\<lparr>ag_spool := sp, ag_staged := None, ag_spool_failures := Suc (ag_spool_failures ag1),
                               ag_failures := Suc (ag_failures ag1), ag_state := ''degraded''\<rparr>, w)
           | (Inr i, sp) \<Rightarrow>
               (let ag2 = (commit_baseline (cy_baseline_written cy) (ag1\<lparr>ag_spool := sp\<rparr>))\<lparr>ag_state := ''fresh''\<rparr> in
                case deliver sd L (ac_spool ac) poster cy ag2 w of
                  (Inl e, ag3, w') \<Rightarrow> (Inl e, ag3, w')
                | (Inr s, ag3, w') \<Rightarrow> (Inr (Spooled i s), ag3, w'))))"

definition run_cycle :: "sender \<Rightarrow> spool_limits \<Rightarrow> agent_codec \<Rightarrow> 'w poster \<Rightarrow> cycle_env \<Rightarrow> agent \<Rightarrow> 'w \<Rightarrow> outcome res \<times> agent \<times> 'w" where
  "run_cycle sd L ac poster cy ag w =
     (if cy_busy cy then (Inr OverlapRefused, ag\<lparr>ag_overlaps := Suc (ag_overlaps ag)\<rparr>, w)
      else (let ag0 = ag\<lparr>ag_cycles := Suc (ag_cycles ag)\<rparr> in
            if ag_next_retention ag \<le> cy_due cy
            then (let (ok, ag1) = run_retention L (ac_spool ac) (cy_retain cy) (cy_wall cy)
                        (ag0\<lparr>ag_next_retention := cy_retained cy + RETENTION_INTERVAL_SECONDS\<rparr>)
                  in if ok then work_cycle sd L ac poster cy ag1 w
                     else (Inr RetentionFailed, ag1\<lparr>ag_failures := Suc (ag_failures ag1)\<rparr>, w))
            else work_cycle sd L ac poster cy ag0 w))"

section \<open>What a cycle does\<close>

definition position :: "agent \<Rightarrow> string \<times> int \<times> rat option" where
  "position ag = (ag_run ag, ag_seq ag, ag_last_epoch ag)"

lemma run_retention_keeps: "position (snd (run_retention L sc save wall ag)) = position ag"
  by (simp add: run_retention_def position_def split: prod.split sum.split)

lemma commit_baseline_keeps: "position (commit_baseline b ag) = position ag" "ag_spool (commit_baseline b ag) = ag_spool ag"
  by (simp_all add: commit_baseline_def position_def split: option.split)

lemma deliver_keeps: "deliver sd L sc poster cy ag w = (r, ag', w') \<Longrightarrow> position ag' = position ag"
  by (auto simp: deliver_def after_delivery_def position_def Let_def split: if_splits prod.splits sum.splits)

lemma collect_position:
  "collect_sample ob ag = (d, ag') \<Longrightarrow> position ag' =
     (case ag_last_epoch ag of
        None \<Rightarrow> (ag_run ag, ag_seq ag + 1, Some (ob_now ob))
      | Some e \<Rightarrow> if ob_now ob \<le> e then (ob_run ob, 1, Some (ob_now ob)) else (ag_run ag, ag_seq ag + 1, Some (ob_now ob)))"
  by (auto simp: collect_sample_def take_epoch_def next_seq_def start_run_def position_def Let_def split: option.splits if_splits)

lemma work_cycle_cases [consumes 1, case_names Unsent Delivered]:
  assumes "work_cycle sd L ac poster cy ag w = (r, ag', w')"
  obtains d ag1 where "collect_sample (cy_seen cy) ag = (d, ag1)" "position ag' = position ag1" "w' = w" "\<And>i s. r \<noteq> Inr (Spooled i s)"
  | d ag1 body i sp q ag2 where "collect_sample (cy_seen cy) ag = (d, ag1)" "encode_sample (ac_dumps ac) (ac_loads ac) (PDict d) = Inr body"
      "spool_sample L (ac_spool ac) cy body ag1 = (Inr i, sp)" "ag_spool ag2 = sp" "position ag2 = position ag1"
      "deliver sd L (ac_spool ac) poster cy ag2 w = (q, ag', w')" "position ag' = position ag1" "r = (case q of Inl e \<Rightarrow> Inl e | Inr s \<Rightarrow> Inr (Spooled i s))"
proof -
  obtain d ag1 where c: "collect_sample (cy_seen cy) ag = (d, ag1)" by force
  show thesis
  proof (cases "encode_sample (ac_dumps ac) (ac_loads ac) (PDict d)")
    case (Inl e)
    with assms c show thesis by (intro that(1) [OF c]) (cases e; auto simp: work_cycle_def position_def)+
  next
    case (Inr body)
    obtain out sp where s: "spool_sample L (ac_spool ac) cy body ag1 = (out, sp)" by force
    show thesis
    proof (cases out)
      case (Inl e)
      with assms c Inr s show thesis by (intro that(1) [OF c]) (auto simp: work_cycle_def position_def)
    next
      case out: (Inr i)
      define ag2 where "ag2 = (commit_baseline (cy_baseline_written cy) (ag1\<lparr>ag_spool := sp\<rparr>))\<lparr>ag_state := ''fresh''\<rparr>"
      obtain q ag3 w3 where q: "deliver sd L (ac_spool ac) poster cy ag2 w = (q, ag3, w3)" by (metis prod_cases3)
      have sp: "ag_spool ag2 = sp" by (simp add: ag2_def commit_baseline_keeps)
      have pos: "position ag2 = position ag1"
        using commit_baseline_keeps(1) [of "cy_baseline_written cy" "ag1\<lparr>ag_spool := sp\<rparr>"] by (simp add: ag2_def position_def)
      have fin: "ag' = ag3" "w' = w3" "r = (case q of Inl e \<Rightarrow> Inl e | Inr s \<Rightarrow> Inr (Spooled i s))"
        using assms unfolding work_cycle_def c prod.case Let_def Inr sum.case s out ag2_def [symmetric] q by (cases q; simp)+
      from deliver_keeps [OF q] pos have "position ag' = position ag1" by (simp add: fin)
      with that(2) [OF c Inr s [unfolded out] sp pos] q fin show thesis by blast
    qed
  qed
qed

lemma run_cycle_cases [consumes 1, case_names Idle Work]:
  assumes "run_cycle sd L ac poster cy ag w = (r, ag', w')"
  obtains "position ag' = position ag" "w' = w" "\<And>i s. r \<noteq> Inr (Spooled i s)"
  | ag0 where "position ag0 = position ag" "work_cycle sd L ac poster cy ag0 w = (r, ag', w')"
proof (cases "cy_busy cy")
  case True
  with assms show thesis by (intro that(1)) (auto simp: run_cycle_def position_def)
next
  case False
  show thesis
  proof (cases "ag_next_retention ag \<le> cy_due cy")
    case due: True
    obtain ok ag1 where t: "run_retention L (ac_spool ac) (cy_retain cy) (cy_wall cy)
        (ag\<lparr>ag_cycles := Suc (ag_cycles ag), ag_next_retention := cy_retained cy + RETENTION_INTERVAL_SECONDS\<rparr>) = (ok, ag1)" by force
    from run_retention_keeps [of L "ac_spool ac" "cy_retain cy" "cy_wall cy"
        "ag\<lparr>ag_cycles := Suc (ag_cycles ag), ag_next_retention := cy_retained cy + RETENTION_INTERVAL_SECONDS\<rparr>"] t
    have pos: "position ag1 = position ag" by (simp add: position_def)
    show thesis
    proof (cases ok)
      case True
      with assms False due t have "work_cycle sd L ac poster cy ag1 w = (r, ag', w')" by (simp add: run_cycle_def Let_def)
      with pos that(2) show thesis by blast
    next
      case ok: False
      with assms False due t pos show thesis by (intro that(1)) (auto simp: run_cycle_def Let_def position_def)
    qed
  next
    case due: False
    with assms False have "work_cycle sd L ac poster cy (ag\<lparr>ag_cycles := Suc (ag_cycles ag)\<rparr>) w = (r, ag', w')" by (simp add: run_cycle_def Let_def)
    then show thesis by (intro that(2) [of "ag\<lparr>ag_cycles := Suc (ag_cycles ag)\<rparr>"]) (simp_all add: position_def)
  qed
qed

section \<open>Spool before send\<close>

text \<open>
  CX: Nothing leaves before it is durable: whatever a cycle changes outside the agent, it does so after this cycle's
  sample has been encoded and appended to the spool under an identifier of its own, and by delivering that spool. A cycle
  whose retention, sample or append fails sends nothing.
\<close>

theorem sends_only_after_spooling:
  assumes "run_cycle sd L ac poster cy ag w = (r, ag', w')" and "w' \<noteq> w"
  shows "\<exists>ag0 d ag1 body i ag2 q. collect_sample (cy_seen cy) ag0 = (d, ag1) \<and> encode_sample (ac_dumps ac) (ac_loads ac) (PDict d) = Inr body
    \<and> append_record L (ac_spool ac) (cy_write cy) (cy_save cy) (ag_probe ag1) (ag_run ag1) (ag_seq ag1) body (ob_now (cy_seen cy)) (ag_spool ag1)
        = (Inr i, ag_spool ag2)
    \<and> deliver sd L (ac_spool ac) poster cy ag2 w = (q, ag', w') \<and> ag_resume_at ag2 \<le> cy_send cy"
  using assms(1)
proof (cases rule: run_cycle_cases)
  case Idle
  with assms(2) show ?thesis by simp
next
  case (Work ag0)
  from Work(2) show ?thesis
  proof (cases rule: work_cycle_cases)
    case Unsent
    with assms(2) show ?thesis by simp
  next
    case (Delivered d ag1 body i sp q ag2)
    have "ag_resume_at ag2 \<le> cy_send cy" using Delivered(6) assms(2) by (auto simp: deliver_def split: if_splits)
    with Delivered(1-4,6) show ?thesis unfolding spool_sample_def by blast
  qed
qed

section \<open>Identities\<close>

text \<open>The runs, sequence numbers and times that a series of cycles issues to samples.\<close>

fun issued :: "sender \<Rightarrow> spool_limits \<Rightarrow> agent_codec \<Rightarrow> 'w poster \<Rightarrow> cycle_env list \<Rightarrow> agent \<Rightarrow> 'w \<Rightarrow> (string \<times> int \<times> rat) list" where
  "issued sd L ac poster [] ag w = []"
| "issued sd L ac poster (cy # cys) ag w =
     (let (_, ag', w') = run_cycle sd L ac poster cy ag w in
      (if position ag' = position ag then [] else [(ag_run ag', ag_seq ag', the (ag_last_epoch ag'))]) @ issued sd L ac poster cys ag' w')"

lemma run_cycle_position:
  assumes "run_cycle sd L ac poster cy ag w = (r, ag', w')"
  shows "position ag' = position ag
    \<or> (ag_run ag' = ag_run ag \<and> ag_seq ag' = ag_seq ag + 1 \<and> ag_last_epoch ag' = Some (ob_now (cy_seen cy))
        \<and> (\<forall>e. ag_last_epoch ag = Some e \<longrightarrow> e < ob_now (cy_seen cy)))
    \<or> (ag_run ag' = ob_run (cy_seen cy) \<and> ag_seq ag' = 1 \<and> ag_last_epoch ag' = Some (ob_now (cy_seen cy)))"
  using assms
proof (cases rule: run_cycle_cases)
  case (Work ag0)
  obtain d ag1 where "collect_sample (cy_seen cy) ag0 = (d, ag1)" "position ag' = position ag1"
    using Work(2) by (cases rule: work_cycle_cases) blast+
  with collect_position [of "cy_seen cy" ag0 d ag1] Work(1) show ?thesis
    by (auto simp: position_def split: option.splits if_splits)
qed simp

lemma issued_later:
  assumes "distinct (ag_run ag # map (\<lambda>cy. ob_run (cy_seen cy)) cys)"
  shows "sorted_wrt (\<lambda>(r, s, e) (r', s', e'). r = r' \<longrightarrow> s < s' \<and> e < e') (issued sd L ac poster cys ag w)
    \<and> (\<forall>(r, s, e)\<in>set (issued sd L ac poster cys ag w). r \<in> insert (ag_run ag) (set (map (\<lambda>cy. ob_run (cy_seen cy)) cys))
        \<and> (r = ag_run ag \<longrightarrow> ag_seq ag < s \<and> (\<forall>e0. ag_last_epoch ag = Some e0 \<longrightarrow> e0 < e)))"
  using assms
proof (induction cys arbitrary: ag w)
  case (Cons cy cys)
  obtain r ag' w' where c: "run_cycle sd L ac poster cy ag w = (r, ag', w')" by (metis prod_cases3)
  let ?rest = "issued sd L ac poster cys ag' w'"
  from run_cycle_position [OF c] show ?case
  proof (elim disjE conjE)
    assume same: "position ag' = position ag"
    then have "ag_run ag' = ag_run ag" "ag_seq ag' = ag_seq ag" "ag_last_epoch ag' = ag_last_epoch ag" by (simp_all add: position_def)
    with Cons.IH [of ag' w'] Cons.prems c same show ?thesis by auto
  next
    assume n: "ag_run ag' = ag_run ag" "ag_seq ag' = ag_seq ag + 1" "ag_last_epoch ag' = Some (ob_now (cy_seen cy))"
      "\<forall>e. ag_last_epoch ag = Some e \<longrightarrow> e < ob_now (cy_seen cy)"
    then have "position ag' \<noteq> position ag" by (simp add: position_def)
    with Cons.IH [of ag' w'] Cons.prems c n show ?thesis by (fastforce simp: Let_def)
  next
    assume n: "ag_run ag' = ob_run (cy_seen cy)" "ag_seq ag' = 1" "ag_last_epoch ag' = Some (ob_now (cy_seen cy))"
    with Cons.prems have "position ag' \<noteq> position ag" by (auto simp: position_def)
    with Cons.IH [of ag' w'] Cons.prems c n show ?thesis by (fastforce simp: Let_def)
  qed
qed simp

text \<open>
  CX: An agent never equivocates: as long as the random runs are new, the tuples it gives to samples over any series of
  cycles, whatever fails in them, are distinct, and within a run both the sequence number and the sample time
  strictly increase, also when the clock is set back - which is what the server demands of a new tuple.
\<close>

theorem identities_never_repeat:
  assumes "distinct (ag_run ag # map (\<lambda>cy. ob_run (cy_seen cy)) cys)"
  shows "let tuples = issued sd L ac poster cys ag w in
    distinct (map (\<lambda>(r, s, _). (r, s)) tuples) \<and> sorted_wrt (\<lambda>(r, s, e) (r', s', e'). r = r' \<longrightarrow> s < s' \<and> e < e') tuples"
proof -
  have "distinct (map (\<lambda>(r, s, _). (r, s)) xs)"
    if "sorted_wrt (\<lambda>(r, s, e) (r', s', e'). r = r' \<longrightarrow> s < s' \<and> e < e') xs" for xs :: "(string \<times> int \<times> rat) list"
    using that by (induction xs) force+
  with issued_later [OF assms, of sd L ac poster w] show ?thesis by (simp add: Let_def)
qed

section \<open>One test is one source\<close>

text \<open>
  CX: One measurement never counts twice: the merge keeps every entry in its place, marks every active one as
  independent and a cached one exactly when no active test of this cycle has its role and test; the count of
  corroborating sources is the number of independent entries, and the demoted echoes are the others.
\<close>

theorem echoes_never_corroborate:
  assumes "merge_evidence active cached = (entries, corroboration, echoes)"
  shows "map (\<lambda>e. e\<lparr>ee_independent := True\<rparr>) entries = map (\<lambda>e. e\<lparr>ee_independent := True\<rparr>) (active @ cached)
    \<and> list_all ee_independent (take (length active) entries)
    \<and> (\<forall>e\<in>set (drop (length active) entries). ee_independent e \<longleftrightarrow> test_key e \<notin> test_key ` set active)
    \<and> corroboration = length (filter ee_independent entries) \<and> corroboration + echoes = length entries"
proof -
  let ?keys = "set (map test_key active)"
  have e: "entries = map (\<lambda>e. e\<lparr>ee_independent := True\<rparr>) active @ map (\<lambda>e. e\<lparr>ee_independent := test_key e \<notin> ?keys\<rparr>) cached"
    "corroboration = length active + (length cached - echoes)" "echoes = length (filter (\<lambda>e. test_key e \<in> ?keys) cached)"
    using assms by (auto simp: merge_evidence_def Let_def)
  have split: "length (filter (\<lambda>e. test_key e \<notin> ?keys) cached) + echoes = length cached"
    unfolding e(3) using sum_length_filter_compl [of "\<lambda>e. test_key e \<in> ?keys" cached] by simp
  have "filter ee_independent (map (\<lambda>e. e\<lparr>ee_independent := test_key e \<notin> ?keys\<rparr>) cached)
      = map (\<lambda>e. e\<lparr>ee_independent := test_key e \<notin> ?keys\<rparr>) (filter (\<lambda>e. test_key e \<notin> ?keys) cached)"
    by (simp add: filter_map o_def)
  then have "length (filter ee_independent entries) = length active + length (filter (\<lambda>e. test_key e \<notin> ?keys) cached)"
    unfolding e(1) by (simp add: filter_map o_def)
  moreover have "\<forall>e\<in>set (drop (length active) entries). ee_independent e \<longleftrightarrow> test_key e \<notin> test_key ` set active"
    unfolding e(1) by (auto simp: test_key_def)
  moreover have "list_all ee_independent (take (length active) entries)" unfolding e(1) by (simp add: list_all_iff)
  moreover have "map (\<lambda>e. e\<lparr>ee_independent := True\<rparr>) entries = map (\<lambda>e. e\<lparr>ee_independent := True\<rparr>) (active @ cached)"
    unfolding e(1) by simp
  moreover have "length entries = length active + length cached" unfolding e(1) by simp
  ultimately show ?thesis using split e(2) by simp
qed

end
