(* ===== verification/Evidence.thy ===== *)
theory Evidence
  imports Sample Store "HOL-Library.List_Lexorder"
begin

text \<open>
  The server's store of remote samples (\<open>monitor-v2/web/remote_store.py\<close>): three SQLite tables (runs, receipts,
  samples) as lists of rows in insertion order, the retention and capacity rules, and the transaction that
  classifies one authenticated sample. The size of the database file, the free disk space and the fate of a commit
  are outcomes given by the environment of a call.
\<close>

section \<open>Tables and bounds\<close>

definition REMOTE_MAX_AGE :: rat where "REMOTE_MAX_AGE = 7 * 86400"
definition NEW_SAMPLE_MAX_AGE :: rat where "NEW_SAMPLE_MAX_AGE = REMOTE_MAX_AGE + 12 * 3600"
definition SAMPLE_ROW_CHARGE :: nat where "SAMPLE_ROW_CHARGE = 256"
definition RECEIPT_ROW_CHARGE :: nat where "RECEIPT_ROW_CHARGE = 256"
definition RUN_ROW_CHARGE :: nat where "RUN_ROW_CHARGE = 1024"
definition RUN_LIFETIME_SECONDS :: rat where "RUN_LIFETIME_SECONDS = 30 * 86400"
definition READ_LIMIT :: int where "READ_LIMIT = 256"

record run_row =
  rr_probe :: string
  rr_run :: string
  rr_max_seq :: int
  rr_max_epoch :: rat
  rr_created :: rat
  rr_activity :: rat

record receipt_row =
  rc_probe :: string
  rc_run :: string
  rc_seq :: int
  rc_hash :: string
  rc_accepted :: rat

record sample_row =
  sp_probe :: string
  sp_run :: string
  sp_seq :: int
  sp_epoch :: rat
  sp_received :: rat
  sp_hash :: string
  sp_body :: string

record remote_db =
  rd_runs :: "run_row list"
  rd_receipts :: "receipt_row list"
  rd_samples :: "sample_row list"

record store_bounds =
  sb_hard :: nat
  sb_soft :: nat
  sb_batch :: nat
  sb_runs_probe :: nat
  sb_runs :: nat
  sb_receipts_probe :: nat
  sb_receipts :: nat
  sb_receipt_bytes :: nat
  sb_run_bytes :: nat
  sb_db :: nat
  sb_working :: nat

definition default_bounds :: store_bounds where
  "default_bounds = \<lparr>sb_hard = 24 * 1024 * 1024, sb_soft = 16 * 1024 * 1024, sb_batch = 256, sb_runs_probe = 64, sb_runs = 4096,
     sb_receipts_probe = 131072, sb_receipts = 1048576, sb_receipt_bytes = 256 * 1024 * 1024, sb_run_bytes = 4 * 1024 * 1024,
     sb_db = 320 * 1024 * 1024, sb_working = 1024 * 1024 * 1024\<rparr>"

definition run_key :: "run_row \<Rightarrow> string \<times> string" where "run_key r = (rr_probe r, rr_run r)"
definition receipt_key :: "receipt_row \<Rightarrow> string \<times> string \<times> int" where "receipt_key c = (rc_probe c, rc_run c, rc_seq c)"
definition sample_key :: "sample_row \<Rightarrow> string \<times> string \<times> int" where "sample_key s = (sp_probe s, sp_run s, sp_seq s)"

definition sample_order :: "sample_row \<Rightarrow> rat \<times> string \<times> string \<times> int" where
  "sample_order s = (sp_epoch s, sp_probe s, sp_run s, sp_seq s)"

section \<open>Retention\<close>

definition sample_bytes :: "remote_db \<Rightarrow> nat" where
  "sample_bytes db = sum_list (map (\<lambda>s. length (sp_body s) + SAMPLE_ROW_CHARGE) (rd_samples db))"

text \<open>Deleting a run deletes its receipts, and those their samples (\<open>ON DELETE CASCADE\<close>).\<close>

definition expire_runs :: "rat \<Rightarrow> remote_db \<Rightarrow> remote_db" where
  "expire_runs now db = (let gone = run_key ` set (filter (\<lambda>r. rr_activity r < now - RUN_LIFETIME_SECONDS) (rd_runs db)) in
     db\<lparr>rd_runs := filter (\<lambda>r. \<not> rr_activity r < now - RUN_LIFETIME_SECONDS) (rd_runs db),
        rd_receipts := filter (\<lambda>c. (rc_probe c, rc_run c) \<notin> gone) (rd_receipts db),
        rd_samples := filter (\<lambda>s. (sp_probe s, sp_run s) \<notin> gone) (rd_samples db)\<rparr>)"

definition expire_samples :: "rat \<Rightarrow> remote_db \<Rightarrow> remote_db" where
  "expire_samples now db = db\<lparr>rd_samples := filter (\<lambda>s. \<not> sp_epoch s < now - REMOTE_MAX_AGE) (rd_samples db)\<rparr>"

definition oldest :: "nat \<Rightarrow> remote_db \<Rightarrow> sample_row list" where
  "oldest n db = take n (sort_key sample_order (rd_samples db))"

definition drop_oldest :: "nat \<Rightarrow> remote_db \<Rightarrow> remote_db" where
  "drop_oldest n db = db\<lparr>rd_samples := filter (\<lambda>s. s \<notin> set (oldest n db)) (rd_samples db)\<rparr>"

lemma drop_oldest_shorter:
  assumes "oldest n db \<noteq> []"
  shows "length (rd_samples (drop_oldest n db)) < length (rd_samples db)"
proof -
  from assms obtain s where s: "s \<in> set (oldest n db)" by (cases "oldest n db") auto
  then have "s \<in> set (rd_samples db)" by (auto simp: oldest_def dest: in_set_takeD)
  with s show ?thesis by (simp add: drop_oldest_def length_filter_less)
qed

function prune_loop :: "store_bounds \<Rightarrow> nat \<Rightarrow> remote_db \<times> nat \<Rightarrow> remote_db \<times> nat" where
  "prune_loop L extra (db, pruned) =
     (if sample_bytes db + extra \<le> sb_soft L then (db, pruned)
      else if oldest (sb_batch L) db = [] then (db, pruned)
      else prune_loop L extra (drop_oldest (sb_batch L) db, pruned + length (oldest (sb_batch L) db)))"
  by pat_completeness auto
termination
  by (relation "measure (\<lambda>(L, extra, db, pruned). length (rd_samples db))") (simp_all add: drop_oldest_shorter)

declare prune_loop.simps [simp del]

definition prune :: "store_bounds \<Rightarrow> rat \<Rightarrow> nat \<Rightarrow> remote_db \<Rightarrow> remote_db \<times> nat" where
  "prune L now extra db =
     (let kept = expire_samples now (expire_runs now db) in
      if sb_hard L < sample_bytes kept + extra then prune_loop L extra (kept, 0) else (kept, 0))"

definition touch :: "string \<Rightarrow> string \<Rightarrow> rat \<Rightarrow> remote_db \<Rightarrow> remote_db" where
  "touch probe run now db = db\<lparr>rd_runs := map (\<lambda>r. if run_key r = (probe, run) then r\<lparr>rr_activity := max (rr_activity r) now\<rparr> else r) (rd_runs db)\<rparr>"

section \<open>Admission\<close>

datatype store_error = RunCapacity | ReceiptCapacity | StorageCapacity | StoreFailed | StoreRaised exn

datatype verdict = Accepted | Duplicate | Equivocation | SeqNotIncreasing | EpochNotIncreasing | EpochOutOfRange

definition capacity :: "store_bounds \<Rightarrow> string \<Rightarrow> bool \<Rightarrow> remote_db \<Rightarrow> store_error option" where
  "capacity L probe new_run db =
     (let runs = length (rd_runs db); receipts = length (rd_receipts db) in
      if new_run \<and> (sb_runs_probe L \<le> length (filter (\<lambda>r. rr_probe r = probe) (rd_runs db)) \<or> sb_runs L \<le> runs
                     \<or> sb_run_bytes L < (runs + 1) * RUN_ROW_CHARGE) then Some RunCapacity
      else if sb_receipts_probe L \<le> length (filter (\<lambda>c. rc_probe c = probe) (rd_receipts db)) \<or> sb_receipts L \<le> receipts
              \<or> sb_receipt_bytes L < (receipts + 1) * RECEIPT_ROW_CHARGE then Some ReceiptCapacity
      else None)"

definition find_receipt :: "string \<Rightarrow> string \<Rightarrow> int \<Rightarrow> remote_db \<Rightarrow> receipt_row option" where
  "find_receipt probe run seq db = find (\<lambda>c. receipt_key c = (probe, run, seq)) (rd_receipts db)"

definition find_run :: "string \<Rightarrow> string \<Rightarrow> remote_db \<Rightarrow> run_row option" where
  "find_run probe run db = find (\<lambda>r. run_key r = (probe, run)) (rd_runs db)"

text \<open>The rows of a new tuple: a run row when there is none, a receipt, a sample, and the progress of the run.\<close>

definition insert_tuple :: "(string \<Rightarrow> string) \<Rightarrow> string \<Rightarrow> string \<Rightarrow> int \<Rightarrow> rat \<Rightarrow> string \<Rightarrow> rat \<Rightarrow> remote_db \<Rightarrow> remote_db" where
  "insert_tuple sha probe run seq epoch body now db =
     (let new_row = \<lparr>rr_probe = probe, rr_run = run, rr_max_seq = seq, rr_max_epoch = epoch, rr_created = now, rr_activity = now\<rparr>;
          runs = (if find_run probe run db = None then rd_runs db @ [new_row] else rd_runs db)
      in \<lparr>rd_runs = map (\<lambda>r. if run_key r = (probe, run)
             then r\<lparr>rr_max_seq := seq, rr_max_epoch := epoch, rr_activity := max (rr_activity r) now\<rparr> else r) runs,
          rd_receipts = rd_receipts db @ [\<lparr>rc_probe = probe, rc_run = run, rc_seq = seq, rc_hash = sha body, rc_accepted = now\<rparr>],
          rd_samples = rd_samples db @ [\<lparr>sp_probe = probe, sp_run = run, sp_seq = seq, sp_epoch = epoch, sp_received = now,
             sp_hash = sha body, sp_body = body\<rparr>]\<rparr>)"

text \<open>The column constraints of the tables.\<close>

definition row_allowed :: "int \<Rightarrow> rat \<Rightarrow> string \<Rightarrow> bool" where
  "row_allowed seq epoch body \<longleftrightarrow> 1 \<le> seq \<and> 0 \<le> epoch \<and> 1 \<le> length body \<and> length body \<le> 16384"

text \<open>
  The disk as the two checks of an admission find it: live and allocated pages of the database in bytes, the bytes in
  its directory, its own size, its journal, and the free space. The main file, its journal and a copy must fit.
\<close>

record disk =
  dk_live :: nat
  dk_allocated :: nat
  dk_footprint :: nat
  dk_size :: nat
  dk_journal :: nat
  dk_free :: nat

definition working_space :: "store_bounds \<Rightarrow> disk \<Rightarrow> bool" where
  "working_space L d =
     (let overhead = 8 * 1024 * 1024; other = dk_footprint d - dk_size d - dk_journal d in
      \<not> (sb_working L < 3 * sb_db L + overhead + other \<or> sb_working L < dk_footprint d \<or> sb_db L + overhead < dk_journal d
         \<or> dk_free d < 2 * sb_db L + overhead - dk_journal d))"

definition physical_ok :: "store_bounds \<Rightarrow> disk \<Rightarrow> bool" where
  "physical_ok L d \<longleftrightarrow> dk_live d \<le> sb_db L \<and> dk_allocated d \<le> sb_db L \<and> working_space L d"

text \<open>
  What the environment decides in one call: the disk at the two checks, whether a statement finds the database full,
  the fate of the transaction, and the fate of the second transaction that follows a failure for space.
\<close>

record call_env =
  ce_first :: disk
  ce_second :: disk
  ce_full :: bool
  ce_commit :: commit
  ce_refresh_full :: bool
  ce_refresh :: commit

definition roomy_disk :: disk where
  "roomy_disk = \<lparr>dk_live = 0, dk_allocated = 0, dk_footprint = 0, dk_size = 0, dk_journal = 0, dk_free = 1024 * 1024 * 1024\<rparr>"

definition calm :: call_env where
  "calm = \<lparr>ce_first = roomy_disk, ce_second = roomy_disk, ce_full = False, ce_commit = Landed, ce_refresh_full = False, ce_refresh = Landed\<rparr>"

definition admit :: "(string \<Rightarrow> string) \<Rightarrow> store_bounds \<Rightarrow> call_env \<Rightarrow> string \<Rightarrow> string \<Rightarrow> int \<Rightarrow> rat \<Rightarrow> string \<Rightarrow> rat \<Rightarrow> remote_db
    \<Rightarrow> (remote_db \<times> nat) option" where
  "admit sha L env probe run seq epoch body now db =
     (let (roomy, n) = prune L now (length body + SAMPLE_ROW_CHARGE) db in
      if \<not> physical_ok L (ce_first env) then None
      else (let (grown, m) = prune L now 0 (insert_tuple sha probe run seq epoch body now roomy) in
            if physical_ok L (ce_second env) then Some (grown, n + m) else None))"

text \<open>The body of the transaction: the answer, the tables to commit and the number of samples pruned for space.\<close>

type_synonym decided = "(store_error + verdict) \<times> remote_db \<times> nat"

definition judge_new :: "(string \<Rightarrow> string) \<Rightarrow> store_bounds \<Rightarrow> call_env \<Rightarrow> string \<Rightarrow> string \<Rightarrow> int \<Rightarrow> rat \<Rightarrow> string \<Rightarrow> rat \<Rightarrow> remote_db \<times> nat
    \<Rightarrow> decided res" where
  "judge_new sha L env probe run seq epoch body now = (\<lambda>(db, pruned).
     (let known = (find_run probe run db \<noteq> None); keep = (if known then touch probe run now db else db) in
      case capacity L probe (\<not> known) db of
        Some failure \<Rightarrow> Inr (Inl failure, keep, pruned)
      | None \<Rightarrow>
          if physical_ok L (ce_first env) \<and> \<not> row_allowed seq epoch body then Inl (OSError ''constraint'')
          else (case admit sha L env probe run seq epoch body now db of
                  None \<Rightarrow> Inr (Inl StorageCapacity, keep, pruned)
                | Some (grown, n) \<Rightarrow> Inr (Inr Accepted, grown, pruned + n))))"

definition judge :: "(string \<Rightarrow> string) \<Rightarrow> store_bounds \<Rightarrow> call_env \<Rightarrow> string \<Rightarrow> string \<Rightarrow> int \<Rightarrow> pyval \<Rightarrow> string \<Rightarrow> rat \<Rightarrow> remote_db
    \<Rightarrow> decided res" where
  "judge sha L env probe run seq epoch body now db0 =
     (let (db, pruned) = prune L now 0 db0; e = num_value epoch in
      case find_receipt probe run seq db of
        Some c \<Rightarrow> if rc_hash c = sha body then Inr (Inr Duplicate, touch probe run now db, pruned) else Inr (Inr Equivocation, db, pruned)
      | None \<Rightarrow>
          res_bind (valid_sample_epoch epoch) (\<lambda>fine.
            if \<not> fine then Inr (Inr EpochOutOfRange, db, pruned)
            else case find_run probe run db of
                Some r \<Rightarrow>
                  if seq \<le> rr_max_seq r then Inr (Inr SeqNotIncreasing, db, pruned)
                  else if e \<le> rr_max_epoch r then Inr (Inr EpochNotIncreasing, db, pruned)
                  else if now + 300 < e \<or> e < now - NEW_SAMPLE_MAX_AGE then Inr (Inr EpochOutOfRange, db, pruned)
                  else judge_new sha L env probe run seq e body now (db, pruned)
              | None \<Rightarrow>
                  if now + 300 < e \<or> e < now - NEW_SAMPLE_MAX_AGE then Inr (Inr EpochOutOfRange, db, pruned)
                  else judge_new sha L env probe run seq e body now (db, pruned)))"

section \<open>The store\<close>

record remote =
  rm_open :: bool
  rm_db :: remote_db
  rm_pruned :: bool
  rm_pruned_total :: nat

definition note_pruned :: "nat \<Rightarrow> remote \<Rightarrow> remote" where
  "note_pruned n st = (if n \<noteq> 0 then st\<lparr>rm_pruned := True, rm_pruned_total := Suc (rm_pruned_total st)\<rparr> else st)"

definition accept_locked :: "(string \<Rightarrow> string) \<Rightarrow> store_bounds \<Rightarrow> call_env \<Rightarrow> string \<Rightarrow> string \<Rightarrow> int \<Rightarrow> pyval \<Rightarrow> string \<Rightarrow> rat \<Rightarrow> remote
    \<Rightarrow> (store_error + verdict) \<times> remote" where
  "accept_locked sha L env probe run seq epoch body now st =
     (if \<not> rm_open st then (Inl StoreFailed, st)
      else case judge sha L env probe run seq epoch body now (rm_db st) of
          Inl (OSError _) \<Rightarrow> (Inl StoreFailed, st)
        | Inl e \<Rightarrow> (Inl (StoreRaised e), st)
        | Inr (answer, db, pruned) \<Rightarrow>
            if ce_full env then (Inl StorageCapacity, st)
            else (let (db', ok) = transact (ce_commit env) db (rm_db st) in
                  if ok then (answer, note_pruned pruned (st\<lparr>rm_db := db'\<rparr>)) else (Inl StoreFailed, st\<lparr>rm_db := db'\<rparr>)))"

text \<open>After a failure for space the run of a valid continuation is kept alive by a transaction of its own.\<close>

definition refresh :: "string \<Rightarrow> string \<Rightarrow> int \<Rightarrow> rat \<Rightarrow> rat \<Rightarrow> remote_db \<Rightarrow> remote_db" where
  "refresh probe run seq e now db =
     (case find_run probe run db of
        Some r \<Rightarrow> if now - RUN_LIFETIME_SECONDS \<le> rr_activity r \<and> rr_max_seq r < seq \<and> rr_max_epoch r < e
                      \<and> now - NEW_SAMPLE_MAX_AGE \<le> e \<and> e \<le> now + 300
                   then touch probe run now db else db
      | None \<Rightarrow> db)"

definition accept :: "(string \<Rightarrow> string) \<Rightarrow> store_bounds \<Rightarrow> call_env \<Rightarrow> string \<Rightarrow> string \<Rightarrow> int \<Rightarrow> pyval \<Rightarrow> string \<Rightarrow> rat \<Rightarrow> remote
    \<Rightarrow> (store_error + verdict) \<times> remote" where
  "accept sha L env probe run seq epoch body now st =
     (case accept_locked sha L env probe run seq epoch body now st of
        (Inl StorageCapacity, st') \<Rightarrow>
          if ce_refresh_full env then (Inl StorageCapacity, st')
          else (let (db, ok) = transact (ce_refresh env) (refresh probe run seq (num_value epoch) now (rm_db st')) (rm_db st') in
                (Inl (if ok then StorageCapacity else StoreFailed), st'\<lparr>rm_db := db\<rparr>))
      | outcome \<Rightarrow> outcome)"

section \<open>Opening, retention and reading\<close>

definition enforce_retention :: "store_bounds \<Rightarrow> commit \<Rightarrow> rat \<Rightarrow> remote \<Rightarrow> bool \<times> remote" where
  "enforce_retention L c now st =
     (if \<not> rm_open st then (False, st)
      else (let (db, pruned) = prune L now 0 (rm_db st); (db', ok) = transact c db (rm_db st) in
            if ok then (True, note_pruned pruned (st\<lparr>rm_db := db'\<rparr>)) else (False, st\<lparr>rm_db := db'\<rparr>)))"

definition close_store :: "remote \<Rightarrow> remote" where
  "close_store st = st\<lparr>rm_open := False\<rparr>"

text \<open>Every query prunes first; a failed pruning is the store's failure.\<close>

definition queried :: "store_bounds \<Rightarrow> commit \<Rightarrow> rat \<Rightarrow> (remote_db \<Rightarrow> 'a) \<Rightarrow> remote \<Rightarrow> 'a option \<times> remote" where
  "queried L c now q st = (let (ok, st') = enforce_retention L c now st in (if ok then Some (q (rm_db st')) else None, st'))"

definition receipt_hash :: "store_bounds \<Rightarrow> commit \<Rightarrow> rat \<Rightarrow> string \<Rightarrow> string \<Rightarrow> int \<Rightarrow> remote \<Rightarrow> string option option \<times> remote" where
  "receipt_hash L c now probe run seq = queried L c now (\<lambda>db. map_option rc_hash (find_receipt probe run seq db))"

definition run_state :: "store_bounds \<Rightarrow> commit \<Rightarrow> rat \<Rightarrow> string \<Rightarrow> string \<Rightarrow> remote \<Rightarrow> run_row option option \<times> remote" where
  "run_state L c now probe run = queried L c now (find_run probe run)"

text \<open>The bounds of a read: a span of at most the retention time and at most 256 rows.\<close>

definition read_allowed :: "rat \<Rightarrow> rat \<Rightarrow> int \<Rightarrow> bool" where
  "read_allowed from until limit \<longleftrightarrow> 1 \<le> limit \<and> limit \<le> READ_LIMIT \<and> 0 \<le> from \<and> 0 \<le> until
     \<and> 0 \<le> until - from \<and> until - from \<le> REMOTE_MAX_AGE"

definition select_samples :: "rat \<Rightarrow> rat \<Rightarrow> string option \<Rightarrow> int \<Rightarrow> remote_db \<Rightarrow> sample_row list" where
  "select_samples from until probe limit db =
     take (nat limit) (sort_key sample_order
       (filter (\<lambda>s. from \<le> sp_epoch s \<and> sp_epoch s \<le> until \<and> (case probe of None \<Rightarrow> True | Some p \<Rightarrow> sp_probe s = p)) (rd_samples db)))"

definition read_samples :: "store_bounds \<Rightarrow> commit \<Rightarrow> rat \<Rightarrow> (string \<Rightarrow> pyval option) \<Rightarrow> rat \<Rightarrow> rat \<Rightarrow> string option \<Rightarrow> int \<Rightarrow> remote
    \<Rightarrow> pyval list res \<times> remote" where
  "read_samples L c now loads from until probe limit st =
     (if \<not> read_allowed from until limit then (Inl (ValueError ''invalid remote read bounds''), st)
      else case queried L c now (select_samples from until probe limit) st of
          (None, st') \<Rightarrow> (Inl (OSError ''remote_store_unavailable''), st')
        | (Some rows, st') \<Rightarrow>
            (res_map (\<lambda>s. case loads (sp_body s) of Some v \<Rightarrow> Inr v | None \<Rightarrow> Inl (OSError ''remote_store_unavailable'')) rows, st'))"

text \<open>The newest sample time of each probe.\<close>

definition sample_times :: "remote_db \<Rightarrow> (string, rat) dict" where
  "sample_times db = foldl (\<lambda>d s. dict_set (sp_probe s) (case dict_get d (sp_probe s) of None \<Rightarrow> sp_epoch s | Some e \<Rightarrow> max e (sp_epoch s)) d)
     [] (rd_samples db)"

definition probe_sample_times :: "store_bounds \<Rightarrow> commit \<Rightarrow> rat \<Rightarrow> remote \<Rightarrow> (string, rat) dict option \<times> remote" where
  "probe_sample_times L c now = queried L c now sample_times"

definition capacity_code :: "store_bounds \<Rightarrow> disk \<Rightarrow> string option \<Rightarrow> remote_db \<Rightarrow> store_error option" where
  "capacity_code L d probe db =
     (if sb_db L \<le> dk_live d \<or> sb_db L < dk_allocated d \<or> \<not> working_space L d then Some StorageCapacity
      else case probe of
          Some p \<Rightarrow> capacity L p True db
        | None \<Rightarrow>
            if sb_receipts L \<le> length (rd_receipts db) \<or> sb_receipt_bytes L < (length (rd_receipts db) + 1) * RECEIPT_ROW_CHARGE
            then Some ReceiptCapacity
            else if sb_runs L \<le> length (rd_runs db) \<or> sb_run_bytes L < (length (rd_runs db) + 1) * RUN_ROW_CHARGE then Some RunCapacity
            else None)"

record store_status =
  ss_pruned :: bool
  ss_pruned_total :: nat
  ss_retained_since :: "rat option"
  ss_samples :: nat
  ss_sample_bytes :: nat
  ss_receipts :: nat
  ss_receipt_bytes :: nat
  ss_runs :: nat
  ss_run_bytes :: nat
  ss_live :: nat
  ss_allocated :: nat
  ss_capacity :: "store_error option"

definition status_snapshot :: "store_bounds \<Rightarrow> disk \<Rightarrow> remote \<Rightarrow> store_status option" where
  "status_snapshot L d st =
     (if \<not> rm_open st then None
      else (let db = rm_db st in
        Some \<lparr>ss_pruned = rm_pruned st, ss_pruned_total = rm_pruned_total st,
          ss_retained_since = (if rd_samples db = [] then None else Some (Min (set (map sp_epoch (rd_samples db))))),
          ss_samples = length (rd_samples db), ss_sample_bytes = sample_bytes db,
          ss_receipts = length (rd_receipts db), ss_receipt_bytes = length (rd_receipts db) * RECEIPT_ROW_CHARGE,
          ss_runs = length (rd_runs db), ss_run_bytes = length (rd_runs db) * RUN_ROW_CHARGE,
          ss_live = dk_live d, ss_allocated = dk_allocated d, ss_capacity = capacity_code L d None db\<rparr>))"

section \<open>The gate at opening\<close>

definition keys_unique :: "remote_db \<Rightarrow> bool" where
  "keys_unique db \<longleftrightarrow> distinct (map run_key (rd_runs db)) \<and> distinct (map receipt_key (rd_receipts db)) \<and> distinct (map sample_key (rd_samples db))"

definition references_ok :: "remote_db \<Rightarrow> bool" where
  "references_ok db \<longleftrightarrow> (\<forall>c\<in>set (rd_receipts db). (rc_probe c, rc_run c) \<in> run_key ` set (rd_runs db))
     \<and> (\<forall>s\<in>set (rd_samples db). sample_key s \<in> receipt_key ` set (rd_receipts db))"

definition progression_ok :: "remote_db \<Rightarrow> bool" where
  "progression_ok db \<longleftrightarrow> (\<forall>r\<in>set (rd_runs db). (rr_probe r, rr_run r, rr_max_seq r) \<in> receipt_key ` set (rd_receipts db)
     \<and> (\<forall>c\<in>set (rd_receipts db). (rc_probe c, rc_run c) = run_key r \<longrightarrow> rc_seq c \<le> rr_max_seq r))"

definition evidence_ok :: "remote_db \<Rightarrow> bool" where
  "evidence_ok db \<longleftrightarrow> (\<forall>s\<in>set (rd_samples db).
     (\<forall>c\<in>set (rd_receipts db). receipt_key c = sample_key s \<longrightarrow> rc_hash c = sp_hash s)
     \<and> (\<forall>r\<in>set (rd_runs db). run_key r = (sp_probe s, sp_run s) \<longrightarrow>
          sp_epoch s \<le> rr_max_epoch r \<and> (sp_seq s = rr_max_seq r \<longrightarrow> sp_epoch s = rr_max_epoch r)))"

definition runs_ok :: "remote_db \<Rightarrow> bool" where
  "runs_ok db \<longleftrightarrow> (\<forall>r\<in>set (rd_runs db). valid_probe_id (PStr (rr_probe r)) \<and> valid_run (PStr (rr_run r))
     \<and> 1 \<le> rr_max_seq r \<and> rr_max_seq r \<le> SEQ_MAX \<and> 0 \<le> rr_max_epoch r \<and> 0 \<le> rr_created r \<and> rr_created r \<le> rr_activity r)"

definition receipts_ok :: "remote_db \<Rightarrow> bool" where
  "receipts_ok db \<longleftrightarrow> (\<forall>c\<in>set (rd_receipts db). 1 \<le> rc_seq c \<and> 0 \<le> rc_accepted c
     \<and> (\<forall>r\<in>set (rd_runs db). run_key r = (rc_probe c, rc_run c) \<longrightarrow> rc_accepted c \<le> rr_activity r))"

definition body_matches :: "(string \<Rightarrow> string) \<Rightarrow> (pyval \<Rightarrow> string) \<Rightarrow> (string \<Rightarrow> pyval option) \<Rightarrow> sample_row \<Rightarrow> bool" where
  "body_matches sha dumps loads s \<longleftrightarrow>
     (case loads (sp_body s) of
        Some (PDict d) \<Rightarrow>
          validate_sample (PDict d) = Inr [] \<and> canonical_bytes dumps (PDict d) = Inr (sp_body s) \<and> sha (sp_body s) = sp_hash s
          \<and> pgetN d ''probe_id'' = PStr (sp_probe s) \<and> pgetN d ''run'' = PStr (sp_run s) \<and> pgetN d ''seq'' = PInt (sp_seq s)
          \<and> num_value (pgetN d ''sample_epoch'') = sp_epoch s \<and> 0 \<le> sp_received s
      | _ \<Rightarrow> False)"

definition verify_rows :: "(string \<Rightarrow> string) \<Rightarrow> (pyval \<Rightarrow> string) \<Rightarrow> (string \<Rightarrow> pyval option) \<Rightarrow> remote_db \<Rightarrow> bool" where
  "verify_rows sha dumps loads db \<longleftrightarrow> references_ok db \<and> progression_ok db \<and> evidence_ok db \<and> runs_ok db \<and> receipts_ok db
     \<and> list_all (body_matches sha dumps loads) (rd_samples db)"

definition db_ok :: "(string \<Rightarrow> string) \<Rightarrow> (pyval \<Rightarrow> string) \<Rightarrow> (string \<Rightarrow> pyval option) \<Rightarrow> remote_db \<Rightarrow> bool" where
  "db_ok sha dumps loads db \<longleftrightarrow> keys_unique db \<and> verify_rows sha dumps loads db"

named_theorems db_facts
lemmas [db_facts] = db_ok_def keys_unique_def verify_rows_def references_ok_def progression_ok_def evidence_ok_def runs_ok_def receipts_ok_def list_all_iff

section \<open>Every change keeps the gate open\<close>

lemma find_None_key: "find (\<lambda>x. k x = a) xs = None \<longleftrightarrow> a \<notin> k ` set xs"
  by (auto simp: find_None_iff)

lemma find_Some_key: "find (\<lambda>x. k x = a) xs = Some x \<Longrightarrow> x \<in> set xs \<and> k x = a"
  by (auto simp: find_Some_iff)

text \<open>A selection of the samples: only the sample clauses of the gate are concerned.\<close>

lemma keep_samples:
  "db_ok sha dumps loads db \<Longrightarrow> db_ok sha dumps loads (db\<lparr>rd_samples := filter P (rd_samples db)\<rparr>)"
  by (simp add: db_facts distinct_map_filter)

lemma expire_samples_ok: "db_ok sha dumps loads db \<Longrightarrow> db_ok sha dumps loads (expire_samples now db)"
  by (simp add: expire_samples_def keep_samples)

lemma drop_oldest_ok: "db_ok sha dumps loads db \<Longrightarrow> db_ok sha dumps loads (drop_oldest n db)"
  by (simp add: drop_oldest_def keep_samples)

lemma receipt_has_run:
  "db_ok sha dumps loads db \<Longrightarrow> c \<in> set (rd_receipts db) \<Longrightarrow> \<exists>r\<in>set (rd_runs db). run_key r = (rc_probe c, rc_run c)"
  unfolding db_ok_def verify_rows_def references_ok_def by (metis imageE)

lemma sample_has_receipt:
  "db_ok sha dumps loads db \<Longrightarrow> s \<in> set (rd_samples db) \<Longrightarrow> \<exists>c\<in>set (rd_receipts db). receipt_key c = sample_key s"
  unfolding db_ok_def verify_rows_def references_ok_def by (metis imageE)

lemma run_has_receipt:
  "db_ok sha dumps loads db \<Longrightarrow> r \<in> set (rd_runs db) \<Longrightarrow> \<exists>c\<in>set (rd_receipts db). receipt_key c = (rr_probe r, rr_run r, rr_max_seq r)"
  unfolding db_ok_def verify_rows_def progression_ok_def by (metis imageE)

lemma receipt_below_top:
  "db_ok sha dumps loads db \<Longrightarrow> r \<in> set (rd_runs db) \<Longrightarrow> c \<in> set (rd_receipts db) \<Longrightarrow> (rc_probe c, rc_run c) = run_key r
     \<Longrightarrow> rc_seq c \<le> rr_max_seq r"
  unfolding db_ok_def verify_rows_def progression_ok_def by blast

lemma run_key_inj:
  "keys_unique db \<Longrightarrow> r \<in> set (rd_runs db) \<Longrightarrow> r' \<in> set (rd_runs db) \<Longrightarrow> run_key r = run_key r' \<Longrightarrow> r = r'"
  by (auto simp: keys_unique_def distinct_map dest: inj_onD)

lemma expire_runs_ok:
  assumes "db_ok sha dumps loads db"
  shows "db_ok sha dumps loads (expire_runs now db)"
proof -
  let ?gone = "\<lambda>r. rr_activity r < now - RUN_LIFETIME_SECONDS"
  let ?G = "run_key ` set (filter ?gone (rd_runs db))"
  let ?e = "expire_runs now db"
  have u: "keys_unique db" using assms by (simp add: db_ok_def)
  have in_e: "rd_runs ?e = filter (\<lambda>r. \<not> ?gone r) (rd_runs db)"
    "rd_receipts ?e = filter (\<lambda>c. (rc_probe c, rc_run c) \<notin> ?G) (rd_receipts db)"
    "rd_samples ?e = filter (\<lambda>s. (sp_probe s, sp_run s) \<notin> ?G) (rd_samples db)"
    by (simp_all add: expire_runs_def Let_def)
  have stays: "run_key r \<notin> ?G" if "r \<in> set (rd_runs ?e)" for r
  proof
    assume "run_key r \<in> ?G"
    then obtain r' where r': "r' \<in> set (rd_runs db)" "?gone r'" "run_key r = run_key r'" by auto
    from that have r: "r \<in> set (rd_runs db)" "\<not> ?gone r" by (simp_all add: in_e(1))
    from run_key_inj [OF u r(1) r'(1) r'(3)] r(2) r'(2) show False by simp
  qed
  have run_of: "run_key r \<in> run_key ` set (rd_runs ?e)" if "r \<in> set (rd_runs db)" "run_key r \<notin> ?G" for r
    using that by (auto simp: in_e)
  have sub: "set (rd_runs ?e) \<subseteq> set (rd_runs db)" "set (rd_receipts ?e) \<subseteq> set (rd_receipts db)" "set (rd_samples ?e) \<subseteq> set (rd_samples db)"
    by (auto simp: in_e)
  have k: "keys_unique ?e" using u by (simp add: keys_unique_def in_e distinct_map_filter)
  have ref: "references_ok ?e"
    unfolding references_ok_def
  proof (intro conjI ballI)
    fix c assume c: "c \<in> set (rd_receipts ?e)"
    with sub receipt_has_run [OF assms] obtain r where "r \<in> set (rd_runs db)" "run_key r = (rc_probe c, rc_run c)"
      by blast
    with run_of [of r] c show "(rc_probe c, rc_run c) \<in> run_key ` set (rd_runs ?e)" by (auto simp: in_e(2))
  next
    fix s assume s: "s \<in> set (rd_samples ?e)"
    with sub sample_has_receipt [OF assms] obtain c where c: "c \<in> set (rd_receipts db)" "receipt_key c = sample_key s"
      by blast
    with s have "c \<in> set (rd_receipts ?e)" by (auto simp: in_e receipt_key_def sample_key_def)
    with c show "sample_key s \<in> receipt_key ` set (rd_receipts ?e)" by force
  qed
  have prog: "progression_ok ?e"
    unfolding progression_ok_def
  proof (intro conjI ballI impI)
    fix r assume r: "r \<in> set (rd_runs ?e)"
    with sub run_has_receipt [OF assms] obtain c where c: "c \<in> set (rd_receipts db)" "receipt_key c = (rr_probe r, rr_run r, rr_max_seq r)"
      by blast
    with stays [OF r] have "c \<in> set (rd_receipts ?e)" by (auto simp: in_e receipt_key_def run_key_def)
    with c show "(rr_probe r, rr_run r, rr_max_seq r) \<in> receipt_key ` set (rd_receipts ?e)" by force
  next
    fix r c assume "r \<in> set (rd_runs ?e)" "c \<in> set (rd_receipts ?e)" "(rc_probe c, rc_run c) = run_key r"
    with sub receipt_below_top [OF assms] show "rc_seq c \<le> rr_max_seq r" by blast
  qed
  have "evidence_ok ?e" using assms sub unfolding db_ok_def verify_rows_def evidence_ok_def by blast
  moreover have "runs_ok ?e" using assms sub unfolding db_ok_def verify_rows_def runs_ok_def by blast
  moreover have "receipts_ok ?e" using assms sub unfolding db_ok_def verify_rows_def receipts_ok_def by blast
  moreover have "list_all (body_matches sha dumps loads) (rd_samples ?e)"
    using assms sub unfolding db_ok_def verify_rows_def list_all_iff by blast
  ultimately show ?thesis unfolding db_ok_def verify_rows_def using k ref prog by blast
qed

lemma prune_loop_inv:
  assumes "\<And>n db. I db \<Longrightarrow> I (drop_oldest n db)" "I db"
  shows "I (fst (prune_loop L extra (db, pruned)))"
  using assms
proof (induction L extra "(db, pruned)" arbitrary: db pruned rule: prune_loop.induct)
  case (1 L extra db pruned)
  then show ?case by (subst prune_loop.simps) simp
qed

lemma prune_inv:
  assumes "\<And>db. I db \<Longrightarrow> I (expire_runs now db)" "\<And>P db. I db \<Longrightarrow> I (db\<lparr>rd_samples := filter P (rd_samples db)\<rparr>)" "I db"
  shows "I (fst (prune L now extra db))"
  using assms prune_loop_inv [of I "expire_samples now (expire_runs now db)"]
  by (simp add: prune_def Let_def expire_samples_def drop_oldest_def)

lemma prune_ok: "db_ok sha dumps loads db \<Longrightarrow> db_ok sha dumps loads (fst (prune L now extra db))"
  by (rule prune_inv [where I = "db_ok sha dumps loads"]) (simp_all add: expire_runs_ok keep_samples)

text \<open>A later activity of one run: keys and progress stay as they are.\<close>

definition touched :: "string \<Rightarrow> string \<Rightarrow> rat \<Rightarrow> run_row \<Rightarrow> run_row" where
  "touched probe run now r = (if run_key r = (probe, run) then r\<lparr>rr_activity := max (rr_activity r) now\<rparr> else r)"

lemma touched_simps [simp]:
  "rr_probe (touched p r now x) = rr_probe x" "rr_run (touched p r now x) = rr_run x" "run_key (touched p r now x) = run_key x"
  "rr_max_seq (touched p r now x) = rr_max_seq x" "rr_max_epoch (touched p r now x) = rr_max_epoch x"
  "rr_created (touched p r now x) = rr_created x"
  by (simp_all add: touched_def run_key_def)

lemma touched_later: "rr_activity x \<le> rr_activity (touched p r now x)"
  by (simp add: touched_def)

lemma touch_runs: "rd_runs (touch p r now db) = map (touched p r now) (rd_runs db)"
  "rd_receipts (touch p r now db) = rd_receipts db" "rd_samples (touch p r now db) = rd_samples db"
  by (simp_all add: touch_def touched_def)

lemma touch_ok:
  assumes "db_ok sha dumps loads db"
  shows "db_ok sha dumps loads (touch probe run now db)"
proof -
  have m: "map run_key (rd_runs (touch probe run now db)) = map run_key (rd_runs db)" by (simp add: touch_runs)
  then have k: "run_key ` set (rd_runs (touch probe run now db)) = run_key ` set (rd_runs db)" by (metis list.set_map)
  have "runs_ok (touch probe run now db)"
    using assms by (auto simp: db_ok_def verify_rows_def runs_ok_def touch_runs intro: order_trans [OF _ touched_later])
  moreover have "receipts_ok (touch probe run now db)"
    using assms by (auto simp: db_ok_def verify_rows_def receipts_ok_def touch_runs intro: order_trans [OF _ touched_later])
  moreover have "references_ok (touch probe run now db)" "progression_ok (touch probe run now db)" "evidence_ok (touch probe run now db)"
    using assms k by (simp_all add: db_ok_def verify_rows_def references_ok_def progression_ok_def evidence_ok_def touch_runs)
  moreover have "keys_unique (touch probe run now db)" using assms m by (simp only: db_ok_def keys_unique_def touch_runs(2,3))
  ultimately show ?thesis using assms by (simp add: db_ok_def verify_rows_def touch_runs)
qed

section \<open>A new tuple\<close>

definition new_receipt :: "(string \<Rightarrow> string) \<Rightarrow> string \<Rightarrow> string \<Rightarrow> int \<Rightarrow> string \<Rightarrow> rat \<Rightarrow> receipt_row" where
  "new_receipt sha p r s body now = \<lparr>rc_probe = p, rc_run = r, rc_seq = s, rc_hash = sha body, rc_accepted = now\<rparr>"

definition new_sample :: "(string \<Rightarrow> string) \<Rightarrow> string \<Rightarrow> string \<Rightarrow> int \<Rightarrow> rat \<Rightarrow> string \<Rightarrow> rat \<Rightarrow> sample_row" where
  "new_sample sha p r s epoch body now =
     \<lparr>sp_probe = p, sp_run = r, sp_seq = s, sp_epoch = epoch, sp_received = now, sp_hash = sha body, sp_body = body\<rparr>"

text \<open>What the transaction knows of a tuple when it inserts it.\<close>

definition admissible :: "(string \<Rightarrow> string) \<Rightarrow> (pyval \<Rightarrow> string) \<Rightarrow> (string \<Rightarrow> pyval option) \<Rightarrow> string \<Rightarrow> string \<Rightarrow> int \<Rightarrow> rat \<Rightarrow> string \<Rightarrow> rat
    \<Rightarrow> remote_db \<Rightarrow> bool" where
  "admissible sha dumps loads p r s epoch body now db \<longleftrightarrow>
     find_receipt p r s db = None
     \<and> (\<forall>row. find_run p r db = Some row \<longrightarrow> rr_max_seq row < s \<and> rr_max_epoch row < epoch)
     \<and> valid_probe_id (PStr p) \<and> valid_run (PStr r) \<and> 1 \<le> s \<and> s \<le> SEQ_MAX \<and> 0 \<le> epoch \<and> 0 \<le> now
     \<and> body_matches sha dumps loads (new_sample sha p r s epoch body now)"

definition advanced :: "string \<Rightarrow> string \<Rightarrow> int \<Rightarrow> rat \<Rightarrow> rat \<Rightarrow> run_row \<Rightarrow> run_row" where
  "advanced p r s epoch now row = (if run_key row = (p, r)
     then row\<lparr>rr_max_seq := s, rr_max_epoch := epoch, rr_activity := max (rr_activity row) now\<rparr> else row)"

definition with_run :: "string \<Rightarrow> string \<Rightarrow> int \<Rightarrow> rat \<Rightarrow> rat \<Rightarrow> remote_db \<Rightarrow> run_row list" where
  "with_run p r s epoch now db = (if find_run p r db = None
     then rd_runs db @ [\<lparr>rr_probe = p, rr_run = r, rr_max_seq = s, rr_max_epoch = epoch, rr_created = now, rr_activity = now\<rparr>]
     else rd_runs db)"

lemma insert_tuple_rows:
  "rd_runs (insert_tuple sha p r s epoch body now db) = map (advanced p r s epoch now) (with_run p r s epoch now db)"
  "rd_receipts (insert_tuple sha p r s epoch body now db) = rd_receipts db @ [new_receipt sha p r s body now]"
  "rd_samples (insert_tuple sha p r s epoch body now db) = rd_samples db @ [new_sample sha p r s epoch body now]"
  by (simp_all add: insert_tuple_def Let_def with_run_def new_receipt_def new_sample_def advanced_def)

lemma advanced_key [simp]: "run_key (advanced p r s e now row) = run_key row"
  by (simp add: advanced_def run_key_def)

lemma advanced_other: "run_key row \<noteq> (p, r) \<Longrightarrow> advanced p r s e now row = row"
  by (simp add: advanced_def)

lemma advanced_own: "run_key row = (p, r) \<Longrightarrow> rr_max_seq (advanced p r s e now row) = s \<and> rr_max_epoch (advanced p r s e now row) = e
    \<and> now \<le> rr_activity (advanced p r s e now row) \<and> rr_activity row \<le> rr_activity (advanced p r s e now row)
    \<and> rr_created (advanced p r s e now row) = rr_created row"
  by (simp add: advanced_def)

lemma new_row_keys [simp]:
  "receipt_key (new_receipt sha p r s body now) = (p, r, s)" "sample_key (new_sample sha p r s e body now) = (p, r, s)"
  by (simp_all add: new_receipt_def new_sample_def receipt_key_def sample_key_def)

lemma find_run_None: "find_run p r db = None \<longleftrightarrow> (p, r) \<notin> run_key ` set (rd_runs db)"
  by (simp add: find_run_def find_None_key)

lemma new_run_key: "run_key \<lparr>rr_probe = p, rr_run = r, rr_max_seq = s, rr_max_epoch = e, rr_created = now, rr_activity = now\<rparr> = (p, r)"
  by (simp add: run_key_def)

lemma with_run_keys:
  "run_key ` set (with_run p r s e now db) = insert (p, r) (run_key ` set (rd_runs db))"
  by (auto simp: with_run_def find_run_def find_None_key new_run_key
    dest!: find_Some_key)


lemma run_before:
  assumes "db_ok sha dumps loads db" "admissible sha dumps loads p r s epoch body now db"
    "row \<in> set (rd_runs db)" "run_key row = (p, r)"
  shows "rr_max_seq row < s \<and> rr_max_epoch row < epoch"
proof -
  from assms(3,4) obtain row' where f: "find_run p r db = Some row'"
    by (cases "find_run p r db") (force simp: find_run_def find_None_key)+
  then have "row' \<in> set (rd_runs db)" "run_key row' = (p, r)" by (auto simp: find_run_def dest!: find_Some_key)
  with assms run_key_inj [of db row row'] have "row = row'" by (simp add: db_ok_def)
  with f assms(2) show ?thesis by (simp add: admissible_def)
qed

lemma old_receipt:
  assumes "db_ok sha dumps loads db" "admissible sha dumps loads p r s epoch body now db" "c \<in> set (rd_receipts db)" "(rc_probe c, rc_run c) = (p, r)"
  shows "rc_seq c < s"
proof -
  from receipt_has_run [OF assms(1,3)] obtain row where row: "row \<in> set (rd_runs db)" "run_key row = (rc_probe c, rc_run c)" by blast
  with receipt_below_top [OF assms(1) row(1) assms(3)] run_before [OF assms(1,2) row(1)] assms(4) show ?thesis by simp
qed

lemma old_sample:
  assumes "db_ok sha dumps loads db" "admissible sha dumps loads p r s epoch body now db" "t \<in> set (rd_samples db)" "(sp_probe t, sp_run t) = (p, r)"
  shows "sp_seq t < s \<and> sp_epoch t < epoch"
proof -
  from sample_has_receipt [OF assms(1,3)] obtain c where c: "c \<in> set (rd_receipts db)" "receipt_key c = sample_key t" by blast
  with old_receipt [OF assms(1,2) c(1)] assms(4) have q: "sp_seq t < s" by (simp add: receipt_key_def sample_key_def)
  from receipt_has_run [OF assms(1) c(1)] obtain row where row: "row \<in> set (rd_runs db)" "run_key row = (sp_probe t, sp_run t)"
    using c(2) by (auto simp: receipt_key_def sample_key_def)
  with assms(1,3) have "sp_epoch t \<le> rr_max_epoch row" unfolding db_ok_def verify_rows_def evidence_ok_def by blast
  with run_before [OF assms(1,2) row(1)] row(2) assms(4) q show ?thesis by simp
qed

lemma insert_runs_cases:
  assumes "row' \<in> set (rd_runs (insert_tuple sha p r s epoch body now db))"
  obtains "row' \<in> set (rd_runs db)" "run_key row' \<noteq> (p, r)"
  | "run_key row' = (p, r)" "rr_max_seq row' = s" "rr_max_epoch row' = epoch" "now \<le> rr_activity row'"
    "rr_created row' = now \<or> (\<exists>row\<in>set (rd_runs db). run_key row = (p, r) \<and> rr_created row' = rr_created row \<and> rr_activity row \<le> rr_activity row')"
proof -
  from assms obtain row where row: "row \<in> set (with_run p r s epoch now db)" "row' = advanced p r s epoch now row"
    by (auto simp: insert_tuple_rows)
  show thesis
  proof (cases "run_key row = (p, r)")
    case True
    have "rr_created row = now \<or> row \<in> set (rd_runs db)" using row(1) by (auto simp: with_run_def split: if_splits)
    with that(2) advanced_own [OF True, of s epoch now] row(2) True show thesis by (metis advanced_key)
  next
    case False
    with row(1) have "row \<in> set (rd_runs db)" by (auto simp: with_run_def run_key_def split: if_splits)
    with that(1) False advanced_other [OF False] row(2) show thesis by simp
  qed
qed

lemma insert_tuple_ok:
  assumes ok: "db_ok sha dumps loads db" and adm: "admissible sha dumps loads p r s epoch body now db"
  shows "db_ok sha dumps loads (insert_tuple sha p r s epoch body now db)"
proof -
  let ?D = "insert_tuple sha p r s epoch body now db"
  have keys: "run_key ` set (rd_runs ?D) = insert (p, r) (run_key ` set (rd_runs db))"
    using with_run_keys [of p r s epoch now db] by (simp add: insert_tuple_rows image_image)
  have no_c: "(p, r, s) \<notin> receipt_key ` set (rd_receipts db)" using adm by (simp add: admissible_def find_receipt_def find_None_key)
  have no_s: "(p, r, s) \<notin> sample_key ` set (rd_samples db)"
  proof
    assume "(p, r, s) \<in> sample_key ` set (rd_samples db)"
    then obtain t where "t \<in> set (rd_samples db)" "sample_key t = (p, r, s)" by force
    with old_sample [OF ok adm, of t] show False by (simp add: sample_key_def)
  qed
  have u: "keys_unique db" using ok by (simp add: db_ok_def)
  have map_keys: "map run_key (rd_runs ?D) = map run_key (with_run p r s epoch now db)" by (simp add: insert_tuple_rows)
  have "distinct (map run_key (with_run p r s epoch now db))"
    using u by (cases "find_run p r db") (simp_all add: with_run_def keys_unique_def find_run_def find_None_key new_run_key)
  then have "keys_unique ?D"
    using u no_c no_s map_keys by (simp add: keys_unique_def insert_tuple_rows(2,3))
  moreover have "references_ok ?D"
    unfolding references_ok_def keys
    using ok by (auto simp: insert_tuple_rows(2,3) db_ok_def verify_rows_def references_ok_def new_receipt_def receipt_key_def sample_key_def new_sample_def)
  moreover have "progression_ok ?D"
    unfolding progression_ok_def
  proof (intro conjI ballI impI)
    fix row' assume "row' \<in> set (rd_runs ?D)"
    then show "(rr_probe row', rr_run row', rr_max_seq row') \<in> receipt_key ` set (rd_receipts ?D)"
    proof (cases rule: insert_runs_cases)
      case 1
      with ok show ?thesis by (auto simp: insert_tuple_rows(2) db_ok_def verify_rows_def progression_ok_def)
    next
      case 2
      then show ?thesis by (simp add: insert_tuple_rows(2) run_key_def)
    qed
  next
    fix row' c assume "row' \<in> set (rd_runs ?D)" and c: "c \<in> set (rd_receipts ?D)" "(rc_probe c, rc_run c) = run_key row'"
    then show "rc_seq c \<le> rr_max_seq row'"
    proof (cases rule: insert_runs_cases)
      case 1
      with c receipt_below_top [OF ok] show ?thesis by (auto simp: insert_tuple_rows(2) new_receipt_def)
    next
      case 2
      from c(1) have "c \<in> set (rd_receipts db) \<or> rc_seq c = s" by (auto simp: insert_tuple_rows(2) new_receipt_def)
      with 2 c(2) old_receipt [OF ok adm, of c] show ?thesis by auto
    qed
  qed
  moreover have "evidence_ok ?D"
    unfolding evidence_ok_def
  proof (intro conjI ballI impI)
    fix t c assume "t \<in> set (rd_samples ?D)" "c \<in> set (rd_receipts ?D)" "receipt_key c = sample_key t"
    then show "rc_hash c = sp_hash t"
      using ok no_c no_s by (auto simp: insert_tuple_rows(2,3) db_ok_def verify_rows_def evidence_ok_def new_receipt_def new_sample_def receipt_key_def sample_key_def
          image_iff)
  next
    fix t row' assume t: "t \<in> set (rd_samples ?D)" "run_key row' = (sp_probe t, sp_run t)" and "row' \<in> set (rd_runs ?D)"
    from this(3) have "sp_epoch t \<le> rr_max_epoch row' \<and> (sp_seq t = rr_max_seq row' \<longrightarrow> sp_epoch t = rr_max_epoch row')"
    proof (cases rule: insert_runs_cases)
      case 1
      with t ok show ?thesis by (auto simp: insert_tuple_rows(3) db_ok_def verify_rows_def evidence_ok_def new_sample_def)
    next
      case 2
      from t(1) have "t \<in> set (rd_samples db) \<or> sp_seq t = s \<and> sp_epoch t = epoch" by (auto simp: insert_tuple_rows(3) new_sample_def)
      with 2 t(2) old_sample [OF ok adm, of t] show ?thesis by auto
    qed
    then show "sp_epoch t \<le> rr_max_epoch row'" "sp_seq t = rr_max_seq row' \<Longrightarrow> sp_epoch t = rr_max_epoch row'" by auto
  qed
  moreover have "runs_ok ?D"
    unfolding runs_ok_def
  proof
    fix row' assume "row' \<in> set (rd_runs ?D)"
    then show "valid_probe_id (PStr (rr_probe row')) \<and> valid_run (PStr (rr_run row'))
     \<and> 1 \<le> rr_max_seq row' \<and> rr_max_seq row' \<le> SEQ_MAX \<and> 0 \<le> rr_max_epoch row' \<and> 0 \<le> rr_created row' \<and> rr_created row' \<le> rr_activity row'"
    proof (cases rule: insert_runs_cases)
      case 1
      with ok show ?thesis by (auto simp: db_ok_def verify_rows_def runs_ok_def)
    next
      case 2
      have "0 \<le> rr_created row' \<and> rr_created row' \<le> rr_activity row'"
        using 2(4,5) ok adm by (auto simp: db_ok_def verify_rows_def runs_ok_def admissible_def intro: order_trans)
      with 2 adm show ?thesis by (simp add: admissible_def run_key_def)
    qed
  qed
  moreover have "receipts_ok ?D"
    unfolding receipts_ok_def
  proof (intro conjI ballI impI)
    fix c assume "c \<in> set (rd_receipts ?D)"
    then show "1 \<le> rc_seq c" "0 \<le> rc_accepted c"
      using ok adm by (auto simp: insert_tuple_rows(2) db_ok_def verify_rows_def receipts_ok_def new_receipt_def admissible_def)
  next
    fix c row' assume c: "c \<in> set (rd_receipts ?D)" "run_key row' = (rc_probe c, rc_run c)" and "row' \<in> set (rd_runs ?D)"
    from this(3) show "rc_accepted c \<le> rr_activity row'"
    proof (cases rule: insert_runs_cases)
      case 1
      with c ok show ?thesis by (auto simp: insert_tuple_rows(2) db_ok_def verify_rows_def receipts_ok_def new_receipt_def)
    next
      case 2
      show ?thesis
      proof (cases "c \<in> set (rd_receipts db)")
        case True
        from receipt_has_run [OF ok True] obtain row where row: "row \<in> set (rd_runs db)" "run_key row = (rc_probe c, rc_run c)" by blast
        with ok True have le: "rc_accepted c \<le> rr_activity row" by (auto simp: db_ok_def verify_rows_def receipts_ok_def)
        from row c 2(1) have "find_run p r db \<noteq> None" unfolding find_run_None by (metis imageI)
        then have w: "with_run p r s epoch now db = rd_runs db" by (simp add: with_run_def)
        have "advanced p r s epoch now row \<in> set (rd_runs ?D)" using row(1) by (simp add: insert_tuple_rows w)
        moreover have "row' \<in> set (rd_runs ?D)" by fact
        moreover have "run_key (advanced p r s epoch now row) = run_key row'" using row c by simp
        ultimately have "row' = advanced p r s epoch now row" using run_key_inj [OF \<open>keys_unique ?D\<close>] by blast
        with advanced_own [of row p r s epoch now] le row c 2(1) show ?thesis by simp
      next
        case False
        with c 2 show ?thesis by (simp add: insert_tuple_rows(2) new_receipt_def)
      qed
    qed
  qed
  moreover have "list_all (body_matches sha dumps loads) (rd_samples ?D)"
    using ok adm by (simp add: insert_tuple_rows(3) db_ok_def verify_rows_def admissible_def)
  ultimately show ?thesis by (simp add: db_ok_def verify_rows_def)
qed

section \<open>Opening a file of tables\<close>

definition blank_db :: remote_db where "blank_db = \<lparr>rd_runs = [], rd_receipts = [], rd_samples = []\<rparr>"
definition open_remote :: "remote_db \<Rightarrow> remote" where
  "open_remote db = \<lparr>rm_open = True, rm_db = db, rm_pruned = False, rm_pruned_total = 0\<rparr>"

definition open_store :: "(string \<Rightarrow> string) \<Rightarrow> (pyval \<Rightarrow> string) \<Rightarrow> (string \<Rightarrow> pyval option) \<Rightarrow> store_bounds \<Rightarrow> bool \<Rightarrow> commit \<Rightarrow> rat \<Rightarrow> remote_db
    \<Rightarrow> remote option" where
  "open_store sha dumps loads L schema_fine c now db =
     (if \<not> (schema_fine \<and> verify_rows sha dumps loads db) then None
      else (let (ok, st) = enforce_retention L c now (open_remote db) in if ok then Some st else None))"

end
