(* ===== verification/Receipts.thy ===== *)
theory Receipts
  imports Evidence
begin

text \<open>
  What the remote store promises: every change keeps its row checks, a receipt outlives every admissible retry of its
  tuple, so that a sample is accepted at most once and a retry is classified, and the tables stay within their limits.
\<close>

section \<open>Pruning removes rows and adds none\<close>

definition subtables :: "remote_db \<Rightarrow> remote_db \<Rightarrow> bool" where
  "subtables db' db \<longleftrightarrow> set (rd_runs db') \<subseteq> set (rd_runs db) \<and> set (rd_receipts db') \<subseteq> set (rd_receipts db)
     \<and> set (rd_samples db') \<subseteq> set (rd_samples db)"

lemma expire_runs_sub: "subtables (expire_runs now db) db"
  by (auto simp: subtables_def expire_runs_def Let_def)

lemma filter_samples_sub: "subtables db' db \<Longrightarrow> subtables (db'\<lparr>rd_samples := filter P (rd_samples db')\<rparr>) db"
  by (auto simp: subtables_def)

lemma subtables_trans: "subtables a b \<Longrightarrow> subtables b c \<Longrightarrow> subtables a c"
  by (auto simp: subtables_def)

lemma subtables_refl [simp]: "subtables db db"
  by (simp add: subtables_def)

lemma prune_sub: "subtables (fst (prune L now extra db)) db"
  by (rule prune_inv [where I = "\<lambda>x. subtables x db"])
    (simp_all add: filter_samples_sub subtables_trans [OF expire_runs_sub])

lemma subtables_receipt: "subtables db' db \<Longrightarrow> find_receipt p r s db = None \<Longrightarrow> find_receipt p r s db' = None"
  by (auto simp: subtables_def find_receipt_def find_None_key)

lemma find_run_Some_iff:
  "keys_unique db \<Longrightarrow> find_run p r db = Some row \<longleftrightarrow> row \<in> set (rd_runs db) \<and> run_key row = (p, r)"
proof
  assume "find_run p r db = Some row"
  then show "row \<in> set (rd_runs db) \<and> run_key row = (p, r)" unfolding find_run_def by (rule find_Some_key)
next
  assume u: "keys_unique db" and row: "row \<in> set (rd_runs db) \<and> run_key row = (p, r)"
  then obtain row' where f: "find_run p r db = Some row'"
    by (cases "find_run p r db") (auto simp: find_run_None image_iff)
  then have "row' \<in> set (rd_runs db)" "run_key row' = (p, r)" unfolding find_run_def by (auto dest: find_Some_key)
  with run_key_inj [OF u, of row row'] row f show "find_run p r db = Some row" by simp
qed

lemma subtables_run:
  "keys_unique db \<Longrightarrow> keys_unique db' \<Longrightarrow> subtables db' db \<Longrightarrow> find_run p r db' = Some row \<Longrightarrow> find_run p r db = Some row"
  by (auto simp: find_run_Some_iff subtables_def)

section \<open>The answers of the transaction\<close>

text \<open>The request of one call, as the ingest hands it over: an authenticated canonical sample.\<close>

definition request_fine :: "(string \<Rightarrow> string) \<Rightarrow> (pyval \<Rightarrow> string) \<Rightarrow> (string \<Rightarrow> pyval option) \<Rightarrow> string \<Rightarrow> string \<Rightarrow> int \<Rightarrow> pyval \<Rightarrow> string \<Rightarrow> bool" where
  "request_fine sha dumps loads probe run seq epoch body \<longleftrightarrow>
     (\<exists>d. loads body = Some (PDict d) \<and> validate_sample (PDict d) = Inr [] \<and> canonical_bytes dumps (PDict d) = Inr body
        \<and> pgetN d ''probe_id'' = PStr probe \<and> pgetN d ''run'' = PStr run \<and> pgetN d ''seq'' = PInt seq \<and> pgetN d ''sample_epoch'' = epoch)"

lemma valid_epoch_nonneg: "valid_sample_epoch v = Inr True \<Longrightarrow> 0 \<le> num_value v"
  by (auto simp: valid_sample_epoch_def res_bind_eq_Inr dest: int_to_float_Inr split: pyval.splits pyfloat.splits)

lemma request_fine_admissible:
  assumes "request_fine sha dumps loads p r s epoch body" "find_receipt p r s db = None" "0 \<le> now"
    "\<And>row. find_run p r db = Some row \<Longrightarrow> rr_max_seq row < s \<and> rr_max_epoch row < num_value epoch"
  shows "admissible sha dumps loads p r s (num_value epoch) body now db"
proof -
  from assms(1) obtain d where d: "loads body = Some (PDict d)" "validate_sample (PDict d) = Inr []" "canonical_bytes dumps (PDict d) = Inr body"
    "pgetN d ''probe_id'' = PStr p" "pgetN d ''run'' = PStr r" "pgetN d ''seq'' = PInt s" "pgetN d ''sample_epoch'' = epoch"
    unfolding request_fine_def by blast
  from d(2) obtain d' where "PDict d = PDict d'" "valid_probe_id (pgetN d' ''probe_id'')" "valid_run (pgetN d' ''run'')"
    "valid_seq (pgetN d' ''seq'')" "valid_sample_epoch (pgetN d' ''sample_epoch'') = Inr True"
    by (rule validate_sample_fields)
  with d have v: "valid_probe_id (PStr p)" "valid_run (PStr r)" "valid_seq (PInt s)" "valid_sample_epoch epoch = Inr True" by simp_all
  have "1 \<le> s" "s \<le> SEQ_MAX" using v(3) by (simp_all add: valid_seq_def)
  moreover have "body_matches sha dumps loads (new_sample sha p r s (num_value epoch) body now)"
    using d assms(3) by (simp add: body_matches_def new_sample_def)
  ultimately show ?thesis
    unfolding admissible_def using assms(2-4) v valid_epoch_nonneg [OF v(4)] by blast
qed

definition new_enough :: "rat \<Rightarrow> rat \<Rightarrow> bool" where
  "new_enough now e \<longleftrightarrow> e \<le> now + 300 \<and> now - NEW_SAMPLE_MAX_AGE \<le> e"

lemma judge_new_cases:
  assumes "judge_new sha L env p r s e body now (db, n) = Inr (answer, db', m)"
  obtains failure where "answer = Inl failure" "db' = db \<or> db' = touch p r now db"
  | "answer = Inr Accepted" "capacity L p (find_run p r db = None) db = None"
    "row_allowed s e body"
    "db' = fst (prune L now 0 (insert_tuple sha p r s e body now (fst (prune L now (length body + SAMPLE_ROW_CHARGE) db))))"
proof -
  obtain roomy k where roomy: "prune L now (length body + SAMPLE_ROW_CHARGE) db = (roomy, k)" by force
  obtain grown l where grown: "prune L now 0 (insert_tuple sha p r s e body now roomy) = (grown, l)" by force
  let ?keep = "if find_run p r db \<noteq> None then touch p r now db else db"
  show thesis
  proof (cases "capacity L p (find_run p r db = None) db")
    case (Some failure)
    with assms have "answer = Inl failure" "db' = ?keep" by (simp_all add: judge_new_def Let_def)
    then show thesis by (intro that(1)) (simp_all split: if_splits)
  next
    case None
    with assms have row: "\<not> (physical_ok L (ce_first env) \<and> \<not> row_allowed s e body)" by (auto simp: judge_new_def Let_def split: if_splits)
    show thesis
    proof (cases "physical_ok L (ce_first env) \<and> physical_ok L (ce_second env)")
      case True
      with assms None row have "answer = Inr Accepted" "db' = grown"
        by (simp_all add: judge_new_def Let_def admit_def roomy grown)
      with True row None show thesis by (intro that(2)) (simp_all add: roomy grown)
    next
      case False
      with assms None row have "answer = Inl StorageCapacity" "db' = ?keep"
        by (simp_all add: judge_new_def Let_def admit_def roomy grown split: if_splits)
      then show thesis by (intro that(1)) (simp_all split: if_splits)
    qed
  qed
qed

lemma judge_cases:
  assumes "judge sha L env p r s epoch body now db0 = Inr (answer, db', n)"
  defines "db \<equiv> fst (prune L now 0 db0)"
  obtains c where "find_receipt p r s db = Some c" "rc_hash c = sha body" "answer = Inr Duplicate" "db' = touch p r now db"
  | c where "find_receipt p r s db = Some c" "rc_hash c \<noteq> sha body" "answer = Inr Equivocation" "db' = db"
  | "find_receipt p r s db = None" "answer \<in> Inr ` {SeqNotIncreasing, EpochNotIncreasing, EpochOutOfRange}" "db' = db"
  | "find_receipt p r s db = None" "valid_sample_epoch epoch = Inr True" "new_enough now (num_value epoch)"
    "\<And>row. find_run p r db = Some row \<Longrightarrow> rr_max_seq row < s \<and> rr_max_epoch row < num_value epoch"
    "judge_new sha L env p r s (num_value epoch) body now (prune L now 0 db0) = Inr (answer, db', n)"
proof -
  obtain k where p: "prune L now 0 db0 = (db, k)" by (metis db_def prod.collapse)
  show thesis
  proof (cases "find_receipt p r s db")
    case (Some c)
    show thesis
    proof (cases "rc_hash c = sha body")
      case True
      with assms(1) Some have "answer = Inr Duplicate" "db' = touch p r now db" by (simp_all add: judge_def p Let_def)
      with Some True show thesis by (rule that(1))
    next
      case False
      with assms(1) Some have "answer = Inr Equivocation" "db' = db" by (simp_all add: judge_def p Let_def)
      with Some False show thesis by (rule that(2))
    qed
  next
    case None
    with assms(1) obtain fine where f: "valid_sample_epoch epoch = Inr fine"
      and j: "(if \<not> fine then Inr (Inr EpochOutOfRange, db, k)
            else case find_run p r db of
                Some row \<Rightarrow>
                  if s \<le> rr_max_seq row then Inr (Inr SeqNotIncreasing, db, k)
                  else if num_value epoch \<le> rr_max_epoch row then Inr (Inr EpochNotIncreasing, db, k)
                  else if now + 300 < num_value epoch \<or> num_value epoch < now - NEW_SAMPLE_MAX_AGE
                  then Inr (Inr EpochOutOfRange, db, k)
                  else judge_new sha L env p r s (num_value epoch) body now (db, k)
              | None \<Rightarrow>
                  if now + 300 < num_value epoch \<or> num_value epoch < now - NEW_SAMPLE_MAX_AGE
                  then Inr (Inr EpochOutOfRange, db, k)
                  else judge_new sha L env p r s (num_value epoch) body now (db, k)) = Inr (answer, db', n)"
      by (auto simp: judge_def p Let_def res_bind_eq_Inr)
    show thesis
    proof (cases fine)
      case False
      with j that(3) [OF None] show thesis by simp
    next
      case True
      show thesis
      proof (cases "find_run p r db")
        case None
        with j True f that(3,4) \<open>find_receipt p r s db = None\<close> show thesis by (auto simp: new_enough_def p split: if_splits)
      next
        case (Some row)
        with j True f that(3,4) \<open>find_receipt p r s db = None\<close> show thesis by (auto simp: new_enough_def p split: if_splits)
      qed
    qed
  qed
qed

lemma judge_ok:
  assumes ok: "db_ok sha dumps loads db0" and req: "request_fine sha dumps loads p r s epoch body" and now: "0 \<le> now"
    and j: "judge sha L env p r s epoch body now db0 = Inr (answer, db', n)"
  shows "db_ok sha dumps loads db'"
proof -
  let ?db = "fst (prune L now 0 db0)"
  have okp: "db_ok sha dumps loads ?db" by (rule prune_ok [OF ok])
  from j show ?thesis
  proof (cases rule: judge_cases)
    case 4
    have p: "prune L now 0 db0 = (?db, snd (prune L now 0 db0))" by simp
    from 4(5) p have "judge_new sha L env p r s (num_value epoch) body now (?db, snd (prune L now 0 db0)) = Inr (answer, db', n)" by simp
    then show ?thesis
    proof (cases rule: judge_new_cases)
      case 1
      with okp touch_ok [OF okp] show ?thesis by auto
    next
      case 2
      let ?roomy = "fst (prune L now (length body + SAMPLE_ROW_CHARGE) ?db)"
      have r: "db_ok sha dumps loads ?roomy" by (rule prune_ok [OF okp])
      have "admissible sha dumps loads p r s (num_value epoch) body now ?roomy"
        using subtables_receipt [OF prune_sub 4(1)] 4(4) subtables_run [OF _ _ prune_sub] r okp
        by (intro request_fine_admissible [OF req _ now]) (auto simp: db_ok_def)
      from prune_ok [OF insert_tuple_ok [OF r this]] 2(4) show ?thesis by simp
    qed
  qed (use okp touch_ok [OF okp] in simp_all)
qed

lemma refresh_ok: "db_ok sha dumps loads db \<Longrightarrow> db_ok sha dumps loads (refresh p r s e now db)"
  by (simp add: refresh_def touch_ok split: option.split)

text \<open>Both transactions of a call either leave the tables alone or commit one of two results.\<close>

lemma note_pruned_db [simp]: "rm_db (note_pruned n st) = rm_db st"
  by (simp add: note_pruned_def)

lemma accept_locked_closed: "\<not> rm_open st \<Longrightarrow> accept_locked sha L env p r s epoch body now st = (Inl StoreFailed, st)"
  by (simp add: accept_locked_def)

lemma accept_locked_raise:
  "rm_open st \<Longrightarrow> judge sha L env p r s epoch body now (rm_db st) = Inl e \<Longrightarrow>
     \<exists>f. accept_locked sha L env p r s epoch body now st = (Inl f, st) \<and> f \<noteq> StorageCapacity"
  by (cases e) (simp_all add: accept_locked_def)

lemma accept_locked_judged:
  "rm_open st \<Longrightarrow> judge sha L env p r s epoch body now (rm_db st) = Inr (verdict, db, n) \<Longrightarrow>
     accept_locked sha L env p r s epoch body now st =
       (if ce_full env then (Inl StorageCapacity, st)
        else (case ce_commit env of Landed \<Rightarrow> (verdict, note_pruned n (st\<lparr>rm_db := db\<rparr>))
              | RolledBack \<Rightarrow> (Inl StoreFailed, st\<lparr>rm_db := rm_db st\<rparr>)
              | LandedUnseen \<Rightarrow> (Inl StoreFailed, st\<lparr>rm_db := db\<rparr>)))"
  by (cases "ce_commit env") (simp_all add: accept_locked_def transact_def)

lemma accept_locked_db:
  "rm_db (snd (accept_locked sha L env p r s epoch body now st)) = rm_db st
   \<or> (\<exists>verdict db n. judge sha L env p r s epoch body now (rm_db st) = Inr (verdict, db, n)
        \<and> rm_db (snd (accept_locked sha L env p r s epoch body now st)) = db)"
proof (cases "rm_open st")
  case True
  show ?thesis
  proof (cases "judge sha L env p r s epoch body now (rm_db st)")
    case (Inl e)
    with accept_locked_raise [OF True Inl] show ?thesis by auto
  next
    case (Inr x)
    obtain verdict db n where x: "x = (verdict, db, n)" by (cases x) auto
    with Inr show ?thesis unfolding accept_locked_judged [OF True Inr [unfolded x]] by (auto split: commit.split)
  qed
qed (simp add: accept_locked_closed)

lemma accept_eq:
  "accept sha L env p r s epoch body now st =
     (let (answer, st') = accept_locked sha L env p r s epoch body now st in
      if answer \<noteq> Inl StorageCapacity then (answer, st')
      else if ce_refresh_full env then (Inl StorageCapacity, st')
      else (Inl (if ce_refresh env = Landed then StorageCapacity else StoreFailed),
            if ce_refresh env = RolledBack then st'\<lparr>rm_db := rm_db st'\<rparr>
            else st'\<lparr>rm_db := refresh p r s (num_value epoch) now (rm_db st')\<rparr>))"
  by (simp add: accept_def transact_def split: prod.split sum.split store_error.split commit.split)

lemma accept_db:
  assumes I: "I (rm_db st)"
    and J: "\<And>verdict db n. judge sha L env p r s epoch body now (rm_db st) = Inr (verdict, db, n) \<Longrightarrow> I db"
    and R: "\<And>db. I db \<Longrightarrow> I (refresh p r s (num_value epoch) now db)"
  shows "I (rm_db (snd (accept sha L env p r s epoch body now st)))"
proof -
  obtain answer st' where a: "accept_locked sha L env p r s epoch body now st = (answer, st')" by force
  with accept_locked_db [of sha L env p r s epoch body now st] I J have "I (rm_db st')" by (metis snd_conv)
  with R show ?thesis by (simp add: accept_eq a)
qed

lemma accept_keeps_ok:
  assumes "db_ok sha dumps loads (rm_db st)" and "request_fine sha dumps loads p r s epoch body" and "0 \<le> now"
  shows "db_ok sha dumps loads (rm_db (snd (accept sha L env p r s epoch body now st)))"
proof (rule accept_db [where I = "db_ok sha dumps loads"])
  show "db_ok sha dumps loads (rm_db st)" by fact
next
  fix verdict db n
  assume "judge sha L env p r s epoch body now (rm_db st) = Inr (verdict, db, n)"
  with judge_ok [OF assms] show "db_ok sha dumps loads db" .
next
  fix db
  assume "db_ok sha dumps loads db"
  then show "db_ok sha dumps loads (refresh p r s (num_value epoch) now db)" by (rule refresh_ok)
qed

section \<open>A receipt outlives every admissible retry\<close>

text \<open>
  The tuple is on record with a receipt made when its sample was not in the future, or its sample is too old to be
  admitted again.
\<close>

definition settled :: "string \<Rightarrow> string \<Rightarrow> int \<Rightarrow> rat \<Rightarrow> rat \<Rightarrow> remote_db \<Rightarrow> bool" where
  "settled p r s e now db \<longleftrightarrow> (\<exists>c\<in>set (rd_receipts db). receipt_key c = (p, r, s) \<and> e \<le> rc_accepted c + 300) \<or> e < now - NEW_SAMPLE_MAX_AGE"

lemma settled_later: "settled p r s e now db \<Longrightarrow> now \<le> now' \<Longrightarrow> settled p r s e now' db"
  by (auto simp: settled_def)

lemma settled_receipts: "settled p r s e now db \<Longrightarrow> set (rd_receipts db) \<subseteq> set (rd_receipts db') \<Longrightarrow> settled p r s e now db'"
  by (auto simp: settled_def)

lemma expire_settled:
  assumes "db_ok sha dumps loads db" "settled p r s e now db"
  shows "settled p r s e now (expire_runs now db)"
proof (cases "e < now - NEW_SAMPLE_MAX_AGE")
  case False
  with assms(2) obtain c where c: "c \<in> set (rd_receipts db)" "receipt_key c = (p, r, s)" "e \<le> rc_accepted c + 300"
    by (auto simp: settled_def)
  show ?thesis
  proof (cases "c \<in> set (rd_receipts (expire_runs now db))")
    case True
    with c show ?thesis by (auto simp: settled_def)
  next
    case gone: False
    with c(1) obtain row where row: "row \<in> set (rd_runs db)" "rr_activity row < now - RUN_LIFETIME_SECONDS" "run_key row = (rc_probe c, rc_run c)"
      by (auto simp: expire_runs_def Let_def)
    with assms(1) c(1) have "rc_accepted c \<le> rr_activity row" by (auto simp: db_ok_def verify_rows_def receipts_ok_def)
    with row(2) c(3) have "e < now - NEW_SAMPLE_MAX_AGE"
      by (simp add: NEW_SAMPLE_MAX_AGE_def REMOTE_MAX_AGE_def RUN_LIFETIME_SECONDS_def)
    then show ?thesis by (simp add: settled_def)
  qed
qed (simp add: settled_def)

lemma prune_settled:
  assumes "db_ok sha dumps loads db" "settled p r s e now db"
  shows "settled p r s e now (fst (prune L now extra db))"
proof -
  have "db_ok sha dumps loads (fst (prune L now extra db)) \<and> settled p r s e now (fst (prune L now extra db))"
    by (rule prune_inv [where I = "\<lambda>db. db_ok sha dumps loads db \<and> settled p r s e now db"])
      (use assms expire_runs_ok expire_settled in \<open>auto simp: keep_samples intro: settled_receipts\<close>)
  then show ?thesis ..
qed

lemma touch_settled: "settled p r s e now db \<Longrightarrow> settled p r s e now (touch q t now' db)"
  by (simp add: settled_def touch_runs)

lemma refresh_settled: "settled p r s e now db \<Longrightarrow> settled p r s e now (refresh q t k e' now' db)"
  by (simp add: refresh_def touch_settled split: option.split)

lemma judge_settled:
  assumes ok: "db_ok sha dumps loads db0" and req: "request_fine sha dumps loads q t k epoch body" and now: "0 \<le> now"
    and j: "judge sha L env q t k epoch body now db0 = Inr (answer, db', n)"
    and old: "settled p r s e now db0 \<or> answer = Inr Accepted \<and> (p, r, s, e) = (q, t, k, num_value epoch)"
  shows "settled p r s e now db'"
proof -
  obtain db m where p: "prune L now 0 db0 = (db, m)" by force
  have okp: "db_ok sha dumps loads db" using prune_ok [OF ok, of L now 0] p by simp
  have keep: "settled p r s e now db" if "settled p r s e now db0" using prune_settled [OF ok that, of L 0] p by simp
  from j show ?thesis
  proof (cases rule: judge_cases)
    case 4
    from 4(5) p have "judge_new sha L env q t k (num_value epoch) body now (db, m) = Inr (answer, db', n)" by simp
    then show ?thesis
    proof (cases rule: judge_new_cases)
      case 1
      with old keep touch_settled show ?thesis by auto
    next
      case 2
      let ?roomy = "fst (prune L now (length body + SAMPLE_ROW_CHARGE) db)"
      have r: "db_ok sha dumps loads ?roomy" by (rule prune_ok [OF okp])
      have adm: "admissible sha dumps loads q t k (num_value epoch) body now ?roomy"
        using subtables_receipt [OF prune_sub] subtables_run [OF _ _ prune_sub] r okp 4(1,4) p
        by (intro request_fine_admissible [OF req _ now]) (auto simp: db_ok_def)
      have "settled p r s e now (insert_tuple sha q t k (num_value epoch) body now ?roomy)"
      proof (cases "settled p r s e now db0")
        case True
        from prune_settled [OF okp keep [OF True], of L "length body + SAMPLE_ROW_CHARGE"] show ?thesis by (rule settled_receipts) (simp add: insert_tuple_rows(2) subset_insertI)
      next
        case False
        with old 4(3) show ?thesis by (auto simp: settled_def insert_tuple_rows(2) new_enough_def new_receipt_def receipt_key_def)
      qed
      from prune_settled [OF insert_tuple_ok [OF r adm] this] 2(4) show ?thesis by simp
    qed
  qed (use old keep touch_settled p in auto)
qed

lemma settled_not_accepted:
  assumes "db_ok sha dumps loads db0" "settled p r s (num_value epoch) now db0"
    and "judge sha L env p r s epoch body now db0 = Inr (answer, db', n)"
  shows "answer \<noteq> Inr Accepted"
  using assms(3)
proof (cases rule: judge_cases)
  case 4
  from prune_settled [OF assms(1,2), of L 0] 4(1,3) have False
    by (auto simp: settled_def find_receipt_def find_None_key new_enough_def image_iff)
  then show ?thesis ..
qed auto

section \<open>A history of calls\<close>

record store_call =
  sc_env :: call_env
  sc_probe :: string
  sc_run :: string
  sc_seq :: int
  sc_epoch :: pyval
  sc_body :: string
  sc_now :: rat

definition serve :: "(string \<Rightarrow> string) \<Rightarrow> store_bounds \<Rightarrow> remote \<Rightarrow> store_call \<Rightarrow> (store_error + verdict) \<times> remote" where
  "serve sha L st c = accept sha L (sc_env c) (sc_probe c) (sc_run c) (sc_seq c) (sc_epoch c) (sc_body c) (sc_now c) st"

fun answers :: "(string \<Rightarrow> string) \<Rightarrow> store_bounds \<Rightarrow> remote \<Rightarrow> store_call list \<Rightarrow> (store_error + verdict) list" where
  "answers sha L st [] = []"
| "answers sha L st (c # cs) = (let (a, st') = serve sha L st c in a # answers sha L st' cs)"

definition call_fine :: "(string \<Rightarrow> string) \<Rightarrow> (pyval \<Rightarrow> string) \<Rightarrow> (string \<Rightarrow> pyval option) \<Rightarrow> store_call \<Rightarrow> bool" where
  "call_fine sha dumps loads c \<longleftrightarrow> request_fine sha dumps loads (sc_probe c) (sc_run c) (sc_seq c) (sc_epoch c) (sc_body c) \<and> 0 \<le> sc_now c"

lemma call_fine_body:
  assumes "call_fine sha dumps loads c" "call_fine sha dumps loads c'" "sc_body c = sc_body c'"
  shows "sc_probe c = sc_probe c' \<and> sc_run c = sc_run c' \<and> sc_seq c = sc_seq c' \<and> sc_epoch c = sc_epoch c'"
  using assms by (auto simp: call_fine_def request_fine_def)

lemma accept_Accepted:
  "fst (accept sha L env p r s epoch body now st) = Inr Accepted \<Longrightarrow>
     \<exists>db n. judge sha L env p r s epoch body now (rm_db st) = Inr (Inr Accepted, db, n)
       \<and> rm_db (snd (accept sha L env p r s epoch body now st)) = db"
proof -
  assume a: "fst (accept sha L env p r s epoch body now st) = Inr Accepted"
  obtain answer st' where al: "accept_locked sha L env p r s epoch body now st = (answer, st')" by force
  with a have acc: "answer = Inr Accepted" "accept sha L env p r s epoch body now st = (Inr Accepted, st')"
    by (auto simp: accept_eq split: if_splits)
  have opened: "rm_open st" using al acc(1) accept_locked_closed [of st] by (cases "rm_open st") auto
  show ?thesis
  proof (cases "judge sha L env p r s epoch body now (rm_db st)")
    case (Inl e)
    with accept_locked_raise [OF opened Inl] al acc(1) show ?thesis by auto
  next
    case (Inr x)
    obtain verdict db n where x: "x = (verdict, db, n)" by (cases x) auto
    from accept_locked_judged [OF opened Inr [unfolded x]] al acc have "verdict = Inr Accepted" "rm_db st' = db"
      by (auto split: if_splits commit.splits)
    with Inr x acc show ?thesis by simp
  qed
qed

lemma serve_settled:
  assumes "db_ok sha dumps loads (rm_db st)" "call_fine sha dumps loads c" "settled p r s e now (rm_db st)" "now \<le> sc_now c"
  shows "settled p r s e (sc_now c) (rm_db (snd (serve sha L st c)))"
  unfolding serve_def
proof (rule accept_db [where I = "settled p r s e (sc_now c)"])
  show old: "settled p r s e (sc_now c) (rm_db st)" by (rule settled_later [OF assms(3,4)])
  fix verdict db n
  assume "judge sha L (sc_env c) (sc_probe c) (sc_run c) (sc_seq c) (sc_epoch c) (sc_body c) (sc_now c) (rm_db st) = Inr (verdict, db, n)"
  with judge_settled [OF assms(1) _ _ _] assms(2) old show "settled p r s e (sc_now c) db" by (auto simp: call_fine_def)
qed (rule refresh_settled)

lemma serve_ok:
  assumes "db_ok sha dumps loads (rm_db st)" "call_fine sha dumps loads c"
  shows "db_ok sha dumps loads (rm_db (snd (serve sha L st c)))"
  using accept_keeps_ok assms unfolding serve_def call_fine_def by blast

lemma settled_never_again:
  assumes "db_ok sha dumps loads (rm_db st)" "settled (sc_probe c) (sc_run c) (sc_seq c) (num_value (sc_epoch c)) now (rm_db st)"
    "list_all (call_fine sha dumps loads) cs" "sorted (map sc_now cs)" "\<forall>d\<in>set cs. now \<le> sc_now d" "call_fine sha dumps loads c"
    "j < length cs" "sc_body (cs ! j) = sc_body c"
  shows "answers sha L st cs ! j \<noteq> Inr Accepted"
  using assms
proof (induction cs arbitrary: st now j)
  case (Cons d cs)
  obtain a st' where sv: "serve sha L st d = (a, st')" by force
  show ?case
  proof (cases j)
    case 0
    with Cons.prems have same: "sc_probe d = sc_probe c" "sc_run d = sc_run c" "sc_seq d = sc_seq c" "sc_epoch d = sc_epoch c"
      using call_fine_body [of sha dumps loads d c] by auto
    show ?thesis
    proof
      assume "answers sha L st (d # cs) ! j = Inr Accepted"
      with 0 sv have "fst (serve sha L st d) = Inr Accepted" by simp
      then obtain db n where
        jd: "judge sha L (sc_env d) (sc_probe d) (sc_run d) (sc_seq d) (sc_epoch d) (sc_body d) (sc_now d) (rm_db st) = Inr (Inr Accepted, db, n)"
        unfolding serve_def by (blast dest: accept_Accepted)
      have "settled (sc_probe d) (sc_run d) (sc_seq d) (num_value (sc_epoch d)) (sc_now d) (rm_db st)"
        unfolding same by (rule settled_later [OF Cons.prems(2)]) (use Cons.prems(5) in simp)
      from settled_not_accepted [OF Cons.prems(1) this jd] show False by simp
    qed
  next
    case (Suc i)
    have "answers sha L st' cs ! i \<noteq> Inr Accepted"
    proof (rule Cons.IH)
      show "db_ok sha dumps loads (rm_db st')" using serve_ok [OF Cons.prems(1), of d L] Cons.prems(3) sv by simp
      show "settled (sc_probe c) (sc_run c) (sc_seq c) (num_value (sc_epoch c)) (sc_now d) (rm_db st')"
        using serve_settled [OF Cons.prems(1) _ Cons.prems(2), of d L] Cons.prems(3,5) sv by simp
    qed (use Cons.prems Suc in auto)
    with Suc sv show ?thesis by simp
  qed
qed simp

lemma serve_accepts_once:
  assumes "db_ok sha dumps loads (rm_db st)" "list_all (call_fine sha dumps loads) cs" "sorted (map sc_now cs)"
    "i < j" "j < length cs" "sc_body (cs ! i) = sc_body (cs ! j)" "answers sha L st cs ! i = Inr Accepted"
  shows "answers sha L st cs ! j \<noteq> Inr Accepted"
  using assms
proof (induction cs arbitrary: st i j)
  case (Cons d cs)
  obtain a st' where sv: "serve sha L st d = (a, st')" by force
  have fine: "call_fine sha dumps loads d" and ok': "db_ok sha dumps loads (rm_db st')"
    using serve_ok [OF Cons.prems(1), of d L] Cons.prems(2) sv by simp_all
  from Cons.prems(4) obtain k where j: "j = Suc k" "i \<le> k" by (cases j) auto
  show ?case
  proof (cases i)
    case 0
    with Cons.prems(7) sv have "fst (serve sha L st d) = Inr Accepted" by simp
    then obtain db n where
      jd: "judge sha L (sc_env d) (sc_probe d) (sc_run d) (sc_seq d) (sc_epoch d) (sc_body d) (sc_now d) (rm_db st) = Inr (Inr Accepted, db, n)"
      and db: "rm_db st' = db"
      unfolding serve_def using sv by (metis accept_Accepted serve_def snd_conv)
    have "settled (sc_probe d) (sc_run d) (sc_seq d) (num_value (sc_epoch d)) (sc_now d) db"
      using judge_settled [OF Cons.prems(1) _ _ jd] fine by (simp add: call_fine_def)
    from settled_never_again [OF ok' this [folded db], of cs k L] fine Cons.prems j 0 sv show ?thesis by simp
  next
    case (Suc m)
    with Cons.prems j sv have "answers sha L st' cs ! k \<noteq> Inr Accepted" by (intro Cons.IH [OF ok', of m]) auto
    with j sv show ?thesis by simp
  qed
qed simp

section \<open>Bounds\<close>

definition in_bounds :: "store_bounds \<Rightarrow> remote_db \<Rightarrow> bool" where
  "in_bounds L db \<longleftrightarrow> length (rd_receipts db) \<le> sb_receipts L \<and> length (rd_receipts db) * RECEIPT_ROW_CHARGE \<le> sb_receipt_bytes L
     \<and> (\<forall>p. length (filter (\<lambda>c. rc_probe c = p) (rd_receipts db)) \<le> sb_receipts_probe L)
     \<and> length (rd_runs db) \<le> sb_runs L \<and> length (rd_runs db) * RUN_ROW_CHARGE \<le> sb_run_bytes L
     \<and> (\<forall>p. length (filter (\<lambda>r. rr_probe r = p) (rd_runs db)) \<le> sb_runs_probe L)"

text \<open>\<open>smaller db' db\<close>: no table of \<open>db'\<close> counts more rows than that of \<open>db\<close>, in all and for each probe.\<close>

definition smaller :: "remote_db \<Rightarrow> remote_db \<Rightarrow> bool" where
  "smaller db' db \<longleftrightarrow> length (rd_receipts db') \<le> length (rd_receipts db) \<and> length (rd_runs db') \<le> length (rd_runs db)
     \<and> (\<forall>p. length (filter (\<lambda>c. rc_probe c = p) (rd_receipts db')) \<le> length (filter (\<lambda>c. rc_probe c = p) (rd_receipts db)))
     \<and> (\<forall>p. length (filter (\<lambda>r. rr_probe r = p) (rd_runs db')) \<le> length (filter (\<lambda>r. rr_probe r = p) (rd_runs db)))"

lemma smaller_within: "smaller db' db \<Longrightarrow> in_bounds L db \<Longrightarrow> in_bounds L db'"
  unfolding smaller_def in_bounds_def by (meson le_trans mult_le_mono1)

lemma smaller_trans: "smaller a b \<Longrightarrow> smaller b c \<Longrightarrow> smaller a c"
  unfolding smaller_def by (meson le_trans)

lemma filter_filter_le: "length (filter P (filter Q xs)) \<le> length (filter P xs)"
  by (induction xs) auto

lemma expire_runs_smaller: "smaller (expire_runs now db) db"
  by (simp add: smaller_def expire_runs_def Let_def filter_filter_le del: filter_filter)

lemma prune_smaller: "smaller (fst (prune L now extra db)) db"
  by (rule prune_inv [where I = "\<lambda>x. smaller x db"])
    (simp_all add: smaller_trans [OF expire_runs_smaller], simp_all add: smaller_def)

lemma touch_smaller: "smaller (touch p r now db) db"
  by (simp add: smaller_def touch_runs filter_map o_def)

lemma refresh_smaller: "smaller (refresh p r s e now db) db"
  by (simp add: refresh_def touch_smaller split: option.split) (simp add: smaller_def)

lemma insert_within:
  assumes "in_bounds L db" "smaller roomy db" "capacity L p (find_run p r db = None) db = None"
    "find_run p r db = None \<longleftrightarrow> find_run p r roomy = None"
  shows "in_bounds L (insert_tuple sha p r s e body now roomy)"
proof -
  from assms(1,2) have small: "in_bounds L roomy" by (rule smaller_within [rotated])
  from assms(3) have rc: "length (rd_receipts db) < sb_receipts L" "(length (rd_receipts db) + 1) * RECEIPT_ROW_CHARGE \<le> sb_receipt_bytes L"
    "length (filter (\<lambda>c. rc_probe c = p) (rd_receipts db)) < sb_receipts_probe L"
    by (auto simp: capacity_def Let_def split: if_splits)
  from assms(3) have rr: "find_run p r db = None \<Longrightarrow> length (rd_runs db) < sb_runs L \<and> (length (rd_runs db) + 1) * RUN_ROW_CHARGE \<le> sb_run_bytes L
      \<and> length (filter (\<lambda>r. rr_probe r = p) (rd_runs db)) < sb_runs_probe L"
    by (auto simp: capacity_def Let_def split: if_splits)
  have probe_kept: "rr_probe (advanced p r s e now row) = rr_probe row" for row by (simp add: advanced_def)
  have le: "length (rd_receipts roomy) \<le> length (rd_receipts db)" "length (rd_runs roomy) \<le> length (rd_runs db)"
    "length (filter (\<lambda>c. rc_probe c = p) (rd_receipts roomy)) \<le> length (filter (\<lambda>c. rc_probe c = p) (rd_receipts db))"
    "length (filter (\<lambda>r. rr_probe r = p) (rd_runs roomy)) \<le> length (filter (\<lambda>r. rr_probe r = p) (rd_runs db))"
    using assms(2) by (simp_all add: smaller_def)
  have "(length (rd_receipts roomy) + 1) * RECEIPT_ROW_CHARGE \<le> sb_receipt_bytes L"
    using rc(2) le(1) by (meson add_le_mono1 le_trans mult_le_mono1)
  moreover have "find_run p r db = None \<Longrightarrow> (length (rd_runs roomy) + 1) * RUN_ROW_CHARGE \<le> sb_run_bytes L"
    using rr le(2) by (meson add_le_mono1 le_trans mult_le_mono1)
  ultimately show ?thesis
    using small rc rr le assms(4)
    by (cases "find_run p r roomy")
      (simp_all add: in_bounds_def insert_tuple_rows with_run_def filter_map o_def probe_kept new_receipt_def)
qed

lemma prune_loop_bytes:
  assumes "0 < sb_batch L"
  shows "sample_bytes (fst (prune_loop L extra (db, n))) + extra \<le> sb_soft L \<or> rd_samples (fst (prune_loop L extra (db, n))) = []"
  using assms
proof (induction L extra "(db, n)" arbitrary: db n rule: prune_loop.induct)
  case (1 L extra db n)
  have "oldest (sb_batch L) db = [] \<Longrightarrow> rd_samples db = []"
    using 1(2) by (auto simp: oldest_def dest: arg_cong [where f = length])
  with 1 show ?case by (subst (1 2) prune_loop.simps) simp
qed

lemma prune_bytes:
  assumes "0 < sb_batch L" "sb_soft L \<le> sb_hard L"
  shows "sample_bytes (fst (prune L now 0 db)) \<le> sb_hard L"
  using prune_loop_bytes [OF assms(1), of 0 "expire_samples now (expire_runs now db)" 0] assms(2)
  by (auto simp: prune_def Let_def sample_bytes_def)

text \<open>The run of a tuple survives a second pruning at the same time.\<close>

lemma prune_runs: "rd_runs (fst (prune L now extra db)) = filter (\<lambda>r. \<not> rr_activity r < now - RUN_LIFETIME_SECONDS) (rd_runs db)"
proof -
  have "rd_runs (fst (prune_loop L extra (db, n))) = rd_runs db" for db n
    by (rule prune_loop_inv [where I = "\<lambda>x. rd_runs x = rd_runs db"]) (simp_all add: drop_oldest_def)
  then show ?thesis by (simp add: prune_def Let_def expire_samples_def expire_runs_def)
qed

lemma prune_twice_run: "find_run p r (fst (prune L now x (fst (prune L now y db)))) = find_run p r (fst (prune L now y db))"
  by (simp add: find_run_def prune_runs)

lemma touch_bytes: "sample_bytes (touch p r now db) = sample_bytes db" "sample_bytes (refresh p r s e now db) = sample_bytes db"
  by (simp_all add: sample_bytes_def touch_runs refresh_def split: option.split)

lemma judge_within:
  assumes L: "0 < sb_batch L" "sb_soft L \<le> sb_hard L" and w: "in_bounds L db0"
    and j: "judge sha L env p r s epoch body now db0 = Inr (answer, db', n)"
  shows "in_bounds L db' \<and> sample_bytes db' \<le> sb_hard L"
proof -
  obtain db m where p: "prune L now 0 db0 = (db, m)" by force
  have wp: "in_bounds L db" "sample_bytes db \<le> sb_hard L"
    using smaller_within [OF prune_smaller w, of L now 0] prune_bytes [OF L, of now db0] p by simp_all
  have wt: "in_bounds L (touch p r now db)" "sample_bytes (touch p r now db) \<le> sb_hard L"
    using smaller_within [OF touch_smaller wp(1)] wp(2) by (simp_all add: touch_bytes)
  from j show ?thesis
  proof (cases rule: judge_cases)
    case 4
    from 4(5) p have "judge_new sha L env p r s (num_value epoch) body now (db, m) = Inr (answer, db', n)" by simp
    then show ?thesis
    proof (cases rule: judge_new_cases)
      case 1
      with wp wt show ?thesis by auto
    next
      case 2
      let ?roomy = "fst (prune L now (length body + SAMPLE_ROW_CHARGE) db)"
      have "find_run p r ?roomy = find_run p r db" using prune_twice_run [of p r L now _ 0 db0] p by simp
      then have "in_bounds L (insert_tuple sha p r s (num_value epoch) body now ?roomy)"
        by (intro insert_within [OF wp(1) prune_smaller 2(2)]) simp
      with 2(4) smaller_within [OF prune_smaller] prune_bytes [OF L] show ?thesis by simp
    qed
  qed (use wp wt p in auto)
qed

section \<open>Retries\<close>

lemma receipt_survives:
  assumes "db_ok sha dumps loads db" "c \<in> set (rd_receipts db)" "now - RUN_LIFETIME_SECONDS \<le> rc_accepted c"
  shows "c \<in> set (rd_receipts (fst (prune L now extra db)))"
proof -
  have "c \<in> set (rd_receipts (expire_runs now db))"
  proof (rule ccontr)
    assume "c \<notin> set (rd_receipts (expire_runs now db))"
    with assms(2) obtain row where row: "row \<in> set (rd_runs db)" "rr_activity row < now - RUN_LIFETIME_SECONDS" "run_key row = (rc_probe c, rc_run c)"
      by (auto simp: expire_runs_def Let_def)
    with assms(1,2) have "rc_accepted c \<le> rr_activity row" by (auto simp: db_ok_def verify_rows_def receipts_ok_def)
    with row(2) assms(3) show False by simp
  qed
  moreover have "rd_receipts (fst (prune_loop L extra (db', n))) = rd_receipts db'" for db' n
    by (rule prune_loop_inv [where I = "\<lambda>x. rd_receipts x = rd_receipts db'"]) (simp_all add: drop_oldest_def)
  ultimately show ?thesis by (simp add: prune_def Let_def expire_samples_def)
qed

lemma find_receipt_None: "find_receipt p r s db = None \<longleftrightarrow> (p, r, s) \<notin> receipt_key ` set (rd_receipts db)"
  by (simp add: find_receipt_def find_None_key)

lemma find_receipt_eq:
  assumes "keys_unique db" "c \<in> set (rd_receipts db)"
  shows "find_receipt (rc_probe c) (rc_run c) (rc_seq c) db = Some c"
proof -
  have key: "receipt_key c = (rc_probe c, rc_run c, rc_seq c)" by (simp add: receipt_key_def)
  with assms(2) have "find_receipt (rc_probe c) (rc_run c) (rc_seq c) db \<noteq> None" unfolding find_receipt_None by (metis imageI)
  then obtain c' where f: "find_receipt (rc_probe c) (rc_run c) (rc_seq c) db = Some c'" by blast
  then have c': "c' \<in> set (rd_receipts db)" "receipt_key c' = (rc_probe c, rc_run c, rc_seq c)"
    unfolding find_receipt_def by (auto dest: find_Some_key)
  from assms(1) have "inj_on receipt_key (set (rd_receipts db))" by (simp add: keys_unique_def distinct_map)
  from inj_onD [OF this _ c'(1) assms(2)] c'(2) key have "c' = c" by simp
  with f show ?thesis by simp
qed

lemma judge_accepted_receipt:
  assumes ok: "db_ok sha dumps loads db0" and req: "request_fine sha dumps loads p r s epoch body" and now: "0 \<le> now"
    and j: "judge sha L env p r s epoch body now db0 = Inr (Inr Accepted, db', n)"
  shows "new_receipt sha p r s body now \<in> set (rd_receipts db')"
proof -
  obtain db m where p: "prune L now 0 db0 = (db, m)" by force
  have okp: "db_ok sha dumps loads db" using prune_ok [OF ok, of L now 0] p by simp
  from j show ?thesis
  proof (cases rule: judge_cases)
    case 4
    from 4(5) p have "judge_new sha L env p r s (num_value epoch) body now (db, m) = Inr (Inr Accepted, db', n)" by simp
    then show ?thesis
    proof (cases rule: judge_new_cases)
      case 2
      let ?roomy = "fst (prune L now (length body + SAMPLE_ROW_CHARGE) db)"
      have r: "db_ok sha dumps loads ?roomy" by (rule prune_ok [OF okp])
      have adm: "admissible sha dumps loads p r s (num_value epoch) body now ?roomy"
        using subtables_receipt [OF prune_sub] subtables_run [OF _ _ prune_sub] r okp 4(1,4) p
        by (intro request_fine_admissible [OF req _ now]) (auto simp: db_ok_def)
      have "new_receipt sha p r s body now \<in> set (rd_receipts (fst (prune L now 0 (insert_tuple sha p r s (num_value epoch) body now ?roomy))))"
        by (rule receipt_survives [OF insert_tuple_ok [OF r adm]])
          (simp_all add: insert_tuple_rows(2), simp add: new_receipt_def RUN_LIFETIME_SECONDS_def)
      with 2(4) show ?thesis by simp
    qed simp
  qed auto
qed

lemma judge_known:
  assumes "db_ok sha dumps loads db" "c \<in> set (rd_receipts db)" "now - RUN_LIFETIME_SECONDS \<le> rc_accepted c"
  shows "\<exists>db' n. judge sha L env (rc_probe c) (rc_run c) (rc_seq c) epoch body now db
           = Inr (Inr (if rc_hash c = sha body then Duplicate else Equivocation), db', n)"
proof -
  obtain db1 m where p: "prune L now 0 db = (db1, m)" by force
  have "find_receipt (rc_probe c) (rc_run c) (rc_seq c) db1 = Some c"
    using find_receipt_eq receipt_survives [OF assms, of L 0] prune_ok [OF assms(1), of L now 0] p by (simp add: db_ok_def)
  then show ?thesis by (simp add: judge_def p)
qed

lemma accept_landed:
  "rm_open st \<Longrightarrow> judge sha L env p r s epoch body now (rm_db st) = Inr (Inr v, db, n) \<Longrightarrow> \<not> ce_full env \<Longrightarrow> ce_commit env = Landed \<Longrightarrow>
     fst (accept sha L env p r s epoch body now st) = Inr v"
  by (simp add: accept_eq accept_locked_judged)

section \<open>What the store promises\<close>

lemma retention_db: "rm_db (snd (enforce_retention L c now st)) = rm_db st \<or> rm_db (snd (enforce_retention L c now st)) = fst (prune L now 0 (rm_db st))"
  by (cases c) (auto simp: enforce_retention_def transact_def split_beta Let_def)

lemma retention_lands: "rm_open st \<Longrightarrow> enforce_retention L Landed now st = (True, note_pruned (snd (prune L now 0 (rm_db st))) (st\<lparr>rm_db := fst (prune L now 0 (rm_db st))\<rparr>))"
  by (simp add: enforce_retention_def transact_def split_beta)

text \<open>
  C9: The store never locks itself out: whatever call is served - any authenticated canonical sample, any disk, any
  fate of the transactions - and whenever retention runs, the tables still pass every row check that opening makes
  (references, progression, evidence, hashes), so the next start opens them.
\<close>

theorem store_always_reopens:
  assumes "db_ok sha dumps loads (rm_db st)" and "request_fine sha dumps loads p r s epoch body" and "0 \<le> now"
  shows "let db = rm_db (snd (accept sha L env p r s epoch body now st));
             kept = rm_db (snd (enforce_retention L c now st))
         in db_ok sha dumps loads db \<and> open_store sha dumps loads L True Landed later db \<noteq> None
            \<and> db_ok sha dumps loads kept \<and> open_store sha dumps loads L True Landed later kept \<noteq> None"
proof -
  have reopen: "open_store sha dumps loads L True Landed later db \<noteq> None" if "db_ok sha dumps loads db" for db
    using that by (simp add: open_store_def db_ok_def retention_lands open_remote_def)
  have "db_ok sha dumps loads (rm_db (snd (enforce_retention L c now st)))"
    using retention_db [of L c now st] assms(1) prune_ok [OF assms(1)] by metis
  with reopen accept_keeps_ok [OF assms] show ?thesis by (simp add: Let_def)
qed

definition sample_text :: string where "sample_text = ''{\"v\":1}''"
definition toy_dumps :: "pyval \<Rightarrow> string" where "toy_dumps v = (if v = good_sample then sample_text else ''null'')"
definition toy_loads :: "string \<Rightarrow> pyval option" where "toy_loads s = (if s = sample_text then Some good_sample else None)"
definition toy_sha :: "string \<Rightarrow> string" where "toy_sha = take 32"

lemma toy_request: "request_fine toy_sha toy_dumps toy_loads ''office-1'' sample_run 7 (PFloat (Fin 1000)) sample_text"
proof -
  have "canonical_bytes toy_dumps good_sample = Inr sample_text" "pgetN (dict_items good_sample) ''probe_id'' = PStr ''office-1''"
    "pgetN (dict_items good_sample) ''run'' = PStr sample_run" "pgetN (dict_items good_sample) ''seq'' = PInt 7"
    "pgetN (dict_items good_sample) ''sample_epoch'' = PFloat (Fin 1000)" by code_simp+
  moreover have "good_sample = PDict (dict_items good_sample)" by (simp add: good_sample_def sample_of_def)
  ultimately show ?thesis
    using good_sample_ok unfolding request_fine_def toy_loads_def by metis
qed

lemma blank_ok: "db_ok sha dumps loads (rm_db (open_remote blank_db))"
  by (simp add: open_remote_def blank_db_def db_facts)

theorem store_always_reopens_witness:
  "open_store toy_sha toy_dumps toy_loads default_bounds True Landed 2000
     (rm_db (snd (accept toy_sha default_bounds calm ''office-1'' sample_run 7 (PFloat (Fin 1000)) sample_text 1010 (open_remote blank_db)))) \<noteq> None"
  using store_always_reopens [OF blank_ok toy_request, of 1010 default_bounds calm Landed 2000] by (simp add: Let_def)

text \<open>
  C5: A signed sample is accepted at most once. In any history of calls with a clock that does not run back, from
  tables that pass the row checks, two calls with the same body are never both answered with acceptance - not after
  the sample has been pruned, and not after its run and receipt have expired - whatever the disk and the
  transactions do.
\<close>

theorem accepted_at_most_once:
  assumes "db_ok sha dumps loads (rm_db st)" and "list_all (call_fine sha dumps loads) cs" and "sorted (map sc_now cs)"
    and "i < j" and "j < length cs" and "sc_body (cs ! i) = sc_body (cs ! j)"
  shows "\<not> (answers sha L st cs ! i = Inr Accepted \<and> answers sha L st cs ! j = Inr Accepted)"
  using serve_accepts_once [OF assms] by blast

definition toy_call :: "rat \<Rightarrow> store_call" where
  "toy_call now = \<lparr>sc_env = calm, sc_probe = ''office-1'', sc_run = sample_run, sc_seq = 7, sc_epoch = PFloat (Fin 1000),
     sc_body = sample_text, sc_now = now\<rparr>"

lemma blank_steps:
  "prune L now extra blank_db = (if sb_hard L < extra then prune_loop L extra (blank_db, 0) else (blank_db, 0))"
  "find_receipt p r s blank_db = None" "find_run p r blank_db = None" "sample_bytes blank_db = 0"
  by (simp_all add: prune_def expire_runs_def expire_samples_def blank_db_def find_receipt_def find_run_def sample_bytes_def Let_def)

lemma toy_accepted:
  "fst (accept toy_sha default_bounds calm ''office-1'' sample_run 7 (PFloat (Fin 1000)) sample_text 1010 (open_remote blank_db)) = Inr Accepted"
proof -
  have disk: "physical_ok default_bounds roomy_disk"
    by (simp add: physical_ok_def working_space_def default_bounds_def roomy_disk_def)
  have len: "length sample_text = 7" by (simp add: sample_text_def)
  obtain db n where g: "prune default_bounds 1010 0
      (insert_tuple toy_sha ''office-1'' sample_run 7 1000 sample_text 1010 blank_db) = (db, n)" by force
  have hard: "\<not> sb_hard default_bounds < 7 + SAMPLE_ROW_CHARGE" "capacity default_bounds ''office-1'' True blank_db = None"
    by (simp_all add: default_bounds_def SAMPLE_ROW_CHARGE_def capacity_def blank_db_def RUN_ROW_CHARGE_def RECEIPT_ROW_CHARGE_def)
  have "judge_new toy_sha default_bounds calm ''office-1'' sample_run 7 1000 sample_text 1010 (blank_db, 0) = Inr (Inr Accepted, db, n)"
    by (simp add: judge_new_def admit_def blank_steps hard disk len g calm_def row_allowed_def)
  then have "judge toy_sha default_bounds calm ''office-1'' sample_run 7 (PFloat (Fin 1000)) sample_text 1010 blank_db = Inr (Inr Accepted, db, n)"
    by (simp add: judge_def blank_steps valid_sample_epoch_def NEW_SAMPLE_MAX_AGE_def REMOTE_MAX_AGE_def)
  then show ?thesis by (intro accept_landed) (simp_all add: open_remote_def calm_def)
qed

theorem accepted_at_most_once_witness:
  "\<not> (answers toy_sha default_bounds (open_remote blank_db) [toy_call 1010, toy_call 1020] ! 0 = Inr Accepted
      \<and> answers toy_sha default_bounds (open_remote blank_db) [toy_call 1010, toy_call 1020] ! 1 = Inr Accepted)"
  by (rule accepted_at_most_once [where dumps = toy_dumps and loads = toy_loads])
    (simp_all add: blank_ok toy_call_def call_fine_def toy_request)

lemma admit_env: "admit sha L (env\<lparr>ce_commit := c\<rparr>) p r s e body now db = admit sha L env p r s e body now db"
  by (simp add: admit_def split_beta Let_def)

lemma judge_new_env: "judge_new sha L (env\<lparr>ce_commit := c\<rparr>) p r s e body now = judge_new sha L env p r s e body now"
proof -
  have "ce_first (env\<lparr>ce_commit := c\<rparr>) = ce_first env" by simp
  then show ?thesis unfolding judge_new_def admit_env by (rule ssubst) (rule refl)
qed

lemma judge_env: "judge sha L (env\<lparr>ce_commit := c\<rparr>) p r s epoch body now db = judge sha L env p r s epoch body now db"
  unfolding judge_def judge_new_env by (rule refl)



text \<open>
  C29: The store is bounded: if it holds no more runs and receipts, in all and for each probe, than its limits allow,
  then so it does after any call, and after a call that committed the samples fit the hard budget; a limit is reached
  by refusing new tuples, never by deleting receipts.
\<close>

theorem store_stays_bounded:
  assumes "0 < sb_batch L" and "sb_soft L \<le> sb_hard L" and "in_bounds L (rm_db st)"
  shows "let (answer, st') = accept sha L env p r s epoch body now st in
           in_bounds L (rm_db st')
           \<and> (sample_bytes (rm_db st) \<le> sb_hard L \<or> (\<exists>v. answer = Inr v) \<longrightarrow> sample_bytes (rm_db st') \<le> sb_hard L)"
proof -
  have "in_bounds L (rm_db (snd (accept sha L env p r s epoch body now st)))"
  proof (rule accept_db [where I = "in_bounds L"])
    show "in_bounds L (rm_db st)" by fact
  qed (use judge_within [OF assms] smaller_within [OF refresh_smaller] in blast)+
  moreover have "sample_bytes (rm_db (snd (accept sha L env p r s epoch body now st))) \<le> sb_hard L" if "sample_bytes (rm_db st) \<le> sb_hard L"
    by (rule accept_db [where I = "\<lambda>db. sample_bytes db \<le> sb_hard L"])
      (use judge_within [OF assms] that in \<open>auto simp: touch_bytes\<close>)
  moreover have "sample_bytes (rm_db (snd (accept sha L env p r s epoch body now st))) \<le> sb_hard L"
    if v: "fst (accept sha L env p r s epoch body now st) = Inr v" for v
  proof -
    obtain answer st' where al: "accept_locked sha L env p r s epoch body now st = (answer, st')" by force
    with v have acc: "answer = Inr v" "accept sha L env p r s epoch body now st = (Inr v, st')"
      by (auto simp: accept_eq split: if_splits)
    show ?thesis
    proof (cases "rm_open st")
      case False
      with al acc show ?thesis by (simp add: accept_locked_closed)
    next
      case True
      show ?thesis
      proof (cases "judge sha L env p r s epoch body now (rm_db st)")
        case (Inl e)
        with accept_locked_raise [OF True Inl] al acc(1) show ?thesis by auto
      next
        case (Inr x)
        obtain verdict db n where x: "x = (verdict, db, n)" by (cases x) auto
        from accept_locked_judged [OF True Inr [unfolded x]] al acc have "rm_db st' = db"
          by (auto split: if_splits commit.splits)
        with judge_within [OF assms Inr [unfolded x]] acc show ?thesis by simp
      qed
    qed
  qed
  ultimately show ?thesis by (auto simp: split_beta Let_def)
qed

theorem store_stays_bounded_witness:
  "in_bounds default_bounds (rm_db (snd (accept toy_sha default_bounds calm ''office-1'' sample_run 7 (PFloat (Fin 1000)) sample_text 1010
     (open_remote blank_db))))"
  using store_stays_bounded [of default_bounds "open_remote blank_db" toy_sha calm "''office-1''" sample_run 7 "PFloat (Fin 1000)" sample_text 1010]
  by (simp add: default_bounds_def in_bounds_def open_remote_def blank_db_def split_beta Let_def)

end
