(* ===== verification/Intake.thy ===== *)
theory Intake
  imports Receipts
begin

text \<open>
  The machine entry point of the server: token buckets and the rate limiter, the header grammar, the verdict on one
  request and the plane's status (\<open>monitor-v2/web/remote_ingest.py\<close>), with the operator's registry of probes and
  keys (\<open>monitor-v2/web/remote_registry.py\<close>).
\<close>

section \<open>Token buckets\<close>

record bucket =
  bk_rate :: rat
  bk_burst :: rat
  bk_tokens :: rat
  bk_updated :: rat

definition new_bucket :: "rat \<Rightarrow> rat \<Rightarrow> rat \<Rightarrow> bucket" where
  "new_bucket rate burst now = \<lparr>bk_rate = rate, bk_burst = burst, bk_tokens = burst, bk_updated = now\<rparr>"

text \<open>The answer of a check: allowed, or the whole seconds after which to come back.\<close>

definition check_bucket :: "rat \<Rightarrow> bucket \<Rightarrow> (bool \<times> int) \<times> bucket" where
  "check_bucket now b =
     (let level = min (bk_burst b) (bk_tokens b + max 0 (now - bk_updated b) * bk_rate b);
          b' = b\<lparr>bk_updated := max now (bk_updated b)\<rparr>
      in if 1 \<le> level then ((True, 0), b'\<lparr>bk_tokens := level - 1\<rparr>)
         else (let needed = (1 - level) / bk_rate b in
               ((False, max 1 (\<lfloor>needed\<rfloor> + (if of_int \<lfloor>needed\<rfloor> = needed then 0 else 1))), b'\<lparr>bk_tokens := level\<rparr>)))"

definition PER_PROBE_RATE :: rat where "PER_PROBE_RATE = 2"
definition PER_PROBE_BURST :: rat where "PER_PROBE_BURST = 120"
definition GLOBAL_RATE :: rat where "GLOBAL_RATE = 20"
definition GLOBAL_BURST :: rat where "GLOBAL_BURST = 240"
definition PREAUTH_RATE :: rat where "PREAUTH_RATE = 40"
definition PREAUTH_BURST :: rat where "PREAUTH_BURST = 600"
definition MAX_BUCKETS :: nat where "MAX_BUCKETS = 512"

record limiter =
  lm_global :: bucket
  lm_probes :: "(string, bucket) dict"

definition new_limiter :: "rat \<Rightarrow> limiter" where
  "new_limiter now = \<lparr>lm_global = new_bucket GLOBAL_RATE GLOBAL_BURST now, lm_probes = []\<rparr>"

text \<open>A new bucket at the limit first evicts the alphabetically first half of the others.\<close>

definition evict_half :: "(string, bucket) dict \<Rightarrow> (string, bucket) dict" where
  "evict_half d = (let gone = take (MAX_BUCKETS div 2) (sort (map fst d)) in filter (\<lambda>(k, _). k \<notin> set gone) d)"

definition probe_bucket :: "rat \<Rightarrow> string \<Rightarrow> limiter \<Rightarrow> bucket \<times> limiter" where
  "probe_bucket now probe lm =
     (case dict_get (lm_probes lm) probe of
        Some b \<Rightarrow> (b, lm)
      | None \<Rightarrow> (let kept = (if MAX_BUCKETS \<le> length (lm_probes lm) then evict_half (lm_probes lm) else lm_probes lm);
                    b = new_bucket PER_PROBE_RATE PER_PROBE_BURST now
                in (b, lm\<lparr>lm_probes := dict_set probe b kept\<rparr>)))"

text \<open>The authenticated limits: the probe's bucket, then the global one.\<close>

definition check_limits :: "rat \<Rightarrow> string \<Rightarrow> limiter \<Rightarrow> (bool \<times> int) \<times> limiter" where
  "check_limits now probe lm =
     (let (b, lm1) = probe_bucket now probe lm; ((ok, retry), b') = check_bucket now b;
          lm2 = lm1\<lparr>lm_probes := dict_set probe b' (lm_probes lm1)\<rparr>
      in if \<not> ok then ((False, retry), lm2)
         else (let (answer, g) = check_bucket now (lm_global lm2) in (answer, lm2\<lparr>lm_global := g\<rparr>)))"

section \<open>The registry of probes\<close>

definition MAX_PROBES :: nat where "MAX_PROBES = 64"
definition MAX_LABEL_CHARS :: nat where "MAX_LABEL_CHARS = 64"
definition REGISTRY_KEYS :: "string list" where "REGISTRY_KEYS = [''v'', ''probes'']"
definition PROBE_ENTRY_KEYS :: "string list" where
  "PROBE_ENTRY_KEYS = [''probe_id'', ''enabled'', ''site_label'', ''path_label'', ''key_file'']"

definition KEY_BLANKS :: string where "KEY_BLANKS = [CHR '' '', CHR 0x09, CHR 0x0D, CHR 0x0A]"

definition trim_key :: "string \<Rightarrow> string" where
  "trim_key s = rev (dropWhile (\<lambda>c. c \<in> set KEY_BLANKS) (rev (dropWhile (\<lambda>c. c \<in> set KEY_BLANKS) s)))"

definition hex_value :: "char \<Rightarrow> nat" where
  "hex_value c = (if is_digit c then of_char c - 48 else of_char c - 87)"

fun from_hex :: "string \<Rightarrow> string" where
  "from_hex (a # b # rest) = char_of (16 * hex_value a + hex_value b) # from_hex rest"
| "from_hex _ = []"

text \<open>A key file holds exactly 64 lower-case hexadecimal characters, blanks around them aside.\<close>

definition parse_secret_key :: "string \<Rightarrow> string option" where
  "parse_secret_key file_bytes =
     (if 4096 < length file_bytes \<or> \<not> is_ascii file_bytes then None
      else (let body = trim_key file_bytes in
            if length body \<noteq> 64 \<or> \<not> list_all hex_digit body then None else Some (from_hex body)))"

record probe_entry =
  pe_enabled :: bool
  pe_site :: string
  pe_path :: string
  pe_key :: string

datatype registry_state = NotConfigured | Ready | Degraded

record registry =
  rg_entries :: "(string, probe_entry) dict"
  rg_problems :: "string list"
  rg_state :: registry_state

definition label_char :: "char \<Rightarrow> bool" where
  "label_char c \<longleftrightarrow> 32 \<le> (of_char c :: nat) \<and> (of_char c :: nat) \<le> 126"

definition label_ok :: "pyval \<Rightarrow> bool" where
  "label_ok v = (case v of PStr s \<Rightarrow> 1 \<le> length s \<and> length s \<le> MAX_LABEL_CHARS \<and> list_all label_char s | _ \<Rightarrow> False)"

definition key_file_char :: "char \<Rightarrow> bool" where
  "key_file_char c \<longleftrightarrow> is_digit c \<or> is_alpha c \<or> c = CHR ''.'' \<or> c = CHR ''_'' \<or> c = CHR ''-''"

definition key_file_ok :: "pyval \<Rightarrow> bool" where
  "key_file_ok v = (case v of
      PStr (c # s) \<Rightarrow> (is_digit c \<or> is_alpha c) \<and> length s \<le> 127 \<and> list_all key_file_char s
    | _ \<Rightarrow> False)"

fun str_of :: "pyval \<Rightarrow> string" where
  "str_of (PStr s) = s"
| "str_of _ = []"

fun true_of :: "pyval \<Rightarrow> bool" where
  "true_of (PBool b) = b"
| "true_of _ = False"

fun is_bool :: "pyval \<Rightarrow> bool" where
  "is_bool (PBool _) = True"
| "is_bool _ = False"

text \<open>One entry: a malformed one refuses the whole file, an unusable key only the identity.\<close>

definition entry_step :: "(string \<Rightarrow> string option) \<Rightarrow> (string, probe_entry) dict \<times> string list \<Rightarrow> pyval
    \<Rightarrow> ((string, probe_entry) dict \<times> string list) res" where
  "entry_step key_read acc item =
     (case item of
        PDict d \<Rightarrow>
          if \<not> exact_keys d PROBE_ENTRY_KEYS then Inl ConfigurationError
          else if \<not> valid_probe_id (pgetN d ''probe_id'') then Inl ConfigurationError
          else (let probe = str_of (pgetN d ''probe_id''); key_file = pgetN d ''key_file'' in
            if dict_get (fst acc) probe \<noteq> None \<or> probe \<in> set (snd acc) then Inl ConfigurationError
            else if \<not> is_bool (pgetN d ''enabled'') then Inl ConfigurationError
            else if \<not> (label_ok (pgetN d ''site_label'') \<and> label_ok (pgetN d ''path_label'')) then Inl ConfigurationError
            else if \<not> key_file_ok key_file then Inl ConfigurationError
            else case Option.bind (key_read (str_of key_file)) parse_secret_key of
                None \<Rightarrow> Inr (fst acc, snd acc @ [probe])
              | Some key \<Rightarrow>
                  Inr (dict_set probe \<lparr>pe_enabled = true_of (pgetN d ''enabled''), pe_site = str_of (pgetN d ''site_label''),
                         pe_path = str_of (pgetN d ''path_label''), pe_key = key\<rparr> (fst acc), snd acc))
      | _ \<Rightarrow> Inl ConfigurationError)"

definition load_config :: "(string \<Rightarrow> pyval option) \<Rightarrow> (string \<Rightarrow> string option) \<Rightarrow> string \<Rightarrow> ((string, probe_entry) dict \<times> string list) res" where
  "load_config loads key_read file_bytes =
     (if 256 * 1024 < length file_bytes then Inl ConfigurationError
      else case loads file_bytes of
          Some (PDict d) \<Rightarrow>
            if \<not> exact_keys d REGISTRY_KEYS \<or> pgetN d ''v'' \<noteq> PInt 1 then Inl ConfigurationError
            else (case pgetN d ''probes'' of
                PList items \<Rightarrow> if MAX_PROBES < length items then Inl ConfigurationError else res_fold (entry_step key_read) ([], []) items
              | _ \<Rightarrow> Inl ConfigurationError)
        | _ \<Rightarrow> Inl ConfigurationError)"

text \<open>The configuration file as its opening finds it.\<close>

datatype config_file = NoConfig | RefusedConfig | ConfigBytes string

definition load_registry :: "(string \<Rightarrow> pyval option) \<Rightarrow> (string \<Rightarrow> string option) \<Rightarrow> config_file \<Rightarrow> registry" where
  "load_registry loads key_read file =
     (case file of
        NoConfig \<Rightarrow> \<lparr>rg_entries = [], rg_problems = [], rg_state = NotConfigured\<rparr>
      | RefusedConfig \<Rightarrow> \<lparr>rg_entries = [], rg_problems = [], rg_state = Degraded\<rparr>
      | ConfigBytes file_bytes \<Rightarrow>
          (case load_config loads key_read file_bytes of
             Inl _ \<Rightarrow> \<lparr>rg_entries = [], rg_problems = [], rg_state = Degraded\<rparr>
           | Inr (entries, problems) \<Rightarrow>
               \<lparr>rg_entries = entries, rg_problems = problems,
                rg_state = (if entries \<noteq> [] \<and> problems = [] then Ready else Degraded)\<rparr>))"

section \<open>The header grammar\<close>

definition parse_canonical_int :: "string option \<Rightarrow> int \<Rightarrow> int option" where
  "parse_canonical_int header least =
     (case header of
        None \<Rightarrow> None
      | Some s \<Rightarrow>
          if \<not> (1 \<le> length s \<and> length s \<le> 19 \<and> list_all is_digit s) then None
          else (let value = decimal s in
                if int_str value \<noteq> s \<or> value < least \<or> SEQ_MAX < value then None else Some value))"

section \<open>The verdict on one request\<close>

datatype reply = Success verdict | Failure string

record response =
  rs_status :: nat
  rs_reply :: reply
  rs_retry_after :: "int option"

definition verdict_text :: "verdict \<Rightarrow> string" where
  "verdict_text v = (case v of Accepted \<Rightarrow> ''accepted'' | Duplicate \<Rightarrow> ''duplicate'' | Equivocation \<Rightarrow> ''equivocation''
     | SeqNotIncreasing \<Rightarrow> ''sequence_not_increasing'' | EpochNotIncreasing \<Rightarrow> ''sample_epoch_not_increasing''
     | EpochOutOfRange \<Rightarrow> ''sample_epoch_out_of_range'')"

definition error_text :: "store_error \<Rightarrow> string" where
  "error_text e = (case e of RunCapacity \<Rightarrow> ''remote_run_capacity'' | ReceiptCapacity \<Rightarrow> ''remote_receipt_capacity''
     | StorageCapacity \<Rightarrow> ''remote_storage_capacity'' | _ \<Rightarrow> ''remote_store_unavailable'')"

definition answer :: "nat \<Rightarrow> string \<Rightarrow> response" where
  "answer status code = \<lparr>rs_status = status, rs_reply = Failure code, rs_retry_after = None\<rparr>"

definition unauthorized :: response where
  "unauthorized = answer 401 ''unauthorized''"

definition rate_limited :: "int \<Rightarrow> response" where
  "rate_limited retry = \<lparr>rs_status = 429, rs_reply = Failure ''rate_limited'', rs_retry_after = Some (max 1 retry)\<rparr>"

record plane =
  pl_preauth :: bucket
  pl_limiter :: limiter
  pl_store :: "remote option"
  pl_failures :: "(string, store_error) dict"
  pl_store_error :: bool

text \<open>
  What one request finds: the readings of the two clocks, the lock and the files of the registry, and the
  environment of the store's transaction.
\<close>

record moment =
  mo_mono :: rat
  mo_now :: rat
  mo_lock :: bool
  mo_config :: config_file
  mo_keys :: "string \<Rightarrow> string option"
  mo_env :: call_env

record codec =
  cd_sha :: "string \<Rightarrow> string"
  cd_mac :: "string \<Rightarrow> string \<Rightarrow> string"
  cd_dumps :: "pyval \<Rightarrow> string"
  cd_loads :: "string \<Rightarrow> pyval option"

definition parse_body :: "codec \<Rightarrow> string \<Rightarrow> obj option res" where
  "parse_body cd body =
     (if body = [] \<or> MAX_BODY_BYTES < length body then Inr None
      else case cd_loads cd body of
          Some (PDict d) \<Rightarrow> res_bind (validate_sample (PDict d)) (\<lambda>problems. Inr (if problems = [] then Some d else None))
        | _ \<Rightarrow> Inr None)"

text \<open>The identity a request claims, when its headers follow the grammar.\<close>

record claim =
  cl_probe :: string
  cl_run :: string
  cl_seq :: int
  cl_sent :: int
  cl_signature :: string

definition parse_headers :: "wire_headers \<Rightarrow> claim option" where
  "parse_headers h =
     (case (hd_probe_id h, hd_run h, parse_canonical_int (hd_sent_epoch h) 0, parse_canonical_int (hd_seq h) 1, hd_signature h) of
        (Some probe, Some run, Some sent, Some seq, Some signature) \<Rightarrow>
          if valid_probe_id (PStr probe) \<and> valid_run (PStr run) \<and> signature \<noteq> []
          then Some \<lparr>cl_probe = probe, cl_run = run, cl_seq = seq, cl_sent = sent, cl_signature = signature\<rparr> else None
      | _ \<Rightarrow> None)"

text \<open>The store's answer as a response, and what the plane remembers of it.\<close>

definition settle :: "string \<Rightarrow> store_error + verdict \<Rightarrow> plane \<Rightarrow> response res \<times> plane" where
  "settle probe outcome pl =
     (case outcome of
        Inr v \<Rightarrow>
          if v = Accepted \<or> v = Duplicate
          then (Inr \<lparr>rs_status = 200, rs_reply = Success v, rs_retry_after = None\<rparr>, pl\<lparr>pl_failures := dict_del probe (pl_failures pl)\<rparr>)
          else (Inr (answer (if v = EpochOutOfRange then 400 else 409) (verdict_text v)), pl)
      | Inl (StoreRaised e) \<Rightarrow> (Inl e, pl)
      | Inl StoreFailed \<Rightarrow> (Inr (answer 503 (error_text StoreFailed)), pl\<lparr>pl_store_error := True\<rparr>)
      | Inl e \<Rightarrow> (Inr (answer 503 (error_text e)), pl\<lparr>pl_failures := dict_set probe e (pl_failures pl)\<rparr>))"

text \<open>The steps after authentication and admission: body, canonical bytes, store.\<close>

definition commit_sample :: "codec \<Rightarrow> store_bounds \<Rightarrow> moment \<Rightarrow> claim \<Rightarrow> string \<Rightarrow> plane \<Rightarrow> response res \<times> plane" where
  "commit_sample cd L mo c body pl =
     (case parse_body cd body of
        Inl e \<Rightarrow> (Inl e, pl)
      | Inr None \<Rightarrow> (Inr (answer 400 ''invalid_body''), pl)
      | Inr (Some d) \<Rightarrow>
          if pgetN d ''probe_id'' \<noteq> PStr (cl_probe c) \<or> pgetN d ''run'' \<noteq> PStr (cl_run c) \<or> pgetN d ''seq'' \<noteq> PInt (cl_seq c)
          then (Inr (answer 400 ''invalid_body''), pl)
          else if canonical_bytes (cd_dumps cd) (PDict d) \<noteq> Inr body then (Inr (answer 400 ''non_canonical_body''), pl)
          else (case pl_store pl of
                  None \<Rightarrow> (Inr (answer 503 ''remote_store_unavailable''), pl)
                | Some st \<Rightarrow>
                    (let (outcome, st') = accept (cd_sha cd) L (mo_env mo) (cl_probe c) (cl_run c) (cl_seq c) (pgetN d ''sample_epoch'')
                                            body (mo_now mo) st
                     in settle (cl_probe c) outcome (pl\<lparr>pl_store := Some st'\<rparr>))))"

definition handle_live :: "codec \<Rightarrow> store_bounds \<Rightarrow> moment \<Rightarrow> registry \<Rightarrow> wire_headers \<Rightarrow> string \<Rightarrow> plane \<Rightarrow> response res \<times> plane" where
  "handle_live cd L mo reg h body pl =
     (case parse_headers h of
        None \<Rightarrow> (Inr unauthorized, pl)
      | Some c \<Rightarrow>
          (case dict_get (rg_entries reg) (cl_probe c) of
             None \<Rightarrow> (Inr unauthorized, pl)
           | Some entry \<Rightarrow>
               if \<not> pe_enabled entry then (Inr unauthorized, pl)
               else (case verify_signature (cd_sha cd) (cd_mac cd) (pe_key entry) (cl_probe c) (cl_sent c) (cl_run c) (cl_seq c) body (cl_signature c) of
                       Inl e \<Rightarrow> (Inl e, pl)
                     | Inr False \<Rightarrow> (Inr unauthorized, pl)
                     | Inr True \<Rightarrow>
                         if 300 < \<bar>of_int (cl_sent c) - mo_now mo\<bar> then (Inr unauthorized, pl)
                         else (let ((allowed, retry), lm) = check_limits (mo_mono mo) (cl_probe c) (pl_limiter pl);
                                   pl' = pl\<lparr>pl_limiter := lm\<rparr>
                               in if \<not> allowed then (Inr (rate_limited retry), pl') else commit_sample cd L mo c body pl'))))"

definition handle :: "codec \<Rightarrow> store_bounds \<Rightarrow> moment \<Rightarrow> wire_headers \<Rightarrow> string \<Rightarrow> plane \<Rightarrow> response res \<times> plane" where
  "handle cd L mo h body pl =
     (let ((allowed, retry), guard) = check_bucket (mo_mono mo) (pl_preauth pl); pl' = pl\<lparr>pl_preauth := guard\<rparr> in
      if \<not> allowed then (Inr (rate_limited retry), pl')
      else if \<not> mo_lock mo then (Inr (answer 503 ''remote_config_invalid''), pl')
      else handle_live cd L mo (load_registry (cd_loads cd) (mo_keys mo) (mo_config mo)) h body pl')"

section \<open>The buckets\<close>

definition bucket_ok :: "bucket \<Rightarrow> bool" where
  "bucket_ok b \<longleftrightarrow> 0 < bk_rate b \<and> 1 \<le> bk_burst b \<and> 0 \<le> bk_tokens b \<and> bk_tokens b \<le> bk_burst b"

fun grants :: "bucket \<Rightarrow> rat list \<Rightarrow> nat \<times> bucket" where
  "grants b [] = (0, b)"
| "grants b (t # ts) = (let ((ok, _), b') = check_bucket t b; (n, b'') = grants b' ts in ((if ok then 1 else 0) + n, b''))"

definition bucket_level :: "rat \<Rightarrow> bucket \<Rightarrow> rat" where
  "bucket_level now b = min (bk_burst b) (bk_tokens b + max 0 (now - bk_updated b) * bk_rate b)"

lemma check_bucket_eq:
  "check_bucket now b =
     (if 1 \<le> bucket_level now b then ((True, 0), b\<lparr>bk_updated := max now (bk_updated b), bk_tokens := bucket_level now b - 1\<rparr>)
      else ((False, max 1 \<lceil>(1 - bucket_level now b) / bk_rate b\<rceil>), b\<lparr>bk_updated := max now (bk_updated b), bk_tokens := bucket_level now b\<rparr>))"
proof -
  have "\<lfloor>q\<rfloor> + (if of_int \<lfloor>q\<rfloor> = q then 0 else 1) = \<lceil>q\<rceil>" for q :: rat
    by (auto simp: ceiling_altdef)
  then show ?thesis by (simp add: check_bucket_def bucket_level_def Let_def)
qed

lemma level_nonneg: "bucket_ok b \<Longrightarrow> 0 \<le> bucket_level now b"
  by (simp add: bucket_ok_def bucket_level_def)

lemma check_bucket_ok: "bucket_ok b \<Longrightarrow> bucket_ok (snd (check_bucket now b))"
  using level_nonneg [of b now] by (auto simp: check_bucket_eq bucket_ok_def) (auto simp: bucket_level_def)

lemma check_bucket_consts:
  "bk_rate (snd (check_bucket now b)) = bk_rate b" "bk_burst (snd (check_bucket now b)) = bk_burst b"
  "bk_updated (snd (check_bucket now b)) = max now (bk_updated b)"
  by (simp_all add: check_bucket_eq)

lemma check_bucket_spends:
  assumes "bucket_ok b"
  shows "(if fst (fst (check_bucket now b)) then 1 else 0) + bk_tokens (snd (check_bucket now b))
    \<le> bk_tokens b + bk_rate b * (max now (bk_updated b) - bk_updated b)"
proof -
  have "bucket_level now b \<le> bk_tokens b + max 0 (now - bk_updated b) * bk_rate b" by (simp add: bucket_level_def)
  moreover have "max 0 (now - bk_updated b) = max now (bk_updated b) - bk_updated b" by (simp add: max_def)
  ultimately show ?thesis by (auto simp: check_bucket_eq mult.commute)
qed

lemma grants_bound:
  "bucket_ok b \<Longrightarrow> of_nat (fst (grants b ts)) + bk_tokens (snd (grants b ts)) \<le> bk_tokens b + bk_rate b * (foldl max (bk_updated b) ts - bk_updated b)
     \<and> bucket_ok (snd (grants b ts))"
proof (induction ts arbitrary: b)
  case Nil
  then show ?case by simp
next
  case (Cons t ts)
  obtain ok r b' where c: "check_bucket t b = ((ok, r), b')" by (metis prod.collapse)
  obtain n b'' where g: "grants b' ts = (n, b'')" by force
  have b': "bucket_ok b'" "bk_rate b' = bk_rate b" "bk_updated b' = max t (bk_updated b)"
    using check_bucket_ok [OF Cons.prems, of t] check_bucket_consts [of t b] c by simp_all
  from Cons.IH [OF b'(1)] g have i: "of_nat n + bk_tokens b'' \<le> bk_tokens b' + bk_rate b * (foldl max (max t (bk_updated b)) ts - max t (bk_updated b))"
    "bucket_ok b''" by (simp_all add: b')
  from check_bucket_spends [OF Cons.prems, of t] c have s: "(if ok then 1 else 0) + bk_tokens b' \<le> bk_tokens b + bk_rate b * (max t (bk_updated b) - bk_updated b)"
    by simp
  from i s show ?case by (auto simp: c g max.commute [of "bk_updated b" t] algebra_simps)
qed

text \<open>
  C31: A bucket never grants more than its burst and what has trickled in: among checks at any times, the number of
  grants is at most the burst plus the rate times the time by which the clock moved on. A clock that runs back adds
  nothing.
\<close>

theorem grants_are_bounded:
  assumes "bucket_ok b"
  shows "of_nat (fst (grants b ts)) \<le> bk_burst b + bk_rate b * (foldl max (bk_updated b) ts - bk_updated b)"
proof -
  from grants_bound [OF assms, of ts] have "of_nat (fst (grants b ts)) + bk_tokens (snd (grants b ts))
      \<le> bk_tokens b + bk_rate b * (foldl max (bk_updated b) ts - bk_updated b)" "0 \<le> bk_tokens (snd (grants b ts))"
    by (simp_all add: bucket_ok_def)
  moreover from assms have "bk_tokens b \<le> bk_burst b" by (simp add: bucket_ok_def)
  ultimately show ?thesis by linarith
qed

theorem grants_are_bounded_witness:
  "of_nat (fst (grants (new_bucket PER_PROBE_RATE PER_PROBE_BURST 0) [1, 2, 1])) \<le> (120 + 2 * 2 :: rat)"
  using grants_are_bounded [of "new_bucket PER_PROBE_RATE PER_PROBE_BURST 0" "[1, 2, 1]"]
  by (simp add: bucket_ok_def new_bucket_def PER_PROBE_RATE_def PER_PROBE_BURST_def)

text \<open>
  A refusal says when to come back: a refused check names at least one second, and after that many seconds the
  next check is granted.
\<close>

theorem refusal_is_honest:
  assumes "bucket_ok b" and "bk_updated b \<le> now" and "check_bucket now b = ((False, wait), b')"
  shows "1 \<le> wait \<and> fst (fst (check_bucket (now + of_int wait) b'))"
proof -
  let ?l = "bucket_level now b"
  from assms(3) have l: "?l < 1" and w: "wait = max 1 \<lceil>(1 - ?l) / bk_rate b\<rceil>"
    and b': "b' = b\<lparr>bk_updated := now, bk_tokens := ?l\<rparr>"
    using assms(2) by (auto simp: check_bucket_eq max_def split: if_splits)
  have r: "0 < bk_rate b" "1 \<le> bk_burst b" using assms(1) by (simp_all add: bucket_ok_def)
  have "(1 - ?l) / bk_rate b \<le> of_int \<lceil>(1 - ?l) / bk_rate b\<rceil>" by simp
  also have "\<dots> \<le> of_int wait" using w by simp
  finally have "1 - ?l \<le> of_int wait * bk_rate b" using r(1) by (simp add: pos_divide_le_eq)
  moreover have "1 \<le> wait" using w by simp
  ultimately have "1 \<le> bucket_level (now + of_int wait) b'" using r(2) by (simp add: bucket_level_def b')
  with \<open>1 \<le> wait\<close> show ?thesis by (simp add: check_bucket_eq)
qed

theorem refusal_is_honest_witness:
  "fst (fst (check_bucket (0 + of_int 1) (new_bucket 2 1 0\<lparr>bk_tokens := 0\<rparr>)))"
proof -
  have c: "check_bucket 0 (new_bucket 2 1 0\<lparr>bk_tokens := 0\<rparr>) = ((False, 1), new_bucket 2 1 0\<lparr>bk_tokens := 0\<rparr>)"
    by (simp add: check_bucket_eq bucket_level_def new_bucket_def)
  from refusal_is_honest [OF _ _ c] show ?thesis by (simp add: bucket_ok_def new_bucket_def)
qed

section \<open>Who is served\<close>

lemma handle_cases:
  assumes "handle cd L mo h body pl = (outcome, pl')"
  obtains retry where "outcome = Inr (rate_limited retry)" "pl' = pl\<lparr>pl_preauth := snd (check_bucket (mo_mono mo) (pl_preauth pl))\<rparr>"
  | "outcome = Inr (answer 503 ''remote_config_invalid'')" "pl' = pl\<lparr>pl_preauth := snd (check_bucket (mo_mono mo) (pl_preauth pl))\<rparr>"
  | "mo_lock mo" "handle_live cd L mo (load_registry (cd_loads cd) (mo_keys mo) (mo_config mo)) h body
       (pl\<lparr>pl_preauth := snd (check_bucket (mo_mono mo) (pl_preauth pl))\<rparr>) = (outcome, pl')"
proof -
  obtain ok retry guard where c: "check_bucket (mo_mono mo) (pl_preauth pl) = ((ok, retry), guard)" by (metis prod.collapse)
  with assms that show thesis by (cases ok; cases "mo_lock mo") (auto simp: handle_def)
qed

lemma handle_live_cases:
  assumes "handle_live cd L mo reg h body pl = (outcome, pl')"
  obtains "outcome = Inr unauthorized" "pl' = pl"
  | e where "outcome = Inl e" "pl' = pl"
  | c entry retry lm where "parse_headers h = Some c" "dict_get (rg_entries reg) (cl_probe c) = Some entry" "pe_enabled entry"
      "verify_signature (cd_sha cd) (cd_mac cd) (pe_key entry) (cl_probe c) (cl_sent c) (cl_run c) (cl_seq c) body (cl_signature c) = Inr True"
      "\<bar>of_int (cl_sent c) - mo_now mo\<bar> \<le> 300" "outcome = Inr (rate_limited retry)" "pl' = pl\<lparr>pl_limiter := lm\<rparr>"
  | c entry lm where "parse_headers h = Some c" "dict_get (rg_entries reg) (cl_probe c) = Some entry" "pe_enabled entry"
      "verify_signature (cd_sha cd) (cd_mac cd) (pe_key entry) (cl_probe c) (cl_sent c) (cl_run c) (cl_seq c) body (cl_signature c) = Inr True"
      "\<bar>of_int (cl_sent c) - mo_now mo\<bar> \<le> 300" "commit_sample cd L mo c body (pl\<lparr>pl_limiter := lm\<rparr>) = (outcome, pl')"
proof (cases "parse_headers h")
  case None
  with assms that(1) show thesis by (simp add: handle_live_def)
next
  case (Some c)
  show thesis
  proof (cases "dict_get (rg_entries reg) (cl_probe c)")
    case None
    with assms Some that(1) show thesis by (simp add: handle_live_def)
  next
    case entry: (Some entry)
    let ?v = "verify_signature (cd_sha cd) (cd_mac cd) (pe_key entry) (cl_probe c) (cl_sent c) (cl_run c) (cl_seq c) body (cl_signature c)"
    show thesis
    proof (cases "pe_enabled entry \<and> ?v = Inr True \<and> \<bar>of_int (cl_sent c) - mo_now mo\<bar> \<le> 300")
      case True
      obtain ok retry lm where l: "check_limits (mo_mono mo) (cl_probe c) (pl_limiter pl) = ((ok, retry), lm)" by (metis prod.collapse)
      show thesis
      proof (cases ok)
        case False
        with assms Some entry True l show thesis by (intro that(3) [of c entry retry lm]) (simp_all add: handle_live_def)
      next
        case ok: True
        with assms Some entry True l show thesis by (intro that(4) [of c entry lm]) (simp_all add: handle_live_def)
      qed
    next
      case False
      show thesis
      proof (cases ?v)
        case (Inl e)
        with assms Some entry that(1,2) show thesis by (auto simp: handle_live_def split: if_splits)
      next
        case (Inr b)
        with assms Some entry False that(1) show thesis by (cases b) (auto simp: handle_live_def split: if_splits)
      qed
    qed
  qed
qed

lemma parse_body_Some:
  "parse_body cd body = Inr (Some d) \<longleftrightarrow> body \<noteq> [] \<and> length body \<le> MAX_BODY_BYTES \<and> cd_loads cd body = Some (PDict d)
     \<and> validate_sample (PDict d) = Inr []"
  by (auto simp: parse_body_def res_bind_eq_Inr split: option.splits pyval.splits if_splits)

text \<open>What reaches the store: an authenticated canonical sample.\<close>

lemma commit_sample_cases:
  assumes "commit_sample cd L mo c body pl = (outcome, pl')"
  obtains "pl' = pl" "\<And>r. outcome = Inr r \<Longrightarrow> rs_status r \<in> {400, 503}"
  | d st where "parse_body cd body = Inr (Some d)" "canonical_bytes (cd_dumps cd) (PDict d) = Inr body" "pl_store pl = Some st"
      "request_fine (cd_sha cd) (cd_dumps cd) (cd_loads cd) (cl_probe c) (cl_run c) (cl_seq c) (pgetN d ''sample_epoch'') body"
      "settle (cl_probe c) (fst (accept (cd_sha cd) L (mo_env mo) (cl_probe c) (cl_run c) (cl_seq c) (pgetN d ''sample_epoch'') body (mo_now mo) st))
         (pl\<lparr>pl_store := Some (snd (accept (cd_sha cd) L (mo_env mo) (cl_probe c) (cl_run c) (cl_seq c) (pgetN d ''sample_epoch'') body (mo_now mo) st))\<rparr>)
       = (outcome, pl')"
proof (cases "parse_body cd body")
  case (Inl e)
  with assms show thesis by (intro that(1)) (auto simp: commit_sample_def)
next
  case (Inr x)
  show thesis
  proof (cases x)
    case None
    with assms Inr that(1) show thesis by (auto simp: commit_sample_def answer_def)
  next
    case (Some d)
    show thesis
    proof (cases "pgetN d ''probe_id'' = PStr (cl_probe c) \<and> pgetN d ''run'' = PStr (cl_run c) \<and> pgetN d ''seq'' = PInt (cl_seq c)
        \<and> canonical_bytes (cd_dumps cd) (PDict d) = Inr body \<and> pl_store pl \<noteq> None")
      case True
      then obtain st where st: "pl_store pl = Some st" by blast
      have "request_fine (cd_sha cd) (cd_dumps cd) (cd_loads cd) (cl_probe c) (cl_run c) (cl_seq c) (pgetN d ''sample_epoch'') body"
        unfolding request_fine_def using True Inr Some by (auto simp: parse_body_Some)
      with that(2) [of d st] assms Inr Some True st show thesis by (simp add: commit_sample_def split_beta)
    next
      case False
      with assms Inr Some that(1) show thesis by (auto simp: commit_sample_def answer_def split: if_splits option.splits)
    qed
  qed
qed

lemma settle_status:
  assumes "settle probe outcome pl = (Inr r, pl')"
  shows "rs_status r \<noteq> 401 \<and> rs_status r \<noteq> 429 \<and> (rs_status r = 200 \<longrightarrow> (\<exists>v. outcome = Inr v \<and> v \<in> {Accepted, Duplicate} \<and> rs_reply r = Success v))"
proof (cases outcome)
  case (Inl e)
  with assms show ?thesis by (cases e) (auto simp: settle_def answer_def)
next
  case (Inr v)
  with assms show ?thesis by (auto simp: settle_def answer_def split: if_splits)
qed

lemma settle_store: "pl_store (snd (settle probe outcome pl)) = pl_store pl"
  by (simp add: settle_def split: sum.split store_error.split)


text \<open>
  C21: Unauthenticated traffic costs nobody anything: a request that is answered as unauthorized leaves the store,
  the limits of every probe and the global limit exactly as they were; only the process-wide guard is charged.
\<close>

theorem unauthorized_changes_nothing:
  assumes "handle cd L mo h body pl = (Inr r, pl')" and "rs_status r = 401"
  shows "pl' = pl\<lparr>pl_preauth := snd (check_bucket (mo_mono mo) (pl_preauth pl))\<rparr>"
  using assms(1)
proof (cases rule: handle_cases)
  case 3
  from 3(2) show ?thesis
  proof (cases rule: handle_live_cases)
    case (4 c entry lm)
    from 4(6) show ?thesis
    proof (cases rule: commit_sample_cases)
      case 1
      with assms(2) show ?thesis by auto
    next
      case 2
      from settle_status [OF 2(5)] assms(2) show ?thesis by simp
    qed
  qed (use assms(2) in \<open>auto simp: rate_limited_def\<close>)
qed (use assms(2) in \<open>auto simp: rate_limited_def answer_def\<close>)

end
