(* ===== verification/Plane.thy ===== *)
theory Plane
  imports Intake
begin

text \<open>
  The server's plane around the verdict: the agent's headers read back, the answer that tells enrolled probes apart, a
  served request, and the status and reading surface of \<open>monitor-v2/web/remote_ingest.py\<close>.
\<close>

section \<open>The headers of the agent\<close>

lemma int_digits_length: "n < 10 ^ k \<Longrightarrow> 0 < k \<Longrightarrow> length (int_digits n) \<le> k"
proof (induction k arbitrary: n)
  case (Suc k)
  show ?case
  proof (cases "n < 10")
    case True
    then show ?thesis by (subst int_digits.simps) simp
  next
    case False
    with Suc.prems have "0 < k" "n div 10 < 10 ^ k" by (cases k; simp)+ 
    with Suc.IH [of "n div 10"] False show ?thesis by (subst int_digits.simps) simp
  qed
qed simp

lemma int_digits_nonempty: "int_digits n \<noteq> []"
  by (subst int_digits.simps) simp

lemma parse_own_int:
  assumes "least \<le> n" "0 \<le> n" "n \<le> SEQ_MAX"
  shows "parse_canonical_int (Some (int_str n)) least = Some n"
proof -
  have s: "int_str n = int_digits (nat n)" using assms by (simp add: int_str_def)
  have "nat n < 10 ^ 19" using assms(3) by (simp add: SEQ_MAX_def nat_less_iff)
  then have "length (int_digits (nat n)) \<le> 19" by (rule int_digits_length) simp
  moreover have "decimal (int_digits (nat n)) = n" using assms(2) by (simp add: decimal_int_digits)
  moreover have "1 \<le> length (int_digits (nat n))" using int_digits_nonempty [of "nat n"] by (simp add: Suc_le_eq)
  ultimately show ?thesis
    using assms s int_digits_digits [of "nat n"] by (simp add: parse_canonical_int_def)
qed

text \<open>
  What the agent sends the server reads: the five headers that the agent builds for a well-formed identity, run,
  sequence number and sending time are parsed by the server's strict grammar to exactly these values.
\<close>

theorem headers_roundtrip:
  assumes "valid_probe_id (PStr probe)" and "valid_run (PStr run)" and "valid_seq (PInt seq)" and "0 \<le> sent" and "sent \<le> SEQ_MAX"
    and "signature \<noteq> []"
  shows "parse_headers (headers probe sent run seq signature)
           = Some \<lparr>cl_probe = probe, cl_run = run, cl_seq = seq, cl_sent = sent, cl_signature = signature\<rparr>"
  using assms parse_own_int [of 0 sent] parse_own_int [of 1 seq]
  by (simp add: parse_headers_def headers_def valid_seq_def)

lemma toy_ids: "valid_probe_id (PStr ''office-1'')" "valid_run (PStr sample_run)" "valid_seq (PInt 7)"
  by code_simp+

theorem headers_roundtrip_witness:
  "parse_headers (headers ''office-1'' 900 sample_run 7 ''5b'')
     = Some \<lparr>cl_probe = ''office-1'', cl_run = sample_run, cl_seq = 7, cl_sent = 900, cl_signature = ''5b''\<rparr>"
  by (rule headers_roundtrip [OF toy_ids]) (simp_all add: SEQ_MAX_def)

lemma parse_headers_fine:
  assumes "parse_headers h = Some c"
  shows "valid_probe_id (PStr (cl_probe c)) \<and> valid_run (PStr (cl_run c)) \<and> valid_seq (PInt (cl_seq c)) \<and> 0 \<le> cl_sent c \<and> cl_signature c \<noteq> []"
proof -
  have "parse_canonical_int x least = Some n \<Longrightarrow> least \<le> n \<and> n \<le> SEQ_MAX" for x least n
    by (auto simp: parse_canonical_int_def Let_def split: option.splits if_splits)
  with assms show ?thesis by (fastforce simp: parse_headers_def valid_seq_def split: option.splits if_splits)
qed

section \<open>An answer that tells identities apart\<close>

text \<open>
  C23: An unauthenticated client can find out which probes are enrolled, which the uniform answer is meant to prevent:
  with well-formed headers and a signature that is not ASCII, the handler raises \<open>TypeError\<close> exactly when the registry
  has the named probe as enabled, and otherwise answers that the request is unauthorized.
\<close>

theorem non_ascii_signature_tells:
  assumes "parse_headers h = Some c" and "\<not> is_ascii (cl_signature c)"
    and "fst (fst (check_bucket (mo_mono mo) (pl_preauth pl)))" and "mo_lock mo"
  shows "fst (handle cd L mo h body pl)
    = (if \<exists>entry. dict_get (rg_entries (load_registry (cd_loads cd) (mo_keys mo) (mo_config mo))) (cl_probe c) = Some entry
             \<and> pe_enabled entry \<and> pe_key entry \<noteq> []
       then Inl TypeError else Inr unauthorized)"
proof -
  let ?reg = "load_registry (cd_loads cd) (mo_keys mo) (mo_config mo)"
  obtain retry guard where g: "check_bucket (mo_mono mo) (pl_preauth pl) = ((True, retry), guard)"
    using assms(3) by (cases "check_bucket (mo_mono mo) (pl_preauth pl)") auto
  have v: "verify_signature (cd_sha cd) (cd_mac cd) key (cl_probe c) (cl_sent c) (cl_run c) (cl_seq c) body (cl_signature c)
      = (if key = [] then Inr False else Inl TypeError)" for key
    using parse_headers_fine [OF assms(1)] assms(2) by (simp add: verify_signature_def sign_def signature_input_def)
  show ?thesis
  proof (cases "dict_get (rg_entries ?reg) (cl_probe c)")
    case None
    then show ?thesis by (simp add: handle_def g assms(1,4) handle_live_def)
  next
    case (Some entry)
    then show ?thesis
      by (cases "pe_enabled entry"; cases "pe_key entry = []") (simp_all add: handle_def g assms(1,4) handle_live_def v Let_def)
  qed
qed

section \<open>A served request\<close>

lemma hex_digit_plain: "hex_digit c \<Longrightarrow> (of_char c :: nat) < 128 \<and> c \<notin> set KEY_BLANKS"
  by (auto simp: hex_digit_def is_digit_def less_eq_char_def KEY_BLANKS_def)

text \<open>Sixty-four lower-case hexadecimal characters are a key.\<close>

lemma hex_key:
  assumes "length s = 64" "list_all hex_digit s"
  shows "parse_secret_key s = Some (from_hex s)"
proof -
  have "s \<noteq> []" using assms(1) by auto
  have h: "hex_digit c" if "c \<in> set s" for c using assms(2) that by (auto simp: list_all_iff)
  with \<open>s \<noteq> []\<close> hex_digit_plain have ends: "hd s \<notin> set KEY_BLANKS" "hd (rev s) \<notin> set KEY_BLANKS"
    by (auto simp: hd_rev)
  have "dropWhile (\<lambda>c. c \<in> set KEY_BLANKS) s = s" using \<open>s \<noteq> []\<close> ends(1) by (cases s) simp_all
  moreover have "dropWhile (\<lambda>c. c \<in> set KEY_BLANKS) (rev s) = rev s" using \<open>s \<noteq> []\<close> ends(2) by (cases "rev s") simp_all
  ultimately have "trim_key s = s" by (simp add: trim_key_def)
  moreover have "is_ascii s" using h hex_digit_plain by (auto simp: is_ascii_def list_all_iff)
  ultimately show ?thesis using assms by (simp add: parse_secret_key_def Let_def)
qed

lemma from_hex_nonempty: "2 \<le> length s \<Longrightarrow> from_hex s \<noteq> []"
  by (cases s rule: from_hex.cases) simp_all

definition toy_key :: string where "toy_key = concat (replicate 16 ''0a1b'')"

lemma toy_key_parses: "\<exists>key. parse_secret_key toy_key = Some key \<and> key \<noteq> []"
proof -
  have "length toy_key = 64" "list_all hex_digit toy_key" by code_simp+
  moreover from this(1) have "from_hex toy_key \<noteq> []" by (intro from_hex_nonempty) simp
  ultimately show ?thesis by (simp add: hex_key)
qed

definition toy_item :: obj where
  "toy_item = [(PStr ''probe_id'', PStr ''office-1''), (PStr ''enabled'', PBool True), (PStr ''site_label'', PStr ''Office''),
     (PStr ''path_label'', PStr ''ISP 1''), (PStr ''key_file'', PStr ''office.key'')]"

definition toy_config :: obj where
  "toy_config = [(PStr ''v'', PInt 1), (PStr ''probes'', PList [PDict toy_item])]"

definition toy_codec :: codec where
  "toy_codec = \<lparr>cd_sha = toy_sha, cd_mac = (\<lambda>key message. ''5b''), cd_dumps = toy_dumps,
     cd_loads = (\<lambda>s. if s = ''config'' then Some (PDict toy_config) else toy_loads s)\<rparr>"

definition toy_moment :: moment where
  "toy_moment = \<lparr>mo_mono = 0, mo_now = 1010, mo_lock = True, mo_config = ConfigBytes ''config'',
     mo_keys = (\<lambda>name. if name = ''office.key'' then Some toy_key else None), mo_env = calm\<rparr>"

lemma toy_parts:
  "cd_sha toy_codec = toy_sha" "cd_dumps toy_codec = toy_dumps" "cd_loads toy_codec ''config'' = Some (PDict toy_config)"
  "mo_mono toy_moment = 0" "mo_now toy_moment = 1010" "mo_lock toy_moment" "mo_config toy_moment = ConfigBytes ''config''"
  "mo_keys toy_moment ''office.key'' = Some toy_key" "mo_env toy_moment = calm"
  by (simp_all add: toy_codec_def toy_moment_def)

definition toy_plane :: "remote option \<Rightarrow> plane" where
  "toy_plane st = \<lparr>pl_preauth = new_bucket PREAUTH_RATE PREAUTH_BURST 0, pl_limiter = new_limiter 0, pl_store = st,
     pl_failures = [], pl_store_error = False\<rparr>"

definition toy_claim :: "string \<Rightarrow> claim" where
  "toy_claim signature = \<lparr>cl_probe = ''office-1'', cl_run = sample_run, cl_seq = 7, cl_sent = 900, cl_signature = signature\<rparr>"

lemma toy_headers: "signature \<noteq> [] \<Longrightarrow> parse_headers (headers ''office-1'' 900 sample_run 7 signature) = Some (toy_claim signature)"
  using toy_ids parse_own_int [of 0 900] parse_own_int [of 1 7]
  by (simp add: parse_headers_def headers_def valid_seq_def toy_claim_def SEQ_MAX_def)

lemma toy_ready:
  "\<exists>entry. load_registry (cd_loads toy_codec) (mo_keys toy_moment) (mo_config toy_moment)
       = \<lparr>rg_entries = [(''office-1'', entry)], rg_problems = [], rg_state = Ready\<rparr> \<and> pe_enabled entry \<and> pe_key entry \<noteq> []"
proof -
  from toy_key_parses obtain key where k: "parse_secret_key toy_key = Some key" "key \<noteq> []" by blast
  have item: "exact_keys toy_item PROBE_ENTRY_KEYS" "valid_probe_id (pgetN toy_item ''probe_id'')"
    "pgetN toy_item ''probe_id'' = PStr ''office-1''" "pgetN toy_item ''enabled'' = PBool True" "label_ok (pgetN toy_item ''site_label'')"
    "label_ok (pgetN toy_item ''path_label'')" "key_file_ok (pgetN toy_item ''key_file'')" "pgetN toy_item ''key_file'' = PStr ''office.key''"
    by code_simp+
  have config: "exact_keys toy_config REGISTRY_KEYS" "pgetN toy_config ''v'' = PInt 1" "pgetN toy_config ''probes'' = PList [PDict toy_item]"
    by code_simp+
  have "entry_step (mo_keys toy_moment) ([], []) (PDict toy_item) = Inr (dict_set ''office-1'' \<lparr>pe_enabled = True,
      pe_site = str_of (pgetN toy_item ''site_label''), pe_path = str_of (pgetN toy_item ''path_label''), pe_key = key\<rparr> [], [])"
    using item by (simp add: entry_step_def toy_parts k)
  then show ?thesis
    using config k(2) by (simp add: load_registry_def load_config_def toy_parts MAX_PROBES_def)
qed

lemma toy_registry:
  "\<exists>entry. dict_get (rg_entries (load_registry (cd_loads toy_codec) (mo_keys toy_moment) (mo_config toy_moment))) ''office-1'' = Some entry
     \<and> pe_enabled entry \<and> pe_key entry \<noteq> []"
  using toy_ready by auto

lemma first_check: "1 \<le> burst \<Longrightarrow> check_bucket now (new_bucket rate burst now) = ((True, 0), (new_bucket rate burst now)\<lparr>bk_tokens := burst - 1\<rparr>)"
  by (simp add: check_bucket_eq bucket_level_def new_bucket_def)

theorem non_ascii_signature_tells_witness:
  "fst (handle toy_codec default_bounds toy_moment (headers ''office-1'' 900 sample_run 7 [CHR 0xC3, CHR 0xA9]) [] (toy_plane None)) = Inl TypeError"
proof -
  have g: "fst (fst (check_bucket (mo_mono toy_moment) (pl_preauth (toy_plane None))))"
    by (simp add: toy_moment_def toy_plane_def first_check PREAUTH_BURST_def)
  have n: "\<not> is_ascii (cl_signature (toy_claim [CHR 0xC3, CHR 0xA9]))" by (simp add: is_ascii_def toy_claim_def)
  have l: "mo_lock toy_moment" by (simp add: toy_moment_def)
  have h: "parse_headers (headers ''office-1'' 900 sample_run 7 [CHR 0xC3, CHR 0xA9]) = Some (toy_claim [CHR 0xC3, CHR 0xA9])"
    by (rule toy_headers) simp
  have "cl_probe (toy_claim [CHR 0xC3, CHR 0xA9]) = ''office-1''" by (simp add: toy_claim_def)
  with non_ascii_signature_tells [OF h n g l, of toy_codec default_bounds "[]"] toy_registry show ?thesis by simp
qed

lemma toy_served:
  "\<exists>r pl'. handle toy_codec default_bounds toy_moment (headers ''office-1'' 900 sample_run 7 ''5b'') sample_text (toy_plane (Some (open_remote blank_db)))
     = (Inr r, pl') \<and> rs_status r = 200"
proof -
  let ?pl = "(toy_plane (Some (open_remote blank_db)))\<lparr>pl_preauth := (new_bucket PREAUTH_RATE PREAUTH_BURST 0)\<lparr>bk_tokens := PREAUTH_BURST - 1\<rparr>\<rparr>"
  let ?c = "toy_claim ''5b''"
  obtain entry where e: "dict_get (rg_entries (load_registry (cd_loads toy_codec) (mo_keys toy_moment) (mo_config toy_moment))) ''office-1'' = Some entry"
    "pe_enabled entry" "pe_key entry \<noteq> []" using toy_registry by blast
  have h: "parse_headers (headers ''office-1'' 900 sample_run 7 ''5b'') = Some ?c" by (rule toy_headers) simp
  have v: "verify_signature (cd_sha toy_codec) (cd_mac toy_codec) (pe_key entry) ''office-1'' 900 sample_run 7 sample_text ''5b'' = Inr True"
    using e(3) toy_ids by (simp add: verify_signature_def sign_def signature_input_def toy_codec_def is_ascii_def)
  obtain lm where l: "check_limits 0 ''office-1'' (new_limiter 0) = ((True, 0), lm)"
    by (simp add: check_limits_def new_limiter_def probe_bucket_def MAX_BUCKETS_def first_check GLOBAL_BURST_def PER_PROBE_BURST_def Let_def)
  obtain d where d: "good_sample = PDict d" by (simp add: good_sample_def sample_of_def)
  have items: "d = dict_items good_sample" unfolding d by (rule dict_items.simps(1) [symmetric])
  have fields: "pgetN d ''probe_id'' = PStr ''office-1''" "pgetN d ''run'' = PStr sample_run" "pgetN d ''seq'' = PInt 7"
    "pgetN d ''sample_epoch'' = PFloat (Fin 1000)"
    unfolding items by code_simp+
  have canon: "canonical_bytes toy_dumps good_sample = Inr sample_text" by code_simp
  have body: "parse_body toy_codec sample_text = Inr (Some d)"
    using good_sample_ok unfolding parse_body_Some d
    by (simp add: toy_codec_def toy_loads_def d sample_text_def MAX_BODY_BYTES_def)
  obtain st' where acc: "accept toy_sha default_bounds calm ''office-1'' sample_run 7 (PFloat (Fin 1000)) sample_text 1010 (open_remote blank_db)
      = (Inr Accepted, st')" using toy_accepted by (metis prod.collapse)
  have c: "cl_probe ?c = ''office-1''" "cl_run ?c = sample_run" "cl_seq ?c = 7" "cl_sent ?c = 900" "cl_signature ?c = ''5b''"
    by (simp_all add: toy_claim_def)
  have st: "pl_store (toy_plane st) = st" for st by (simp add: toy_plane_def)
  have "\<exists>r pl'. commit_sample toy_codec default_bounds toy_moment ?c sample_text (?pl\<lparr>pl_limiter := lm\<rparr>) = (Inr r, pl') \<and> rs_status r = 200"
    using canon unfolding d
    by (simp add: commit_sample_def body c fields st toy_parts acc settle_def)
  moreover have "handle toy_codec default_bounds toy_moment (headers ''office-1'' 900 sample_run 7 ''5b'') sample_text (toy_plane (Some (open_remote blank_db)))
     = commit_sample toy_codec default_bounds toy_moment ?c sample_text (?pl\<lparr>pl_limiter := lm\<rparr>)"
  proof -
    have p: "pl_preauth (toy_plane st) = new_bucket PREAUTH_RATE PREAUTH_BURST 0" "pl_limiter (toy_plane st) = new_limiter 0" for st
      by (simp_all add: toy_plane_def)
    have burst: "1 \<le> PREAUTH_BURST" by (simp add: PREAUTH_BURST_def)
    show ?thesis
      by (simp add: handle_def toy_parts(4-6) p first_check [OF burst] handle_live_def h c e v l)
  qed
  ultimately show ?thesis by simp
qed


theorem unauthorized_changes_nothing_witness:
  "snd (handle toy_codec default_bounds toy_moment (headers ''office-1'' 900 sample_run 7 []) sample_text (toy_plane (Some (open_remote blank_db))))
     = (toy_plane (Some (open_remote blank_db)))\<lparr>pl_preauth := snd (check_bucket 0 (new_bucket PREAUTH_RATE PREAUTH_BURST 0))\<rparr>"
proof -
  have "parse_headers (headers ''office-1'' 900 sample_run 7 []) = None"
    by (simp add: parse_headers_def headers_def split: option.split)
  moreover have burst: "1 \<le> PREAUTH_BURST" by (simp add: PREAUTH_BURST_def)
  moreover have "mo_mono toy_moment = 0" "mo_lock toy_moment" by (simp_all add: toy_moment_def)
  moreover have p: "pl_preauth (toy_plane st) = new_bucket PREAUTH_RATE PREAUTH_BURST 0" for st by (simp add: toy_plane_def)
  ultimately obtain pl' where h: "handle toy_codec default_bounds toy_moment (headers ''office-1'' 900 sample_run 7 []) sample_text
      (toy_plane (Some (open_remote blank_db))) = (Inr unauthorized, pl')"
    by (simp add: handle_def first_check handle_live_def)
  from unauthorized_changes_nothing [OF h] h p show ?thesis
    by (simp add: unauthorized_def answer_def toy_moment_def)
qed

text \<open>The tables stay openable under any request.\<close>

lemma handle_keeps_store:
  assumes "handle cd L mo h body pl = (outcome, pl')" "pl_store pl = Some st"
    "db_ok (cd_sha cd) (cd_dumps cd) (cd_loads cd) (rm_db st)" "0 \<le> mo_now mo"
  shows "\<exists>st'. pl_store pl' = Some st' \<and> db_ok (cd_sha cd) (cd_dumps cd) (cd_loads cd) (rm_db st')"
  using assms(1)
proof (cases rule: handle_cases)
  case 3
  from 3(2) show ?thesis
  proof (cases rule: handle_live_cases)
    case (4 c entry lm)
    from 4(6) show ?thesis
    proof (cases rule: commit_sample_cases)
      case 1
      with assms show ?thesis by simp
    next
      case (2 d st2)
      let ?a = "accept (cd_sha cd) L (mo_env mo) (cl_probe c) (cl_run c) (cl_seq c) (pgetN d ''sample_epoch'') body (mo_now mo) st"
      from 2(3) assms(2) have "st2 = st" by simp
      with settle_store [of "cl_probe c" "fst ?a" "pl\<lparr>pl_preauth := snd (check_bucket (mo_mono mo) (pl_preauth pl)), pl_limiter := lm, pl_store := Some (snd ?a)\<rparr>"] 2(5)
      have "pl_store pl' = Some (snd ?a)" by simp
      with accept_keeps_ok [OF assms(3) 2(4) assms(4), of L "mo_env mo"] show ?thesis by simp
    qed
  qed (use assms in simp_all)
qed (use assms in simp_all)

section \<open>The plane's status\<close>

definition PROBE_REPORTING_SECONDS :: rat where "PROBE_REPORTING_SECONDS = 180"

record probe_status =
  ps_state :: string
  ps_code :: "string option"
  ps_last :: "rat option"
  ps_site :: "string option"
  ps_path :: "string option"

record plane_status =
  pt_state :: string
  pt_code :: "string option"
  pt_configured :: nat
  pt_suspended :: "string list"
  pt_probes :: "(string, probe_status) dict"
  pt_store :: "store_status option"

definition store_status_call :: "store_bounds \<Rightarrow> commit \<Rightarrow> disk \<Rightarrow> rat \<Rightarrow> remote \<Rightarrow> store_status option option \<times> remote" where
  "store_status_call L c d now st =
     (if rm_open st then (let (ok, st') = enforce_retention L c now st in (if ok then Some (status_snapshot L d st') else None, st'))
      else (Some (status_snapshot L d st), st))"

text \<open>What the status reads of the store; a probe whose capacity has come back is no longer a failure.\<close>

definition store_view :: "store_bounds \<Rightarrow> commit \<Rightarrow> commit \<Rightarrow> disk \<Rightarrow> rat \<Rightarrow> plane
    \<Rightarrow> (store_status option \<times> (string, rat) dict \<times> (string, store_error) dict) \<times> plane" where
  "store_view L c1 c2 d now pl =
     (case pl_store pl of
        None \<Rightarrow> ((None, [], []), pl)
      | Some st \<Rightarrow>
          (case store_status_call L c1 d now st of
             (None, st1) \<Rightarrow> ((None, [], []), pl\<lparr>pl_store := Some st1, pl_store_error := True\<rparr>)
           | (Some snapshot, st1) \<Rightarrow>
               (case probe_sample_times L c2 now st1 of
                  (None, st2) \<Rightarrow> ((snapshot, [], []), pl\<lparr>pl_store := Some st2, pl_store_error := True\<rparr>)
                | (Some latest_times, st2) \<Rightarrow>
                    (let failures = filter (\<lambda>(p, _). capacity_code L d (Some p) (rm_db st2) \<noteq> None) (pl_failures pl) in
                     ((snapshot, latest_times, failures),
                      pl\<lparr>pl_store := Some st2, pl_failures := failures, pl_store_error := False\<rparr>)))))"

definition probe_row :: "store_bounds \<Rightarrow> disk \<Rightarrow> rat \<Rightarrow> plane \<Rightarrow> store_status option \<Rightarrow> (string, rat) dict \<Rightarrow> (string, store_error) dict
    \<Rightarrow> string \<Rightarrow> probe_entry \<Rightarrow> probe_status" where
  "probe_row L d now pl snapshot latest_times failures probe entry =
     (let epoch = dict_get latest_times probe;
          code = (case dict_get failures probe of
              Some e \<Rightarrow> Some e
            | None \<Rightarrow> (case pl_store pl of
                Some st \<Rightarrow> if pl_store_error pl then None else capacity_code L d (Some probe) (rm_db st)
              | None \<Rightarrow> None));
          stale = (case epoch of None \<Rightarrow> True | Some e \<Rightarrow> PROBE_REPORTING_SECONDS < now - e);
          pruned = (case snapshot of None \<Rightarrow> False | Some s \<Rightarrow> ss_pruned s);
          (state, shown) =
            (if pl_store_error pl then (''degraded'', Some ''remote_store_unavailable'')
             else case code of
                 Some e \<Rightarrow> (''degraded'', Some (error_text e))
               | None \<Rightarrow>
                   if stale then (''source_unavailable'', Some ''probe_not_reporting'')
                   else if pruned then (''degraded'', Some ''remote_budget_pruned'')
                   else (''fresh'', None))
      in \<lparr>ps_state = state, ps_code = shown, ps_last = epoch, ps_site = Some (pe_site entry), ps_path = Some (pe_path entry)\<rparr>)"

definition broken_row :: probe_status where
  "broken_row = \<lparr>ps_state = ''degraded'', ps_code = Some ''remote_config_invalid'', ps_last = None, ps_site = None, ps_path = None\<rparr>"

definition status_rows :: "store_bounds \<Rightarrow> disk \<Rightarrow> rat \<Rightarrow> registry \<Rightarrow> plane \<Rightarrow> store_status option \<Rightarrow> (string, rat) dict \<Rightarrow> (string, store_error) dict
    \<Rightarrow> (string, probe_status) dict" where
  "status_rows L d now reg pl snapshot latest_times failures =
     foldl (\<lambda>rows p. dict_set p broken_row rows)
       (map (\<lambda>(p, entry). (p, probe_row L d now pl snapshot latest_times failures p entry))
          (sort_key fst (filter (\<lambda>(_, entry). pe_enabled entry) (rg_entries reg))))
       (rg_problems reg)"

definition first_of :: "string \<Rightarrow> (string, probe_status) dict \<Rightarrow> probe_status option" where
  "first_of state rows = find (\<lambda>row. ps_state row = state) (map snd rows)"

definition overall :: "registry \<Rightarrow> bool \<Rightarrow> (string, probe_status) dict \<Rightarrow> string \<times> string option" where
  "overall reg failed rows =
     (let (state, code) =
        (case rg_state reg of
           NotConfigured \<Rightarrow> (''not_configured'', None)
         | Degraded \<Rightarrow> (''degraded'', Some ''remote_config_invalid'')
         | Ready \<Rightarrow>
             if rows = [] then (''not_configured'', None)
             else (case first_of ''degraded'' rows of
                 Some row \<Rightarrow> (''degraded'', ps_code row)
               | None \<Rightarrow> (case first_of ''source_unavailable'' rows of
                   Some row \<Rightarrow> (''source_unavailable'', ps_code row) | None \<Rightarrow> (''fresh'', None))))
      in if state \<noteq> ''not_configured'' \<and> failed then (''degraded'', Some ''remote_store_unavailable'') else (state, code))"

definition capacity_texts :: "string list" where
  "capacity_texts = map error_text [RunCapacity, ReceiptCapacity, StorageCapacity]"

definition status_live :: "store_bounds \<Rightarrow> commit \<Rightarrow> commit \<Rightarrow> disk \<Rightarrow> rat \<Rightarrow> registry \<Rightarrow> plane \<Rightarrow> plane_status \<times> plane" where
  "status_live L c1 c2 d now reg pl =
     (let ((snapshot, latest_times, failures), pl') = store_view L c1 c2 d now pl;
          rows = status_rows L d now reg pl' snapshot latest_times failures;
          (state, code) = overall reg (pl_store_error pl') rows
      in (\<lparr>pt_state = state, pt_code = code, pt_configured = length (rg_entries reg) + length (rg_problems reg),
           pt_suspended = sort (map fst (filter (\<lambda>(_, row). case ps_code row of None \<Rightarrow> False | Some t \<Rightarrow> t \<in> set capacity_texts) rows)),
           pt_probes = rows, pt_store = snapshot\<rparr>, pl'))"

text \<open>The retained samples with the operator's current labels.\<close>

record labelled_sample =
  ls_sample :: pyval
  ls_retired :: bool
  ls_site :: "string option"
  ls_path :: "string option"

definition label_sample :: "registry \<Rightarrow> pyval \<Rightarrow> labelled_sample" where
  "label_sample reg v =
     (case dict_get (rg_entries reg) (str_of (pgetN (dict_items v) ''probe_id'')) of
        Some entry \<Rightarrow> if pe_enabled entry
          then \<lparr>ls_sample = v, ls_retired = False, ls_site = Some (pe_site entry), ls_path = Some (pe_path entry)\<rparr>
          else \<lparr>ls_sample = v, ls_retired = True, ls_site = None, ls_path = None\<rparr>
      | None \<Rightarrow> \<lparr>ls_sample = v, ls_retired = True, ls_site = None, ls_path = None\<rparr>)"

definition read_samples_live :: "store_bounds \<Rightarrow> commit \<Rightarrow> rat \<Rightarrow> codec \<Rightarrow> registry \<Rightarrow> rat \<Rightarrow> rat \<Rightarrow> string option \<Rightarrow> int \<Rightarrow> plane
    \<Rightarrow> labelled_sample list res \<times> plane" where
  "read_samples_live L c now cd reg from until probe limit pl =
     (case pl_store pl of
        None \<Rightarrow> (Inl (OSError ''remote store unavailable''), pl)
      | Some st \<Rightarrow>
          (let (rows, st') = read_samples L c now (cd_loads cd) from until probe limit st in
           (res_bind rows (\<lambda>vs. Inr (map (label_sample reg) vs)), pl\<lparr>pl_store := Some st'\<rparr>)))"

section \<open>A fresh plane\<close>

lemma find_None_all: "find P xs = None \<Longrightarrow> x \<in> set xs \<Longrightarrow> \<not> P x"
  by (auto simp: find_None_iff)

lemma probe_row_states: "ps_state (probe_row L d now pl snapshot latest_times failures p entry) \<in> {''degraded'', ''source_unavailable'', ''fresh''}"
  by (simp add: probe_row_def Let_def split: option.split)

lemma probe_row_fresh:
  assumes "ps_state (probe_row L d now pl snapshot latest_times failures p entry) = ''fresh''"
  shows "\<not> pl_store_error pl \<and> (\<exists>e. dict_get latest_times p = Some e \<and> now - e \<le> PROBE_REPORTING_SECONDS) \<and> dict_get failures p = None
    \<and> (\<forall>st. pl_store pl = Some st \<longrightarrow> capacity_code L d (Some p) (rm_db st) = None)
    \<and> (\<forall>s. snapshot = Some s \<longrightarrow> \<not> ss_pruned s)"
  using assms by (auto simp: probe_row_def Let_def not_less split: option.splits if_splits)

lemma entry_step_wf: "wf_dict (fst acc) \<Longrightarrow> entry_step key_read acc item = Inr acc' \<Longrightarrow> wf_dict (fst acc')"
  by (auto simp: entry_step_def Let_def split: pyval.splits if_splits option.splits)

lemma load_registry_Ready:
  assumes "rg_state (load_registry loads key_read cfg) = Ready"
  shows "wf_dict (rg_entries (load_registry loads key_read cfg)) \<and> rg_problems (load_registry loads key_read cfg) = []"
proof -
  from assms obtain text_bytes entries problems where f: "cfg = ConfigBytes text_bytes" "load_config loads key_read text_bytes = Inr (entries, problems)"
    by (auto simp: load_registry_def split: config_file.splits sum.splits)
  with assms have "problems = []" by (simp add: load_registry_def split: if_splits)
  moreover have "wf_dict entries"
  proof -
    from f(2) obtain items where "res_fold (entry_step key_read) ([], []) items = Inr (entries, problems)"
      by (auto simp: load_config_def split: if_splits option.splits pyval.splits)
    then have "wf_dict (fst (entries, problems))"
      by (rule res_fold_inv) (auto intro: entry_step_wf)
    then show ?thesis by simp
  qed
  ultimately show ?thesis by (simp add: f load_registry_def)
qed

lemma overall_fresh:
  assumes "overall reg failed rows = (''fresh'', code)"
  shows "rg_state reg = Ready \<and> \<not> failed \<and> first_of ''degraded'' rows = None \<and> first_of ''source_unavailable'' rows = None"
  using assms by (auto simp: overall_def Let_def split: registry_state.splits if_splits option.splits)

text \<open>
  Fresh means that everybody reports: when the plane's status is fresh, the registry file was read and every
  key is usable, the store answers, and every enabled probe has a retained sample of the last three minutes, is under
  no capacity limit, and no evidence has been pruned for space.
\<close>

theorem fresh_means_reporting:
  assumes "status_live L c1 c2 d now reg pl = (status, pl')" and "reg = load_registry loads key_read cfg"
    and "pt_state status = ''fresh''" and "dict_get (rg_entries reg) p = Some entry" and "pe_enabled entry"
  shows "\<exists>latest_times failures e. store_view L c1 c2 d now pl = ((pt_store status, latest_times, failures), pl')
    \<and> dict_get latest_times p = Some e \<and> now - e \<le> 180 \<and> dict_get failures p = None \<and> \<not> pl_store_error pl'
    \<and> (case pl_store pl' of None \<Rightarrow> True | Some st \<Rightarrow> capacity_code L d (Some p) (rm_db st) = None)
    \<and> (case pt_store status of None \<Rightarrow> True | Some s \<Rightarrow> \<not> ss_pruned s)
    \<and> rg_state reg = Ready \<and> rg_problems reg = []"
proof -
  obtain snapshot latest_times failures pl2 where v: "store_view L c1 c2 d now pl = ((snapshot, latest_times, failures), pl2)" by (metis prod.collapse)
  let ?rows = "status_rows L d now reg pl2 snapshot latest_times failures"
  obtain state code where o: "overall reg (pl_store_error pl2) ?rows = (state, code)" by force
  from assms(1) v o have s: "pl' = pl2" "pt_store status = snapshot" "pt_state status = state" by (auto simp: status_live_def Let_def)
  with assms(3) o have "overall reg (pl_store_error pl2) ?rows = (''fresh'', code)" by simp
  from overall_fresh [OF this] have r: "rg_state reg = Ready" "\<not> pl_store_error pl2" "first_of ''degraded'' ?rows = None"
    "first_of ''source_unavailable'' ?rows = None" by auto
  with load_registry_Ready [of loads key_read cfg] assms(2) have ready: "wf_dict (rg_entries reg)" "rg_problems reg = []" by auto
  let ?row = "probe_row L d now pl2 snapshot latest_times failures p entry"
  from assms(4) have "(p, entry) \<in> set (rg_entries reg)" by (rule map_of_SomeD)
  with assms(5) ready(2) have "?row \<in> set (map snd ?rows)" by (force simp: status_rows_def)
  with r(3,4) have "ps_state ?row \<noteq> ''degraded''" "ps_state ?row \<noteq> ''source_unavailable''"
    unfolding first_of_def by (blast dest: find_None_all)+
  with probe_row_states [of L d now pl2 snapshot latest_times failures p entry] have "ps_state ?row = ''fresh''" by blast
  from probe_row_fresh [OF this] show ?thesis
    using v s r ready by (auto simp: PROBE_REPORTING_SECONDS_def split: option.split)
qed

definition busy_db :: remote_db where
  "busy_db = \<lparr>rd_runs = [\<lparr>rr_probe = ''office-1'', rr_run = sample_run, rr_max_seq = 7, rr_max_epoch = 1000, rr_created = 1010, rr_activity = 1010\<rparr>],
     rd_receipts = [\<lparr>rc_probe = ''office-1'', rc_run = sample_run, rc_seq = 7, rc_hash = sample_text, rc_accepted = 1010\<rparr>],
     rd_samples = [\<lparr>sp_probe = ''office-1'', sp_run = sample_run, sp_seq = 7, sp_epoch = 1000, sp_received = 1010, sp_hash = sample_text, sp_body = sample_text\<rparr>]\<rparr>"

lemma busy_prune: "prune default_bounds 1010 0 busy_db = (busy_db, 0)"
  by (simp add: prune_def expire_runs_def expire_samples_def busy_db_def default_bounds_def sample_bytes_def sample_text_def SAMPLE_ROW_CHARGE_def
      RUN_LIFETIME_SECONDS_def REMOTE_MAX_AGE_def Let_def)

lemma busy_capacity: "capacity_code default_bounds roomy_disk p busy_db = None"
  by (simp add: capacity_code_def capacity_def default_bounds_def roomy_disk_def busy_db_def working_space_def RUN_ROW_CHARGE_def
      RECEIPT_ROW_CHARGE_def split: option.split)

definition toy_reg :: registry where
  "toy_reg = load_registry (cd_loads toy_codec) (mo_keys toy_moment) (mo_config toy_moment)"

theorem fresh_means_reporting_witness:
  "\<exists>status pl' entry. status_live default_bounds Landed Landed roomy_disk 1010 toy_reg (toy_plane (Some (open_remote busy_db))) = (status, pl')
     \<and> pt_state status = ''fresh'' \<and> dict_get (rg_entries toy_reg) ''office-1'' = Some entry \<and> rg_problems toy_reg = []"
proof -
  let ?pl = "toy_plane (Some (open_remote busy_db))"
  obtain entry where e: "dict_get (rg_entries toy_reg) ''office-1'' = Some entry" "pe_enabled entry" and t: "rg_state toy_reg = Ready"
    "rg_entries toy_reg = [(''office-1'', entry)]" "rg_problems toy_reg = []"
    using toy_ready unfolding toy_reg_def by auto
  have retained: "enforce_retention default_bounds Landed 1010 (open_remote busy_db) = (True, open_remote busy_db)"
    by (simp add: retention_lands open_remote_def busy_prune note_pruned_def)
  obtain snapshot where snap: "status_snapshot default_bounds roomy_disk (open_remote busy_db) = Some snapshot" "\<not> ss_pruned snapshot"
    by (simp add: status_snapshot_def open_remote_def Let_def)
  have latest_times: "sample_times busy_db = [(''office-1'', 1000)]" by (simp add: sample_times_def busy_db_def)
  have view: "store_view default_bounds Landed Landed roomy_disk 1010 ?pl = ((Some snapshot, [(''office-1'', 1000)], []), ?pl)"
    using retained snap latest_times
    by (simp add: store_view_def toy_plane_def store_status_call_def open_remote_def probe_sample_times_def queried_def)
  have "probe_row default_bounds roomy_disk 1010 ?pl (Some snapshot) [(''office-1'', 1000)] [] ''office-1'' entry
      = \<lparr>ps_state = ''fresh'', ps_code = None, ps_last = Some 1000, ps_site = Some (pe_site entry), ps_path = Some (pe_path entry)\<rparr>"
    using snap(2) by (simp add: probe_row_def toy_plane_def open_remote_def busy_capacity PROBE_REPORTING_SECONDS_def)
  then have rows: "status_rows default_bounds roomy_disk 1010 toy_reg ?pl (Some snapshot) [(''office-1'', 1000)] []
      = [(''office-1'', \<lparr>ps_state = ''fresh'', ps_code = None, ps_last = Some 1000, ps_site = Some (pe_site entry), ps_path = Some (pe_path entry)\<rparr>)]"
    using e(2) by (simp add: status_rows_def t)
  have no_error: "\<not> pl_store_error ?pl" by (simp add: toy_plane_def)
  obtain status pl' where s: "status_live default_bounds Landed Landed roomy_disk 1010 toy_reg ?pl = (status, pl')" by force
  then have fr: "pt_state status = ''fresh''"
    using no_error by (auto simp: status_live_def view rows overall_def t first_of_def Let_def)
  from fresh_means_reporting [OF s toy_reg_def fr e] s fr e show ?thesis by blast
qed

end
