(* ===== verification/Uplink.thy ===== *)
theory Uplink
  imports Agent Plane
begin

text \<open>
  The way of a record from the agent to the server: the machine route of \<open>monitor-v2/web/server.py\<close>, the client side of
  \<open>monitor-v2/remote_probe/delivery.py\<close>, and a network between them that may lose a request or its answer. It joins
  the agent's \<open>deliver_pending\<close> with the server's \<open>handle\<close>.
\<close>

section \<open>The machine route\<close>

text \<open>The declared length is absent, malformed, or a number; the body is what was read of that length.\<close>

record request =
  rq_version :: string
  rq_length :: "int option option"
  rq_type :: "string option"
  rq_headers :: wire_headers
  rq_body :: string

definition media_type :: "string \<Rightarrow> string" where
  "media_type s = lower (py_strip s)"

definition ingest_framing_error :: "request \<Rightarrow> (nat \<times> string) option" where
  "ingest_framing_error rq =
     (if rq_version rq \<noteq> ''HTTP/1.1'' then Some (400, ''invalid_framing'')
      else case rq_length rq of
          None \<Rightarrow> Some (400, ''invalid_framing'')
        | Some None \<Rightarrow> Some (400, ''invalid_framing'')
        | Some (Some n) \<Rightarrow>
            if n \<le> 0 \<or> int MAX_BODY_BYTES < n then Some (413, ''payload_too_large'')
            else if media_type (case rq_type rq of None \<Rightarrow> [] | Some s \<Rightarrow> s) \<noteq> ''application/json'' then Some (400, ''unsupported_media_type'')
            else None)"

definition not_found :: response where "not_found = answer 404 ''not found''"

text \<open>An absent plane and one without a configuration file look like any unknown path.\<close>

definition serve_post :: "codec \<Rightarrow> store_bounds \<Rightarrow> moment \<Rightarrow> request \<Rightarrow> plane option \<Rightarrow> response res \<times> plane option" where
  "serve_post cd L mo rq pl =
     (case pl of
        None \<Rightarrow> (Inr not_found, None)
      | Some p \<Rightarrow>
          if mo_config mo = NoConfig then (Inr not_found, Some p)
          else (case ingest_framing_error rq of
                  Some (status, code) \<Rightarrow> (Inr (answer status code), Some p)
                | None \<Rightarrow> (let (outcome, p') = handle cd L mo (rq_headers rq) (rq_body rq) p in (outcome, Some p'))))"

definition response_value :: "response \<Rightarrow> pyval" where
  "response_value r = (case rs_reply r of
      Success v \<Rightarrow> PDict [(PStr ''result'', PStr (verdict_text v)), (PStr ''v'', PInt 1)]
    | Failure e \<Rightarrow> PDict [(PStr ''error'', PStr e)])"

section \<open>The transport\<close>

definition request_of :: "string \<Rightarrow> wire_headers \<Rightarrow> request" where
  "request_of body h = \<lparr>rq_version = ''HTTP/1.1'', rq_length = Some (Some (int (length body))), rq_type = Some ''application/json'',
     rq_headers = h, rq_body = body\<rparr>"

text \<open>
  The network and the server, with what the server answered to what. The moments of the server and the fates of the
  exchanges are given; \<open>shown\<close> is the text the server writes for a value.
\<close>

datatype fate = Lost | Answered | AnswerLost

record link =
  ln_plane :: "plane option"
  ln_time :: nat
  ln_log :: "(string \<times> wire_headers \<times> response \<times> plane option) list"

definition transmit :: "codec \<Rightarrow> store_bounds \<Rightarrow> (pyval \<Rightarrow> string) \<Rightarrow> (nat \<Rightarrow> fate) \<Rightarrow> (nat \<Rightarrow> moment) \<Rightarrow> link poster" where
  "transmit cd L shown fates moments lk body h =
     (let sent = lk\<lparr>ln_time := Suc (ln_time lk)\<rparr> in
      if MAX_BODY_BYTES < length body then (Inl ''UploadConfigError'', sent)
      else if fates (ln_time lk) = Lost then (Inl ''TimeoutError'', sent)
      else (case serve_post cd L (moments (ln_time lk)) (request_of body h) (ln_plane lk) of
              (Inl _, pl) \<Rightarrow> (Inl ''RemoteDisconnected'', sent\<lparr>ln_plane := pl\<rparr>)
            | (Inr r, pl) \<Rightarrow>
                (if fates (ln_time lk) = Answered then Inr (PInt (int (rs_status r)), take 4096 (shown (response_value r))) else Inl ''TimeoutError'',
                 sent\<lparr>ln_plane := pl, ln_log := ln_log lk @ [(body, h, r, pl)]\<rparr>)))"

section \<open>What the server has\<close>

definition stored_in :: "codec \<Rightarrow> string \<Rightarrow> string \<Rightarrow> int \<Rightarrow> string \<Rightarrow> plane option \<Rightarrow> bool" where
  "stored_in cd probe run seq body pl \<longleftrightarrow> (case pl of None \<Rightarrow> False | Some p \<Rightarrow> (case pl_store p of None \<Rightarrow> False | Some st \<Rightarrow>
     (\<exists>c\<in>set (rd_receipts (rm_db st)). receipt_key c = (probe, run, seq) \<and> rc_hash c = cd_sha cd body)))"

definition committed :: "codec \<Rightarrow> string \<Rightarrow> wire_headers \<Rightarrow> link \<Rightarrow> bool" where
  "committed cd body h lk \<longleftrightarrow> (\<exists>r pl c. (body, h, r, pl) \<in> set (ln_log lk) \<and> parse_headers h = Some c
     \<and> stored_in cd (cl_probe c) (cl_run c) (cl_seq c) body pl)"

definition link_ok :: "codec \<Rightarrow> (nat \<Rightarrow> moment) \<Rightarrow> link \<Rightarrow> bool" where
  "link_ok cd moments lk \<longleftrightarrow> (\<forall>i. 0 \<le> mo_now (moments i))
     \<and> (case ln_plane lk of None \<Rightarrow> True | Some p \<Rightarrow> (case pl_store p of None \<Rightarrow> True | Some st \<Rightarrow>
          db_ok (cd_sha cd) (cd_dumps cd) (cd_loads cd) (rm_db st)))"

lemma touch_receipts [simp]: "rd_receipts (touch p r now db) = rd_receipts db"
  by (simp add: touch_def)

lemma judge_success_receipt:
  assumes "db_ok sha dumps loads db0" "request_fine sha dumps loads p r s epoch body" "0 \<le> now"
    and "judge sha L env p r s epoch body now db0 = Inr (Inr v, db', n)" "v \<in> {Accepted, Duplicate}"
  shows "\<exists>c\<in>set (rd_receipts db'). receipt_key c = (p, r, s) \<and> rc_hash c = sha body"
proof (cases "v = Accepted")
  case True
  with judge_accepted_receipt [OF assms(1-3)] assms(4) show ?thesis by (force simp: new_receipt_def receipt_key_def)
next
  case False
  with assms(5) have v: "v = Duplicate" by simp
  from assms(4) show ?thesis
  proof (cases rule: judge_cases)
    case (1 c)
    then have "c \<in> set (rd_receipts (fst (prune L now 0 db0)))" "receipt_key c = (p, r, s)"
      unfolding find_receipt_def by (auto dest: find_Some_key)
    with 1 show ?thesis by auto
  next
    case 4
    from 4(5) have "judge_new sha L env p r s (num_value epoch) body now (fst (prune L now 0 db0), snd (prune L now 0 db0)) = Inr (Inr v, db', n)" by simp
    then show ?thesis by (cases rule: judge_new_cases) (simp_all add: v)
  qed (simp_all add: v image_iff)
qed

lemma accept_success_receipt:
  assumes "db_ok sha dumps loads (rm_db st)" "request_fine sha dumps loads p r s epoch body" "0 \<le> now"
    and "fst (accept sha L env p r s epoch body now st) = Inr v" "v \<in> {Accepted, Duplicate}"
  shows "\<exists>c\<in>set (rd_receipts (rm_db (snd (accept sha L env p r s epoch body now st)))). receipt_key c = (p, r, s) \<and> rc_hash c = sha body"
proof -
  obtain a st' where l: "accept_locked sha L env p r s epoch body now st = (a, st')" by force
  with assms(4) have a: "a = Inr v" "accept sha L env p r s epoch body now st = (Inr v, st')"
    by (auto simp: accept_eq split: if_splits)
  have op: "rm_open st" using l a(1) accept_locked_closed [of st] by (cases "rm_open st") auto
  obtain x where j: "judge sha L env p r s epoch body now (rm_db st) = Inr x"
    using accept_locked_raise [OF op, of sha L env p r s epoch body now] l a(1)
    by (cases "judge sha L env p r s epoch body now (rm_db st)") auto
  obtain v' db n where x: "x = (v', db, n)" by (metis prod_cases3)
  from l a(1) have "v' = Inr v" "rm_db st' = db"
    unfolding accept_locked_judged [OF op j [unfolded x]] by (auto split: if_splits commit.splits)
  with judge_success_receipt [OF assms(1-3) _ assms(5)] j x a(2) show ?thesis by simp
qed

lemma handle_success_receipt:
  assumes "handle cd L mo h body pl = (Inr r, pl')" "rs_status r = 200" "0 \<le> mo_now mo"
    and "\<And>st. pl_store pl = Some st \<Longrightarrow> db_ok (cd_sha cd) (cd_dumps cd) (cd_loads cd) (rm_db st)"
  shows "\<exists>c. parse_headers h = Some c \<and> stored_in cd (cl_probe c) (cl_run c) (cl_seq c) body (Some pl')"
proof -
  let ?reg = "load_registry (cd_loads cd) (mo_keys mo) (mo_config mo)"
  let ?pl = "pl\<lparr>pl_preauth := snd (check_bucket (mo_mono mo) (pl_preauth pl))\<rparr>"
  from assms(1) have "handle_live cd L mo ?reg h body ?pl = (Inr r, pl')"
    by (cases rule: handle_cases) (use assms(2) in \<open>auto simp: rate_limited_def answer_def\<close>)
  then show ?thesis
  proof (cases rule: handle_live_cases)
    case (4 c entry lm)
    from 4(6) show ?thesis
    proof (cases rule: commit_sample_cases)
      case 1
      with assms(2) show ?thesis by auto
    next
      case (2 d st)
      from settle_status [OF 2(5)] assms(2) obtain v where
        v: "fst (accept (cd_sha cd) L (mo_env mo) (cl_probe c) (cl_run c) (cl_seq c) (pgetN d ''sample_epoch'') body (mo_now mo) st) = Inr v"
        "v \<in> {Accepted, Duplicate}" by blast
      have ok: "db_ok (cd_sha cd) (cd_dumps cd) (cd_loads cd) (rm_db st)" using 2(3) assms(4) by simp
      let ?acc = "accept (cd_sha cd) L (mo_env mo) (cl_probe c) (cl_run c) (cl_seq c) (pgetN d ''sample_epoch'') body (mo_now mo) st"
      have "pl' = snd (settle (cl_probe c) (fst ?acc) ((?pl\<lparr>pl_limiter := lm\<rparr>)\<lparr>pl_store := Some (snd ?acc)\<rparr>))" unfolding 2(5) snd_conv ..
      then have "pl_store pl' = Some (snd ?acc)" by (simp add: settle_store)
      with accept_success_receipt [OF ok 2(4) assms(3) v] 4(1) show ?thesis by (simp add: stored_in_def)
    qed
  qed (use assms(2) in \<open>auto simp: unauthorized_def answer_def rate_limited_def\<close>)
qed

section \<open>The far end of a pass\<close>

lemma handle_without_store:
  assumes "handle cd L mo h body pl = (outcome, pl')" "pl_store pl = None"
  shows "pl_store pl' = None"
  using assms(1)
proof (cases rule: handle_cases)
  case 3
  from 3(2) show ?thesis
  proof (cases rule: handle_live_cases)
    case (4 c entry lm)
    from 4(6) show ?thesis by (cases rule: commit_sample_cases) (use assms(2) in simp_all)
  qed (use assms(2) in simp_all)
qed (use assms(2) in simp_all)

lemma serve_post_cases:
  assumes "serve_post cd L mo rq pl = (outcome, pl')"
  obtains r where "outcome = Inr r" "pl' = pl" "rs_status r \<in> {400, 404, 413}"
  | p p' where "pl = Some p" "pl' = Some p'" "handle cd L mo (rq_headers rq) (rq_body rq) p = (outcome, p')"
proof (cases pl)
  case None
  with assms show thesis by (intro that(1) [of not_found]) (auto simp: serve_post_def not_found_def answer_def)
next
  case (Some p)
  show thesis
  proof (cases "mo_config mo = NoConfig")
    case True
    with assms Some show thesis by (intro that(1) [of not_found]) (auto simp: serve_post_def not_found_def answer_def)
  next
    case False
    show thesis
    proof (cases "ingest_framing_error rq")
      case None
      obtain o' p' where "handle cd L mo (rq_headers rq) (rq_body rq) p = (o', p')" by force
      with assms Some False None show thesis by (intro that(2) [of p p']) (auto simp: serve_post_def)
    next
      case e: (Some err)
      obtain status code where s: "err = (status, code)" by force
      from e s have "status \<in> {400, 413}" by (auto simp: ingest_framing_error_def split: if_splits option.splits)
      with assms Some False e s show thesis by (intro that(1) [of "answer status code"]) (auto simp: serve_post_def answer_def)
    qed
  qed
qed

lemma handle_status:
  assumes "handle cd L mo h body pl = (Inr r, pl')"
  shows "rs_status r = 200 \<or> 300 \<le> rs_status r"
  using assms
proof (cases rule: handle_cases)
  case 3
  from 3(2) show ?thesis
  proof (cases rule: handle_live_cases)
    case (4 c entry lm)
    from 4(6) show ?thesis
    proof (cases rule: commit_sample_cases)
      case 1
      then show ?thesis by auto
    next
      case (2 d st)
      show ?thesis
      proof (cases "fst (accept (cd_sha cd) L (mo_env mo) (cl_probe c) (cl_run c) (cl_seq c) (pgetN d ''sample_epoch'') body (mo_now mo) st)")
        case (Inl e)
        with 2(5) show ?thesis by (cases e) (auto simp: Intake.settle_def answer_def)
      next
        case (Inr v)
        with 2(5) show ?thesis by (auto simp: Intake.settle_def answer_def split: if_splits)
      qed
    qed
  qed (auto simp: unauthorized_def answer_def rate_limited_def)
qed (auto simp: rate_limited_def answer_def)

lemma transmit_cases:
  assumes "transmit cd L shown fates moments lk body h = (a, lk')"
  obtains "lk' = lk\<lparr>ln_time := Suc (ln_time lk)\<rparr>" "\<exists>kind. a = Inl kind"
  | e pl where "serve_post cd L (moments (ln_time lk)) (request_of body h) (ln_plane lk) = (Inl e, pl)" "\<exists>kind. a = Inl kind"
      "lk' = lk\<lparr>ln_time := Suc (ln_time lk), ln_plane := pl\<rparr>"
  | r pl where "serve_post cd L (moments (ln_time lk)) (request_of body h) (ln_plane lk) = (Inr r, pl)"
      "lk' = lk\<lparr>ln_time := Suc (ln_time lk), ln_plane := pl, ln_log := ln_log lk @ [(body, h, r, pl)]\<rparr>"
      "(\<exists>kind. a = Inl kind) \<or> a = Inr (PInt (int (rs_status r)), take 4096 (shown (response_value r)))"
proof (cases "MAX_BODY_BYTES < length body \<or> fates (ln_time lk) = Lost")
  case True
  with assms show thesis by (intro that(1)) (auto simp: transmit_def Let_def split: if_splits)
next
  case False
  obtain outcome pl where s: "serve_post cd L (moments (ln_time lk)) (request_of body h) (ln_plane lk) = (outcome, pl)" by force
  show thesis
  proof (cases outcome)
    case (Inl e)
    with assms False s show thesis by (intro that(2) [of e pl]) (auto simp: transmit_def Let_def)
  next
    case (Inr r)
    with assms False s show thesis by (intro that(3) [of r pl]) (auto simp: transmit_def Let_def split: if_splits)
  qed
qed

lemma serve_post_ok:
  assumes "serve_post cd L mo rq pl = (outcome, pl')" "0 \<le> mo_now mo"
    and "\<And>p st. pl = Some p \<Longrightarrow> pl_store p = Some st \<Longrightarrow> db_ok (cd_sha cd) (cd_dumps cd) (cd_loads cd) (rm_db st)"
    and "pl' = Some p'" "pl_store p' = Some st'"
  shows "db_ok (cd_sha cd) (cd_dumps cd) (cd_loads cd) (rm_db st')"
  using assms(1)
proof (cases rule: serve_post_cases)
  case 1
  with assms(3-5) show ?thesis by simp
next
  case (2 p q)
  have p': "p' = q" using 2(2) assms(4) by simp
  show ?thesis
  proof (cases "pl_store p")
    case None
    with handle_without_store [OF 2(3)] assms(5) p' show ?thesis by simp
  next
    case (Some st)
    from handle_keeps_store [OF 2(3) Some assms(3) [OF 2(1) Some] assms(2)] assms(5) p' show ?thesis by auto
  qed
qed

lemma link_okD: "link_ok cd moments lk \<Longrightarrow> ln_plane lk = Some p \<Longrightarrow> pl_store p = Some st \<Longrightarrow> db_ok (cd_sha cd) (cd_dumps cd) (cd_loads cd) (rm_db st)"
  and link_ok_now: "link_ok cd moments lk \<Longrightarrow> 0 \<le> mo_now (moments i)"
  by (simp_all add: link_ok_def)

lemma link_ok_after:
  assumes "link_ok cd moments lk" "serve_post cd L (moments i) rq (ln_plane lk) = (outcome, pl)" "ln_plane lk' = pl"
  shows "link_ok cd moments lk'"
proof -
  have each: "db_ok (cd_sha cd) (cd_dumps cd) (cd_loads cd) (rm_db st)" if s: "pl = Some p" "pl_store p = Some st" for p st
    by (rule serve_post_ok [OF assms(2) link_ok_now [OF assms(1)] link_okD [OF assms(1)] s])
  show ?thesis
  proof (cases pl)
    case None
    then show ?thesis using link_ok_now [OF assms(1)] assms(3) by (simp add: link_ok_def)
  next
    case (Some p)
    then show ?thesis using link_ok_now [OF assms(1)] assms(3) each [OF Some] by (simp add: link_ok_def split: option.split)
  qed
qed

lemma transmit_keeps_ok:
  assumes "link_ok cd moments lk" "transmit cd L shown fates moments lk body h = (a, lk')"
  shows "link_ok cd moments lk'"
  using assms(2)
proof (cases rule: transmit_cases)
  case 1
  then have "ln_plane lk' = ln_plane lk" by simp
  with assms(1) show ?thesis by (simp add: link_ok_def)
next
  case (2 e pl)
  then have "ln_plane lk' = pl" by simp
  with assms(1) 2(1) show ?thesis by (rule link_ok_after)
next
  case (3 r pl)
  then have "ln_plane lk' = pl" by simp
  with assms(1) 3(1) show ?thesis by (rule link_ok_after)
qed

lemma transmit_keeps_committed:
  assumes "committed cd body' h' lk" "transmit cd L shown fates moments lk body h = (a, lk')"
  shows "committed cd body' h' lk'"
proof -
  from assms(2) have "set (ln_log lk) \<subseteq> set (ln_log lk')" by (rule transmit_cases) auto
  with assms(1) show ?thesis unfolding committed_def by blast
qed

lemma transmit_acked:
  assumes "link_ok cd moments lk" "transmit cd L shown fates moments lk body h = (Inr (status, said), lk')"
    and "fst (classify_response loads status said) = Ack"
  shows "committed cd body h lk'"
  using assms(2)
proof (cases rule: transmit_cases)
  case (3 r pl)
  then have st: "status = PInt (int (rs_status r))" by auto
  with classify_Ack [OF assms(3)] have range: "200 \<le> rs_status r" "rs_status r < 300" by auto
  from 3(1) show ?thesis
  proof (cases rule: serve_post_cases)
    case 1
    with range show ?thesis by auto
  next
    case (2 p p')
    have h: "handle cd L (moments (ln_time lk)) h body p = (Inr r, p')" using 2(3) by (simp add: request_of_def)
    have "rs_status r = 200" using handle_status [OF h] range by auto
    from handle_success_receipt [OF h this link_ok_now [OF assms(1)] link_okD [OF assms(1) 2(1)]] obtain c where
      "parse_headers h = Some c" "stored_in cd (cl_probe c) (cl_run c) (cl_seq c) body (Some p')" by blast
    with 3(2) 2(2) show ?thesis unfolding committed_def by auto
  qed
qed auto

interpretation net: far_end "transmit cd L shown fates moments" loads "link_ok cd moments" "committed cd" for cd L shown fates moments loads
  by unfold_locales (fact transmit_keeps_ok, fact transmit_keeps_committed, fact transmit_acked)

text \<open>
  CX: What the agent counts as acknowledged is on record at the server: for any network that loses requests and answers,
  any clocks and any state of the server whose tables pass their row checks, each record that a pass acknowledges was
  pending before it, and the server has answered a request with its body after committing a receipt for the probe, the
  run, the sequence number and the hash of that very body; the acknowledgements counted are exactly these.
\<close>

theorem acknowledged_is_committed:
  assumes "deliver_pending sd K sc (transmit cd L shown fates moments) turns limit max_unknown sp lk = (r, sp', lk')" and "link_ok cd moments lk"
  shows "link_ok cd moments lk' \<and> (\<exists>acked. distinct acked
    \<and> cu_acknowledged (sp_cursor sp') = cu_acknowledged (sp_cursor sp) + int (length acked)
    \<and> (\<forall>q\<in>set acked. (\<exists>qs. pending K sc sp = Inr qs \<and> q \<in> set qs) \<and> q_id q \<le> cu_resolved (sp_cursor sp')
        \<and> (\<exists>h reply pl. (q_body q, h, reply, pl) \<in> set (ln_log lk') \<and> stored_in cd (sd_probe sd) (q_run q) (q_seq q) (q_body q) pl)))"
proof -
  have own: "\<exists>h reply pl. (q_body q, h, reply, pl) \<in> set (ln_log lk') \<and> stored_in cd (sd_probe sd) (q_run q) (q_seq q) (q_body q) pl"
    if s: "sign_record sd (q_run q) (q_seq q) (q_body q) t = Inr h" and c: "committed cd (q_body q) h lk'" for q :: queued and t h
  proof -
    from s obtain e m where e: "h = headers (sd_probe sd) e (q_run q) (q_seq q) m" "valid_seq (PInt (q_seq q))"
      by (auto simp: sign_record_def sign_def res_bind_eq_Inr signature_input_Inr split: if_splits)
    from c obtain reply pl c where c: "(q_body q, h, reply, pl) \<in> set (ln_log lk')" "parse_headers h = Some c"
      "stored_in cd (cl_probe c) (cl_run c) (cl_seq c) (q_body q) pl" unfolding committed_def by blast
    have "parse_canonical_int (Some (int_str (q_seq q))) 1 = Some (q_seq q)"
      using e(2) by (intro parse_own_int) (simp_all add: valid_seq_def)
    with c(2) e(1) have "cl_probe c = sd_probe sd" "cl_run c = q_run q" "cl_seq c = q_seq q"
      by (auto simp: parse_headers_def headers_def split: option.splits if_splits)
    with c show ?thesis by metis
  qed
  from net.deliver_pending_taken [OF assms(1) refl assms(2)] obtain acked where
    "link_ok cd moments lk'" "distinct acked" "cu_acknowledged (sp_cursor sp') = cu_acknowledged (sp_cursor sp) + int (length acked)"
    and each: "\<forall>q\<in>set acked. (\<exists>qs. pending K sc sp = Inr qs \<and> q \<in> set qs) \<and> q_id q \<le> cu_resolved (sp_cursor sp')
      \<and> (\<exists>t h. sign_record sd (q_run q) (q_seq q) (q_body q) t = Inr h \<and> committed cd (q_body q) h lk')" by blast
  with own show ?thesis by (intro conjI exI [of _ acked]) auto
qed

section \<open>A healthy exchange\<close>

lemma own_request_served:
  assumes guard: "fst (fst (check_bucket (mo_mono mo) (pl_preauth p)))" "mo_lock mo"
    and entry: "dict_get (rg_entries (load_registry (cd_loads cd) (mo_keys mo) (mo_config mo))) (sd_probe sd) = Some entry" "pe_enabled entry"
      "pe_key entry = sd_secret sd"
    and hashes: "sd_sha sd = cd_sha cd" "sd_mac sd = cd_mac cd" "\<And>k m. is_ascii (cd_mac cd k m) \<and> cd_mac cd k m \<noteq> []"
    and signed: "sign_record sd run seq body sent = Inr h" "canonical_sent_epoch sent = Inr e" "e \<le> SEQ_MAX" "\<bar>of_int e - mo_now mo\<bar> \<le> 300"
    and limits: "fst (fst (check_limits (mo_mono mo) (sd_probe sd) (pl_limiter p)))"
    and encoded: "encode_sample (cd_dumps cd) (cd_loads cd) (PDict d) = Inr body" "cd_loads cd body = Some (PDict d)" "body \<noteq> []"
      "pgetN d ''probe_id'' = PStr (sd_probe sd)" "pgetN d ''run'' = PStr run" "pgetN d ''seq'' = PInt seq"
    and stored: "pl_store p = Some st"
      "fst (accept (cd_sha cd) L (mo_env mo) (sd_probe sd) run seq (pgetN d ''sample_epoch'') body (mo_now mo) st) = Inr v" "v \<in> {Accepted, Duplicate}"
  shows "\<exists>p'. handle cd L mo h body p = (Inr \<lparr>rs_status = 200, rs_reply = Success v, rs_retry_after = None\<rparr>, p')"
proof -
  from signed(1,2) obtain m where m: "signature_input (cd_sha cd) (sd_probe sd) e run seq body = Inr m" "sd_secret sd \<noteq> []"
    and h: "h = headers (sd_probe sd) e run seq (cd_mac cd (sd_secret sd) m)"
    by (auto simp: sign_record_def sign_def res_bind_eq_Inr hashes split: if_splits)
  then have ids: "valid_probe_id (PStr (sd_probe sd))" "valid_run (PStr run)" "valid_seq (PInt seq)" "0 \<le> e" by (simp_all add: signature_input_Inr)
  let ?c = "\<lparr>cl_probe = sd_probe sd, cl_run = run, cl_seq = seq, cl_sent = e, cl_signature = cd_mac cd (sd_secret sd) m\<rparr>"
  have ph: "parse_headers h = Some ?c"
    using ids hashes(3) parse_own_int [of 0 e] parse_own_int [of 1 seq] signed(3)
    by (simp add: h parse_headers_def headers_def valid_seq_def)
  have vs: "verify_signature (cd_sha cd) (cd_mac cd) (sd_secret sd) (sd_probe sd) e run seq body (cd_mac cd (sd_secret sd) m) = Inr True"
    using m hashes(3) by (simp add: verify_signature_def sign_def)
  obtain retry lm where lim: "check_limits (mo_mono mo) (sd_probe sd) (pl_limiter p) = ((True, retry), lm)" using limits by (metis prod.collapse)
  obtain delay b where gd: "check_bucket (mo_mono mo) (pl_preauth p) = ((True, delay), b)" using guard(1) by (metis prod.collapse)
  have canon: "canonical_bytes (cd_dumps cd) (PDict d) = Inr body" "validate_sample (PDict d) = Inr []" "length body \<le> MAX_BODY_BYTES"
    using encoded(1) by (auto simp: encode_sample_def res_bind_eq_Inr split: if_splits)
  have pb: "parse_body cd body = Inr (Some d)" using encoded(2,3) canon by (simp add: parse_body_Some)
  obtain st' where acc: "accept (cd_sha cd) L (mo_env mo) (sd_probe sd) run seq (pgetN d ''sample_epoch'') body (mo_now mo) st = (Inr v, st')"
    using stored(2) by (metis prod.collapse)
  have "\<exists>p'. commit_sample cd L mo ?c body ((p\<lparr>pl_preauth := b\<rparr>)\<lparr>pl_limiter := lm\<rparr>) = (Inr \<lparr>rs_status = 200, rs_reply = Success v, rs_retry_after = None\<rparr>, p')"
    using stored(3) by (simp add: commit_sample_def pb canon encoded(4-6) stored(1) acc Intake.settle_def)
  moreover have "handle cd L mo h body p = commit_sample cd L mo ?c body ((p\<lparr>pl_preauth := b\<rparr>)\<lparr>pl_limiter := lm\<rparr>)"
    using guard(2) entry signed(4) by (simp add: handle_def gd handle_live_def ph vs lim not_less Let_def)
  ultimately show ?thesis by simp
qed

lemma success_value:
  assumes "v \<in> {Accepted, Duplicate}"
  defines "d \<equiv> [(PStr ''result'', PStr (verdict_text v)), (PStr ''v'', PInt 1)]"
  shows "exact_keys d SUCCESS_KEYS \<and> is_one (pgetN d ''v'') \<and> pgetN d ''v'' \<noteq> PBool True \<and> one_in SUCCESS_RESULTS (pgetN d ''result'')"
proof -
  have "let d = [(PStr ''result'', PStr s), (PStr ''v'', PInt 1)] in
      exact_keys d SUCCESS_KEYS \<and> is_one (pgetN d ''v'') \<and> pgetN d ''v'' \<noteq> PBool True \<and> one_in SUCCESS_RESULTS (pgetN d ''result'')"
    if "s = ''accepted'' \<or> s = ''duplicate''" for s
    using that by (elim disjE; hypsubst; code_simp)
  moreover have "verdict_text v = ''accepted'' \<or> verdict_text v = ''duplicate''" using assms(1) by (auto simp: verdict_text_def)
  ultimately show ?thesis unfolding d_def Let_def by blast
qed

text \<open>
  CX: A healthy exchange succeeds: when the probe is enrolled under the agent's key, the clocks agree to five minutes, no
  limit is exhausted and the store takes the sample, then the request that the agent builds for a spooled sample passes
  every check of the server, and the agent reads the answer as an acknowledgement: the record leaves the queue, for
  a new sample and for a retry alike.
\<close>

theorem healthy_exchange_acknowledges:
  assumes "tn_charge t = Landed" and "1 \<le> q_id q" and "cu_resolved (sp_cursor sp) < q_id q" and "fates (ln_time lk) = Answered"
    and "ln_plane lk = Some p" and "mo_config (moments (ln_time lk)) \<noteq> NoConfig"
    and "fst (fst (check_bucket (mo_mono (moments (ln_time lk))) (pl_preauth p)))" and "mo_lock (moments (ln_time lk))"
    and "dict_get (rg_entries (load_registry (cd_loads cd) (mo_keys (moments (ln_time lk))) (mo_config (moments (ln_time lk))))) (sd_probe sd) = Some entry"
    and "pe_enabled entry" and "pe_key entry = sd_secret sd" and "sd_sha sd = cd_sha cd" and "sd_mac sd = cd_mac cd"
    and "\<And>k m. is_ascii (cd_mac cd k m) \<and> cd_mac cd k m \<noteq> []"
    and "sign_record sd (q_run q) (q_seq q) (q_body q) (tn_sent t) = Inr h" and "canonical_sent_epoch (tn_sent t) = Inr e" and "e \<le> SEQ_MAX"
    and "\<bar>of_int e - mo_now (moments (ln_time lk))\<bar> \<le> 300"
    and "fst (fst (check_limits (mo_mono (moments (ln_time lk))) (sd_probe sd) (pl_limiter p)))"
    and "encode_sample (cd_dumps cd) (cd_loads cd) (PDict d) = Inr (q_body q)" and "cd_loads cd (q_body q) = Some (PDict d)" and "q_body q \<noteq> []"
    and "pgetN d ''probe_id'' = PStr (sd_probe sd)" and "pgetN d ''run'' = PStr (q_run q)" and "pgetN d ''seq'' = PInt (q_seq q)"
    and "pl_store p = Some st"
    and "fst (accept (cd_sha cd) L (mo_env (moments (ln_time lk))) (sd_probe sd) (q_run q) (q_seq q) (pgetN d ''sample_epoch'') (q_body q)
           (mo_now (moments (ln_time lk))) st) = Inr v" and "v = Accepted \<or> v = Duplicate"
    and "sd_loads sd (take 4096 (shown (PDict [(PStr ''result'', PStr (verdict_text v)), (PStr ''v'', PInt 1)])))
           = Some (PDict [(PStr ''result'', PStr (verdict_text v)), (PStr ''v'', PInt 1)])"
  shows "\<exists>sp' lk'. deliver_record sd (transmit cd L shown fates moments) max_unknown t q s sp lk
      = (Onward (s\<lparr>dv_attempts := Suc (dv_attempts s), dv_acked := Suc (dv_acked s)\<rparr>), sp', lk') \<and> cu_resolved (sp_cursor sp') = q_id q"
proof -
  let ?mo = "moments (ln_time lk)" and ?v = "PDict [(PStr ''result'', PStr (verdict_text v)), (PStr ''v'', PInt 1)]"
  have v: "v \<in> {Accepted, Duplicate}" using assms(28) by simp
  from own_request_served [OF assms(7-13) _ assms(15-27) v] assms(14) obtain p' where
    served: "handle cd L ?mo h (q_body q) p = (Inr \<lparr>rs_status = 200, rs_reply = Success v, rs_retry_after = None\<rparr>, p')" by blast
  have len: "length (q_body q) \<le> MAX_BODY_BYTES" using assms(20) by (auto simp: encode_sample_def res_bind_eq_Inr split: if_splits)
  have type: "media_type ''application/json'' = ''application/json''" by code_simp
  have framed: "ingest_framing_error (request_of (q_body q) h) = None"
    using len assms(22) type by (simp add: ingest_framing_error_def request_of_def)
  have post: "serve_post cd L ?mo (request_of (q_body q) h) (ln_plane lk) = (Inr \<lparr>rs_status = 200, rs_reply = Success v, rs_retry_after = None\<rparr>, Some p')"
    using served by (simp add: serve_post_def assms(5,6) framed) (simp add: request_of_def)
  obtain lk' where sent: "transmit cd L shown fates moments lk (q_body q) h = (Inr (PInt 200, take 4096 (shown ?v)), lk')"
    using len by (simp add: transmit_def Let_def assms(4) post response_value_def)
  have "success_body_response (sd_loads sd) (take 4096 (shown ?v))"
    unfolding success_body_response_def assms(29) using success_value [OF v] by simp
  then have ack: "classify_response (sd_loads sd) (PInt 200) (take 4096 (shown ?v)) = (Ack, None)" by (simp add: classify_response_def)
  from note_attempt_landed [of "q_id q" sp] obtain sp1 where n: "note_attempt Landed (q_id q) sp = (Inr (attempts (q_id q) sp + 1), sp1)"
    "cu_resolved (sp_cursor sp1) = cu_resolved (sp_cursor sp)" by blast
  from resolve_forward [of "q_id q" sp1 None "tn_settle t" "tn_now t" K] assms(2,3) n(2) obtain sp2 where
    r: "resolve (tn_settle t) (tn_now t) (q_id q) None sp1 = (Inr True, sp2)" "cu_resolved (sp_cursor sp2) = q_id q" by auto
  have "deliver_record sd (transmit cd L shown fates moments) max_unknown t q s sp lk
      = (Onward (s\<lparr>dv_attempts := Suc (dv_attempts s), dv_acked := Suc (dv_acked s)\<rparr>), sp2, lk')"
    by (simp add: deliver_record_def assms(1,15) n(1) sent ack r(1) Let_def)
  with r(2) show ?thesis by blast
qed

end
