(* ===== verification/Office.thy ===== *)
theory Office
  imports Uplink
begin

text \<open>
  A concrete office, its server and one cycle: the witnesses of the properties of \<open>Agent\<close> and \<open>Uplink\<close>.
\<close>

section \<open>A concrete office\<close>

definition toy_shown :: "pyval \<Rightarrow> string" where "toy_shown v = ''yes''"

definition yes_value :: pyval where
  "yes_value = PDict [(PStr ''result'', PStr (verdict_text Accepted)), (PStr ''v'', PInt 1)]"

definition toy_sender :: "string \<Rightarrow> sender" where
  "toy_sender key = \<lparr>sd_sha = toy_sha, sd_mac = (\<lambda>key message. ''5b''), sd_loads = (\<lambda>s. if s = ''yes'' then Some yes_value else None),
     sd_secret = key, sd_probe = ''office-1''\<rparr>"

definition toy_link :: link where
  "toy_link = \<lparr>ln_plane = Some (toy_plane (Some (open_remote blank_db))), ln_time = 0, ln_log = []\<rparr>"

lemma toy_link_parts: "ln_plane toy_link = Some (toy_plane (Some (open_remote blank_db)))" "ln_time toy_link = 0"
  by (simp_all add: toy_link_def)

lemma toy_link_ok: "link_ok toy_codec (\<lambda>_. toy_moment) toy_link"
  using blank_ok by (simp add: link_ok_def toy_link_parts toy_plane_def open_remote_def toy_parts)

lemma toy_signed: "key \<noteq> [] \<Longrightarrow> sign_record (toy_sender key) sample_run 7 body (PInt 900) = Inr (headers ''office-1'' 900 sample_run 7 ''5b'')"
proof -
  assume "key \<noteq> []"
  moreover have "valid_probe_id (PStr ''office-1'')" "valid_run (PStr sample_run)" "valid_seq (PInt 7)" by code_simp+
  moreover have "int_to_float 900 = Inr 900" by (simp add: int_to_float_small)
  ultimately show ?thesis by (simp add: sign_record_def toy_sender_def canonical_sent_epoch_def sign_def signature_input_def)
qed

lemma good_dict: "good_sample = PDict (dict_items good_sample)"
  by (simp add: good_sample_def sample_of_def)

lemma toy_encoded: "encode_sample toy_dumps toy_loads good_sample = Inr sample_text"
  by code_simp

lemma toy_codec_encoded: "encode_sample (cd_dumps toy_codec) (cd_loads toy_codec) good_sample = Inr sample_text"
  "cd_loads toy_codec sample_text = Some good_sample"
proof -
  have l: "cd_loads toy_codec sample_text = Some good_sample" by (simp add: toy_codec_def toy_loads_def sample_text_def)
  then show "cd_loads toy_codec sample_text = Some good_sample" .
  have c: "canonical_bytes toy_dumps good_sample = Inr sample_text" by code_simp
  then have "canonical_roundtrip_ok toy_dumps (cd_loads toy_codec) sample_text" by (simp add: canonical_roundtrip_ok_def l)
  then show "encode_sample (cd_dumps toy_codec) (cd_loads toy_codec) good_sample = Inr sample_text"
    using c good_sample_ok by (simp add: encode_sample_def toy_parts) (simp add: sample_text_def MAX_BODY_BYTES_def)
qed

theorem healthy_exchange_acknowledges_witness:
  "\<exists>key sp' lk'. deliver_record (toy_sender key) (transmit toy_codec default_bounds toy_shown (\<lambda>_. Answered) (\<lambda>_. toy_moment)) UNKNOWN_RESPONSE_MAX_ATTEMPTS
       plain_turn (one_record sample_run sample_text) no_summary (one_spool 0) toy_link
     = (Onward (no_summary\<lparr>dv_attempts := 1, dv_acked := 1\<rparr>), sp', lk') \<and> cu_resolved (sp_cursor sp') = 1"
proof -
  let ?d = "dict_items good_sample" and ?q = "one_record sample_run sample_text"
  obtain entry where e: "dict_get (rg_entries (load_registry (cd_loads toy_codec) (mo_keys toy_moment) (mo_config toy_moment))) ''office-1'' = Some entry"
    "pe_enabled entry" "pe_key entry \<noteq> []" using toy_registry by blast
  let ?sd = "toy_sender (pe_key entry)"
  have sd: "sd_probe ?sd = ''office-1''" "pe_key entry = sd_secret ?sd" "sd_sha ?sd = cd_sha toy_codec" "sd_mac ?sd = cd_mac toy_codec"
    "sd_loads ?sd ''yes'' = Some yes_value"
    by (simp_all add: toy_sender_def toy_codec_def)
  have mac: "is_ascii (cd_mac toy_codec k m) \<and> cd_mac toy_codec k m \<noteq> []" for k m by (simp add: toy_codec_def is_ascii_def)
  have t: "tn_charge plain_turn = Landed" "tn_sent plain_turn = PInt 900" by (simp_all add: plain_turn_def)
  have sign: "sign_record ?sd (q_run ?q) (q_seq ?q) (q_body ?q) (tn_sent plain_turn) = Inr (headers ''office-1'' 900 sample_run 7 ''5b'')"
    using toy_signed [OF e(3)] by (simp add: t)
  have epoch: "canonical_sent_epoch (tn_sent plain_turn) = Inr 900" using int_to_float_small [of 900] by (simp add: t canonical_sent_epoch_def)
  have r: "cu_resolved (sp_cursor (one_spool 0)) < q_id ?q" by (simp add: one_spool_def first_cursor_def)
  have g: "fst (fst (check_bucket 0 (pl_preauth (toy_plane st))))" "fst (fst (check_limits 0 ''office-1'' (pl_limiter (toy_plane st))))" for st
    by (simp_all add: toy_plane_def first_check PREAUTH_BURST_def check_limits_def new_limiter_def probe_bucket_def MAX_BUCKETS_def GLOBAL_BURST_def
        PER_PROBE_BURST_def Let_def)
  have st: "pl_store (toy_plane st) = st" for st by (simp add: toy_plane_def)
  have fields: "pgetN ?d ''probe_id'' = PStr ''office-1''" "pgetN ?d ''run'' = PStr sample_run" "pgetN ?d ''seq'' = PInt 7" "pgetN ?d ''sample_epoch'' = PFloat (Fin 1000)"
    by code_simp+
  have enc: "encode_sample (cd_dumps toy_codec) (cd_loads toy_codec) (PDict ?d) = Inr sample_text" "cd_loads toy_codec sample_text = Some (PDict ?d)"
    using toy_codec_encoded good_dict by simp_all
  have yes: "sd_loads ?sd (take 4096 (toy_shown (PDict [(PStr ''result'', PStr (verdict_text Accepted)), (PStr ''v'', PInt 1)])))
      = Some (PDict [(PStr ''result'', PStr (verdict_text Accepted)), (PStr ''v'', PInt 1)])"
    by (simp add: toy_shown_def sd(5) yes_value_def)
  have cfg: "mo_config toy_moment \<noteq> NoConfig" by (simp add: toy_parts)
  have ne: "sample_text \<noteq> []" by (simp add: sample_text_def)
  from healthy_exchange_acknowledges [where t = plain_turn and q = ?q and sp = "one_spool 0" and fates = "\<lambda>_. Answered" and lk = toy_link
      and p = "toy_plane (Some (open_remote blank_db))" and moments = "\<lambda>_. toy_moment" and cd = toy_codec and sd = ?sd and entry = entry
      and h = "headers ''office-1'' 900 sample_run 7 ''5b''" and e = 900 and d = ?d and st = "open_remote blank_db" and L = default_bounds
      and v = Accepted and shown = toy_shown and max_unknown = UNKNOWN_RESPONSE_MAX_ATTEMPTS and s = no_summary,
      OF t(1) _ r refl toy_link_parts(1) cfg _ _ _ e(2) sd(2-4) mac sign epoch _ _ _ _ _ _ _ _ _ st _ _ yes]
  have "\<exists>sp' lk'. deliver_record ?sd (transmit toy_codec default_bounds toy_shown (\<lambda>_. Answered) (\<lambda>_. toy_moment)) UNKNOWN_RESPONSE_MAX_ATTEMPTS
       plain_turn ?q no_summary (one_spool 0) toy_link
     = (Onward (no_summary\<lparr>dv_attempts := Suc (dv_attempts no_summary), dv_acked := Suc (dv_acked no_summary)\<rparr>), sp', lk') \<and> cu_resolved (sp_cursor sp') = 1"
    using g e(1) enc fields toy_accepted ne by (simp add: toy_parts sd(1) SEQ_MAX_def)
  then show ?thesis by (intro exI [of _ "pe_key entry"]) (simp add: no_summary_def)
qed

theorem acknowledged_is_committed_witness:
  "\<exists>r sp' lk'. deliver_pending (toy_sender ''k'') default_limits (one_codec (one_record sample_run sample_text))
       (transmit toy_codec default_bounds toy_shown (\<lambda>_. Answered) (\<lambda>_. toy_moment)) (\<lambda>_. plain_turn) None UNKNOWN_RESPONSE_MAX_ATTEMPTS (one_spool 0) toy_link
     = (r, sp', lk') \<and> link_ok toy_codec (\<lambda>_. toy_moment) lk'"
proof -
  obtain r sp' lk' where d: "deliver_pending (toy_sender ''k'') default_limits (one_codec (one_record sample_run sample_text))
       (transmit toy_codec default_bounds toy_shown (\<lambda>_. Answered) (\<lambda>_. toy_moment)) (\<lambda>_. plain_turn) None UNKNOWN_RESPONSE_MAX_ATTEMPTS (one_spool 0) toy_link
     = (r, sp', lk')" by (metis prod_cases3)
  from acknowledged_is_committed [OF d toy_link_ok] d show ?thesis by blast
qed

definition toy_observed :: observed where
  "toy_observed = \<lparr>ob_now = 1000, ob_run = ''0b'', ob_dns = slot_ok, ob_https = slot_ok, ob_tcp = slot_ok,
     ob_egress = [(PStr ''status'', PStr ''ok''), (PStr ''latency_ms'', PInt 40), (PStr ''error_code'', PStr ''NONE''),
        (PStr ''ip'', PStr ''192.0.2.7''), (PStr ''change'', PStr ''unchanged'')],
     ob_api = ''ok'', ob_active = [active_entry ''reality'' ''ok'' (Some 31) ''p6'', active_entry ''hy2'' ''ok'' (Some 31) ''p6''],
     ob_cached = [], ob_unavailable = []\<rparr>"

definition toy_agent :: agent where
  "toy_agent = \<lparr>ag_probe = ''office-1'', ag_spool = toy_spool, ag_run = sample_run, ag_seq = 6, ag_last_epoch = None, ag_staged = None,
     ag_baseline = None, ag_resume_at = 0, ag_next_retention = 3600, ag_backoff = 0, ag_state = ''not_configured'', ag_cycles = 0, ag_failures = 0,
     ag_overlaps = 0, ag_rollbacks = 0, ag_spool_failures = 0, ag_retention_runs = 0, ag_retention_failures = 0, ag_deferrals = 0,
     ag_baseline_failures = 0\<rparr>"

definition toy_cycle :: cycle_env where
  "toy_cycle = \<lparr>cy_busy = False, cy_due = 10, cy_retained = 10, cy_retain = Landed, cy_wall = 1000, cy_seen = toy_observed, cy_write = Written,
     cy_save = Landed, cy_baseline_written = True, cy_send = 10, cy_sent = 11, cy_turns = (\<lambda>_. plain_turn)\<rparr>"

definition toy_agent_codec :: agent_codec where
  "toy_agent_codec = \<lparr>ac_spool = one_codec (one_record sample_run sample_text), ac_dumps = toy_dumps, ac_loads = toy_loads\<rparr>"

lemma toy_collected:
  "fst (collect_sample toy_observed (toy_agent\<lparr>ag_cycles := 1\<rparr>)) = dict_items good_sample"
  "ag_run (snd (collect_sample toy_observed (toy_agent\<lparr>ag_cycles := 1\<rparr>))) = sample_run"
  "ag_seq (snd (collect_sample toy_observed (toy_agent\<lparr>ag_cycles := 1\<rparr>))) = 7"
  "ag_probe (snd (collect_sample toy_observed (toy_agent\<lparr>ag_cycles := 1\<rparr>))) = ''office-1''"
  "ag_resume_at (snd (collect_sample toy_observed (toy_agent\<lparr>ag_cycles := 1\<rparr>))) = 0"
  by code_simp+

lemma toy_collected_spool: "ag_spool (snd (collect_sample ob ag)) = ag_spool ag"
  by (simp add: collect_sample_def take_epoch_def next_seq_def start_run_def Let_def split: option.split)

lemma toy_appended:
  "\<exists>sp. append_record default_limits (one_codec (one_record sample_run sample_text)) Written Landed ''office-1'' sample_run 7 sample_text 1000 toy_spool = (Inr 1, sp)
     \<and> pending default_limits (one_codec (one_record sample_run sample_text)) sp = Inr [one_record sample_run sample_text]"
proof -
  let ?q = "one_record sample_run sample_text"
  let ?sc = "one_codec ?q"
  have q: "\<lparr>q_id = 1, q_probe = ''office-1'', q_run = sample_run, q_seq = 7, q_epoch = Fin 1000, q_body = sample_text\<rparr> = ?q" by (simp add: one_record_def)
  have n: "cu_next (sp_cursor toy_spool) = 1" "cu_resolved (sp_cursor toy_spool) = 0" by (simp_all add: toy_spool_def first_cursor_def)
  have line: "record_line ?sc ?q = ''rec-1'' @ [LF]"
    unfolding record_line_def one_value by (simp add: one_codec_def listed_codec_def one_line)
  obtain sp where a: "append_record default_limits ?sc Written Landed ''office-1'' sample_run 7 sample_text 1000 toy_spool = (Inr 1, sp)"
    using line q by (simp add: append_record_def toy_spool_def first_cursor_def append_line_def MAX_BODY_BYTES_def RECORD_MAX_BYTES_def sample_text_def)
  note w = append_written [OF toy_sound(1,3) a _ toy_sound(2), unfolded n q, OF one_line_fine]
  have b: "sn_blocked no_scan = 0" "sn_found no_scan = []" by (simp_all add: no_scan_def)
  have "pending default_limits ?sc sp = Inr [?q]"
    using pending_unblocked [OF w(2)] w(5) n b by simp
  with a show ?thesis by blast
qed

lemma outage_posts:
  assumes "pending L sc sp = Inr (q # qs)" and "tn_charge (turns 0) = Landed"
    and "sign_record sd (q_run q) (q_seq q) (q_body q) (tn_sent (turns 0)) = Inr h" and "poster w (q_body q) h = (Inl kind, w')"
  shows "\<exists>r sp'. deliver_pending sd L sc poster turns None max_unknown sp w = (r, sp', w')"
proof -
  let ?n = "attempts (q_id q) sp + 1"
  from note_attempt_landed [of "q_id q" sp] obtain sp' where n: "note_attempt Landed (q_id q) sp = (Inr ?n, sp')" by blast
  have "deliver_record sd poster max_unknown (turns 0) q no_summary sp w
      = (Ended (stop_retry (turns 0) ?n kind (no_summary\<lparr>dv_attempts := 1\<rparr>)), sp', w')"
    by (simp add: deliver_record_def assms(2-4) n) (simp add: no_summary_def)
  from deliver_pending_first [where turns = turns, OF assms(1) _ this] show ?thesis by blast
qed

lemma toy_cycle_parts:
  "cy_busy toy_cycle = False" "cy_due toy_cycle = 10" "cy_seen toy_cycle = toy_observed" "cy_write toy_cycle = Written" "cy_save toy_cycle = Landed"
  "cy_send toy_cycle = 10" "cy_turns toy_cycle = (\<lambda>_. plain_turn)" "ob_now toy_observed = 1000"
  "ag_next_retention toy_agent = 3600" "ag_cycles toy_agent = 0" "ag_spool toy_agent = toy_spool"
  by (simp_all add: toy_cycle_def toy_agent_def toy_observed_def)

lemma commit_baseline_resume: "ag_resume_at (commit_baseline b ag) = ag_resume_at ag"
  by (simp add: commit_baseline_def split: option.split)

theorem sends_only_after_spooling_witness:
  "\<exists>ag' ag2 r q. run_cycle plain_sender default_limits toy_agent_codec (\<lambda>w body h. (Inl ''ConnectionRefusedError'', Suc w)) toy_cycle toy_agent 0 = (r, ag', Suc 0)
    \<and> deliver plain_sender default_limits (ac_spool toy_agent_codec) (\<lambda>w body h. (Inl ''ConnectionRefusedError'', Suc w)) toy_cycle ag2 0 = (q, ag', Suc 0)"
proof -
  let ?poster = "\<lambda>w body h. (Inl ''ConnectionRefusedError'', Suc w)" and ?q = "one_record sample_run sample_text"
  let ?sc = "one_codec ?q"
  obtain d ag1 where c: "collect_sample toy_observed (toy_agent\<lparr>ag_cycles := 1\<rparr>) = (d, ag1)" by force
  have f: "d = dict_items good_sample" "ag_run ag1 = sample_run" "ag_seq ag1 = 7" "ag_probe ag1 = ''office-1''" "ag_resume_at ag1 = 0" "ag_spool ag1 = toy_spool"
    using toy_collected toy_collected_spool [of toy_observed "toy_agent\<lparr>ag_cycles := 1\<rparr>"] unfolding c by (simp_all add: toy_cycle_parts)
  from toy_appended obtain sp where a: "append_record default_limits ?sc Written Landed ''office-1'' sample_run 7 sample_text 1000 toy_spool = (Inr 1, sp)"
    "pending default_limits ?sc sp = Inr [?q]" by blast
  have ac: "ac_spool toy_agent_codec = ?sc" "ac_dumps toy_agent_codec = toy_dumps" "ac_loads toy_agent_codec = toy_loads" by (simp_all add: toy_agent_codec_def)
  have e: "encode_sample toy_dumps toy_loads (PDict d) = Inr sample_text" using toy_encoded good_dict f(1) by simp
  have s: "spool_sample default_limits ?sc toy_cycle sample_text ag1 = (Inr 1, sp)"
    unfolding spool_sample_def toy_cycle_parts f(2-4,6) by (rule a(1))
  define ag2 where "ag2 = (commit_baseline (cy_baseline_written toy_cycle) (ag1\<lparr>ag_spool := sp\<rparr>))\<lparr>ag_state := ''fresh''\<rparr>"
  have ag2: "ag_spool ag2 = sp" "ag_resume_at ag2 = 0" by (simp_all add: ag2_def commit_baseline_keeps commit_baseline_resume f(5))
  have sign: "sign_record plain_sender (q_run ?q) (q_seq ?q) (q_body ?q) (tn_sent plain_turn) = Inr (headers ''office-1'' 900 sample_run 7 ''5b'')"
    using plain_signed by (simp add: plain_turn_def)
  have "tn_charge plain_turn = Landed" by (simp add: plain_turn_def)
  from outage_posts [where turns = "\<lambda>_. plain_turn" and poster = ?poster and w = "0 :: nat" and max_unknown = UNKNOWN_RESPONSE_MAX_ATTEMPTS, OF a(2) this sign refl]
  obtain r0 sp0 where p: "deliver_pending plain_sender default_limits ?sc ?poster (\<lambda>_. plain_turn) None UNKNOWN_RESPONSE_MAX_ATTEMPTS sp 0 = (r0, sp0, Suc 0)" by blast
  obtain q ag3 where q: "deliver plain_sender default_limits ?sc ?poster toy_cycle ag2 0 = (q, ag3, Suc 0)"
    unfolding deliver_def ag2 toy_cycle_parts p by (cases r0) simp_all
  obtain r where w: "work_cycle plain_sender default_limits toy_agent_codec ?poster toy_cycle (toy_agent\<lparr>ag_cycles := 1\<rparr>) 0 = (r, ag3, Suc 0)"
    unfolding work_cycle_def toy_cycle_parts c prod.case Let_def ac e sum.case s ag2_def [symmetric, unfolded toy_cycle_parts] q by (cases q) simp_all
  have "run_cycle plain_sender default_limits toy_agent_codec ?poster toy_cycle toy_agent 0 = (r, ag3, Suc 0)"
    unfolding run_cycle_def toy_cycle_parts Let_def using w by simp
  from this sends_only_after_spooling [OF this] show ?thesis by blast
qed

definition two_cycles :: "cycle_env list" where
  "two_cycles = [toy_cycle, toy_cycle\<lparr>cy_seen := toy_observed\<lparr>ob_run := ''0c''\<rparr>\<rparr>]"

theorem identities_never_repeat_witness:
  "distinct (map (\<lambda>(r, s, _). (r, s)) (issued plain_sender default_limits toy_agent_codec
     (\<lambda>w body h. (Inl ''ConnectionRefusedError'', Suc w)) two_cycles toy_agent 0))"
proof -
  have "ag_run toy_agent = sample_run" "map (\<lambda>cy. ob_run (cy_seen cy)) two_cycles = [''0b'', ''0c'']"
    by (simp_all add: toy_agent_def two_cycles_def toy_cycle_def toy_observed_def)
  moreover have "distinct [sample_run, ''0b'', ''0c'']" by code_simp
  ultimately have "distinct (ag_run toy_agent # map (\<lambda>cy. ob_run (cy_seen cy)) two_cycles)" by metis
  from identities_never_repeat [OF this, of plain_sender default_limits toy_agent_codec "\<lambda>w body h. (Inl ''ConnectionRefusedError'', Suc w)" 0]
  show ?thesis by (simp only: Let_def)
qed

theorem echoes_never_corroborate_witness:
  "\<exists>entries. merge_evidence [active_entry ''reality'' ''ok'' (Some 31) ''p6''] [passive_entry ''reality'' ''ok'' (Some 31) ''p6'', passive_entry ''hy2'' ''timeout'' None ''p6'']
      = (entries, 2, 1) \<and> 2 = length (filter ee_independent entries)"
proof -
  have "\<exists>entries. merge_evidence [active_entry ''reality'' ''ok'' (Some 31) ''p6''] [passive_entry ''reality'' ''ok'' (Some 31) ''p6'', passive_entry ''hy2'' ''timeout'' None ''p6'']
      = (entries, 2, 1)" by (simp add: merge_evidence_def active_entry_def passive_entry_def test_key_def)
  then obtain entries where m: "merge_evidence [active_entry ''reality'' ''ok'' (Some 31) ''p6''] [passive_entry ''reality'' ''ok'' (Some 31) ''p6'', passive_entry ''hy2'' ''timeout'' None ''p6'']
      = (entries, 2, 1)" by blast
  from m echoes_never_corroborate [OF m] show ?thesis by blast
qed

end
