(* ===== verification/Spec2Isabelle.thy ===== *)
theory Spec2Isabelle
  imports Collector Controller Auth Attribution Pipeline Lifecycle Office
begin

text \<open>
  A verification development of the sing-box monitor (\<open>src/monitor-v2\<close>) and of the quality failover
  tool (\<open>src/tools/quality_failover\<close>). Every definition is executable and is translated from the
  Python source named below.

  \<^bold>\<open>The program.\<close> The monitor subscribes to the connection stream of the sing-box API (protobuf over
  gRPC-web), keeps a table of live connections and a ledger of accumulated traffic, and serves snapshots
  to a web dashboard behind an admin login. A separate journal reader polls the service's journal, reduces every
  window to closed-schema records and hands them over as numbered files in an exchange directory; the monitor
  ingests them into its history database. An incident classifier judges bounded bundles of stored
  samples, device states, probe results and journal events, and a scanner thread opens, updates and closes incident
  windows in the database from its verdicts. The failover tool watches the paths of a
  Clash selector group, judges authenticated upload probes and moves the group it owns. Remote probes measure the
  paths from an office, keep every sample in a durable spool and send it, signed, to the monitor, which authenticates
  it and stores it with a receipt that makes retries harmless.

  \<^bold>\<open>Theories and the code they model.\<close>
  \<^item> \<open>Prelude\<close>: results with Python exceptions (\<open>exn\<close>, \<open>res\<close>), insertion-ordered dictionaries as
    association lists, the sums of the ledger, rounding, and the locales \<open>machine\<close> and
    \<open>monotone_machine\<close> (an invariant kept by every step, a measure that never goes down).
  \<^item> \<open>PyVal\<close>: dynamically typed Python values as JSON gives them, and the conversion of an integer to a
    float, which can raise.
  \<^item> \<open>Wire\<close> (\<open>api_bridge/proto_wire.py\<close>): varints, the field loop of \<open>decode_message\<close>, the message
    specifications, \<open>decode_connection_events\<close>; bytes are \<open>8 word\<close>. Codecs share the locale
    \<open>stream_codec\<close> (one item read from the front of a stream), interpreted on varints and on fields.
  \<^item> \<open>Tracker\<close>, \<open>Ledger\<close> (\<open>collector.py\<close>, class \<open>Tracker\<close>): the state record, NEW, UPDATE and CLOSED
    events, resets, the banked records and the replay guard; \<open>Ledger\<close> has the invariant and the accounting
    theorems. \<open>Snapshot\<close>: \<open>Tracker.snapshot\<close>. \<open>Collector\<close>: \<open>Collector.consume\<close> over a script of stream
    outcomes (\<open>Got\<close> a batch, \<open>Raised\<close> an exception) with the clock readings it makes.
  \<^item> \<open>Policy\<close> (\<open>quality_failover/policy.py\<close>): policies, confirmations, \<open>Path.observe\<close>, the engine and the
    ownership of the selector group. \<open>Controller\<close> (\<open>controller.py\<close>, \<open>runtime.py\<close>, the judgement in
    \<open>transport.py\<close>): selection, route confirmation, passive suspicion, the probe budget, one cycle.
  \<^item> \<open>Auth\<close> (\<open>web/auth.py\<close>, \<open>web/recovery.py\<close>): hashing records, the failed-login limiter, sessions and
    step-up windows, the credential store, the recovery guard. The locale \<open>sliding_lockout\<close> states the
    lockout law once, for the login and the recovery limiter.
  \<^item> \<open>Vocab\<close>, \<open>Refusal\<close>, \<open>Classifier\<close>, \<open>Attribution\<close> (\<open>web/incident_classifier.py\<close>): vocabularies, thresholds and
    bitsets (locale \<open>bit_vocab\<close>), validation of a bundle, and the analysis up to the sealed verdict.

  \<^item> \<open>Frames\<close> (\<open>api_bridge/grpc_web.py\<close>): the URL check, the response head, the body pump (plain or chunked) over
    a script of receive outcomes, frames, trailers and the batches \<open>Collector\<close> consumes.
  \<^item> \<open>Journal\<close> (\<open>journal_reader/normalize.py\<close>, \<open>classifier.py\<close>, \<open>eligibility.py\<close>, \<open>fingerprint.py\<close>, \<open>cursor.py\<close>,
    \<open>schema.py\<close>): from a raw message to its class, port and privacy template; regular expressions are written out
    as matchers. \<open>Reader\<close> (\<open>reader.py\<close>, class \<open>_Batch\<close> and \<open>_consume\<close>): one window and its exchange body.
  \<^item> \<open>Exchange\<close> (\<open>state.py\<close>, the rest of \<open>reader.py\<close>): the state grammar, the recovery table, and startup, cycle and
    reset as lists of durable operations (\<open>op\<close>) on a disk. \<open>happen\<close> executes any prefix of such a list, which is a
    crash or a failed write at that point. \<open>legal\<close> is the protocol as an inductive relation, \<open>sound\<close> its invariant.
  \<^item> \<open>Ingest\<close> (\<open>journal_reader/ingest_contract.py\<close>): the pure settlement contract. \<open>Store\<close> (the journal section of
    \<open>web/incident_history.py\<close>): the same pass with one transaction per settlement. \<open>Pipeline\<close>: both processes
    interleaved over one directory.

  \<^item> \<open>Incidents\<close> (the incident plane of \<open>web/incident_history.py\<close>): the window table with its constraints, the row of
    the runtime state with its gates, every transaction on them, markers, the evidence bundle, the heartbeat.
    \<open>Runtime\<close> (\<open>web/incident_runtime.py\<close>): activation and one scan cycle as computations (\<open>job\<close>) over the scanner's
    fields and the store that may abort; \<open>runs\<close> are their pre- and postconditions, \<open>stage_step\<close> and \<open>cycle_step\<close> the
    relations they refine. \<open>Lifecycle\<close>: the properties over whole histories (\<open>occur\<close>) and a concrete one.

  \<^item> \<open>Sample\<close> (\<open>remote_probe/payload.py\<close>): the schema of a sample, the signing string, the headers. \<open>Evidence\<close>,
    \<open>Receipts\<close> (\<open>web/remote_store.py\<close>): the tables of runs, receipts and samples as lists, retention and admission
    inside transactions with an outcome (\<open>call_env\<close>), and the theorems on them. \<open>Intake\<close>, \<open>Plane\<close>
    (\<open>web/remote_ingest.py\<close>, \<open>web/remote_registry.py\<close>): token buckets, the registry, the handling of one request, status.
    \<open>Spool\<close>, \<open>Queue\<close> (\<open>remote_probe/spool.py\<close>): the chain of record files as byte strings, the cursor, and the queue.

  \<^bold>\<open>What the lemmas show.\<close> Wire: round trips, totality of decoding, skipping of unknown fields. Ledger: the
  tracker invariant, totals that never decrease, replay protection, exact booking. Snapshot: totals are the
  accumulated ones, reading changes nothing. Collector: totals and health under failures, termination.
  Policy and Controller: exact hysteresis, proposals only to verified paths after every hold, changing
  requests only to the owned group, the probe budget. Auth: bounded guessing, deadlines, step-up bound to its
  session, atomic credential changes. Classifier: closed and storable verdicts, what every attribution rests on.
  Frames: delivery does not depend on how bytes travel. Reader: every line is accounted for and the monitor accepts
  what is written. Exchange: exactly-once export under crashes, recovery never locks out, bounded directory.
  Ingest, Store and Pipeline: one settlement per number, the store refines the contract, exactly once end to end.
  Lifecycle: consistent incident tables, what opens and what closes a window, the one verdict that cannot close it.
  Sample: what a signature binds and what the gate lets through. Receipts: the store always reopens, accepts a sample
  at most once, answers retries from the receipt and stays bounded. Intake and Plane: only authentic requests succeed,
  unauthorized ones change nothing, buckets never over-grant. Queue: order, no loss by compaction, durable appends,
  no identifier twice, and what a torn write does.

  \<^bold>\<open>Conventions.\<close> Clock readings, random tokens, answers of other processes and outcomes of file writes are
  arguments; operations under a mutex are atomic, so a concurrent history is a sequence of operations. Floats
  are exact rationals (\<open>rat\<close>): rounding of float arithmetic is not modelled, \<open>nan\<close> and infinities only where
  JSON input can carry them. Strings are their UTF-8 bytes; case, digits and word characters beyond ASCII are not
  modelled. A durable write with its scratch file, \<open>fsync\<close> and rename is one operation that happens or not. The eviction loop and \<open>decode_loop\<close> terminate by
  measure, as do the body pump, the batch loop and the ingest loops; \<open>consume\<close> is recursive on the script of outcomes, so no fuel is used anywhere.

  \<^bold>\<open>Parameters.\<close> \<open>hashlib.scrypt\<close>, \<open>hashlib.sha256\<close>, the keyed hash of templates and \<open>repr\<close> of a float are
  function arguments; atomic replacement of a file either happens or raises; what the journal child prints, the apply
  function of the contract and the outcome of every SQLite commit (landed, rolled back, landed unseen) are arguments.

  \<^bold>\<open>Not modelled.\<close> The SQL tables of timeline and probes, schema migration, size pruning and query views
  (\<open>web/incident_history.py\<close>), the waiting loop and join of the scanner thread, HTTP serving and rendering (\<open>web/server.py\<close>), sockets and
  TLS (\<open>diagnostics/network_probes.py\<close>, transports), child process handling and the key file of the journal reader,
  the delivery loop and the probes of the remote agent, the desktop user interface, shell deployment scripts.

  \<^bold>\<open>Plan.\<close> Next: the delivery loop and the cycle of the remote agent, the mihomo model and the incident presenter.
\<close>

end
